(* ===== verification/Kronos_Prelude.thy ===== *)
theory Kronos_Prelude
  imports Main "HOL-Library.Word" "HOL-Library.Monad_Syntax"
begin

text \<open>
  Shared vocabulary of the development: the C integer types as words, bytes and buffers,
  the memory primitives with their bounds, and the generic lemmas that every component
  theory uses.

  Conventions used everywhere:
  \<^item> \<open>uint8_t\<close>, \<open>uint16_t\<close>, \<open>uint32_t\<close> and \<open>uint64_t\<close> are \<open>u8\<close>, \<open>u16\<close>, \<open>u32\<close>, \<open>u64\<close>; the
    arithmetic of those types wraps, as in C. An expression that C evaluates in a wider type after
    promotion is written on \<open>nat\<close> or on the wider word;
  \<^item> a pointer argument that may be \<open>NULL\<close> is an \<open>option\<close>, with \<open>None\<close> for \<open>NULL\<close>;
  \<^item> a function whose execution can leave the bounds of a buffer returns an \<open>option\<close>: \<open>None\<close> is
    undefined behaviour of the C program (an out-of-bounds access), never an error code. Error
    codes are ordinary result values;
  \<^item> the outcome of each \<open>malloc\<close>, \<open>calloc\<close> or \<open>realloc\<close> is a \<open>bool\<close> argument (\<open>True\<close>: memory was
    obtained), so the allocation-failure branches are modelled too;
  \<^item> the clock \<open>GetTickCount64\<close> is an argument, the value the call returned.
\<close>

unbundle bit_operations_syntax

named_theorems mem_simps \<open>reads and writes of modelled buffers\<close>
named_theorems be_simps \<open>big-endian encodings\<close>

type_synonym u8 = "8 word"
type_synonym u16 = "16 word"
type_synonym u32 = "32 word"
type_synonym u64 = "64 word"
type_synonym bytes = "u8 list"

section \<open>Buffers\<close>

text \<open>
  A buffer is the list of its cells. \<open>mem_read\<close> and \<open>mem_write\<close> access a run of cells and are
  undefined outside the buffer.
\<close>

definition mem_read :: "'a list \<Rightarrow> nat \<Rightarrow> nat \<Rightarrow> 'a list option" where
  "mem_read m off n = (if off + n \<le> length m then Some (take n (drop off m)) else None)"

definition mem_write :: "'a list \<Rightarrow> nat \<Rightarrow> 'a list \<Rightarrow> 'a list option" where
  "mem_write m off xs =
     (if off + length xs \<le> length m
      then Some (take off m @ xs @ drop (off + length xs) m) else None)"

definition mem_get :: "'a list \<Rightarrow> nat \<Rightarrow> 'a option" where
  "mem_get m i = (if i < length m then Some (m ! i) else None)"

definition mem_set :: "'a list \<Rightarrow> nat \<Rightarrow> 'a \<Rightarrow> 'a list option" where
  "mem_set m i x = (if i < length m then Some (m[i := x]) else None)"

lemma mem_read_length [mem_simps]: "mem_read m off n = Some xs \<Longrightarrow> length xs = n"
  by (auto simp: mem_read_def split: if_splits)

lemma mem_write_length [mem_simps]: "mem_write m off xs = Some m' \<Longrightarrow> length m' = length m"
  by (auto simp: mem_write_def split: if_splits)

lemma mem_read_app [mem_simps]:
  "off = length pre \<Longrightarrow> n = length xs \<Longrightarrow> mem_read (pre @ xs @ post) off n = Some xs"
  by (simp add: mem_read_def)

lemma mem_read_all [mem_simps]: "n = length xs \<Longrightarrow> mem_read xs 0 n = Some xs"
  by (simp add: mem_read_def)

lemma mem_read_prefix: "n \<le> length xs \<Longrightarrow> mem_read xs 0 n = Some (take n xs)"
  by (simp add: mem_read_def)

text \<open>Writing right after a prefix already written: the shape every serializer produces.\<close>

lemma mem_write_append:
  assumes "off = length pre" and "length pre + length xs \<le> length m"
  shows "mem_write (pre @ drop (length pre) m) off xs =
           Some ((pre @ xs) @ drop (length (pre @ xs)) m)"
  using assms by (simp add: mem_write_def add.commute)

lemma mem_write_start:
  assumes "length xs \<le> length m"
  shows "mem_write m 0 xs = Some (xs @ drop (length xs) m)"
  using assms by (simp add: mem_write_def)

lemma mem_get_Some_iff: "mem_get m i = Some x \<longleftrightarrow> i < length m \<and> m ! i = x"
  by (auto simp: mem_get_def)

lemma mem_set_Some_iff: "mem_set m i x = Some m' \<longleftrightarrow> i < length m \<and> m' = m[i := x]"
  by (auto simp: mem_set_def)

section \<open>Lists\<close>

text \<open>Removing position \<open>i\<close> of a list.\<close>

definition remove_nth :: "nat \<Rightarrow> 'a list \<Rightarrow> 'a list" where
  "remove_nth i xs = take i xs @ drop (Suc i) xs"

lemma length_remove_nth [simp]: "i < length xs \<Longrightarrow> length (remove_nth i xs) = length xs - 1"
  by (simp add: remove_nth_def)

lemma remove_nth_append_mid [simp]: "remove_nth (length xs) (xs @ y # ys) = xs @ ys"
  by (simp add: remove_nth_def)

lemma set_remove_nth: "set (remove_nth i xs) \<subseteq> set xs"
  by (auto simp: remove_nth_def dest: in_set_takeD in_set_dropD)

lemma remove_nth_Cons [simp]:
  "remove_nth 0 (x # xs) = xs" "remove_nth (Suc i) (x # xs) = x # remove_nth i xs"
  by (simp_all add: remove_nth_def)

lemma distinct_remove_nth: "distinct xs \<Longrightarrow> distinct (remove_nth i xs)"
proof (induction xs arbitrary: i)
  case Nil
  then show ?case by (simp add: remove_nth_def)
next
  case (Cons x xs)
  then show ?case
    using set_remove_nth by (cases i) fastforce+
qed

lemma nth_remove_nth:
  "i < length xs \<Longrightarrow> j < length xs - 1 \<Longrightarrow> remove_nth i xs ! j = (if j < i then xs ! j else xs ! Suc j)"
  by (auto simp: remove_nth_def nth_append min_def)

lemma find_unique:
  assumes "x \<in> set xs" and "\<And>y. y \<in> set xs \<Longrightarrow> P y \<Longrightarrow> y = x" and "P x"
  shows "find P xs = Some x"
proof (cases "find P xs")
  case None
  with assms(1,3) show ?thesis by (auto simp: find_None_iff)
next
  case (Some y)
  then have "y \<in> set xs" and "P y" by (auto simp: find_Some_iff)
  with assms(2) have "y = x" by blast
  with Some show ?thesis by simp
qed

subsection \<open>Association lists\<close>

lemma map_of_distinct_nth:
  "distinct (map fst kvs) \<Longrightarrow> i < length kvs \<Longrightarrow> map_of kvs (fst (kvs ! i)) = Some (snd (kvs ! i))"
  by (simp add: map_of_eq_Some_iff)

lemma map_of_update_nth:
  assumes "distinct (map fst kvs)" and "i < length kvs" and "fst (kvs ! i) = k"
  shows "map_of (kvs[i := (k, v)]) = (map_of kvs)(k \<mapsto> v)"
  using assms
proof (induction kvs arbitrary: i)
  case (Cons a kvs)
  show ?case
  proof (cases i)
    case 0
    with Cons.prems show ?thesis by auto
  next
    case (Suc j)
    with Cons.prems have "fst a \<noteq> k" by auto
    with Suc Cons show ?thesis by (cases a) (auto simp: fun_eq_iff)
  qed
qed simp

lemma map_of_remove_nth:
  assumes "distinct (map fst kvs)" and "i < length kvs" and "fst (kvs ! i) = k"
  shows "map_of (remove_nth i kvs) = (map_of kvs)(k := None)"
  using assms
proof (induction kvs arbitrary: i)
  case (Cons a kvs)
  show ?case
  proof (cases i)
    case 0
    with Cons.prems have "map_of kvs k = None" by (auto simp: map_of_eq_None_iff)
    with 0 Cons.prems show ?thesis by (cases a) (auto simp: fun_eq_iff)
  next
    case (Suc j)
    with Cons.prems have "fst a \<noteq> k" by auto
    with Suc Cons show ?thesis by (cases a) (auto simp: fun_eq_iff)
  qed
qed simp

lemma map_of_snoc:
  assumes "k \<notin> fst ` set kvs"
  shows "map_of (kvs @ [(k, v)]) = (map_of kvs)(k \<mapsto> v)"
proof -
  have "map_of kvs k = None" using assms by (simp add: map_of_eq_None_iff)
  then show ?thesis by (simp add: map_add_def fun_eq_iff split: option.split)
qed

section \<open>Words\<close>

lemma unat_less_power_u8: "unat (x :: u8) < 256"
  using unsigned_less [of x] by simp

lemma unat_less_power_u16: "unat (x :: u16) < 65536"
  using unsigned_less [of x] by simp

lemma unat_less_power_u32: "unat (x :: u32) < 4294967296"
  using unsigned_less [of x] by simp

lemma unat_less_power_u64: "unat (x :: u64) < 18446744073709551616"
  using unsigned_less [of x] by simp

lemmas unat_bounds = unat_less_power_u8 unat_less_power_u16 unat_less_power_u32 unat_less_power_u64

lemma unat_add_no_wrap:
  fixes x y :: "'a::len word"
  assumes "unat x + unat y < 2 ^ LENGTH('a)"
  shows "unat (x + y) = unat x + unat y"
  using assms by (simp add: unat_word_ariths)

lemma unat_sub_no_wrap:
  fixes x y :: "'a::len word"
  assumes "unat y \<le> unat x"
  shows "unat (x - y) = unat x - unat y"
  using assms by (simp add: unat_sub word_le_nat_alt)

lemma unat_ucast_widen:
  fixes x :: "'a::len word"
  assumes "LENGTH('a) \<le> LENGTH('b::len)"
  shows "unat (ucast x :: 'b word) = unat x"
proof -
  have "unat x < 2 ^ LENGTH('b)"
    by (rule order_less_le_trans [OF unsigned_less]) (simp add: assms power_increasing)
  then show ?thesis
    by (simp add: unsigned_ucast_eq take_bit_nat_eq_self)
qed

lemma unat_of_nat_small: "n < 2 ^ LENGTH('a) \<Longrightarrow> unat (of_nat n :: 'a::len word) = n"
  by (simp add: unat_of_nat take_bit_nat_eq_self)

section \<open>Big-endian byte sequences\<close>

text \<open>
  \<open>be_bytes n v\<close> is the list of the low \<open>n\<close> bytes of \<open>v\<close>, the most significant first;
  \<open>be_value\<close> reads such a list back. The C code spells both out byte by byte.
\<close>

definition be_bytes :: "nat \<Rightarrow> 'a::len word \<Rightarrow> bytes" where
  "be_bytes n v = map (\<lambda>k. ucast (drop_bit (8 * (n - 1 - k)) v)) [0..<n]"

definition be_value :: "bytes \<Rightarrow> 'a::len word" where
  "be_value bs = foldl (\<lambda>v b. push_bit 8 v OR ucast b) 0 bs"

lemma length_be_bytes [simp]: "length (be_bytes n v) = n"
  by (simp add: be_bytes_def)

lemma be_bytes_Suc: "be_bytes (Suc n) v = be_bytes n (drop_bit 8 v) @ [ucast v]"
proof -
  have "(\<lambda>k. ucast (drop_bit (8 * (n - k)) v) :: u8) k =
        ucast (drop_bit (8 * (n - 1 - k)) (drop_bit 8 v))" if "k \<in> set [0..<n]" for k
  proof -
    from that have "n - k = Suc (n - 1 - k)" by auto
    then show ?thesis by (simp add: add.commute)
  qed
  then show ?thesis
    by (simp add: be_bytes_def cong: map_cong)
qed

lemma be_value_snoc: "be_value (bs @ [b]) = push_bit 8 (be_value bs) OR ucast b"
  by (simp add: be_value_def)

lemma push_or_take_bit:
  fixes v :: "'a::len word"
  shows "push_bit 8 (take_bit m (drop_bit 8 v)) OR ucast (ucast v :: u8) = take_bit (m + 8) v"
  by (rule bit_word_eqI) (auto simp: bit_simps)

text \<open>The round trip: the value read back is the low \<open>8 * n\<close> bits of the value written.\<close>

lemma be_value_be_bytes: "be_value (be_bytes n v) = take_bit (8 * n) (v :: 'a::len word)"
proof (induction n arbitrary: v)
  case 0
  show ?case by (simp add: be_value_def be_bytes_def)
next
  case (Suc n)
  show ?case
    by (simp add: be_bytes_Suc be_value_snoc Suc.IH push_or_take_bit add.commute)
qed

lemma be_value_be_bytes_full [be_simps]:
  "LENGTH('a) \<le> 8 * n \<Longrightarrow> be_value (be_bytes n v) = (v :: 'a::len word)"
  by (simp add: be_value_be_bytes take_bit_word_eq_self)

subsection \<open>The interface of a fixed-width wire encoding\<close>

text \<open>
  A wire field has a fixed width and a decoder that inverts the encoder. A client reads a field
  out of the middle of a datagram; that it finds the value written there is proved once.
\<close>

locale wire_codec =
  fixes enc :: "'v \<Rightarrow> bytes"
    and dec :: "bytes \<Rightarrow> 'v"
    and width :: nat
  assumes enc_width: "length (enc v) = width"
    and dec_enc: "dec (enc v) = v"
begin

lemma read_back:
  assumes "off = length pre"
  shows "map_option dec (mem_read (pre @ enc v @ post) off width) = Some v"
  using assms by (simp add: mem_read_def enc_width dec_enc)

lemma enc_inject: "enc v = enc w \<longleftrightarrow> v = w"
  by (metis dec_enc)

lemma enc_append_inject: "enc v @ xs = enc w @ ys \<longleftrightarrow> v = w \<and> xs = ys"
  by (simp add: append_eq_append_conv enc_width enc_inject)

end

interpretation be16: wire_codec "be_bytes 2 :: u16 \<Rightarrow> bytes" be_value 2
  by unfold_locales (simp_all add: be_value_be_bytes_full)

interpretation be32: wire_codec "be_bytes 4 :: u32 \<Rightarrow> bytes" be_value 4
  by unfold_locales (simp_all add: be_value_be_bytes_full)

interpretation be64: wire_codec "be_bytes 8 :: u64 \<Rightarrow> bytes" be_value 8
  by unfold_locales (simp_all add: be_value_be_bytes_full)

end
