(* ===== verification/Kronos_Error.thy ===== *)
theory Kronos_Error
  imports Kronos_Prelude
begin

text \<open>
  Error codes, categories and result structures: \<open>include/kronos_error.h\<close> and
  \<open>src/error/error_messages.c\<close>. The enumeration is a datatype; \<open>krs_code\<close> gives the numeric value of
  each enumerator. The three query functions of the source take a \<open>krs_error_t\<close>, which in C may
  hold any integer, so they are modelled on \<open>int\<close>, default branches included.
\<close>

section \<open>The enumeration\<close>

datatype krs_error =
    KRS_SUCCESS
  | KRS_ERR_NULL_POINTER
  | KRS_ERR_INVALID_PARAMETER
  | KRS_ERR_MEMORY_ALLOCATION
  | KRS_ERR_BUFFER_TOO_SMALL
  | KRS_ERR_NOT_INITIALIZED
  | KRS_ERR_ALREADY_INITIALIZED
  | KRS_ERR_NOT_NULL_TERMINATED
  | KRS_ERR_TOO_LONG
  | KRS_ERR_FRAME_INVALID_HEADER
  | KRS_ERR_FRAME_INVALID_PROTOCOL
  | KRS_ERR_FRAME_CORRUPT_DATA
  | KRS_ERR_FRAME_UNSUPPORTED_VERSION
  | KRS_ERR_FRAME_INVALID_TYPE
  | KRS_ERR_FRAME_BODY_TOO_LARGE
  | KRS_ERR_FRAME_ALREADY_FREED
  | KRS_ERR_FRAGMENT_PAYLOAD_OVERSIZED
  | KRS_ERR_NETWORK_INVALID_IP
  | KRS_ERR_NETWORK_INVALID_PORT
  | KRS_ERR_NETWORK_CONNECTION_FAILED
  | KRS_ERR_NETWORK_SOCKET_ERROR
  | KRS_ERR_NETWORK_TIMEOUT
  | KRS_ERR_NETWORK_ADDRESS_IN_USE
  | KRS_ERR_NETWORK_UNREACHABLE
  | KRS_ERR_SERVER_PORT_IN_USE
  | KRS_ERR_SERVER_MAX_CONNECTIONS
  | KRS_ERR_SERVER_NOT_LISTENING
  | KRS_ERR_SERVER_BIND_FAILED
  | KRS_ERR_SERVER_ALREADY_RUNNING
  | KRS_ERR_SERVER_CONGESTION_WINDOW_FULL
  | KRS_ERR_CLIENT_NOT_CONNECTED
  | KRS_ERR_CLIENT_CONNECTION_LOST
  | KRS_ERR_CLIENT_HANDSHAKE_FAILED
  | KRS_ERR_CLIENT_AUTH_FAILED
  | KRS_ERR_CLIENT_TIMEOUT
  | KRS_ERR_MATH_OVERFLOW
  | KRS_ERR_MATH_UNDERFLOW
  | KRS_ERR_MATH_INVALID_BITMASK
  | KRS_ERR_MATH_DIVISION_BY_ZERO
  | KRS_ERR_PLATFORM_WINDOWS_SOCKET
  | KRS_ERR_PLATFORM_LINUX_EPOLL
  | KRS_ERR_PLATFORM_UNSUPPORTED

primrec krs_code :: "krs_error \<Rightarrow> int" where
    "krs_code KRS_SUCCESS = 0"
  | "krs_code KRS_ERR_NULL_POINTER = 1"
  | "krs_code KRS_ERR_INVALID_PARAMETER = 2"
  | "krs_code KRS_ERR_MEMORY_ALLOCATION = 3"
  | "krs_code KRS_ERR_BUFFER_TOO_SMALL = 4"
  | "krs_code KRS_ERR_NOT_INITIALIZED = 5"
  | "krs_code KRS_ERR_ALREADY_INITIALIZED = 6"
  | "krs_code KRS_ERR_NOT_NULL_TERMINATED = 7"
  | "krs_code KRS_ERR_TOO_LONG = 8"
  | "krs_code KRS_ERR_FRAME_INVALID_HEADER = 100"
  | "krs_code KRS_ERR_FRAME_INVALID_PROTOCOL = 101"
  | "krs_code KRS_ERR_FRAME_CORRUPT_DATA = 102"
  | "krs_code KRS_ERR_FRAME_UNSUPPORTED_VERSION = 103"
  | "krs_code KRS_ERR_FRAME_INVALID_TYPE = 104"
  | "krs_code KRS_ERR_FRAME_BODY_TOO_LARGE = 105"
  | "krs_code KRS_ERR_FRAME_ALREADY_FREED = 106"
  | "krs_code KRS_ERR_FRAGMENT_PAYLOAD_OVERSIZED = 107"
  | "krs_code KRS_ERR_NETWORK_INVALID_IP = 200"
  | "krs_code KRS_ERR_NETWORK_INVALID_PORT = 201"
  | "krs_code KRS_ERR_NETWORK_CONNECTION_FAILED = 202"
  | "krs_code KRS_ERR_NETWORK_SOCKET_ERROR = 203"
  | "krs_code KRS_ERR_NETWORK_TIMEOUT = 204"
  | "krs_code KRS_ERR_NETWORK_ADDRESS_IN_USE = 205"
  | "krs_code KRS_ERR_NETWORK_UNREACHABLE = 206"
  | "krs_code KRS_ERR_SERVER_PORT_IN_USE = 300"
  | "krs_code KRS_ERR_SERVER_MAX_CONNECTIONS = 301"
  | "krs_code KRS_ERR_SERVER_NOT_LISTENING = 302"
  | "krs_code KRS_ERR_SERVER_BIND_FAILED = 303"
  | "krs_code KRS_ERR_SERVER_ALREADY_RUNNING = 304"
  | "krs_code KRS_ERR_SERVER_CONGESTION_WINDOW_FULL = 305"
  | "krs_code KRS_ERR_CLIENT_NOT_CONNECTED = 400"
  | "krs_code KRS_ERR_CLIENT_CONNECTION_LOST = 401"
  | "krs_code KRS_ERR_CLIENT_HANDSHAKE_FAILED = 402"
  | "krs_code KRS_ERR_CLIENT_AUTH_FAILED = 403"
  | "krs_code KRS_ERR_CLIENT_TIMEOUT = 404"
  | "krs_code KRS_ERR_MATH_OVERFLOW = 500"
  | "krs_code KRS_ERR_MATH_UNDERFLOW = 501"
  | "krs_code KRS_ERR_MATH_INVALID_BITMASK = 502"
  | "krs_code KRS_ERR_MATH_DIVISION_BY_ZERO = 503"
  | "krs_code KRS_ERR_PLATFORM_WINDOWS_SOCKET = 600"
  | "krs_code KRS_ERR_PLATFORM_LINUX_EPOLL = 650"
  | "krs_code KRS_ERR_PLATFORM_UNSUPPORTED = 699"

definition krs_all_errors :: "krs_error list" where
  "krs_all_errors =
     [KRS_SUCCESS, KRS_ERR_NULL_POINTER, KRS_ERR_INVALID_PARAMETER, KRS_ERR_MEMORY_ALLOCATION,
      KRS_ERR_BUFFER_TOO_SMALL, KRS_ERR_NOT_INITIALIZED, KRS_ERR_ALREADY_INITIALIZED,
      KRS_ERR_NOT_NULL_TERMINATED, KRS_ERR_TOO_LONG, KRS_ERR_FRAME_INVALID_HEADER,
      KRS_ERR_FRAME_INVALID_PROTOCOL, KRS_ERR_FRAME_CORRUPT_DATA,
      KRS_ERR_FRAME_UNSUPPORTED_VERSION, KRS_ERR_FRAME_INVALID_TYPE,
      KRS_ERR_FRAME_BODY_TOO_LARGE, KRS_ERR_FRAME_ALREADY_FREED,
      KRS_ERR_FRAGMENT_PAYLOAD_OVERSIZED, KRS_ERR_NETWORK_INVALID_IP,
      KRS_ERR_NETWORK_INVALID_PORT, KRS_ERR_NETWORK_CONNECTION_FAILED,
      KRS_ERR_NETWORK_SOCKET_ERROR, KRS_ERR_NETWORK_TIMEOUT, KRS_ERR_NETWORK_ADDRESS_IN_USE,
      KRS_ERR_NETWORK_UNREACHABLE, KRS_ERR_SERVER_PORT_IN_USE, KRS_ERR_SERVER_MAX_CONNECTIONS,
      KRS_ERR_SERVER_NOT_LISTENING, KRS_ERR_SERVER_BIND_FAILED, KRS_ERR_SERVER_ALREADY_RUNNING,
      KRS_ERR_SERVER_CONGESTION_WINDOW_FULL, KRS_ERR_CLIENT_NOT_CONNECTED,
      KRS_ERR_CLIENT_CONNECTION_LOST, KRS_ERR_CLIENT_HANDSHAKE_FAILED,
      KRS_ERR_CLIENT_AUTH_FAILED, KRS_ERR_CLIENT_TIMEOUT, KRS_ERR_MATH_OVERFLOW,
      KRS_ERR_MATH_UNDERFLOW, KRS_ERR_MATH_INVALID_BITMASK, KRS_ERR_MATH_DIVISION_BY_ZERO,
      KRS_ERR_PLATFORM_WINDOWS_SOCKET, KRS_ERR_PLATFORM_LINUX_EPOLL,
      KRS_ERR_PLATFORM_UNSUPPORTED]"

text \<open>The enumerator an integer denotes, if any.\<close>

definition krs_error_of_code :: "int \<Rightarrow> krs_error option" where
  "krs_error_of_code c = find (\<lambda>e. krs_code e = c) krs_all_errors"

datatype krs_category =
    KRS_ERR_CATEGORY_SUCCESS
  | KRS_ERR_CATEGORY_GENERAL
  | KRS_ERR_CATEGORY_FRAME
  | KRS_ERR_CATEGORY_NETWORK
  | KRS_ERR_CATEGORY_SERVER
  | KRS_ERR_CATEGORY_CLIENT
  | KRS_ERR_CATEGORY_MATH
  | KRS_ERR_CATEGORY_PLATFORM

section \<open>Messages, categories, fatality\<close>

primrec krs_error_text :: "krs_error \<Rightarrow> string" where
    "krs_error_text KRS_SUCCESS = ''Success''"
  | "krs_error_text KRS_ERR_NULL_POINTER = ''Null pointer argument''"
  | "krs_error_text KRS_ERR_INVALID_PARAMETER = ''Invalid parameter''"
  | "krs_error_text KRS_ERR_MEMORY_ALLOCATION = ''Memory allocation failed''"
  | "krs_error_text KRS_ERR_BUFFER_TOO_SMALL = ''Buffer too small''"
  | "krs_error_text KRS_ERR_NOT_INITIALIZED = ''Not initialized''"
  | "krs_error_text KRS_ERR_ALREADY_INITIALIZED = ''Already initialized''"
  | "krs_error_text KRS_ERR_NOT_NULL_TERMINATED = ''String not null-terminated within buffer''"
  | "krs_error_text KRS_ERR_TOO_LONG = ''Input exceeds maximum length''"
  | "krs_error_text KRS_ERR_FRAME_INVALID_HEADER = ''Frame header is invalid or too short''"
  | "krs_error_text KRS_ERR_FRAME_INVALID_PROTOCOL = ''Frame does not start with magic byte 0x4B''"
  | "krs_error_text KRS_ERR_FRAME_CORRUPT_DATA = ''Frame body data is corrupt''"
  | "krs_error_text KRS_ERR_FRAME_UNSUPPORTED_VERSION = ''Frame protocol version is not supported''"
  | "krs_error_text KRS_ERR_FRAME_INVALID_TYPE = ''Unknown frame type''"
  | "krs_error_text KRS_ERR_FRAME_BODY_TOO_LARGE = ''Frame body exceeds maximum size''"
  | "krs_error_text KRS_ERR_FRAME_ALREADY_FREED = ''Frame has already been freed''"
  | "krs_error_text KRS_ERR_FRAGMENT_PAYLOAD_OVERSIZED = ''fragment payload exceeds per-fragment maximum (malformed frame)''"
  | "krs_error_text KRS_ERR_NETWORK_INVALID_IP = ''Invalid IP address format''"
  | "krs_error_text KRS_ERR_NETWORK_INVALID_PORT = ''Invalid port number''"
  | "krs_error_text KRS_ERR_NETWORK_CONNECTION_FAILED = ''Network connection failed''"
  | "krs_error_text KRS_ERR_NETWORK_SOCKET_ERROR = ''Socket error''"
  | "krs_error_text KRS_ERR_NETWORK_TIMEOUT = ''Network operation timed out''"
  | "krs_error_text KRS_ERR_NETWORK_ADDRESS_IN_USE = ''Address already in use''"
  | "krs_error_text KRS_ERR_NETWORK_UNREACHABLE = ''Network unreachable''"
  | "krs_error_text KRS_ERR_SERVER_PORT_IN_USE = ''Port is already in use by the server''"
  | "krs_error_text KRS_ERR_SERVER_MAX_CONNECTIONS = ''Maximum connections reached''"
  | "krs_error_text KRS_ERR_SERVER_NOT_LISTENING = ''Server is not listening''"
  | "krs_error_text KRS_ERR_SERVER_BIND_FAILED = ''Server socket bind failed''"
  | "krs_error_text KRS_ERR_SERVER_ALREADY_RUNNING = ''Server is already running''"
  | "krs_error_text KRS_ERR_SERVER_CONGESTION_WINDOW_FULL = ''congestion window full''"
  | "krs_error_text KRS_ERR_CLIENT_NOT_CONNECTED = ''Client is not connected''"
  | "krs_error_text KRS_ERR_CLIENT_CONNECTION_LOST = ''Client connection was lost''"
  | "krs_error_text KRS_ERR_CLIENT_HANDSHAKE_FAILED = ''Client handshake failed''"
  | "krs_error_text KRS_ERR_CLIENT_AUTH_FAILED = ''Client authentication failed''"
  | "krs_error_text KRS_ERR_CLIENT_TIMEOUT = ''Client operation timed out''"
  | "krs_error_text KRS_ERR_MATH_OVERFLOW = ''Arithmetic overflow''"
  | "krs_error_text KRS_ERR_MATH_UNDERFLOW = ''Arithmetic underflow''"
  | "krs_error_text KRS_ERR_MATH_INVALID_BITMASK = ''Invalid bitmask''"
  | "krs_error_text KRS_ERR_MATH_DIVISION_BY_ZERO = ''Division by zero''"
  | "krs_error_text KRS_ERR_PLATFORM_WINDOWS_SOCKET = ''Windows socket error''"
  | "krs_error_text KRS_ERR_PLATFORM_LINUX_EPOLL = ''Linux epoll error''"
  | "krs_error_text KRS_ERR_PLATFORM_UNSUPPORTED = ''Platform not supported''"

definition krs_error_get_message :: "int \<Rightarrow> string" where
  "krs_error_get_message error =
     (case krs_error_of_code error of
        Some e \<Rightarrow> krs_error_text e
      | None \<Rightarrow> ''Unknown error'')"

definition krs_error_get_category :: "int \<Rightarrow> krs_category" where
  "krs_error_get_category error =
     (if error = krs_code KRS_SUCCESS then KRS_ERR_CATEGORY_SUCCESS
      else if error < 100 then KRS_ERR_CATEGORY_GENERAL
      else if error < 200 then KRS_ERR_CATEGORY_FRAME
      else if error < 300 then KRS_ERR_CATEGORY_NETWORK
      else if error < 400 then KRS_ERR_CATEGORY_SERVER
      else if error < 500 then KRS_ERR_CATEGORY_CLIENT
      else if error < 600 then KRS_ERR_CATEGORY_MATH
      else KRS_ERR_CATEGORY_PLATFORM)"

definition krs_error_is_fatal :: "int \<Rightarrow> bool" where
  "krs_error_is_fatal error =
     (case krs_error_of_code error of
        Some KRS_ERR_MEMORY_ALLOCATION \<Rightarrow> True
      | Some KRS_ERR_FRAME_CORRUPT_DATA \<Rightarrow> True
      | Some KRS_ERR_NETWORK_SOCKET_ERROR \<Rightarrow> True
      | Some KRS_ERR_SERVER_BIND_FAILED \<Rightarrow> True
      | Some KRS_ERR_PLATFORM_WINDOWS_SOCKET \<Rightarrow> True
      | Some KRS_ERR_PLATFORM_UNSUPPORTED \<Rightarrow> True
      | _ \<Rightarrow> False)"

section \<open>Result structures\<close>

record krs_result_base =
  rb_valid :: bool
  rb_error_code :: krs_error
  rb_error_message :: "string option"
  rb_free_error_message :: bool

text \<open>\<open>Void_r\<close> has a result base as its only member.\<close>

type_synonym void_r = krs_result_base

text \<open>A structure initialised with \<open>{0}\<close>.\<close>

definition result_base_zero :: krs_result_base where
  "result_base_zero = \<lparr>rb_valid = False, rb_error_code = KRS_SUCCESS, rb_error_message = None,
     rb_free_error_message = False\<rparr>"

definition krs_lib_error_result_base_suc :: krs_result_base where
  "krs_lib_error_result_base_suc = \<lparr>rb_valid = True, rb_error_code = KRS_SUCCESS,
     rb_error_message = None, rb_free_error_message = False\<rparr>"

definition krs_lib_error_result_base_w_msg :: "krs_error \<Rightarrow> string \<Rightarrow> krs_result_base" where
  "krs_lib_error_result_base_w_msg error_code msg = \<lparr>rb_valid = False, rb_error_code = error_code,
     rb_error_message = Some msg, rb_free_error_message = False\<rparr>"

text \<open>
  \<open>formatted\<close> is what \<open>vsnprintf\<close> produces for the format and its arguments, \<open>None\<close> when it reports an
  encoding error; \<open>alloc\<close> says whether \<open>malloc\<close> succeeded.
\<close>

definition krs_lib_error_result_base_w_msgf ::
    "krs_error \<Rightarrow> string option \<Rightarrow> bool \<Rightarrow> krs_result_base" where
  "krs_lib_error_result_base_w_msgf error_code formatted alloc =
     (let result = \<lparr>rb_valid = False, rb_error_code = error_code, rb_error_message = None,
                    rb_free_error_message = False\<rparr>
      in case formatted of
           None \<Rightarrow> result\<lparr>rb_error_message := Some ''error formatting message''\<rparr>
         | Some s \<Rightarrow>
             if \<not> alloc then result\<lparr>rb_error_message := Some ''out of memory''\<rparr>
             else result\<lparr>rb_error_message := Some s, rb_free_error_message := True\<rparr>)"

lemma result_base_simps [simp]:
  "rb_valid krs_lib_error_result_base_suc"
  "rb_error_code krs_lib_error_result_base_suc = KRS_SUCCESS"
  "\<not> rb_valid (krs_lib_error_result_base_w_msg e m)"
  "rb_error_code (krs_lib_error_result_base_w_msg e m) = e"
  "rb_error_message (krs_lib_error_result_base_w_msg e m) = Some m"
  "\<not> rb_free_error_message (krs_lib_error_result_base_w_msg e m)"
  by (simp_all add: krs_lib_error_result_base_suc_def krs_lib_error_result_base_w_msg_def)

section \<open>Lemmas\<close>

lemma krs_all_errors_complete: "e \<in> set krs_all_errors"
  by (cases e) (simp_all add: krs_all_errors_def)

lemma distinct_krs_codes: "distinct (map krs_code krs_all_errors)"
  by (simp add: krs_all_errors_def)

lemma krs_code_inject: "krs_code e = krs_code e' \<longleftrightarrow> e = e'"
  using distinct_krs_codes krs_all_errors_complete
  by (auto simp: distinct_map inj_on_def)

lemma krs_error_of_code_code [simp]: "krs_error_of_code (krs_code e) = Some e"
  unfolding krs_error_of_code_def
  by (rule find_unique) (simp_all add: krs_all_errors_complete krs_code_inject)

lemma krs_error_of_code_Some: "krs_error_of_code c = Some e \<longleftrightarrow> krs_code e = c"
proof
  assume "krs_error_of_code c = Some e"
  then show "krs_code e = c"
    by (auto simp: krs_error_of_code_def find_Some_iff)
qed auto

text \<open>
  Every enumerator is identified by its code: decoding the code of an error gives the error
  back, so the message of a code is the text of that enumerator; and the texts of two different
  enumerators differ, so no two errors are reported with the same message.
\<close>

theorem krs_error_messages_faithful:
  "krs_error_get_message (krs_code e) = krs_error_text e \<and>
   (krs_error_get_message (krs_code e) = krs_error_get_message (krs_code e') \<longleftrightarrow> e = e')"
proof -
  have inj: "inj_on krs_error_text (set krs_all_errors)"
    by (rule distinct_map [THEN iffD1, THEN conjunct2]) (simp add: krs_all_errors_def)
  show ?thesis
    using inj krs_all_errors_complete
    by (auto simp: krs_error_get_message_def inj_on_def)
qed

end
