(* ===== verification/Kronos_Math.thy ===== *)
theory Kronos_Math
  imports Kronos_Prelude
begin

text \<open>
  The arithmetic helpers of \<open>src/math\<close>: flag access in a left-to-right bit mask
  (\<open>bitmask.c\<close>) and big-endian reads (\<open>uint_conversion.c\<close>).
\<close>

section \<open>Bit masks\<close>

text \<open>
  The comparison \<open>flag_pos >= length * 8\<close> is evaluated in \<open>int\<close>, so it is written on \<open>nat\<close>.
  \<open>1 << (7 - bit_pos)\<close> is at most 128, so the mask fits the byte it is combined with.
\<close>

definition bitmask_bit :: "u8 \<Rightarrow> u8" where
  "bitmask_bit bit_pos = push_bit (7 - unat bit_pos) 1"

definition krs_math_bitmask_get_flag :: "u8 \<Rightarrow> bytes \<Rightarrow> u8 \<Rightarrow> bool option" where
  "krs_math_bitmask_get_flag flag_pos data len =
     (if unat flag_pos \<ge> unat len * 8 then Some False
      else
        let array_pos = flag_pos div 8; bit_pos = flag_pos mod 8 in
        do { b \<leftarrow> mem_get data (unat array_pos);
             Some (b AND bitmask_bit bit_pos \<noteq> 0) })"

definition krs_math_bitmask_set_flag :: "u8 \<Rightarrow> bytes \<Rightarrow> u8 \<Rightarrow> bytes option" where
  "krs_math_bitmask_set_flag flag_pos data len =
     (if unat flag_pos \<ge> unat len * 8 then Some data
      else
        let array_pos = flag_pos div 8; bit_pos = flag_pos mod 8 in
        do { b \<leftarrow> mem_get data (unat array_pos);
             mem_set data (unat array_pos) (b OR bitmask_bit bit_pos) })"

section \<open>Big-endian reads\<close>

definition krs_math_uint16_from_uint8 :: "u8 \<Rightarrow> u8 \<Rightarrow> u16" where
  "krs_math_uint16_from_uint8 ms_byte ls_byte = push_bit 8 (ucast ms_byte) OR ucast ls_byte"

text \<open>The loop \<open>for (int i = 0; i < 8; i++)\<close>, counted by the number \<open>n\<close> of rounds left.\<close>

fun uint64_loop :: "bytes \<Rightarrow> nat \<Rightarrow> nat \<Rightarrow> nat \<Rightarrow> u64 \<Rightarrow> u64 option" where
  "uint64_loop source offset i 0 result = Some result"
| "uint64_loop source offset i (Suc n) result =
     do { b \<leftarrow> mem_get source (offset + i);
          uint64_loop source offset (Suc i) n
            (result OR push_bit (8 * (7 - i)) (ucast b)) }"

definition krs_math_uint64_from_uint8 :: "bytes \<Rightarrow> u8 \<Rightarrow> u16 \<Rightarrow> u64 option" where
  "krs_math_uint64_from_uint8 source offset source_length =
     (if unat offset + 8 > unat source_length then Some 0
      else uint64_loop source (unat offset) 0 8 0)"

section \<open>Lemmas\<close>

lemma unat_div8: "unat ((p :: u8) div 8) = unat p div 8"
  by (simp add: unat_div)

lemma unat_mod8: "unat ((p :: u8) mod 8) = unat p mod 8"
  by (simp add: unat_mod)

lemma flag_in_range: "unat (p :: u8) < unat len * 8 \<Longrightarrow> unat p div 8 < unat (len :: u8)"
  by (simp add: div_less_iff_less_mult)

lemma and_bitmask_bit: "b AND bitmask_bit p \<noteq> 0 \<longleftrightarrow> bit b (7 - unat p)"
  by (simp add: bitmask_bit_def bit_iff_and_push_bit_not_eq_0)

lemma bit_or_bitmask_bit: "bit (b OR bitmask_bit p) n \<longleftrightarrow> bit b n \<or> n = 7 - unat p"
  by (auto simp: bitmask_bit_def bit_simps)

lemma get_flag_eq:
  assumes "unat p < unat len * 8" and "unat len \<le> length d"
  shows "krs_math_bitmask_get_flag p d len = Some (bit (d ! (unat p div 8)) (7 - unat p mod 8))"
  using assms flag_in_range [OF assms(1)]
  by (simp add: krs_math_bitmask_get_flag_def mem_get_def unat_div8 unat_mod8 and_bitmask_bit)

lemma set_flag_eq:
  assumes "unat p < unat len * 8" and "unat len \<le> length d"
  shows "krs_math_bitmask_set_flag p d len =
    Some (d[unat p div 8 := d ! (unat p div 8) OR bitmask_bit (p mod 8)])"
  using assms flag_in_range [OF assms(1)]
  by (simp add: krs_math_bitmask_set_flag_def mem_get_def mem_set_def unat_div8)

text \<open>
  Within the declared length, setting flag \<open>q\<close> of a bit mask makes exactly flag \<open>q\<close> true and
  leaves every other flag as it was; the mask keeps its length and no access is out of bounds.
\<close>

theorem bitmask_set_get:
  assumes "unat p < unat len * 8" and "unat q < unat len * 8" and "unat len \<le> length d"
  shows "\<exists>d'. krs_math_bitmask_set_flag q d len = Some d' \<and> length d' = length d \<and>
           krs_math_bitmask_get_flag p d' len =
             (if p = q then Some True else krs_math_bitmask_get_flag p d len)"
proof -
  let ?d' = "d[unat q div 8 := d ! (unat q div 8) OR bitmask_bit (q mod 8)]"
  have same: "p = q \<longleftrightarrow> unat p div 8 = unat q div 8 \<and> unat p mod 8 = unat q mod 8"
    by (metis div_mult_mod_eq unsigned_word_eqI)
  have pos: "7 - unat p mod 8 = 7 - unat q mod 8 \<longleftrightarrow> unat p mod 8 = unat q mod 8"
  proof -
    have "unat p mod 8 < 8" "unat q mod 8 < 8" by simp_all
    then show ?thesis by arith
  qed
  have "unat q div 8 < length d"
    using flag_in_range [OF assms(2)] assms(3) by simp
  then show ?thesis
    using assms same pos
    by (auto simp: get_flag_eq set_flag_eq nth_list_update bit_or_bitmask_bit unat_mod8)
qed

theorem bitmask_set_get_witness:
  "unat (9 :: u8) < unat (2 :: u8) * 8 \<and>
   (\<exists>d'. krs_math_bitmask_set_flag 9 [0, 0] 2 = Some d' \<and> length d' = length [0 :: u8, 0] \<and>
      krs_math_bitmask_get_flag 9 d' 2 =
        (if (9 :: u8) = 9 then Some True else krs_math_bitmask_get_flag 9 [0, 0] 2))"
  using bitmask_set_get [of 9 2 9 "[0, 0]"] by simp

subsection \<open>Big-endian reads are the inverse of the big-endian encoding\<close>

lemma uint16_from_be_value: "krs_math_uint16_from_uint8 a b = be_value [a, b]"
  by (simp add: krs_math_uint16_from_uint8_def be_value_def)

lemma be_value_cons:
  "be_value (b # bs) = push_bit (8 * length bs) (ucast b) OR (be_value bs :: 'a::len word)"
proof (induction bs rule: rev_induct)
  case Nil
  show ?case by (simp add: be_value_def)
next
  case (snoc x bs)
  have "be_value (b # bs @ [x]) = push_bit 8 (be_value (b # bs)) OR (ucast x :: 'a word)"
    using be_value_snoc [of "b # bs" x] by simp
  also have "\<dots> = push_bit (8 * length (bs @ [x])) (ucast b) OR be_value (bs @ [x])"
    by (simp add: snoc.IH be_value_snoc push_bit_or push_bit_push_bit or.assoc)
  finally show ?case by simp
qed

lemma uint64_loop_value:
  assumes "offset + i + n \<le> length source" and "i + n = 8"
  shows "uint64_loop source offset i n acc =
           Some (acc OR be_value (take n (drop (offset + i) source)))"
  using assms
proof (induction n arbitrary: i acc)
  case 0
  show ?case by (simp add: be_value_def)
next
  case (Suc n)
  let ?b = "source ! (offset + i)"
  have tail: "take (Suc n) (drop (offset + i) source) = ?b # take n (drop (offset + Suc i) source)"
    using Suc.prems by (subst Cons_nth_drop_Suc [symmetric]) auto
  have len: "length (take n (drop (offset + Suc i) source)) = n"
    using Suc.prems by simp
  have "8 - Suc i = n" "7 - i = n" using Suc.prems by auto
  then show ?case
    using Suc.prems by (simp add: mem_get_def Suc.IH tail be_value_cons len or.assoc)
qed

lemma krs_math_uint64_value:
  assumes "unat offset + 8 \<le> unat source_length" and "unat source_length \<le> length source"
  shows "krs_math_uint64_from_uint8 source offset source_length =
           Some (be_value (take 8 (drop (unat offset) source)))"
  using assms by (simp add: krs_math_uint64_from_uint8_def uint64_loop_value)

end
