(* ===== verification/Kronos_Log.thy ===== *)
theory Kronos_Log
  imports Kronos_Prelude
begin

text \<open>
  Logging: \<open>src/log/logging.c\<close> with the levels of \<open>kronos_log.h\<close>. The two static variables are a record;
  the lock around each access makes every call one step. What \<open>vsnprintf\<close> would print without a limit is
  an argument, the limits of the two buffers are not.
\<close>

section \<open>Levels\<close>

datatype krs_log_level = KRS_LOG_DEBUG | KRS_LOG_INFO | KRS_LOG_WARN | KRS_LOG_ERROR | KRS_LOG_FATAL

fun log_level_code :: "krs_log_level \<Rightarrow> nat" where
  "log_level_code KRS_LOG_DEBUG = 0"
| "log_level_code KRS_LOG_INFO = 1"
| "log_level_code KRS_LOG_WARN = 2"
| "log_level_code KRS_LOG_ERROR = 3"
| "log_level_code KRS_LOG_FATAL = 4"

lemma log_level_code_inject [simp]: "log_level_code a = log_level_code b \<longleftrightarrow> a = b"
  by (cases a; cases b) simp_all

instantiation krs_log_level :: linorder
begin

definition less_eq_krs_log_level :: "krs_log_level \<Rightarrow> krs_log_level \<Rightarrow> bool" where
  "less_eq_krs_log_level a b \<longleftrightarrow> log_level_code a \<le> log_level_code b"

definition less_krs_log_level :: "krs_log_level \<Rightarrow> krs_log_level \<Rightarrow> bool" where
  "less_krs_log_level a b \<longleftrightarrow> log_level_code a < log_level_code b"

instance
  by standard (auto simp: less_eq_krs_log_level_def less_krs_log_level_def)

end

section \<open>State and operations\<close>

type_synonym log_callback = nat

record log_state =
  s_callback :: "log_callback option"
  s_min_level :: krs_log_level

definition log_init :: log_state where
  "log_init = \<lparr>s_callback = None, s_min_level = KRS_LOG_DEBUG\<rparr>"

definition krs_log_callback_set :: "log_callback option \<Rightarrow> log_state \<Rightarrow> log_state" where
  "krs_log_callback_set callback st = st\<lparr>s_callback := callback\<rparr>"

definition krs_log_disable :: "log_state \<Rightarrow> log_state" where
  "krs_log_disable st = st\<lparr>s_callback := None\<rparr>"

definition krs_log_set_level :: "krs_log_level \<Rightarrow> log_state \<Rightarrow> log_state" where
  "krs_log_set_level level st = st\<lparr>s_min_level := level\<rparr>"

definition krs_log_get_level :: "log_state \<Rightarrow> krs_log_level" where
  "krs_log_get_level st = s_min_level st"

text \<open>\<open>snprintf\<close> into a buffer of \<open>n\<close> bytes keeps room for the final zero.\<close>

definition snprintf :: "nat \<Rightarrow> string \<Rightarrow> string" where
  "snprintf n text = take (n - 1) text"

text \<open>The call of the callback, if there is one: its level, component and message.\<close>

definition krs_log :: "krs_log_level \<Rightarrow> string \<Rightarrow> string \<Rightarrow> log_state \<Rightarrow> (log_callback \<times> krs_log_level \<times> string \<times> string) option" where
  "krs_log level component formatted st =
     (let cb = s_callback st; min = s_min_level st in
      case cb of
        None \<Rightarrow> None
      | Some cb \<Rightarrow>
          if level < min then None
          else Some (cb, level, snprintf 256 (''KRS_'' @ component), snprintf 512 formatted))"

section \<open>Sequences of calls\<close>

datatype log_call = Log_callback "log_callback option" | Log_off | Log_level krs_log_level

fun log_step :: "log_call \<Rightarrow> log_state \<Rightarrow> log_state" where
  "log_step (Log_callback cb) st = krs_log_callback_set cb st"
| "log_step Log_off st = krs_log_disable st"
| "log_step (Log_level l) st = krs_log_set_level l st"

text \<open>What the last call of each kind has set.\<close>

fun registered :: "log_call list \<Rightarrow> log_callback option" where
  "registered [] = None"
| "registered (Log_callback cb # cs) = cb"
| "registered (Log_off # cs) = None"
| "registered (Log_level l # cs) = registered cs"

fun threshold :: "log_call list \<Rightarrow> krs_log_level" where
  "threshold [] = KRS_LOG_DEBUG"
| "threshold (Log_level l # cs) = l"
| "threshold (_ # cs) = threshold cs"

lemmas log_ops = log_init_def krs_log_callback_set_def krs_log_disable_def krs_log_set_level_def krs_log_get_level_def

lemma log_state_after:
  "s_callback (foldr log_step cs log_init) = registered cs \<and> krs_log_get_level (foldr log_step cs log_init) = threshold cs"
proof (induction cs)
  case (Cons c cs)
  then show ?case by (cases c) (simp_all add: log_ops)
qed (simp add: log_ops)

text \<open>
  After any sequence of calls, the last of them first in the list, a message reaches the callback that was
  registered last exactly when there is one and the level is not below the threshold set last; the
  component carries its prefix and both strings fit their buffers.
\<close>

lemma krs_log_delivers:
  "krs_log level component formatted (foldr log_step cs log_init) =
     map_option (\<lambda>cb. (cb, level, take 255 (''KRS_'' @ component), take 511 formatted))
       (if threshold cs \<le> level then registered cs else None)"
proof -
  have "s_min_level (foldr log_step cs log_init) = threshold cs" using log_state_after [of cs] by (simp add: krs_log_get_level_def)
  then show ?thesis
    by (simp add: krs_log_def log_state_after snprintf_def not_le [symmetric] split: option.split)
qed

text \<open>A message of the most severe level passes every threshold, and none passes once logging is off.\<close>

lemma krs_log_fatal:
  "registered cs = Some cb \<Longrightarrow> krs_log KRS_LOG_FATAL component formatted (foldr log_step cs log_init) \<noteq> None"
  "krs_log level component formatted (foldr log_step (Log_off # cs) log_init) = None"
proof -
  have "l \<le> KRS_LOG_FATAL" for l by (cases l) (simp_all add: less_eq_krs_log_level_def)
  then show "registered cs = Some cb \<Longrightarrow> krs_log KRS_LOG_FATAL component formatted (foldr log_step cs log_init) \<noteq> None"
    by (simp add: krs_log_delivers)
qed (simp only: krs_log_delivers, simp)

end
