(* ===== verification/Kronos_Frame.thy ===== *)
theory Kronos_Frame
  imports Kronos_Error Kronos_Math
begin

text \<open>
  The wire format: \<open>src/frame/frame_version.c\<close>, \<open>frame_utility.c\<close>, \<open>frame_builder.c\<close>,
  \<open>frame_lifecycle.c\<close> and \<open>frame_content.c\<close>, with the structures of \<open>kronos_internal.h\<close>,
  \<open>frame_metadata.h\<close> and \<open>frame_builder_internal.h\<close>.

  \<open>krs_frame_builder_serialize\<close> and \<open>s_create_frame\<close> are the two directions. The theory proves
  the exact byte sequence a builder produces, that parsing it gives the builder's fields back, that
  the parser stays within the datagram on every input, and which datagrams it accepts.
\<close>

section \<open>Constants and data\<close>

abbreviation (input) KRONOS_VERSION_MAJOR :: u8 where "KRONOS_VERSION_MAJOR \<equiv> 1"
abbreviation (input) KRONOS_VERSION_MINOR :: u8 where "KRONOS_VERSION_MINOR \<equiv> 0"
abbreviation (input) KRONOS_VERSION_PATCH :: u8 where "KRONOS_VERSION_PATCH \<equiv> 0"

abbreviation (input) KRONOS_FRAME_HEADER_LENGTH :: nat where "KRONOS_FRAME_HEADER_LENGTH \<equiv> 14"
abbreviation (input) KRONOS_BUFFER_SIZE :: nat where "KRONOS_BUFFER_SIZE \<equiv> 1500"

text \<open>The positions of \<open>MetadataFlagPosition_e\<close>.\<close>

abbreviation (input) META_FLAG_ACK_REQUIRED :: nat where "META_FLAG_ACK_REQUIRED \<equiv> 0"
abbreviation (input) META_FLAG_FRAGMENT_INFO :: nat where "META_FLAG_FRAGMENT_INFO \<equiv> 1"
abbreviation (input) META_FLAG_ACK_ID :: nat where "META_FLAG_ACK_ID \<equiv> 2"
abbreviation (input) META_FLAG_PRIORITY :: nat where "META_FLAG_PRIORITY \<equiv> 3"
abbreviation (input) META_FLAG_TIMESTAMP :: nat where "META_FLAG_TIMESTAMP \<equiv> 4"
abbreviation (input) META_FLAG_COUNT :: nat where "META_FLAG_COUNT \<equiv> 5"

definition KRS_METADATA_FLAG_POSITION_SIZE :: "u8 list" where
  "KRS_METADATA_FLAG_POSITION_SIZE = [0, 4, 8, 1, 8]"

datatype frame_type_e =
    MESSAGE_ACK | BASIC_MESSAGE | CONNECTION | HEARTBEAT | DISCONNECT | SUBSCRIBE | UNSUBSCRIBE
  | SOCKET_ACK

primrec frame_type_code :: "frame_type_e \<Rightarrow> u8" where
    "frame_type_code MESSAGE_ACK = 0"
  | "frame_type_code BASIC_MESSAGE = 1"
  | "frame_type_code CONNECTION = 10"
  | "frame_type_code HEARTBEAT = 11"
  | "frame_type_code DISCONNECT = 13"
  | "frame_type_code SUBSCRIBE = 14"
  | "frame_type_code UNSUBSCRIBE = 15"
  | "frame_type_code SOCKET_ACK = 22"

record frame_metadata =
  fragment_index :: u16
  fragment_total :: u16
  ack_id :: u64
  priority :: u8
  timestamp_ms :: u64

text \<open>
  \<open>frame_body\<close> is the buffer the frame points to, \<open>None\<close> for a null pointer; only its first
  \<open>frame_body_length\<close> bytes belong to the frame.
\<close>

record krs_frame =
  frame_protocol_char :: u8
  frame_protocol_version :: u8
  frame_channel :: u8
  frame_frame_type :: u8
  frame_presence_flags :: u16
  frame_packet_id :: u64
  frame_metadata :: frame_metadata
  frame_body_length :: u16
  frame_body :: "bytes option"

record frame_builder =
  fb_channel :: u8
  fb_type :: frame_type_e
  fb_packet_id :: u64
  fb_presence_flags :: u16
  fb_metadata :: frame_metadata
  fb_data :: "bytes option"
  fb_data_length :: u16

definition metadata_zero :: frame_metadata where
  "metadata_zero = \<lparr>fragment_index = 0, fragment_total = 0, ack_id = 0, priority = 0,
     timestamp_ms = 0\<rparr>"

text \<open>The all-zero frame that the parser returns for a rejected datagram.\<close>

definition frame_invalid :: krs_frame where
  "frame_invalid = \<lparr>frame_protocol_char = 0, frame_protocol_version = 0, frame_channel = 0,
     frame_frame_type = 0, frame_presence_flags = 0, frame_packet_id = 0,
     frame_metadata = metadata_zero, frame_body_length = 0, frame_body = None\<rparr>"

section \<open>Version byte\<close>

definition krs_version_encode :: "u8 \<Rightarrow> u8 \<Rightarrow> u8 \<Rightarrow> u8" where
  "krs_version_encode major minor patch =
     push_bit 5 (major AND 7) OR push_bit 2 (minor AND 7) OR (patch AND 3)"

text \<open>The three outputs of \<open>krs_version_decode\<close>; a null output pointer only drops its component.\<close>

definition krs_version_decode :: "u8 \<Rightarrow> u8 \<times> u8 \<times> u8" where
  "krs_version_decode version =
     (drop_bit 5 version AND 7, drop_bit 2 version AND 7, version AND 3)"

section \<open>Lengths\<close>

definition has_flag :: "u16 \<Rightarrow> nat \<Rightarrow> bool" where
  "has_flag presence_flags flag \<longleftrightarrow> presence_flags AND push_bit flag 1 \<noteq> 0"

definition krs_frame_calculate_body_length :: "u16 \<Rightarrow> u16" where
  "krs_frame_calculate_body_length received_bytes =
     received_bytes - of_nat KRONOS_FRAME_HEADER_LENGTH"

definition krs_frame_metadata_block_length :: "u16 \<Rightarrow> u16" where
  "krs_frame_metadata_block_length presence_flags =
     fold (\<lambda>i total_length.
             if has_flag presence_flags i
             then total_length + ucast (KRS_METADATA_FLAG_POSITION_SIZE ! i) else total_length)
       [0..<META_FLAG_COUNT] 0"

definition krs_frame_body_metadata_get_length :: "krs_frame option \<Rightarrow> u16" where
  "krs_frame_body_metadata_get_length frame =
     (case frame of None \<Rightarrow> 0
      | Some f \<Rightarrow> krs_frame_metadata_block_length (frame_presence_flags f))"

section \<open>Frame builder\<close>

text \<open>The builder is handled through a pointer; \<open>None\<close> is the null builder.\<close>

definition krs_frame_builder_create :: "bool \<Rightarrow> u8 \<Rightarrow> frame_type_e \<Rightarrow> frame_builder option" where
  "krs_frame_builder_create alloc channel type =
     (if \<not> alloc then None
      else Some \<lparr>fb_channel = channel, fb_type = type, fb_packet_id = 0, fb_presence_flags = 0,
                 fb_metadata = metadata_zero, fb_data = None, fb_data_length = 0\<rparr>)"

definition krs_frame_builder_set_packet_id ::
    "frame_builder option \<Rightarrow> u64 \<Rightarrow> frame_builder option" where
  "krs_frame_builder_set_packet_id builder packet_id =
     map_option (\<lambda>b. b\<lparr>fb_packet_id := packet_id\<rparr>) builder"

definition krs_frame_builder_set_flag :: "frame_builder option \<Rightarrow> nat \<Rightarrow> frame_builder option" where
  "krs_frame_builder_set_flag builder flag =
     (if flag \<ge> META_FLAG_COUNT then builder
      else map_option
        (\<lambda>b. b\<lparr>fb_presence_flags := fb_presence_flags b OR push_bit flag 1\<rparr>) builder)"

definition krs_frame_builder_set_data ::
    "frame_builder option \<Rightarrow> bytes option \<Rightarrow> u16 \<Rightarrow> frame_builder option" where
  "krs_frame_builder_set_data builder data len =
     map_option (\<lambda>b. b\<lparr>fb_data := data, fb_data_length := len\<rparr>) builder"

definition krs_frame_builder_set_fragment_info ::
    "frame_builder option \<Rightarrow> u16 \<Rightarrow> u16 \<Rightarrow> frame_builder option" where
  "krs_frame_builder_set_fragment_info builder index tot =
     map_option (\<lambda>b. b\<lparr>fb_metadata := (fb_metadata b)\<lparr>fragment_index := index,
                                                        fragment_total := tot\<rparr>,
       fb_presence_flags := fb_presence_flags b OR push_bit META_FLAG_FRAGMENT_INFO 1\<rparr>) builder"

definition krs_frame_builder_set_ack_id ::
    "frame_builder option \<Rightarrow> u64 \<Rightarrow> frame_builder option" where
  "krs_frame_builder_set_ack_id builder i =
     map_option (\<lambda>b. b\<lparr>fb_metadata := (fb_metadata b)\<lparr>ack_id := i\<rparr>,
       fb_presence_flags := fb_presence_flags b OR push_bit META_FLAG_ACK_ID 1\<rparr>) builder"

definition krs_frame_builder_set_priority ::
    "frame_builder option \<Rightarrow> u8 \<Rightarrow> frame_builder option" where
  "krs_frame_builder_set_priority builder p =
     map_option (\<lambda>b. b\<lparr>fb_metadata := (fb_metadata b)\<lparr>priority := p\<rparr>,
       fb_presence_flags := fb_presence_flags b OR push_bit META_FLAG_PRIORITY 1\<rparr>) builder"

definition krs_frame_builder_set_timestamp ::
    "frame_builder option \<Rightarrow> u64 \<Rightarrow> frame_builder option" where
  "krs_frame_builder_set_timestamp builder t =
     map_option (\<lambda>b. b\<lparr>fb_metadata := (fb_metadata b)\<lparr>timestamp_ms := t\<rparr>,
       fb_presence_flags := fb_presence_flags b OR push_bit META_FLAG_TIMESTAMP 1\<rparr>) builder"

text \<open>
  The bytes one metadata field contributes, in the order the serializer writes them. Each of the
  four stores of the source is conditional on its flag and advances the cursor by the field's
  width.
\<close>

definition put_field :: "bool \<Rightarrow> bytes \<Rightarrow> bytes \<times> nat \<Rightarrow> (bytes \<times> nat) option" where
  "put_field present field st =
     (if present
      then do { out' \<leftarrow> mem_write (fst st) (snd st) field; Some (out', snd st + length field) }
      else Some st)"

definition serialize_metadata ::
    "u16 \<Rightarrow> frame_metadata \<Rightarrow> bytes \<times> nat \<Rightarrow> (bytes \<times> nat) option" where
  "serialize_metadata flags md s0 =
     do { s1 \<leftarrow> put_field (has_flag flags META_FLAG_FRAGMENT_INFO)
            [ucast (drop_bit 8 (fragment_index md)), ucast (fragment_index md AND 0xFF),
             ucast (drop_bit 8 (fragment_total md)), ucast (fragment_total md AND 0xFF)] s0;
          s2 \<leftarrow> put_field (has_flag flags META_FLAG_ACK_ID)
            (map (\<lambda>k. ucast (drop_bit ((7 - k) * 8) (ack_id md) AND 0xFF)) [0..<8]) s1;
          s3 \<leftarrow> put_field (has_flag flags META_FLAG_PRIORITY) [priority md] s2;
          put_field (has_flag flags META_FLAG_TIMESTAMP)
            (map (\<lambda>k. ucast (drop_bit ((7 - k) * 8) (timestamp_ms md) AND 0xFF)) [0..<8]) s3 }"

definition serialize_body :: "bytes option \<Rightarrow> u16 \<Rightarrow> bytes \<times> nat \<Rightarrow> bytes option" where
  "serialize_body data data_length st =
     (case data of
        Some d \<Rightarrow>
          if data_length > 0
          then do { chunk \<leftarrow> mem_read d 0 (unat data_length); mem_write (fst st) (snd st) chunk }
          else Some (fst st)
      | None \<Rightarrow> Some (fst st))"

text \<open>
  \<open>total\<close> is computed in \<open>uint16_t\<close> and can wrap around; the bounds check uses the wrapped value.
  The result is the number of bytes reported and the output buffer.
\<close>

definition krs_frame_builder_serialize ::
    "frame_builder option \<Rightarrow> bytes option \<Rightarrow> u16 \<Rightarrow> (u16 \<times> bytes option) option" where
  "krs_frame_builder_serialize builder out out_size =
     (case (builder, out) of
        (Some b, Some outb) \<Rightarrow>
          let metadata_size = krs_frame_metadata_block_length (fb_presence_flags b);
              total = of_nat KRONOS_FRAME_HEADER_LENGTH + metadata_size + fb_data_length b;
              flags = fb_presence_flags b;
              pid = fb_packet_id b
          in if out_size < total then Some (0, Some outb)
             else do {
               out1 \<leftarrow> mem_write outb 0
                 [0x4B,
                  krs_version_encode KRONOS_VERSION_MAJOR KRONOS_VERSION_MINOR KRONOS_VERSION_PATCH,
                  fb_channel b,
                  frame_type_code (fb_type b),
                  ucast (drop_bit 8 flags),
                  ucast (flags AND 0xFF),
                  ucast (drop_bit 56 pid), ucast (drop_bit 48 pid), ucast (drop_bit 40 pid),
                  ucast (drop_bit 32 pid), ucast (drop_bit 24 pid), ucast (drop_bit 16 pid),
                  ucast (drop_bit 8 pid), ucast (pid AND 0xFF)];
               st \<leftarrow> serialize_metadata flags (fb_metadata b) (out1, KRONOS_FRAME_HEADER_LENGTH);
               out2 \<leftarrow> serialize_body (fb_data b) (fb_data_length b) st;
               Some (total, Some out2) }
      | _ \<Rightarrow> Some (0, out))"

definition krs_frame_builder_destroy :: "frame_builder option \<Rightarrow> frame_builder option" where
  "krs_frame_builder_destroy builder = None"

section \<open>Parsing\<close>

text \<open>
  The metadata block, lines 38 to 61 of \<open>frame_lifecycle.c\<close>: one conditional read per flag, each
  advancing the cursor. \<open>be_value\<close> is the loop \<open>v = (v << 8) | buffer[cursor + k]\<close>.
\<close>

definition get_field ::
    "bool \<Rightarrow> bytes \<Rightarrow> nat \<Rightarrow> (bytes \<Rightarrow> frame_metadata \<Rightarrow> frame_metadata) \<Rightarrow>
     frame_metadata \<times> nat \<Rightarrow> (frame_metadata \<times> nat) option" where
  "get_field present buffer width upd st =
     (if present
      then do { bs \<leftarrow> mem_read buffer (snd st) width; Some (upd bs (fst st), snd st + width) }
      else Some st)"

definition parse_metadata :: "u16 \<Rightarrow> bytes \<Rightarrow> (frame_metadata \<times> nat) option" where
  "parse_metadata presence_flags buffer =
     do { s1 \<leftarrow> get_field (has_flag presence_flags META_FLAG_FRAGMENT_INFO) buffer 4
            (\<lambda>bs md. md\<lparr>fragment_index := push_bit 8 (ucast (bs ! 0)) OR ucast (bs ! 1),
                        fragment_total := push_bit 8 (ucast (bs ! 2)) OR ucast (bs ! 3)\<rparr>)
            (metadata_zero, KRONOS_FRAME_HEADER_LENGTH);
          s2 \<leftarrow> get_field (has_flag presence_flags META_FLAG_ACK_ID) buffer 8
            (\<lambda>bs md. md\<lparr>ack_id := be_value bs\<rparr>) s1;
          s3 \<leftarrow> get_field (has_flag presence_flags META_FLAG_PRIORITY) buffer 1
            (\<lambda>bs md. md\<lparr>priority := bs ! 0\<rparr>) s2;
          get_field (has_flag presence_flags META_FLAG_TIMESTAMP) buffer 8
            (\<lambda>bs md. md\<lparr>timestamp_ms := be_value bs\<rparr>) s3 }"

text \<open>The final \<open>memcpy\<close> of the body into the caller's buffer.\<close>

definition copy_body :: "bytes \<Rightarrow> nat \<Rightarrow> u16 \<Rightarrow> bytes \<Rightarrow> bytes option" where
  "copy_body buffer cursor app_body_length frame_data_out =
     (if app_body_length > 0
      then do { bs \<leftarrow> mem_read buffer cursor (unat app_body_length);
                mem_write frame_data_out 0 bs }
      else Some frame_data_out)"

definition s_create_frame ::
    "bytes option \<Rightarrow> u16 \<Rightarrow> bytes option \<Rightarrow> u16 \<Rightarrow> krs_frame option" where
  "s_create_frame buffer received_bytes frame_data_out stack_data_out_size =
     (case (buffer, frame_data_out) of
        (Some buf, Some outb) \<Rightarrow>
          if unat received_bytes < KRONOS_FRAME_HEADER_LENGTH then Some frame_invalid
          else do {
            b0 \<leftarrow> mem_get buf 0;
            if b0 \<noteq> 0x4B then Some frame_invalid else do {
            b1 \<leftarrow> mem_get buf 1;
            if drop_bit 5 b1 AND 7 \<noteq> KRONOS_VERSION_MAJOR then Some frame_invalid else do {
            b4 \<leftarrow> mem_get buf 4;
            b5 \<leftarrow> mem_get buf 5;
            let presence_flags = krs_math_uint16_from_uint8 b4 b5;
                metadata_size = krs_frame_metadata_block_length presence_flags;
                after_header_length = krs_frame_calculate_body_length received_bytes
            in if after_header_length < metadata_size then Some frame_invalid
            else let app_body_length = after_header_length - metadata_size
            in if stack_data_out_size < app_body_length then Some frame_invalid
            else do {
              b2 \<leftarrow> mem_get buf 2;
              b3 \<leftarrow> mem_get buf 3;
              pid \<leftarrow> krs_math_uint64_from_uint8 buf 6 received_bytes;
              (md, cursor) \<leftarrow> parse_metadata presence_flags buf;
              outb' \<leftarrow> copy_body buf cursor app_body_length outb;
              Some \<lparr>frame_protocol_char = b0, frame_protocol_version = b1, frame_channel = b2,
                    frame_frame_type = b3, frame_presence_flags = presence_flags,
                    frame_packet_id = pid, frame_metadata = md,
                    frame_body_length = app_body_length, frame_body = Some outb'\<rparr> } } } }
      | _ \<Rightarrow> Some frame_invalid)"

definition krs_frame_create ::
    "bytes option \<Rightarrow> u16 \<Rightarrow> bytes option \<Rightarrow> u16 \<Rightarrow> krs_frame option" where
  "krs_frame_create buffer received_bytes stack_data_out stack_data_out_size =
     s_create_frame buffer received_bytes stack_data_out stack_data_out_size"

record frame_create_r =
  fcr_base :: krs_result_base
  fcr_frame :: krs_frame

definition frame_create_err :: "krs_error \<Rightarrow> string \<Rightarrow> frame_create_r" where
  "frame_create_err e msg =
     \<lparr>fcr_base = krs_lib_error_result_base_w_msg e msg, fcr_frame = frame_invalid\<rparr>"

definition krs_frame_create_s ::
    "bytes option \<Rightarrow> u16 \<Rightarrow> bytes option \<Rightarrow> u16 \<Rightarrow> frame_create_r option" where
  "krs_frame_create_s buffer received_bytes stack_data_out stack_data_out_size =
     (case (buffer, stack_data_out) of
        (Some buf, Some outb) \<Rightarrow>
          if unat received_bytes < KRONOS_FRAME_HEADER_LENGTH
          then Some (frame_create_err KRS_ERR_FRAME_INVALID_HEADER ''received_bytes too small'')
          else do {
            b0 \<leftarrow> mem_get buf 0;
            if b0 \<noteq> 0x4B
            then Some (frame_create_err KRS_ERR_FRAME_INVALID_PROTOCOL ''first byte is not 0x4B'')
            else do {
            b1 \<leftarrow> mem_get buf 1;
            if drop_bit 5 b1 AND 7 \<noteq> KRONOS_VERSION_MAJOR
            then Some (frame_create_err KRS_ERR_FRAME_UNSUPPORTED_VERSION
                         ''frame major version does not match build'')
            else do {
            b4 \<leftarrow> mem_get buf 4;
            b5 \<leftarrow> mem_get buf 5;
            let presence_flags = krs_math_uint16_from_uint8 b4 b5;
                metadata_size = krs_frame_metadata_block_length presence_flags;
                after_header = krs_frame_calculate_body_length received_bytes
            in if after_header < metadata_size
            then Some (frame_create_err KRS_ERR_FRAME_INVALID_HEADER
                         ''frame too short for declared metadata block'')
            else let app_body_length = after_header - metadata_size
            in if stack_data_out_size < app_body_length
            then Some (frame_create_err KRS_ERR_BUFFER_TOO_SMALL ''stack_data_out_size too small'')
            else do {
              f \<leftarrow> s_create_frame buffer received_bytes stack_data_out stack_data_out_size;
              Some \<lparr>fcr_base = krs_lib_error_result_base_suc, fcr_frame = f\<rparr> } } } }
      | _ \<Rightarrow> Some (frame_create_err KRS_ERR_NULL_POINTER ''buffer or stack_data_out is NULL''))"

text \<open>
  Heap parsing. \<open>frame_alloc\<close> is the outcome of the first \<open>malloc\<close>; \<open>body_alloc\<close> that of the second,
  \<open>Some junk\<close> with the indeterminate contents of the fresh block. The inner \<open>None\<close> is a null
  result.
\<close>

definition krs_frame_create_heap ::
    "bool \<Rightarrow> (nat \<Rightarrow> u8) option \<Rightarrow> bytes option \<Rightarrow> u16 \<Rightarrow> krs_frame option option" where
  "krs_frame_create_heap frame_alloc body_alloc buffer received_bytes =
     (case buffer of
        None \<Rightarrow> Some None
      | Some buf \<Rightarrow>
          if unat received_bytes < KRONOS_FRAME_HEADER_LENGTH then Some None
          else do {
            b0 \<leftarrow> mem_get buf 0;
            if b0 \<noteq> 0x4B then Some None else do {
            b1 \<leftarrow> mem_get buf 1;
            if drop_bit 5 b1 AND 7 \<noteq> KRONOS_VERSION_MAJOR then Some None else do {
            b4 \<leftarrow> mem_get buf 4;
            b5 \<leftarrow> mem_get buf 5;
            let presence_flags = krs_math_uint16_from_uint8 b4 b5;
                metadata_size = krs_frame_metadata_block_length presence_flags;
                after_header = krs_frame_calculate_body_length received_bytes
            in if after_header < metadata_size then Some None
            else let app_body_length = after_header - metadata_size
            in if \<not> frame_alloc then Some None
            else case body_alloc of
              None \<Rightarrow> Some None
            | Some junk \<Rightarrow> do {
                let body = map junk [0..<(if app_body_length > 0 then unat app_body_length else 1)];
                f \<leftarrow> s_create_frame buffer received_bytes (Some body) app_body_length;
                if frame_protocol_char f = 0 then Some None else Some (Some f) } } } })"

definition krs_frame_init ::
    "bytes option \<Rightarrow> u16 \<Rightarrow> krs_frame \<Rightarrow> u16 \<Rightarrow> krs_frame option" where
  "krs_frame_init buffer received_bytes out out_data_size =
     s_create_frame buffer received_bytes (frame_body out) out_data_size"

definition krs_frame_destroy :: "krs_frame option \<Rightarrow> krs_frame option" where
  "krs_frame_destroy frame = None"

text \<open>Copying the body out: the number of bytes copied and the destination buffer.\<close>

definition krs_frame_get_content ::
    "krs_frame option \<Rightarrow> bytes option \<Rightarrow> u16 \<Rightarrow> (u16 \<times> bytes option) option" where
  "krs_frame_get_content frame out out_data_size =
     (case (frame, out) of
        (Some f, Some outb) \<Rightarrow>
          if frame_body_length f > out_data_size then Some (0, out)
          else if frame_body_length f > 0 then
            (case frame_body f of
               None \<Rightarrow> None
             | Some body \<Rightarrow> do {
                 bs \<leftarrow> mem_read body 0 (unat (frame_body_length f));
                 outb' \<leftarrow> mem_write outb 0 bs;
                 Some (frame_body_length f, Some outb') })
          else Some (frame_body_length f, out)
      | _ \<Rightarrow> Some (0, out))"

section \<open>Lemmas\<close>


lemma has_flag_bit: "has_flag f i \<longleftrightarrow> bit f i"
  by (simp add: has_flag_def bit_iff_and_push_bit_not_eq_0)

text \<open>The metadata block is at most 21 bytes; its length is the sum of the present fields.\<close>

definition metadata_length :: "u16 \<Rightarrow> nat" where
  "metadata_length f =
     (if has_flag f META_FLAG_FRAGMENT_INFO then 4 else 0) +
     (if has_flag f META_FLAG_ACK_ID then 8 else 0) +
     (if has_flag f META_FLAG_PRIORITY then 1 else 0) +
     (if has_flag f META_FLAG_TIMESTAMP then 8 else 0)"

lemma metadata_length_le: "metadata_length f \<le> 21"
  by (simp add: metadata_length_def)

lemma upt_5: "[0..<5] = [0, 1, 2, 3, 4 :: nat]"
  by (simp add: upt_rec)

lemma upt_8: "[0..<8] = [0, 1, 2, 3, 4, 5, 6, 7 :: nat]"
  by (simp add: upt_rec)

lemma unat_metadata_block_length:
  "unat (krs_frame_metadata_block_length f) = metadata_length f"
  by (simp add: krs_frame_metadata_block_length_def metadata_length_def upt_5
      KRS_METADATA_FLAG_POSITION_SIZE_def unat_word_ariths)

subsection \<open>Bytes written\<close>

lemma ucast_and_mask8: "(ucast (v AND 0xFF) :: u8) = ucast (v :: 'a::len word)"
proof -
  have "(0xFF :: 'a word) = mask 8" by (simp add: mask_eq_exp_minus_1)
  then have "ucast (v AND 0xFF) = (ucast (v AND mask 8) :: u8)" by (simp only:)
  also have "\<dots> = ucast v"
    by (rule bit_word_eqI) (auto simp: bit_simps dest: bit_imp_le_length)
  finally show ?thesis .
qed

lemma be_bytes_2: "be_bytes 2 v = [ucast (drop_bit 8 v), ucast v]"
  by (simp add: be_bytes_def upt_rec)

lemma be_bytes_8:
  "be_bytes 8 v = [ucast (drop_bit 56 v), ucast (drop_bit 48 v), ucast (drop_bit 40 v),
     ucast (drop_bit 32 v), ucast (drop_bit 24 v), ucast (drop_bit 16 v), ucast (drop_bit 8 v),
     ucast v]"
  by (simp add: be_bytes_def upt_8)

lemma be_bytes_8_loop:
  "map (\<lambda>k. ucast (drop_bit ((7 - k) * 8) v AND 0xFF)) [0..<8] = be_bytes 8 (v :: u64)"
  by (simp only: ucast_and_mask8) (simp add: be_bytes_8 upt_8)

lemma be_bytes_8_byte: "be_bytes (Suc 0) (v :: u8) = [v]"
  by (simp add: be_bytes_def)

text \<open>The wire image of a frame, written as one expression.\<close>

definition wire_header :: "u8 \<Rightarrow> frame_type_e \<Rightarrow> u16 \<Rightarrow> u64 \<Rightarrow> bytes" where
  "wire_header ch ty flags pid =
     [0x4B, krs_version_encode KRONOS_VERSION_MAJOR KRONOS_VERSION_MINOR KRONOS_VERSION_PATCH,
      ch, frame_type_code ty] @ be_bytes 2 flags @ be_bytes 8 pid"

definition wire_metadata :: "u16 \<Rightarrow> frame_metadata \<Rightarrow> bytes" where
  "wire_metadata flags md =
     (if has_flag flags META_FLAG_FRAGMENT_INFO
      then be_bytes 2 (fragment_index md) @ be_bytes 2 (fragment_total md) else []) @
     (if has_flag flags META_FLAG_ACK_ID then be_bytes 8 (ack_id md) else []) @
     (if has_flag flags META_FLAG_PRIORITY then [priority md] else []) @
     (if has_flag flags META_FLAG_TIMESTAMP then be_bytes 8 (timestamp_ms md) else [])"

text \<open>The bytes of the payload that the builder refers to.\<close>

definition fb_payload :: "frame_builder \<Rightarrow> bytes" where
  "fb_payload b = (case fb_data b of None \<Rightarrow> [] | Some d \<Rightarrow> take (unat (fb_data_length b)) d)"

definition wire_frame :: "frame_builder \<Rightarrow> bytes" where
  "wire_frame b =
     wire_header (fb_channel b) (fb_type b) (fb_presence_flags b) (fb_packet_id b) @
     wire_metadata (fb_presence_flags b) (fb_metadata b) @ fb_payload b"

text \<open>
  A builder whose payload is really there: \<open>data_length\<close> bytes can be read, and a null payload
  comes with length 0.
\<close>

definition fb_wf :: "frame_builder \<Rightarrow> bool" where
  "fb_wf b \<longleftrightarrow> length (fb_payload b) = unat (fb_data_length b)"

lemma length_wire_header [simp]: "length (wire_header ch ty flags pid) = 14"
  by (simp add: wire_header_def)

lemma length_wire_metadata: "length (wire_metadata flags md) = metadata_length flags"
  by (simp add: wire_metadata_def metadata_length_def)

abbreviation opt_bytes :: "bool \<Rightarrow> bytes \<Rightarrow> bytes" where
  "opt_bytes present xs \<equiv> (if present then xs else [])"

lemma put_field_append:
  assumes "length pre + length (opt_bytes present xs) \<le> length m"
  shows "put_field present xs (pre @ drop (length pre) m, length pre) =
    Some ((pre @ opt_bytes present xs) @ drop (length (pre @ opt_bytes present xs)) m,
          length (pre @ opt_bytes present xs))"
  using assms by (auto simp: put_field_def mem_write_append)

lemma serialize_header_bytes:
  "[0x4B, krs_version_encode KRONOS_VERSION_MAJOR KRONOS_VERSION_MINOR KRONOS_VERSION_PATCH,
    ch, frame_type_code ty, ucast (drop_bit 8 flags), ucast (flags AND 0xFF),
    ucast (drop_bit 56 pid), ucast (drop_bit 48 pid), ucast (drop_bit 40 pid),
    ucast (drop_bit 32 pid), ucast (drop_bit 24 pid), ucast (drop_bit 16 pid),
    ucast (drop_bit 8 pid), ucast (pid AND 0xFF)] = wire_header ch ty flags pid"
  by (simp add: wire_header_def be_bytes_2 be_bytes_8 ucast_and_mask8)

lemma serialize_fragment_bytes:
  "[ucast (drop_bit 8 i), ucast (i AND 0xFF), ucast (drop_bit 8 t), ucast (t AND 0xFF)] =
   be_bytes 2 (i :: u16) @ be_bytes 2 (t :: u16)"
  by (simp add: be_bytes_2 ucast_and_mask8)

lemmas serialize_bytes = serialize_header_bytes serialize_fragment_bytes be_bytes_8_loop

lemma unat_serialize_total:
  assumes "14 + metadata_length flags + unat (len :: u16) < 65536"
  shows "unat (of_nat 14 + krs_frame_metadata_block_length flags + len) =
           14 + metadata_length flags + unat len"
  using assms by (simp add: unat_word_ariths unat_metadata_block_length)

text \<open>
  What \<open>krs_frame_builder_serialize\<close> does when the buffer is large enough and the frame length is
  below 2^16: it writes the wire image and nothing else.
\<close>

lemma serialize_metadata_append:
  assumes "length pre + metadata_length flags \<le> length m"
  shows "serialize_metadata flags md (pre @ drop (length pre) m, length pre) =
    Some ((pre @ wire_metadata flags md) @ drop (length (pre @ wire_metadata flags md)) m,
          length (pre @ wire_metadata flags md))"
proof -
  let ?p1 = "pre @ opt_bytes (has_flag flags META_FLAG_FRAGMENT_INFO)
               (be_bytes 2 (fragment_index md) @ be_bytes 2 (fragment_total md))"
  let ?p2 = "?p1 @ opt_bytes (has_flag flags META_FLAG_ACK_ID) (be_bytes 8 (ack_id md))"
  let ?p3 = "?p2 @ opt_bytes (has_flag flags META_FLAG_PRIORITY) [priority md]"
  let ?p4 = "?p3 @ opt_bytes (has_flag flags META_FLAG_TIMESTAMP) (be_bytes 8 (timestamp_ms md))"
  have wire: "?p4 = pre @ wire_metadata flags md"
    by (simp only: wire_metadata_def append_assoc)
  have len: "length ?p4 \<le> length m"
    using assms unfolding wire by (simp add: length_wire_metadata)
  have steps: "put_field (has_flag flags META_FLAG_FRAGMENT_INFO)
        (be_bytes 2 (fragment_index md) @ be_bytes 2 (fragment_total md))
        (pre @ drop (length pre) m, length pre) = Some (?p1 @ drop (length ?p1) m, length ?p1)"
    "put_field (has_flag flags META_FLAG_ACK_ID) (be_bytes 8 (ack_id md))
        (?p1 @ drop (length ?p1) m, length ?p1) = Some (?p2 @ drop (length ?p2) m, length ?p2)"
    "put_field (has_flag flags META_FLAG_PRIORITY) [priority md]
        (?p2 @ drop (length ?p2) m, length ?p2) = Some (?p3 @ drop (length ?p3) m, length ?p3)"
    "put_field (has_flag flags META_FLAG_TIMESTAMP) (be_bytes 8 (timestamp_ms md))
        (?p3 @ drop (length ?p3) m, length ?p3) = Some (?p4 @ drop (length ?p4) m, length ?p4)"
    by (rule put_field_append, use len in simp)+
  show ?thesis
    unfolding serialize_metadata_def serialize_bytes
    by (simp only: steps bind.bind_lunit wire)
qed

lemma serialize_body_append:
  assumes "length xs = unat n" and "length pre + length xs \<le> length m"
    and "xs = (case data of None \<Rightarrow> [] | Some d \<Rightarrow> take (unat n) d)"
  shows "serialize_body data n (pre @ drop (length pre) m, length pre) =
    Some ((pre @ xs) @ drop (length (pre @ xs)) m)"
proof (cases "n = 0")
  case True
  then show ?thesis using assms by (simp add: serialize_body_def split: option.split)
next
  case False
  with assms obtain d where d: "data = Some d" and xs: "xs = take (unat n) d"
    by (cases data) (auto simp: unat_eq_0)
  have "mem_read d 0 (unat n) = Some xs"
    using assms(1) xs by (simp add: mem_read_def)
  then show ?thesis
    using assms False by (simp add: serialize_body_def d mem_write_append word_neq_0_conv)
qed

lemma serialize_wire:
  assumes wf: "fb_wf b"
    and small: "14 + metadata_length (fb_presence_flags b) + unat (fb_data_length b) < 65536"
    and fits: "length (wire_frame b) \<le> unat out_size" and buf: "unat out_size \<le> length out"
  shows "krs_frame_builder_serialize (Some b) (Some out) out_size =
    Some (of_nat (length (wire_frame b)), Some (wire_frame b @ drop (length (wire_frame b)) out))"
proof -
  let ?f = "fb_presence_flags b" and ?md = "fb_metadata b"
  let ?total = "of_nat 14 + krs_frame_metadata_block_length ?f + fb_data_length b"
  let ?h = "wire_header (fb_channel b) (fb_type b) ?f (fb_packet_id b)"
  let ?hm = "?h @ wire_metadata ?f ?md"
  have len: "length (wire_frame b) = 14 + metadata_length ?f + unat (fb_data_length b)"
    using wf by (simp add: wire_frame_def length_wire_metadata fb_wf_def)
  have total: "?total = of_nat (length (wire_frame b))"
    using unat_serialize_total [OF small] len by (metis of_nat_unat ucast_id)
  have fit: "\<not> out_size < ?total"
    using unat_serialize_total [OF small] len fits by (simp add: word_less_nat_alt)
  have room: "14 + metadata_length ?f + length (fb_payload b) \<le> length out"
    using len fits buf wf by (simp add: fb_wf_def)
  have header: "mem_write out 0 ?h = Some (?h @ drop (length ?h) out)"
    using room by (simp add: mem_write_start)
  have meta: "serialize_metadata ?f ?md (?h @ drop (length ?h) out, 14) =
      Some (?hm @ drop (length ?hm) out, length ?hm)"
    using serialize_metadata_append [of ?h ?f out ?md] room by simp
  have body: "serialize_body (fb_data b) (fb_data_length b) (?hm @ drop (length ?hm) out, length ?hm)
      = Some ((?hm @ fb_payload b) @ drop (length (?hm @ fb_payload b)) out)"
    by (rule serialize_body_append)
       (use wf room in \<open>simp_all add: fb_wf_def fb_payload_def length_wire_metadata\<close>)
  have wire: "wire_frame b = ?hm @ fb_payload b"
    by (simp add: wire_frame_def)
  have fit': "\<not> out_size < of_nat (length (wire_frame b))"
    using fit total by simp
  show ?thesis
    unfolding krs_frame_builder_serialize_def option.case prod.case Let_def serialize_bytes
    by (simp only: fit' if_False header bind.bind_lunit meta body wire [symmetric] total)
qed


subsection \<open>Bytes read\<close>

definition masked_metadata :: "u16 \<Rightarrow> frame_metadata \<Rightarrow> frame_metadata" where
  "masked_metadata flags md =
     \<lparr>fragment_index = (if has_flag flags META_FLAG_FRAGMENT_INFO then fragment_index md else 0),
      fragment_total = (if has_flag flags META_FLAG_FRAGMENT_INFO then fragment_total md else 0),
      ack_id = (if has_flag flags META_FLAG_ACK_ID then ack_id md else 0),
      priority = (if has_flag flags META_FLAG_PRIORITY then priority md else 0),
      timestamp_ms = (if has_flag flags META_FLAG_TIMESTAMP then timestamp_ms md else 0)\<rparr>"

lemma get_field_total:
  assumes "snd st + (if present then w else 0) \<le> length buf"
  shows "\<exists>md. get_field present buf w upd st = Some (md, snd st + (if present then w else 0))"
  using assms by (cases st) (auto simp: get_field_def mem_read_def)

lemma parse_metadata_total:
  assumes "14 + metadata_length flags \<le> length buf"
  shows "\<exists>md. parse_metadata flags buf = Some (md, 14 + metadata_length flags)"
proof -
  have step: "\<exists>md'. get_field p buf w upd (md, c) = Some (md', c + (if p then w else 0))"
    if "c + (if p then w else 0) \<le> length buf" for p w upd md c
    using get_field_total [of "(md, c)" p w buf upd] that by simp
  show ?thesis
    using assms unfolding parse_metadata_def metadata_length_def
    by (fastforce simp: get_field_def mem_read_def)
qed

lemma get_field_app:
  assumes "length xs = w"
  shows "get_field present (pre @ opt_bytes present xs @ post) w upd (md, length pre) =
    Some (if present then upd xs md else md, length (pre @ opt_bytes present xs))"
  using assms by (simp add: get_field_def mem_read_def)

lemma be_16_bytes: "push_bit 8 (ucast (be_bytes 2 v ! 0)) OR ucast (be_bytes 2 v ! Suc 0) = (v :: u16)"
  using be16.dec_enc [of v] by (simp add: be_bytes_2 be_value_def)

lemma parse_metadata_wire:
  assumes "length h = 14"
  shows "parse_metadata flags (h @ wire_metadata flags md @ rest) =
    Some (masked_metadata flags md, 14 + metadata_length flags)"
proof -
  let ?buf = "h @ wire_metadata flags md @ rest"
  let ?x1 = "be_bytes 2 (fragment_index md) @ be_bytes 2 (fragment_total md)"
  let ?x2 = "be_bytes 8 (ack_id md)" and ?x3 = "[priority md]" and ?x4 = "be_bytes 8 (timestamp_ms md)"
  let ?o1 = "opt_bytes (has_flag flags META_FLAG_FRAGMENT_INFO) ?x1"
  let ?o2 = "opt_bytes (has_flag flags META_FLAG_ACK_ID) ?x2"
  let ?o3 = "opt_bytes (has_flag flags META_FLAG_PRIORITY) ?x3"
  let ?o4 = "opt_bytes (has_flag flags META_FLAG_TIMESTAMP) ?x4"
  have buf: "?buf = h @ ?o1 @ (?o2 @ ?o3 @ ?o4 @ rest)"
    "?buf = (h @ ?o1) @ ?o2 @ (?o3 @ ?o4 @ rest)"
    "?buf = (h @ ?o1 @ ?o2) @ ?o3 @ (?o4 @ rest)"
    "?buf = (h @ ?o1 @ ?o2 @ ?o3) @ ?o4 @ rest"
    by (simp_all only: wire_metadata_def append_assoc)
  have g1: "get_field (has_flag flags META_FLAG_FRAGMENT_INFO) ?buf 4 u (m, 14) =
      Some (if has_flag flags META_FLAG_FRAGMENT_INFO then u ?x1 m else m, length (h @ ?o1))" for u m
    unfolding buf(1) assms [symmetric] by (rule get_field_app) simp
  have g2: "get_field (has_flag flags META_FLAG_ACK_ID) ?buf 8 u (m, length (h @ ?o1)) =
      Some (if has_flag flags META_FLAG_ACK_ID then u ?x2 m else m, length (h @ ?o1 @ ?o2))" for u m
    unfolding buf(2) by (subst get_field_app) simp_all
  have g3: "get_field (has_flag flags META_FLAG_PRIORITY) ?buf 1 u (m, length (h @ ?o1 @ ?o2)) =
      Some (if has_flag flags META_FLAG_PRIORITY then u ?x3 m else m, length (h @ ?o1 @ ?o2 @ ?o3))"
    for u m
    unfolding buf(3) by (subst get_field_app) simp_all
  have g4: "get_field (has_flag flags META_FLAG_TIMESTAMP) ?buf 8 u (m, length (h @ ?o1 @ ?o2 @ ?o3)) =
      Some (if has_flag flags META_FLAG_TIMESTAMP then u ?x4 m else m,
            length (h @ ?o1 @ ?o2 @ ?o3 @ ?o4))" for u m
    unfolding buf(4) by (subst get_field_app) simp_all
  show ?thesis
    unfolding parse_metadata_def
    by (simp only: g1 g2 g3 g4 bind.bind_lunit)
      (simp add: masked_metadata_def metadata_zero_def metadata_length_def assms nth_append be_16_bytes be64.dec_enc be_value_be_bytes_full)
qed

text \<open>
  The conditions under which the parser accepts a datagram of \<open>n\<close> bytes with room for \<open>sz\<close> body
  bytes.
\<close>

definition datagram_flags :: "bytes \<Rightarrow> u16" where
  "datagram_flags buf = be_value (take 2 (drop 4 buf))"

definition datagram_ok :: "bytes \<Rightarrow> nat \<Rightarrow> nat \<Rightarrow> bool" where
  "datagram_ok buf n sz \<longleftrightarrow>
     14 \<le> n \<and> buf ! 0 = 0x4B \<and> drop_bit 5 (buf ! 1) AND 7 = KRONOS_VERSION_MAJOR \<and>
     14 + metadata_length (datagram_flags buf) \<le> n \<and>
     n \<le> 14 + metadata_length (datagram_flags buf) + sz"

lemma flags_from_bytes:
  assumes "6 \<le> length buf"
  shows "krs_math_uint16_from_uint8 (buf ! 4) (buf ! 5) = datagram_flags buf"
proof -
  have "take 2 (drop 4 buf) = [buf ! 4, buf ! 5]"
    using assms by (simp add: numeral_2_eq_2 take_Suc hd_drop_conv_nth tl_drop drop_Suc nth_tl)
  then show ?thesis by (simp add: uint16_from_be_value datagram_flags_def)
qed


lemma body_length_conv:
  assumes "14 \<le> unat (n :: u16)"
  shows "unat (krs_frame_calculate_body_length n) = unat n - 14"
  using assms by (simp add: krs_frame_calculate_body_length_def unat_sub_no_wrap)

lemma after_header_less:
  assumes "14 \<le> unat (n :: u16)"
  shows "krs_frame_calculate_body_length n < krs_frame_metadata_block_length f \<longleftrightarrow>
           unat n < 14 + metadata_length f"
  using assms by (auto simp: word_less_nat_alt body_length_conv unat_metadata_block_length)

lemma app_body_length_conv:
  assumes "14 + metadata_length f \<le> unat (n :: u16)"
  shows "unat (krs_frame_calculate_body_length n - krs_frame_metadata_block_length f) =
           unat n - 14 - metadata_length f"
  using assms by (simp add: unat_sub_no_wrap body_length_conv unat_metadata_block_length)

text \<open>The parser, branch by branch.\<close>

lemma s_create_frame_reject:
  assumes "unat n \<le> length buf" and "\<not> datagram_ok buf (unat n) (unat sz)"
  shows "s_create_frame (Some buf) n (Some out) sz = Some frame_invalid"
proof -
  have body: "(sz < krs_frame_calculate_body_length n -
        krs_frame_metadata_block_length (datagram_flags buf)) =
      (unat n > 14 + metadata_length (datagram_flags buf) + unat sz)"
    if "14 + metadata_length (datagram_flags buf) \<le> unat n"
    using that by (simp add: word_less_nat_alt app_body_length_conv) arith
  show ?thesis
    using assms
    by (auto simp: s_create_frame_def datagram_ok_def mem_get_def Let_def flags_from_bytes
        after_header_less body not_less not_le)
qed

lemma s_create_frame_accept:
  assumes "unat n \<le> length buf" and "unat sz \<le> length out" and ok: "datagram_ok buf (unat n) (unat sz)"
    and md: "parse_metadata (datagram_flags buf) buf = Some (md, 14 + metadata_length (datagram_flags buf))"
    and len: "len = unat n - 14 - metadata_length (datagram_flags buf)"
  shows "s_create_frame (Some buf) n (Some out) sz =
    Some \<lparr>frame_protocol_char = 0x4B, frame_protocol_version = buf ! 1, frame_channel = buf ! 2,
          frame_frame_type = buf ! 3, frame_presence_flags = datagram_flags buf,
          frame_packet_id = be_value (take 8 (drop 6 buf)), frame_metadata = md,
          frame_body_length = of_nat len,
          frame_body = Some (take len (drop (14 + metadata_length (datagram_flags buf)) buf) @
                             drop len out)\<rparr>"
proof -
  let ?f = "datagram_flags buf"
  let ?app = "krs_frame_calculate_body_length n - krs_frame_metadata_block_length ?f"
  from ok have n: "14 + metadata_length ?f \<le> unat n" "14 \<le> unat n"
    and hd: "buf ! 0 = 0x4B" "drop_bit 5 (buf ! 1) AND 7 = 1"
    and room: "unat n \<le> 14 + metadata_length ?f + unat sz"
    by (simp_all add: datagram_ok_def)
  have app: "unat ?app = len" using n by (simp add: app_body_length_conv len)
  then have app': "?app = of_nat len" by (metis of_nat_unat ucast_id)
  have sz: "\<not> sz < ?app" using app room len by (simp add: word_less_nat_alt)
  have hdr: "\<not> krs_frame_calculate_body_length n < krs_frame_metadata_block_length ?f"
    using n by (simp add: after_header_less)
  have flags: "krs_math_uint16_from_uint8 (buf ! 4) (buf ! 5) = ?f"
    using assms(1) n by (simp add: flags_from_bytes)
  have pid: "krs_math_uint64_from_uint8 buf 6 n = Some (be_value (take 8 (drop 6 buf)))"
    using assms(1) n by (subst krs_math_uint64_value) simp_all
  have copy: "copy_body buf (14 + metadata_length ?f) ?app out = Some (take len (drop (14 + metadata_length ?f) buf) @ drop len out)"
  proof -
    let ?bs = "take len (drop (14 + metadata_length ?f) buf)"
    have fits: "14 + metadata_length ?f + len \<le> length buf" "len \<le> length out"
      using assms(1,2) n room len by auto
    then have bs: "length ?bs = len" by simp
    have "mem_read buf (14 + metadata_length ?f) (unat ?app) = Some ?bs"
      using fits app by (simp add: mem_read_def)
    moreover have "mem_write out 0 ?bs = Some (?bs @ drop len out)"
      using fits bs mem_write_start [of ?bs out] by simp
    ultimately show ?thesis
      using app by (auto simp: copy_body_def word_less_nat_alt)
  qed
  show ?thesis
    using assms(1) n hd
    by (auto simp: s_create_frame_def mem_get_def Let_def flags hdr app' pid md
        sz [unfolded app'] copy [unfolded app'])
qed


lemmas s_create_frame_branches = s_create_frame_reject s_create_frame_accept

lemma datagram_ok_metadata:
  assumes "unat n \<le> length buf" and "datagram_ok buf (unat n) sz"
  obtains md where
    "parse_metadata (datagram_flags buf) buf = Some (md, 14 + metadata_length (datagram_flags buf))"
  using assms parse_metadata_total [of "datagram_flags buf" buf] by (force simp: datagram_ok_def)

lemma s_create_frame_safe:
  assumes "unat n \<le> length buf" and "unat sz \<le> length out"
  shows "\<exists>f. s_create_frame (Some buf) n (Some out) sz = Some f \<and>
    (frame_protocol_char f = 0x4B \<longleftrightarrow> datagram_ok buf (unat n) (unat sz)) \<and>
    (frame_protocol_char f \<noteq> 0x4B \<longrightarrow> f = frame_invalid) \<and>
    (frame_protocol_char f = 0x4B \<longrightarrow>
       unat (frame_body_length f) = unat n - 14 - metadata_length (datagram_flags buf) \<and>
       (\<exists>body. frame_body f = Some body \<and> length body = length out \<and>
          take (unat (frame_body_length f)) body =
            take (unat n - 14 - metadata_length (datagram_flags buf))
              (drop (14 + metadata_length (datagram_flags buf)) buf)))"
proof (cases "datagram_ok buf (unat n) (unat sz)")
  case True
  let ?len = "unat n - 14 - metadata_length (datagram_flags buf)"
  obtain md where md: "parse_metadata (datagram_flags buf) buf =
      Some (md, 14 + metadata_length (datagram_flags buf))"
    using datagram_ok_metadata [OF assms(1) True] by blast
  have len: "?len \<le> unat sz" "?len < 65536" "14 + metadata_length (datagram_flags buf) + ?len \<le> length buf"
    using True assms unat_less_power_u16 [of n] by (auto simp: datagram_ok_def)
  show ?thesis
    unfolding s_create_frame_accept [OF assms True md refl]
    using len assms True by (simp add: unat_of_nat)
next
  case False
  then show ?thesis
    by (simp add: s_create_frame_reject [OF assms(1) False] frame_invalid_def)
qed


text \<open>
  C1. The parser is memory safe and total on arbitrary input: for every datagram content, as long as
  the receive buffer holds the reported bytes and the body buffer has the reported size, parsing
  ends without an out-of-bounds access. The frame it returns is marked valid exactly for the
  datagrams that carry the magic byte, the build's major version and a complete metadata block and
  whose body fits, and then the body is what follows the metadata block.
\<close>

theorem krs_frame_create_safe:
  assumes "unat n \<le> length buf" and "unat sz \<le> length out"
  shows "\<exists>f. krs_frame_create (Some buf) n (Some out) sz = Some f \<and>
    (frame_protocol_char f = 0x4B \<longleftrightarrow> datagram_ok buf (unat n) (unat sz)) \<and>
    (frame_protocol_char f \<noteq> 0x4B \<longrightarrow> f = frame_invalid) \<and>
    (frame_protocol_char f = 0x4B \<longrightarrow>
       unat (frame_body_length f) = unat n - 14 - metadata_length (datagram_flags buf) \<and>
       (\<exists>body. frame_body f = Some body \<and> length body = length out \<and>
          take (unat (frame_body_length f)) body =
            take (unat n - 14 - metadata_length (datagram_flags buf))
              (drop (14 + metadata_length (datagram_flags buf)) buf)))"
  using s_create_frame_safe [OF assms] by (simp add: krs_frame_create_def)

theorem krs_frame_create_safe_witness:
  "\<exists>f. krs_frame_create (Some (replicate 14 0x4B)) 14 (Some []) 0 = Some f \<and>
     f = frame_invalid"
proof -
  have len: "unat (14 :: u16) \<le> length (replicate 14 (0x4B :: u8))" "unat (0 :: u16) \<le> length ([] :: bytes)"
    by simp_all
  have "\<not> datagram_ok (replicate 14 0x4B) (unat (14 :: u16)) (unat (0 :: u16))"
    by (simp add: datagram_ok_def)
  with krs_frame_create_safe [OF len] show ?thesis by blast
qed

subsection \<open>Round trip\<close>

lemma datagram_flags_wire:
  "datagram_flags (wire_header ch ty flags pid @ rest) = flags"
  by (simp add: datagram_flags_def wire_header_def be16.dec_enc)

lemma packet_id_wire: "be_value (drop 6 (wire_header ch ty flags pid)) = pid"
  by (simp add: wire_header_def be64.dec_enc)

lemma version_byte: "krs_version_encode KRONOS_VERSION_MAJOR KRONOS_VERSION_MINOR KRONOS_VERSION_PATCH = 0x20"
  by (simp add: krs_version_encode_def)

lemma wire_header_nth:
  "(wire_header ch ty flags pid @ rest) ! 0 = 0x4B"
  "(wire_header ch ty flags pid @ rest) ! Suc 0 = 0x20"
  "(wire_header ch ty flags pid @ rest) ! 2 = ch"
  "(wire_header ch ty flags pid @ rest) ! 3 = frame_type_code ty"
  by (simp_all add: wire_header_def version_byte)

text \<open>What a receiver sees of a frame with these contents.\<close>

definition received_frame ::
    "u8 \<Rightarrow> frame_type_e \<Rightarrow> u16 \<Rightarrow> u64 \<Rightarrow> frame_metadata \<Rightarrow> bytes \<Rightarrow> bytes \<Rightarrow> krs_frame" where
  "received_frame ch ty flags pid md payload out =
     \<lparr>frame_protocol_char = 0x4B, frame_protocol_version = 0x20, frame_channel = ch,
      frame_frame_type = frame_type_code ty, frame_presence_flags = flags, frame_packet_id = pid,
      frame_metadata = masked_metadata flags md, frame_body_length = of_nat (length payload),
      frame_body = Some (payload @ drop (length payload) out)\<rparr>"

lemma parse_wire_image:
  assumes n: "unat n = 14 + metadata_length flags + length payload"
    and "length payload \<le> unat sz" and "unat sz \<le> length out"
    and buf: "buf = wire_header ch ty flags pid @ wire_metadata flags md @ payload @ rest"
  shows "s_create_frame (Some buf) n (Some out) sz =
           Some (received_frame ch ty flags pid md payload out)"
proof -
  have flags: "datagram_flags buf = flags" by (simp add: buf datagram_flags_wire)
  have len: "unat n \<le> length buf" using n by (simp add: buf length_wire_metadata)
  have ok: "datagram_ok buf (unat n) (unat sz)"
    using assms(2) n unfolding datagram_ok_def flags by (simp add: buf wire_header_nth)
  have md: "parse_metadata (datagram_flags buf) buf =
      Some (masked_metadata flags md, 14 + metadata_length (datagram_flags buf))"
    unfolding flags by (subst buf) (rule parse_metadata_wire, simp)
  have payload: "take (length payload) (drop (14 + metadata_length flags) buf) = payload"
    by (simp add: buf length_wire_metadata)
  have "length payload = unat n - 14 - metadata_length (datagram_flags buf)"
    using n by (simp add: flags)
  from s_create_frame_accept [OF len assms(3) ok md this] show ?thesis
    by (simp add: received_frame_def flags payload) (simp add: buf wire_header_nth packet_id_wire)
qed

text \<open>
  C29. Serializing a frame builder and parsing the produced datagram gives the builder's channel,
  type, flags, packet id, payload and the metadata of every flag that is set (the other metadata
  fields are zero), for every builder whose encoding is shorter than 2^16 bytes.
\<close>

theorem frame_roundtrip:
  assumes "fb_wf b" and "length (wire_frame b) < 65536"
    and "length (wire_frame b) \<le> unat out_size" and "unat out_size \<le> length out"
    and "unat (fb_data_length b) \<le> unat sz" and "unat sz \<le> length body"
  shows "\<exists>n out'. krs_frame_builder_serialize (Some b) (Some out) out_size = Some (n, Some out') \<and>
    unat n = length (wire_frame b) \<and> length out' = length out \<and>
    krs_frame_create (Some out') n (Some body) sz =
      Some (received_frame (fb_channel b) (fb_type b) (fb_presence_flags b) (fb_packet_id b)
              (fb_metadata b) (fb_payload b) body)"
proof -
  have len: "length (wire_frame b) =
      14 + metadata_length (fb_presence_flags b) + length (fb_payload b)"
    by (simp add: wire_frame_def length_wire_metadata)
  have small: "14 + metadata_length (fb_presence_flags b) + unat (fb_data_length b) < 65536"
    using assms(1,2) len by (simp add: fb_wf_def)
  let ?n = "of_nat (length (wire_frame b)) :: u16"
  have n: "unat ?n = length (wire_frame b)" using assms(2) by (simp add: unat_of_nat)
  have "s_create_frame (Some (wire_frame b @ drop (length (wire_frame b)) out)) ?n (Some body) sz =
      Some (received_frame (fb_channel b) (fb_type b) (fb_presence_flags b) (fb_packet_id b)
              (fb_metadata b) (fb_payload b) body)"
    by (rule parse_wire_image [where rest = "drop (length (wire_frame b)) out"])
       (use n len assms in \<open>simp_all add: fb_wf_def wire_frame_def\<close>)
  with serialize_wire [OF assms(1) small assms(3,4)] n assms(3,4) show ?thesis
    by (simp add: krs_frame_create_def)
qed

theorem frame_roundtrip_witness:
  "let b = \<lparr>fb_channel = 10, fb_type = BASIC_MESSAGE, fb_packet_id = 7, fb_presence_flags = 2,
            fb_metadata = metadata_zero\<lparr>fragment_index := 3, fragment_total := 5\<rparr>,
            fb_data = Some [65, 66], fb_data_length = 2\<rparr>
   in \<exists>n out'. krs_frame_builder_serialize (Some b) (Some (replicate 32 0)) 32 = Some (n, Some out') \<and>
    unat n = length (wire_frame b) \<and> length out' = 32 \<and>
    krs_frame_create (Some out') n (Some (replicate 8 0)) 8 =
      Some (received_frame 10 BASIC_MESSAGE 2 7
              (metadata_zero\<lparr>fragment_index := 3, fragment_total := 5\<rparr>) [65, 66] (replicate 8 0))"
proof -
  let ?b = "\<lparr>fb_channel = 10, fb_type = BASIC_MESSAGE, fb_packet_id = 7, fb_presence_flags = 2,
            fb_metadata = metadata_zero\<lparr>fragment_index := 3, fragment_total := 5\<rparr>,
            fb_data = Some [65, 66], fb_data_length = 2\<rparr>"
  have p: "fb_payload ?b = [65, 66]" by (simp add: fb_payload_def)
  have "metadata_length 2 \<le> 21" by (rule metadata_length_le)
  then show ?thesis
    using frame_roundtrip [of ?b 32 "replicate 32 0" 8 "replicate 8 0"]
    by (simp add: fb_wf_def p wire_frame_def length_wire_metadata metadata_length_def has_flag_def)
qed



text \<open>
  C39. The parser with error reporting agrees with the plain parser: it reports success exactly when the
  plain parser marks the frame valid, and then returns the same frame; and each rejected datagram
  gets the error code of the first check it fails, in the order header, magic byte, version,
  metadata block, body buffer.
\<close>

theorem krs_frame_create_s_spec:
  assumes "unat n \<le> length buf" and "unat sz \<le> length out"
  shows "\<exists>r f. krs_frame_create_s (Some buf) n (Some out) sz = Some r \<and>
    krs_frame_create (Some buf) n (Some out) sz = Some f \<and>
    (rb_valid (fcr_base r) \<longleftrightarrow> frame_protocol_char f = 0x4B) \<and> fcr_frame r = f \<and>
    rb_error_code (fcr_base r) =
      (if unat n < 14 then KRS_ERR_FRAME_INVALID_HEADER
       else if buf ! 0 \<noteq> 0x4B then KRS_ERR_FRAME_INVALID_PROTOCOL
       else if drop_bit 5 (buf ! 1) AND 7 \<noteq> KRONOS_VERSION_MAJOR
         then KRS_ERR_FRAME_UNSUPPORTED_VERSION
       else if unat n < 14 + metadata_length (datagram_flags buf) then KRS_ERR_FRAME_INVALID_HEADER
       else if unat n > 14 + metadata_length (datagram_flags buf) + unat sz
         then KRS_ERR_BUFFER_TOO_SMALL
       else KRS_SUCCESS)"
proof -
  have body: "(sz < krs_frame_calculate_body_length n -
        krs_frame_metadata_block_length (datagram_flags buf)) =
      (unat n > 14 + metadata_length (datagram_flags buf) + unat sz)"
    if "14 + metadata_length (datagram_flags buf) \<le> unat n"
    using that by (simp add: word_less_nat_alt app_body_length_conv) arith
  obtain f where f: "s_create_frame (Some buf) n (Some out) sz = Some f"
    and valid: "frame_protocol_char f = 0x4B \<longleftrightarrow> datagram_ok buf (unat n) (unat sz)"
    and inv: "frame_protocol_char f \<noteq> 0x4B \<longrightarrow> f = frame_invalid"
    using s_create_frame_safe [OF assms] by blast
  show ?thesis
    using assms f valid inv
    by (auto simp: krs_frame_create_s_def krs_frame_create_def datagram_ok_def mem_get_def Let_def
        flags_from_bytes after_header_less body frame_create_err_def frame_invalid_def not_less)
qed


theorem krs_frame_create_s_spec_witness:
  "\<exists>r f. krs_frame_create_s (Some (replicate 13 0)) 13 (Some []) 0 = Some r \<and>
     krs_frame_create (Some (replicate 13 0)) 13 (Some []) 0 = Some f \<and>
     rb_error_code (fcr_base r) = KRS_ERR_FRAME_INVALID_HEADER"
  using krs_frame_create_s_spec [of 13 "replicate 13 0" 0 "[]"] by auto

text \<open>
  Heap parsing returns the frame of the plain parser with a body buffer of exactly the body's
  length, for every datagram whose metadata block is complete, and a null pointer for every other
  datagram and for every allocation failure.
\<close>

theorem krs_frame_create_heap_spec:
  assumes "unat n \<le> length buf"
  shows "krs_frame_create_heap frame_alloc body_alloc (Some buf) n =
    (case body_alloc of
       None \<Rightarrow> Some None
     | Some junk \<Rightarrow>
         if frame_alloc \<and> datagram_ok buf (unat n) (unat n - 14 - metadata_length (datagram_flags buf))
         then map_option Some (krs_frame_create (Some buf) n
                (Some (map junk [0..<max 1 (unat n - 14 - metadata_length (datagram_flags buf))]))
                (of_nat (unat n - 14 - metadata_length (datagram_flags buf))))
         else Some None)"
proof -
  let ?f = "datagram_flags buf"
  let ?app = "krs_frame_calculate_body_length n - krs_frame_metadata_block_length ?f"
  define len where "len = unat n - 14 - metadata_length ?f"
  have ok: "datagram_ok buf (unat n) len \<longleftrightarrow> 14 \<le> unat n \<and> buf ! 0 = 0x4B \<and>
      drop_bit 5 (buf ! 1) AND 7 = KRONOS_VERSION_MAJOR \<and> 14 + metadata_length ?f \<le> unat n"
    by (auto simp: datagram_ok_def len_def)
  have reject: "krs_frame_create_heap frame_alloc body_alloc (Some buf) n = Some None"
    if bad: "\<not> datagram_ok buf (unat n) len"
  proof -
    have b: "mem_get buf i = Some (buf ! i)" if "14 \<le> unat n" "i < 14" for i
      using that assms by (simp add: mem_get_def)
    consider "unat n < 14" | "14 \<le> unat n" "buf ! 0 \<noteq> 0x4B"
      | "14 \<le> unat n" "buf ! 0 = 0x4B" "drop_bit 5 (buf ! 1) AND 7 \<noteq> KRONOS_VERSION_MAJOR"
      | "14 \<le> unat n" "buf ! 0 = 0x4B" "drop_bit 5 (buf ! 1) AND 7 = KRONOS_VERSION_MAJOR"
        "unat n < 14 + metadata_length ?f"
      using bad unfolding ok not_le [symmetric] by blast
    then show ?thesis
    proof cases
      case 4
      moreover have "krs_math_uint16_from_uint8 (buf ! 4) (buf ! 5) = ?f"
        using 4(1) assms by (intro flags_from_bytes) simp
      ultimately show ?thesis
        by (simp add: krs_frame_create_heap_def b Let_def after_header_less)
    qed (simp_all add: krs_frame_create_heap_def b)
  qed
  show ?thesis
  proof (cases "datagram_ok buf (unat n) len")
    case True
    then have n: "14 + metadata_length ?f \<le> unat n" by (simp add: datagram_ok_def)
    have app: "unat ?app = len" using n by (simp add: app_body_length_conv len_def)
    then have app': "?app = of_nat len" by (metis of_nat_unat ucast_id)
    have fits: "unat (of_nat len :: u16) = len" using app app' by simp
    have size: "(if 0 < (of_nat len :: u16) then unat (of_nat len :: u16) else 1) = max 1 len"
      using fits by (auto simp: word_less_nat_alt)
    have bytes: "mem_get buf 0 = Some (buf ! 0)" "mem_get buf 1 = Some (buf ! 1)"
        "mem_get buf 4 = Some (buf ! 4)" "mem_get buf 5 = Some (buf ! 5)"
      using n assms by (auto simp: mem_get_def)
    have flags: "krs_math_uint16_from_uint8 (buf ! 4) (buf ! 5) = ?f"
      using n assms by (intro flags_from_bytes) simp
    have hdr: "\<not> krs_frame_calculate_body_length n < krs_frame_metadata_block_length ?f"
      using n by (simp add: after_header_less)
    have eq: "krs_frame_create_heap frame_alloc body_alloc (Some buf) n =
      (if \<not> frame_alloc then Some None else case body_alloc of None \<Rightarrow> Some None
       | Some junk \<Rightarrow> do {
           let body = map junk [0..<max 1 len];
           f \<leftarrow> s_create_frame (Some buf) n (Some body) (of_nat len);
           if frame_protocol_char f = 0 then Some None else Some (Some f) })"
      using True ok n
      by (simp only: krs_frame_create_heap_def bytes bind.bind_lunit option.case Let_def flags hdr
          app' size if_False not_less not_le if_not_P simp_thms)
    show ?thesis
    proof (cases body_alloc)
      case None
      then show ?thesis using eq by simp
    next
      case (Some junk)
      obtain f where "s_create_frame (Some buf) n (Some (map junk [0..<max 1 len])) (of_nat len) =
          Some f" and "frame_protocol_char f = 0x4B"
        using s_create_frame_safe [OF assms, of "of_nat len" "map junk [0..<max 1 len]"] True fits
        by auto
      with True Some eq show ?thesis
        unfolding krs_frame_create_def len_def [symmetric] by (cases frame_alloc) simp_all
    qed
  next
    case False
    then show ?thesis
      using reject unfolding len_def [symmetric] by (cases body_alloc) simp_all
  qed
qed

theorem krs_frame_create_heap_spec_witness:
  "krs_frame_create_heap True (Some (\<lambda>_. 0)) (Some (0x4B # 0x20 # replicate 12 0)) 14 =
     map_option Some (krs_frame_create (Some (0x4B # 0x20 # replicate 12 0)) 14 (Some [0]) 0)"
proof -
  have "datagram_flags (0x4B # 0x20 # replicate 12 0) = 0"
    by (simp add: datagram_flags_def be_value_def numeral_2_eq_2)
  then show ?thesis
    using krs_frame_create_heap_spec [of 14 "0x4B # 0x20 # replicate 12 0" True "Some (\<lambda>_. 0)"]
    by (simp add: datagram_ok_def metadata_length_def has_flag_def)
qed

text \<open>
  The version byte keeps its three components apart: decoding an encoded version gives the
  major number modulo 8, the minor number modulo 8 and the patch number modulo 4.
\<close>

theorem version_roundtrip:
  "krs_version_decode (krs_version_encode major minor patch) = (major AND 7, minor AND 7, patch AND 3)"
proof -
  have m: "(7 :: u8) = mask 3" "(3 :: u8) = mask 2" by (simp_all add: mask_eq_exp_minus_1)
  show ?thesis
    unfolding krs_version_decode_def krs_version_encode_def m prod.inject
    by (intro conjI bit_word_eqI) (auto simp: bit_simps)
qed

text \<open>
  Copying out the content of a parsed frame never touches memory outside the two buffers and
  either reports 0 and leaves the destination as it was, when it is too small, or copies exactly
  the frame's body bytes.
\<close>

theorem krs_frame_get_content_spec:
  assumes "frame_body f = Some body" and "unat (frame_body_length f) \<le> length body"
    and "unat sz \<le> length out"
  shows "krs_frame_get_content (Some f) (Some out) sz =
    (if sz < frame_body_length f then Some (0, Some out)
     else Some (frame_body_length f,
            Some (take (unat (frame_body_length f)) body @ drop (unat (frame_body_length f)) out)))"
  using assms
  by (auto simp: krs_frame_get_content_def mem_read_def mem_write_start word_less_nat_alt not_less
      word_le_nat_alt)

theorem krs_frame_get_content_spec_witness:
  "krs_frame_get_content (Some (frame_invalid\<lparr>frame_body := Some [1, 2, 3], frame_body_length := 2\<rparr>))
     (Some [9, 9, 9]) 3 = Some (2, Some [1, 2, 9])"
  using krs_frame_get_content_spec
    [of "frame_invalid\<lparr>frame_body := Some [1, 2, 3], frame_body_length := 2\<rparr>" "[1, 2, 3]" 3 "[9, 9, 9]"]
  by simp

end
