(* ===== verification/Kronos_Array.thy ===== *)
theory Kronos_Array
  imports Kronos_Error
begin

text \<open>
  The dynamic pointer array of \<open>src/lib/array\<close> with the structure of \<open>array_internal.h\<close>, and the
  three loop shapes its clients write over it.

  The storage block is the list \<open>arr_items\<close>, one cell per slot of the capacity; a cell holds a
  pointer, \<open>None\<close> for \<open>NULL\<close>. The objects the pointers lead to are owned by the array in every
  client modelled here, so a cell holds the object itself. \<open>krs_array_poke\<close> is a store through
  such a pointer.

  The locale \<open>array_loops\<close> states what a client relies on: element access, in-place update and
  removal on a list of elements. Its lemmas reduce a search loop to \<open>find\<close>, an update loop to
  \<open>map\<close>, and the downward loop that removes elements while iterating to a right fold. The last
  section interprets it with the array operations of this theory.
\<close>

section \<open>The array\<close>

record 'a krs_array =
  arr_items :: "'a option list"
  arr_length :: u32
  arr_capacity :: u32

abbreviation (input) DEFAULT_CAPACITY :: u32 where "DEFAULT_CAPACITY \<equiv> 8"

text \<open>
  The outcome of an allocation of pointer cells: \<open>None\<close> for failure, \<open>Some junk\<close> with the
  indeterminate contents of the new cells.
\<close>

type_synonym 'a cells = "(nat \<Rightarrow> 'a option) option"

definition krs_array_create :: "bool \<Rightarrow> 'a cells \<Rightarrow> u32 \<Rightarrow> 'a krs_array option" where
  "krs_array_create alloc items_alloc initial_capacity =
     (let cap = (if initial_capacity = 0 then DEFAULT_CAPACITY else initial_capacity)
      in if \<not> alloc then None
         else case items_alloc of
                None \<Rightarrow> None
              | Some junk \<Rightarrow>
                  Some \<lparr>arr_items = map junk [0..<unat cap], arr_length = 0, arr_capacity = cap\<rparr>)"

record 'a array_create_r =
  acr_base :: krs_result_base
  acr_array :: "'a krs_array option"

definition krs_array_create_s :: "bool \<Rightarrow> 'a cells \<Rightarrow> u32 \<Rightarrow> 'a array_create_r" where
  "krs_array_create_s alloc items_alloc initial_capacity =
     (case krs_array_create alloc items_alloc initial_capacity of
        None \<Rightarrow> \<lparr>acr_base = krs_lib_error_result_base_w_msg KRS_ERR_MEMORY_ALLOCATION
                              ''Failed to allocate array'', acr_array = None\<rparr>
      | Some a \<Rightarrow> \<lparr>acr_base = krs_lib_error_result_base_suc, acr_array = Some a\<rparr>)"

definition krs_array_destroy :: "'a krs_array option \<Rightarrow> 'a krs_array option" where
  "krs_array_destroy array = None"

text \<open>The objects handed to the destructor, in the order of the calls, and the array pointer.\<close>

fun destroy_loop :: "'a krs_array \<Rightarrow> nat \<Rightarrow> nat \<Rightarrow> 'a list option" where
  "destroy_loop a i 0 = Some []"
| "destroy_loop a i (Suc n) =
     do { x \<leftarrow> mem_get (arr_items a) i;
          rest \<leftarrow> destroy_loop a (Suc i) n;
          Some (case x of None \<Rightarrow> rest | Some v \<Rightarrow> v # rest) }"

definition krs_array_destroy_items ::
    "'a krs_array option \<Rightarrow> bool \<Rightarrow> ('a list \<times> 'a krs_array option) option" where
  "krs_array_destroy_items array has_destroy =
     (case array of
        None \<Rightarrow> Some ([], None)
      | Some a \<Rightarrow>
          do { ds \<leftarrow> (if has_destroy then destroy_loop a 0 (unat (arr_length a)) else Some []);
               Some (ds, krs_array_destroy array) })"

definition krs_array_push ::
    "'a cells \<Rightarrow> 'a krs_array option \<Rightarrow> 'a option \<Rightarrow> (void_r \<times> 'a krs_array option) option" where
  "krs_array_push grow array item =
     (case array of
        None \<Rightarrow> Some (krs_lib_error_result_base_w_msg KRS_ERR_NULL_POINTER ''array is NULL'', None)
      | Some a \<Rightarrow>
          let put = (\<lambda>b. do { items \<leftarrow> mem_set (arr_items b) (unat (arr_length b)) item;
                              Some (krs_lib_error_result_base_suc,
                                    Some (b\<lparr>arr_items := items, arr_length := arr_length b + 1\<rparr>)) })
          in if arr_length a \<ge> arr_capacity a then
               let new_capacity = (if arr_capacity a = 0 then 8 else arr_capacity a * 2)
               in case grow of
                    None \<Rightarrow> Some (krs_lib_error_result_base_w_msg KRS_ERR_MEMORY_ALLOCATION
                                    ''Failed to grow array'', array)
                  | Some junk \<Rightarrow>
                      put (a\<lparr>arr_items := map (\<lambda>i. if i < length (arr_items a) then arr_items a ! i
                                                  else junk i) [0..<unat new_capacity],
                             arr_capacity := new_capacity\<rparr>)
             else put a)"

definition krs_array_get :: "'a krs_array option \<Rightarrow> u32 \<Rightarrow> 'a option option" where
  "krs_array_get array index =
     (case array of
        None \<Rightarrow> Some None
      | Some a \<Rightarrow> if index \<ge> arr_length a then Some None else mem_get (arr_items a) (unat index))"

definition krs_array_pop :: "'a krs_array option \<Rightarrow> ('a option \<times> 'a krs_array option) option" where
  "krs_array_pop array =
     (case array of
        None \<Rightarrow> Some (None, None)
      | Some a \<Rightarrow>
          if arr_length a = 0 then Some (None, array)
          else let b = a\<lparr>arr_length := arr_length a - 1\<rparr>
               in do { x \<leftarrow> mem_get (arr_items b) (unat (arr_length b)); Some (x, Some b) })"

definition krs_array_set ::
    "'a krs_array option \<Rightarrow> u32 \<Rightarrow> 'a option \<Rightarrow> (void_r \<times> 'a krs_array option) option" where
  "krs_array_set array index item =
     (case array of
        None \<Rightarrow> Some (krs_lib_error_result_base_w_msg KRS_ERR_NULL_POINTER ''array is NULL'', None)
      | Some a \<Rightarrow>
          if index \<ge> arr_length a
          then Some (krs_lib_error_result_base_w_msg KRS_ERR_INVALID_PARAMETER
                       ''index out of bounds'', array)
          else do { items \<leftarrow> mem_set (arr_items a) (unat index) item;
                    Some (krs_lib_error_result_base_suc, Some (a\<lparr>arr_items := items\<rparr>)) })"

text \<open>The shifting loop \<open>for (i = index; i < length - 1; i++) items[i] = items[i + 1]\<close>.\<close>

fun shift_loop :: "'a list \<Rightarrow> nat \<Rightarrow> nat \<Rightarrow> 'a list option" where
  "shift_loop items i 0 = Some items"
| "shift_loop items i (Suc n) =
     do { x \<leftarrow> mem_get items (Suc i);
          items' \<leftarrow> mem_set items i x;
          shift_loop items' (Suc i) n }"

definition krs_array_remove ::
    "'a krs_array option \<Rightarrow> u32 \<Rightarrow> (void_r \<times> 'a krs_array option) option" where
  "krs_array_remove array index =
     (case array of
        None \<Rightarrow> Some (krs_lib_error_result_base_w_msg KRS_ERR_NULL_POINTER ''array is NULL'', None)
      | Some a \<Rightarrow>
          if index \<ge> arr_length a
          then Some (krs_lib_error_result_base_w_msg KRS_ERR_INVALID_PARAMETER
                       ''index out of bounds'', array)
          else do { items \<leftarrow> shift_loop (arr_items a) (unat index)
                               (unat (arr_length a - 1) - unat index);
                    Some (krs_lib_error_result_base_suc,
                          Some (a\<lparr>arr_items := items, arr_length := arr_length a - 1\<rparr>)) })"

definition krs_array_length :: "'a krs_array option \<Rightarrow> u32" where
  "krs_array_length array = (case array of None \<Rightarrow> 0 | Some a \<Rightarrow> arr_length a)"

definition krs_array_is_empty :: "'a krs_array option \<Rightarrow> bool" where
  "krs_array_is_empty array = (case array of None \<Rightarrow> True | Some a \<Rightarrow> arr_length a = 0)"

definition krs_array_clear :: "'a krs_array option \<Rightarrow> 'a krs_array option" where
  "krs_array_clear array = map_option (\<lambda>a. a\<lparr>arr_length := 0\<rparr>) array"

section \<open>Loops over an array\<close>

text \<open>
  The operations as a client loop uses them, on a non-null array and with the loop counter as an
  index: reading a pointer, storing through it, removing a slot.
\<close>

definition array_at :: "'a krs_array \<Rightarrow> nat \<Rightarrow> 'a option option" where
  "array_at a i = krs_array_get (Some a) (of_nat i)"

definition krs_array_poke :: "'a krs_array \<Rightarrow> nat \<Rightarrow> 'a \<Rightarrow> 'a krs_array option" where
  "krs_array_poke a i v =
     do { items \<leftarrow> mem_set (arr_items a) i (Some v); Some (a\<lparr>arr_items := items\<rparr>) }"

definition array_drop :: "'a krs_array \<Rightarrow> nat \<Rightarrow> 'a krs_array option" where
  "array_drop a i = do { (r, a') \<leftarrow> krs_array_remove (Some a) (of_nat i); a' }"

text \<open>
  \<open>for (i = 0; i < len; i++) { e = get(i); if (e && P(e)) return i; }\<close> with \<open>n\<close> rounds left.
\<close>

fun find_loop ::
    "('arr \<Rightarrow> nat \<Rightarrow> 'v option option) \<Rightarrow> ('v \<Rightarrow> bool) \<Rightarrow> 'arr \<Rightarrow> nat \<Rightarrow> nat \<Rightarrow> nat option option" where
  "find_loop at P a i 0 = Some None"
| "find_loop at P a i (Suc n) =
     do { x \<leftarrow> at a i;
          case x of
            None \<Rightarrow> find_loop at P a (Suc i) n
          | Some v \<Rightarrow> if P v then Some (Some i) else find_loop at P a (Suc i) n }"

text \<open>\<open>for (i = 0; i < len; i++) { e = get(i); if (!e) continue; *e = f(*e); }\<close>\<close>

fun update_loop ::
    "('arr \<Rightarrow> nat \<Rightarrow> 'v option option) \<Rightarrow> ('arr \<Rightarrow> nat \<Rightarrow> 'v \<Rightarrow> 'arr option) \<Rightarrow> ('v \<Rightarrow> 'v) \<Rightarrow>
     'arr \<Rightarrow> nat \<Rightarrow> nat \<Rightarrow> 'arr option" where
  "update_loop at poke f a i 0 = Some a"
| "update_loop at poke f a i (Suc n) =
     do { x \<leftarrow> at a i;
          case x of
            None \<Rightarrow> update_loop at poke f a (Suc i) n
          | Some v \<Rightarrow> do { a' \<leftarrow> poke a i (f v); update_loop at poke f a' (Suc i) n } }"

text \<open>
  \<open>i = len; while (i > 0) { i--; e = get(i); if (!e) continue; ... }\<close>, whose body either keeps the
  element, possibly changed, or destroys and removes it, and threads a state \<open>s\<close>. The argument
  \<open>step\<close> is the body: \<open>Some v'\<close> keeps, \<open>None\<close> removes.
\<close>

fun sweep_loop ::
    "('arr \<Rightarrow> nat \<Rightarrow> 'v option option) \<Rightarrow> ('arr \<Rightarrow> nat \<Rightarrow> 'v \<Rightarrow> 'arr option) \<Rightarrow>
     ('arr \<Rightarrow> nat \<Rightarrow> 'arr option) \<Rightarrow> ('v \<Rightarrow> 's \<Rightarrow> 'v option \<times> 's) \<Rightarrow> nat \<Rightarrow> 'arr \<Rightarrow> 's \<Rightarrow>
     ('arr \<times> 's) option" where
  "sweep_loop at poke drp step 0 a s = Some (a, s)"
| "sweep_loop at poke drp step (Suc i) a s =
     do { x \<leftarrow> at a i;
          case x of
            None \<Rightarrow> sweep_loop at poke drp step i a s
          | Some v \<Rightarrow>
              (case step v s of
                 (Some v', s') \<Rightarrow> do { a' \<leftarrow> poke a i v'; sweep_loop at poke drp step i a' s' }
               | (None, s') \<Rightarrow> do { a' \<leftarrow> drp a i; sweep_loop at poke drp step i a' s' }) }"

text \<open>What the downward loop computes, on the list of elements.\<close>

primrec sweep_list :: "('v \<Rightarrow> 's \<Rightarrow> 'v option \<times> 's) \<Rightarrow> 'v list \<Rightarrow> 's \<Rightarrow> 'v list \<times> 's" where
  "sweep_list step [] s = ([], s)"
| "sweep_list step (v # vs) s =
     (case sweep_list step vs s of (ys, s1) \<Rightarrow>
        (case step v s1 of (k, s') \<Rightarrow> (case k of Some v' \<Rightarrow> v' # ys | None \<Rightarrow> ys, s')))"

definition find_index :: "('v \<Rightarrow> bool) \<Rightarrow> 'v list \<Rightarrow> nat option" where
  "find_index P vs = find (\<lambda>i. P (vs ! i)) [0..<length vs]"

section \<open>Lemmas\<close>

lemma sweep_list_snoc:
  "sweep_list step (vs @ [v]) s =
     (case step v s of (k, s') \<Rightarrow>
        (case sweep_list step vs s' of (ys, t) \<Rightarrow>
           (case k of Some v' \<Rightarrow> ys @ [v'] | None \<Rightarrow> ys, t)))"
  by (induction vs) (auto split: prod.split option.split)

text \<open>A body that only counts what it removes.\<close>

lemma sweep_list_filter:
  "sweep_list (\<lambda>v n. if P v then (Some v, n) else (None, n + 1)) vs n =
     (filter P vs, n + of_nat (length (filter (\<lambda>v. \<not> P v) vs)))" for n :: "'a::len word"
  by (induction vs) auto

lemma find_index_Some_iff:
  "find_index P vs = Some i \<longleftrightarrow> i < length vs \<and> P (vs ! i) \<and> (\<forall>j<i. \<not> P (vs ! j))"
  by (auto simp: find_index_def find_Some_iff)

lemma find_index_None_iff: "find_index P vs = None \<longleftrightarrow> (\<forall>v\<in>set vs. \<not> P v)"
  by (auto simp: find_index_def find_None_iff in_set_conv_nth Ball_def)

subsection \<open>The interface of an array to its client loops\<close>

locale array_loops =
  fixes wf :: "'arr \<Rightarrow> bool"
    and vals :: "'arr \<Rightarrow> 'v list"
    and at :: "'arr \<Rightarrow> nat \<Rightarrow> 'v option option"
    and poke :: "'arr \<Rightarrow> nat \<Rightarrow> 'v \<Rightarrow> 'arr option"
    and drp :: "'arr \<Rightarrow> nat \<Rightarrow> 'arr option"
  assumes at_nth: "wf a \<Longrightarrow> i < length (vals a) \<Longrightarrow> at a i = Some (Some (vals a ! i))"
    and poke_upd: "wf a \<Longrightarrow> i < length (vals a) \<Longrightarrow>
      \<exists>a'. poke a i v = Some a' \<and> wf a' \<and> vals a' = (vals a)[i := v]"
    and drp_remove: "wf a \<Longrightarrow> i < length (vals a) \<Longrightarrow>
      \<exists>a'. drp a i = Some a' \<and> wf a' \<and> vals a' = remove_nth i (vals a)"
begin

lemma find_from:
  assumes "wf a" and "i + n = length (vals a)"
  shows "find_loop at P a i n = Some (find (\<lambda>i. P (vals a ! i)) [i..<length (vals a)])"
  using assms(2)
proof (induction n arbitrary: i)
  case (Suc n)
  then have "i < length (vals a)" by simp
  with Suc.IH [of "Suc i"] Suc.prems at_nth [OF assms(1) this] show ?case
    by (simp add: upt_conv_Cons)
qed simp

lemma find_all:
  "wf a \<Longrightarrow> n = length (vals a) \<Longrightarrow> find_loop at P a 0 n = Some (find_index P (vals a))"
  by (simp add: find_from find_index_def)

lemma update_from:
  assumes "wf a" and "i + n = length (vals a)"
  shows "\<exists>a'. update_loop at poke f a i n = Some a' \<and> wf a' \<and>
           vals a' = take i (vals a) @ map f (drop i (vals a))"
  using assms
proof (induction n arbitrary: a i)
  case (Suc n)
  then have i: "i < length (vals a)" by simp
  obtain a' where a': "poke a i (f (vals a ! i)) = Some a'" "wf a'"
      "vals a' = (vals a)[i := f (vals a ! i)]"
    using poke_upd [OF Suc.prems(1) i] by blast
  have "Suc i + n = length (vals a')" using Suc.prems(2) a'(3) by simp
  from Suc.IH [OF a'(2) this] i a'(1,3) show ?case
    by (auto simp: at_nth [OF Suc.prems(1) i] take_Suc_conv_app_nth drop_update_cancel
        Cons_nth_drop_Suc [symmetric])
qed simp

lemma update_all:
  "wf a \<Longrightarrow> n = length (vals a) \<Longrightarrow>
     \<exists>a'. update_loop at poke f a 0 n = Some a' \<and> wf a' \<and> vals a' = map f (vals a)"
  using update_from [of a 0 n f] by simp

lemma sweep_from:
  assumes "wf a" and "vals a = vs @ ws"
  shows "\<exists>a'. sweep_loop at poke drp step (length vs) a s = Some (a', snd (sweep_list step vs s)) \<and>
           wf a' \<and> vals a' = fst (sweep_list step vs s) @ ws"
  using assms
proof (induction vs arbitrary: a ws s rule: rev_induct)
  case (snoc v vs)
  then have i: "length vs < length (vals a)" and nth: "vals a ! length vs = v" by auto
  note read = at_nth [OF snoc.prems(1) i, unfolded nth]
  obtain k s' where k: "step v s = (k, s')" by fastforce
  show ?case
  proof (cases k)
    case None
    obtain a' where a': "drp a (length vs) = Some a'" "wf a'" "vals a' = vs @ ws"
      using drp_remove [OF snoc.prems(1) i] snoc.prems(2) by auto
    from snoc.IH [OF a'(2,3)] None k a'(1) show ?thesis
      by (simp add: read sweep_list_snoc)
  next
    case (Some v')
    obtain a' where a': "poke a (length vs) v' = Some a'" "wf a'" "vals a' = vs @ (v' # ws)"
      using poke_upd [OF snoc.prems(1) i] snoc.prems(2) by (auto simp: list_update_append)
    from snoc.IH [OF a'(2,3), of s'] Some k a'(1) show ?thesis
      by (auto simp: read sweep_list_snoc split: prod.splits)
  qed
qed simp

lemma sweep_all:
  assumes "wf a" and "n = length (vals a)"
  shows "\<exists>a'. sweep_loop at poke drp step n a s = Some (a', snd (sweep_list step (vals a) s)) \<and>
           wf a' \<and> vals a' = fst (sweep_list step (vals a) s)"
  using sweep_from [OF assms(1), of "vals a" "[]"] assms(2) by simp

end

subsection \<open>The array as a list\<close>

definition arr_wf :: "'a krs_array \<Rightarrow> bool" where
  "arr_wf a \<longleftrightarrow> length (arr_items a) = unat (arr_capacity a) \<and> arr_length a \<le> arr_capacity a"

definition arr_list :: "'a krs_array \<Rightarrow> 'a option list" where
  "arr_list a = take (unat (arr_length a)) (arr_items a)"

lemma length_arr_list [simp]: "arr_wf a \<Longrightarrow> length (arr_list a) = unat (arr_length a)"
  by (simp add: arr_wf_def arr_list_def word_le_nat_alt)

lemma arr_wf_length_le: "arr_wf a \<Longrightarrow> unat (arr_length a) \<le> length (arr_items a)"
  by (simp add: arr_wf_def word_le_nat_alt)

lemma krs_array_create_wf:
  assumes "krs_array_create alloc cells cap = Some a"
  shows "arr_wf a" and "arr_list a = []"
    and "unat (arr_capacity a) = (if cap = 0 then 8 else unat cap)"
  using assms
  by (auto simp: krs_array_create_def arr_wf_def arr_list_def Let_def
      split: if_splits option.splits)

lemma krs_array_get_list:
  assumes "arr_wf a"
  shows "krs_array_get (Some a) i =
           Some (if unat i < length (arr_list a) then arr_list a ! unat i else None)"
  using assms arr_wf_length_le [OF assms]
  by (auto simp: krs_array_get_def mem_get_def arr_list_def word_le_nat_alt)

lemma put_list:
  fixes item :: "'a option"
  assumes "arr_wf b" and "arr_length b < arr_capacity b"
  defines "b' \<equiv> b\<lparr>arr_items := (arr_items b)[unat (arr_length b) := item],
                      arr_length := arr_length b + 1\<rparr>"
  shows "mem_set (arr_items b) (unat (arr_length b)) item =
           Some ((arr_items b)[unat (arr_length b) := item])"
    and "arr_wf b'" and "arr_list b' = arr_list b @ [item]"
proof -
  have lt: "unat (arr_length b) < length (arr_items b)"
    using assms by (simp add: arr_wf_def word_less_nat_alt)
  have "unat (arr_length b) + 1 < 2 ^ 32"
    using assms(2) unat_less_power_u32 [of "arr_capacity b"] by (simp add: word_less_nat_alt)
  then have len: "unat (arr_length b + 1) = Suc (unat (arr_length b))"
    by (simp add: unat_add_no_wrap)
  show "arr_wf b'"
    using assms by (simp add: arr_wf_def word_le_nat_alt word_less_nat_alt len)
  show "arr_list b' = arr_list b @ [item]"
    using lt by (simp add: b'_def arr_list_def len take_Suc_conv_app_nth)
  show "mem_set (arr_items b) (unat (arr_length b)) item =
          Some ((arr_items b)[unat (arr_length b) := item])"
    using lt by (simp add: mem_set_def)
qed

lemma grow_wf:
  assumes "arr_wf a" and "arr_length a \<ge> arr_capacity a" and "length (arr_list a) < 2 ^ 31"
    and "cap = (if arr_capacity a = 0 then 8 else arr_capacity a * 2)"
    and "b = a\<lparr>arr_items := map (\<lambda>i. if i < length (arr_items a) then arr_items a ! i else junk i)
                  [0..<unat cap], arr_capacity := cap\<rparr>"
  shows "arr_wf b" and "arr_length b < arr_capacity b" and "arr_list b = arr_list a"
proof -
  have eq: "arr_length a = arr_capacity a"
    using assms(1,2) by (simp add: arr_wf_def)
  have small: "unat (arr_capacity a) < 2 ^ 31"
    using assms(1,3) eq by simp
  have gt: "unat (arr_capacity a) < unat cap"
  proof (cases "arr_capacity a = 0")
    case False
    then have "0 < unat (arr_capacity a)" by (simp add: unat_gt_0)
    moreover have "unat cap = 2 * unat (arr_capacity a)"
      using False small assms(4) by (simp add: unat_word_ariths mult.commute)
    ultimately show ?thesis by simp
  qed (simp add: assms(4))
  show "arr_wf b" and "arr_length b < arr_capacity b"
    using gt eq by (simp_all add: assms(5) arr_wf_def word_le_nat_alt word_less_nat_alt)
  have len: "length (arr_items a) = unat (arr_length a)"
    using assms(1) eq by (simp add: arr_wf_def)
  show "arr_list b = arr_list a"
    using gt eq len by (intro nth_equalityI) (simp_all add: assms(5) arr_list_def)
qed

lemma krs_array_push_list:
  assumes "arr_wf a" and "length (arr_list a) < 2 ^ 31"
  shows "\<exists>a'. krs_array_push (Some junk) (Some a) item =
              Some (krs_lib_error_result_base_suc, Some a') \<and>
           arr_wf a' \<and> arr_list a' = arr_list a @ [item]"
proof (cases "arr_length a \<ge> arr_capacity a")
  case False
  then have "arr_length a < arr_capacity a" by simp
  note put = put_list [OF assms(1) this, of item]
  from False put show ?thesis
    by (simp add: krs_array_push_def)
next
  case True
  define cap where "cap = (if arr_capacity a = 0 then 8 else arr_capacity a * 2)"
  define b where "b = a\<lparr>arr_items := map (\<lambda>i. if i < length (arr_items a) then arr_items a ! i
      else junk i) [0..<unat cap], arr_capacity := cap\<rparr>"
  note grown = grow_wf [OF assms(1) True assms(2) cap_def b_def]
  from put_list [OF grown(1,2), of item] grown(3) True show ?thesis
    by (simp add: krs_array_push_def Let_def cap_def [symmetric] b_def [symmetric])
qed

lemma krs_array_push_fail:
  assumes "krs_array_push grow (Some a) item = Some (r, a')" and "rb_error_code r \<noteq> KRS_SUCCESS"
  shows "grow = None \<and> a' = Some a \<and> rb_error_code r = KRS_ERR_MEMORY_ALLOCATION"
  using assms by (auto simp: krs_array_push_def Let_def bind_eq_Some_conv
      split: if_splits option.splits)

text \<open>Whatever the allocator does, a push appends or leaves the list alone.\<close>

lemma krs_array_push_cases:
  assumes "arr_wf a" and "length (arr_list a) < 2 ^ 31"
  obtains a' where "krs_array_push grow (Some a) item =
                      Some (krs_lib_error_result_base_suc, Some a')"
      and "arr_wf a'" and "arr_list a' = arr_list a @ [item]"
    | "grow = None" and "krs_array_push grow (Some a) item =
         Some (krs_lib_error_result_base_w_msg KRS_ERR_MEMORY_ALLOCATION ''Failed to grow array'',
               Some a)"
proof (cases grow)
  case None
  show ?thesis
  proof (cases "arr_length a \<ge> arr_capacity a")
    case True
    with None that(2) show ?thesis by (simp add: krs_array_push_def Let_def)
  next
    case False
    then have "arr_length a < arr_capacity a" by simp
    note put = put_list [OF assms(1) this, of item]
    from False put show ?thesis
      by (intro that(1)) (simp_all add: krs_array_push_def)
  qed
next
  case (Some junk)
  with krs_array_push_list [OF assms, of junk item] that(1) show ?thesis by blast
qed

lemma krs_array_pop_list:
  assumes "arr_wf a" and "arr_list a \<noteq> []"
  shows "\<exists>a'. krs_array_pop (Some a) = Some (last (arr_list a), Some a') \<and> arr_wf a' \<and>
           arr_list a' = butlast (arr_list a)"
proof -
  let ?a' = "a\<lparr>arr_length := arr_length a - 1\<rparr>"
  have pos: "0 < unat (arr_length a)" using assms by (auto simp: arr_list_def)
  then have len: "unat (arr_length a - 1) = unat (arr_length a) - 1"
    by (simp add: unat_sub_no_wrap)
  note le = arr_wf_length_le [OF assms(1)]
  have "arr_wf ?a'"
    using assms(1) by (auto simp: arr_wf_def word_le_nat_alt len)
  moreover have "arr_list ?a' = butlast (arr_list a)"
    using le by (simp add: arr_list_def len butlast_take)
  moreover have "arr_items a ! unat (arr_length a - 1) = last (arr_list a)"
    using pos le assms by (simp add: len last_conv_nth) (simp add: arr_list_def)
  moreover have "unat (arr_length a) - 1 < length (arr_items a)" using pos le by linarith
  moreover have "arr_length a \<noteq> 0" using pos by auto
  ultimately show ?thesis
    by (simp add: krs_array_pop_def Let_def mem_get_def len)
qed

lemma krs_array_set_list:
  assumes "arr_wf a" and "unat i < length (arr_list a)"
  shows "\<exists>a'. krs_array_set (Some a) i item = Some (krs_lib_error_result_base_suc, Some a') \<and>
           arr_wf a' \<and> arr_list a' = (arr_list a)[unat i := item]"
  using assms arr_wf_length_le [OF assms(1)]
  by (auto simp: krs_array_set_def mem_set_def arr_wf_def arr_list_def take_update_swap
      word_le_nat_alt)

lemma out_of_bounds_calls:
  assumes "arr_wf a" and "\<not> unat i < length (arr_list a)"
  shows "krs_array_set (Some a) i item =
           Some (krs_lib_error_result_base_w_msg KRS_ERR_INVALID_PARAMETER ''index out of bounds'', Some a)"
    and "krs_array_remove (Some a) i =
           Some (krs_lib_error_result_base_w_msg KRS_ERR_INVALID_PARAMETER ''index out of bounds'', Some a)"
  using assms by (simp_all add: krs_array_set_def krs_array_remove_def word_le_nat_alt)

lemma shift_loop_remove:
  assumes "i + n < length xs"
  shows "\<exists>ys. shift_loop xs i n = Some ys \<and> length ys = length xs \<and>
           take (i + n) ys = take i xs @ take n (drop (Suc i) xs)"
  using assms
proof (induction n arbitrary: i xs)
  case (Suc n)
  let ?xs = "xs[i := xs ! Suc i]"
  have "Suc i + n < length ?xs" using Suc.prems by simp
  from Suc.IH [OF this] obtain ys where ys: "shift_loop ?xs (Suc i) n = Some ys"
      "length ys = length xs" "take (Suc i + n) ys = take (Suc i) ?xs @ take n (drop (Suc (Suc i)) ?xs)"
    by auto
  have "take (Suc i) ?xs = take i xs @ [xs ! Suc i]"
    using Suc.prems by (simp add: take_Suc_conv_app_nth)
  moreover have "take (Suc n) (drop (Suc i) xs) = xs ! Suc i # take n (drop (Suc (Suc i)) xs)"
    using Suc.prems by (simp add: Cons_nth_drop_Suc [symmetric])
  ultimately show ?case
    using ys Suc.prems by (simp add: mem_get_def mem_set_def drop_update_cancel)
qed simp

lemma krs_array_remove_list:
  assumes "arr_wf a" and "unat i < length (arr_list a)"
  shows "\<exists>a'. krs_array_remove (Some a) i = Some (krs_lib_error_result_base_suc, Some a') \<and>
           arr_wf a' \<and> arr_list a' = remove_nth (unat i) (arr_list a)"
proof -
  note le = arr_wf_length_le [OF assms(1)]
  have lt: "unat i < unat (arr_length a)" using assms by simp
  then have len: "unat (arr_length a - 1) = unat (arr_length a) - 1"
    by (simp add: unat_sub_no_wrap)
  define n where "n = unat (arr_length a) - 1 - unat i"
  have "unat i + n < length (arr_items a)" using lt le by (simp add: n_def)
  from shift_loop_remove [OF this] obtain ys where ys:
      "shift_loop (arr_items a) (unat i) n = Some ys" "length ys = length (arr_items a)"
      "take (unat i + n) ys = take (unat i) (arr_items a) @ take n (drop (Suc (unat i)) (arr_items a))"
    by blast
  let ?a' = "a\<lparr>arr_items := ys, arr_length := arr_length a - 1\<rparr>"
  have sum: "unat i + n = unat (arr_length a) - 1" and diff: "unat (arr_length a) - Suc (unat i) = n"
    and min: "min (unat i) (unat (arr_length a)) = unat i"
    using lt by (simp_all add: n_def)
  from ys(3) have "arr_list ?a' = remove_nth (unat i) (arr_list a)"
    by (simp add: arr_list_def len remove_nth_def drop_take diff min sum)
  moreover have "arr_wf ?a'"
    using assms(1) ys(2) by (auto simp: arr_wf_def word_le_nat_alt len)
  ultimately show ?thesis
    using lt ys(1) by (auto simp: krs_array_remove_def len diff word_le_nat_alt)
qed

subsection \<open>Arrays without null entries\<close>

definition arr_ok :: "'a krs_array \<Rightarrow> bool" where
  "arr_ok a \<longleftrightarrow> arr_wf a \<and> None \<notin> set (arr_list a)"

definition arr_vals :: "'a krs_array \<Rightarrow> 'a list" where
  "arr_vals a = map the (arr_list a)"

lemma arr_list_vals: "arr_ok a \<Longrightarrow> arr_list a = map Some (arr_vals a)"
  by (simp add: arr_ok_def arr_vals_def, rule map_idI [symmetric])
     (metis comp_apply option.collapse)

lemma length_arr_vals: "arr_ok a \<Longrightarrow> length (arr_vals a) = unat (arr_length a)"
  by (simp add: arr_ok_def arr_vals_def)

lemma arr_okI: "arr_wf a \<Longrightarrow> arr_list a = map Some vs \<Longrightarrow> arr_ok a \<and> arr_vals a = vs"
  by (auto simp: arr_ok_def arr_vals_def comp_def)

lemma of_nat_in_array:
  "arr_ok a \<Longrightarrow> i < length (arr_vals a) \<Longrightarrow> unat (of_nat i :: u32) = i"
  using unat_less_power_u32 [of "arr_length a"]
  by (simp add: length_arr_vals unat_of_nat_small)

lemma array_at_vals:
  assumes "arr_ok a" and "i < length (arr_vals a)"
  shows "array_at a i = Some (Some (arr_vals a ! i))"
proof -
  have "arr_wf a" using assms(1) by (simp add: arr_ok_def)
  then show ?thesis
    using assms by (simp add: array_at_def krs_array_get_list of_nat_in_array [OF assms]
        arr_list_vals [OF assms(1)])
qed

lemma array_poke_vals:
  assumes "arr_ok a" and "i < length (arr_vals a)"
  shows "\<exists>a'. krs_array_poke a i v = Some a' \<and> arr_ok a' \<and> arr_vals a' = (arr_vals a)[i := v]"
proof -
  let ?a' = "a\<lparr>arr_items := (arr_items a)[i := Some v]\<rparr>"
  have wf: "arr_wf a" using assms(1) by (simp add: arr_ok_def)
  have lt: "i < unat (arr_length a)" using assms by (simp add: length_arr_vals)
  have "arr_list ?a' = (arr_list a)[i := Some v]"
    using lt by (simp add: arr_list_def take_update_swap)
  then have "arr_list ?a' = map Some ((arr_vals a)[i := v])"
    by (simp add: arr_list_vals [OF assms(1)] map_update)
  moreover have "arr_wf ?a'" using wf by (simp add: arr_wf_def)
  ultimately have "arr_ok ?a' \<and> arr_vals ?a' = (arr_vals a)[i := v]"
    by (rule arr_okI [rotated])
  then show ?thesis
    using lt arr_wf_length_le [OF wf] by (simp add: krs_array_poke_def mem_set_def)
qed

lemma map_remove_nth: "map f (remove_nth i xs) = remove_nth i (map f xs)"
  by (simp add: remove_nth_def take_map drop_map)

lemma array_drop_vals:
  assumes "arr_ok a" and "i < length (arr_vals a)"
  shows "\<exists>a'. array_drop a i = Some a' \<and> arr_ok a' \<and> arr_vals a' = remove_nth i (arr_vals a)"
proof -
  have "unat (of_nat i :: u32) < length (arr_list a)"
    using assms by (simp add: of_nat_in_array arr_list_vals)
  moreover have "arr_wf a" using assms(1) by (simp add: arr_ok_def)
  ultimately obtain a' where a': "krs_array_remove (Some a) (of_nat i) =
      Some (krs_lib_error_result_base_suc, Some a')" "arr_wf a'"
      "arr_list a' = remove_nth i (arr_list a)"
    using krs_array_remove_list [of a "of_nat i"] of_nat_in_array [OF assms] by metis
  have "arr_ok a' \<and> arr_vals a' = remove_nth i (arr_vals a)"
    by (rule arr_okI [OF a'(2)]) (simp add: a'(3) arr_list_vals [OF assms(1)] map_remove_nth)
  with a'(1) show ?thesis by (simp add: array_drop_def)
qed

interpretation kra: array_loops arr_ok arr_vals array_at krs_array_poke array_drop
  by unfold_locales (simp_all add: array_at_vals array_poke_vals array_drop_vals)

lemma push_vals:
  assumes "arr_ok a" and "length (arr_vals a) < 2 ^ 31"
  obtains a' where "krs_array_push grow (Some a) (Some v) =
                      Some (krs_lib_error_result_base_suc, Some a')"
      and "arr_ok a'" and "arr_vals a' = arr_vals a @ [v]"
    | "grow = None" and "krs_array_push grow (Some a) (Some v) =
         Some (krs_lib_error_result_base_w_msg KRS_ERR_MEMORY_ALLOCATION ''Failed to grow array'',
               Some a)"
proof -
  have wf: "arr_wf a" and len: "length (arr_list a) < 2 ^ 31"
    using assms by (simp_all add: arr_ok_def arr_vals_def)
  show ?thesis
  proof (rule krs_array_push_cases [OF wf len, of grow "Some v"])
    fix a' assume a': "krs_array_push grow (Some a) (Some v) =
        Some (krs_lib_error_result_base_suc, Some a')" "arr_wf a'"
      "arr_list a' = arr_list a @ [Some v]"
    have "arr_ok a' \<and> arr_vals a' = arr_vals a @ [v]"
      by (rule arr_okI [OF a'(2)]) (simp add: a'(3) arr_list_vals [OF assms(1)])
    with a'(1) that(1) show ?thesis by blast
  qed (use that(2) in blast)
qed

lemma create_vals:
  assumes "krs_array_create alloc cells cap = Some a"
  shows "arr_ok a" and "arr_vals a = []"
  using krs_array_create_wf [OF assms] by (simp_all add: arr_ok_def arr_vals_def)

lemma destroy_loop_vals:
  assumes "arr_ok a" and "i + n = length (arr_vals a)"
  shows "destroy_loop a i n = Some (drop i (arr_vals a))"
  using assms(2)
proof (induction n arbitrary: i)
  case (Suc n)
  then have i: "i < length (arr_vals a)" by simp
  have wf: "arr_wf a" using assms(1) by (simp add: arr_ok_def)
  have lt: "i < unat (arr_length a)" using i by (simp add: length_arr_vals [OF assms(1)])
  have "arr_items a ! i = arr_list a ! i" using lt by (simp add: arr_list_def)
  then have "mem_get (arr_items a) i = Some (Some (arr_vals a ! i))"
    using lt i arr_wf_length_le [OF wf] by (simp add: mem_get_def arr_list_vals [OF assms(1)])
  with Suc.IH [of "Suc i"] Suc.prems i show ?case
    by (simp add: Cons_nth_drop_Suc)
qed simp

lemma destroy_items_vals:
  "arr_ok a \<Longrightarrow> krs_array_destroy_items (Some a) True = Some (arr_vals a, None)"
  by (simp add: krs_array_destroy_items_def krs_array_destroy_def destroy_loop_vals
      length_arr_vals [symmetric])

section \<open>The array refines a list\<close>

text \<open>Calls on an array, with the allocation outcome a push meets, and what each call returns.\<close>

datatype 'a array_call =
    Push "'a option" "nat \<Rightarrow> 'a option" | Get u32 | Pop | SetAt u32 "'a option" | Remove u32
  | Length | Clear

datatype 'a array_reply = Code krs_error | Item "'a option" | Count nat | Done

definition array_call :: "'a array_call \<Rightarrow> 'a krs_array \<Rightarrow> ('a array_reply \<times> 'a krs_array) option" where
  "array_call c a = (case c of
       Push x junk \<Rightarrow> do { (r, p) \<leftarrow> krs_array_push (Some junk) (Some a) x; a' \<leftarrow> p;
                          Some (Code (rb_error_code r), a') }
     | Get i \<Rightarrow> do { x \<leftarrow> krs_array_get (Some a) i; Some (Item x, a) }
     | Pop \<Rightarrow> do { (x, p) \<leftarrow> krs_array_pop (Some a); a' \<leftarrow> p; Some (Item x, a') }
     | SetAt i x \<Rightarrow> do { (r, p) \<leftarrow> krs_array_set (Some a) i x; a' \<leftarrow> p;
                          Some (Code (rb_error_code r), a') }
     | Remove i \<Rightarrow> do { (r, p) \<leftarrow> krs_array_remove (Some a) i; a' \<leftarrow> p;
                         Some (Code (rb_error_code r), a') }
     | Length \<Rightarrow> Some (Count (unat (krs_array_length (Some a))), a)
     | Clear \<Rightarrow> do { a' \<leftarrow> krs_array_clear (Some a); Some (Done, a') })"

definition list_call :: "'a array_call \<Rightarrow> 'a option list \<Rightarrow> 'a array_reply \<times> 'a option list" where
  "list_call c xs = (case c of
       Push x _ \<Rightarrow> (Code KRS_SUCCESS, xs @ [x])
     | Get i \<Rightarrow> (Item (if unat i < length xs then xs ! unat i else None), xs)
     | Pop \<Rightarrow> if xs = [] then (Item None, xs) else (Item (last xs), butlast xs)
     | SetAt i x \<Rightarrow> if unat i < length xs then (Code KRS_SUCCESS, xs[unat i := x])
                    else (Code KRS_ERR_INVALID_PARAMETER, xs)
     | Remove i \<Rightarrow> if unat i < length xs then (Code KRS_SUCCESS, remove_nth (unat i) xs)
                   else (Code KRS_ERR_INVALID_PARAMETER, xs)
     | Length \<Rightarrow> (Count (length xs), xs)
     | Clear \<Rightarrow> (Done, []))"

fun array_run :: "'a array_call list \<Rightarrow> 'a krs_array \<Rightarrow> ('a array_reply list \<times> 'a krs_array) option" where
  "array_run [] a = Some ([], a)"
| "array_run (c # cs) a =
     do { (r, a') \<leftarrow> array_call c a; (rs, a'') \<leftarrow> array_run cs a'; Some (r # rs, a'') }"

fun list_run :: "'a array_call list \<Rightarrow> 'a option list \<Rightarrow> 'a array_reply list \<times> 'a option list" where
  "list_run [] xs = ([], xs)"
| "list_run (c # cs) xs =
     (case list_call c xs of (r, xs') \<Rightarrow> (case list_run cs xs' of (rs, xs'') \<Rightarrow> (r # rs, xs'')))"

lemma array_call_refines:
  assumes "arr_wf a" and "length (arr_list a) < 2 ^ 31"
  shows "\<exists>r a'. array_call c a = Some (r, a') \<and> arr_wf a' \<and> list_call c (arr_list a) = (r, arr_list a')"
proof (cases c)
  case (Push x junk)
  with krs_array_push_list [OF assms, of junk x] show ?thesis
    by (auto simp: array_call_def list_call_def)
next
  case (Get i)
  with assms show ?thesis by (simp add: array_call_def list_call_def krs_array_get_list)
next
  case Pop
  show ?thesis
  proof (cases "arr_list a = []")
    case True
    with assms have "arr_length a = 0" by (metis length_arr_list list.size(3) unat_eq_0)
    with Pop True assms show ?thesis by (simp add: array_call_def list_call_def krs_array_pop_def)
  next
    case False
    with Pop krs_array_pop_list [OF assms(1) False] show ?thesis
      by (auto simp: array_call_def list_call_def)
  qed
next
  case (SetAt i x)
  with assms krs_array_set_list [OF assms(1), of i x] out_of_bounds_calls(1) [OF assms(1), of i x]
  show ?thesis
    by (cases "unat i < length (arr_list a)") (auto simp: array_call_def list_call_def)
next
  case (Remove i)
  with assms krs_array_remove_list [OF assms(1), of i] out_of_bounds_calls(2) [OF assms(1), of i]
  show ?thesis
    by (cases "unat i < length (arr_list a)") (auto simp: array_call_def list_call_def)
next
  case Length
  with assms show ?thesis by (simp add: array_call_def list_call_def krs_array_length_def)
next
  case Clear
  with assms show ?thesis
    by (simp add: array_call_def list_call_def krs_array_clear_def arr_wf_def arr_list_def)
qed

lemma list_call_length: "length (snd (list_call c xs)) \<le> Suc (length xs)"
  by (cases c) (auto simp: list_call_def)

lemma array_run_refines:
  assumes "arr_wf a" and "length (arr_list a) + length cs \<le> 2 ^ 31"
  shows "\<exists>rs a'. array_run cs a = Some (rs, a') \<and> arr_wf a' \<and> list_run cs (arr_list a) = (rs, arr_list a')"
  using assms
proof (induction cs arbitrary: a)
  case (Cons c cs)
  have "length (arr_list a) < 2 ^ 31" using Cons.prems(2) by simp
  from array_call_refines [OF Cons.prems(1) this, of c] obtain r a1 where
    a1: "array_call c a = Some (r, a1)" "arr_wf a1" "list_call c (arr_list a) = (r, arr_list a1)"
    by blast
  have "length (arr_list a1) + length cs \<le> 2 ^ 31"
    using list_call_length [of c "arr_list a"] a1(3) Cons.prems(2) by simp
  from Cons.IH [OF a1(2) this] obtain rs a2 where
    "array_run cs a1 = Some (rs, a2)" "arr_wf a2" "list_run cs (arr_list a1) = (rs, arr_list a2)"
    by blast
  with a1 show ?case by simp
qed simp

text \<open>
  C32. A freshly created array behaves like the list of its items under any sequence of calls: every
  call stays inside the storage block, replies what the list operation replies (including the
  out-of-bounds error codes), and growth preserves the contents. The bound on the number of calls is
  what keeps the doubled 32-bit capacity from wrapping.
\<close>

theorem krs_array_refines_list:
  assumes "krs_array_create True (Some junk) cap = Some a" and "length cs \<le> 2 ^ 31"
  shows "\<exists>rs a'. array_run cs a = Some (rs, a') \<and> arr_wf a' \<and> list_run cs [] = (rs, arr_list a')"
  using array_run_refines [of a cs] krs_array_create_wf [OF assms(1)] assms(2) by simp

theorem krs_array_refines_list_witness:
  "\<exists>rs a'. array_run [Push (Some (1::nat)) (\<lambda>_. None), Push (Some 2) (\<lambda>_. None), Remove 0, Get 0]
             \<lparr>arr_items = [None], arr_length = 0, arr_capacity = 1\<rparr> = Some (rs, a') \<and>
      rs = [Code KRS_SUCCESS, Code KRS_SUCCESS, Code KRS_SUCCESS, Item (Some 2)] \<and>
      arr_list a' = [Some 2]"
  using krs_array_refines_list [of "\<lambda>_. None" 1
      "\<lparr>arr_items = [None], arr_length = 0, arr_capacity = 1\<rparr>"
      "[Push (Some (1::nat)) (\<lambda>_. None), Push (Some 2) (\<lambda>_. None), Remove 0, Get 0]"]
  by (auto simp: krs_array_create_def list_call_def remove_nth_def)

end
