(* ===== verification/Kronos_Fragment.thy ===== *)
theory Kronos_Fragment
  imports Kronos_Frame
begin

text \<open>
  Fragmentation, the sending half of \<open>src/frame/fragment.c\<close>: a payload that does not fit one
  frame is cut into chunks, and one block of memory (the pool) receives a frame per chunk.

  The theory proves that every frame produced lies inside the pool and has exactly the bytes that
  the frame builder would produce for its chunk, and that the chunks together are the payload.
  The receiving half is in \<open>Kronos_Reassembler\<close>.
\<close>

section \<open>Writing frames\<close>

abbreviation (input) KRS_DEFAULT_MTU :: nat where "KRS_DEFAULT_MTU \<equiv> 1400"
abbreviation (input) KRS_MAX_PAYLOAD_PER_FRAGMENT :: nat where
  "KRS_MAX_PAYLOAD_PER_FRAGMENT \<equiv> 1382"

definition s_version_byte :: u8 where
  "s_version_byte =
     krs_version_encode KRONOS_VERSION_MAJOR KRONOS_VERSION_MINOR KRONOS_VERSION_PATCH"

text \<open>The argument \<open>off\<close> is the offset of the written pointer within its block.\<close>

definition s_write_u16_be :: "bytes \<Rightarrow> nat \<Rightarrow> u16 \<Rightarrow> bytes option" where
  "s_write_u16_be buf off v =
     mem_write buf off [ucast (drop_bit 8 v AND 0xFF), ucast (v AND 0xFF)]"

definition s_write_u64_be :: "bytes \<Rightarrow> nat \<Rightarrow> u64 \<Rightarrow> bytes option" where
  "s_write_u64_be buf off v =
     mem_write buf off (map (\<lambda>k. ucast (drop_bit ((7 - k) * 8) v AND 0xFF)) [0..<8])"

text \<open>The 14 header bytes, written the same way by the three frame writers of the file.\<close>

definition write_frame_header ::
    "bytes \<Rightarrow> nat \<Rightarrow> u8 \<Rightarrow> u8 \<Rightarrow> frame_type_e \<Rightarrow> u16 \<Rightarrow> u64 \<Rightarrow> bytes option" where
  "write_frame_header buf off ver channel type flags packet_id =
     do { b1 \<leftarrow> mem_write buf off [0x4B, ver, channel, frame_type_code type];
          b2 \<leftarrow> s_write_u16_be b1 (off + 4) flags;
          s_write_u64_be b2 (off + 6) packet_id }"

text \<open>\<open>memcpy(buf + off, data + data_off, n)\<close>, skipped for a null source or no bytes.\<close>

definition write_chunk :: "bytes \<Rightarrow> nat \<Rightarrow> bytes option \<Rightarrow> nat \<Rightarrow> nat \<Rightarrow> bytes option" where
  "write_chunk buf off data data_off n =
     (case data of
        Some d \<Rightarrow> if n > 0 then do { c \<leftarrow> mem_read d data_off n; mem_write buf off c } else Some buf
      | None \<Rightarrow> Some buf)"

text \<open>The frame, \<open>None\<close> when the allocation failed, and the size stored through \<open>out_size\<close>.\<close>

definition s_build_plain_frame ::
    "(nat \<Rightarrow> u8) option \<Rightarrow> u8 \<Rightarrow> frame_type_e \<Rightarrow> u64 \<Rightarrow> bytes option \<Rightarrow> u32 \<Rightarrow> u16 \<Rightarrow>
     (bytes option \<times> u16) option" where
  "s_build_plain_frame alloc channel type packet_id data data_length flags =
     (let out_size = ucast (of_nat KRONOS_FRAME_HEADER_LENGTH + data_length) :: u16
      in case alloc of
           None \<Rightarrow> Some (None, out_size)
         | Some junk \<Rightarrow> do {
             b1 \<leftarrow> write_frame_header (map junk [0..<unat out_size]) 0 s_version_byte channel type
                    flags packet_id;
             b2 \<leftarrow> write_chunk b1 KRONOS_FRAME_HEADER_LENGTH data 0 (unat data_length);
             Some (Some b2, out_size) })"

definition fragment_flags :: "u16 \<Rightarrow> u16" where
  "fragment_flags extra_flags = push_bit META_FLAG_FRAGMENT_INFO 1 OR extra_flags"

text \<open>One fragment frame written at offset \<open>off\<close> of a block.\<close>

definition write_fragment_frame ::
    "bytes \<Rightarrow> nat \<Rightarrow> u8 \<Rightarrow> u8 \<Rightarrow> frame_type_e \<Rightarrow> u64 \<Rightarrow> u16 \<Rightarrow> u16 \<Rightarrow> bytes option \<Rightarrow> nat \<Rightarrow> u16 \<Rightarrow>
     u16 \<Rightarrow> bytes option" where
  "write_fragment_frame buf off ver channel type packet_id frag_index frag_total data data_off
       chunk_size extra_flags =
     do { b1 \<leftarrow> write_frame_header buf off ver channel type (fragment_flags extra_flags) packet_id;
          b2 \<leftarrow> s_write_u16_be b1 (off + KRONOS_FRAME_HEADER_LENGTH) frag_index;
          b3 \<leftarrow> s_write_u16_be b2 (off + KRONOS_FRAME_HEADER_LENGTH + 2) frag_total;
          write_chunk b3 (off + KRONOS_FRAME_HEADER_LENGTH + 4) data data_off (unat chunk_size) }"

definition s_build_fragment_frame ::
    "(nat \<Rightarrow> u8) option \<Rightarrow> u8 \<Rightarrow> frame_type_e \<Rightarrow> u64 \<Rightarrow> u16 \<Rightarrow> u16 \<Rightarrow> bytes option \<Rightarrow> u16 \<Rightarrow> u16 \<Rightarrow>
     (bytes option \<times> u16) option" where
  "s_build_fragment_frame alloc channel type packet_id frag_index frag_total chunk chunk_size
       extra_flags =
     (let out_size = of_nat (KRONOS_FRAME_HEADER_LENGTH + 4) + chunk_size
      in case alloc of
           None \<Rightarrow> Some (None, out_size)
         | Some junk \<Rightarrow> do {
             b \<leftarrow> write_fragment_frame (map junk [0..<unat out_size]) 0 s_version_byte channel type
                   packet_id frag_index frag_total chunk 0 chunk_size extra_flags;
             Some (Some b, out_size) })"

section \<open>Splitting\<close>

text \<open>
  A pointer to a heap block: null, valid, or left behind after \<open>free\<close>. \<open>fr_fragments\<close> holds the
  frame pointers: a block of its own for an unfragmented payload, an offset into the pool
  otherwise.
\<close>

datatype 'a heap_ptr = NullPtr | Live 'a | Freed

datatype frame_ptr = OwnFrame bytes | PoolFrame nat

record fragment_result =
  fr_base :: krs_result_base
  fr_fragments :: "frame_ptr list heap_ptr"
  fr_sizes :: "u16 list heap_ptr"
  fr_count :: u16
  fr_pool :: "bytes heap_ptr"

definition fragment_result_zero :: fragment_result where
  "fragment_result_zero = \<lparr>fr_base = result_base_zero, fr_fragments = NullPtr, fr_sizes = NullPtr,
     fr_count = 0, fr_pool = NullPtr\<rparr>"

definition fragment_result_err :: "krs_error \<Rightarrow> string \<Rightarrow> fragment_result" where
  "fragment_result_err e msg =
     fragment_result_zero\<lparr>fr_base := krs_lib_error_result_base_w_msg e msg\<rparr>"

text \<open>
  Freeing twice is undefined (\<open>None\<close>), freeing a null pointer has no effect, and what is freed
  dangles until it is overwritten.
\<close>

definition heap_free :: "'a heap_ptr \<Rightarrow> 'a heap_ptr option" where
  "heap_free p = (case p of NullPtr \<Rightarrow> Some NullPtr | Live _ \<Rightarrow> Some Freed | Freed \<Rightarrow> None)"

definition frag_chunk_size :: "u32 \<Rightarrow> u32 \<Rightarrow> u16 \<Rightarrow> u16" where
  "frag_chunk_size data_length offset payload_per_frag =
     (let remaining = data_length - offset
      in if remaining > ucast payload_per_frag then payload_per_frag else ucast remaining)"

text \<open>The first loop adds up the pool size, \<open>n\<close> rounds.\<close>

fun pool_size_loop :: "u32 \<Rightarrow> u16 \<Rightarrow> nat \<Rightarrow> u32 \<Rightarrow> u32 \<Rightarrow> u32" where
  "pool_size_loop data_length payload_per_frag 0 total_pool_size pre_offset = total_pool_size"
| "pool_size_loop data_length payload_per_frag (Suc n) total_pool_size pre_offset =
     (let chunk_size = frag_chunk_size data_length pre_offset payload_per_frag
      in pool_size_loop data_length payload_per_frag n
           (total_pool_size + (of_nat (KRONOS_FRAME_HEADER_LENGTH + 4) + ucast chunk_size))
           (pre_offset + ucast chunk_size))"

text \<open>
  The second loop writes one frame per round, from round \<open>i\<close> with \<open>n\<close> rounds left; it returns the
  frame pointers and sizes it stored and the pool.
\<close>

fun split_loop ::
    "u8 \<Rightarrow> u8 \<Rightarrow> frame_type_e \<Rightarrow> u64 \<Rightarrow> bytes option \<Rightarrow> u32 \<Rightarrow> u16 \<Rightarrow> u16 \<Rightarrow> u16 \<Rightarrow> nat \<Rightarrow> nat \<Rightarrow>
     bytes \<Rightarrow> u32 \<Rightarrow> u32 \<Rightarrow> (frame_ptr list \<times> u16 list \<times> bytes) option" where
  "split_loop ver channel type packet_id data data_length payload_per_frag frag_count
     additional_flags i 0 pool pool_offset data_offset = Some ([], [], pool)"
| "split_loop ver channel type packet_id data data_length payload_per_frag frag_count
     additional_flags i (Suc n) pool pool_offset data_offset =
     (let chunk_size = frag_chunk_size data_length data_offset payload_per_frag;
          frame_size = of_nat (KRONOS_FRAME_HEADER_LENGTH + 4) + chunk_size
      in do {
        pool' \<leftarrow> write_fragment_frame pool (unat pool_offset) ver channel type packet_id (of_nat i)
                  frag_count data (unat data_offset) chunk_size additional_flags;
        (ptrs, sizes, pool'') \<leftarrow> split_loop ver channel type packet_id data data_length
            payload_per_frag frag_count additional_flags (Suc i) n pool'
            (pool_offset + ucast frame_size) (data_offset + ucast chunk_size);
        Some (PoolFrame (unat pool_offset) # ptrs, frame_size # sizes, pool'') })"

text \<open>
  The three allocations of a call: the pointer block, the size block, and the frame or pool block.
\<close>

record split_alloc =
  sp_fragments :: bool
  sp_sizes :: bool
  sp_block :: "(nat \<Rightarrow> u8) option"

definition krs_fragment_split ::
    "split_alloc \<Rightarrow> u8 \<Rightarrow> frame_type_e \<Rightarrow> u64 \<Rightarrow> bytes option \<Rightarrow> u32 \<Rightarrow> u16 \<Rightarrow> u16 \<Rightarrow>
     fragment_result option" where
  "krs_fragment_split al channel type packet_id data data_length mtu additional_flags =
     (if unat mtu \<le> KRONOS_FRAME_HEADER_LENGTH
      then Some (fragment_result_err KRS_ERR_INVALID_PARAMETER ''mtu too small for frame header'')
      else if data_length \<le> ucast (mtu - of_nat KRONOS_FRAME_HEADER_LENGTH) then
        (if \<not> sp_fragments al \<or> \<not> sp_sizes al
         then Some (fragment_result_err KRS_ERR_MEMORY_ALLOCATION ''allocation failed'')
         else do {
           (frame, size) \<leftarrow> s_build_plain_frame (sp_block al) channel type packet_id data data_length
                             additional_flags;
           case frame of
             None \<Rightarrow> Some (fragment_result_err KRS_ERR_MEMORY_ALLOCATION ''frame allocation failed'')
           | Some f \<Rightarrow> Some \<lparr>fr_base = krs_lib_error_result_base_suc, fr_fragments = Live [OwnFrame f],
                            fr_sizes = Live [size], fr_count = 1, fr_pool = NullPtr\<rparr> })
      else if unat mtu \<le> KRONOS_FRAME_HEADER_LENGTH + 4
      then Some (fragment_result_err KRS_ERR_INVALID_PARAMETER ''mtu too small for fragment header'')
      else
        let payload_per_frag = mtu - of_nat KRONOS_FRAME_HEADER_LENGTH - 4;
            count = (data_length + ucast payload_per_frag - 1) div ucast payload_per_frag
        in if count > 65535
           then Some (fragment_result_err KRS_ERR_INVALID_PARAMETER ''too many fragments needed'')
           else
             let frag_count = ucast count :: u16
             in if \<not> sp_fragments al \<or> \<not> sp_sizes al
                then Some ((fragment_result_err KRS_ERR_MEMORY_ALLOCATION ''allocation failed'')
                       \<lparr>fr_fragments := (if sp_fragments al then Freed else NullPtr),
                        fr_sizes := (if sp_sizes al then Freed else NullPtr)\<rparr>)
                else case sp_block al of
                  None \<Rightarrow> Some (fragment_result_err KRS_ERR_MEMORY_ALLOCATION ''pool allocation failed'')
                | Some junk \<Rightarrow>
                    let total_pool_size =
                          pool_size_loop data_length payload_per_frag (unat frag_count) 0 0
                    in do {
                      (ptrs, sizes, pool) \<leftarrow> split_loop s_version_byte channel type packet_id data
                          data_length payload_per_frag frag_count additional_flags 0
                          (unat frag_count) (map junk [0..<unat total_pool_size]) 0 0;
                      Some \<lparr>fr_base = krs_lib_error_result_base_suc, fr_fragments = Live ptrs,
                            fr_sizes = Live sizes, fr_count = frag_count, fr_pool = Live pool\<rparr> })"

text \<open>The loop over \<open>fragments[i]\<close> reads the pointer block and frees each frame.\<close>

fun free_frames_loop :: "frame_ptr list heap_ptr \<Rightarrow> nat \<Rightarrow> nat \<Rightarrow> unit option" where
  "free_frames_loop ptrs i 0 = Some ()"
| "free_frames_loop ptrs i (Suc n) =
     (case ptrs of
        Live ps \<Rightarrow> do { p \<leftarrow> mem_get ps i;
                       case p of OwnFrame _ \<Rightarrow> free_frames_loop ptrs (Suc i) n | PoolFrame _ \<Rightarrow> None }
      | _ \<Rightarrow> None)"

definition krs_fragment_result_destroy :: "fragment_result option \<Rightarrow> fragment_result option option" where
  "krs_fragment_result_destroy result =
     (case result of
        None \<Rightarrow> Some None
      | Some r \<Rightarrow>
          do { _ \<leftarrow> (if fr_pool r \<noteq> NullPtr then do { _ \<leftarrow> heap_free (fr_pool r); Some () }
                    else free_frames_loop (fr_fragments r) 0 (unat (fr_count r)));
               _ \<leftarrow> heap_free (fr_fragments r);
               _ \<leftarrow> heap_free (fr_sizes r);
               Some (Some (r\<lparr>fr_fragments := NullPtr, fr_sizes := NullPtr, fr_pool := NullPtr,
                             fr_count := 0\<rparr>)) })"

text \<open>The bytes of frame \<open>i\<close> of a result, as a caller reads them: \<open>sizes[i]\<close> bytes at \<open>fragments[i]\<close>.\<close>

definition fragment_bytes :: "fragment_result \<Rightarrow> nat \<Rightarrow> bytes option" where
  "fragment_bytes r i =
     (case (fr_fragments r, fr_sizes r) of
        (Live ps, Live ss) \<Rightarrow>
          do { p \<leftarrow> mem_get ps i;
               n \<leftarrow> mem_get ss i;
               case p of
                 OwnFrame b \<Rightarrow> mem_read b 0 (unat n)
               | PoolFrame off \<Rightarrow> (case fr_pool r of Live pool \<Rightarrow> mem_read pool off (unat n) | _ \<Rightarrow> None) }
      | _ \<Rightarrow> None)"

section \<open>Lemmas\<close>

subsection \<open>Frames written at an offset\<close>

text \<open>
  The bytes of one fragment. For additional flags without metadata this is the wire image of a
  frame builder, as \<open>fragment_wire_image\<close> below says.
\<close>

definition fragment_wire ::
    "u8 \<Rightarrow> frame_type_e \<Rightarrow> u64 \<Rightarrow> u16 \<Rightarrow> u16 \<Rightarrow> u16 \<Rightarrow> bytes \<Rightarrow> bytes" where
  "fragment_wire ch ty pid fl i tot chunk =
     wire_header ch ty (fragment_flags fl) pid @ be_bytes 2 i @ be_bytes 2 tot @ chunk"

lemma length_fragment_wire [simp]: "length (fragment_wire ch ty pid fl i tot c) = 18 + length c"
  by (simp add: fragment_wire_def)

lemma s_write_u16_be_bytes: "s_write_u16_be buf off v = mem_write buf off (be_bytes 2 v)"
  by (simp add: s_write_u16_be_def be_bytes_2 ucast_and_mask8)

lemma s_write_u64_be_bytes: "s_write_u64_be buf off v = mem_write buf off (be_bytes 8 v)"
  by (simp add: s_write_u64_be_def be_bytes_8_loop)

lemma write_frame_header_append:
  assumes "length pre + 14 \<le> length m"
  shows "write_frame_header (pre @ drop (length pre) m) (length pre) s_version_byte ch ty fl pid =
    Some ((pre @ wire_header ch ty fl pid) @ drop (length (pre @ wire_header ch ty fl pid)) m)"
proof -
  let ?h1 = "[0x4B, s_version_byte, ch, frame_type_code ty]"
  have w1: "mem_write (pre @ drop (length pre) m) (length pre) ?h1 =
      Some ((pre @ ?h1) @ drop (length (pre @ ?h1)) m)"
    by (rule mem_write_append) (use assms in simp_all)
  have w2: "mem_write ((pre @ ?h1) @ drop (length (pre @ ?h1)) m) (length pre + 4) (be_bytes 2 fl) =
      Some (((pre @ ?h1) @ be_bytes 2 fl) @ drop (length ((pre @ ?h1) @ be_bytes 2 fl)) m)"
    by (rule mem_write_append) (use assms in simp_all)
  have w3: "mem_write (((pre @ ?h1) @ be_bytes 2 fl) @ drop (length ((pre @ ?h1) @ be_bytes 2 fl)) m)
        (length pre + 6) (be_bytes 8 pid) =
      Some ((((pre @ ?h1) @ be_bytes 2 fl) @ be_bytes 8 pid) @
        drop (length (((pre @ ?h1) @ be_bytes 2 fl) @ be_bytes 8 pid)) m)"
    by (rule mem_write_append) (use assms in simp_all)
  have hdr: "((pre @ ?h1) @ be_bytes 2 fl) @ be_bytes 8 pid = pre @ wire_header ch ty fl pid"
    by (simp add: wire_header_def s_version_byte_def)
  show ?thesis
    unfolding write_frame_header_def s_write_u16_be_bytes s_write_u64_be_bytes w1 bind.bind_lunit
      w2 w3 hdr ..
qed

lemma write_chunk_append:
  assumes "length pre + n \<le> length m" and "data_off + n \<le> length d" and "off = length pre"
  shows "write_chunk (pre @ drop (length pre) m) off (Some d) data_off n =
    Some ((pre @ take n (drop data_off d)) @ drop (length (pre @ take n (drop data_off d))) m)"
proof (cases "n = 0")
  case False
  then have "mem_write (pre @ drop (length pre) m) off (take n (drop data_off d)) =
      Some ((pre @ take n (drop data_off d)) @ drop (length (pre @ take n (drop data_off d))) m)"
    by (intro mem_write_append) (use assms in simp_all)
  with False assms(2) show ?thesis by (simp add: write_chunk_def mem_read_def)
qed (simp add: write_chunk_def)

lemma write_fragment_frame_append:
  assumes room: "length pre + 18 + unat n \<le> length m" and src: "data_off + unat n \<le> length d"
    and fw_def: "fw = fragment_wire ch ty pid fl i tot (take (unat n) (drop data_off d))"
  shows "write_fragment_frame (pre @ drop (length pre) m) (length pre) s_version_byte ch ty pid i tot
           (Some d) data_off n fl = Some ((pre @ fw) @ drop (length (pre @ fw)) m)"
proof -
  let ?h = "pre @ wire_header ch ty (fragment_flags fl) pid"
  let ?i = "?h @ be_bytes 2 i" and ?c = "take (unat n) (drop data_off d)"
  let ?t = "?i @ be_bytes 2 tot"
  have w1: "write_frame_header (pre @ drop (length pre) m) (length pre) s_version_byte ch ty
      (fragment_flags fl) pid = Some (?h @ drop (length ?h) m)"
    by (rule write_frame_header_append) (use room in simp)
  have w2: "mem_write (?h @ drop (length ?h) m) (length pre + 14) (be_bytes 2 i) =
      Some (?i @ drop (length ?i) m)"
    by (rule mem_write_append) (use room in simp_all)
  have w3: "mem_write (?i @ drop (length ?i) m) (length pre + 14 + 2) (be_bytes 2 tot) =
      Some (?t @ drop (length ?t) m)"
    by (rule mem_write_append) (use room in simp_all)
  have w4: "write_chunk (?t @ drop (length ?t) m) (length pre + 14 + 4) (Some d) data_off (unat n) =
      Some ((?t @ ?c) @ drop (length (?t @ ?c)) m)"
    by (rule write_chunk_append) (use room src in simp_all)
  have all: "?t @ ?c = pre @ fw" by (simp add: fw_def fragment_wire_def)
  show ?thesis
    unfolding write_fragment_frame_def s_write_u16_be_bytes w1 bind.bind_lunit w2 w3 w4 all ..
qed

lemma build_plain_frame_bytes:
  assumes "14 + unat data_length < 65536" and "length d = unat data_length"
  shows "s_build_plain_frame (Some junk) ch ty pid (Some d) data_length fl =
    Some (Some (wire_header ch ty fl pid @ d), of_nat (14 + unat data_length))"
proof -
  define sz :: u16 where "sz = ucast (14 + data_length)"
  have sum: "unat (14 + data_length) = 14 + unat data_length"
    using assms(1) by (subst unat_add_no_wrap) simp_all
  have sz: "unat sz = 14 + unat data_length"
    unfolding sz_def using assms(1) by (simp add: unsigned_ucast_eq sum take_bit_nat_eq_self)
  have "sz = of_nat (unat sz)" by simp
  then have eq: "sz = of_nat (14 + unat data_length)" unfolding sz .
  let ?m = "map junk [0..<unat sz]"
  have "write_frame_header ?m 0 s_version_byte ch ty fl pid =
      Some (wire_header ch ty fl pid @ drop (length (wire_header ch ty fl pid)) ?m)"
    using write_frame_header_append [of "[]" ?m ch ty fl pid] by (simp add: sz)
  moreover have "write_chunk (wire_header ch ty fl pid @ drop (length (wire_header ch ty fl pid)) ?m)
      14 (Some d) 0 (unat data_length) =
      Some ((wire_header ch ty fl pid @ take (unat data_length) (drop 0 d)) @
        drop (length (wire_header ch ty fl pid @ take (unat data_length) (drop 0 d))) ?m)"
    by (rule write_chunk_append) (use assms(2) in \<open>simp_all add: sz\<close>)
  ultimately show ?thesis
    unfolding s_build_plain_frame_def Let_def
    using assms(2) by (simp add: sz_def [symmetric] sz) (simp add: eq)
qed

subsection \<open>Chunks\<close>

text \<open>Chunk \<open>k\<close> of a payload, and where it starts.\<close>

definition chunk :: "nat \<Rightarrow> bytes \<Rightarrow> nat \<Rightarrow> bytes" where
  "chunk p d k = take p (drop (k * p) d)"

definition chunk_start :: "nat \<Rightarrow> nat \<Rightarrow> nat \<Rightarrow> nat" where
  "chunk_start p len k = min (k * p) len"

lemma chunk_start_0 [simp]: "chunk_start p len 0 = 0"
  by (simp add: chunk_start_def)

lemma chunk_start_Suc: "chunk_start p len (Suc k) = chunk_start p len k + min p (len - chunk_start p len k)"
  by (auto simp: chunk_start_def min_def)

lemma chunk_start_le: "chunk_start p len k \<le> len"
  by (simp add: chunk_start_def)

lemma chunk_start_mono: "i \<le> j \<Longrightarrow> chunk_start p len i \<le> chunk_start p len j"
  by (simp add: chunk_start_def min_le_iff_disj mult_le_mono1)

lemma length_chunk: "length (chunk p d k) = min p (length d - chunk_start p (length d) k)"
  by (auto simp: chunk_def chunk_start_def min_def)

lemma chunk_at_start:
  "chunk p d k = take (min p (length d - chunk_start p (length d) k)) (drop (chunk_start p (length d) k) d)"
  by (auto simp: chunk_def chunk_start_def min_def)

lemma concat_chunks: "concat (map (chunk p d) [0..<k]) = take (k * p) d"
proof (induction k)
  case (Suc k)
  have "Suc k * p = k * p + p" by simp
  with Suc show ?case by (simp add: chunk_def take_add del: mult_Suc)
qed simp

lemma concat_chunks_all: "length d \<le> k * p \<Longrightarrow> concat (map (chunk p d) [0..<k]) = d"
  by (simp add: concat_chunks)

subsection \<open>The two loops\<close>

lemma frag_chunk_size_conv:
  assumes "unat off \<le> unat len"
  shows "unat (frag_chunk_size len off p) = min (unat p) (unat len - unat off)"
proof -
  have rem: "unat (len - off) = unat len - unat off"
    using assms by (rule unat_sub_no_wrap)
  have cast: "unat (ucast p :: u32) = unat p" by (rule unat_ucast_widen) simp
  show ?thesis
  proof (cases "len - off > ucast p")
    case True
    then show ?thesis by (simp add: frag_chunk_size_def word_less_nat_alt rem cast)
  next
    case False
    then have le: "unat len - unat off \<le> unat p"
      by (simp add: word_less_nat_alt rem cast)
    then have "unat (ucast (len - off) :: u16) = unat len - unat off"
      using unat_less_power_u16 [of p]
      by (simp add: unsigned_ucast_eq rem take_bit_nat_eq_self)
    with False le show ?thesis by (simp add: frag_chunk_size_def)
  qed
qed

text \<open>Both loops advance the data offset from one chunk start to the next.\<close>

lemma next_offset:
  assumes "unat off = chunk_start (unat p) (unat len) i"
  shows "unat (frag_chunk_size len off p) =
           min (unat p) (unat len - chunk_start (unat p) (unat len) i)"
    and "unat (off + ucast (frag_chunk_size len off p)) = chunk_start (unat p) (unat len) (Suc i)"
proof -
  have size: "unat (frag_chunk_size len off p) =
      min (unat p) (unat len - chunk_start (unat p) (unat len) i)"
    using frag_chunk_size_conv [of off len p] chunk_start_le assms by simp
  show "unat (frag_chunk_size len off p) =
      min (unat p) (unat len - chunk_start (unat p) (unat len) i)" by (rule size)
  have cast: "unat (ucast (frag_chunk_size len off p) :: u32) = unat (frag_chunk_size len off p)"
    by (rule unat_ucast_widen) simp
  have "unat off + unat (frag_chunk_size len off p) = chunk_start (unat p) (unat len) (Suc i)"
    by (simp add: size assms chunk_start_Suc)
  moreover have "chunk_start (unat p) (unat len) (Suc i) < 4294967296"
    using chunk_start_le [of "unat p" "unat len" "Suc i"] unat_less_power_u32 [of len] by linarith
  ultimately show "unat (off + ucast (frag_chunk_size len off p)) =
      chunk_start (unat p) (unat len) (Suc i)"
    by (subst unat_add_no_wrap) (simp_all add: cast)
qed

lemma pool_size_loop_conv:
  assumes "unat off = chunk_start (unat p) (unat len) i"
    and "unat tot = 18 * i + chunk_start (unat p) (unat len) i"
    and "18 * (i + n) + unat len < 4294967296"
  shows "unat (pool_size_loop len p n tot off) =
           18 * (i + n) + chunk_start (unat p) (unat len) (i + n)"
  using assms
proof (induction n arbitrary: i tot off)
  case (Suc n)
  note offs = next_offset [OF Suc.prems(1)]
  let ?c = "frag_chunk_size len off p"
  have cast: "unat (ucast ?c :: u32) = unat ?c" by (rule unat_ucast_widen) simp
  have start: "chunk_start (unat p) (unat len) (Suc i) \<le> unat len" by (rule chunk_start_le)
  have nxt: "chunk_start (unat p) (unat len) i + unat ?c = chunk_start (unat p) (unat len) (Suc i)"
    by (simp add: offs(1) chunk_start_Suc)
  have grow: "unat (18 + ucast ?c :: u32) = 18 + unat ?c"
    by (subst unat_add_no_wrap) (use unat_less_power_u16 [of ?c] in \<open>simp_all add: cast\<close>)
  have "unat (tot + (18 + ucast ?c)) = 18 * Suc i + chunk_start (unat p) (unat len) (Suc i)"
    by (subst unat_add_no_wrap) (use Suc.prems(2,3) nxt start grow in simp_all)
  from Suc.IH [OF offs(2) this] Suc.prems(3) show ?case
    by (simp add: Let_def)
qed simp

lemma split_loop_bytes:
  assumes dl: "length d = unat len" and p: "0 < unat p" and mtu: "18 + unat p < 65536"
    and "unat off = chunk_start (unat p) (unat len) i"
    and "unat pool_off = 18 * i + chunk_start (unat p) (unat len) i"
    and "length pre = unat pool_off"
    and "18 * (i + n) + chunk_start (unat p) (unat len) (i + n) \<le> length m"
    and small: "length m < 4294967296"
  shows "split_loop s_version_byte ch ty pid (Some d) len p cnt fl i n
           (pre @ drop (length pre) m) pool_off off =
    Some (map (\<lambda>k. PoolFrame (18 * k + chunk_start (unat p) (unat len) k)) [i..<i + n],
          map (\<lambda>k. of_nat (18 + length (chunk (unat p) d k))) [i..<i + n],
          (pre @ concat (map (\<lambda>k. fragment_wire ch ty pid fl (of_nat k) cnt (chunk (unat p) d k)) [i..<i + n])) @
          drop (length (pre @ concat (map (\<lambda>k. fragment_wire ch ty pid fl (of_nat k) cnt (chunk (unat p) d k))
            [i..<i + n]))) m)"
  using assms(4-7)
proof (induction n arbitrary: i pre off pool_off)
  case (Suc n)
  note offs = next_offset [OF Suc.prems(1)]
  let ?P = "unat p" and ?L = "unat len"
  let ?c = "frag_chunk_size len off p"
  let ?fw = "fragment_wire ch ty pid fl (of_nat i) cnt (chunk ?P d i)"
  have mono: "18 * Suc i + chunk_start ?P ?L (Suc i) \<le> 18 * (i + Suc n) + chunk_start ?P ?L (i + Suc n)"
    using chunk_start_mono [of "Suc i" "i + Suc n" ?P ?L] by simp
  have c: "unat ?c = length (chunk ?P d i)" by (simp add: offs(1) length_chunk dl)
  have nxt: "chunk_start ?P ?L i + unat ?c = chunk_start ?P ?L (Suc i)"
    by (simp add: offs(1) chunk_start_Suc)
  have fw: "?fw = fragment_wire ch ty pid fl (of_nat i) cnt (take (unat ?c) (drop (unat off) d))"
    by (simp add: c Suc.prems(1)) (simp add: chunk_at_start length_chunk dl)
  have wr: "write_fragment_frame (pre @ drop (length pre) m) (length pre) s_version_byte ch ty pid
      (of_nat i) cnt (Some d) (unat off) ?c fl = Some ((pre @ ?fw) @ drop (length (pre @ ?fw)) m)"
  proof (rule write_fragment_frame_append [OF _ _ fw])
    show "length pre + 18 + unat ?c \<le> length m"
      using Suc.prems(2-4) nxt mono by simp
    show "unat off + unat ?c \<le> length d"
      using Suc.prems(1) nxt chunk_start_le [of ?P ?L "Suc i"] by (simp add: dl)
  qed
  have fs: "unat (18 + ?c) = 18 + unat ?c"
    by (subst unat_add_no_wrap) (use mtu in \<open>simp_all add: offs(1)\<close>)
  have "18 + ?c = of_nat (unat (18 + ?c))" by simp
  then have fsize: "18 + ?c = of_nat (18 + length (chunk ?P d i))" unfolding fs c .
  have cast: "unat (ucast (18 + ?c) :: u32) = 18 + unat ?c"
    using fs unat_ucast_widen [of "18 + ?c", where 'b = 32] by simp
  have "unat (pool_off + ucast (18 + ?c)) = 18 * Suc i + chunk_start ?P ?L (Suc i)"
    by (subst unat_add_no_wrap) (use Suc.prems(2,4) small nxt cast mono in simp_all)
  moreover from this have "length (pre @ ?fw) = unat (pool_off + ucast (18 + ?c))"
    using Suc.prems(2,3) nxt c by simp
  moreover have "18 * (Suc i + n) + chunk_start ?P ?L (Suc i + n) \<le> length m"
    using Suc.prems(4) by simp
  ultimately have rest: "split_loop s_version_byte ch ty pid (Some d) len p cnt fl (Suc i) n
      ((pre @ ?fw) @ drop (length (pre @ ?fw)) m) (pool_off + ucast (18 + ?c)) (off + ucast ?c) =
    Some (map (\<lambda>k. PoolFrame (18 * k + chunk_start ?P ?L k)) [Suc i..<Suc i + n],
          map (\<lambda>k. of_nat (18 + length (chunk ?P d k))) [Suc i..<Suc i + n],
          ((pre @ ?fw) @ concat (map (\<lambda>k. fragment_wire ch ty pid fl (of_nat k) cnt (chunk ?P d k)) [Suc i..<Suc i + n])) @
          drop (length ((pre @ ?fw) @ concat (map (\<lambda>k. fragment_wire ch ty pid fl (of_nat k) cnt (chunk ?P d k))
            [Suc i..<Suc i + n]))) m)"
    using Suc.IH [OF offs(2)] by blast
  have upt: "[i..<i + Suc n] = i # [Suc i..<Suc i + n]" by (simp add: upt_conv_Cons)
  show ?case
    unfolding split_loop.simps Let_def upt
    using wr rest Suc.prems(2,3) by (simp add: fsize)
qed simp

subsection \<open>What splitting produces\<close>

definition fragment_count :: "nat \<Rightarrow> nat \<Rightarrow> nat" where
  "fragment_count len p = (len + p - 1) div p"

text \<open>
  The specification: the frames of a payload for a given MTU. A payload that fits becomes one plain
  frame, a larger one becomes numbered fragments of \<open>mtu - 18\<close> payload bytes each.
\<close>

definition split_frames ::
    "u8 \<Rightarrow> frame_type_e \<Rightarrow> u64 \<Rightarrow> bytes \<Rightarrow> nat \<Rightarrow> u16 \<Rightarrow> bytes list" where
  "split_frames ch ty pid d mtu fl =
     (if length d \<le> mtu - 14 then [wire_header ch ty fl pid @ d]
      else map (\<lambda>k. fragment_wire ch ty pid fl (of_nat k) (of_nat (fragment_count (length d) (mtu - 18)))
                      (chunk (mtu - 18) d k)) [0..<fragment_count (length d) (mtu - 18)])"

lemma fragment_count_covers: "0 < p \<Longrightarrow> len \<le> fragment_count len p * p"
  unfolding fragment_count_def
  using div_mult_mod_eq [of "len + p - 1" p] mod_less_divisor [of p "len + p - 1"] by linarith

lemma fragment_count_pos: "0 < p \<Longrightarrow> 0 < len \<Longrightarrow> 0 < fragment_count len p"
  by (simp add: fragment_count_def div_greater_zero_iff)

lemma length_concat_frames:
  "length (concat (map (\<lambda>j. fragment_wire ch ty pid fl (of_nat j) cnt (chunk p d j)) [0..<k])) =
     18 * k + chunk_start p (length d) k"
  by (induction k) (simp_all add: length_chunk chunk_start_Suc)

lemma concat_frames_split:
  assumes "k < n"
  shows "concat (map F [0..<n]) =
           concat (map F [0..<k]) @ F k @ concat (map F [Suc k..<n])"
proof -
  have "[0..<n] = [0..<k] @ k # [Suc k..<n]"
    using assms upt_add_eq_append [of 0 k "n - k"] by (simp add: upt_conv_Cons)
  then show ?thesis by simp
qed

lemma read_pool_frame:
  assumes "k < n" and "F = (\<lambda>j. fragment_wire ch ty pid fl (of_nat j) cnt (chunk p d j))"
  shows "mem_read (concat (map F [0..<n])) (18 * k + chunk_start p (length d) k)
           (18 + length (chunk p d k)) = Some (F k)"
  unfolding concat_frames_split [OF assms(1)]
  by (rule mem_read_app) (simp_all add: assms(2) length_concat_frames)

lemma split_fits:
  assumes "14 < unat mtu" and "length d = unat len" and "unat len \<le> unat mtu - 14"
    and "sp_fragments al" and "sp_sizes al" and "sp_block al = Some junk"
  shows "krs_fragment_split al ch ty pid (Some d) len mtu fl =
    Some \<lparr>fr_base = krs_lib_error_result_base_suc,
          fr_fragments = Live [OwnFrame (wire_header ch ty fl pid @ d)],
          fr_sizes = Live [of_nat (14 + length d)], fr_count = 1, fr_pool = NullPtr\<rparr>"
proof -
  have "unat (mtu - 14) = unat mtu - 14" using assms(1) by (simp add: unat_sub_no_wrap)
  then have "len \<le> ucast (mtu - 14)"
    using assms(3) unat_ucast_widen [of "mtu - 14", where 'b = 32] by (simp add: word_le_nat_alt)
  moreover have "14 + unat len < 65536" using assms(1,3) unat_less_power_u16 [of mtu] by linarith
  ultimately show ?thesis
    using assms build_plain_frame_bytes [of len d junk ch ty pid fl]
    by (simp add: krs_fragment_split_def)
qed

lemma split_fragments:
  assumes mtu: "18 < unat mtu" and dl: "length d = unat len" and big: "unat len > unat mtu - 14"
    and no_wrap: "unat len + unat mtu < 4294967296"
    and cnt: "fragment_count (unat len) (unat mtu - 18) \<le> 65535"
    and al: "sp_fragments al" "sp_sizes al" "sp_block al = Some junk"
  shows "krs_fragment_split al ch ty pid (Some d) len mtu fl =
    (let p = unat mtu - 18; c = fragment_count (length d) p in
     Some \<lparr>fr_base = krs_lib_error_result_base_suc,
          fr_fragments = Live (map (\<lambda>k. PoolFrame (18 * k + chunk_start p (length d) k)) [0..<c]),
          fr_sizes = Live (map (\<lambda>k. of_nat (18 + length (chunk p d k))) [0..<c]),
          fr_count = of_nat c,
          fr_pool = Live (concat (map (\<lambda>k. fragment_wire ch ty pid fl (of_nat k) (of_nat c) (chunk p d k))
                            [0..<c]))\<rparr>)"
proof -
  define p where "p = mtu - 14 - 4"
  define c where "c = fragment_count (length d) (unat p)"
  have m14: "unat (mtu - 14) = unat mtu - 14" using mtu by (simp add: unat_sub_no_wrap)
  have p: "unat p = unat mtu - 18"
    unfolding p_def using mtu m14 by (subst unat_sub_no_wrap) simp_all
  have cast: "unat (ucast p :: u32) = unat p" by (rule unat_ucast_widen) simp
  have "\<not> len \<le> ucast (mtu - 14)"
    using big m14 unat_ucast_widen [of "mtu - 14", where 'b = 32] by (simp add: word_le_nat_alt)
  have sum: "unat (len + ucast p - 1) = unat len + unat p - 1"
  proof -
    have "unat (len + ucast p) = unat len + unat p"
      using no_wrap by (subst unat_add_no_wrap) (simp_all add: cast p)
    then show ?thesis
      using big by (subst unat_sub_no_wrap) simp_all
  qed
  define cw where "cw = (len + ucast p - 1) div (ucast p :: u32)"
  have cw: "unat cw = c"
    by (simp add: cw_def c_def fragment_count_def unat_div sum cast dl)
  have c_small: "c \<le> 65535" using cnt by (simp add: c_def p dl)
  then have not_many: "\<not> cw > 65535" by (simp add: word_less_nat_alt cw)
  have count: "unat (ucast cw :: u16) = c"
    using c_small by (simp add: unsigned_ucast_eq cw take_bit_nat_eq_self)
  have "ucast cw = (of_nat (unat (ucast cw :: u16)) :: u16)" by simp
  then have count': "ucast cw = (of_nat c :: u16)" unfolding count .
  have uc: "unat (of_nat c :: u16) = c" using count unfolding count' .
  have len_le: "unat len \<le> c * unat p"
    unfolding c_def dl by (rule fragment_count_covers) (use mtu p in simp)
  have pool_small: "18 * c + unat len < 4294967296"
  proof -
    have "c * unat p \<le> 65535 * 65517"
      using c_small p unat_less_power_u16 [of mtu] by (intro mult_le_mono) simp_all
    with len_le c_small show ?thesis by simp
  qed
  define sz where "sz = pool_size_loop len p c 0 0"
  have start: "chunk_start (unat p) (unat len) c = unat len"
    using len_le by (simp add: chunk_start_def)
  have sz: "unat sz = 18 * c + unat len"
    unfolding sz_def using pool_size_loop_conv [of 0 p len 0 0 c] pool_small start by simp
  let ?m = "map junk [0..<unat sz]"
  have frames: "length (concat (map (\<lambda>k. fragment_wire ch ty pid fl (of_nat k) (of_nat c)
      (chunk (unat p) d k)) [0..<c])) = unat sz"
    by (simp add: length_concat_frames sz dl start)
  have pos: "0 < unat p" and room: "18 + unat p < 65536"
    using mtu p unat_less_power_u16 [of mtu] by simp_all
  have "18 * (0 + c) + chunk_start (unat p) (unat len) (0 + c) \<le> length ?m"
    and "length ?m < 4294967296"
    using pool_small by (simp_all add: sz start)
  from split_loop_bytes [OF dl pos room _ _ _ this, of 0 0 "[]" ch ty pid "of_nat c" fl]
  have "split_loop s_version_byte ch ty pid (Some d) len p (of_nat c) fl 0 c ?m 0 0 =
    Some (map (\<lambda>k. PoolFrame (18 * k + chunk_start (unat p) (unat len) k)) [0..<c],
          map (\<lambda>k. of_nat (18 + length (chunk (unat p) d k))) [0..<c],
          concat (map (\<lambda>k. fragment_wire ch ty pid fl (of_nat k) (of_nat c) (chunk (unat p) d k)) [0..<c]))"
    by (simp add: frames del: of_nat_add)
  note loop = this
  have "\<not> unat mtu \<le> 14" "\<not> unat mtu \<le> 18" using mtu by simp_all
  with \<open>\<not> len \<le> ucast (mtu - 14)\<close> not_many loop al show ?thesis
    unfolding krs_fragment_split_def Let_def
    by (simp add: p_def [symmetric] cw_def [symmetric] count' uc sz_def [symmetric] c_def [symmetric]
      p [symmetric] dl [symmetric] del: of_nat_add)
qed

definition no_metadata :: "u16 \<Rightarrow> bool" where
  "no_metadata fl \<longleftrightarrow> \<not> has_flag fl META_FLAG_FRAGMENT_INFO \<and> \<not> has_flag fl META_FLAG_ACK_ID \<and>
     \<not> has_flag fl META_FLAG_PRIORITY \<and> \<not> has_flag fl META_FLAG_TIMESTAMP"

definition fragment_md :: "u16 \<Rightarrow> u16 \<Rightarrow> frame_metadata" where
  "fragment_md i tot = metadata_zero\<lparr>fragment_index := i, fragment_total := tot\<rparr>"

lemma fragment_flags_bits: "bit (fragment_flags fl) n \<longleftrightarrow> n = 1 \<or> bit fl n"
  by (auto simp: fragment_flags_def bit_simps)

lemma fragment_wire_image:
  assumes "no_metadata fl"
  shows "fragment_wire ch ty pid fl i tot c =
           wire_header ch ty (fragment_flags fl) pid @
           wire_metadata (fragment_flags fl) (fragment_md i tot) @ c"
    and "metadata_length (fragment_flags fl) = 4"
  using assms
  by (simp_all add: fragment_wire_def wire_metadata_def no_metadata_def has_flag_bit
      fragment_flags_bits fragment_md_def metadata_length_def)

lemma split_result:
  assumes "18 < unat mtu" and "length d = unat len" and "unat len + unat mtu < 4294967296"
    and "fragment_count (unat len) (unat mtu - 18) \<le> 65535"
    and "sp_fragments al" and "sp_sizes al" and "sp_block al = Some junk"
  shows "\<exists>r. krs_fragment_split al ch ty pid (Some d) len mtu fl = Some r \<and> rb_valid (fr_base r) \<and>
    unat (fr_count r) = length (split_frames ch ty pid d (unat mtu) fl) \<and>
    (\<forall>i < unat (fr_count r). fragment_bytes r i = Some (split_frames ch ty pid d (unat mtu) fl ! i) \<and>
       length (split_frames ch ty pid d (unat mtu) fl ! i) \<le> unat mtu)"
proof (cases "unat len \<le> unat mtu - 14")
  case True
  have "unat (of_nat (14 + length d) :: u16) = 14 + length d"
    using True assms(1,2) unat_less_power_u16 [of mtu] by (intro unat_of_nat_small) simp
  then have sz: "unat (14 + of_nat (length d) :: u16) = 14 + length d" by simp
  have "14 + length d \<le> unat mtu" using True assms(1,2) by simp
  with split_fits [OF _ assms(2) True assms(5,6,7), of ch ty pid fl] assms(1,2) True sz show ?thesis
    by (simp add: split_frames_def fragment_bytes_def mem_get_def mem_read_def)
next
  case False
  define p where "p = unat mtu - 18"
  define c where "c = fragment_count (length d) p"
  have c: "c \<le> 65535" using assms(2,4) by (simp add: c_def p_def)
  then have uc: "unat (of_nat c :: u16) = c" by (intro unat_of_nat_small) simp
  have size: "unat (of_nat (18 + length (chunk p d k)) :: u16) = 18 + length (chunk p d k)" for k
    using unat_less_power_u16 [of mtu] assms(1)
    by (intro unat_of_nat_small) (simp add: length_chunk p_def)
  have frames: "split_frames ch ty pid d (unat mtu) fl =
      map (\<lambda>k. fragment_wire ch ty pid fl (of_nat k) (of_nat c) (chunk p d k)) [0..<c]"
    using False assms(2) by (simp add: split_frames_def p_def c_def)
  have "18 + length (chunk p d k) \<le> unat mtu" for k
    using assms(1) by (simp add: length_chunk p_def)
  with split_fragments [OF assms(1,2) _ assms(3-7), of ch ty pid fl] False uc show ?thesis
    by (simp add: frames p_def [symmetric] c_def [symmetric] Let_def fragment_bytes_def mem_get_def
        size read_pool_frame del: of_nat_add)
qed



text \<open>
  For a payload length within \<open>mtu - 18\<close> of 2^32 the rounding in \<open>uint32_t\<close> wraps around: the
  fragment count becomes zero and the call reports success with no fragment at all, although the
  payload is not empty.
\<close>

theorem split_count_wraps:
  assumes "18 < unat mtu" and "unat len + (unat mtu - 18) > 4294967296"
    and "sp_fragments al" and "sp_sizes al" and "sp_block al = Some junk"
  shows "\<exists>r. krs_fragment_split al ch ty pid data len mtu fl = Some r \<and> rb_valid (fr_base r) \<and>
           fr_count r = 0 \<and> len \<noteq> 0"
proof -
  define p where "p = mtu - 14 - 4"
  have m14: "unat (mtu - 14) = unat mtu - 14" using assms(1) by (simp add: unat_sub_no_wrap)
  have p: "unat p = unat mtu - 18"
    unfolding p_def using assms(1) m14 by (subst unat_sub_no_wrap) simp_all
  have cast: "unat (ucast p :: u32) = unat p" by (rule unat_ucast_widen) simp
  have m: "unat mtu < 65536" by (rule unat_less_power_u16)
  have "\<not> len \<le> ucast (mtu - 14)"
    using assms(2) m m14 unat_ucast_widen [of "mtu - 14", where 'b = 32] by (simp add: word_le_nat_alt)
  moreover have "unat (len + ucast p - 1) = unat len + unat p - 4294967297"
  proof -
    have l: "unat len < 4294967296" by (rule unat_less_power_u32)
    have "(unat len + unat p) mod 4294967296 = unat len + unat p - 4294967296"
      using assms(2) p m l by (subst le_mod_geq) simp_all
    then have "unat (len + ucast p) = unat len + unat p - 4294967296"
      by (simp add: unat_word_ariths cast)
    then show ?thesis
      using assms(2) p by (subst unat_sub_no_wrap) simp_all
  qed
  then have "(len + ucast p - 1) div ucast p = 0"
    using unat_less_power_u32 [of len] assms(1) p
    by (simp add: unat_eq_0 [symmetric] unat_div cast div_eq_0_iff del: unat_eq_0)
  moreover have "len \<noteq> 0" using assms(2) m by auto
  ultimately show ?thesis
    using assms(1,3-5) unfolding krs_fragment_split_def Let_def by (simp add: p_def [symmetric])
qed

theorem split_count_wraps_witness:
  "\<exists>r. krs_fragment_split \<lparr>sp_fragments = True, sp_sizes = True, sp_block = Some (\<lambda>_. 0)\<rparr>
        10 BASIC_MESSAGE 9 None 4294967295 1400 0 = Some r \<and> fr_count r = 0"
  using split_count_wraps [of 1400 4294967295
      "\<lparr>sp_fragments = True, sp_sizes = True, sp_block = Some (\<lambda>_. 0)\<rparr>" "\<lambda>_. 0" 10 BASIC_MESSAGE 9 None 0]
  by auto

text \<open>The three shapes of a result.\<close>

lemma split_shape:
  assumes "krs_fragment_split al ch ty pid data len mtu fl = Some r"
  obtains f n where "r = \<lparr>fr_base = krs_lib_error_result_base_suc, fr_fragments = Live [OwnFrame f],
      fr_sizes = Live [n], fr_count = 1, fr_pool = NullPtr\<rparr>"
    | ps ns c pool where "r = \<lparr>fr_base = krs_lib_error_result_base_suc, fr_fragments = Live ps,
      fr_sizes = Live ns, fr_count = c, fr_pool = Live pool\<rparr>"
    | e msg fs ns where "r = (fragment_result_err e msg)\<lparr>fr_fragments := fs, fr_sizes := ns\<rparr>"
      and "fs \<noteq> NullPtr \<longrightarrow> fs = Freed" and "ns \<noteq> NullPtr \<longrightarrow> ns = Freed"
proof -
  note cases = that
  have err: thesis if "r = fragment_result_err e msg" for e msg
    using that by (intro cases(3) [where e = e and msg = msg and fs = NullPtr and ns = NullPtr])
      (simp_all add: fragment_result_err_def fragment_result_zero_def)
  show ?thesis
    using assms unfolding krs_fragment_split_def Let_def
    by (auto simp: bind_eq_Some_conv split: if_splits option.splits intro: cases err)
qed

lemma split_destroy:
  assumes "krs_fragment_split al ch ty pid data len mtu fl = Some r" and "rb_valid (fr_base r)"
  shows "krs_fragment_result_destroy (Some r) \<noteq> None"
  using assms
proof (cases rule: split_shape)
  case 1
  then show ?thesis by (simp add: krs_fragment_result_destroy_def heap_free_def mem_get_def)
next
  case 2
  then show ?thesis by (simp add: krs_fragment_result_destroy_def heap_free_def)
next
  case 3
  then show ?thesis using assms(2) by (simp add: fragment_result_err_def krs_lib_error_result_base_w_msg_def)
qed

text \<open>Without memory the call reports an error.\<close>

lemma split_unavailable:
  assumes "\<not> (sp_fragments al \<and> sp_sizes al \<and> sp_block al \<noteq> None)" and "18 < unat mtu"
  shows "\<exists>r. krs_fragment_split al ch ty pid data len mtu fl = Some r \<and> rb_error_code (fr_base r) \<noteq> KRS_SUCCESS"
  using assms
  by (auto simp: krs_fragment_split_def Let_def s_build_plain_frame_def fragment_result_err_def
      krs_lib_error_result_base_w_msg_def)

text \<open>
  Releasing a successful result is always safe and clears it. A failed result can be released
  exactly when it holds no dangling pointer. The branch that allocates the two blocks of a
  fragmented payload leaves such a pointer when one of the two allocations fails (the witness), so
  that releasing the result frees the block a second time.
\<close>

theorem fragment_result_destroy_spec:
  assumes "krs_fragment_split al ch ty pid data len mtu fl = Some r"
  shows "(rb_valid (fr_base r) \<longrightarrow>
            krs_fragment_result_destroy (Some r) =
              Some (Some (r\<lparr>fr_fragments := NullPtr, fr_sizes := NullPtr, fr_pool := NullPtr,
                            fr_count := 0\<rparr>))) \<and>
         (krs_fragment_result_destroy (Some r) = None \<longleftrightarrow>
            fr_fragments r = Freed \<or> fr_sizes r = Freed)"
  using assms
proof (cases rule: split_shape)
  case 1
  then show ?thesis by (simp add: krs_fragment_result_destroy_def heap_free_def mem_get_def)
next
  case 2
  then show ?thesis by (simp add: krs_fragment_result_destroy_def heap_free_def)
next
  case 3
  then show ?thesis
    by (cases "fr_fragments r"; cases "fr_sizes r")
      (simp_all add: krs_fragment_result_destroy_def heap_free_def fragment_result_err_def
        fragment_result_zero_def)
qed

theorem fragment_result_destroy_spec_witness:
  "\<exists>r. krs_fragment_split \<lparr>sp_fragments = True, sp_sizes = False, sp_block = None\<rparr>
         10 BASIC_MESSAGE 9 (Some (replicate 30 1)) 30 20 0 = Some r \<and>
       krs_fragment_result_destroy (Some r) = None"
proof -
  let ?r = "(fragment_result_err KRS_ERR_MEMORY_ALLOCATION ''allocation failed'')
              \<lparr>fr_fragments := Freed, fr_sizes := NullPtr\<rparr>"
  have "krs_fragment_split \<lparr>sp_fragments = True, sp_sizes = False, sp_block = None\<rparr>
         10 BASIC_MESSAGE 9 (Some (replicate 30 1)) 30 20 0 = Some ?r"
    by (simp add: krs_fragment_split_def Let_def)
  from this fragment_result_destroy_spec [OF this] show ?thesis by auto
qed

end
