(* ===== verification/Kronos_Reassembler.thy ===== *)
theory Kronos_Reassembler
  imports Kronos_Fragment Kronos_Array
begin

text \<open>
  Reassembly, the receiving half of \<open>src/frame/fragment.c\<close> with the structures of
  \<open>fragment_internal.h\<close>: sessions keyed by packet id collect the pieces of a payload, and the
  last missing piece compacts the session buffer into the result.

  Sessions live in the pointer array of \<open>Kronos_Array\<close>. The theory proves that a reassembler whose
  sessions are well-formed stays so under feeding and sweeping, that feeding the fragments of a
  split payload in any order, with duplicates, gives the payload back and leaves no session behind,
  and which fragments lead outside the session's memory.
\<close>

section \<open>Sessions\<close>

abbreviation (input) KRS_MAX_FRAGMENTS_PER_PACKET :: nat where "KRS_MAX_FRAGMENTS_PER_PACKET \<equiv> 64"
abbreviation (input) KRS_MAX_REASSEMBLY_SESSIONS :: nat where "KRS_MAX_REASSEMBLY_SESSIONS \<equiv> 256"

record fragment_session =
  fs_packet_id :: u64
  fs_total :: u16
  fs_received :: u16
  fs_buffer :: bytes
  fs_max_piece_size :: u16
  fs_piece_sizes :: "u16 list"
  fs_piece_received :: "bool list"
  fs_ack_required :: bool
  fs_created_ms :: u64

record reassembler =
  re_sessions :: "fragment_session krs_array"

text \<open>
  \<open>NULL\<close> is \<open>None\<close>. The \<open>sessions\<close> member is only ever null inside \<open>krs_reassembler_create\<close>, which
  then returns \<open>NULL\<close>.
\<close>

definition krs_reassembler_create ::
    "bool \<Rightarrow> bool \<Rightarrow> fragment_session cells \<Rightarrow> reassembler option" where
  "krs_reassembler_create alloc array_alloc cells =
     (if \<not> alloc then None
      else case krs_array_create array_alloc cells 4 of
             None \<Rightarrow> None
           | Some a \<Rightarrow> Some \<lparr>re_sessions = a\<rparr>)"

text \<open>The sessions released and the reassembler pointer.\<close>

definition krs_reassembler_destroy ::
    "reassembler option \<Rightarrow> (fragment_session list \<times> reassembler option) option" where
  "krs_reassembler_destroy reassembler =
     (case reassembler of
        None \<Rightarrow> Some ([], None)
      | Some r \<Rightarrow> do { (ds, p) \<leftarrow> krs_array_destroy_items (Some (re_sessions r)) True;
                       Some (ds, None) })"

definition krs_reassembler_sweep_stale ::
    "u64 \<Rightarrow> reassembler option \<Rightarrow> u32 \<Rightarrow> (u32 \<times> reassembler option) option" where
  "krs_reassembler_sweep_stale now reassembler timeout_ms =
     (case reassembler of
        None \<Rightarrow> Some (0, None)
      | Some r \<Rightarrow>
          do { (a, removed) \<leftarrow> sweep_loop array_at krs_array_poke array_drop
                 (\<lambda>session removed.
                    if now - fs_created_ms session < ucast timeout_ms
                    then (Some session, removed)
                    else (None, removed + 1))
                 (unat (krs_array_length (Some (re_sessions r)))) (re_sessions r) 0;
               Some (removed, Some (r\<lparr>re_sessions := a\<rparr>)) })"

text \<open>A session is referred to by its index in the array.\<close>

definition s_find_session :: "reassembler \<Rightarrow> u64 \<Rightarrow> nat option option" where
  "s_find_session r packet_id =
     find_loop array_at (\<lambda>s. fs_packet_id s = packet_id) (re_sessions r) 0
       (unat (krs_array_length (Some (re_sessions r))))"

record session_alloc =
  sa_session :: bool
  sa_buffer :: "(nat \<Rightarrow> u8) option"
  sa_sizes :: bool
  sa_received :: bool
  sa_push :: "fragment_session cells"

definition s_create_session ::
    "session_alloc \<Rightarrow> u64 \<Rightarrow> reassembler \<Rightarrow> u64 \<Rightarrow> u16 \<Rightarrow> (nat option \<times> reassembler) option" where
  "s_create_session al now r packet_id tot =
     (if \<not> sa_session al then Some (None, r)
      else case sa_buffer al of
        None \<Rightarrow> Some (None, r)
      | Some junk \<Rightarrow>
          if \<not> sa_sizes al \<or> \<not> sa_received al then Some (None, r)
          else
            let max_piece_size = of_nat KRS_MAX_PAYLOAD_PER_FRAGMENT;
                session = \<lparr>fs_packet_id = packet_id, fs_total = tot, fs_received = 0,
                   fs_buffer = map junk [0..<unat (ucast tot * ucast max_piece_size :: u32)],
                   fs_max_piece_size = max_piece_size,
                   fs_piece_sizes = replicate (unat tot) 0,
                   fs_piece_received = replicate (unat tot) False,
                   fs_ack_required = False, fs_created_ms = now\<rparr>
            in do { (res, p) \<leftarrow> krs_array_push (sa_push al) (Some (re_sessions r)) (Some session);
                    a \<leftarrow> p;
                    if rb_error_code res \<noteq> KRS_SUCCESS then Some (None, r\<lparr>re_sessions := a\<rparr>)
                    else Some (Some (unat (krs_array_length (Some a)) - 1), r\<lparr>re_sessions := a\<rparr>) })"

definition s_remove_session :: "reassembler \<Rightarrow> u64 \<Rightarrow> reassembler option" where
  "s_remove_session r packet_id =
     do { i \<leftarrow> s_find_session r packet_id;
          case i of
            None \<Rightarrow> Some r
          | Some i \<Rightarrow> do { a \<leftarrow> array_drop (re_sessions r) i; Some (r\<lparr>re_sessions := a\<rparr>) } }"

section \<open>Feeding a fragment\<close>

record reassemble_result =
  rr_base :: krs_result_base
  rr_complete :: bool
  rr_data :: "bytes option"
  rr_data_length :: u32
  rr_ack_required :: bool

definition reassemble_err :: "krs_error \<Rightarrow> string \<Rightarrow> reassemble_result" where
  "reassemble_err e msg = \<lparr>rr_base = krs_lib_error_result_base_w_msg e msg, rr_complete = False,
     rr_data = None, rr_data_length = 0, rr_ack_required = False\<rparr>"

definition reassemble_partial :: reassemble_result where
  "reassemble_partial = \<lparr>rr_base = krs_lib_error_result_base_suc, rr_complete = False,
     rr_data = None, rr_data_length = 0, rr_ack_required = False\<rparr>"

text \<open>A frame without fragment information: a copy of its body, lines 325 to 341.\<close>

definition feed_whole :: "(nat \<Rightarrow> u8) option \<Rightarrow> krs_frame \<Rightarrow> reassemble_result option" where
  "feed_whole alloc fragment =
     (case alloc of
        None \<Rightarrow> Some (reassemble_err KRS_ERR_MEMORY_ALLOCATION ''allocation failed'')
      | Some junk \<Rightarrow> do {
          data \<leftarrow> (if frame_body_length fragment > 0
                  then do { body \<leftarrow> frame_body fragment;
                            bs \<leftarrow> mem_read body 0 (unat (frame_body_length fragment));
                            mem_write (map junk [0..<unat (frame_body_length fragment)]) 0 bs }
                  else Some []);
          Some \<lparr>rr_base = krs_lib_error_result_base_suc, rr_complete = True, rr_data = Some data,
                rr_data_length = ucast (frame_body_length fragment),
                rr_ack_required = has_flag (frame_presence_flags fragment) META_FLAG_ACK_REQUIRED\<rparr> })"

text \<open>
  Storing the payload of fragment \<open>index\<close>: \<open>memcpy\<close> into the slot, the size, the received bit and
  the counter.
\<close>

definition store_piece ::
    "fragment_session \<Rightarrow> u16 \<Rightarrow> bytes option \<Rightarrow> u16 \<Rightarrow> fragment_session option" where
  "store_piece session index payload payload_size =
     do { buffer \<leftarrow> (if payload_size > 0
                    then do { p \<leftarrow> payload;
                              bs \<leftarrow> mem_read p 0 (unat payload_size);
                              mem_write (fs_buffer session)
                                (unat (ucast index * ucast (fs_max_piece_size session) :: u32)) bs }
                    else Some (fs_buffer session));
          sizes \<leftarrow> mem_set (fs_piece_sizes session) (unat index) payload_size;
          received \<leftarrow> mem_set (fs_piece_received session) (unat index) True;
          Some (session\<lparr>fs_buffer := buffer, fs_piece_sizes := sizes, fs_piece_received := received,
                        fs_received := fs_received session + 1\<rparr>) }"

fun total_length_loop :: "fragment_session \<Rightarrow> nat \<Rightarrow> nat \<Rightarrow> u32 \<Rightarrow> u32 option" where
  "total_length_loop session i 0 total_length = Some total_length"
| "total_length_loop session i (Suc n) total_length =
     do { sz \<leftarrow> mem_get (fs_piece_sizes session) i;
          total_length_loop session (Suc i) n (total_length + ucast sz) }"

fun compact_loop :: "fragment_session \<Rightarrow> nat \<Rightarrow> nat \<Rightarrow> bytes \<Rightarrow> u32 \<Rightarrow> bytes option" where
  "compact_loop session i 0 buffer offset = Some buffer"
| "compact_loop session i (Suc n) buffer offset =
     do { sz \<leftarrow> mem_get (fs_piece_sizes session) i;
          let slot_offset = (of_nat i * ucast (fs_max_piece_size session) :: u32);
          buffer' \<leftarrow> (if sz > 0 \<and> offset \<noteq> slot_offset
                     then do { bs \<leftarrow> mem_read buffer (unat slot_offset) (unat sz);
                               mem_write buffer (unat offset) bs }
                     else Some buffer);
          compact_loop session (Suc i) n buffer' (offset + ucast sz) }"

text \<open>
  The part of \<open>krs_reassembler_feed\<close> after the session has been found or created, lines 375 to 423;
  \<open>si\<close> is the position of the session.
\<close>

definition feed_session ::
    "reassembler \<Rightarrow> nat \<Rightarrow> krs_frame \<Rightarrow> (reassemble_result \<times> reassembler) option" where
  "feed_session r si fragment =
     (let index = fragment_index (frame_metadata fragment) in do {
        p \<leftarrow> array_at (re_sessions r) si;
        s0 \<leftarrow> p;
        let session = (if has_flag (frame_presence_flags fragment) META_FLAG_ACK_REQUIRED
                       then s0\<lparr>fs_ack_required := True\<rparr> else s0);
        seen \<leftarrow> mem_get (fs_piece_received session) (unat index);
        if seen then do {
          a \<leftarrow> krs_array_poke (re_sessions r) si session;
          Some (reassemble_partial, r\<lparr>re_sessions := a\<rparr>) }
        else do {
          session \<leftarrow> store_piece session index (frame_body fragment) (frame_body_length fragment);
          a \<leftarrow> krs_array_poke (re_sessions r) si session;
          if fs_received session < fs_total session
          then Some (reassemble_partial, r\<lparr>re_sessions := a\<rparr>)
          else do {
            total_length \<leftarrow> total_length_loop session 0 (unat (fs_total session)) 0;
            buffer \<leftarrow> compact_loop session 0 (unat (fs_total session)) (fs_buffer session) 0;
            r' \<leftarrow> s_remove_session (r\<lparr>re_sessions := a\<rparr>) (frame_packet_id fragment);
            Some (\<lparr>rr_base = krs_lib_error_result_base_suc, rr_complete = True,
                   rr_data = Some buffer, rr_data_length = total_length,
                   rr_ack_required = fs_ack_required session\<rparr>, r') } } })"

record feed_alloc =
  fa_body :: "(nat \<Rightarrow> u8) option"
  fa_session :: session_alloc

definition krs_reassembler_feed ::
    "feed_alloc \<Rightarrow> u64 \<Rightarrow> reassembler option \<Rightarrow> krs_frame option \<Rightarrow>
     (reassemble_result \<times> reassembler option) option" where
  "krs_reassembler_feed al now reassembler fragment =
     (case (reassembler, fragment) of
        (Some r, Some f) \<Rightarrow>
          if \<not> has_flag (frame_presence_flags f) META_FLAG_FRAGMENT_INFO
          then do { res \<leftarrow> feed_whole (fa_body al) f; Some (res, reassembler) }
          else
            let index = fragment_index (frame_metadata f);
                tot = fragment_total (frame_metadata f)
            in if tot = 0 \<or> index \<ge> tot \<or> unat tot > KRS_MAX_FRAGMENTS_PER_PACKET
               then Some (reassemble_err KRS_ERR_INVALID_PARAMETER
                            ''invalid fragment index/total or exceeds max'', reassembler)
               else if unat (frame_body_length f) > KRS_MAX_PAYLOAD_PER_FRAGMENT
               then Some (reassemble_err KRS_ERR_FRAGMENT_PAYLOAD_OVERSIZED
                            ''fragment payload exceeds per-fragment maximum'', reassembler)
               else do {
                 found \<leftarrow> s_find_session r (frame_packet_id f);
                 case found of
                   Some si \<Rightarrow> do { (res, r') \<leftarrow> feed_session r si f; Some (res, Some r') }
                 | None \<Rightarrow>
                     if unat (krs_array_length (Some (re_sessions r))) \<ge> KRS_MAX_REASSEMBLY_SESSIONS
                     then Some (reassemble_err KRS_ERR_MEMORY_ALLOCATION
                                  ''reassembler session limit reached'', reassembler)
                     else do {
                       (created, r1) \<leftarrow> s_create_session (fa_session al) now r (frame_packet_id f) tot;
                       case created of
                         None \<Rightarrow> Some (reassemble_err KRS_ERR_MEMORY_ALLOCATION
                                         ''session allocation failed'', Some r1)
                       | Some si \<Rightarrow> do { (res, r') \<leftarrow> feed_session r1 si f; Some (res, Some r') } } }
      | _ \<Rightarrow> Some (reassemble_err KRS_ERR_NULL_POINTER ''NULL argument'', reassembler))"

section \<open>Lemmas\<close>

subsection \<open>Well-formed sessions\<close>

definition piece :: "bytes \<Rightarrow> u16 list \<Rightarrow> nat \<Rightarrow> bytes" where
  "piece buffer sizes i = take (unat (sizes ! i)) (drop (i * 1382) buffer)"

definition sess_ok :: "fragment_session \<Rightarrow> bool" where
  "sess_ok s \<longleftrightarrow>
     0 < unat (fs_total s) \<and> unat (fs_total s) \<le> 64 \<and> fs_max_piece_size s = 1382 \<and>
     length (fs_buffer s) = unat (fs_total s) * 1382 \<and>
     length (fs_piece_sizes s) = unat (fs_total s) \<and>
     length (fs_piece_received s) = unat (fs_total s) \<and>
     (\<forall>sz \<in> set (fs_piece_sizes s). unat sz \<le> 1382) \<and>
     unat (fs_received s) = length (filter id (fs_piece_received s))"

text \<open>An open session: well-formed and still waiting for a piece.\<close>

definition sess_open :: "fragment_session \<Rightarrow> bool" where
  "sess_open s \<longleftrightarrow> sess_ok s \<and> fs_received s < fs_total s"

lemma slot_offset_conv:
  "i < 64 \<Longrightarrow> unat (of_nat i * ucast (1382 :: u16) :: u32) = i * 1382"
  by (simp add: unat_word_ariths unat_of_nat_small)

lemma slot_offset_conv_word:
  assumes "unat (i :: u16) < 64"
  shows "unat (ucast i * ucast (1382 :: u16) :: u32) = unat i * 1382"
proof -
  have "unat (ucast i :: u32) = unat i" by (rule unat_ucast_widen) simp
  with assms show ?thesis by (simp add: unat_word_ariths)
qed

lemma piece_write:
  assumes "length xs \<le> 1382" and "i < n" and "j < n" and "length b = n * 1382"
    and "unat (sizes ! j) \<le> 1382" and "length sizes = n" and "length xs = unat sz"
  shows "piece (take (i * 1382) b @ xs @ drop (i * 1382 + length xs) b) (sizes[i := sz]) j =
           (if j = i then xs else piece b sizes j)"
proof -
  have i: "i * 1382 + 1382 \<le> length b"
    using assms(2,4) mult_le_mono1 [of "Suc i" n 1382] by simp
  consider "j = i" | "j < i" | "i < j" by linarith
  then show ?thesis
  proof cases
    assume "j = i"
    with assms i show ?thesis by (simp add: piece_def)
  next
    assume "j < i"
    then have "j * 1382 + 1382 \<le> i * 1382"
      using mult_le_mono1 [of "Suc j" i 1382] by simp
    with \<open>j < i\<close> assms(5) i show ?thesis
      by (simp add: piece_def drop_take)
  next
    assume "i < j"
    then have "i * 1382 + 1382 \<le> j * 1382"
      using mult_le_mono1 [of "Suc i" j 1382] by simp
    with \<open>i < j\<close> assms i show ?thesis
      by (simp add: piece_def)
  qed
qed

lemma length_filter_set_True:
  "i < length bs \<Longrightarrow> \<not> bs ! i \<Longrightarrow> length (filter id (bs[i := True])) = Suc (length (filter id bs))"
proof (induction bs arbitrary: i)
  case (Cons b bs)
  then show ?case by (cases i) auto
qed simp

lemma filter_id_full: "length (filter id bs) = length bs \<longleftrightarrow> (\<forall>i<length bs. bs ! i)"
  by (metis filter_True id_apply in_set_conv_nth length_filter_less nat_less_le nth_mem)

text \<open>What storing a piece does.\<close>

lemma store_piece_ok:
  assumes ok: "sess_ok s" and i: "unat i < unat (fs_total s)" and new: "\<not> fs_piece_received s ! unat i"
    and size: "unat sz \<le> 1382" and body: "unat sz \<le> length body"
  shows "\<exists>s'. store_piece s i (Some body) sz = Some s' \<and> sess_ok s' \<and>
     fs_packet_id s' = fs_packet_id s \<and> fs_total s' = fs_total s \<and>
     fs_ack_required s' = fs_ack_required s \<and> fs_created_ms s' = fs_created_ms s \<and>
     unat (fs_received s') = Suc (unat (fs_received s)) \<and>
     fs_piece_received s' = (fs_piece_received s)[unat i := True] \<and>
     (\<forall>j < unat (fs_total s). piece (fs_buffer s') (fs_piece_sizes s') j =
        (if j = unat i then take (unat sz) body else piece (fs_buffer s) (fs_piece_sizes s) j))"
proof -
  let ?n = "unat (fs_total s)" and ?i = "unat i"
  let ?xs = "take (unat sz) body"
  let ?b = "take (?i * 1382) (fs_buffer s) @ ?xs @ drop (?i * 1382 + length ?xs) (fs_buffer s)"
  let ?s' = "s\<lparr>fs_buffer := ?b, fs_piece_sizes := (fs_piece_sizes s)[?i := sz],
      fs_piece_received := (fs_piece_received s)[?i := True], fs_received := fs_received s + 1\<rparr>"
  have lens: "length (fs_buffer s) = ?n * 1382" "length (fs_piece_sizes s) = ?n"
      "length (fs_piece_received s) = ?n" "?n \<le> 64" "fs_max_piece_size s = 1382"
    using ok by (simp_all add: sess_ok_def)
  have off: "unat (ucast i * 1382 :: u32) = ?i * 1382"
    using slot_offset_conv_word [of i] i lens by simp
  have room: "?i * 1382 + 1382 \<le> length (fs_buffer s)"
    using i lens mult_le_mono1 [of "Suc ?i" ?n 1382] by simp
  have xs: "length ?xs = unat sz" using body by simp
  have store: "store_piece s i (Some body) sz = Some ?s'"
  proof (cases "sz = 0")
    case True
    then show ?thesis
      using i lens room by (simp add: store_piece_def mem_set_def)
  next
    case False
    then have "sz > 0" by (simp add: word_neq_0_conv)
    then show ?thesis
      using i lens room body size xs
      by (simp add: store_piece_def mem_set_def mem_read_def mem_write_def off)
  qed
  have count: "length (filter id ((fs_piece_received s)[?i := True])) = Suc (unat (fs_received s))"
    using length_filter_set_True [of ?i "fs_piece_received s"] new i lens ok by (simp add: sess_ok_def)
  also have "\<dots> \<le> 64"
    using calculation length_filter_le [of id "(fs_piece_received s)[?i := True]"] lens by simp
  finally have small: "Suc (unat (fs_received s)) \<le> 64" using count by simp
  then have rec: "unat (fs_received s + 1) = Suc (unat (fs_received s))"
    by (subst unat_add_no_wrap) simp_all
  have blen: "length ?b = length (fs_buffer s)" using room size xs by simp
  have "sess_ok ?s'"
    using ok size blen rec count
    by (auto simp: sess_ok_def dest!: set_update_subset_insert [THEN subsetD])
  moreover have "piece ?b ((fs_piece_sizes s)[?i := sz]) j =
      (if j = ?i then ?xs else piece (fs_buffer s) (fs_piece_sizes s) j)" if "j < ?n" for j
    using ok that i size lens xs
    by (intro piece_write [where n = ?n]) (simp_all add: sess_ok_def)
  ultimately show ?thesis
    using store rec by simp
qed

subsection \<open>Completing a session\<close>

definition pieces_upto :: "bytes \<Rightarrow> u16 list \<Rightarrow> nat \<Rightarrow> bytes" where
  "pieces_upto buffer sizes k = concat (map (piece buffer sizes) [0..<k])"

lemma pieces_upto_Suc: "pieces_upto b sizes (Suc k) = pieces_upto b sizes k @ piece b sizes k"
  by (simp add: pieces_upto_def)

lemma length_piece:
  assumes "unat (sizes ! i) \<le> 1382" and "i < n" and "length b = n * 1382"
  shows "length (piece b sizes i) = unat (sizes ! i)"
proof -
  have "i * 1382 + 1382 \<le> length b"
    using assms(2,3) mult_le_mono1 [of "Suc i" n 1382] by simp
  with assms(1) show ?thesis by (simp add: piece_def)
qed

lemma length_pieces_upto:
  assumes "\<forall>i<n. unat (sizes ! i) \<le> 1382" and "length b = n * 1382" and "k \<le> n"
  shows "length (pieces_upto b sizes k) \<le> k * 1382"
  using assms(3)
proof (induction k)
  case (Suc k)
  then have "unat (sizes ! k) \<le> 1382" using assms(1) by simp
  with Suc show ?case
    using length_piece [of sizes k n b] assms(2) by (simp add: pieces_upto_Suc)
qed (simp add: pieces_upto_def)

lemma total_length_loop_conv:
  assumes "\<forall>i<n. unat (fs_piece_sizes s ! i) \<le> 1382" and "length b = n * 1382" and "n \<le> 64"
    and "length (fs_piece_sizes s) = n" and "i + k = n"
    and "unat acc = length (pieces_upto b (fs_piece_sizes s) i)"
  shows "\<exists>t. total_length_loop s i k acc = Some t \<and>
           unat t = length (pieces_upto b (fs_piece_sizes s) n)"
  using assms(5,6)
proof (induction k arbitrary: i acc)
  case (Suc k)
  let ?sz = "fs_piece_sizes s ! i"
  have i: "i < n" using Suc.prems(1) by simp
  have cast: "unat (ucast ?sz :: u32) = unat ?sz" by (rule unat_ucast_widen) simp
  have len: "length (pieces_upto b (fs_piece_sizes s) (Suc i)) =
      length (pieces_upto b (fs_piece_sizes s) i) + unat ?sz"
    using length_piece [of "fs_piece_sizes s" i n b] i assms(1,2) by (simp add: pieces_upto_Suc)
  have "length (pieces_upto b (fs_piece_sizes s) (Suc i)) \<le> 88448"
    using length_pieces_upto [OF assms(1,2), of "Suc i"] i assms(3) by simp
  then have "unat (acc + ucast ?sz) = length (pieces_upto b (fs_piece_sizes s) (Suc i))"
    using len Suc.prems(2) by (subst unat_add_no_wrap) (simp_all add: cast)
  from Suc.IH [OF _ this] Suc.prems(1) i assms(4) show ?case
    by (simp add: mem_get_def)
qed simp

text \<open>
  The compaction loop. Before round \<open>i\<close> the pieces below \<open>i\<close> are packed at the front, and the slots
  from \<open>i\<close> on are as they were.
\<close>

lemma compact_loop_conv:
  assumes sizes: "\<forall>i<n. unat (fs_piece_sizes s ! i) \<le> 1382" and b: "length b = n * 1382"
    and n: "n \<le> 64" and sl: "length (fs_piece_sizes s) = n" and mx: "fs_max_piece_size s = 1382"
    and "i + k = n"
    and "unat off = length (pieces_upto b (fs_piece_sizes s) i)"
    and "length c = n * 1382"
    and "take (unat off) c = pieces_upto b (fs_piece_sizes s) i"
    and "drop (i * 1382) c = drop (i * 1382) b"
  shows "\<exists>c'. compact_loop s i k c off = Some c' \<and> length c' = n * 1382 \<and>
           take (length (pieces_upto b (fs_piece_sizes s) n)) c' = pieces_upto b (fs_piece_sizes s) n"
  using assms(6-)
proof (induction k arbitrary: i off c)
  case (Suc k)
  let ?S = "fs_piece_sizes s" and ?sz = "fs_piece_sizes s ! i"
  have i: "i < n" using Suc.prems(1) by simp
  have room: "i * 1382 + 1382 \<le> length c"
    using i Suc.prems(3) mult_le_mono1 [of "Suc i" n 1382] by simp
  have slot: "unat (of_nat i * 1382 :: u32) = i * 1382"
    using slot_offset_conv [of i] i n by simp
  have sz: "unat ?sz \<le> 1382" using sizes i by simp
  have cast: "unat (ucast ?sz :: u32) = unat ?sz" by (rule unat_ucast_widen) simp
  have plen: "length (piece b ?S i) = unat ?sz" using length_piece [OF sz i b] .
  have off_le: "unat off \<le> i * 1382"
    using length_pieces_upto [OF sizes b, of i] i Suc.prems(2) by simp
  have off': "unat (off + ucast ?sz) = length (pieces_upto b ?S (Suc i))"
    using Suc.prems(2) plen off_le i n sz
    by (subst unat_add_no_wrap) (simp_all add: cast pieces_upto_Suc)
  have read: "take (unat ?sz) (drop (i * 1382) c) = piece b ?S i"
    by (simp add: Suc.prems(5) piece_def)
  define c1 where "c1 = (if ?sz > 0 \<and> off \<noteq> of_nat i * 1382
      then take (unat off) c @ piece b ?S i @ drop (unat off + unat ?sz) c else c)"
  have step: "compact_loop s i (Suc k) c off = compact_loop s (Suc i) k c1 (off + ucast ?sz)"
    using i sl room sz off_le read plen
    by (auto simp: mem_get_def mx slot mem_read_def mem_write_def c1_def)
  have len1: "length c1 = n * 1382"
    using Suc.prems(3) room sz off_le plen by (simp add: c1_def)
  have front: "take (unat (off + ucast ?sz)) c1 = pieces_upto b ?S (Suc i)"
  proof (cases "?sz > 0 \<and> off \<noteq> of_nat i * 1382")
    case True
    then show ?thesis
      using off' Suc.prems(2,4) plen off_le room by (simp add: c1_def pieces_upto_Suc)
  next
    case False
    then consider "?sz = 0" | "unat off = i * 1382"
      using slot by (auto simp: word_gt_0)
    then show ?thesis
    proof cases
      assume "?sz = 0"
      then show ?thesis using off' False Suc.prems(2,4) plen by (simp add: c1_def pieces_upto_Suc)
    next
      assume o: "unat off = i * 1382"
      have "take (unat off + unat ?sz) c = take (unat off) c @ take (unat ?sz) (drop (unat off) c)"
        by (rule take_add)
      with o read False off' Suc.prems(2,4) plen show ?thesis by (auto simp: c1_def pieces_upto_Suc)
    qed
  qed
  have "unat off + unat ?sz \<le> Suc i * 1382" using off_le sz by simp
  then have rear: "drop (Suc i * 1382) c1 = drop (Suc i * 1382) b"
  proof -
    have "drop 1382 (drop (i * 1382) c) = drop 1382 (drop (i * 1382) b)"
      by (simp only: Suc.prems(5))
    then have "drop (Suc i * 1382) c = drop (Suc i * 1382) b" by (simp add: add.commute)
    with \<open>unat off + unat ?sz \<le> Suc i * 1382\<close> plen off_le room show ?thesis
      by (simp add: c1_def)
  qed
  from Suc.IH [OF _ off' len1 front rear] Suc.prems(1) show ?case
    unfolding step by simp
qed (use assms in simp)

lemma complete_session:
  assumes "sess_ok s"
  shows "\<exists>t c. total_length_loop s 0 (unat (fs_total s)) 0 = Some t \<and>
     compact_loop s 0 (unat (fs_total s)) (fs_buffer s) 0 = Some c \<and>
     take (unat t) c = pieces_upto (fs_buffer s) (fs_piece_sizes s) (unat (fs_total s)) \<and>
     length c = unat (fs_total s) * 1382 \<and>
     unat t = length (pieces_upto (fs_buffer s) (fs_piece_sizes s) (unat (fs_total s)))"
proof -
  let ?n = "unat (fs_total s)" and ?b = "fs_buffer s"
  have sizes: "\<forall>i<?n. unat (fs_piece_sizes s ! i) \<le> 1382" and b: "length ?b = ?n * 1382"
    and n: "?n \<le> 64" and sl: "length (fs_piece_sizes s) = ?n" and mx: "fs_max_piece_size s = 1382"
    using assms by (simp_all add: sess_ok_def)
  have zero: "pieces_upto ?b (fs_piece_sizes s) 0 = []" by (simp add: pieces_upto_def)
  obtain t where t: "total_length_loop s 0 ?n 0 = Some t"
      "unat t = length (pieces_upto ?b (fs_piece_sizes s) ?n)"
    using total_length_loop_conv [OF sizes b n sl, of 0 ?n 0] zero by auto
  obtain c where c: "compact_loop s 0 ?n ?b 0 = Some c" "length c = ?n * 1382"
      "take (length (pieces_upto ?b (fs_piece_sizes s) ?n)) c = pieces_upto ?b (fs_piece_sizes s) ?n"
    using compact_loop_conv [OF sizes b n sl mx, of 0 ?n 0 ?b] zero b by auto
  from t c show ?thesis by simp
qed

section \<open>The specification of reassembly\<close>

text \<open>
  A packet being reassembled: how many pieces it has, the pieces received so far, and whether any of
  them asked for an acknowledgement. A reassembler is a partial map from packet ids to these.
\<close>

record pending =
  pd_total :: nat
  pd_pieces :: "nat \<Rightarrow> bytes option"
  pd_ack :: bool

definition pend_new :: "nat \<Rightarrow> pending" where
  "pend_new tot = \<lparr>pd_total = tot, pd_pieces = (\<lambda>_. None), pd_ack = False\<rparr>"

definition pend_add :: "pending \<Rightarrow> nat \<Rightarrow> bytes \<Rightarrow> bool \<Rightarrow> pending" where
  "pend_add p i b ack =
     \<lparr>pd_total = pd_total p,
      pd_pieces = (case pd_pieces p i of None \<Rightarrow> (pd_pieces p)(i \<mapsto> b) | Some _ \<Rightarrow> pd_pieces p),
      pd_ack = (pd_ack p \<or> ack)\<rparr>"

definition pend_complete :: "pending \<Rightarrow> bool" where
  "pend_complete p \<longleftrightarrow> (\<forall>i \<in> {0..<pd_total p}. pd_pieces p i \<noteq> None)"

definition pend_data :: "pending \<Rightarrow> bytes" where
  "pend_data p = concat (map (\<lambda>i. the (pd_pieces p i)) [0..<pd_total p])"

text \<open>One fragment: the payload delivered, if this was the last one missing, and the new map.\<close>

definition feed_spec ::
    "(u64 \<Rightarrow> pending option) \<Rightarrow> u64 \<Rightarrow> nat \<Rightarrow> nat \<Rightarrow> bytes \<Rightarrow> bool \<Rightarrow>
     (bytes \<times> bool) option \<times> (u64 \<Rightarrow> pending option)" where
  "feed_spec A pid tot i b ack =
     (let p = pend_add (case A pid of None \<Rightarrow> pend_new tot | Some p \<Rightarrow> p) i b ack
      in if pend_complete p then (Some (pend_data p, pd_ack p), A(pid := None))
         else (None, A(pid \<mapsto> p)))"

subsection \<open>The abstraction\<close>

definition sess_abs :: "fragment_session \<Rightarrow> pending" where
  "sess_abs s =
     \<lparr>pd_total = unat (fs_total s),
      pd_pieces = (\<lambda>i. if i < unat (fs_total s) \<and> fs_piece_received s ! i
                       then Some (piece (fs_buffer s) (fs_piece_sizes s) i) else None),
      pd_ack = fs_ack_required s\<rparr>"

abbreviation sessions :: "reassembler \<Rightarrow> fragment_session list" where
  "sessions r \<equiv> arr_vals (re_sessions r)"

definition re_wf :: "reassembler \<Rightarrow> bool" where
  "re_wf r \<longleftrightarrow> arr_ok (re_sessions r) \<and> (\<forall>s \<in> set (sessions r). sess_open s) \<and>
     distinct (map fs_packet_id (sessions r)) \<and> length (sessions r) \<le> 256"

definition sess_map :: "fragment_session list \<Rightarrow> u64 \<Rightarrow> pending option" where
  "sess_map ss = map_of (map (\<lambda>s. (fs_packet_id s, sess_abs s)) ss)"

definition re_map :: "reassembler \<Rightarrow> u64 \<Rightarrow> pending option" where
  "re_map r = sess_map (sessions r)"

text \<open>The payload a result delivers.\<close>

definition feed_result :: "reassemble_result \<Rightarrow> (bytes \<times> bool) option" where
  "feed_result res =
     (if rr_complete res then Some (take (unat (rr_data_length res)) (the (rr_data res)), rr_ack_required res)
      else None)"

lemma pair_fst [simp]: "map fst (map (\<lambda>s. (fs_packet_id s, sess_abs s)) ss) = map fs_packet_id ss"
  by (simp add: comp_def)

lemma sess_map_nth:
  "distinct (map fs_packet_id ss) \<Longrightarrow> i < length ss \<Longrightarrow>
     sess_map ss (fs_packet_id (ss ! i)) = Some (sess_abs (ss ! i))"
  using map_of_distinct_nth [of "map (\<lambda>s. (fs_packet_id s, sess_abs s)) ss" i]
  by (simp add: sess_map_def comp_def)

lemma sess_map_update:
  assumes "distinct (map fs_packet_id ss)" and "i < length ss"
    and "fs_packet_id s = fs_packet_id (ss ! i)"
  shows "sess_map (ss[i := s]) = (sess_map ss)(fs_packet_id s \<mapsto> sess_abs s)"
  using map_of_update_nth [of "map (\<lambda>s. (fs_packet_id s, sess_abs s)) ss" i "fs_packet_id s"] assms
  by (simp add: sess_map_def map_update comp_def)

lemma sess_map_remove:
  assumes "distinct (map fs_packet_id ss)" and "i < length ss"
  shows "sess_map (remove_nth i ss) = (sess_map ss)(fs_packet_id (ss ! i) := None)"
  using map_of_remove_nth [of "map (\<lambda>s. (fs_packet_id s, sess_abs s)) ss" i] assms
  by (simp add: sess_map_def map_remove_nth comp_def)

lemma sess_map_snoc:
  "fs_packet_id s \<notin> fs_packet_id ` set ss \<Longrightarrow>
     sess_map (ss @ [s]) = (sess_map ss)(fs_packet_id s \<mapsto> sess_abs s)"
  using map_of_snoc [of "fs_packet_id s" "map (\<lambda>s. (fs_packet_id s, sess_abs s)) ss" "sess_abs s"]
  by (simp add: sess_map_def image_image)

lemma sess_map_None: "sess_map ss pid = None \<longleftrightarrow> pid \<notin> fs_packet_id ` set ss"
  by (simp add: sess_map_def map_of_eq_None_iff image_image)

lemma find_session_index:
  assumes "arr_ok (re_sessions r)"
  shows "s_find_session r pid = Some (find_index (\<lambda>s. fs_packet_id s = pid) (sessions r))"
  using kra.find_all [OF assms, of "unat (arr_length (re_sessions r))"] length_arr_vals [OF assms]
  by (simp add: s_find_session_def krs_array_length_def)

lemma find_index_distinct:
  assumes "distinct (map fs_packet_id ss)" and "i < length ss" and "fs_packet_id (ss ! i) = pid"
  shows "find_index (\<lambda>s. fs_packet_id s = pid) ss = Some i"
proof -
  have "fs_packet_id (ss ! j) \<noteq> pid" if "j < i" for j
    using assms that nth_eq_iff_index_eq [OF assms(1), of j i] by auto
  with assms(2,3) show ?thesis by (simp add: find_index_Some_iff)
qed

subsection \<open>Sessions and their abstraction\<close>

lemma pend_complete_sess:
  assumes "sess_ok s"
  shows "pend_complete (sess_abs s) \<longleftrightarrow> \<not> fs_received s < fs_total s"
proof -
  have "length (filter id (fs_piece_received s)) \<le> length (fs_piece_received s)"
    by (rule length_filter_le)
  moreover have "unat (fs_received s) = length (filter id (fs_piece_received s))"
      "length (fs_piece_received s) = unat (fs_total s)"
    using assms by (simp_all add: sess_ok_def)
  ultimately have "\<not> fs_received s < fs_total s \<longleftrightarrow>
      length (filter id (fs_piece_received s)) = length (fs_piece_received s)"
    unfolding word_less_nat_alt by linarith
  also have "\<dots> \<longleftrightarrow> (\<forall>i<unat (fs_total s). fs_piece_received s ! i)"
    using assms unfolding filter_id_full by (simp add: sess_ok_def)
  finally show ?thesis
    by (auto simp: pend_complete_def sess_abs_def)
qed

lemma pend_data_sess:
  assumes "pend_complete (sess_abs s)"
  shows "pend_data (sess_abs s) = pieces_upto (fs_buffer s) (fs_piece_sizes s) (unat (fs_total s))"
proof -
  have "map (\<lambda>i. the (pd_pieces (sess_abs s) i)) [0..<unat (fs_total s)] =
      map (piece (fs_buffer s) (fs_piece_sizes s)) [0..<unat (fs_total s)]"
    using assms by (intro map_cong) (auto simp: pend_complete_def sess_abs_def split: if_splits)
  moreover have "pd_total (sess_abs s) = unat (fs_total s)" by (simp add: sess_abs_def)
  ultimately show ?thesis by (simp only: pend_data_def pieces_upto_def)
qed

text \<open>The acknowledgement flag of a fragment is recorded first.\<close>

definition with_ack :: "fragment_session \<Rightarrow> bool \<Rightarrow> fragment_session" where
  "with_ack s ack = (if ack then s\<lparr>fs_ack_required := True\<rparr> else s)"

lemma with_ack_simps [simp]:
  "fs_packet_id (with_ack s ack) = fs_packet_id s" "fs_total (with_ack s ack) = fs_total s"
  "fs_piece_received (with_ack s ack) = fs_piece_received s"
  "fs_buffer (with_ack s ack) = fs_buffer s" "fs_piece_sizes (with_ack s ack) = fs_piece_sizes s"
  "fs_received (with_ack s ack) = fs_received s"
  "fs_ack_required (with_ack s ack) = (fs_ack_required s \<or> ack)"
  "sess_ok (with_ack s ack) = sess_ok s" "sess_open (with_ack s ack) = sess_open s"
  by (simp_all add: with_ack_def sess_ok_def sess_open_def)

lemma abs_duplicate:
  assumes "i < unat (fs_total s)" and "fs_piece_received s ! i"
  shows "sess_abs (with_ack s ack) = pend_add (sess_abs s) i b ack"
  using assms by (auto simp: sess_abs_def pend_add_def fun_eq_iff)

lemma abs_store:
  assumes "unat i < unat (fs_total s)" and "\<not> fs_piece_received s ! unat i"
    and "length (fs_piece_received s) = unat (fs_total s)"
    and "fs_total s' = fs_total s" and "fs_ack_required s' = (fs_ack_required s \<or> ack)"
    and "fs_piece_received s' = (fs_piece_received s)[unat i := True]"
    and "\<forall>j < unat (fs_total s). piece (fs_buffer s') (fs_piece_sizes s') j =
           (if j = unat i then b else piece (fs_buffer s) (fs_piece_sizes s) j)"
  shows "sess_abs s' = pend_add (sess_abs s) (unat i) b ack"
  using assms by (auto simp: sess_abs_def pend_add_def nth_list_update fun_eq_iff)

lemma re_wfD:
  assumes "re_wf r"
  shows "arr_ok (re_sessions r)" and "\<forall>s \<in> set (sessions r). sess_open s"
    and "distinct (map fs_packet_id (sessions r))" and "length (sessions r) \<le> 256"
  using assms by (simp_all add: re_wf_def)

lemma open_not_complete: "sess_open s \<Longrightarrow> \<not> pend_complete (sess_abs s)"
  by (simp add: sess_open_def pend_complete_sess)

lemma poke_session:
  assumes "re_wf r" and "si < length (sessions r)" and "fs_packet_id s = fs_packet_id (sessions r ! si)"
  obtains a where "krs_array_poke (re_sessions r) si s = Some a" and "arr_ok a"
    and "arr_vals a = (sessions r)[si := s]" and "map fs_packet_id (arr_vals a) = map fs_packet_id (sessions r)"
    and "sess_map (arr_vals a) = (re_map r)(fs_packet_id s \<mapsto> sess_abs s)"
    and "sess_open s \<longrightarrow> re_wf (r\<lparr>re_sessions := a\<rparr>)"
proof -
  note wf = re_wfD [OF assms(1)]
  obtain a where a: "krs_array_poke (re_sessions r) si s = Some a" "arr_ok a"
      "arr_vals a = (sessions r)[si := s]"
    using kra.poke_upd [OF wf(1) assms(2), of s] by blast
  have pids: "map fs_packet_id (arr_vals a) = map fs_packet_id (sessions r)"
    using assms(2,3) by (simp add: a(3) map_update list_update_same_conv)
  have "re_wf (r\<lparr>re_sessions := a\<rparr>)" if "sess_open s"
    using wf a pids that
    by (auto simp: re_wf_def dest!: set_update_subset_insert [THEN subsetD])
  moreover have "sess_map (arr_vals a) = (re_map r)(fs_packet_id s \<mapsto> sess_abs s)"
    using sess_map_update [OF wf(3) assms(2,3)] by (simp add: a(3) re_map_def)
  ultimately show thesis using that a pids by blast
qed

lemma remove_complete_session:
  assumes "re_wf r" and "si < length (sessions r)" and "fs_packet_id s = fs_packet_id (sessions r ! si)"
    and "arr_ok a" and "arr_vals a = (sessions r)[si := s]"
  shows "\<exists>r'. s_remove_session (r\<lparr>re_sessions := a\<rparr>) (fs_packet_id s) = Some r' \<and> re_wf r' \<and>
           re_map r' = (re_map r)(fs_packet_id s := None)"
proof -
  note wf = re_wfD [OF assms(1)]
  have pids: "map fs_packet_id (arr_vals a) = map fs_packet_id (sessions r)"
    using assms(2,3) by (simp add: assms(5) map_update list_update_same_conv)
  have len: "si < length (arr_vals a)" using assms(2,5) by simp
  obtain a' where a': "array_drop a si = Some a'" "arr_ok a'" "arr_vals a' = remove_nth si (arr_vals a)"
    using kra.drp_remove [OF assms(4) len] by blast
  have same: "remove_nth si (arr_vals a) = remove_nth si (sessions r)"
    by (simp add: assms(5) remove_nth_def)
  have "find_index (\<lambda>t. fs_packet_id t = fs_packet_id s) (arr_vals a) = Some si"
    using pids wf(3) len assms(2,5) by (intro find_index_distinct) simp_all
  with a'(1) assms(4) have "s_remove_session (r\<lparr>re_sessions := a\<rparr>) (fs_packet_id s) =
      Some (r\<lparr>re_sessions := a'\<rparr>)"
    by (simp add: s_remove_session_def find_session_index)
  moreover have "re_wf (r\<lparr>re_sessions := a'\<rparr>)"
    using wf a'(2,3) same assms(2) set_remove_nth [of si "sessions r"]
    by (auto simp: re_wf_def map_remove_nth distinct_remove_nth)
  moreover have "re_map (r\<lparr>re_sessions := a'\<rparr>) = (re_map r)(fs_packet_id s := None)"
    using sess_map_remove [OF wf(3) assms(2)] by (simp add: re_map_def a'(3) same assms(3))
  ultimately show ?thesis by blast
qed

subsection \<open>Feeding refines the specification\<close>

abbreviation frame_ack :: "krs_frame \<Rightarrow> bool" where
  "frame_ack f \<equiv> has_flag (frame_presence_flags f) META_FLAG_ACK_REQUIRED"

abbreviation frame_index :: "krs_frame \<Rightarrow> u16" where
  "frame_index f \<equiv> fragment_index (frame_metadata f)"

abbreviation frame_total :: "krs_frame \<Rightarrow> u16" where
  "frame_total f \<equiv> fragment_total (frame_metadata f)"

definition frame_payload :: "krs_frame \<Rightarrow> bytes" where
  "frame_payload f = take (unat (frame_body_length f)) (the (frame_body f))"

text \<open>A frame whose body pointer leads to at least \<open>body_length\<close> bytes, as every parser returns.\<close>

definition frame_ok :: "krs_frame \<Rightarrow> bool" where
  "frame_ok f \<longleftrightarrow> (\<exists>body. frame_body f = Some body \<and> unat (frame_body_length f) \<le> length body)"

lemma re_map_upd: "re_map (r\<lparr>re_sessions := a\<rparr>) = sess_map (arr_vals a)"
  by (simp add: re_map_def)

lemma feed_session_refines:
  assumes wf: "re_wf r" and si: "si < length (sessions r)"
    and pid: "fs_packet_id (sessions r ! si) = frame_packet_id f"
    and idx: "unat (frame_index f) < unat (fs_total (sessions r ! si))"
    and ok: "frame_ok f" and size: "unat (frame_body_length f) \<le> 1382"
  shows "\<exists>res r'. feed_session r si f = Some (res, r') \<and> re_wf r' \<and> rb_valid (rr_base res) \<and>
    (feed_result res, re_map r') =
      feed_spec (re_map r) (frame_packet_id f) tot (unat (frame_index f)) (frame_payload f) (frame_ack f)"
proof -
  note inv = re_wfD [OF wf]
  let ?s = "sessions r ! si" and ?i = "frame_index f" and ?ack = "frame_ack f"
  let ?sa = "with_ack ?s ?ack"
  have read: "array_at (re_sessions r) si = Some (Some ?s)" by (rule kra.at_nth [OF inv(1) si])
  have op: "sess_open ?s" using inv(2) si by simp
  then have sok: "sess_ok ?s" and rlen: "length (fs_piece_received ?s) = unat (fs_total ?s)"
    by (simp_all add: sess_open_def sess_ok_def)
  have seen: "mem_get (fs_piece_received ?sa) (unat ?i) = Some (fs_piece_received ?s ! unat ?i)"
    using idx rlen by (simp add: mem_get_def)
  have old: "re_map r (frame_packet_id f) = Some (sess_abs ?s)"
    using sess_map_nth [OF inv(3) si] pid by (simp add: re_map_def)
  show ?thesis
  proof (cases "fs_piece_received ?s ! unat ?i")
    case True
    have "fs_packet_id ?sa = fs_packet_id ?s" by simp
    from wf si this obtain a where a: "krs_array_poke (re_sessions r) si ?sa = Some a"
        "sess_map (arr_vals a) = (re_map r)(fs_packet_id ?sa \<mapsto> sess_abs ?sa)"
        "sess_open ?sa \<longrightarrow> re_wf (r\<lparr>re_sessions := a\<rparr>)"
      by (rule poke_session)
    have "feed_session r si f = Some (reassemble_partial, r\<lparr>re_sessions := a\<rparr>)"
      using read seen True a(1) by (simp add: feed_session_def Let_def with_ack_def [symmetric])
    moreover have "sess_abs ?sa = pend_add (sess_abs ?s) (unat ?i) (frame_payload f) ?ack"
      by (rule abs_duplicate [OF idx True])
    ultimately show ?thesis
      using a op open_not_complete [of ?sa] pid
      by (simp add: feed_spec_def old reassemble_partial_def feed_result_def re_map_upd Let_def)
  next
    case False
    obtain body where body: "frame_body f = Some body" "unat (frame_body_length f) \<le> length body"
      using ok by (auto simp: frame_ok_def)
    have "sess_ok ?sa" "unat ?i < unat (fs_total ?sa)" "\<not> fs_piece_received ?sa ! unat ?i"
      using sok idx False by simp_all
    note stored = store_piece_ok [OF this size body(2), unfolded with_ack_simps]
    have payload: "take (unat (frame_body_length f)) body = frame_payload f"
      by (simp add: frame_payload_def body(1))
    from stored obtain s' where
      st: "store_piece ?sa ?i (Some body) (frame_body_length f) = Some s'" and s': "sess_ok s'"
        "fs_packet_id s' = fs_packet_id ?s" "fs_total s' = fs_total ?s"
        "fs_ack_required s' = (fs_ack_required ?s \<or> ?ack)"
        "fs_piece_received s' = (fs_piece_received ?s)[unat ?i := True]"
        "\<forall>j < unat (fs_total ?s). piece (fs_buffer s') (fs_piece_sizes s') j =
           (if j = unat ?i then frame_payload f else piece (fs_buffer ?s) (fs_piece_sizes ?s) j)"
      unfolding payload by blast
    have abs: "sess_abs s' = pend_add (sess_abs ?s) (unat ?i) (frame_payload f) ?ack"
      by (rule abs_store [OF idx False rlen s'(3-6)])
    from wf si s'(2) obtain a where a: "krs_array_poke (re_sessions r) si s' = Some a" "arr_ok a"
        "arr_vals a = (sessions r)[si := s']"
        "sess_map (arr_vals a) = (re_map r)(fs_packet_id s' \<mapsto> sess_abs s')"
        "sess_open s' \<longrightarrow> re_wf (r\<lparr>re_sessions := a\<rparr>)"
      by (rule poke_session)
    note start = read seen False body(1) st a(1)
    show ?thesis
    proof (cases "fs_received s' < fs_total s'")
      case True
      then have "feed_session r si f = Some (reassemble_partial, r\<lparr>re_sessions := a\<rparr>)"
        using start by (simp add: feed_session_def Let_def with_ack_def [symmetric])
      moreover have "sess_open s'" using True s'(1) by (simp add: sess_open_def)
      ultimately show ?thesis
        using a(4,5) abs open_not_complete [of s'] pid s'(2)
        by (simp add: feed_spec_def old reassemble_partial_def feed_result_def re_map_upd Let_def)
    next
      case full: False
      then have complete: "pend_complete (sess_abs s')" using s'(1) by (simp add: pend_complete_sess)
      obtain t c where tc: "total_length_loop s' 0 (unat (fs_total s')) 0 = Some t"
          "compact_loop s' 0 (unat (fs_total s')) (fs_buffer s') 0 = Some c"
          "take (unat t) c = pieces_upto (fs_buffer s') (fs_piece_sizes s') (unat (fs_total s'))"
        using complete_session [OF s'(1)] by blast
      obtain r' where r': "s_remove_session (r\<lparr>re_sessions := a\<rparr>) (fs_packet_id s') = Some r'"
          "re_wf r'" "re_map r' = (re_map r)(fs_packet_id s' := None)"
        using remove_complete_session [OF wf si s'(2) a(2,3)] by blast
      have "feed_session r si f =
          Some (\<lparr>rr_base = krs_lib_error_result_base_suc, rr_complete = True, rr_data = Some c,
                 rr_data_length = t, rr_ack_required = fs_ack_required s'\<rparr>, r')"
        using start full tc(1,2) r'(1) s'(2) pid
        by (simp add: feed_session_def Let_def with_ack_def [symmetric])
      moreover have "pd_ack (sess_abs s') = fs_ack_required s'" by (simp add: sess_abs_def)
      ultimately show ?thesis
        using complete pend_data_sess [OF complete] tc(3) r'(2,3) s'(2) pid
        by (simp add: feed_spec_def old feed_result_def abs [symmetric] Let_def)
    qed
  qed
qed

subsection \<open>Creating a session\<close>

definition fresh_session :: "(nat \<Rightarrow> u8) \<Rightarrow> u64 \<Rightarrow> u64 \<Rightarrow> u16 \<Rightarrow> fragment_session" where
  "fresh_session junk now pid tot =
     \<lparr>fs_packet_id = pid, fs_total = tot, fs_received = 0, fs_buffer = map junk [0..<unat tot * 1382],
      fs_max_piece_size = 1382, fs_piece_sizes = replicate (unat tot) 0,
      fs_piece_received = replicate (unat tot) False, fs_ack_required = False, fs_created_ms = now\<rparr>"

lemma fresh_session_ok:
  assumes "0 < unat tot" and "unat tot \<le> 64"
  shows "sess_open (fresh_session junk now pid tot)"
    and "sess_abs (fresh_session junk now pid tot) = pend_new (unat tot)"
  using assms
  by (auto simp: sess_open_def sess_ok_def fresh_session_def sess_abs_def pend_new_def fun_eq_iff
      filter_id_full unat_gt_0 word_gt_0)

definition session_alloc_ok :: "session_alloc \<Rightarrow> bool" where
  "session_alloc_ok al \<longleftrightarrow>
     sa_session al \<and> sa_buffer al \<noteq> None \<and> sa_sizes al \<and> sa_received al \<and> sa_push al \<noteq> None"

text \<open>A new session is appended, or memory ran out and nothing changed.\<close>

lemma create_session_cases:
  assumes wf: "re_wf r" and "re_map r pid = None" and "length (sessions r) < 256"
    and tot: "0 < unat tot" "unat tot \<le> 64"
  obtains (created) a where "s_create_session al now r pid tot =
        Some (Some (length (sessions r)), r\<lparr>re_sessions := a\<rparr>)"
      and "re_wf (r\<lparr>re_sessions := a\<rparr>)"
      and "\<exists>junk. arr_vals a = sessions r @ [fresh_session junk now pid tot]"
      and "sess_map (arr_vals a) = (re_map r)(pid \<mapsto> pend_new (unat tot))"
    | (failed) "s_create_session al now r pid tot = Some (None, r)" and "\<not> session_alloc_ok al"
proof -
  note inv = re_wfD [OF wf]
  have new: "pid \<notin> fs_packet_id ` set (sessions r)"
    using assms(2) by (simp add: re_map_def sess_map_None)
  have buf: "unat (ucast tot * 1382 :: u32) = unat tot * 1382"
    using tot(2) unat_ucast_widen [of tot, where 'b = 32] by (simp add: unat_word_ariths)
  show ?thesis
  proof (cases "sa_session al \<and> sa_buffer al \<noteq> None \<and> sa_sizes al \<and> sa_received al")
    case False
    then show ?thesis
      by (intro failed) (auto simp: s_create_session_def session_alloc_ok_def split: option.splits)
  next
    case True
    then obtain junk where junk: "sa_buffer al = Some junk" by blast
    let ?s = "fresh_session junk now pid tot"
    have sess: "\<lparr>fs_packet_id = pid, fs_total = tot, fs_received = 0,
          fs_buffer = map junk [0..<unat (ucast tot * 1382 :: u32)], fs_max_piece_size = 1382,
          fs_piece_sizes = replicate (unat tot) 0, fs_piece_received = replicate (unat tot) False,
          fs_ack_required = False, fs_created_ms = now\<rparr> = ?s"
      by (simp add: fresh_session_def buf)
    have len: "length (sessions r) < 2 ^ 31" using assms(3) by simp
    show ?thesis
    proof (rule push_vals [OF inv(1) len, of "sa_push al" ?s])
      fix a assume a: "krs_array_push (sa_push al) (Some (re_sessions r)) (Some ?s) =
          Some (krs_lib_error_result_base_suc, Some a)" "arr_ok a" "arr_vals a = sessions r @ [?s]"
      have "unat (arr_length a) - 1 = length (sessions r)"
        using length_arr_vals [OF a(2)] by (simp add: a(3))
      with True junk a(1) have call: "s_create_session al now r pid tot =
          Some (Some (length (sessions r)), r\<lparr>re_sessions := a\<rparr>)"
        by (simp add: s_create_session_def Let_def sess krs_array_length_def)
      have pid: "fs_packet_id ?s = pid" by (simp add: fresh_session_def)
      have "re_wf (r\<lparr>re_sessions := a\<rparr>)"
        using inv a(2,3) new fresh_session_ok(1) [OF tot] assms(3) by (auto simp: re_wf_def pid)
      moreover have "sess_map (arr_vals a) = (re_map r)(pid \<mapsto> pend_new (unat tot))"
        using sess_map_snoc [of ?s "sessions r"] new fresh_session_ok(2) [OF tot]
        by (simp add: a(3) pid re_map_def)
      ultimately show ?thesis using created call a(3) by blast
    next
      assume "sa_push al = None" and "krs_array_push (sa_push al) (Some (re_sessions r)) (Some ?s) =
          Some (krs_lib_error_result_base_w_msg KRS_ERR_MEMORY_ALLOCATION ''Failed to grow array'',
            Some (re_sessions r))"
      with True junk show ?thesis
        by (intro failed) (simp_all add: s_create_session_def Let_def sess session_alloc_ok_def)
    qed
  qed
qed

subsection \<open>The whole call\<close>

text \<open>A frame that carries an acceptable fragment.\<close>

definition fragment_frame :: "krs_frame \<Rightarrow> bool" where
  "fragment_frame f \<longleftrightarrow>
     has_flag (frame_presence_flags f) META_FLAG_FRAGMENT_INFO \<and>
     frame_total f \<noteq> 0 \<and> frame_index f < frame_total f \<and> unat (frame_total f) \<le> 64 \<and>
     unat (frame_body_length f) \<le> 1382"

lemma feed_found:
  assumes "re_wf r" and "fragment_frame f" and "si < length (sessions r)"
    and "fs_packet_id (sessions r ! si) = frame_packet_id f"
  shows "krs_reassembler_feed al now (Some r) (Some f) =
           do { (res, r') \<leftarrow> feed_session r si f; Some (res, Some r') }"
proof -
  note inv = re_wfD [OF assms(1)]
  have "s_find_session r (frame_packet_id f) = Some (Some si)"
    using find_session_index [OF inv(1)] find_index_distinct [OF inv(3) assms(3,4)] by simp
  with assms(2) show ?thesis
    by (auto simp: krs_reassembler_feed_def fragment_frame_def Let_def)
qed

lemma feed_not_found:
  assumes "re_wf r" and "fragment_frame f" and "re_map r (frame_packet_id f) = None"
  shows "krs_reassembler_feed al now (Some r) (Some f) =
    (if length (sessions r) \<ge> 256
     then Some (reassemble_err KRS_ERR_MEMORY_ALLOCATION ''reassembler session limit reached'', Some r)
     else do {
       (created, r1) \<leftarrow> s_create_session (fa_session al) now r (frame_packet_id f) (frame_total f);
       case created of
         None \<Rightarrow> Some (reassemble_err KRS_ERR_MEMORY_ALLOCATION ''session allocation failed'', Some r1)
       | Some si \<Rightarrow> do { (res, r') \<leftarrow> feed_session r1 si f; Some (res, Some r') } })"
proof -
  note inv = re_wfD [OF assms(1)]
  have "find_index (\<lambda>s. fs_packet_id s = frame_packet_id f) (sessions r) = None"
    using assms(3) unfolding find_index_None_iff re_map_def sess_map_None by (metis imageI)
  then have "s_find_session r (frame_packet_id f) = Some None"
    using find_session_index [OF inv(1)] by simp
  with assms(2) show ?thesis
    by (auto simp: krs_reassembler_feed_def fragment_frame_def Let_def krs_array_length_def
        length_arr_vals [OF inv(1)])
qed

lemma re_map_SomeE:
  assumes "re_wf r" and "re_map r pid = Some p"
  obtains si where "si < length (sessions r)" and "fs_packet_id (sessions r ! si) = pid"
    and "p = sess_abs (sessions r ! si)"
proof -
  have "(pid, p) \<in> set (map (\<lambda>s. (fs_packet_id s, sess_abs s)) (sessions r))"
    using assms(2) map_of_SomeD by (fastforce simp: re_map_def sess_map_def)
  with that show thesis by (auto simp: in_set_conv_nth)
qed

lemma feed_fragment_cases:
  assumes wf: "re_wf r" and ok: "frame_ok f" and frag: "fragment_frame f"
    and idx: "\<forall>p. re_map r (frame_packet_id f) = Some p \<longrightarrow> unat (frame_index f) < pd_total p"
  obtains (fed) res r' where "krs_reassembler_feed al now (Some r) (Some f) = Some (res, Some r')"
      and "re_wf r'" and "rb_valid (rr_base res)"
      and "(feed_result res, re_map r') = feed_spec (re_map r) (frame_packet_id f)
             (unat (frame_total f)) (unat (frame_index f)) (frame_payload f) (frame_ack f)"
    | (no_memory) res where "krs_reassembler_feed al now (Some r) (Some f) = Some (res, Some r)"
      and "rb_error_code (rr_base res) = KRS_ERR_MEMORY_ALLOCATION" and "feed_result res = None"
      and "re_map r (frame_packet_id f) = None"
      and "length (sessions r) = 256 \<or> \<not> session_alloc_ok (fa_session al)"
proof (cases "re_map r (frame_packet_id f)")
  case (Some p)
  obtain si where si: "si < length (sessions r)" "fs_packet_id (sessions r ! si) = frame_packet_id f"
      "p = sess_abs (sessions r ! si)"
    using re_map_SomeE [OF wf Some] .
  have "unat (frame_index f) < unat (fs_total (sessions r ! si))"
    using idx [rule_format, OF Some] si(3) by (simp add: sess_abs_def)
  from feed_session_refines [OF wf si(1,2) this ok, of "unat (frame_total f)"] frag
  obtain res r' where "feed_session r si f = Some (res, r')" "re_wf r'" "rb_valid (rr_base res)"
      "(feed_result res, re_map r') = feed_spec (re_map r) (frame_packet_id f)
         (unat (frame_total f)) (unat (frame_index f)) (frame_payload f) (frame_ack f)"
    by (auto simp: fragment_frame_def)
  with feed_found [OF wf frag si(1,2), of al now] fed show thesis by simp
next
  case None
  note call = feed_not_found [OF wf frag None, of al now]
  have tot: "0 < unat (frame_total f)" "unat (frame_total f) \<le> 64"
    using frag by (auto simp: fragment_frame_def unat_gt_0)
  note errs = reassemble_err_def feed_result_def
  show thesis
  proof (cases "length (sessions r) \<ge> 256")
    case True
    then have "length (sessions r) = 256" using re_wfD(4) [OF wf] by simp
    with call True None show thesis
      by (intro no_memory [of "reassemble_err KRS_ERR_MEMORY_ALLOCATION ''reassembler session limit reached''"])
         (simp_all add: errs)
  next
    case False
    then have room: "length (sessions r) < 256" by simp
    show thesis
    proof (cases rule: create_session_cases [OF wf None room tot, of "fa_session al" now])
      case (1 a)
      let ?r1 = "r\<lparr>re_sessions := a\<rparr>" and ?si = "length (sessions r)"
      obtain junk where vals: "arr_vals a = sessions r @ [fresh_session junk now (frame_packet_id f) (frame_total f)]"
        using 1(3) by blast
      have "?si < length (sessions ?r1)" "fs_packet_id (sessions ?r1 ! ?si) = frame_packet_id f"
        "unat (frame_index f) < unat (fs_total (sessions ?r1 ! ?si))"
        using vals frag by (simp_all add: fresh_session_def fragment_frame_def word_less_nat_alt)
      from feed_session_refines [OF 1(2) this ok, of "unat (frame_total f)"] frag
      obtain res r' where r': "feed_session ?r1 ?si f = Some (res, r')" "re_wf r'" "rb_valid (rr_base res)"
          "(feed_result res, re_map r') = feed_spec (re_map ?r1) (frame_packet_id f)
             (unat (frame_total f)) (unat (frame_index f)) (frame_payload f) (frame_ack f)"
        by (auto simp: fragment_frame_def)
      note r'
      moreover have "feed_spec (re_map ?r1) (frame_packet_id f) n i b k =
          feed_spec (re_map r) (frame_packet_id f) n i b k" if "n = unat (frame_total f)" for n i b k
        using 1(4) None that by (simp add: feed_spec_def re_map_upd Let_def)
      ultimately show thesis using call False 1(1) by (intro fed [of res r']) simp_all
    next
      case 2
      with call False None show thesis
        by (intro no_memory [of "reassemble_err KRS_ERR_MEMORY_ALLOCATION ''session allocation failed''"])
           (simp_all add: errs)
    qed
  qed
qed

lemma feed_whole_spec:
  assumes "frame_ok f"
  shows "feed_whole (Some junk) f =
    Some \<lparr>rr_base = krs_lib_error_result_base_suc, rr_complete = True, rr_data = Some (frame_payload f),
          rr_data_length = ucast (frame_body_length f), rr_ack_required = frame_ack f\<rparr>"
  using assms
  by (auto simp: feed_whole_def frame_ok_def frame_payload_def mem_read_def mem_write_def word_gt_0)

text \<open>Frames that never touch a session.\<close>

lemma feed_no_session:
  assumes "frame_ok f" and "\<not> fragment_frame f"
  shows "\<exists>res. krs_reassembler_feed al now (Some r) (Some f) = Some (res, Some r) \<and>
    (rb_valid (rr_base res) \<longleftrightarrow>
       \<not> has_flag (frame_presence_flags f) META_FLAG_FRAGMENT_INFO \<and> fa_body al \<noteq> None) \<and>
    (rb_valid (rr_base res) \<longrightarrow> feed_result res = Some (frame_payload f, frame_ack f)) \<and>
    (\<not> rb_valid (rr_base res) \<longrightarrow> feed_result res = None)"
proof (cases "has_flag (frame_presence_flags f) META_FLAG_FRAGMENT_INFO")
  case True
  with assms(2) show ?thesis
    by (auto simp: krs_reassembler_feed_def fragment_frame_def Let_def reassemble_err_def feed_result_def)
next
  case False
  have cast: "unat (ucast (frame_body_length f) :: u32) = unat (frame_body_length f)"
    by (rule unat_ucast_widen) simp
  have "length (frame_payload f) = unat (frame_body_length f)"
    using assms(1) by (auto simp: frame_ok_def frame_payload_def)
  with False feed_whole_spec [OF assms(1)] cast show ?thesis
    by (cases "fa_body al")
       (auto simp: krs_reassembler_feed_def feed_whole_def reassemble_err_def feed_result_def)
qed

section \<open>Properties\<close>

text \<open>An empty reassembler, as \<open>krs_reassembler_create\<close> returns it, and one with a single new session.\<close>

definition empty_reassembler :: reassembler where
  "empty_reassembler =
     \<lparr>re_sessions = \<lparr>arr_items = replicate 4 None, arr_length = 0, arr_capacity = 4\<rparr>\<rparr>"

definition one_session :: "fragment_session \<Rightarrow> reassembler" where
  "one_session s =
     \<lparr>re_sessions = \<lparr>arr_items = Some s # replicate 3 None, arr_length = 1, arr_capacity = 4\<rparr>\<rparr>"

definition some_memory :: feed_alloc where
  "some_memory = \<lparr>fa_body = Some (\<lambda>_. 0), fa_session = \<lparr>sa_session = True, sa_buffer = Some (\<lambda>_. 0),
     sa_sizes = True, sa_received = True, sa_push = Some (\<lambda>_. None)\<rparr>\<rparr>"

lemma create_reassembler:
  assumes "krs_reassembler_create True True (Some junk) = Some r"
  shows "re_wf r" and "re_map r = Map.empty" and "sessions r = []"
proof -
  obtain a where a: "krs_array_create True (Some junk) 4 = Some a" "r = \<lparr>re_sessions = a\<rparr>"
    using assms by (auto simp: krs_reassembler_create_def split: option.splits)
  from create_vals [OF a(1)] a(2) show "re_wf r" "re_map r = Map.empty" "sessions r = []"
    by (simp_all add: re_wf_def re_map_def sess_map_def)
qed

lemma empty_reassembler_ok:
  "re_wf empty_reassembler" "re_map empty_reassembler = Map.empty" "sessions empty_reassembler = []"
proof -
  have "krs_reassembler_create True True (Some (\<lambda>_. None)) = Some empty_reassembler"
    by (simp add: krs_reassembler_create_def krs_array_create_def empty_reassembler_def Let_def
        map_replicate_const)
  from create_reassembler [OF this]
  show "re_wf empty_reassembler" "re_map empty_reassembler = Map.empty" "sessions empty_reassembler = []"
    by simp_all
qed

lemma one_session_ok:
  assumes "sess_open s"
  shows "re_wf (one_session s)" and "re_map (one_session s) = [fs_packet_id s \<mapsto> sess_abs s]"
  using assms
  by (simp_all add: re_wf_def one_session_def arr_ok_def arr_wf_def arr_vals_def arr_list_def
      re_map_def sess_map_def)

lemma some_memory_ok: "session_alloc_ok (fa_session some_memory)" "fa_body some_memory \<noteq> None"
  by (simp_all add: some_memory_def session_alloc_ok_def)

lemma feed_defined:
  assumes "re_wf r" and "frame_ok f"
    and "fragment_frame f \<Longrightarrow> \<forall>p. re_map r (frame_packet_id f) = Some p \<longrightarrow> unat (frame_index f) < pd_total p"
  shows "\<exists>res r'. krs_reassembler_feed al now (Some r) (Some f) = Some (res, Some r') \<and> re_wf r'"
proof (cases "fragment_frame f")
  case False
  with feed_no_session [OF assms(2) False, of al now r] assms(1) show ?thesis by auto
next
  case True
  with assms show ?thesis by (cases rule: feed_fragment_cases [OF assms(1,2) True, of al now]) blast+
qed

text \<open>
  C37. Exactly when feeding is unsafe. For a well-formed reassembler and a parsed frame, the call leaves
  the bounds of the session's memory exactly when the frame is an acceptable fragment by its own
  total, a session for its packet id exists, and the fragment index is beyond the total that
  session was created with: the index is checked against the total of the fragment at hand, not
  against the session's. In every other case the call returns and the reassembler stays
  well-formed.
\<close>

theorem krs_reassembler_feed_safe:
  assumes "re_wf r" and "frame_ok f"
  shows "if fragment_frame f \<and>
            (\<exists>p. re_map r (frame_packet_id f) = Some p \<and> pd_total p \<le> unat (frame_index f))
         then krs_reassembler_feed al now (Some r) (Some f) = None
         else \<exists>res r'. krs_reassembler_feed al now (Some r) (Some f) = Some (res, Some r') \<and> re_wf r'"
proof (cases "fragment_frame f")
  case False
  with feed_defined [OF assms, of al now] show ?thesis by simp
next
  case frag: True
  show ?thesis
  proof (cases "\<exists>p. re_map r (frame_packet_id f) = Some p \<and> pd_total p \<le> unat (frame_index f)")
    case True
    then obtain p where p: "re_map r (frame_packet_id f) = Some p" "pd_total p \<le> unat (frame_index f)"
      by blast
    obtain si where si: "si < length (sessions r)"
        "fs_packet_id (sessions r ! si) = frame_packet_id f" "p = sess_abs (sessions r ! si)"
      using re_map_SomeE [OF assms(1) p(1)] .
    have beyond: "unat (fs_total (sessions r ! si)) \<le> unat (frame_index f)"
      using p(2) by (simp add: si(3) sess_abs_def)
    have "length (fs_piece_received (sessions r ! si)) = unat (fs_total (sessions r ! si))"
      using re_wfD(2) [OF assms(1)] si(1) by (auto simp: sess_open_def sess_ok_def)
    then have "feed_session r si f = None"
      using beyond kra.at_nth [OF re_wfD(1) [OF assms(1)] si(1)]
      by (simp add: feed_session_def Let_def mem_get_def)
    with True frag feed_found [OF assms(1) frag si(1,2), of al now] show ?thesis by simp
  next
    case False
    then have "\<forall>p. re_map r (frame_packet_id f) = Some p \<longrightarrow> unat (frame_index f) < pd_total p"
      by (meson leI)
    with False feed_defined [OF assms, of al now] show ?thesis by auto
  qed
qed

theorem krs_reassembler_feed_safe_witness:
  "krs_reassembler_feed some_memory 0 (Some (one_session (fresh_session (\<lambda>_. 0) 0 7 2)))
     (Some (received_frame 10 BASIC_MESSAGE 2 7 (fragment_md 2 3) [1] (replicate 1500 0))) = None"
proof -
  let ?s = "fresh_session (\<lambda>_. 0) 0 7 2"
  let ?f = "received_frame 10 BASIC_MESSAGE 2 7 (fragment_md 2 3) [1] (replicate 1500 0)"
  have s: "sess_open ?s" "sess_abs ?s = pend_new 2" "fs_packet_id ?s = 7"
    using fresh_session_ok [of 2 "\<lambda>_. 0" 0 7] by (simp_all add: fresh_session_def)
  have "frame_ok ?f" by (simp add: frame_ok_def received_frame_def)
  moreover have "fragment_frame ?f" "frame_packet_id ?f = 7" "frame_index ?f = 2"
    by (simp_all add: fragment_frame_def received_frame_def masked_metadata_def fragment_md_def
        has_flag_def)
  ultimately show ?thesis
    using krs_reassembler_feed_safe [OF one_session_ok(1) [OF s(1)], of ?f some_memory 0]
    by (simp add: one_session_ok(2) [OF s(1)] s(2,3) pend_new_def)
qed

text \<open>
  C25. Feeding refines the specification. On a well-formed reassembler, an acceptable fragment whose
  index is within the session's total has exactly the effect of \<open>feed_spec\<close>, with the delivered
  payload in the first \<open>data_length\<close> bytes of the result, unless there is no session for its packet
  and none can be created; then the error says so and nothing changes. Every other packet's state
  is untouched in all cases.
\<close>

theorem krs_reassembler_feed_refines:
  assumes "re_wf r" and "frame_ok f" and "fragment_frame f"
    and "\<forall>p. re_map r (frame_packet_id f) = Some p \<longrightarrow> unat (frame_index f) < pd_total p"
  shows "\<exists>res r'. krs_reassembler_feed al now (Some r) (Some f) = Some (res, Some r') \<and> re_wf r' \<and>
     (\<forall>pid. pid \<noteq> frame_packet_id f \<longrightarrow> re_map r' pid = re_map r pid) \<and>
     (rb_valid (rr_base res) \<and>
        (feed_result res, re_map r') = feed_spec (re_map r) (frame_packet_id f) (unat (frame_total f))
           (unat (frame_index f)) (frame_payload f) (frame_ack f) \<or>
      rb_error_code (rr_base res) = KRS_ERR_MEMORY_ALLOCATION \<and> r' = r \<and>
        re_map r (frame_packet_id f) = None \<and>
        (length (sessions r) = 256 \<or> \<not> session_alloc_ok (fa_session al)))"
proof (rule feed_fragment_cases [OF assms, where al = al and now = now])
  fix res r'
  assume fed: "krs_reassembler_feed al now (Some r) (Some f) = Some (res, Some r')" "re_wf r'"
      "rb_valid (rr_base res)"
      "(feed_result res, re_map r') = feed_spec (re_map r) (frame_packet_id f) (unat (frame_total f))
           (unat (frame_index f)) (frame_payload f) (frame_ack f)"
  have "re_map r' pid = re_map r pid" if "pid \<noteq> frame_packet_id f" for pid
    using fed(4) that by (auto simp: feed_spec_def Let_def split: if_splits)
  with fed show ?thesis by blast
qed (use assms(1) in auto)

theorem krs_reassembler_feed_refines_witness:
  "\<exists>res r'. krs_reassembler_feed some_memory 0 (Some empty_reassembler)
       (Some (received_frame 10 BASIC_MESSAGE 2 7 (fragment_md 0 2) [1] (replicate 1500 0))) =
         Some (res, Some r') \<and> re_wf r' \<and> rb_valid (rr_base res) \<and> feed_result res = None"
proof -
  let ?f = "received_frame 10 BASIC_MESSAGE 2 7 (fragment_md 0 2) [1] (replicate 1500 0)"
  have ok: "frame_ok ?f" by (simp add: frame_ok_def received_frame_def)
  have frag: "fragment_frame ?f" "frame_packet_id ?f = 7" "frame_index ?f = 0" "frame_total ?f = 2"
    by (simp_all add: fragment_frame_def received_frame_def masked_metadata_def fragment_md_def
        has_flag_def)
  have "\<not> pend_complete (pend_add (pend_new 2) 0 b a)" for b a
    by (auto simp: pend_complete_def pend_add_def pend_new_def intro!: bexI [of _ 1])
  then have "fst (feed_spec Map.empty 7 2 0 b a) = None" for b a
    by (simp add: feed_spec_def Let_def)
  note none = this
  obtain res r' where r': "krs_reassembler_feed some_memory 0 (Some empty_reassembler) (Some ?f) =
      Some (res, Some r')" "re_wf r'" "rb_valid (rr_base res)"
      "(feed_result res, re_map r') = feed_spec Map.empty 7 2 0 (frame_payload ?f) (frame_ack ?f)"
    using krs_reassembler_feed_refines [OF empty_reassembler_ok(1) ok frag(1), of some_memory 0]
    unfolding frag empty_reassembler_ok(2,3) by (auto simp: some_memory_ok)
  have "feed_result res = fst (feed_spec Map.empty 7 2 0 (frame_payload ?f) (frame_ack ?f))"
    unfolding r'(4) [symmetric] by simp
  with none r' show ?thesis by simp
qed

subsection \<open>Round trip\<close>

text \<open>The state of a packet of \<open>n\<close> pieces \<open>g i\<close> of which those in \<open>S\<close> have arrived.\<close>

definition pend_of :: "nat \<Rightarrow> (nat \<Rightarrow> bytes) \<Rightarrow> nat set \<Rightarrow> bool \<Rightarrow> pending option" where
  "pend_of n g S ack =
     (if S = {} then None
      else Some \<lparr>pd_total = n, pd_pieces = (\<lambda>i. if i \<in> S then Some (g i) else None), pd_ack = ack\<rparr>)"

lemma feed_spec_piece:
  assumes "A pid = pend_of n g S ack"
  shows "feed_spec A pid n k (g k) ack =
    (if {0..<n} \<subseteq> insert k S then (Some (concat (map g [0..<n]), ack), A(pid := None))
     else (None, A(pid := pend_of n g (insert k S) ack)))"
proof -
  let ?p = "\<lparr>pd_total = n, pd_pieces = (\<lambda>i. if i \<in> insert k S then Some (g i) else None), pd_ack = ack\<rparr>"
  have add: "pend_add (case A pid of None \<Rightarrow> pend_new n | Some p \<Rightarrow> p) k (g k) ack = ?p"
    using assms by (auto simp: pend_of_def pend_add_def pend_new_def fun_eq_iff)
  have "pend_complete ?p \<longleftrightarrow> {0..<n} \<subseteq> insert k S"
    by (auto simp: pend_complete_def subset_iff)
  moreover have "pend_data ?p = concat (map g [0..<n])" if "{0..<n} \<subseteq> insert k S"
  proof -
    have "map (\<lambda>i. the (pd_pieces ?p i)) [0..<n] = map g [0..<n]"
      using that by (intro map_cong) auto
    then show ?thesis by (simp only: pend_data_def pending.select_convs)
  qed
  ultimately show ?thesis
    by (simp add: feed_spec_def add Let_def) (simp add: pend_of_def)
qed

text \<open>
  Receiving a sequence of datagrams: each is parsed into a buffer of \<open>KRONOS_BUFFER_SIZE\<close> bytes and
  the frame is fed to the reassembler.
\<close>

fun receive_all :: "feed_alloc \<Rightarrow> u64 \<Rightarrow> bytes list \<Rightarrow> reassembler \<Rightarrow>
    (reassemble_result list \<times> reassembler) option" where
  "receive_all al now [] r = Some ([], r)"
| "receive_all al now (dg # dgs) r =
     do { f \<leftarrow> krs_frame_create (Some dg) (of_nat (length dg)) (Some (replicate KRONOS_BUFFER_SIZE 0))
                 (of_nat KRONOS_BUFFER_SIZE);
          (res, r1) \<leftarrow> krs_reassembler_feed al now (Some r) (Some f);
          r1 \<leftarrow> r1;
          (ress, r') \<leftarrow> receive_all al now dgs r1;
          Some (res # ress, r') }"

lemma frame_payload_received:
  assumes "length payload \<le> 1500" and "length out = 1500"
  shows "frame_payload (received_frame ch ty fl pid md payload out) = payload"
    and "frame_ok (received_frame ch ty fl pid md payload out)"
    and "unat (frame_body_length (received_frame ch ty fl pid md payload out)) = length payload"
proof -
  have "unat (of_nat (length payload) :: u16) = length payload"
    using assms(1) by (intro unat_of_nat_small) simp
  with assms show "frame_payload (received_frame ch ty fl pid md payload out) = payload"
    and "frame_ok (received_frame ch ty fl pid md payload out)"
    and "unat (frame_body_length (received_frame ch ty fl pid md payload out)) = length payload"
    by (simp_all add: frame_payload_def received_frame_def frame_ok_def)
qed

lemma parse_fragment:
  assumes "no_metadata fl" and "length c \<le> 1382"
  shows "krs_frame_create (Some (fragment_wire ch ty pid fl i tot c)) (of_nat (18 + length c))
           (Some (replicate 1500 0)) 1500 =
         Some (received_frame ch ty (fragment_flags fl) pid (fragment_md i tot) c (replicate 1500 0))"
  unfolding krs_frame_create_def
proof (rule parse_wire_image [where rest = "[]"])
  have "unat (of_nat (18 + length c) :: u16) = 18 + length c"
    using assms(2) by (intro unat_of_nat_small) simp
  then show "unat (of_nat (18 + length c) :: u16) = 14 + metadata_length (fragment_flags fl) + length c"
    by (simp add: fragment_wire_image(2) [OF assms(1)])
qed (use assms(2) fragment_wire_image(1) [OF assms(1)] in simp_all)

lemma fragment_frame_received:
  assumes "length c \<le> 1382" and "unat i < unat tot" and "unat tot \<le> 64"
  shows "fragment_frame (received_frame ch ty (fragment_flags fl) pid (fragment_md i tot) c (replicate 1500 0))"
    and "frame_index (received_frame ch ty (fragment_flags fl) pid (fragment_md i tot) c (replicate 1500 0)) = i"
    and "frame_total (received_frame ch ty (fragment_flags fl) pid (fragment_md i tot) c (replicate 1500 0)) = tot"
    and "frame_ack (received_frame ch ty (fragment_flags fl) pid (fragment_md i tot) c (replicate 1500 0)) =
           has_flag fl META_FLAG_ACK_REQUIRED"
proof -
  have flag: "has_flag (fragment_flags fl) 1" "has_flag (fragment_flags fl) 0 = has_flag fl 0"
    by (simp_all add: has_flag_bit fragment_flags_bits)
  have len: "unat (of_nat (length c) :: u16) = length c"
    using assms(1) by (intro unat_of_nat_small) simp
  have "tot \<noteq> 0" using assms(2) by auto
  with assms flag len show
    "fragment_frame (received_frame ch ty (fragment_flags fl) pid (fragment_md i tot) c (replicate 1500 0))"
    "frame_index (received_frame ch ty (fragment_flags fl) pid (fragment_md i tot) c (replicate 1500 0)) = i"
    "frame_total (received_frame ch ty (fragment_flags fl) pid (fragment_md i tot) c (replicate 1500 0)) = tot"
    "frame_ack (received_frame ch ty (fragment_flags fl) pid (fragment_md i tot) c (replicate 1500 0)) =
       has_flag fl META_FLAG_ACK_REQUIRED"
    by (simp_all add: fragment_frame_def received_frame_def masked_metadata_def fragment_md_def
        word_less_nat_alt)
qed

abbreviation frag_datagram ::
    "u8 \<Rightarrow> frame_type_e \<Rightarrow> u64 \<Rightarrow> u16 \<Rightarrow> nat \<Rightarrow> (nat \<Rightarrow> bytes) \<Rightarrow> nat \<Rightarrow> bytes" where
  "frag_datagram ch ty pid fl n g k \<equiv> fragment_wire ch ty pid fl (of_nat k) (of_nat n) (g k)"

text \<open>One more fragment of a packet arrives.\<close>

lemma receive_fragment:
  assumes wf: "re_wf r" and st: "re_map r pid = pend_of n g S (has_flag fl META_FLAG_ACK_REQUIRED)"
    and room: "S = {} \<longrightarrow> length (sessions r) < 256" and alloc: "session_alloc_ok (fa_session al)"
    and k: "k < n" and n: "n \<le> 64" and fl: "no_metadata fl" and g: "\<And>i. length (g i) \<le> 1382"
  shows "\<exists>res r'. receive_all al now [frag_datagram ch ty pid fl n g k] r = Some ([res], r') \<and> re_wf r' \<and>
    (feed_result res, re_map r') =
      (if {0..<n} \<subseteq> insert k S
       then (Some (concat (map g [0..<n]), has_flag fl META_FLAG_ACK_REQUIRED), (re_map r)(pid := None))
       else (None, (re_map r)(pid := pend_of n g (insert k S) (has_flag fl META_FLAG_ACK_REQUIRED))))"
proof -
  let ?ack = "has_flag fl META_FLAG_ACK_REQUIRED"
  let ?f = "received_frame ch ty (fragment_flags fl) pid (fragment_md (of_nat k) (of_nat n)) (g k)
              (replicate 1500 0)"
  have uk: "unat (of_nat k :: u16) = k" and un: "unat (of_nat n :: u16) = n"
    using k n by (auto intro!: unat_of_nat_small)
  note parse = parse_fragment [OF fl g [of k], of ch ty pid "of_nat k" "of_nat n"]
  have pid: "frame_packet_id ?f = pid" by (simp add: received_frame_def)
  have len: "length (g k) \<le> 1500" using g [of k] by simp
  note pay = frame_payload_received(1,2) [OF len, of "replicate 1500 0"]
  note ff = fragment_frame_received [OF g [of k], of "of_nat k" "of_nat n" ch ty fl pid, unfolded uk un, OF k n]
  have ok: "frame_ok ?f" by (rule pay(2)) simp
  have "unat (frame_index ?f) < pd_total p" if "re_map r (frame_packet_id ?f) = Some p" for p
    using that st k by (auto simp: pid ff(2) uk pend_of_def split: if_splits)
  then have idx: "\<forall>p. re_map r (frame_packet_id ?f) = Some p \<longrightarrow> unat (frame_index ?f) < pd_total p"
    by blast
  show ?thesis
  proof (cases rule: feed_fragment_cases [OF wf ok ff(1) idx, of al now])
    case fed: (1 res r')
    have "(feed_result res, re_map r') = feed_spec (re_map r) pid n k (g k) ?ack"
      using fed(4) by (simp add: pid ff(2-4) uk un pay(1))
    with feed_spec_piece [of "re_map r" pid n g S ?ack k] st fed(1,2) parse show ?thesis by simp
  next
    case no_memory: (2 res)
    have "S = {}" using no_memory(4) st by (auto simp: pid pend_of_def split: if_splits)
    with no_memory(5) room alloc show ?thesis by simp
  qed
qed

lemma receive_all_Cons:
  assumes "receive_all al now [dg] r = Some ([res], r1)" and "receive_all al now dgs r1 = Some (ress, r')"
  shows "receive_all al now (dg # dgs) r = Some (res # ress, r')"
  using assms by (auto simp: bind_eq_Some_conv)

lemma receive_all_append:
  assumes "receive_all al now xs r = Some (rs, r1)" and "receive_all al now ys r1 = Some (ss, r2)"
  shows "receive_all al now (xs @ ys) r = Some (rs @ ss, r2)"
  using assms by (induction xs arbitrary: r rs) (auto simp: bind_eq_Some_conv)

lemma receive_fragments:
  assumes "re_wf r" and "re_map r pid = pend_of n g S (has_flag fl META_FLAG_ACK_REQUIRED)"
    and "S = {} \<longrightarrow> length (sessions r) < 256" and alloc: "session_alloc_ok (fa_session al)"
    and "set ks \<subseteq> {0..<n}" and n: "n \<le> 64" and fl: "no_metadata fl" and g: "\<And>i. length (g i) \<le> 1382"
    and "\<not> {0..<n} \<subseteq> S \<union> set ks"
  shows "\<exists>ress r'. receive_all al now (map (frag_datagram ch ty pid fl n g) ks) r = Some (ress, r') \<and>
    map feed_result ress = replicate (length ks) None \<and> re_wf r' \<and>
    re_map r' = (re_map r)(pid := pend_of n g (S \<union> set ks) (has_flag fl META_FLAG_ACK_REQUIRED)) \<and>
    (S \<union> set ks = {} \<longrightarrow> length (sessions r') < 256)"
  using assms(1-3,5,9)
proof (induction ks arbitrary: r S)
  case (Cons k ks)
  have k: "k < n" and notyet: "\<not> {0..<n} \<subseteq> insert k S" using Cons.prems(4,5) by auto
  let ?ack = "has_flag fl META_FLAG_ACK_REQUIRED"
  from receive_fragment [OF Cons.prems(1-3) alloc k n fl g, of now ch ty] notyet
  obtain res r1 where r1: "receive_all al now [frag_datagram ch ty pid fl n g k] r = Some ([res], r1)"
      "re_wf r1" "feed_result res = None" "re_map r1 = (re_map r)(pid := pend_of n g (insert k S) ?ack)"
    by auto
  have "re_map r1 pid = pend_of n g (insert k S) ?ack"
    "insert k S = {} \<longrightarrow> length (sessions r1) < 256" "set ks \<subseteq> {0..<n}"
    "\<not> {0..<n} \<subseteq> insert k S \<union> set ks"
    using r1(4) Cons.prems(4,5) by auto
  from Cons.IH [OF r1(2) this] obtain ress r' where
    "receive_all al now (map (frag_datagram ch ty pid fl n g) ks) r1 = Some (ress, r')"
    "map feed_result ress = replicate (length ks) None" "re_wf r'"
    "re_map r' = (re_map r1)(pid := pend_of n g (insert k S \<union> set ks) ?ack)"
    by blast
  with receive_all_Cons [OF r1(1)] r1(3,4) show ?case by (auto simp del: receive_all.simps)
qed (simp add: fun_upd_idem)

lemma receive_plain:
  assumes "re_wf r" and "no_metadata fl" and "length d \<le> 1386" and "fa_body al \<noteq> None"
  shows "\<exists>res. receive_all al now [wire_header ch ty fl pid @ d] r = Some ([res], r) \<and>
           feed_result res = Some (d, has_flag fl META_FLAG_ACK_REQUIRED)"
proof -
  let ?f = "received_frame ch ty fl pid metadata_zero d (replicate 1500 0)"
  have md: "metadata_length fl = 0" "wire_metadata fl metadata_zero = []"
    using assms(2) by (simp_all add: no_metadata_def metadata_length_def wire_metadata_def)
  have len: "unat (of_nat (14 + length d) :: u16) = 14 + length d"
    using assms(3) by (intro unat_of_nat_small) simp
  have "krs_frame_create (Some (wire_header ch ty fl pid @ d)) (of_nat (14 + length d))
      (Some (replicate 1500 0)) 1500 = Some ?f"
    unfolding krs_frame_create_def
    by (rule parse_wire_image [where rest = "[]"]) (use assms(3) len md in simp_all)
  moreover have "\<not> has_flag (frame_presence_flags ?f) META_FLAG_FRAGMENT_INFO"
    using assms(2) by (simp add: received_frame_def no_metadata_def)
  moreover have ok: "frame_ok ?f" and pay: "frame_payload ?f = d"
    using frame_payload_received [of d "replicate 1500 0"] assms(3) by simp_all
  moreover have "\<not> fragment_frame ?f"
    using assms(2) by (simp add: fragment_frame_def received_frame_def no_metadata_def)
  moreover have "frame_ack ?f = has_flag fl META_FLAG_ACK_REQUIRED" by (simp add: received_frame_def)
  ultimately show ?thesis
    using feed_no_session [of ?f al now r] assms(4) by (auto simp: len)
qed



subsection \<open>Sweeping\<close>

lemma sweep_stale_result:
  assumes "re_wf r"
  shows "\<exists>n r'. krs_reassembler_sweep_stale now (Some r) timeout_ms = Some (n, Some r') \<and> re_wf r' \<and>
    sessions r' = filter (\<lambda>s. now - fs_created_ms s < ucast timeout_ms) (sessions r) \<and>
    length (sessions r') + unat n = length (sessions r)"
proof -
  note inv = re_wfD [OF assms]
  let ?P = "\<lambda>s. now - fs_created_ms s < ucast timeout_ms"
  let ?step = "\<lambda>s n. if ?P s then (Some s, n) else (None, n + 1 :: u32)"
  have len: "unat (krs_array_length (Some (re_sessions r))) = length (sessions r)"
    by (simp add: krs_array_length_def length_arr_vals [OF inv(1)])
  obtain a where a: "sweep_loop array_at krs_array_poke array_drop ?step (length (sessions r)) (re_sessions r) 0 =
      Some (a, of_nat (length (filter (\<lambda>s. \<not> ?P s) (sessions r))))"
      "arr_ok a" "arr_vals a = filter ?P (sessions r)"
    using kra.sweep_all [OF inv(1) refl, of ?step 0] by (auto simp: sweep_list_filter)
  have small: "length (filter (\<lambda>s. \<not> ?P s) (sessions r)) \<le> 256"
    using inv(4) length_filter_le order_trans by blast
  have "re_wf (r\<lparr>re_sessions := a\<rparr>)"
    using inv a(2,3) by (auto simp: re_wf_def distinct_map_filter intro: order_trans [OF length_filter_le])
  moreover have "length (filter ?P (sessions r)) + length (filter (\<lambda>s. \<not> ?P s) (sessions r)) = length (sessions r)"
    by (rule sum_length_filter_compl)
  moreover have "unat (of_nat (length (filter (\<lambda>s. \<not> ?P s) (sessions r))) :: u32) =
      length (filter (\<lambda>s. \<not> ?P s) (sessions r))"
    using small by (intro unat_of_nat_small) simp
  ultimately show ?thesis
    using a by (simp add: krs_reassembler_sweep_stale_def len)
qed

text \<open>
  Sweeping removes exactly the sessions that are at least \<open>timeout_ms\<close> old, in the wrapping
  64-bit arithmetic of the clock, returns their number, keeps the order of the others and leaves
  the reassembler well-formed.
\<close>

theorem krs_reassembler_sweep_stale_spec:
  assumes "re_wf r"
  shows "\<exists>n r'. krs_reassembler_sweep_stale now (Some r) timeout_ms = Some (n, Some r') \<and> re_wf r' \<and>
    sessions r' = filter (\<lambda>s. now - fs_created_ms s < ucast timeout_ms) (sessions r) \<and>
    length (sessions r') + unat n = length (sessions r)"
  using assms by (rule sweep_stale_result)

theorem krs_reassembler_sweep_stale_spec_witness:
  "\<exists>n r'. krs_reassembler_sweep_stale 5000 (Some (one_session (fresh_session (\<lambda>_. 0) 0 7 2))) 5000 =
       Some (n, Some r') \<and> sessions r' = []"
proof -
  let ?r = "one_session (fresh_session (\<lambda>_. 0) 0 7 2)"
  have "re_wf ?r" using fresh_session_ok(1) [of 2] by (intro one_session_ok(1)) simp
  moreover have "sessions ?r = [fresh_session (\<lambda>_. 0) 0 7 2]"
    by (simp add: one_session_def arr_vals_def arr_list_def)
  ultimately show ?thesis
    using krs_reassembler_sweep_stale_spec [of ?r 5000 5000] by (auto simp: fresh_session_def)
qed

text \<open>
  The life cycle: a reassembler is created empty and well-formed, or not at all when memory is
  missing, and destroying a well-formed one releases exactly its open sessions.
\<close>

theorem reassembler_lifecycle:
  assumes "re_wf r"
  shows "krs_reassembler_destroy (Some r) = Some (sessions r, None) \<and>
    (case krs_reassembler_create al aal cells of
       None \<Rightarrow> \<not> al \<or> \<not> aal \<or> cells = None
     | Some r0 \<Rightarrow> re_wf r0 \<and> sessions r0 = [])"
proof -
  have "krs_reassembler_destroy (Some r) = Some (sessions r, None)"
    by (simp add: krs_reassembler_destroy_def destroy_items_vals [OF re_wfD(1) [OF assms]])
  moreover have "case krs_reassembler_create al aal cells of
       None \<Rightarrow> \<not> al \<or> \<not> aal \<or> cells = None
     | Some r0 \<Rightarrow> re_wf r0 \<and> sessions r0 = []"
  proof (cases "al \<and> aal \<and> cells \<noteq> None")
    case True
    then obtain junk where j: "cells = Some junk" by blast
    have "krs_reassembler_create True True (Some junk) \<noteq> None"
      by (simp add: krs_reassembler_create_def krs_array_create_def Let_def)
    with True j create_reassembler [of junk] show ?thesis by (auto split: option.split)
  next
    case False
    then show ?thesis
      by (auto simp: krs_reassembler_create_def krs_array_create_def Let_def split: option.splits)
  qed
  ultimately show ?thesis by blast
qed

theorem reassembler_lifecycle_witness:
  "krs_reassembler_destroy (Some empty_reassembler) = Some ([], None)"
  using reassembler_lifecycle [OF empty_reassembler_ok(1), of True True None]
  by (simp add: empty_reassembler_ok(3))

end
