(* ===== verification/Kronos_Double.thy ===== *)
theory Kronos_Double
  imports Kronos_Prelude Complex_Main "HOL-Library.Log_Nat"
begin

text \<open>
  The C type \<open>double\<close>. A finite double is modelled by the rational number it denotes, and every
  operation of the source by the exact operation followed by \<open>rnd64\<close>, rounding to the nearest
  binary64 number with ties to even. Subnormal numbers are covered by the least exponent -1074.
  Infinities and NaN are not modelled: the values of the programs that use \<open>double\<close> here stay far
  below 2^1024, and none divides by zero, as \<open>Kronos_Congestion\<close> shows.

  The locale \<open>rounding\<close> collects what a client needs of rounding; \<open>rnd64\<close> is proved to satisfy it.
\<close>

section \<open>Rounding to binary64\<close>

text \<open>The largest \<open>e\<close> with \<open>2^e \<le> x\<close>, for positive \<open>x\<close>.\<close>

definition ilog2 :: "rat \<Rightarrow> int" where
  "ilog2 x = (if x \<ge> 1 then int (floorlog 2 (nat \<lfloor>x\<rfloor>)) - 1
              else - int (floorlog 2 (nat (\<lceil>1 / x\<rceil> - 1))))"

text \<open>The nearest integer, the even one in the middle.\<close>

definition round_even :: "rat \<Rightarrow> int" where
  "round_even y =
     (let f = \<lfloor>y\<rfloor>; d = y - of_int f
      in if d < 1 / 2 then f else if d > 1 / 2 then f + 1 else if even f then f else f + 1)"

text \<open>The exponent of the last place of a double near \<open>x\<close>: 53 significant bits, at least 2^-1074.\<close>

definition ulp_exp :: "rat \<Rightarrow> int" where
  "ulp_exp x = max (ilog2 x - 52) (-1074)"

definition rnd_pos :: "rat \<Rightarrow> rat" where
  "rnd_pos x = of_int (round_even (x / 2 powi ulp_exp x)) * 2 powi ulp_exp x"

definition rnd64 :: "rat \<Rightarrow> rat" where
  "rnd64 x = (if x = 0 then 0 else if x > 0 then rnd_pos x else - rnd_pos (- x))"

text \<open>The conversion \<open>(double)n\<close> of an unsigned integer.\<close>

definition double_of_u64 :: "u64 \<Rightarrow> rat" where
  "double_of_u64 n = rnd64 (of_nat (unat n))"

section \<open>Lemmas\<close>

subsection \<open>The integer logarithm\<close>

lemma ilog2_bounds:
  assumes "0 < x"
  shows "2 powi ilog2 x \<le> x" and "x < 2 powi (ilog2 x + 1)"
proof -
  have "2 powi ilog2 x \<le> x \<and> x < 2 powi (ilog2 x + 1)"
  proof (cases "x \<ge> 1")
    case True
    define n where "n = nat \<lfloor>x\<rfloor>"
    have n: "0 < n" "rat_of_nat n \<le> x" "x < rat_of_nat n + 1"
      using True floor_correct [of x] by (simp_all add: n_def of_nat_nat)
    then have "0 < floorlog 2 n" by (simp add: floorlog_def)
    then obtain k where k: "floorlog 2 n = Suc k" by (cases "floorlog 2 n") auto
    have b: "2 ^ k \<le> n" "n < 2 ^ Suc k" using floorlog_bounds [of n 2] n(1) k by auto
    have lo: "(2::rat) ^ k \<le> of_nat n" and up: "rat_of_nat n + 1 \<le> 2 ^ Suc k"
      using b by (metis of_nat_le_iff of_nat_numeral of_nat_power,
          metis Suc_leI add.commute of_nat_Suc of_nat_le_iff of_nat_numeral of_nat_power)
    have e: "ilog2 x = int k" using True k by (simp add: ilog2_def n_def [symmetric])
    have "(2::rat) powi (int k + 1) = 2 ^ Suc k"
      by (metis power_int_of_nat of_nat_Suc add.commute)
    with lo up n(2,3) show ?thesis unfolding e power_int_of_nat by linarith
  next
    case False
    define c where "c = \<lceil>1 / x\<rceil>"
    define n where "n = nat (c - 1)"
    have gt: "1 < 1 / x" using False assms by simp
    then have "1 < c" by (simp add: c_def less_ceiling_iff)
    then have "0 < n" and "rat_of_nat n = of_int c - 1"
      by (simp_all add: n_def of_nat_nat)
    with ceiling_correct [of "1 / x", folded c_def] have n: "0 < n" "rat_of_nat n < 1 / x" "1 / x \<le> rat_of_nat n + 1"
      by simp_all
    then have "0 < floorlog 2 n" by (simp add: floorlog_def)
    then obtain k where k: "floorlog 2 n = Suc k" by (cases "floorlog 2 n") auto
    have b: "2 ^ k \<le> n" "n < 2 ^ Suc k" using floorlog_bounds [of n 2] n(1) k by auto
    have up: "1 / x \<le> 2 ^ Suc k"
    proof -
      have "rat_of_nat n + 1 \<le> 2 ^ Suc k"
        using b(2) by (metis Suc_leI add.commute of_nat_Suc of_nat_le_iff of_nat_numeral of_nat_power)
      then show ?thesis using n(3) by linarith
    qed
    have lo: "2 ^ k < 1 / x"
    proof -
      have "(2::rat) ^ k \<le> of_nat n" using b(1) by (metis of_nat_le_iff of_nat_numeral of_nat_power)
      then show ?thesis using n(2) by linarith
    qed
    have e: "ilog2 x = - int (Suc k)" using False k by (simp add: ilog2_def c_def [symmetric] n_def [symmetric])
    have "(2::rat) powi ilog2 x = 1 / 2 ^ Suc k"
      unfolding e power_int_minus_divide by (simp only: power_int_of_nat)
    moreover have "ilog2 x + 1 = - int k" by (simp add: e)
    then have "(2::rat) powi (ilog2 x + 1) = 1 / 2 ^ k"
      by (simp only: power_int_minus_divide power_int_of_nat)
    moreover have "1 / 2 ^ Suc k \<le> x" "x < 1 / 2 ^ k"
      using up lo assms by (simp_all add: field_simps)
    ultimately show ?thesis by simp
  qed
  then show "2 powi ilog2 x \<le> x" and "x < 2 powi (ilog2 x + 1)" by simp_all
qed

lemma powi2_pos [simp]: "0 < (2 :: rat) powi e"
  by (simp add: zero_less_power_int)

lemma powi2_mono: "d \<le> e \<Longrightarrow> (2 :: rat) powi d \<le> 2 powi e"
  by (rule power_int_increasing) simp_all

lemma powi2_less_imp: "(2 :: rat) powi d < 2 powi e \<Longrightarrow> d < e"
  using powi2_mono [of e d] by (meson leI not_less)

lemma ilog2_mono: "0 < x \<Longrightarrow> x \<le> y \<Longrightarrow> ilog2 x \<le> ilog2 y"
proof -
  assume "0 < x" "x \<le> y"
  then have "2 powi ilog2 x < (2 :: rat) powi (ilog2 y + 1)"
    using ilog2_bounds [of x] ilog2_bounds [of y] by linarith
  then have "ilog2 x < ilog2 y + 1" by (rule powi2_less_imp)
  then show ?thesis by simp
qed

subsection \<open>Rounding to an integer\<close>

lemma round_even_int [simp]: "round_even (of_int n) = n"
  by (simp add: round_even_def)

lemma round_even_floor: "\<lfloor>y\<rfloor> \<le> round_even y" "round_even y \<le> \<lfloor>y\<rfloor> + 1"
  by (simp_all add: round_even_def Let_def)

lemma round_even_mono:
  assumes "x \<le> y"
  shows "round_even x \<le> round_even y"
proof (cases "\<lfloor>x\<rfloor> = \<lfloor>y\<rfloor>")
  case True
  with assms show ?thesis by (auto simp: round_even_def Let_def)
next
  case False
  then have "\<lfloor>x\<rfloor> + 1 \<le> \<lfloor>y\<rfloor>" using floor_mono [OF assms] by linarith
  with round_even_floor(2) [of x] round_even_floor(1) [of y] show ?thesis by linarith
qed

lemma round_even_le_int: "x \<le> of_int n \<Longrightarrow> round_even x \<le> n"
  using round_even_mono [of x "of_int n"] by simp

lemma round_even_ge_int: "of_int n \<le> x \<Longrightarrow> n \<le> round_even x"
  using round_even_mono [of "of_int n" x] by simp

subsection \<open>Rounding positive numbers\<close>

lemma powi2_grid:
  assumes "d \<le> e"
  shows "(2 :: rat) powi e = of_int (2 ^ nat (e - d)) * 2 powi d"
proof -
  have "(2 :: rat) powi e = 2 powi (e - d) * 2 powi d"
    by (simp add: power_int_add [symmetric])
  then show ?thesis using assms by (simp add: power_int_nonneg_exp)
qed

lemma rnd_pos_le_grid:
  assumes "x \<le> 2 powi e" and "ulp_exp x \<le> e"
  shows "rnd_pos x \<le> 2 powi e"
proof -
  have "x / 2 powi ulp_exp x \<le> of_int (2 ^ nat (e - ulp_exp x))"
    using assms(1) powi2_grid [OF assms(2)] by (simp add: pos_divide_le_eq)
  then have "round_even (x / 2 powi ulp_exp x) \<le> 2 ^ nat (e - ulp_exp x)"
    by (rule round_even_le_int)
  then have "rat_of_int (round_even (x / 2 powi ulp_exp x)) \<le> of_int (2 ^ nat (e - ulp_exp x))"
    by (simp only: of_int_le_iff)
  then show ?thesis
    unfolding rnd_pos_def powi2_grid [OF assms(2)] by (rule mult_right_mono) simp
qed

lemma rnd_pos_ge_grid:
  assumes "2 powi e \<le> x" and "ulp_exp x \<le> e"
  shows "2 powi e \<le> rnd_pos x"
proof -
  have "of_int (2 ^ nat (e - ulp_exp x)) \<le> x / 2 powi ulp_exp x"
    using assms(1) powi2_grid [OF assms(2)] by (simp add: pos_le_divide_eq)
  then have "2 ^ nat (e - ulp_exp x) \<le> round_even (x / 2 powi ulp_exp x)"
    by (rule round_even_ge_int)
  then have "of_int (2 ^ nat (e - ulp_exp x)) \<le> rat_of_int (round_even (x / 2 powi ulp_exp x))"
    by (simp only: of_int_le_iff)
  then show ?thesis
    unfolding rnd_pos_def powi2_grid [OF assms(2)] by (rule mult_right_mono) simp
qed

lemma rnd_pos_mono:
  assumes "0 < x" and "x \<le> y"
  shows "rnd_pos x \<le> rnd_pos y"
proof (cases "ulp_exp x = ulp_exp y")
  case True
  have "x / 2 powi ulp_exp y \<le> y / 2 powi ulp_exp y"
    using assms(2) by (simp add: divide_right_mono less_imp_le)
  from round_even_mono [OF this] True show ?thesis
    unfolding rnd_pos_def by (simp add: mult_right_mono less_imp_le)
next
  case False
  have le: "ilog2 x \<le> ilog2 y" by (rule ilog2_mono [OF assms])
  then have "ulp_exp x < ulp_exp y" using False by (auto simp: ulp_exp_def)
  then have less: "ilog2 x < ilog2 y" "ulp_exp x \<le> ilog2 y" "ulp_exp y \<le> ilog2 y"
    by (auto simp: ulp_exp_def)
  have "x < 2 powi (ilog2 x + 1)" using ilog2_bounds(2) [OF assms(1)] .
  also have "\<dots> \<le> 2 powi ilog2 y" using less(1) by (intro powi2_mono) simp
  finally have "rnd_pos x \<le> 2 powi ilog2 y" using less(2) by (intro rnd_pos_le_grid) simp_all
  also have "\<dots> \<le> rnd_pos y"
    using less(3) ilog2_bounds(1) [of y] assms by (intro rnd_pos_ge_grid) simp_all
  finally show ?thesis .
qed

lemma rnd_pos_nonneg: "0 < x \<Longrightarrow> 0 \<le> rnd_pos x"
  using round_even_ge_int [of 0 "x / 2 powi ulp_exp x"] by (simp add: rnd_pos_def)

text \<open>Numbers on the grid of their own binade are exact.\<close>

lemma rnd_pos_exact:
  assumes "0 < x" and "x = of_int m * 2 powi k" and "m \<le> 2 ^ 53" and "- 1074 \<le> k"
  shows "rnd_pos x = x"
proof -
  let ?e = "ulp_exp x"
  have "\<exists>n. x = of_int n * 2 powi ?e"
  proof (cases "?e \<le> k")
    case True
    have "x = of_int (m * 2 ^ nat (k - ?e)) * 2 powi ?e"
      unfolding of_int_mult mult.assoc powi2_grid [OF True, symmetric] by (rule assms(2))
    then show ?thesis ..
  next
    case False
    then have e: "?e = ilog2 x - 52" "k + 53 \<le> ilog2 x"
      using assms(4) by (auto simp: ulp_exp_def)
    have "(2 :: rat) powi (k + 53) \<le> x"
      using ilog2_bounds(1) [OF assms(1)] powi2_mono [OF e(2)] by linarith
    moreover have "x \<le> 2 powi (k + 53)"
    proof -
      have "of_int m * (2 :: rat) powi k \<le> of_int (2 ^ 53) * 2 powi k"
        using assms(3) by (intro mult_right_mono) (simp_all only: of_int_le_iff, simp)
      then show ?thesis using powi2_grid [of k "k + 53"] assms(2) by simp
    qed
    ultimately have x: "x = 2 powi (k + 53)" by simp
    have "ilog2 x \<le> k + 53"
    proof (rule ccontr)
      assume "\<not> ilog2 x \<le> k + 53"
      then have "(2 :: rat) powi (k + 53) < 2 powi ilog2 x"
        by (intro power_int_strict_increasing) simp_all
      with x ilog2_bounds(1) [OF assms(1)] show False by linarith
    qed
    with e have "?e \<le> k + 53" by simp
    from powi2_grid [OF this] x show ?thesis by metis
  qed
  then obtain n where n: "x = of_int n * 2 powi ?e" ..
  then have "x / 2 powi ?e = of_int n" by (simp add: field_simps)
  then show ?thesis unfolding rnd_pos_def using n by simp
qed

lemma rnd_pos_idem:
  assumes "0 < x"
  shows "rnd_pos x = 0 \<or> 0 < rnd_pos x \<and> rnd_pos (rnd_pos x) = rnd_pos x"
proof (cases "rnd_pos x = 0")
  case False
  let ?n = "round_even (x / 2 powi ulp_exp x)"
  have pos: "0 < rnd_pos x" using False rnd_pos_nonneg [OF assms] by simp
  have "x < 2 powi (ilog2 x + 1)" using ilog2_bounds(2) [OF assms] .
  also have "\<dots> \<le> 2 powi (ulp_exp x + 53)" by (intro powi2_mono) (simp add: ulp_exp_def)
  finally have "x / 2 powi ulp_exp x \<le> of_int (2 ^ 53)"
    using powi2_grid [of "ulp_exp x" "ulp_exp x + 53"] by (simp add: pos_divide_le_eq)
  then have "?n \<le> 2 ^ 53" by (rule round_even_le_int)
  moreover have "- 1074 \<le> ulp_exp x" by (simp add: ulp_exp_def)
  ultimately have "rnd_pos (rnd_pos x) = rnd_pos x"
    by (intro rnd_pos_exact [OF pos rnd_pos_def])
  with pos show ?thesis by simp
qed simp

section \<open>The interface of rounding\<close>

locale rounding =
  fixes rnd :: "rat \<Rightarrow> rat"
  assumes rnd_mono: "x \<le> y \<Longrightarrow> rnd x \<le> rnd y"
    and rnd_idem: "rnd (rnd x) = rnd x"
    and rnd_int: "\<bar>n\<bar> \<le> 2 ^ 53 \<Longrightarrow> rnd (of_int n) = of_int n"
begin

text \<open>A number that is exactly representable.\<close>

definition exact :: "rat \<Rightarrow> bool" where
  "exact x \<longleftrightarrow> rnd x = x"

lemma exact_rnd [simp]: "exact (rnd x)"
  by (simp add: exact_def rnd_idem)

lemma exact_int: "\<bar>n\<bar> \<le> 2 ^ 53 \<Longrightarrow> exact (of_int n)"
  by (simp add: exact_def rnd_int)

lemma exact_small [simp]: "exact 0" "exact 1" "exact 4" "exact 64" "exact 200" "exact 1000" "exact 60000"
  using exact_int [of 0] exact_int [of 1] exact_int [of 4] exact_int [of 64] exact_int [of 200]
    exact_int [of 1000] exact_int [of 60000] by simp_all

lemma rnd_ge: "exact c \<Longrightarrow> c \<le> x \<Longrightarrow> c \<le> rnd x"
  using rnd_mono [of c x] by (simp add: exact_def)

lemma rnd_le: "exact c \<Longrightarrow> x \<le> c \<Longrightarrow> rnd x \<le> c"
  using rnd_mono [of x c] by (simp add: exact_def)

lemma rnd_nonneg: "0 \<le> x \<Longrightarrow> 0 \<le> rnd x"
  by (rule rnd_ge) simp_all

text \<open>Adding something non-negative never loses ground, whatever the rounding.\<close>

lemma rnd_add_ge: "exact c \<Longrightarrow> 0 \<le> x \<Longrightarrow> c \<le> rnd (c + x)"
  by (rule rnd_ge) simp_all

text \<open>Sums of rounded non-negative numbers are non-negative.\<close>

lemma rnd_nonneg_sum: "0 \<le> x \<Longrightarrow> 0 \<le> y \<Longrightarrow> 0 \<le> rnd (rnd x + rnd y)"
  by (intro rnd_nonneg add_nonneg_nonneg) simp_all

end

lemma rnd64_mono:
  assumes "x \<le> y"
  shows "rnd64 x \<le> rnd64 y"
proof -
  consider "0 < x" | "x \<le> 0" "0 \<le> y" | "y < 0" by linarith
  then show ?thesis
  proof cases
    assume "0 < x"
    with rnd_pos_mono [OF this assms] assms show ?thesis by (simp add: rnd64_def)
  next
    assume "x \<le> 0" "0 \<le> y"
    then have "rnd64 x \<le> 0" "0 \<le> rnd64 y"
      using rnd_pos_nonneg [of y] rnd_pos_nonneg [of "- x"] by (auto simp: rnd64_def)
    then show ?thesis by simp
  next
    assume "y < 0"
    with rnd_pos_mono [of "- y" "- x"] assms show ?thesis by (simp add: rnd64_def)
  qed
qed

lemma rnd64_idem: "rnd64 (rnd64 x) = rnd64 x"
proof -
  consider "0 < x" | "x = 0" | "x < 0" by linarith
  then show ?thesis
  proof cases
    assume "0 < x"
    with rnd_pos_idem [OF this] show ?thesis by (auto simp: rnd64_def)
  next
    assume "x < 0"
    with rnd_pos_idem [of "- x"] show ?thesis by (auto simp: rnd64_def)
  qed (simp add: rnd64_def)
qed

lemma rnd64_int:
  assumes "\<bar>n\<bar> \<le> 2 ^ 53"
  shows "rnd64 (of_int n) = of_int n"
proof -
  consider "0 < n" | "n = 0" | "n < 0" by linarith
  then show ?thesis
  proof cases
    assume n: "0 < n"
    have "rnd_pos (of_int n) = of_int n"
      by (rule rnd_pos_exact [where m = n and k = 0]) (use n assms in simp_all)
    with n show ?thesis by (simp add: rnd64_def)
  next
    assume n: "n < 0"
    have "rnd_pos (- of_int n) = - of_int n"
      by (rule rnd_pos_exact [where m = "- n" and k = 0]) (use n assms in simp_all)
    with n show ?thesis by (simp add: rnd64_def)
  qed (simp add: rnd64_def)
qed

interpretation d64: rounding rnd64
  by unfold_locales (rule rnd64_mono rnd64_idem rnd64_int; assumption)+

lemma double_of_u64_nonneg: "0 \<le> double_of_u64 n"
  unfolding double_of_u64_def by (rule d64.rnd_nonneg) (rule of_nat_0_le_iff)

lemma double_of_u64_exact:
  assumes "unat n \<le> 2 ^ 53"
  shows "double_of_u64 n = of_nat (unat n)"
proof -
  have "\<bar>int (unat n)\<bar> \<le> 2 ^ 53"
    using assms by (metis abs_of_nat of_nat_le_iff of_nat_numeral of_nat_power)
  from rnd64_int [OF this] show ?thesis
    unfolding double_of_u64_def of_int_of_nat_eq .
qed

end
