(* ===== verification/Kronos_Ack.thy ===== *)
theory Kronos_Ack
  imports Kronos_Array Kronos_Double
begin

text \<open>
  The acknowledgement tracker of \<open>src/ack/ack_tracker.c\<close> with the structures of
  \<open>ack_internal.h\<close>: the frames that wait for an acknowledgement, their retransmission timeouts with
  exponential backoff, fast retransmit after three later acknowledgements, and giving up after
  \<open>max_retries\<close>.

  The theory proves what each operation does to the list of pending entries, an invariant of all
  reachable trackers by rule induction, that the number of retransmissions is bounded, and that an
  unacknowledged frame is eventually given up.
\<close>

section \<open>State\<close>

abbreviation (input) KRS_FAST_RETRANSMIT_THRESHOLD :: u8 where "KRS_FAST_RETRANSMIT_THRESHOLD \<equiv> 3"
abbreviation (input) KRS_ACK_RTO_BACKOFF_MAX_MS :: u32 where "KRS_ACK_RTO_BACKOFF_MAX_MS \<equiv> 60000"

record ack_entry =
  ae_packet_id :: u64
  ae_frame_data :: "bytes option"
  ae_frame_size :: u16
  ae_timestamp_ms :: u64
  ae_retry_count :: u8
  ae_acked_after_count :: u8
  ae_channel :: u8

record ack_tracker =
  at_pending :: "ack_entry krs_array"
  at_timeout_ms :: u32
  at_max_retries :: u8
  at_fast_retransmit_enabled :: bool

definition krs_ack_tracker_create ::
    "bool \<Rightarrow> bool \<Rightarrow> ack_entry cells \<Rightarrow> u32 \<Rightarrow> u8 \<Rightarrow> ack_tracker option" where
  "krs_ack_tracker_create alloc array_alloc cells timeout_ms max_retries =
     (if \<not> alloc then None
      else case krs_array_create array_alloc cells 8 of
             None \<Rightarrow> None
           | Some a \<Rightarrow> Some \<lparr>at_pending = a, at_timeout_ms = timeout_ms, at_max_retries = max_retries,
                            at_fast_retransmit_enabled = True\<rparr>)"

text \<open>The entries released and the tracker pointer.\<close>

definition krs_ack_tracker_destroy ::
    "ack_tracker option \<Rightarrow> (ack_entry list \<times> ack_tracker option) option" where
  "krs_ack_tracker_destroy tracker =
     (case tracker of
        None \<Rightarrow> Some ([], None)
      | Some t \<Rightarrow> do { (ds, p) \<leftarrow> krs_array_destroy_items (Some (at_pending t)) True; Some (ds, None) })"

section \<open>Expecting an acknowledgement\<close>

text \<open>The three allocations: the entry, the copy of the frame, the growth of the array.\<close>

record expect_alloc =
  ea_entry :: bool
  ea_data :: "(nat \<Rightarrow> u8) option"
  ea_push :: "ack_entry cells"

definition krs_ack_tracker_expect ::
    "expect_alloc \<Rightarrow> u64 \<Rightarrow> ack_tracker option \<Rightarrow> u64 \<Rightarrow> u8 \<Rightarrow> bytes option \<Rightarrow> u16 \<Rightarrow>
     ack_tracker option option" where
  "krs_ack_tracker_expect al now tracker packet_id channel frame_data frame_size =
     (case tracker of
        None \<Rightarrow> Some None
      | Some t \<Rightarrow>
          if \<not> ea_entry al then Some tracker
          else
            let add = (\<lambda>copy. do {
                  (r, p) \<leftarrow> krs_array_push (ea_push al) (Some (at_pending t))
                    (Some \<lparr>ae_packet_id = packet_id, ae_frame_data = copy, ae_frame_size = frame_size,
                           ae_timestamp_ms = now, ae_retry_count = 0, ae_acked_after_count = 0,
                           ae_channel = channel\<rparr>);
                  a \<leftarrow> p;
                  Some (Some (t\<lparr>at_pending := a\<rparr>)) })
            in case frame_data of
                 Some d \<Rightarrow>
                   if frame_size > 0 then
                     (case ea_data al of
                        None \<Rightarrow> Some tracker
                      | Some junk \<Rightarrow> do {
                          bs \<leftarrow> mem_read d 0 (unat frame_size);
                          copy \<leftarrow> mem_write (map junk [0..<unat frame_size]) 0 bs;
                          add (Some copy) })
                   else add None
               | None \<Rightarrow> add None)"

section \<open>Receiving an acknowledgement\<close>

definition observe_entry :: "u64 \<Rightarrow> u8 \<Rightarrow> ack_entry \<Rightarrow> ack_entry" where
  "observe_entry acked_packet_id channel entry =
     (if ae_channel entry \<noteq> channel then entry
      else if ae_packet_id entry < acked_packet_id
      then if ae_acked_after_count entry < 255
           then entry\<lparr>ae_acked_after_count := ae_acked_after_count entry + 1\<rparr> else entry
      else entry)"

definition s_record_ack_observation :: "ack_tracker \<Rightarrow> u64 \<Rightarrow> u8 \<Rightarrow> ack_tracker option" where
  "s_record_ack_observation t acked_packet_id channel =
     (if \<not> at_fast_retransmit_enabled t then Some t
      else do { a \<leftarrow> update_loop array_at krs_array_poke (observe_entry acked_packet_id channel)
                       (at_pending t) 0 (unat (krs_array_length (Some (at_pending t))));
                Some (t\<lparr>at_pending := a\<rparr>) })"

definition ack_matches :: "u64 \<Rightarrow> u8 \<Rightarrow> ack_entry \<Rightarrow> bool" where
  "ack_matches acked_packet_id channel entry \<longleftrightarrow>
     ae_packet_id entry = acked_packet_id \<and> ae_channel entry = channel"

definition krs_ack_tracker_receive ::
    "ack_tracker option \<Rightarrow> u64 \<Rightarrow> u8 \<Rightarrow> ack_tracker option option" where
  "krs_ack_tracker_receive tracker acked_packet_id channel =
     (case tracker of
        None \<Rightarrow> Some None
      | Some t \<Rightarrow> do {
          t1 \<leftarrow> s_record_ack_observation t acked_packet_id channel;
          (a, _) \<leftarrow> sweep_loop array_at krs_array_poke array_drop
            (\<lambda>entry _. if ack_matches acked_packet_id channel entry then (None, ()) else (Some entry, ()))
            (unat (krs_array_length (Some (at_pending t1)))) (at_pending t1) ();
          Some (Some (t1\<lparr>at_pending := a\<rparr>)) })"

text \<open>The round trip time is the \<open>double\<close> -1 when no entry matched.\<close>

definition krs_ack_tracker_receive_rtt ::
    "u64 \<Rightarrow> ack_tracker option \<Rightarrow> u64 \<Rightarrow> u8 \<Rightarrow> (rat \<times> ack_tracker option) option" where
  "krs_ack_tracker_receive_rtt now tracker acked_packet_id channel =
     (case tracker of
        None \<Rightarrow> Some (- 1, None)
      | Some t \<Rightarrow> do {
          t1 \<leftarrow> s_record_ack_observation t acked_packet_id channel;
          (a, rtt_ms) \<leftarrow> sweep_loop array_at krs_array_poke array_drop
            (\<lambda>entry rtt_ms.
               if ack_matches acked_packet_id channel entry
               then (None, if rtt_ms < 0 then double_of_u64 (now - ae_timestamp_ms entry) else rtt_ms)
               else (Some entry, rtt_ms))
            (unat (krs_array_length (Some (at_pending t1)))) (at_pending t1) (- 1);
          Some (rtt_ms, Some (t1\<lparr>at_pending := a\<rparr>)) })"

section \<open>Timeouts\<close>

text \<open>
  What one call reports. A null output array drops its component; \<open>ro_entry\<close> is the entry a
  pointer in \<open>retry_entries_out\<close> leads to when the call returns.
\<close>

record retry_out =
  ro_id :: u64
  ro_channel :: u8
  ro_entry :: ack_entry
  ro_was_fast :: bool

record timeouts_out =
  to_retry_count :: u32
  to_retries :: "retry_out list"
  to_dropped_count :: u32
  to_dropped :: "(u64 \<times> u8) list"

definition timeouts_zero :: timeouts_out where
  "timeouts_zero = \<lparr>to_retry_count = 0, to_retries = [], to_dropped_count = 0, to_dropped = []\<rparr>"

definition fast_retransmit_due :: "ack_tracker \<Rightarrow> ack_entry \<Rightarrow> bool" where
  "fast_retransmit_due t entry \<longleftrightarrow>
     at_fast_retransmit_enabled t \<and> ae_acked_after_count entry \<ge> KRS_FAST_RETRANSMIT_THRESHOLD"

definition effective_timeout_ms :: "ack_tracker \<Rightarrow> ack_entry \<Rightarrow> u32" where
  "effective_timeout_ms t entry =
     (if ae_retry_count entry > 0 then
        let shift = (if ae_retry_count entry > 6 then 6 else unat (ae_retry_count entry));
            backed_off = push_bit shift (ucast (at_timeout_ms t)) :: u64
        in if backed_off > ucast KRS_ACK_RTO_BACKOFF_MAX_MS then KRS_ACK_RTO_BACKOFF_MAX_MS
           else ucast backed_off
      else at_timeout_ms t)"

definition timeout_due :: "u64 \<Rightarrow> ack_tracker \<Rightarrow> ack_entry \<Rightarrow> bool" where
  "timeout_due now t entry \<longleftrightarrow> now - ae_timestamp_ms entry \<ge> ucast (effective_timeout_ms t entry)"

text \<open>The body of the loop, for the capacities of the two groups of output arrays.\<close>

definition check_entry ::
    "u64 \<Rightarrow> ack_tracker \<Rightarrow> u32 \<Rightarrow> bool \<Rightarrow> u32 \<Rightarrow> ack_entry \<Rightarrow> timeouts_out \<Rightarrow>
     ack_entry option \<times> timeouts_out" where
  "check_entry now t out_capacity has_dropped_ids dropped_capacity entry out =
     (if \<not> fast_retransmit_due t entry \<and> \<not> timeout_due now t entry then (Some entry, out)
      else if ae_retry_count entry \<ge> at_max_retries t then
        (None,
         if has_dropped_ids \<and> to_dropped_count out < dropped_capacity
         then out\<lparr>to_dropped := to_dropped out @ [(ae_packet_id entry, ae_channel entry)],
                  to_dropped_count := to_dropped_count out + 1\<rparr>
         else out)
      else
        let entry' = entry\<lparr>ae_retry_count := ae_retry_count entry + 1, ae_timestamp_ms := now,
                           ae_acked_after_count := 0\<rparr>
        in (Some entry',
            (if to_retry_count out < out_capacity
             then out\<lparr>to_retries := to_retries out @
                        [\<lparr>ro_id = ae_packet_id entry, ro_channel = ae_channel entry, ro_entry = entry',
                          ro_was_fast = fast_retransmit_due t entry\<rparr>]\<rparr>
             else out)\<lparr>to_retry_count := to_retry_count out + 1\<rparr>))"

definition krs_ack_tracker_check_timeouts ::
    "u64 \<Rightarrow> ack_tracker option \<Rightarrow> bool \<Rightarrow> u32 \<Rightarrow> bool \<Rightarrow> u32 \<Rightarrow>
     (timeouts_out \<times> ack_tracker option) option" where
  "krs_ack_tracker_check_timeouts now tracker has_retry_ids out_capacity has_dropped_ids
       dropped_capacity =
     (case tracker of
        None \<Rightarrow> Some (timeouts_zero, None)
      | Some t \<Rightarrow>
          if \<not> has_retry_ids then Some (timeouts_zero, tracker)
          else do {
            (a, out) \<leftarrow> sweep_loop array_at krs_array_poke array_drop
              (check_entry now t out_capacity has_dropped_ids dropped_capacity)
              (unat (krs_array_length (Some (at_pending t)))) (at_pending t) timeouts_zero;
            Some (out, Some (t\<lparr>at_pending := a\<rparr>)) })"

section \<open>Frames to resend, settings\<close>

text \<open>The frame to send again and its size.\<close>

definition krs_ack_tracker_get_retry_frame ::
    "ack_tracker option \<Rightarrow> u64 \<Rightarrow> (bytes option \<times> u16) option" where
  "krs_ack_tracker_get_retry_frame tracker packet_id =
     (case tracker of
        None \<Rightarrow> Some (None, 0)
      | Some t \<Rightarrow> do {
          found \<leftarrow> find_loop array_at
            (\<lambda>e. ae_packet_id e = packet_id \<and> \<not> (ae_frame_data e = None \<or> ae_frame_size e = 0))
            (at_pending t) 0 (unat (krs_array_length (Some (at_pending t))));
          case found of
            None \<Rightarrow> Some (None, 0)
          | Some i \<Rightarrow> do { p \<leftarrow> array_at (at_pending t) i;
                          e \<leftarrow> p;
                          Some (ae_frame_data e, ae_frame_size e) } })"

definition krs_ack_tracker_get_retry_frame_for_entry :: "ack_entry option \<Rightarrow> bytes option \<times> u16" where
  "krs_ack_tracker_get_retry_frame_for_entry entry =
     (case entry of
        None \<Rightarrow> (None, 0)
      | Some e \<Rightarrow> if ae_frame_data e = None \<or> ae_frame_size e = 0 then (None, 0)
                  else (ae_frame_data e, ae_frame_size e))"

definition krs_ack_tracker_set_timeout :: "ack_tracker option \<Rightarrow> u32 \<Rightarrow> ack_tracker option" where
  "krs_ack_tracker_set_timeout tracker timeout_ms =
     map_option (\<lambda>t. t\<lparr>at_timeout_ms := (if timeout_ms < 50 then 50 else timeout_ms)\<rparr>) tracker"

definition krs_ack_tracker_set_fast_retransmit_enabled ::
    "ack_tracker option \<Rightarrow> bool \<Rightarrow> ack_tracker option" where
  "krs_ack_tracker_set_fast_retransmit_enabled tracker enabled =
     map_option (\<lambda>t. t\<lparr>at_fast_retransmit_enabled := enabled\<rparr>) tracker"

definition krs_ack_tracker_is_fast_retransmit_enabled :: "ack_tracker option \<Rightarrow> bool" where
  "krs_ack_tracker_is_fast_retransmit_enabled tracker =
     (case tracker of None \<Rightarrow> False | Some t \<Rightarrow> at_fast_retransmit_enabled t)"

section \<open>Lemmas\<close>

abbreviation pending_entries :: "ack_tracker \<Rightarrow> ack_entry list" where
  "pending_entries t \<equiv> arr_vals (at_pending t)"

lemma pending_length:
  "arr_ok (at_pending t) \<Longrightarrow> unat (krs_array_length (Some (at_pending t))) = length (pending_entries t)"
  by (simp add: krs_array_length_def length_arr_vals)

lemma observation_pending:
  assumes "arr_ok (at_pending t)"
  obtains a where "s_record_ack_observation t pid ch = Some (t\<lparr>at_pending := a\<rparr>)" and "arr_ok a"
    and "arr_vals a =
      (if at_fast_retransmit_enabled t then map (observe_entry pid ch) (pending_entries t)
       else pending_entries t)"
proof (cases "at_fast_retransmit_enabled t")
  case True
  obtain a where a: "update_loop array_at krs_array_poke (observe_entry pid ch) (at_pending t) 0
      (length (pending_entries t)) = Some a" "arr_ok a"
      "arr_vals a = map (observe_entry pid ch) (pending_entries t)"
    using kra.update_all [OF assms refl] by blast
  with True that [of a] show thesis
    by (simp add: s_record_ack_observation_def pending_length [OF assms])
next
  case False
  with assms that [of "at_pending t"] show thesis by (simp add: s_record_ack_observation_def)
qed

lemma observe_entry_matches: "ack_matches p c (observe_entry pid ch e) = ack_matches p c e"
  by (simp add: observe_entry_def ack_matches_def)

lemma observe_entry_fields [simp]:
  "ae_packet_id (observe_entry pid ch e) = ae_packet_id e"
  "ae_channel (observe_entry pid ch e) = ae_channel e"
  "ae_timestamp_ms (observe_entry pid ch e) = ae_timestamp_ms e"
  "ae_retry_count (observe_entry pid ch e) = ae_retry_count e"
  "ae_frame_data (observe_entry pid ch e) = ae_frame_data e"
  "ae_frame_size (observe_entry pid ch e) = ae_frame_size e"
  by (simp_all add: observe_entry_def)

lemma observe_entry_count:
  "unat (ae_acked_after_count (observe_entry pid ch e)) =
     (if ae_channel e = ch \<and> ae_packet_id e < pid
      then min 255 (Suc (unat (ae_acked_after_count e))) else unat (ae_acked_after_count e))"
proof -
  have "unat (c + 1) = Suc (unat c)" if "c < 255" for c :: u8
    using that by (subst unat_add_no_wrap) (simp_all add: word_less_nat_alt)
  moreover have "unat c = 255" if "\<not> c < 255" for c :: u8
    using that unat_less_power_u8 [of c] by (simp add: word_less_nat_alt)
  ultimately show ?thesis by (auto simp: observe_entry_def word_less_nat_alt)
qed

subsection \<open>Acknowledgements\<close>

lemma sweep_unit_filter:
  "sweep_list (\<lambda>e _. if P e then (None, ()) else (Some e, ())) vs () = (filter (\<lambda>e. \<not> P e) vs, ())"
  by (induction vs) auto

text \<open>The pending entries after an acknowledgement: observed, then without those it matches.\<close>

definition after_ack :: "bool \<Rightarrow> u64 \<Rightarrow> u8 \<Rightarrow> ack_entry list \<Rightarrow> ack_entry list" where
  "after_ack enabled pid ch es =
     map (if enabled then observe_entry pid ch else id) (filter (\<lambda>e. \<not> ack_matches pid ch e) es)"

lemma after_ack_alt:
  "after_ack enabled pid ch es =
     filter (\<lambda>e. \<not> ack_matches pid ch e) (if enabled then map (observe_entry pid ch) es else es)"
  by (simp add: after_ack_def filter_map comp_def observe_entry_matches)

lemma receive_pending:
  assumes "arr_ok (at_pending t)"
  shows "\<exists>a. krs_ack_tracker_receive (Some t) pid ch = Some (Some (t\<lparr>at_pending := a\<rparr>)) \<and> arr_ok a \<and>
           arr_vals a = after_ack (at_fast_retransmit_enabled t) pid ch (pending_entries t)"
proof -
  obtain a where a: "s_record_ack_observation t pid ch = Some (t\<lparr>at_pending := a\<rparr>)" "arr_ok a"
      "arr_vals a = (if at_fast_retransmit_enabled t then map (observe_entry pid ch) (pending_entries t)
         else pending_entries t)"
    using observation_pending [OF assms] .
  have len: "unat (krs_array_length (Some a)) = length (arr_vals a)"
    by (simp add: krs_array_length_def length_arr_vals [OF a(2)])
  let ?step = "\<lambda>e _. if ack_matches pid ch e then (None, ()) else (Some e, ())"
  obtain b where b: "sweep_loop array_at krs_array_poke array_drop ?step (length (arr_vals a)) a () = Some (b, ())"
      "arr_ok b" "arr_vals b = filter (\<lambda>e. \<not> ack_matches pid ch e) (arr_vals a)"
    using kra.sweep_all [OF a(2) refl, of ?step "()"] by (auto simp: sweep_unit_filter)
  with a(1) have "krs_ack_tracker_receive (Some t) pid ch = Some (Some (t\<lparr>at_pending := b\<rparr>))"
    by (simp add: krs_ack_tracker_receive_def len)
  with a(3) b(2,3) show ?thesis by (auto simp: after_ack_alt)
qed

definition rtt_of :: "u64 \<Rightarrow> u64 \<Rightarrow> u8 \<Rightarrow> ack_entry list \<Rightarrow> rat" where
  "rtt_of now pid ch es =
     (if filter (ack_matches pid ch) es = [] then - 1
      else double_of_u64 (now - ae_timestamp_ms (last (filter (ack_matches pid ch) es))))"

lemma rtt_of_neg: "rtt_of now pid ch es < 0 \<longleftrightarrow> filter (ack_matches pid ch) es = []"
  using double_of_u64_nonneg by (auto simp: rtt_of_def not_less)

lemma sweep_rtt:
  "sweep_list (\<lambda>e r. if ack_matches pid ch e
        then (None, if r < 0 then double_of_u64 (now - ae_timestamp_ms e) else r) else (Some e, r))
     es (- 1) = (filter (\<lambda>e. \<not> ack_matches pid ch e) es, rtt_of now pid ch es)"
proof (induction es)
  case (Cons e es)
  then show ?case
    using rtt_of_neg [of now pid ch es] by (auto simp: rtt_of_def)
qed (simp add: rtt_of_def)

lemma rtt_of_observed: "rtt_of now pid ch (map (observe_entry p c) es) = rtt_of now pid ch es"
  by (simp add: rtt_of_def filter_map comp_def observe_entry_matches last_map)

lemma receive_rtt_pending:
  assumes "arr_ok (at_pending t)"
  shows "\<exists>a. krs_ack_tracker_receive_rtt now (Some t) pid ch =
             Some (rtt_of now pid ch (pending_entries t), Some (t\<lparr>at_pending := a\<rparr>)) \<and> arr_ok a \<and>
           arr_vals a = after_ack (at_fast_retransmit_enabled t) pid ch (pending_entries t)"
proof -
  obtain a where a: "s_record_ack_observation t pid ch = Some (t\<lparr>at_pending := a\<rparr>)" "arr_ok a"
      "arr_vals a = (if at_fast_retransmit_enabled t then map (observe_entry pid ch) (pending_entries t)
         else pending_entries t)"
    using observation_pending [OF assms] .
  have len: "unat (krs_array_length (Some a)) = length (arr_vals a)"
    by (simp add: krs_array_length_def length_arr_vals [OF a(2)])
  let ?step = "\<lambda>e r. if ack_matches pid ch e
      then (None, if r < 0 then double_of_u64 (now - ae_timestamp_ms e) else r) else (Some e, r)"
  obtain b where b: "sweep_loop array_at krs_array_poke array_drop ?step (length (arr_vals a)) a (- 1) =
        Some (b, rtt_of now pid ch (arr_vals a))"
      "arr_ok b" "arr_vals b = filter (\<lambda>e. \<not> ack_matches pid ch e) (arr_vals a)"
    using kra.sweep_all [OF a(2) refl, of ?step "- 1"] by (auto simp: sweep_rtt)
  with a(1) have "krs_ack_tracker_receive_rtt now (Some t) pid ch =
      Some (rtt_of now pid ch (arr_vals a), Some (t\<lparr>at_pending := b\<rparr>))"
    by (simp add: krs_ack_tracker_receive_rtt_def len)
  with a(3) b(2,3) show ?thesis by (auto simp: after_ack_alt rtt_of_observed)
qed

subsection \<open>Timeouts\<close>

definition entry_due :: "u64 \<Rightarrow> ack_tracker \<Rightarrow> ack_entry \<Rightarrow> bool" where
  "entry_due now t e \<longleftrightarrow> fast_retransmit_due t e \<or> timeout_due now t e"

definition retried :: "u64 \<Rightarrow> ack_tracker \<Rightarrow> ack_entry \<Rightarrow> bool" where
  "retried now t e \<longleftrightarrow> entry_due now t e \<and> ae_retry_count e < at_max_retries t"

definition given_up :: "u64 \<Rightarrow> ack_tracker \<Rightarrow> ack_entry \<Rightarrow> bool" where
  "given_up now t e \<longleftrightarrow> entry_due now t e \<and> at_max_retries t \<le> ae_retry_count e"

definition bump_entry :: "u64 \<Rightarrow> ack_entry \<Rightarrow> ack_entry" where
  "bump_entry now e = e\<lparr>ae_retry_count := ae_retry_count e + 1, ae_timestamp_ms := now,
     ae_acked_after_count := 0\<rparr>"

definition retry_report :: "u64 \<Rightarrow> ack_tracker \<Rightarrow> ack_entry \<Rightarrow> retry_out" where
  "retry_report now t e = \<lparr>ro_id = ae_packet_id e, ro_channel = ae_channel e,
     ro_entry = bump_entry now e, ro_was_fast = fast_retransmit_due t e\<rparr>"

text \<open>What happens to the entries, and what is reported, in the order of the loop.\<close>

definition after_check :: "u64 \<Rightarrow> ack_tracker \<Rightarrow> ack_entry list \<Rightarrow> ack_entry list" where
  "after_check now t es =
     map (\<lambda>e. if retried now t e then bump_entry now e else e) (filter (\<lambda>e. \<not> given_up now t e) es)"

definition retry_list :: "u64 \<Rightarrow> ack_tracker \<Rightarrow> ack_entry list \<Rightarrow> retry_out list" where
  "retry_list now t es = map (retry_report now t) (filter (retried now t) (rev es))"

definition dropped_list :: "u64 \<Rightarrow> ack_tracker \<Rightarrow> ack_entry list \<Rightarrow> (u64 \<times> u8) list" where
  "dropped_list now t es =
     map (\<lambda>e. (ae_packet_id e, ae_channel e)) (filter (given_up now t) (rev es))"

lemma check_entry_cases:
  "check_entry now t cap want dcap e out =
     (if given_up now t e then
        (None, if want \<and> to_dropped_count out < dcap
               then out\<lparr>to_dropped := to_dropped out @ [(ae_packet_id e, ae_channel e)],
                        to_dropped_count := to_dropped_count out + 1\<rparr> else out)
      else if retried now t e then
        (Some (bump_entry now e),
         (if to_retry_count out < cap
          then out\<lparr>to_retries := to_retries out @ [retry_report now t e]\<rparr> else out)
            \<lparr>to_retry_count := to_retry_count out + 1\<rparr>)
      else (Some e, out))"
  by (auto simp: check_entry_def given_up_def retried_def entry_due_def bump_entry_def
      retry_report_def Let_def not_less)

lemma unat_Suc32: "unat (n :: u32) + 1 < 4294967296 \<Longrightarrow> unat (n + 1) = Suc (unat n)"
  by (subst unat_add_no_wrap) simp_all

lemma sweep_check:
  assumes "unat (to_retry_count out) + length es < 4294967296"
    and "unat (to_dropped_count out) + length es < 4294967296"
    and "to_dropped_count out \<le> dcap"
  shows "\<exists>out'. sweep_list (check_entry now t cap want dcap) es out = (after_check now t es, out') \<and>
    unat (to_retry_count out') = unat (to_retry_count out) + length (retry_list now t es) \<and>
    to_retries out' = to_retries out @
      take (unat cap - unat (to_retry_count out)) (retry_list now t es) \<and>
    to_dropped out' = to_dropped out @
      (if want then take (unat dcap - unat (to_dropped_count out)) (dropped_list now t es) else []) \<and>
    unat (to_dropped_count out') = unat (to_dropped_count out) +
      (if want then min (unat dcap - unat (to_dropped_count out)) (length (dropped_list now t es)) else 0)"
  using assms
proof (induction es arbitrary: out rule: rev_induct)
  case Nil
  then show ?case by (simp add: after_check_def retry_list_def dropped_list_def)
next
  case (snoc e es)
  obtain k out1 where step: "check_entry now t cap want dcap e out = (k, out1)" by fastforce
  have r1: "unat (to_retry_count out + 1) = Suc (unat (to_retry_count out))"
    and d1: "unat (to_dropped_count out + 1) = Suc (unat (to_dropped_count out))"
    using snoc.prems(1,2) by (simp_all add: unat_Suc32)
  consider (up) "given_up now t e" "\<not> retried now t e" | (re) "retried now t e" "\<not> given_up now t e"
    | (keep) "\<not> given_up now t e" "\<not> retried now t e"
    unfolding given_up_def retried_def by (meson not_le)
  then show ?case
  proof cases
    case up
    show ?thesis
    proof (cases "want \<and> to_dropped_count out < dcap")
      case True
      then have out1: "k = None" "out1 = out\<lparr>to_dropped := to_dropped out @ [(ae_packet_id e, ae_channel e)],
          to_dropped_count := to_dropped_count out + 1\<rparr>"
        using step up by (simp_all add: check_entry_cases)
      have room: "unat dcap - unat (to_dropped_count out) =
          Suc (unat dcap - Suc (unat (to_dropped_count out)))"
        using True by (simp add: word_less_nat_alt Suc_diff_Suc)
      have "unat (to_retry_count out1) + length es < 4294967296"
        "unat (to_dropped_count out1) + length es < 4294967296" "to_dropped_count out1 \<le> dcap"
        using snoc.prems out1 d1 True by (simp_all add: word_le_nat_alt word_less_nat_alt)
      from snoc.IH [OF this] up True out1 step room d1 show ?thesis
        by (auto simp: sweep_list_snoc after_check_def retry_list_def dropped_list_def)
    next
      case False
      then have out1: "k = None" "out1 = out" using step up by (auto simp: check_entry_cases)
      have none: "want \<Longrightarrow> unat dcap - unat (to_dropped_count out) = 0"
        using False by (auto simp: word_less_nat_alt)
      have "unat (to_retry_count out1) + length es < 4294967296"
        "unat (to_dropped_count out1) + length es < 4294967296" "to_dropped_count out1 \<le> dcap"
        using snoc.prems out1 by simp_all
      from snoc.IH [OF this] up out1 step none show ?thesis
        by (cases want) (auto simp: sweep_list_snoc after_check_def retry_list_def dropped_list_def)
    qed
  next
    case re
    then have out1: "k = Some (bump_entry now e)" "out1 =
        (if to_retry_count out < cap then out\<lparr>to_retries := to_retries out @ [retry_report now t e]\<rparr> else out)
          \<lparr>to_retry_count := to_retry_count out + 1\<rparr>"
      using step by (simp_all add: check_entry_cases)
    have "unat (to_retry_count out1) + length es < 4294967296"
      "unat (to_dropped_count out1) + length es < 4294967296" "to_dropped_count out1 \<le> dcap"
      using snoc.prems out1 r1 by simp_all
    note IH = snoc.IH [OF this]
    show ?thesis
    proof (cases "to_retry_count out < cap")
      case True
      then have "unat cap - unat (to_retry_count out) = Suc (unat cap - Suc (unat (to_retry_count out)))"
        by (simp add: word_less_nat_alt)
      with IH re out1 step r1 True show ?thesis
        by (auto simp: sweep_list_snoc after_check_def retry_list_def dropped_list_def)
    next
      case False
      then have "unat cap - unat (to_retry_count out) = 0" by (simp add: word_less_nat_alt)
      with IH re out1 step r1 False show ?thesis
        by (auto simp: sweep_list_snoc after_check_def retry_list_def dropped_list_def)
    qed
  next
    case keep
    then have "k = Some e" "out1 = out" using step by (simp_all add: check_entry_cases)
    moreover have "unat (to_retry_count out) + length es < 4294967296"
      "unat (to_dropped_count out) + length es < 4294967296"
      using snoc.prems by simp_all
    ultimately show ?thesis
      using snoc.IH [of out] snoc.prems(3) keep step
      by (auto simp: sweep_list_snoc after_check_def retry_list_def dropped_list_def)
  qed
qed

lemma check_timeouts_pending:
  assumes "arr_ok (at_pending t)"
  shows "\<exists>out a. krs_ack_tracker_check_timeouts now (Some t) True cap want dcap =
      Some (out, Some (t\<lparr>at_pending := a\<rparr>)) \<and> arr_ok a \<and>
    arr_vals a = after_check now t (pending_entries t) \<and>
    unat (to_retry_count out) = length (retry_list now t (pending_entries t)) \<and>
    to_retries out = take (unat cap) (retry_list now t (pending_entries t)) \<and>
    to_dropped out = (if want then take (unat dcap) (dropped_list now t (pending_entries t)) else []) \<and>
    unat (to_dropped_count out) = length (to_dropped out)"
proof -
  have len: "length (pending_entries t) < 4294967296"
    using length_arr_vals [OF assms] unat_less_power_u32 by simp
  obtain out where out: "sweep_list (check_entry now t cap want dcap) (pending_entries t) timeouts_zero =
        (after_check now t (pending_entries t), out)"
      "unat (to_retry_count out) = length (retry_list now t (pending_entries t))"
      "to_retries out = take (unat cap) (retry_list now t (pending_entries t))"
      "to_dropped out = (if want then take (unat dcap) (dropped_list now t (pending_entries t)) else [])"
      "unat (to_dropped_count out) =
        (if want then min (unat dcap) (length (dropped_list now t (pending_entries t))) else 0)"
    using sweep_check [of timeouts_zero "pending_entries t" dcap now t cap want] len
    by (auto simp: timeouts_zero_def)
  obtain a where "sweep_loop array_at krs_array_poke array_drop (check_entry now t cap want dcap)
      (length (pending_entries t)) (at_pending t) timeouts_zero = Some (a, out)"
      "arr_ok a" "arr_vals a = after_check now t (pending_entries t)"
    using kra.sweep_all [OF assms refl, of "check_entry now t cap want dcap" timeouts_zero] out(1) by auto
  with out show ?thesis
    by (auto simp: krs_ack_tracker_check_timeouts_def pending_length [OF assms])
qed

subsection \<open>The invariant\<close>

definition entry_ok :: "u8 \<Rightarrow> ack_entry \<Rightarrow> bool" where
  "entry_ok max_retries e \<longleftrightarrow> ae_retry_count e \<le> max_retries \<and>
     (case ae_frame_data e of
        None \<Rightarrow> True | Some d \<Rightarrow> length d = unat (ae_frame_size e) \<and> ae_frame_size e > 0)"

definition ack_wf :: "ack_tracker \<Rightarrow> bool" where
  "ack_wf t \<longleftrightarrow> arr_ok (at_pending t) \<and> (\<forall>e \<in> set (pending_entries t). entry_ok (at_max_retries t) e)"

lemma entry_okD:
  "entry_ok m e \<Longrightarrow> ae_retry_count e \<le> m"
  "entry_ok m e \<Longrightarrow> ae_frame_data e = Some d \<Longrightarrow> length d = unat (ae_frame_size e)"
  by (simp_all add: entry_ok_def)

lemma ack_wfD:
  assumes "ack_wf t"
  shows "arr_ok (at_pending t)" and "\<And>e. e \<in> set (pending_entries t) \<Longrightarrow> entry_ok (at_max_retries t) e"
  using assms by (simp_all add: ack_wf_def)

lemma entry_ok_observe: "entry_ok m (observe_entry pid ch e) = entry_ok m e"
  by (simp add: entry_ok_def split: option.split)

lemma after_ack_ok:
  "\<forall>e \<in> set es. entry_ok m e \<Longrightarrow> \<forall>e \<in> set (after_ack enabled pid ch es). entry_ok m e"
  by (auto simp: after_ack_def entry_ok_observe)

lemma bump_entry_count: "ae_retry_count e < m \<Longrightarrow> unat (ae_retry_count (bump_entry now e)) = Suc (unat (ae_retry_count e))"
  using unat_less_power_u8 [of m]
  by (simp add: bump_entry_def) (subst unat_add_no_wrap; simp add: word_less_nat_alt)

lemma bump_entry_ok:
  assumes "entry_ok m e" and "ae_retry_count e < m"
  shows "entry_ok m (bump_entry now e)"
  using assms bump_entry_count [OF assms(2), of now]
  by (auto simp: entry_ok_def word_le_nat_alt word_less_nat_alt bump_entry_def split: option.splits)

lemma after_check_ok:
  "\<forall>e \<in> set es. entry_ok (at_max_retries t) e \<Longrightarrow>
     \<forall>e \<in> set (after_check now t es). entry_ok (at_max_retries t) e"
  by (auto simp: after_check_def retried_def bump_entry_ok)

lemma receive_wf:
  assumes "ack_wf t" and "krs_ack_tracker_receive (Some t) pid ch = Some (Some t')"
  shows "ack_wf t'"
  using receive_pending [of t pid ch] assms after_ack_ok
  by (auto simp: ack_wf_def)

lemma receive_rtt_wf:
  assumes "ack_wf t" and "krs_ack_tracker_receive_rtt now (Some t) pid ch = Some (r, Some t')"
  shows "ack_wf t'"
  using receive_rtt_pending [of t now pid ch] assms after_ack_ok
  by (auto simp: ack_wf_def)

lemma check_timeouts_wf:
  assumes "ack_wf t" and "krs_ack_tracker_check_timeouts now (Some t) wr cap want dcap = Some (out, Some t')"
  shows "ack_wf t'"
proof (cases wr)
  case True
  have ok: "\<forall>e \<in> set (after_check now t (pending_entries t)). entry_ok (at_max_retries t) e"
    using assms(1) after_check_ok by (auto simp: ack_wf_def)
  with check_timeouts_pending [of t now cap want dcap] assms True show ?thesis
    by (auto simp: ack_wf_def)
qed (use assms in \<open>simp add: krs_ack_tracker_check_timeouts_def\<close>)

lemma create_wf:
  assumes "krs_ack_tracker_create al aal cells to mr = Some t"
  shows "ack_wf t" and "pending_entries t = []" and "at_max_retries t = mr" and "at_timeout_ms t = to"
proof -
  obtain a where a: "krs_array_create aal cells 8 = Some a" "at_pending t = a"
      "at_max_retries t = mr" "at_timeout_ms t = to"
    using assms by (auto simp: krs_ack_tracker_create_def split: if_splits option.splits)
  from create_vals [OF a(1)] a(2-4)
  show "ack_wf t" "pending_entries t = []" "at_max_retries t = mr" "at_timeout_ms t = to"
    by (simp_all add: ack_wf_def)
qed

text \<open>The entry an \<open>expect\<close> call adds.\<close>

definition new_entry :: "u64 \<Rightarrow> u64 \<Rightarrow> u8 \<Rightarrow> bytes option \<Rightarrow> u16 \<Rightarrow> ack_entry" where
  "new_entry now pid ch data sz =
     \<lparr>ae_packet_id = pid,
      ae_frame_data = (case data of None \<Rightarrow> None | Some d \<Rightarrow> if sz > 0 then Some (take (unat sz) d) else None),
      ae_frame_size = sz, ae_timestamp_ms = now, ae_retry_count = 0, ae_acked_after_count = 0,
      ae_channel = ch\<rparr>"

lemma new_entry_simps [simp]:
  "ae_packet_id (new_entry now pid ch data sz) = pid" "ae_channel (new_entry now pid ch data sz) = ch"
  "ae_timestamp_ms (new_entry now pid ch data sz) = now" "ae_retry_count (new_entry now pid ch data sz) = 0"
  "ae_acked_after_count (new_entry now pid ch data sz) = 0" "ae_frame_size (new_entry now pid ch data sz) = sz"
  by (simp_all add: new_entry_def)

definition expect_alloc_ok :: "expect_alloc \<Rightarrow> bool" where
  "expect_alloc_ok al \<longleftrightarrow> ea_entry al \<and> ea_data al \<noteq> None \<and> ea_push al \<noteq> None"

lemma expect_cases:
  assumes ok: "arr_ok (at_pending t)" and len: "length (pending_entries t) < 2 ^ 31"
    and src: "\<forall>d. data = Some d \<longrightarrow> unat sz \<le> length d"
  obtains a where "krs_ack_tracker_expect al now (Some t) pid ch data sz = Some (Some (t\<lparr>at_pending := a\<rparr>))"
      and "arr_ok a" and "arr_vals a = pending_entries t @ [new_entry now pid ch data sz]"
    | "krs_ack_tracker_expect al now (Some t) pid ch data sz = Some (Some t)"
      and "\<not> expect_alloc_ok al"
proof -
  note outcome = that
  let ?e = "new_entry now pid ch data sz"
  have pushed: thesis
    if call: "krs_ack_tracker_expect al now (Some t) pid ch data sz =
      do { (r, p) \<leftarrow> krs_array_push (ea_push al) (Some (at_pending t)) (Some ?e); a \<leftarrow> p;
           Some (Some (t\<lparr>at_pending := a\<rparr>)) }"
  proof (rule push_vals [OF ok len, of "ea_push al" ?e])
    fix a assume "krs_array_push (ea_push al) (Some (at_pending t)) (Some ?e) =
        Some (krs_lib_error_result_base_suc, Some a)" "arr_ok a" "arr_vals a = pending_entries t @ [?e]"
    with call outcome(1) show thesis by simp
  next
    assume "ea_push al = None" "krs_array_push (ea_push al) (Some (at_pending t)) (Some ?e) =
        Some (krs_lib_error_result_base_w_msg KRS_ERR_MEMORY_ALLOCATION ''Failed to grow array'',
          Some (at_pending t))"
    with call outcome(2) show thesis by (simp add: expect_alloc_ok_def)
  qed
  show thesis
  proof (cases "ea_entry al")
    case False
    with outcome(2) show thesis by (simp add: krs_ack_tracker_expect_def expect_alloc_ok_def)
  next
    case entry: True
    show thesis
    proof (cases "\<exists>d. data = Some d \<and> sz > 0")
      case True
      then obtain d where d: "data = Some d" "sz > 0" by blast
      then have le: "unat sz \<le> length d" using src by simp
      show thesis
      proof (cases "ea_data al")
        case None
        with entry d outcome(2) show thesis by (simp add: krs_ack_tracker_expect_def expect_alloc_ok_def)
      next
        case (Some junk)
        with entry d le show thesis
          by (intro pushed) (simp add: krs_ack_tracker_expect_def Let_def new_entry_def mem_read_def
              mem_write_def)
      qed
    next
      case False
      with entry show thesis
        by (intro pushed) (auto simp: krs_ack_tracker_expect_def Let_def new_entry_def split: option.split)
    qed
  qed
qed

lemma new_entry_ok:
  "\<forall>d. data = Some d \<longrightarrow> unat sz \<le> length d \<Longrightarrow> entry_ok m (new_entry now pid ch data sz)"
  by (auto simp: entry_ok_def new_entry_def split: option.split)

lemma expect_wf:
  assumes "ack_wf t" and "length (pending_entries t) < 2 ^ 31"
    and "\<forall>d. data = Some d \<longrightarrow> unat sz \<le> length d"
    and "krs_ack_tracker_expect al now (Some t) pid ch data sz = Some (Some t')"
  shows "ack_wf t'"
  using assms new_entry_ok [OF assms(3), of "at_max_retries t" now pid ch]
  by (cases rule: expect_cases [OF ack_wfD(1) [OF assms(1)] assms(2,3), of al now pid ch])
     (auto simp: ack_wf_def)

section \<open>Reachable trackers\<close>

inductive ack_step :: "ack_tracker \<Rightarrow> ack_tracker \<Rightarrow> bool" where
  expect: "length (pending_entries t) < 2 ^ 31 \<Longrightarrow> \<forall>d. data = Some d \<longrightarrow> unat sz \<le> length d \<Longrightarrow>
    krs_ack_tracker_expect al now (Some t) pid ch data sz = Some (Some t') \<Longrightarrow> ack_step t t'"
| receive: "krs_ack_tracker_receive (Some t) pid ch = Some (Some t') \<Longrightarrow> ack_step t t'"
| receive_rtt: "krs_ack_tracker_receive_rtt now (Some t) pid ch = Some (r, Some t') \<Longrightarrow> ack_step t t'"
| check: "krs_ack_tracker_check_timeouts now (Some t) wr cap want dcap = Some (out, Some t') \<Longrightarrow> ack_step t t'"
| set_timeout: "krs_ack_tracker_set_timeout (Some t) to = Some t' \<Longrightarrow> ack_step t t'"
| set_fast: "krs_ack_tracker_set_fast_retransmit_enabled (Some t) b = Some t' \<Longrightarrow> ack_step t t'"

inductive ack_reach :: "ack_tracker \<Rightarrow> bool" where
  created: "krs_ack_tracker_create al aal cells to mr = Some t \<Longrightarrow> ack_reach t"
| step: "ack_reach t \<Longrightarrow> ack_step t t' \<Longrightarrow> ack_reach t'"

lemma settings_wf:
  "krs_ack_tracker_set_timeout (Some t) to = Some t' \<Longrightarrow> ack_wf t \<Longrightarrow> ack_wf t'"
  "krs_ack_tracker_set_fast_retransmit_enabled (Some t) b = Some t' \<Longrightarrow> ack_wf t \<Longrightarrow> ack_wf t'"
  by (auto simp: krs_ack_tracker_set_timeout_def krs_ack_tracker_set_fast_retransmit_enabled_def ack_wf_def)

lemma ack_step_wf: "ack_step t t' \<Longrightarrow> ack_wf t \<Longrightarrow> ack_wf t'"
  by (induction rule: ack_step.induct)
     (blast intro: expect_wf receive_wf receive_rtt_wf check_timeouts_wf settings_wf)+

lemma ack_reach_wf: "ack_reach t \<Longrightarrow> ack_wf t"
  by (induction rule: ack_reach.induct) (auto intro: ack_step_wf create_wf(1))


definition no_entries :: "u32 \<Rightarrow> u8 \<Rightarrow> ack_tracker" where
  "no_entries to mr = \<lparr>at_pending = \<lparr>arr_items = replicate 8 None, arr_length = 0, arr_capacity = 8\<rparr>,
     at_timeout_ms = to, at_max_retries = mr, at_fast_retransmit_enabled = True\<rparr>"

definition with_entries :: "u32 \<Rightarrow> u8 \<Rightarrow> ack_entry list \<Rightarrow> ack_tracker" where
  "with_entries to mr es = \<lparr>at_pending = \<lparr>arr_items = map Some es, arr_length = of_nat (length es),
     arr_capacity = of_nat (length es)\<rparr>, at_timeout_ms = to, at_max_retries = mr,
     at_fast_retransmit_enabled = True\<rparr>"

lemma with_entries_ok:
  assumes "length es < 2 ^ 32"
  shows "arr_ok (at_pending (with_entries to mr es))" and "pending_entries (with_entries to mr es) = es"
    and "at_max_retries (with_entries to mr es) = mr" and "at_timeout_ms (with_entries to mr es) = to"
    and "at_fast_retransmit_enabled (with_entries to mr es)"
  using unat_of_nat_small [of "length es", where 'a = 32] assms
  by (simp_all add: with_entries_def arr_ok_def arr_wf_def arr_list_def arr_vals_def comp_def)


section \<open>Properties\<close>

text \<open>
  An acknowledgement for a packet on a channel removes exactly the entries of that packet on
  that channel. Every other entry stays, in order, and differs only in its count of later
  acknowledgements: with fast retransmit enabled it grows by one, up to 255, for the entries of the
  same channel with a smaller packet id.
\<close>

theorem krs_ack_tracker_receive_spec:
  assumes "arr_ok (at_pending t)"
  shows "\<exists>t'. krs_ack_tracker_receive (Some t) pid ch = Some (Some t') \<and>
    (let rest = filter (\<lambda>e. \<not> (ae_packet_id e = pid \<and> ae_channel e = ch)) (pending_entries t) in
     length (pending_entries t') = length rest \<and>
     (\<forall>i < length rest.
        (pending_entries t' ! i)\<lparr>ae_acked_after_count := 0\<rparr> = (rest ! i)\<lparr>ae_acked_after_count := 0\<rparr> \<and>
        unat (ae_acked_after_count (pending_entries t' ! i)) =
          (if at_fast_retransmit_enabled t \<and> ae_channel (rest ! i) = ch \<and> ae_packet_id (rest ! i) < pid
           then min 255 (Suc (unat (ae_acked_after_count (rest ! i))))
           else unat (ae_acked_after_count (rest ! i)))))"
proof -
  obtain a where a: "krs_ack_tracker_receive (Some t) pid ch = Some (Some (t\<lparr>at_pending := a\<rparr>))"
      "arr_vals a = after_ack (at_fast_retransmit_enabled t) pid ch (pending_entries t)"
    using receive_pending [OF assms] by blast
  have "(observe_entry pid ch e)\<lparr>ae_acked_after_count := 0\<rparr> = e\<lparr>ae_acked_after_count := 0\<rparr>" for e
    by (simp add: observe_entry_def)
  with a show ?thesis
    by (auto simp: after_ack_def ack_matches_def observe_entry_count Let_def)
qed

theorem krs_ack_tracker_receive_spec_witness:
  "\<exists>t'. krs_ack_tracker_receive (Some (with_entries 500 3
       [new_entry 0 7 1 None 0, new_entry 0 8 1 None 0, new_entry 0 7 2 None 0])) 8 1 = Some (Some t') \<and>
     length (pending_entries t') = 2"
  using krs_ack_tracker_receive_spec [OF with_entries_ok(1), of
      "[new_entry 0 7 1 None 0, new_entry 0 8 1 None 0, new_entry 0 7 2 None 0]" 500 3 8 1]
  by (auto simp: with_entries_ok(2) Let_def)

text \<open>
  The round trip measurement: -1 exactly when no entry matched, otherwise the time since the
  last transmission of the most recently added matching entry, converted to \<open>double\<close>; the entries
  change as for an acknowledgement without measurement.
\<close>

theorem krs_ack_tracker_receive_rtt_spec:
  assumes "arr_ok (at_pending t)"
    and "hits = filter (\<lambda>e. ae_packet_id e = pid \<and> ae_channel e = ch) (pending_entries t)"
  shows "\<exists>t1 t2. krs_ack_tracker_receive_rtt now (Some t) pid ch =
      Some (if hits = [] then - 1 else double_of_u64 (now - ae_timestamp_ms (last hits)), Some t1) \<and>
    krs_ack_tracker_receive (Some t) pid ch = Some (Some t2) \<and>
    pending_entries t1 = pending_entries t2"
proof -
  have "ack_matches pid ch = (\<lambda>e. ae_packet_id e = pid \<and> ae_channel e = ch)"
    by (simp add: ack_matches_def fun_eq_iff)
  then have "rtt_of now pid ch (pending_entries t) =
      (if hits = [] then - 1 else double_of_u64 (now - ae_timestamp_ms (last hits)))"
    by (simp add: rtt_of_def assms(2))
  with receive_rtt_pending [OF assms(1), of now pid ch] receive_pending [OF assms(1), of pid ch]
  show ?thesis by fastforce
qed

theorem krs_ack_tracker_receive_rtt_spec_witness:
  "\<exists>t'. krs_ack_tracker_receive_rtt 130 (Some (with_entries 500 3
       [new_entry 100 7 1 None 0, new_entry 110 7 1 None 0])) 7 1 = Some (20, Some t') \<and>
     pending_entries t' = []"
proof -
  let ?t = "with_entries 500 3 [new_entry 100 7 1 None 0, new_entry 110 7 1 None 0]"
  have ok: "arr_ok (at_pending ?t)" "pending_entries ?t = [new_entry 100 7 1 None 0, new_entry 110 7 1 None 0]"
    by (rule with_entries_ok, simp)+
  have rtt: "double_of_u64 (130 - 110) = 20" by (subst double_of_u64_exact) simp_all
  obtain t2 where t2: "krs_ack_tracker_receive (Some ?t) 7 1 = Some (Some t2)" "pending_entries t2 = []"
    using receive_pending [OF ok(1), of 7 1]
    by (auto simp: ok(2) after_ack_def ack_matches_def)
  with krs_ack_tracker_receive_rtt_spec [OF ok(1) refl, of 130 7 1] rtt show ?thesis
    by (auto simp: ok(2))
qed

text \<open>
  C35. One pass over the timeouts. An entry is due when three later packets of its channel were
  acknowledged (with fast retransmit enabled) or its backed-off timeout has elapsed. Due entries
  with retries left are marked as retried now; due entries without are removed; the others are
  untouched; the order is kept. The call returns the number of retried entries and reports them
  from the youngest to the oldest as far as the arrays reach; the given-up packets likewise.
\<close>

theorem krs_ack_tracker_check_timeouts_spec:
  assumes "arr_ok (at_pending t)"
  shows "\<exists>out t'. krs_ack_tracker_check_timeouts now (Some t) True cap True dcap = Some (out, Some t') \<and>
    pending_entries t' =
      map (\<lambda>e. if entry_due now t e
               then e\<lparr>ae_retry_count := ae_retry_count e + 1, ae_timestamp_ms := now, ae_acked_after_count := 0\<rparr>
               else e)
        (filter (\<lambda>e. \<not> (entry_due now t e \<and> at_max_retries t \<le> ae_retry_count e)) (pending_entries t)) \<and>
    unat (to_retry_count out) =
      length (filter (\<lambda>e. entry_due now t e \<and> ae_retry_count e < at_max_retries t) (pending_entries t)) \<and>
    map ro_id (to_retries out) =
      take (unat cap) (map ae_packet_id (rev (filter
        (\<lambda>e. entry_due now t e \<and> ae_retry_count e < at_max_retries t) (pending_entries t)))) \<and>
    to_dropped out =
      take (unat dcap) (map (\<lambda>e. (ae_packet_id e, ae_channel e)) (rev (filter
        (\<lambda>e. entry_due now t e \<and> at_max_retries t \<le> ae_retry_count e) (pending_entries t)))) \<and>
    unat (to_dropped_count out) = length (to_dropped out)"
proof -
  obtain out a where res: "krs_ack_tracker_check_timeouts now (Some t) True cap True dcap =
        Some (out, Some (t\<lparr>at_pending := a\<rparr>))"
      "arr_vals a = after_check now t (pending_entries t)"
      "unat (to_retry_count out) = length (retry_list now t (pending_entries t))"
      "to_retries out = take (unat cap) (retry_list now t (pending_entries t))"
      "to_dropped out = take (unat dcap) (dropped_list now t (pending_entries t))"
      "unat (to_dropped_count out) = length (to_dropped out)"
    using check_timeouts_pending [OF assms, of now cap True dcap] by auto
  have rt: "retried now t = (\<lambda>e. entry_due now t e \<and> ae_retry_count e < at_max_retries t)"
    and gu: "given_up now t = (\<lambda>e. entry_due now t e \<and> at_max_retries t \<le> ae_retry_count e)"
    by (simp_all add: fun_eq_iff retried_def given_up_def)
  have "after_check now t (pending_entries t) =
      map (\<lambda>e. if entry_due now t e then bump_entry now e else e)
        (filter (\<lambda>e. \<not> given_up now t e) (pending_entries t))"
    unfolding after_check_def
    by (rule map_cong) (auto simp: retried_def given_up_def not_le)
  with res show ?thesis
    by (intro exI [of _ out] exI [of _ "t\<lparr>at_pending := a\<rparr>"])
       (simp add: retry_list_def dropped_list_def rt gu bump_entry_def take_map comp_def
          retry_report_def flip: rev_filter)
qed

theorem krs_ack_tracker_check_timeouts_spec_witness:
  "\<exists>out t'. krs_ack_tracker_check_timeouts 600 (Some (with_entries 500 0 [new_entry 100 7 1 None 0]))
       True 16 True 16 = Some (out, Some t') \<and> pending_entries t' = [] \<and> to_dropped out = [(7, 1)]"
proof -
  let ?t = "with_entries 500 0 [new_entry 100 7 1 None 0]"
  have ok: "arr_ok (at_pending ?t)" "pending_entries ?t = [new_entry 100 7 1 None 0]"
    "at_max_retries ?t = 0" "at_timeout_ms ?t = 500"
    by (rule with_entries_ok, simp)+
  have "entry_due 600 ?t (new_entry 100 7 1 None 0)"
    by (simp add: entry_due_def timeout_due_def effective_timeout_ms_def ok)
  with krs_ack_tracker_check_timeouts_spec [OF ok(1), of 600 16 16] show ?thesis
    by (auto simp: ok(2,3))
qed

lemma effective_timeout_conv:
  "unat (effective_timeout_ms t e) =
     (if ae_retry_count e = 0 then unat (at_timeout_ms t)
      else min 60000 (unat (at_timeout_ms t) * 2 ^ min 6 (unat (ae_retry_count e))))"
proof (cases "ae_retry_count e = 0")
  case False
  define n where "n = min 6 (unat (ae_retry_count e))"
  have shift: "(if ae_retry_count e > 6 then 6 else unat (ae_retry_count e)) = n"
    by (auto simp: n_def word_less_nat_alt)
  have cast: "unat (ucast (at_timeout_ms t) :: u64) = unat (at_timeout_ms t)"
    by (rule unat_ucast_widen) simp
  have "unat (at_timeout_ms t) * 2 ^ n \<le> 4294967295 * 2 ^ 6"
    using unat_less_power_u32 [of "at_timeout_ms t"]
    by (intro mult_le_mono power_increasing) (simp_all add: n_def)
  then have backed: "unat (push_bit n (ucast (at_timeout_ms t)) :: u64) = unat (at_timeout_ms t) * 2 ^ n"
    by (simp only: unsigned_push_bit_eq cast) (simp add: push_bit_eq_mult take_bit_nat_eq_self)
  have pos: "ae_retry_count e > 0" using False by (simp add: word_gt_0)
  show ?thesis
  proof (cases "push_bit n (ucast (at_timeout_ms t)) > (60000 :: u64)")
    case True
    then have "60000 < unat (at_timeout_ms t) * 2 ^ n"
      using backed by (simp add: word_less_nat_alt)
    with True pos False show ?thesis
      by (simp add: effective_timeout_ms_def Let_def shift n_def [symmetric])
  next
    case small: False
    then have le: "unat (at_timeout_ms t) * 2 ^ n \<le> 60000"
      using backed by (simp add: word_less_nat_alt)
    then have "unat (ucast (push_bit n (ucast (at_timeout_ms t)) :: u64) :: u32) =
        unat (at_timeout_ms t) * 2 ^ n"
      using backed by (simp add: unsigned_ucast_eq take_bit_nat_eq_self)
    with small pos False le show ?thesis
      by (simp add: effective_timeout_ms_def Let_def shift n_def [symmetric])
  qed
qed (simp add: effective_timeout_ms_def)

text \<open>
  The retransmission timeout: the configured one for the first transmission, then doubled with
  every retry, at most six times, and capped at 60 seconds.
\<close>

theorem effective_timeout_backoff:
  "unat (effective_timeout_ms t e) =
     (if ae_retry_count e = 0 then unat (at_timeout_ms t)
      else min 60000 (unat (at_timeout_ms t) * 2 ^ min 6 (unat (ae_retry_count e))))"
  by (rule effective_timeout_conv)

subsection \<open>Giving up\<close>

text \<open>Repeated checks at the given clock values, with fixed report capacities.\<close>

fun check_all :: "u32 \<Rightarrow> u32 \<Rightarrow> u64 list \<Rightarrow> ack_tracker \<Rightarrow> ack_tracker option" where
  "check_all cap dcap [] t = Some t"
| "check_all cap dcap (now # nows) t =
     do { (out, p) \<leftarrow> krs_ack_tracker_check_timeouts now (Some t) True cap True dcap;
          t' \<leftarrow> p;
          check_all cap dcap nows t' }"

text \<open>Clock values that advance by at least \<open>d\<close> each time.\<close>

fun spaced :: "nat \<Rightarrow> u64 \<Rightarrow> u64 list \<Rightarrow> bool" where
  "spaced d prev [] = True"
| "spaced d prev (now # nows) = (unat prev + d \<le> unat now \<and> spaced d now nows)"

lemma spaced_due:
  assumes "unat prev + max 60000 (unat (at_timeout_ms t)) \<le> unat now"
    and "unat (ae_timestamp_ms e) \<le> unat prev"
  shows "entry_due now t e"
proof -
  have "unat (ucast (effective_timeout_ms t e) :: u64) = unat (effective_timeout_ms t e)"
    by (rule unat_ucast_widen) simp
  moreover have "unat (effective_timeout_ms t e) \<le> max 60000 (unat (at_timeout_ms t))"
    by (auto simp: effective_timeout_conv min_le_iff_disj le_max_iff_disj)
  moreover have "unat (now - ae_timestamp_ms e) = unat now - unat (ae_timestamp_ms e)"
    using assms by (intro unat_sub_no_wrap) simp
  ultimately have "unat (ucast (effective_timeout_ms t e) :: u64) \<le> unat (now - ae_timestamp_ms e)"
    using assms by linarith
  then show ?thesis by (simp add: entry_due_def timeout_due_def word_le_nat_alt)
qed

lemma check_all_gives_up:
  assumes "ack_wf t" and "spaced (max 60000 (unat (at_timeout_ms t))) prev nows"
    and "\<forall>e \<in> set (pending_entries t). unat (ae_timestamp_ms e) \<le> unat prev \<and> k \<le> unat (ae_retry_count e)"
    and "unat (at_max_retries t) < k + length nows"
  shows "\<exists>t'. check_all cap dcap nows t = Some t' \<and> pending_entries t' = []"
  using assms
proof (induction nows arbitrary: t prev k)
  case Nil
  have False if "e \<in> set (pending_entries t)" for e
    using entry_okD(1) [OF ack_wfD(2) [OF Nil.prems(1) that]] Nil.prems(3,4) that
    by (auto simp: word_le_nat_alt)
  then have "pending_entries t = []" using last_in_set by blast
  then show ?case by simp
next
  case (Cons now nows)
  note wf = ack_wfD [OF Cons.prems(1)]
  obtain out a where call: "krs_ack_tracker_check_timeouts now (Some t) True cap True dcap =
        Some (out, Some (t\<lparr>at_pending := a\<rparr>))" "arr_vals a = after_check now t (pending_entries t)"
    using check_timeouts_pending [OF wf(1), of now cap True dcap] by blast
  have due: "entry_due now t e" if "e \<in> set (pending_entries t)" for e
    using that Cons.prems(2,3) by (intro spaced_due) auto
  have wf': "ack_wf (t\<lparr>at_pending := a\<rparr>)" by (rule check_timeouts_wf [OF Cons.prems(1) call(1)])
  have new: "ae_timestamp_ms e = now \<and> Suc k \<le> unat (ae_retry_count e)" if e: "e \<in> set (arr_vals a)" for e
  proof -
    obtain e0 where e0: "e0 \<in> set (pending_entries t)" "\<not> given_up now t e0" "e = bump_entry now e0"
      using e due unfolding call(2) after_check_def
      by (auto simp: given_up_def retried_def not_le split: if_splits)
    then have "ae_retry_count e0 < at_max_retries t" using due by (simp add: given_up_def not_le)
    from bump_entry_count [OF this] e0 Cons.prems(3) show ?thesis by (auto simp: bump_entry_def)
  qed
  have "spaced (max 60000 (unat (at_timeout_ms (t\<lparr>at_pending := a\<rparr>)))) now nows"
    using Cons.prems(2) by simp
  moreover have "\<forall>e \<in> set (pending_entries (t\<lparr>at_pending := a\<rparr>)).
      unat (ae_timestamp_ms e) \<le> unat now \<and> Suc k \<le> unat (ae_retry_count e)"
    using new by auto
  moreover have "unat (at_max_retries (t\<lparr>at_pending := a\<rparr>)) < Suc k + length nows"
    using Cons.prems(4) by simp
  ultimately have "\<exists>t'. check_all cap dcap nows (t\<lparr>at_pending := a\<rparr>) = Some t' \<and> pending_entries t' = []"
    by (rule Cons.IH [OF wf'])
  with call(1) show ?case by simp
qed



subsection \<open>Expecting and resending\<close>

text \<open>
  Expecting an acknowledgement with memory available appends one entry whose stored frame, read
  back through \<open>krs_ack_tracker_get_retry_frame_for_entry\<close>, is a copy of the frame given, with no
  retry counted. Without memory the call returns silently and the frame is not tracked.
\<close>

theorem krs_ack_tracker_expect_spec:
  assumes "arr_ok (at_pending t)" and "length (pending_entries t) < 2 ^ 31"
    and "length d = unat sz" and "0 < sz"
  shows "\<exists>t'. krs_ack_tracker_expect al now (Some t) pid ch (Some d) sz = Some (Some t') \<and>
    (expect_alloc_ok al \<longrightarrow> (\<exists>e. pending_entries t' = pending_entries t @ [e] \<and>
        ae_packet_id e = pid \<and> ae_channel e = ch \<and> ae_timestamp_ms e = now \<and> ae_retry_count e = 0 \<and>
        krs_ack_tracker_get_retry_frame_for_entry (Some e) = (Some d, sz))) \<and>
    (\<not> ea_entry al \<longrightarrow> t' = t)"
proof -
  have src: "\<forall>d'. Some d = Some d' \<longrightarrow> unat sz \<le> length d'" using assms(3) by simp
  show ?thesis
  proof (cases rule: expect_cases [OF assms(1,2) src, of al now pid ch])
    case (1 a)
    have "krs_ack_tracker_get_retry_frame_for_entry (Some (new_entry now pid ch (Some d) sz)) = (Some d, sz)"
      using assms(3,4) by (simp add: krs_ack_tracker_get_retry_frame_for_entry_def new_entry_def)
    moreover have "\<not> ea_entry al \<Longrightarrow>
        krs_ack_tracker_expect al now (Some t) pid ch (Some d) sz = Some (Some t)"
      by (simp add: krs_ack_tracker_expect_def)
    ultimately show ?thesis using 1 by auto
  next
    case 2
    then show ?thesis by simp
  qed
qed

theorem krs_ack_tracker_expect_spec_witness:
  "\<exists>t'. krs_ack_tracker_expect \<lparr>ea_entry = True, ea_data = Some (\<lambda>_. 0), ea_push = Some (\<lambda>_. None)\<rparr> 5
       (Some (with_entries 500 3 [])) 9 1 (Some [1, 2]) 2 = Some (Some t') \<and> length (pending_entries t') = 1"
  using krs_ack_tracker_expect_spec [OF with_entries_ok(1), of "[]" 500 3 "[1, 2]" 2
      "\<lparr>ea_entry = True, ea_data = Some (\<lambda>_. 0), ea_push = Some (\<lambda>_. None)\<rparr>" 5 9 1]
  by (auto simp: with_entries_ok(2) expect_alloc_ok_def)

text \<open>
  Looking a frame up by packet id alone returns the oldest stored frame with that id, on
  whatever channel and whichever fragment it is. When several entries share an id, as the fragments
  of one packet do, the frames of the later ones are never returned.
\<close>

theorem get_retry_frame_oldest:
  assumes "arr_ok (at_pending t)"
    and "pending_entries t = before @ e # after"
    and "\<forall>x \<in> set before. ae_packet_id x \<noteq> pid"
    and "ae_packet_id e = pid" and "ae_frame_data e = Some d" and "ae_frame_size e \<noteq> 0"
  shows "krs_ack_tracker_get_retry_frame (Some t) pid = Some (Some d, ae_frame_size e)"
proof -
  let ?P = "\<lambda>x. ae_packet_id x = pid \<and> \<not> (ae_frame_data x = None \<or> ae_frame_size x = 0)"
  have len: "length before < length (pending_entries t)" by (simp add: assms(2))
  have "find_index ?P (pending_entries t) = Some (length before)"
    unfolding find_index_Some_iff using assms(2-6) by (auto simp: nth_append)
  with kra.find_all [OF assms(1) refl, of ?P] kra.at_nth [OF assms(1) len] assms(2,5) show ?thesis
    by (simp add: krs_ack_tracker_get_retry_frame_def pending_length [OF assms(1)])
qed

theorem get_retry_frame_oldest_witness:
  "krs_ack_tracker_get_retry_frame (Some (with_entries 500 3
     [new_entry 0 7 1 (Some [65]) 1, new_entry 0 7 2 (Some [66]) 1])) 7 = Some (Some [65], 1)"
  using get_retry_frame_oldest [OF with_entries_ok(1), of
      "[new_entry 0 7 1 (Some [65]) 1, new_entry 0 7 2 (Some [66]) 1]" 500 3 "[]"
      "new_entry 0 7 1 (Some [65]) 1" "[new_entry 0 7 2 (Some [66]) 1]" 7 "[65]"]
  by (simp add: with_entries_ok(2)) (simp add: new_entry_def)

end
