(* ===== verification/Kronos_Congestion.thy ===== *)
theory Kronos_Congestion
  imports Kronos_Double
begin

text \<open>
  The congestion controller of \<open>src/congestion/congestion_controller.c\<close> with the structure and
  constants of \<open>congestion_internal.h\<close>. The \<open>double\<close> members are rationals, and every arithmetic
  operation is rounded with \<open>rnd64\<close>, in the order in which the source evaluates it (no fused or
  extended-precision evaluation).

  The theory proves the bounds of every reachable controller by rule induction, that the conversion
  of the window to \<open>uint32_t\<close> is defined, how the window grows and shrinks, and how packets in flight
  are counted.
\<close>

section \<open>State\<close>

datatype congestion_phase = CC_SLOW_START | CC_CONGESTION_AVOIDANCE

abbreviation (input) KRS_CC_INITIAL_CWND :: rat where "KRS_CC_INITIAL_CWND \<equiv> 4"
abbreviation (input) KRS_CC_INITIAL_SSTHRESH :: rat where "KRS_CC_INITIAL_SSTHRESH \<equiv> 64"
abbreviation (input) KRS_CC_MIN_CWND :: rat where "KRS_CC_MIN_CWND \<equiv> 1"
abbreviation (input) KRS_CC_ALPHA :: rat where "KRS_CC_ALPHA \<equiv> 1 / 8"
abbreviation (input) KRS_CC_BETA :: rat where "KRS_CC_BETA \<equiv> 1 / 4"
abbreviation (input) KRS_CC_RTO_MIN_MS :: rat where "KRS_CC_RTO_MIN_MS \<equiv> 200"
abbreviation (input) KRS_CC_RTO_MAX_MS :: rat where "KRS_CC_RTO_MAX_MS \<equiv> 60000"
abbreviation (input) KRS_CC_INITIAL_RTO_MS :: rat where "KRS_CC_INITIAL_RTO_MS \<equiv> 1000"

record congestion_controller =
  cc_cwnd :: rat
  cc_ssthresh :: rat
  cc_in_flight :: u32
  cc_srtt_ms :: rat
  cc_rttvar_ms :: rat
  cc_rto_ms :: rat
  cc_has_rtt_sample :: bool
  cc_phase :: congestion_phase

section \<open>Operations\<close>

definition krs_congestion_create :: "bool \<Rightarrow> congestion_controller option" where
  "krs_congestion_create alloc =
     (if \<not> alloc then None
      else Some \<lparr>cc_cwnd = KRS_CC_INITIAL_CWND, cc_ssthresh = KRS_CC_INITIAL_SSTHRESH, cc_in_flight = 0,
                 cc_srtt_ms = 0, cc_rttvar_ms = 0, cc_rto_ms = KRS_CC_INITIAL_RTO_MS,
                 cc_has_rtt_sample = False, cc_phase = CC_SLOW_START\<rparr>)"

definition krs_congestion_destroy :: "congestion_controller option \<Rightarrow> congestion_controller option" where
  "krs_congestion_destroy cc = None"

text \<open>
  The conversion \<open>(uint32_t)x\<close> truncates, and is undefined when the truncated value does not fit.
\<close>

definition u32_of_double :: "rat \<Rightarrow> u32 option" where
  "u32_of_double x = (if - 1 < x \<and> x < 4294967296 then Some (of_int (if x < 0 then 0 else \<lfloor>x\<rfloor>)) else None)"

definition krs_congestion_can_send :: "congestion_controller option \<Rightarrow> bool option" where
  "krs_congestion_can_send cc =
     (case cc of
        None \<Rightarrow> Some False
      | Some c \<Rightarrow> do { w \<leftarrow> u32_of_double (cc_cwnd c); Some (cc_in_flight c < w) })"

definition krs_congestion_on_send :: "congestion_controller option \<Rightarrow> congestion_controller option" where
  "krs_congestion_on_send cc = map_option (\<lambda>c. c\<lparr>cc_in_flight := cc_in_flight c + 1\<rparr>) cc"

definition update_rtt :: "rat \<Rightarrow> congestion_controller \<Rightarrow> congestion_controller" where
  "update_rtt rtt_ms c =
     (if \<not> cc_has_rtt_sample c
      then c\<lparr>cc_srtt_ms := rtt_ms, cc_rttvar_ms := rnd64 (rtt_ms / 2), cc_has_rtt_sample := True\<rparr>
      else
        let rttvar = rnd64 (rnd64 (rnd64 (1 - KRS_CC_BETA) * cc_rttvar_ms c) +
                            rnd64 (KRS_CC_BETA * \<bar>rnd64 (cc_srtt_ms c - rtt_ms)\<bar>));
            srtt = rnd64 (rnd64 (rnd64 (1 - KRS_CC_ALPHA) * cc_srtt_ms c) + rnd64 (KRS_CC_ALPHA * rtt_ms))
        in c\<lparr>cc_rttvar_ms := rttvar, cc_srtt_ms := srtt\<rparr>)"

definition update_rto :: "congestion_controller \<Rightarrow> congestion_controller" where
  "update_rto c =
     (let rto0 = rnd64 (cc_srtt_ms c + rnd64 (4 * cc_rttvar_ms c));
          rto1 = (if rto0 < KRS_CC_RTO_MIN_MS then KRS_CC_RTO_MIN_MS else rto0);
          rto2 = (if rto1 > KRS_CC_RTO_MAX_MS then KRS_CC_RTO_MAX_MS else rto1)
      in c\<lparr>cc_rto_ms := rto2\<rparr>)"

definition grow_window :: "congestion_controller \<Rightarrow> congestion_controller" where
  "grow_window c =
     (if cc_phase c = CC_SLOW_START then
        let w = rnd64 (cc_cwnd c + 1)
        in if w \<ge> cc_ssthresh c then c\<lparr>cc_cwnd := w, cc_phase := CC_CONGESTION_AVOIDANCE\<rparr>
           else c\<lparr>cc_cwnd := w\<rparr>
      else c\<lparr>cc_cwnd := rnd64 (cc_cwnd c + rnd64 (1 / cc_cwnd c))\<rparr>)"

definition krs_congestion_on_ack ::
    "congestion_controller option \<Rightarrow> rat \<Rightarrow> congestion_controller option" where
  "krs_congestion_on_ack cc rtt_ms =
     map_option (\<lambda>c.
       let c1 = (if cc_in_flight c > 0 then c\<lparr>cc_in_flight := cc_in_flight c - 1\<rparr> else c)
       in grow_window (update_rto (update_rtt rtt_ms c1))) cc"

definition halve_ssthresh :: "congestion_controller \<Rightarrow> rat" where
  "halve_ssthresh c =
     (let s = rnd64 (cc_cwnd c / 2) in if s < KRS_CC_MIN_CWND then KRS_CC_MIN_CWND else s)"

definition krs_congestion_on_timeout_loss ::
    "congestion_controller option \<Rightarrow> congestion_controller option" where
  "krs_congestion_on_timeout_loss cc =
     map_option (\<lambda>c. c\<lparr>cc_ssthresh := halve_ssthresh c, cc_cwnd := KRS_CC_MIN_CWND,
                       cc_phase := CC_SLOW_START\<rparr>) cc"

definition krs_congestion_on_fast_retransmit_loss ::
    "congestion_controller option \<Rightarrow> congestion_controller option" where
  "krs_congestion_on_fast_retransmit_loss cc =
     map_option (\<lambda>c. c\<lparr>cc_ssthresh := halve_ssthresh c, cc_cwnd := halve_ssthresh c,
                       cc_phase := CC_CONGESTION_AVOIDANCE\<rparr>) cc"

definition krs_congestion_on_loss :: "congestion_controller option \<Rightarrow> congestion_controller option" where
  "krs_congestion_on_loss cc = krs_congestion_on_timeout_loss cc"

definition krs_congestion_get_cwnd :: "congestion_controller option \<Rightarrow> u32 option" where
  "krs_congestion_get_cwnd cc = (case cc of None \<Rightarrow> Some 0 | Some c \<Rightarrow> u32_of_double (cc_cwnd c))"

definition krs_congestion_get_in_flight :: "congestion_controller option \<Rightarrow> u32" where
  "krs_congestion_get_in_flight cc = (case cc of None \<Rightarrow> 0 | Some c \<Rightarrow> cc_in_flight c)"

definition krs_congestion_get_rto :: "congestion_controller option \<Rightarrow> rat" where
  "krs_congestion_get_rto cc = (case cc of None \<Rightarrow> KRS_CC_INITIAL_RTO_MS | Some c \<Rightarrow> cc_rto_ms c)"

definition krs_congestion_get_srtt :: "congestion_controller option \<Rightarrow> rat" where
  "krs_congestion_get_srtt cc = (case cc of None \<Rightarrow> 0 | Some c \<Rightarrow> cc_srtt_ms c)"

section \<open>Reachable controllers\<close>

text \<open>
  The events a connection delivers. The index counts the acknowledgements; round trip times are
  non-negative, as the tracker only reports those (see \<open>Kronos_Ack\<close>).
\<close>

inductive cc_reach :: "nat \<Rightarrow> congestion_controller \<Rightarrow> bool" where
  created: "krs_congestion_create True = Some c \<Longrightarrow> cc_reach 0 c"
| send: "cc_reach n c \<Longrightarrow> krs_congestion_on_send (Some c) = Some c' \<Longrightarrow> cc_reach n c'"
| ack: "cc_reach n c \<Longrightarrow> 0 \<le> rtt \<Longrightarrow> krs_congestion_on_ack (Some c) rtt = Some c' \<Longrightarrow> cc_reach (Suc n) c'"
| timeout: "cc_reach n c \<Longrightarrow> krs_congestion_on_timeout_loss (Some c) = Some c' \<Longrightarrow> cc_reach n c'"
| fast: "cc_reach n c \<Longrightarrow> krs_congestion_on_fast_retransmit_loss (Some c) = Some c' \<Longrightarrow> cc_reach n c'"

section \<open>Lemmas\<close>

definition cc_inv :: "nat \<Rightarrow> congestion_controller \<Rightarrow> bool" where
  "cc_inv n c \<longleftrightarrow>
     rnd64 (cc_cwnd c) = cc_cwnd c \<and> 1 \<le> cc_cwnd c \<and> cc_cwnd c \<le> of_nat (4 + n) \<and>
     1 \<le> cc_ssthresh c \<and> 200 \<le> cc_rto_ms c \<and> cc_rto_ms c \<le> 60000 \<and>
     0 \<le> cc_srtt_ms c \<and> 0 \<le> cc_rttvar_ms c \<and>
     (cc_phase c = CC_SLOW_START \<longrightarrow> (\<exists>k. cc_cwnd c = of_int k))"

lemma rnd64_le_nat:
  assumes "x \<le> of_nat k" and "k \<le> 2 ^ 53"
  shows "rnd64 x \<le> of_nat k"
proof -
  have "\<bar>int k\<bar> \<le> 2 ^ 53"
    using assms(2) by (metis abs_of_nat of_nat_le_iff of_nat_numeral of_nat_power)
  from d64.exact_int [OF this] assms(1) show ?thesis
    by (intro d64.rnd_le) simp_all
qed

lemma halve_ssthresh_bounds:
  assumes "1 \<le> cc_cwnd c" and "rnd64 (cc_cwnd c) = cc_cwnd c"
  shows "1 \<le> halve_ssthresh c" and "halve_ssthresh c \<le> cc_cwnd c"
    and "rnd64 (halve_ssthresh c) = halve_ssthresh c"
proof -
  have "rnd64 (cc_cwnd c / 2) \<le> rnd64 (cc_cwnd c)"
    using assms(1) by (intro rnd64_mono) simp
  with assms show "halve_ssthresh c \<le> cc_cwnd c" by (simp add: halve_ssthresh_def Let_def)
  have "rnd64 1 = 1" using d64.exact_small(2) by (simp add: d64.exact_def)
  then show "rnd64 (halve_ssthresh c) = halve_ssthresh c"
    by (simp add: halve_ssthresh_def Let_def rnd64_idem)
qed (simp add: halve_ssthresh_def Let_def)

lemma update_rtt_nonneg:
  assumes "0 \<le> rtt" and "0 \<le> cc_srtt_ms c" and "0 \<le> cc_rttvar_ms c"
  shows "0 \<le> cc_srtt_ms (update_rtt rtt c)" and "0 \<le> cc_rttvar_ms (update_rtt rtt c)"
proof -
  have "0 \<le> rnd64 (1 - 1 / 4)" "0 \<le> rnd64 (1 - 1 / 8)" by (rule d64.rnd_nonneg, simp)+
  with assms show "0 \<le> cc_srtt_ms (update_rtt rtt c)" "0 \<le> cc_rttvar_ms (update_rtt rtt c)"
    by (auto simp: update_rtt_def Let_def intro!: d64.rnd_nonneg add_nonneg_nonneg mult_nonneg_nonneg)
qed

lemma update_rtt_fields [simp]:
  "cc_cwnd (update_rtt rtt c) = cc_cwnd c" "cc_ssthresh (update_rtt rtt c) = cc_ssthresh c"
  "cc_phase (update_rtt rtt c) = cc_phase c" "cc_in_flight (update_rtt rtt c) = cc_in_flight c"
  by (simp_all add: update_rtt_def Let_def)

lemma update_rto_fields [simp]:
  "cc_cwnd (update_rto c) = cc_cwnd c" "cc_ssthresh (update_rto c) = cc_ssthresh c"
  "cc_phase (update_rto c) = cc_phase c" "cc_in_flight (update_rto c) = cc_in_flight c"
  "cc_srtt_ms (update_rto c) = cc_srtt_ms c" "cc_rttvar_ms (update_rto c) = cc_rttvar_ms c"
  by (simp_all add: update_rto_def Let_def)

lemma update_rto_bounds: "200 \<le> cc_rto_ms (update_rto c)" "cc_rto_ms (update_rto c) \<le> 60000"
  by (simp_all add: update_rto_def Let_def)

lemma grow_window_fields [simp]:
  "cc_ssthresh (grow_window c) = cc_ssthresh c" "cc_in_flight (grow_window c) = cc_in_flight c"
  "cc_srtt_ms (grow_window c) = cc_srtt_ms c" "cc_rttvar_ms (grow_window c) = cc_rttvar_ms c"
  "cc_rto_ms (grow_window c) = cc_rto_ms c"
  by (simp_all add: grow_window_def Let_def)

text \<open>One acknowledgement lets the window grow by at most one, and never shrink.\<close>

lemma grow_window_bounds:
  assumes "rnd64 (cc_cwnd c) = cc_cwnd c" and "1 \<le> cc_cwnd c" and "cc_cwnd c \<le> of_nat k" and "k < 2 ^ 53"
  shows "cc_cwnd c \<le> cc_cwnd (grow_window c)" and "cc_cwnd (grow_window c) \<le> of_nat (Suc k)"
    and "rnd64 (cc_cwnd (grow_window c)) = cc_cwnd (grow_window c)"
proof -
  have ex: "d64.exact (cc_cwnd c)" using assms(1) by (simp add: d64.exact_def)
  have inc: "0 \<le> rnd64 (1 / cc_cwnd c)" "rnd64 (1 / cc_cwnd c) \<le> 1"
    using assms(2) by (auto intro!: d64.rnd_nonneg d64.rnd_le)
  have "cc_cwnd c \<le> rnd64 (cc_cwnd c + x)" if "0 \<le> x" for x
    using ex that by (rule d64.rnd_add_ge)
  moreover have "rnd64 (cc_cwnd c + x) \<le> of_nat (Suc k)" if "x \<le> 1" for x
    using assms(3,4) that by (intro rnd64_le_nat) simp_all
  ultimately show "cc_cwnd c \<le> cc_cwnd (grow_window c)" "cc_cwnd (grow_window c) \<le> of_nat (Suc k)"
    using inc by (simp_all add: grow_window_def Let_def)
  show "rnd64 (cc_cwnd (grow_window c)) = cc_cwnd (grow_window c)"
    by (simp add: grow_window_def Let_def rnd64_idem)
qed

lemma rnd64_int_succ:
  assumes "x = of_int k" and "0 \<le> x" and "x \<le> of_nat m" and "m < 2 ^ 53"
  shows "rnd64 (x + 1) = x + 1"
proof -
  have "0 \<le> k" using assms(1,2) by simp
  have "k \<le> int m" using assms(1,3) by (metis of_int_le_iff of_int_of_nat_eq)
  moreover have "int m < 2 ^ 53" using assms(4) by (metis of_nat_less_iff of_nat_numeral of_nat_power)
  ultimately have "\<bar>k + 1\<bar> \<le> 2 ^ 53" using \<open>0 \<le> k\<close> by simp
  from rnd64_int [OF this] show ?thesis by (simp add: assms(1))
qed

lemma on_ack_inv:
  assumes "cc_inv n c" and "0 \<le> rtt" and "4 + n < 2 ^ 53" and "krs_congestion_on_ack (Some c) rtt = Some c'"
  shows "cc_inv (Suc n) c'"
proof -
  define c1 where "c1 = (if cc_in_flight c > 0 then c\<lparr>cc_in_flight := cc_in_flight c - 1\<rparr> else c)"
  define c2 where "c2 = update_rto (update_rtt rtt c1)"
  have same: "cc_cwnd c1 = cc_cwnd c" "cc_srtt_ms c1 = cc_srtt_ms c" "cc_rttvar_ms c1 = cc_rttvar_ms c"
      "cc_ssthresh c1 = cc_ssthresh c" "cc_phase c1 = cc_phase c"
    by (simp_all add: c1_def)
  have c': "c' = grow_window c2"
    using assms(4) by (simp add: krs_congestion_on_ack_def Let_def c1_def c2_def)
  have w: "cc_cwnd c2 = cc_cwnd c" by (simp add: c2_def same)
  have int: "\<exists>k. cc_cwnd (grow_window c2) = of_int k" if "cc_phase (grow_window c2) = CC_SLOW_START"
  proof -
    have "cc_phase c = CC_SLOW_START"
      using that by (auto simp: grow_window_def Let_def c2_def same split: if_splits)
    moreover from this obtain k where k: "cc_cwnd c = of_int k" using assms(1) by (auto simp: cc_inv_def)
    moreover have "rnd64 (cc_cwnd c + 1) = cc_cwnd c + 1"
      using assms(1,3) by (intro rnd64_int_succ [where m = "4 + n", OF k]) (auto simp: cc_inv_def)
    ultimately have "cc_cwnd (grow_window c2) = of_int (k + 1)"
      by (simp add: grow_window_def Let_def c2_def same)
    then show ?thesis ..
  qed
  have "rnd64 (cc_cwnd c2) = cc_cwnd c2" "1 \<le> cc_cwnd c2" "cc_cwnd c2 \<le> of_nat (4 + n)"
    using assms(1) by (simp_all add: w cc_inv_def)
  note grow = grow_window_bounds [OF this assms(3)]
  have nonneg: "0 \<le> cc_srtt_ms c2" "0 \<le> cc_rttvar_ms c2"
    using assms(1,2) update_rtt_nonneg [of rtt c1] by (simp_all add: c2_def same cc_inv_def)
  show ?thesis
    unfolding cc_inv_def c'
    using grow int nonneg assms(1) update_rto_bounds [of "update_rtt rtt c1"]
    by (auto simp: c2_def same cc_inv_def)
qed

lemma cc_reach_inv: "cc_reach n c \<Longrightarrow> n < 2 ^ 53 - 4 \<Longrightarrow> cc_inv n c"
proof (induction rule: cc_reach.induct)
  case (created c)
  have "rnd64 4 = 4" using d64.exact_small(3) by (simp add: d64.exact_def)
  with created show ?case
    by (auto simp: krs_congestion_create_def cc_inv_def intro: exI [of _ 4])
next
  case (send n c c')
  then show ?case by (auto simp: krs_congestion_on_send_def cc_inv_def)
next
  case (ack n c rtt c')
  then show ?case by (auto intro: on_ack_inv)
next
  case (timeout n c c')
  have "rnd64 1 = 1" using d64.exact_small(2) by (simp add: d64.exact_def)
  with timeout halve_ssthresh_bounds [of c] show ?case
    by (auto simp: krs_congestion_on_timeout_loss_def cc_inv_def intro: exI [of _ 1])
next
  case (fast n c c')
  with halve_ssthresh_bounds [of c] show ?case
    by (auto simp: krs_congestion_on_fast_retransmit_loss_def cc_inv_def)
qed

lemma u32_of_double_defined:
  assumes "1 \<le> x" and "x < 4294967296"
  shows "\<exists>w. u32_of_double x = Some w \<and> int (unat w) = \<lfloor>x\<rfloor> \<and> 1 \<le> unat w"
proof -
  define f where "f = \<lfloor>x\<rfloor>"
  have b: "1 \<le> f" "f < 2 ^ 32"
    using assms by (simp_all add: f_def le_floor_iff floor_less_iff)
  then have u: "int (unat (of_int f :: u32)) = f"
    by (simp add: take_bit_int_eq_self uint_word_of_int flip: uint_nat)
  moreover have "1 \<le> unat (of_int f :: u32)" using b(1) u by linarith
  moreover have "u32_of_double x = Some (of_int f)" using assms by (simp add: u32_of_double_def f_def)
  ultimately show ?thesis unfolding f_def by blast
qed

lemma slow_start_exact:
  assumes "cc_inv n c" and "4 + n < 2 ^ 53" and "cc_phase c = CC_SLOW_START"
  shows "rnd64 (cc_cwnd c + 1) = cc_cwnd c + 1"
proof -
  from assms(1,3) obtain k where k: "cc_cwnd c = of_int k" by (auto simp: cc_inv_def)
  show ?thesis
    using assms(1,2) by (intro rnd64_int_succ [where m = "4 + n", OF k]) (auto simp: cc_inv_def)
qed

lemma on_ack_grow:
  assumes "krs_congestion_on_ack (Some c) rtt = Some c'"
  obtains c2 where "c' = grow_window c2" and "cc_cwnd c2 = cc_cwnd c" and "cc_phase c2 = cc_phase c"
    and "cc_ssthresh c2 = cc_ssthresh c"
    and "cc_in_flight c2 = (if cc_in_flight c > 0 then cc_in_flight c - 1 else 0)"
proof -
  define c1 where "c1 = (if cc_in_flight c > 0 then c\<lparr>cc_in_flight := cc_in_flight c - 1\<rparr> else c)"
  have "c' = grow_window (update_rto (update_rtt rtt c1))"
    using assms by (simp add: krs_congestion_on_ack_def Let_def c1_def)
  then show thesis
    by (rule that) (auto simp: c1_def word_gt_0)
qed

lemma create_fields:
  assumes "krs_congestion_create True = Some c"
  shows "cc_cwnd c = 4" "cc_ssthresh c = 64" "cc_in_flight c = 0" "cc_phase c = CC_SLOW_START"
  using assms by (auto simp: krs_congestion_create_def)

section \<open>Properties\<close>

text \<open>
  C30. Every controller a connection can reach keeps its window at or above one packet, its slow start
  threshold at or above one, and its retransmission timeout between 200 ms and 60 s. The conversion
  of the window to \<open>uint32_t\<close> is defined as long as fewer than 2^32 - 4 acknowledgements arrived, so
  \<open>krs_congestion_get_cwnd\<close> reports at least one, and a connection with nothing in flight may always
  send.
\<close>

theorem cc_safe:
  assumes "cc_reach n c" and "n < 4294967292"
  shows "1 \<le> cc_cwnd c \<and> cc_cwnd c \<le> of_nat (4 + n) \<and> 1 \<le> cc_ssthresh c \<and>
         200 \<le> krs_congestion_get_rto (Some c) \<and> krs_congestion_get_rto (Some c) \<le> 60000 \<and>
         0 \<le> krs_congestion_get_srtt (Some c) \<and>
         (\<exists>w. krs_congestion_get_cwnd (Some c) = Some w \<and> 1 \<le> unat w \<and> int (unat w) = \<lfloor>cc_cwnd c\<rfloor> \<and>
              krs_congestion_can_send (Some c) = Some (krs_congestion_get_in_flight (Some c) < w)) \<and>
         (krs_congestion_get_in_flight (Some c) = 0 \<longrightarrow> krs_congestion_can_send (Some c) = Some True)"
proof -
  have inv: "cc_inv n c" using assms by (auto intro: cc_reach_inv)
  have "(of_nat (4 + n) :: rat) < of_nat 4294967296" using assms(2) by (simp only: of_nat_less_iff)
  then have "cc_cwnd c < 4294967296" using inv by (simp add: cc_inv_def)
  with inv obtain w where w: "u32_of_double (cc_cwnd c) = Some w" "int (unat w) = \<lfloor>cc_cwnd c\<rfloor>" "1 \<le> unat w"
    using u32_of_double_defined [of "cc_cwnd c"] by (auto simp: cc_inv_def)
  then have "0 < w" by (simp add: word_less_nat_alt)
  with w inv show ?thesis
    by (auto simp: cc_inv_def krs_congestion_get_cwnd_def krs_congestion_can_send_def
        krs_congestion_get_in_flight_def krs_congestion_get_rto_def krs_congestion_get_srtt_def)
qed

theorem cc_safe_witness:
  "\<exists>c. krs_congestion_create True = Some c \<and> 1 \<le> cc_cwnd c \<and> krs_congestion_can_send (Some c) = Some True"
proof -
  obtain c where c: "krs_congestion_create True = Some c" by (simp add: krs_congestion_create_def)
  with cc_safe [OF cc_reach.created [OF c]] show ?thesis
    by (auto simp: create_fields [OF c] krs_congestion_get_in_flight_def)
qed

text \<open>
  The growth of the window. In slow start each acknowledgement adds exactly one packet, without
  rounding error, and the controller leaves slow start exactly when the window has reached the
  threshold. In congestion avoidance an acknowledgement never shrinks the window, adds at most about
  one packet (the window stays below the next natural number above it plus one) and never returns to
  slow start. An acknowledgement leaves the threshold and takes one packet out of flight.
\<close>

theorem krs_congestion_on_ack_growth:
  assumes "cc_reach n c" and "n < 9007199254740988" and "krs_congestion_on_ack (Some c) rtt = Some c'"
  shows "cc_ssthresh c' = cc_ssthresh c \<and>
         cc_in_flight c' = (if cc_in_flight c > 0 then cc_in_flight c - 1 else 0) \<and>
         (cc_phase c = CC_SLOW_START \<longrightarrow>
            cc_cwnd c' = cc_cwnd c + 1 \<and>
            cc_phase c' = (if cc_cwnd c + 1 \<ge> cc_ssthresh c then CC_CONGESTION_AVOIDANCE else CC_SLOW_START)) \<and>
         (cc_phase c = CC_CONGESTION_AVOIDANCE \<longrightarrow>
            cc_phase c' = CC_CONGESTION_AVOIDANCE \<and> cc_cwnd c \<le> cc_cwnd c' \<and>
            (\<forall>k. cc_cwnd c \<le> of_nat k \<longrightarrow> k < 2 ^ 53 \<longrightarrow> cc_cwnd c' \<le> of_nat (Suc k)))"
proof -
  have n: "4 + n < 2 ^ 53" using assms(2) by simp
  with assms(1) have inv: "cc_inv n c" by (auto intro: cc_reach_inv)
  from assms(3) obtain c2 where c2: "c' = grow_window c2" "cc_cwnd c2 = cc_cwnd c" "cc_phase c2 = cc_phase c"
      "cc_ssthresh c2 = cc_ssthresh c" "cc_in_flight c2 = (if cc_in_flight c > 0 then cc_in_flight c - 1 else 0)"
    by (rule on_ack_grow)
  have w: "rnd64 (cc_cwnd c2) = cc_cwnd c2" "1 \<le> cc_cwnd c2" "cc_cwnd c2 \<le> of_nat (4 + n)"
    using inv by (simp_all add: c2 cc_inv_def)
  note up = grow_window_bounds(1) [OF w n] and bound = grow_window_bounds(2) [OF w(1,2)]
  have same: "cc_ssthresh c' = cc_ssthresh c" "cc_in_flight c' = (if cc_in_flight c > 0 then cc_in_flight c - 1 else 0)"
    by (simp_all add: c2(1,4,5))
  have ss: "cc_cwnd c' = cc_cwnd c + 1 \<and>
      cc_phase c' = (if cc_cwnd c + 1 \<ge> cc_ssthresh c then CC_CONGESTION_AVOIDANCE else CC_SLOW_START)"
    if "cc_phase c = CC_SLOW_START"
    using slow_start_exact [OF inv n that] that by (simp add: c2 grow_window_def)
  have ca: "cc_phase c' = CC_CONGESTION_AVOIDANCE \<and> cc_cwnd c \<le> cc_cwnd c' \<and>
      (\<forall>k. cc_cwnd c \<le> of_nat k \<longrightarrow> k < 2 ^ 53 \<longrightarrow> cc_cwnd c' \<le> of_nat (Suc k))"
    if "cc_phase c = CC_CONGESTION_AVOIDANCE"
    using up bound that by (simp add: c2 grow_window_def del: of_nat_Suc)
  show ?thesis using same ss ca by blast
qed

theorem krs_congestion_on_ack_growth_witness:
  "\<exists>c c'. krs_congestion_create True = Some c \<and> krs_congestion_on_ack (Some c) 30 = Some c' \<and>
          cc_cwnd c' = 5 \<and> cc_phase c' = CC_SLOW_START"
proof -
  obtain c where c: "krs_congestion_create True = Some c" by (simp add: krs_congestion_create_def)
  obtain c' where c': "krs_congestion_on_ack (Some c) 30 = Some c'" by (simp add: krs_congestion_on_ack_def)
  from krs_congestion_on_ack_growth [OF cc_reach.created [OF c] _ c']
  have "cc_cwnd c' = 5 \<and> cc_phase c' = CC_SLOW_START" by (simp add: create_fields [OF c])
  with c c' show ?thesis by blast
qed

text \<open>
  The reaction to a loss. A timeout collapses the window to one packet and restarts slow start; a
  fast retransmit sets the window to the new threshold and stays in congestion avoidance. In both
  cases the threshold becomes half the window rounded to a double, at least one, and the window does
  not grow. Neither changes the number of packets in flight, the round trip estimate or the
  retransmission timeout: a packet the tracker gives up after its last retry stays counted in flight,
  and since the window is one packet after a timeout, one such packet is enough to refuse every
  further send.
\<close>

theorem krs_congestion_loss_spec:
  assumes "cc_reach n c" and "n < 9007199254740988"
  shows "\<exists>t f. krs_congestion_on_timeout_loss (Some c) = Some t \<and> krs_congestion_on_loss (Some c) = Some t \<and>
           krs_congestion_on_fast_retransmit_loss (Some c) = Some f \<and>
           cc_ssthresh t = max 1 (rnd64 (cc_cwnd c / 2)) \<and> cc_ssthresh f = cc_ssthresh t \<and>
           cc_cwnd t = 1 \<and> cc_phase t = CC_SLOW_START \<and>
           cc_cwnd f = cc_ssthresh f \<and> cc_phase f = CC_CONGESTION_AVOIDANCE \<and>
           cc_cwnd t \<le> cc_cwnd f \<and> cc_cwnd f \<le> cc_cwnd c \<and>
           (\<forall>c' \<in> {t, f}. cc_in_flight c' = cc_in_flight c \<and> cc_srtt_ms c' = cc_srtt_ms c \<and>
              cc_rttvar_ms c' = cc_rttvar_ms c \<and> cc_rto_ms c' = cc_rto_ms c) \<and>
           (1 \<le> cc_in_flight c \<longrightarrow> krs_congestion_can_send (Some t) = Some False)"
proof -
  have inv: "cc_inv n c" using assms by (auto intro: cc_reach_inv)
  have half: "halve_ssthresh c = max 1 (rnd64 (cc_cwnd c / 2))" by (simp add: halve_ssthresh_def Let_def)
  have "1 \<le> halve_ssthresh c" "halve_ssthresh c \<le> cc_cwnd c"
    using inv halve_ssthresh_bounds [of c] by (auto simp: cc_inv_def)
  then show ?thesis
    by (auto simp: krs_congestion_on_loss_def krs_congestion_on_timeout_loss_def
        krs_congestion_on_fast_retransmit_loss_def half krs_congestion_can_send_def u32_of_double_def not_less)
qed

theorem krs_congestion_loss_spec_witness:
  "\<exists>c t. krs_congestion_create True = Some c \<and>
         krs_congestion_on_timeout_loss (krs_congestion_on_send (Some c)) = Some t \<and>
         cc_cwnd t = 1 \<and> krs_congestion_can_send (Some t) = Some False"
proof -
  obtain c where c: "krs_congestion_create True = Some c" by (simp add: krs_congestion_create_def)
  obtain c' where c': "krs_congestion_on_send (Some c) = Some c'" by (simp add: krs_congestion_on_send_def)
  have "cc_in_flight c' = 1" using c c' by (auto simp: krs_congestion_create_def krs_congestion_on_send_def)
  with krs_congestion_loss_spec [OF cc_reach.send [OF cc_reach.created [OF c] c']] c c'
  show ?thesis by auto
qed


end
