(* ===== verification/Kronos_Packet_Counter.thy ===== *)
theory Kronos_Packet_Counter
  imports Kronos_Prelude
begin

text \<open>
  The per-channel packet counter of \<open>src/packet/packet_counter.c\<close>. A counter object is the array of
  its 256 counters; each counter is a \<open>LONG64\<close>, whose interlocked increment wraps at 64 bits and is
  read back as \<open>uint64_t\<close>, so it is a \<open>u64\<close>. Every operation is one interlocked instruction: threads
  that share a counter execute some sequence of these operations, and the theorem is about every
  such sequence.
\<close>

section \<open>Operations\<close>

abbreviation (input) MAX_CHANNEL_NUMBER :: nat where "MAX_CHANNEL_NUMBER \<equiv> 255"

record packet_counter =
  pc_counters :: "u64 list"

definition krs_packet_counter_create :: "bool \<Rightarrow> packet_counter option" where
  "krs_packet_counter_create alloc =
     (if alloc then Some \<lparr>pc_counters = replicate (MAX_CHANNEL_NUMBER + 1) 0\<rparr> else None)"

definition krs_packet_counter_destroy :: "packet_counter option \<Rightarrow> packet_counter option" where
  "krs_packet_counter_destroy counter = None"

text \<open>The index is a \<open>uint8_t\<close>; an access outside the array would be undefined.\<close>

definition krs_packet_counter_next ::
    "packet_counter option \<Rightarrow> u8 \<Rightarrow> (u64 \<times> packet_counter option) option" where
  "krs_packet_counter_next counter channel =
     (case counter of
        None \<Rightarrow> Some (0, None)
      | Some pc \<Rightarrow> do {
          v \<leftarrow> mem_get (pc_counters pc) (unat channel);
          cs \<leftarrow> mem_set (pc_counters pc) (unat channel) (v + 1);
          Some (v + 1, Some (pc\<lparr>pc_counters := cs\<rparr>)) })"

definition krs_packet_counter_current :: "packet_counter option \<Rightarrow> u8 \<Rightarrow> u64 option" where
  "krs_packet_counter_current counter channel =
     (case counter of None \<Rightarrow> Some 0 | Some pc \<Rightarrow> mem_get (pc_counters pc) (unat channel))"

definition krs_packet_counter_reset ::
    "packet_counter option \<Rightarrow> u8 \<Rightarrow> packet_counter option option" where
  "krs_packet_counter_reset counter channel =
     (case counter of
        None \<Rightarrow> Some None
      | Some pc \<Rightarrow> do { cs \<leftarrow> mem_set (pc_counters pc) (unat channel) 0; Some (Some (pc\<lparr>pc_counters := cs\<rparr>)) })"

section \<open>Sequences of operations\<close>

datatype counter_op = Next u8 | Current u8 | Reset u8

primrec op_channel :: "counter_op \<Rightarrow> u8" where
  "op_channel (Next ch) = ch"
| "op_channel (Current ch) = ch"
| "op_channel (Reset ch) = ch"

text \<open>Running a sequence of operations, with the value each of them returns (0 for a reset).\<close>

primrec run_op :: "packet_counter \<Rightarrow> counter_op \<Rightarrow> (u64 \<times> packet_counter) option" where
  "run_op pc (Next ch) =
     do { (v, pc') \<leftarrow> krs_packet_counter_next (Some pc) ch; pc'' \<leftarrow> pc'; Some (v, pc'') }"
| "run_op pc (Current ch) = do { v \<leftarrow> krs_packet_counter_current (Some pc) ch; Some (v, pc) }"
| "run_op pc (Reset ch) =
     do { pc' \<leftarrow> krs_packet_counter_reset (Some pc) ch; pc'' \<leftarrow> pc'; Some (0, pc'') }"

primrec run_ops :: "packet_counter \<Rightarrow> counter_op list \<Rightarrow> (u64 list \<times> packet_counter) option" where
  "run_ops pc [] = Some ([], pc)"
| "run_ops pc (p # ps) =
     do { (v, pc') \<leftarrow> run_op pc p; (vs, pc'') \<leftarrow> run_ops pc' ps; Some (v # vs, pc'') }"

text \<open>The specification: the number of increments of a channel since its last reset.\<close>

fun issued :: "u8 \<Rightarrow> counter_op list \<Rightarrow> nat" where
  "issued ch [] = 0"
| "issued ch (Next c # ps) = (if c = ch then Suc (issued ch ps) else issued ch ps)"
| "issued ch (Current c # ps) = issued ch ps"
| "issued ch (Reset c # ps) = (if c = ch then 0 else issued ch ps)"

text \<open>The value operation \<open>p\<close> returns after the operations \<open>past\<close> (the latest first).\<close>

primrec op_value :: "counter_op list \<Rightarrow> counter_op \<Rightarrow> u64" where
  "op_value past (Next ch) = of_nat (Suc (issued ch past))"
| "op_value past (Current ch) = of_nat (issued ch past)"
| "op_value past (Reset ch) = 0"

primrec op_values :: "counter_op list \<Rightarrow> counter_op list \<Rightarrow> u64 list" where
  "op_values past [] = []"
| "op_values past (p # ps) = op_value past p # op_values (p # past) ps"

section \<open>Lemmas\<close>

definition counts :: "packet_counter \<Rightarrow> counter_op list \<Rightarrow> bool" where
  "counts pc past \<longleftrightarrow>
     length (pc_counters pc) = 256 \<and> (\<forall>ch. pc_counters pc ! unat ch = of_nat (issued ch past))"

lemma channel_lt [simp]: "unat (ch :: u8) < 256"
  using unsigned_less [of ch] by simp

lemma unat_u8_inj: "unat (a :: u8) = unat b \<longleftrightarrow> a = b"
  by (simp add: word_unat_eq_iff)

lemma counts_create:
  "krs_packet_counter_create True = Some pc \<Longrightarrow> counts pc []"
  by (auto simp: krs_packet_counter_create_def counts_def nth_replicate)

lemma run_op_counts:
  assumes "counts pc past"
  shows "\<exists>pc'. run_op pc p = Some (op_value past p, pc') \<and> counts pc' (p # past)"
  using assms
  by (cases p) (auto simp: krs_packet_counter_next_def krs_packet_counter_current_def
      krs_packet_counter_reset_def mem_get_def mem_set_def counts_def nth_list_update unat_u8_inj)

lemma run_ops_counts:
  assumes "counts pc past"
  shows "\<exists>pc'. run_ops pc ps = Some (op_values past ps, pc') \<and> counts pc' (rev ps @ past)"
  using assms
proof (induction ps arbitrary: pc past)
  case (Cons p ps)
  obtain pc1 where step: "run_op pc p = Some (op_value past p, pc1)" "counts pc1 (p # past)"
    using run_op_counts [OF Cons.prems] by blast
  from Cons.IH [OF step(2)] step(1) show ?case by auto
qed simp

lemma op_values_nth: "i < length ps \<Longrightarrow> op_values past ps ! i = op_value (rev (take i ps) @ past) (ps ! i)"
proof (induction ps arbitrary: i past)
  case (Cons p ps)
  then show ?case by (cases i) auto
qed simp

lemma length_op_values [simp]: "length (op_values past ps) = length ps"
  by (induction ps arbitrary: past) simp_all

lemma issued_le: "issued ch ps \<le> length ps"
  by (induction ps rule: issued.induct) auto

lemma issued_append_grows:
  "Reset ch \<notin> set qs \<Longrightarrow> issued ch (qs @ ps) = length (filter (\<lambda>p. p = Next ch) qs) + issued ch ps"
  by (induction ch qs rule: issued.induct) auto

lemma issued_between:
  assumes "i < j" and "j < length ps" and "ps ! i = Next ch" and "Reset ch \<notin> set ps"
  shows "issued ch (rev (take i ps)) < issued ch (rev (take j ps))"
proof -
  have "take j ps = take i ps @ Next ch # take (j - Suc i) (drop (Suc i) ps)"
  proof -
    have "take j ps = take i ps @ take (j - i) (drop i ps)"
      using assms(1) take_add [of i "j - i" ps] by simp
    also have "drop i ps = Next ch # drop (Suc i) ps"
      using assms(1-3) by (metis Cons_nth_drop_Suc order_less_trans)
    also have "take (j - i) \<dots> = Next ch # take (j - Suc i) (drop (Suc i) ps)"
      using assms(1) by (simp add: Suc_diff_Suc [symmetric])
    finally show ?thesis .
  qed
  moreover have "Reset ch \<notin> set (take (j - Suc i) (drop (Suc i) ps))"
    using assms(4) by (meson in_set_dropD in_set_takeD)
  ultimately show ?thesis
    using issued_append_grows [of ch "rev (take (j - Suc i) (drop (Suc i) ps)) @ [Next ch]" "rev (take i ps)"]
    by simp
qed

section \<open>Properties\<close>

text \<open>
  Packet numbering. On a new counter every sequence of operations stays in bounds; each
  \<open>krs_packet_counter_next\<close> returns one more than the number of packets its channel issued since its
  last reset, whatever happens on other channels, and \<open>krs_packet_counter_current\<close> returns that
  number. So the identifiers issued on a channel that is not reset are distinct and never zero for
  fewer than 2^64 operations.
\<close>

theorem packet_counter_unique:
  assumes "krs_packet_counter_create True = Some pc" and "length ps < 2 ^ 64"
  shows "\<exists>pc'. run_ops pc ps = Some (op_values [] ps, pc') \<and>
           (\<forall>ch. krs_packet_counter_current (Some pc') ch = Some (of_nat (issued ch (rev ps)))) \<and>
           (\<forall>i ch. i < length ps \<longrightarrow> ps ! i = Next ch \<longrightarrow>
              unat (op_values [] ps ! i) = Suc (issued ch (rev (take i ps)))) \<and>
           (\<forall>i j ch. i < j \<longrightarrow> j < length ps \<longrightarrow> ps ! i = Next ch \<longrightarrow> ps ! j = Next ch \<longrightarrow>
              Reset ch \<notin> set ps \<longrightarrow> op_values [] ps ! i < op_values [] ps ! j)"
proof -
  obtain pc' where run: "run_ops pc ps = Some (op_values [] ps, pc')" "counts pc' (rev ps)"
    using run_ops_counts [OF counts_create [OF assms(1)], of ps] by auto
  have val: "unat (op_values [] ps ! i) = Suc (issued ch (rev (take i ps)))"
    if "i < length ps" "ps ! i = Next ch" for i ch
  proof -
    have "Suc (issued ch (rev (take i ps))) < 2 ^ 64"
      using issued_le [of ch "rev (take i ps)"] that(1) assms(2) by simp
    then have "unat (of_nat (Suc (issued ch (rev (take i ps)))) :: u64) = Suc (issued ch (rev (take i ps)))"
      by (intro unat_of_nat_small) simp
    then show ?thesis using that by (simp add: op_values_nth)
  qed
  have "op_values [] ps ! i < op_values [] ps ! j"
    if "i < j" "j < length ps" "ps ! i = Next ch" "ps ! j = Next ch" "Reset ch \<notin> set ps" for i j ch
    using that val [of i ch] val [of j ch] issued_between [of i j ps ch]
    by (simp add: word_less_nat_alt)
  moreover have "krs_packet_counter_current (Some pc') ch = Some (of_nat (issued ch (rev ps)))" for ch
    using run(2) by (simp add: krs_packet_counter_current_def mem_get_def counts_def)
  ultimately show ?thesis using run(1) val by blast
qed

theorem packet_counter_unique_witness:
  "\<exists>pc pc'. krs_packet_counter_create True = Some pc \<and>
            run_ops pc [Next 3, Next 7, Next 3, Current 3, Reset 3, Next 3] = Some ([1, 1, 2, 2, 0, 1], pc') \<and>
            krs_packet_counter_current (Some pc') 7 = Some 1"
proof -
  obtain pc where pc: "krs_packet_counter_create True = Some pc" by (simp add: krs_packet_counter_create_def)
  define ps where "ps = [Next 3, Next 7, Next 3, Current 3, Reset 3, Next 3]"
  have "op_values [] ps = [1, 1, 2, 2, 0, 1]" "issued 7 (rev ps) = 1" "length ps < 2 ^ 64"
    by (simp_all add: ps_def)
  with packet_counter_unique [OF pc, of ps] pc show ?thesis
    unfolding ps_def [symmetric] by (metis of_nat_1)
qed

end

