(* ===== verification/Kronos_Message_Pool.thy ===== *)
theory Kronos_Message_Pool
  imports Kronos_Prelude
begin

text \<open>
  The pool of receive buffers of \<open>src/connection/server/message_pool.c\<close>, with the structure of
  \<open>message_pool_internal.h\<close>. A message is named by its address (a 64-bit word; a null pointer is
  \<open>None\<close>), and the pool's storage by its base address, so that the range test of
  \<open>krs_message_pool_release\<close> is the test of the source. The address a \<open>malloc\<close> returned is an
  argument. \<open>LONG64\<close> counters are words that the source compares as signed numbers.

  The theorems follow the ownership of messages: the pool never hands out a message that is still in
  use, and the free stack never overflows as long as only messages in use are released.
\<close>

section \<open>State\<close>

type_synonym msg_ptr = u64

text \<open>
  \<open>sizeof(IncomingMessage_t)\<close>: 1500 bytes of data, a 4-byte length, a 28-byte \<open>sockaddr_in6\<close> and a
  2-byte port, padded to the 4-byte alignment.
\<close>

abbreviation (input) sizeof_IncomingMessage :: nat where "sizeof_IncomingMessage \<equiv> 1536"
abbreviation (input) KRS_MESSAGE_POOL_MAX_FALLBACK :: int where "KRS_MESSAGE_POOL_MAX_FALLBACK \<equiv> 1024"

record message_pool =
  pl_storage :: msg_ptr
  pl_free_stack :: "msg_ptr list"
  pl_free_count :: u32
  pl_capacity :: u32
  pl_fallback_count :: u64
  pl_outstanding_fallback_count :: u64

text \<open>The address of \<open>storage[i]\<close>.\<close>

definition slot_addr :: "msg_ptr \<Rightarrow> nat \<Rightarrow> msg_ptr" where
  "slot_addr storage i = storage + of_nat (i * sizeof_IncomingMessage)"

section \<open>Operations\<close>

text \<open>The loop that stores \<open>&storage[i]\<close> into \<open>free_stack[i]\<close>.\<close>

function fill_stack :: "msg_ptr \<Rightarrow> nat \<Rightarrow> nat \<Rightarrow> msg_ptr list" where
  "fill_stack storage cap i = (if i < cap then slot_addr storage i # fill_stack storage cap (Suc i) else [])"
  by pat_completeness auto
termination by (relation "measure (\<lambda>(_, cap, i). cap - i)") auto

declare fill_stack.simps [simp del]

definition krs_message_pool_create ::
    "u32 \<Rightarrow> bool \<Rightarrow> msg_ptr option \<Rightarrow> bool \<Rightarrow> message_pool option" where
  "krs_message_pool_create capacity alloc_pool storage alloc_stack =
     (let capacity = (if capacity = 0 then 256 else capacity) in
      if \<not> alloc_pool then None
      else case storage of
             None \<Rightarrow> None
           | Some st \<Rightarrow>
               if \<not> alloc_stack then None
               else Some \<lparr>pl_storage = st, pl_free_stack = fill_stack st (unat capacity) 0,
                          pl_free_count = capacity, pl_capacity = capacity,
                          pl_fallback_count = 0, pl_outstanding_fallback_count = 0\<rparr>)"

definition krs_message_pool_destroy :: "message_pool option \<Rightarrow> message_pool option" where
  "krs_message_pool_destroy pool = None"

definition krs_message_pool_acquire ::
    "message_pool option \<Rightarrow> msg_ptr option \<Rightarrow> (msg_ptr option \<times> message_pool option) option" where
  "krs_message_pool_acquire pool malloc_result =
     (case pool of
        None \<Rightarrow> Some (malloc_result, None)
      | Some p \<Rightarrow>
          if pl_free_count p > 0 then do {
            let n = pl_free_count p - 1;
            msg \<leftarrow> mem_get (pl_free_stack p) (unat n);
            Some (Some msg, Some (p\<lparr>pl_free_count := n\<rparr>)) }
          else
            let outstanding = pl_outstanding_fallback_count p + 1 in
            if sint outstanding > KRS_MESSAGE_POOL_MAX_FALLBACK
            then Some (None, Some (p\<lparr>pl_outstanding_fallback_count := outstanding - 1\<rparr>))
            else case malloc_result of
                   None \<Rightarrow> Some (None, Some (p\<lparr>pl_outstanding_fallback_count := outstanding - 1\<rparr>))
                 | Some msg \<Rightarrow>
                     Some (Some msg, Some (p\<lparr>pl_outstanding_fallback_count := outstanding,
                                            pl_fallback_count := pl_fallback_count p + 1\<rparr>)))"

definition krs_message_pool_get_fallback_count :: "message_pool option \<Rightarrow> u64" where
  "krs_message_pool_get_fallback_count pool = (case pool of None \<Rightarrow> 0 | Some p \<Rightarrow> pl_fallback_count p)"

text \<open>\<open>krs_message_pool_release\<close> also reports the message it gave to \<open>free\<close>, if any.\<close>

definition krs_message_pool_release ::
    "message_pool option \<Rightarrow> msg_ptr option \<Rightarrow> (message_pool option \<times> msg_ptr option) option" where
  "krs_message_pool_release pool msg =
     (case msg of
        None \<Rightarrow> Some (pool, None)
      | Some m \<Rightarrow>
          (case pool of
             None \<Rightarrow> Some (None, Some m)
           | Some p \<Rightarrow>
               let pool_start = pl_storage p;
                   pool_end = pool_start + ucast (pl_capacity p) * of_nat sizeof_IncomingMessage
               in if m \<ge> pool_start \<and> m < pool_end
                  then do {
                    stack \<leftarrow> mem_set (pl_free_stack p) (unat (pl_free_count p)) m;
                    Some (Some (p\<lparr>pl_free_stack := stack, pl_free_count := pl_free_count p + 1\<rparr>), None) }
                  else Some (Some (p\<lparr>pl_outstanding_fallback_count := pl_outstanding_fallback_count p - 1\<rparr>),
                             Some m)))"

section \<open>Ownership\<close>

text \<open>The messages of the storage block, and the addresses the block covers.\<close>

definition pool_slots :: "message_pool \<Rightarrow> msg_ptr set" where
  "pool_slots p = slot_addr (pl_storage p) ` {..<unat (pl_capacity p)}"

definition in_storage :: "message_pool \<Rightarrow> msg_ptr \<Rightarrow> bool" where
  "in_storage p m \<longleftrightarrow>
     unat (pl_storage p) \<le> unat m \<and>
     unat m < unat (pl_storage p) + unat (pl_capacity p) * sizeof_IncomingMessage"

definition free_msgs :: "message_pool \<Rightarrow> msg_ptr set" where
  "free_msgs p = set (take (unat (pl_free_count p)) (pl_free_stack p))"

text \<open>
  A block \<open>malloc\<close> returned lies in the address space. The end of the block is a valid address too (C
  guarantees the one-past-the-end pointer), so it does not wrap.
\<close>

definition storage_fits :: "msg_ptr \<Rightarrow> nat \<Rightarrow> bool" where
  "storage_fits st cap \<longleftrightarrow> unat st + cap * sizeof_IncomingMessage < 2 ^ 64"

text \<open>
  \<open>pool_inv p owned\<close>: the messages in use are \<open>owned\<close>. Every message of the storage is either free or in
  use, never both; the free stack holds each free message once; every other message in use is
  counted as outstanding, and at most 1024 of them exist.
\<close>

definition pool_inv :: "message_pool \<Rightarrow> msg_ptr set \<Rightarrow> bool" where
  "pool_inv p owned \<longleftrightarrow>
     storage_fits (pl_storage p) (unat (pl_capacity p)) \<and>
     length (pl_free_stack p) = unat (pl_capacity p) \<and> unat (pl_free_count p) \<le> unat (pl_capacity p) \<and>
     distinct (take (unat (pl_free_count p)) (pl_free_stack p)) \<and>
     free_msgs p \<inter> owned = {} \<and> finite owned \<and>
     pool_slots p = free_msgs p \<union> {m \<in> owned. in_storage p m} \<and>
     pl_outstanding_fallback_count p = of_nat (card {m \<in> owned. \<not> in_storage p m}) \<and>
     card {m \<in> owned. \<not> in_storage p m} \<le> 1024"

text \<open>A message \<open>malloc\<close> returns is not part of the storage block and not in use.\<close>

definition fresh_msg :: "message_pool \<Rightarrow> msg_ptr set \<Rightarrow> msg_ptr option \<Rightarrow> bool" where
  "fresh_msg p owned r \<longleftrightarrow> (case r of None \<Rightarrow> True | Some a \<Rightarrow> a \<notin> owned \<and> \<not> in_storage p a)"

section \<open>Lemmas\<close>

lemma fill_stack_eq: "fill_stack st cap i = map (slot_addr st) [i..<cap]"
  by (induction st cap i rule: fill_stack.induct) (simp add: fill_stack.simps upt_conv_Cons)

lemma unat_slot_addr:
  assumes "storage_fits st cap" and "i < cap"
  shows "unat (slot_addr st i) = unat st + i * sizeof_IncomingMessage"
proof -
  have "i * 1536 \<le> cap * 1536" using assms(2) by simp
  then have b: "unat st + i * 1536 < 2 ^ 64" using assms(1) unfolding storage_fits_def by linarith
  define k :: u64 where "k = of_nat (i * 1536)"
  have "unat k = i * 1536" unfolding k_def by (rule unat_of_nat_small) (use b in simp)
  with b show ?thesis unfolding slot_addr_def k_def [symmetric] by (simp add: unat_add_no_wrap)
qed

lemma inj_slot_addr:
  assumes "storage_fits st cap"
  shows "inj_on (slot_addr st) {..<cap}"
proof (rule inj_onI)
  fix i j assume ij: "i \<in> {..<cap}" "j \<in> {..<cap}" and eq: "slot_addr st i = slot_addr st j"
  have "unat st + i * 1536 = unat st + j * 1536"
    using unat_slot_addr [OF assms, of i] unat_slot_addr [OF assms, of j] ij unfolding eq by simp
  then show "i = j" by simp
qed

lemma card_pool_slots:
  "storage_fits (pl_storage p) (unat (pl_capacity p)) \<Longrightarrow> card (pool_slots p) = unat (pl_capacity p)"
  unfolding pool_slots_def by (simp add: card_image inj_slot_addr)

lemma slots_in_storage:
  "storage_fits (pl_storage p) (unat (pl_capacity p)) \<Longrightarrow> m \<in> pool_slots p \<Longrightarrow> in_storage p m"
  by (auto simp: pool_slots_def in_storage_def unat_slot_addr)

lemma range_test:
  assumes "storage_fits (pl_storage p) (unat (pl_capacity p))"
  shows "(m \<ge> pl_storage p \<and> m < pl_storage p + ucast (pl_capacity p) * of_nat sizeof_IncomingMessage)
         \<longleftrightarrow> in_storage p m"
proof -
  have b: "unat (pl_storage p) + unat (pl_capacity p) * 1536 < 2 ^ 64"
    using assms by (simp add: storage_fits_def)
  have c: "unat (ucast (pl_capacity p) :: u64) = unat (pl_capacity p)" by (rule unat_ucast_widen) simp
  have "unat (ucast (pl_capacity p) * of_nat 1536 :: u64) = unat (pl_capacity p) * 1536"
    using b by (subst unat_mult_lem [THEN iffD1]) (simp_all add: c)
  with b show ?thesis
    by (simp add: in_storage_def word_le_nat_alt word_less_nat_alt unat_add_no_wrap)
qed

lemma pool_create_inv:
  assumes "krs_message_pool_create capacity True (Some st) True = Some p"
    and "storage_fits st (unat (if capacity = 0 then 256 else capacity))"
  shows "pool_inv p {}"
proof -
  define cap where "cap = unat (if capacity = 0 then 256 else capacity :: u32)"
  have p: "pl_storage p = st" "pl_free_stack p = map (slot_addr st) [0..<cap]"
      "unat (pl_free_count p) = cap" "unat (pl_capacity p) = cap" "pl_outstanding_fallback_count p = 0"
    using assms(1) by (auto simp: krs_message_pool_create_def fill_stack_eq cap_def Let_def)
  have "storage_fits st cap" using assms(2) by (simp add: cap_def)
  moreover from inj_slot_addr [OF this] have "distinct (map (slot_addr st) [0..<cap])"
    by (simp add: distinct_map lessThan_atLeast0)
  ultimately show ?thesis
    by (simp add: pool_inv_def p pool_slots_def free_msgs_def lessThan_atLeast0)
qed

lemma pool_inv_stack_room:
  assumes "pool_inv p owned" and "m \<in> owned" and "in_storage p m"
  shows "unat (pl_free_count p) < unat (pl_capacity p)"
proof -
  have fits: "storage_fits (pl_storage p) (unat (pl_capacity p))" using assms(1) by (simp add: pool_inv_def)
  have "m \<in> pool_slots p - free_msgs p" using assms by (auto simp: pool_inv_def)
  moreover have "free_msgs p \<subseteq> pool_slots p" using assms(1) by (auto simp: pool_inv_def)
  moreover have "finite (pool_slots p)" by (simp add: pool_slots_def)
  ultimately have "card (free_msgs p) < card (pool_slots p)"
    by (intro psubset_card_mono) auto
  moreover have "card (free_msgs p) = unat (pl_free_count p)"
    using assms(1) by (auto simp: pool_inv_def free_msgs_def distinct_card)
  ultimately show ?thesis by (simp add: card_pool_slots [OF fits])
qed

text \<open>Taking a free message of the storage.\<close>

lemma acquire_slot:
  assumes inv: "pool_inv p owned" and "pl_free_count p > 0"
  shows "\<exists>m p'. krs_message_pool_acquire (Some p) r = Some (Some m, Some p') \<and> m \<in> free_msgs p \<and>
           pool_inv p' (insert m owned) \<and> pl_storage p' = pl_storage p \<and> pl_capacity p' = pl_capacity p"
proof -
  define n where "n = unat (pl_free_count p - 1)"
  have n: "unat (pl_free_count p) = Suc n"
    using assms(2) by (simp add: n_def unat_sub_no_wrap word_less_nat_alt)
  have len: "n < length (pl_free_stack p)" using inv n by (simp add: pool_inv_def)
  define m where "m = pl_free_stack p ! n"
  define p' where "p' = p\<lparr>pl_free_count := pl_free_count p - 1\<rparr>"
  have tk: "take (Suc n) (pl_free_stack p) = take n (pl_free_stack p) @ [m]"
    using len by (simp add: m_def take_Suc_conv_app_nth)
  have free: "free_msgs p = insert m (free_msgs p')" "m \<notin> free_msgs p'"
      "distinct (take (unat (pl_free_count p')) (pl_free_stack p'))"
    using inv by (auto simp: free_msgs_def p'_def n n_def [symmetric] tk pool_inv_def)
  have st: "in_storage p m" using inv free(1) by (intro slots_in_storage) (auto simp: pool_inv_def)
  have same: "pool_slots p' = pool_slots p" "in_storage p' = in_storage p"
      "pl_outstanding_fallback_count p' = pl_outstanding_fallback_count p"
    by (simp_all add: p'_def pool_slots_def in_storage_def fun_eq_iff)
  have out: "{a \<in> insert m owned. \<not> in_storage p a} = {a \<in> owned. \<not> in_storage p a}" using st by auto
  have "pool_slots p = free_msgs p' \<union> {a \<in> insert m owned. in_storage p a}"
    using inv free(1) st by (auto simp: pool_inv_def)
  moreover have "free_msgs p' \<inter> insert m owned = {}" using inv free by (auto simp: pool_inv_def)
  ultimately have "pool_inv p' (insert m owned)"
    using inv free(3) unfolding pool_inv_def same out
    by (simp add: p'_def n_def [symmetric] n)
  moreover have "krs_message_pool_acquire (Some p) r = Some (Some m, Some p')"
    using assms(2) len by (simp add: krs_message_pool_acquire_def mem_get_def n_def [symmetric] m_def p'_def)
  ultimately show ?thesis using free(1) by (auto simp: p'_def)
qed

text \<open>The fallback: no free message, so \<open>malloc\<close> decides, up to 1024 outstanding messages.\<close>

lemma sint_of_nat_u64:
  assumes "n < 2 ^ 63"
  shows "sint (of_nat n :: u64) = int n"
proof -
  have n: "int n < 2 ^ 63" using assms by (metis of_nat_less_iff of_nat_numeral of_nat_power)
  have "sint (of_nat n :: u64) = signed_take_bit 63 (int n)" by (simp add: signed_of_nat)
  also have "\<dots> = int n" using n by (simp add: signed_take_bit_int_eq_self)
  finally show ?thesis .
qed

lemma acquire_fallback:
  assumes inv: "pool_inv p owned" and empty: "pl_free_count p = 0" and fresh: "fresh_msg p owned r"
  shows "\<exists>m p'. krs_message_pool_acquire (Some p) r = Some (m, Some p') \<and>
           (if r = None \<or> card {a \<in> owned. \<not> in_storage p a} = 1024
            then m = None \<and> p' = p
            else m = r \<and> pool_inv p' (owned \<union> set_option m) \<and> pl_fallback_count p' = pl_fallback_count p + 1) \<and>
           pl_storage p' = pl_storage p \<and> pl_capacity p' = pl_capacity p"
proof -
  define k where "k = card {a \<in> owned. \<not> in_storage p a}"
  have k: "pl_outstanding_fallback_count p = of_nat k" "k \<le> 1024"
    using inv by (simp_all add: pool_inv_def k_def)
  have s: "sint (pl_outstanding_fallback_count p + 1) = int (Suc k)"
    using sint_of_nat_u64 [of "Suc k"] k by (simp add: add.commute)
  show ?thesis
  proof (cases "r = None \<or> k = 1024")
    case True
    have "krs_message_pool_acquire (Some p) r = Some (None, Some p)"
      using True k(2) by (cases r) (auto simp: krs_message_pool_acquire_def empty s Let_def)
    with True show ?thesis by (auto simp: k_def)
  next
    case False
    then obtain a where a: "r = Some a" by auto
    have nf: "a \<notin> owned" "\<not> in_storage p a" using fresh a by (auto simp: fresh_msg_def)
    define p' where "p' = p\<lparr>pl_outstanding_fallback_count := pl_outstanding_fallback_count p + 1,
                          pl_fallback_count := pl_fallback_count p + 1\<rparr>"
    have same: "pool_slots p' = pool_slots p" "in_storage p' = in_storage p" "free_msgs p' = free_msgs p"
      by (simp_all add: p'_def pool_slots_def in_storage_def free_msgs_def fun_eq_iff)
    have "{b \<in> insert a owned. \<not> in_storage p b} = insert a {b \<in> owned. \<not> in_storage p b}" using nf by auto
    then have card: "card {b \<in> insert a owned. \<not> in_storage p b} = Suc k"
      using nf inv by (simp add: k_def pool_inv_def)
    have st: "{b \<in> insert a owned. in_storage p b} = {b \<in> owned. in_storage p b}" using nf by auto
    have "free_msgs p \<subseteq> pool_slots p" using inv by (auto simp: pool_inv_def)
    then have "a \<notin> free_msgs p" using nf inv slots_in_storage [of p a] by (auto simp: pool_inv_def)
    with inv have "pool_inv p' (insert a owned)"
      unfolding pool_inv_def same card st using False k by (simp add: p'_def)
    moreover have "krs_message_pool_acquire (Some p) r = Some (Some a, Some p')"
      using False k(2) by (simp add: krs_message_pool_acquire_def empty s Let_def a p'_def)
    ultimately show ?thesis using False a by (auto simp: k_def p'_def)
  qed
qed

text \<open>Releasing a message in use.\<close>

lemma release_slot:
  assumes inv: "pool_inv p owned" and m: "m \<in> owned" "in_storage p m"
  shows "\<exists>p'. krs_message_pool_release (Some p) (Some m) = Some (Some p', None) \<and> pool_inv p' (owned - {m}) \<and>
           free_msgs p' = insert m (free_msgs p) \<and> pl_storage p' = pl_storage p \<and> pl_capacity p' = pl_capacity p"
proof -
  define n where "n = unat (pl_free_count p)"
  have n: "n < unat (pl_capacity p)" using pool_inv_stack_room [OF inv m] by (simp add: n_def)
  then have "Suc n < 2 ^ 32" using unat_less_power_u32 [of "pl_capacity p"] by simp
  then have fc: "unat (pl_free_count p + 1) = Suc n"
    by (subst unat_add_no_wrap) (simp_all add: n_def)
  have len: "length (pl_free_stack p) = unat (pl_capacity p)" using inv by (simp add: pool_inv_def)
  define p' where "p' = p\<lparr>pl_free_stack := (pl_free_stack p)[n := m], pl_free_count := pl_free_count p + 1\<rparr>"
  have tk: "take (Suc n) ((pl_free_stack p)[n := m]) = take n (pl_free_stack p) @ [m]"
    using n len by (simp add: take_Suc_conv_app_nth)
  have free: "free_msgs p' = insert m (free_msgs p)"
    by (auto simp: free_msgs_def p'_def fc tk n_def [symmetric])
  have "m \<notin> free_msgs p" using inv m(1) by (auto simp: pool_inv_def)
  then have dist: "distinct (take (unat (pl_free_count p')) (pl_free_stack p'))"
    using inv by (auto simp: p'_def fc tk pool_inv_def free_msgs_def n_def [symmetric])
  have same: "pool_slots p' = pool_slots p" "in_storage p' = in_storage p"
    by (simp_all add: p'_def pool_slots_def in_storage_def fun_eq_iff)
  have out: "{a \<in> owned - {m}. \<not> in_storage p a} = {a \<in> owned. \<not> in_storage p a}" using m by auto
  have "pool_slots p = free_msgs p' \<union> {a \<in> owned - {m}. in_storage p a}"
    using inv m by (auto simp: pool_inv_def free)
  moreover have "free_msgs p' \<inter> (owned - {m}) = {}" using inv by (auto simp: pool_inv_def free)
  ultimately have "pool_inv p' (owned - {m})"
    using inv dist n unfolding pool_inv_def same out by (simp add: p'_def fc)
  moreover have "krs_message_pool_release (Some p) (Some m) = Some (Some p', None)"
    using m inv range_test [of p m] n len
    by (simp add: krs_message_pool_release_def Let_def pool_inv_def mem_set_def p'_def n_def [symmetric])
  ultimately show ?thesis using free by (auto simp: p'_def)
qed

lemma release_heap:
  assumes inv: "pool_inv p owned" and m: "m \<in> owned" "\<not> in_storage p m"
  shows "\<exists>p'. krs_message_pool_release (Some p) (Some m) = Some (Some p', Some m) \<and> pool_inv p' (owned - {m}) \<and>
           free_msgs p' = free_msgs p \<and> pl_storage p' = pl_storage p \<and> pl_capacity p' = pl_capacity p"
proof -
  define p' where "p' = p\<lparr>pl_outstanding_fallback_count := pl_outstanding_fallback_count p - 1\<rparr>"
  have same: "pool_slots p' = pool_slots p" "in_storage p' = in_storage p" "free_msgs p' = free_msgs p"
    by (simp_all add: p'_def pool_slots_def in_storage_def free_msgs_def fun_eq_iff)
  define k where "k = card {a \<in> owned. \<not> in_storage p a}"
  have "{a \<in> owned - {m}. \<not> in_storage p a} = {a \<in> owned. \<not> in_storage p a} - {m}" by auto
  then have card: "card {a \<in> owned - {m}. \<not> in_storage p a} = k - 1"
    using m inv by (simp add: k_def pool_inv_def)
  have "0 < k" using m inv by (auto simp: k_def pool_inv_def card_gt_0_iff)
  then have "(of_nat k :: u64) - 1 = of_nat (k - 1)" by (simp add: of_nat_diff)
  moreover have "{a \<in> owned - {m}. in_storage p a} = {a \<in> owned. in_storage p a}" using m by auto
  ultimately have "pool_inv p' (owned - {m})"
    using inv unfolding pool_inv_def same card k_def [symmetric] by (auto simp: p'_def)
  moreover have "krs_message_pool_release (Some p) (Some m) = Some (Some p', Some m)"
    using m inv range_test [of p m]
    by (auto simp: krs_message_pool_release_def Let_def pool_inv_def p'_def)
  ultimately show ?thesis using same by (auto simp: p'_def)
qed

lemma free_msgs_empty_iff: "pool_inv p owned \<Longrightarrow> free_msgs p = {} \<longleftrightarrow> pl_free_count p = 0"
  by (auto simp: free_msgs_def pool_inv_def unat_eq_zero)

lemma owned_slot_iff: "pool_inv p owned \<Longrightarrow> m \<in> owned \<Longrightarrow> m \<in> pool_slots p \<longleftrightarrow> in_storage p m"
  using slots_in_storage [of p m] by (auto simp: pool_inv_def)

lemma acquire_any:
  assumes "pool_inv p owned" and "fresh_msg p owned r"
  shows "\<exists>m p'. krs_message_pool_acquire (Some p) r = Some (m, Some p') \<and>
           pl_storage p' = pl_storage p \<and> pl_capacity p' = pl_capacity p \<and>
           (case m of
              None \<Rightarrow> p' = p \<and> free_msgs p = {} \<and> (r = None \<or> card {a \<in> owned. \<not> in_storage p a} = 1024)
            | Some a \<Rightarrow> a \<notin> owned \<and> pool_inv p' (insert a owned) \<and> (free_msgs p \<noteq> {} \<longrightarrow> a \<in> pool_slots p))"
proof (cases "pl_free_count p = 0")
  case True
  from acquire_fallback [OF assms(1) True assms(2)] assms(2) show ?thesis
    by (auto simp: free_msgs_empty_iff [OF assms(1)] True fresh_msg_def split: if_splits)
next
  case False
  then have "pl_free_count p > 0" by (simp add: word_gt_0)
  from acquire_slot [OF assms(1) this, of r] assms(1) show ?thesis by (fastforce simp: pool_inv_def)
qed

lemma release_any:
  assumes "pool_inv p owned" and "m \<in> owned"
  shows "\<exists>p' freed. krs_message_pool_release (Some p) (Some m) = Some (Some p', freed) \<and>
           pl_storage p' = pl_storage p \<and> pl_capacity p' = pl_capacity p \<and>
           pool_inv p' (owned - {m}) \<and> freed = (if m \<in> pool_slots p then None else Some m) \<and>
           free_msgs p' = (if m \<in> pool_slots p then insert m (free_msgs p) else free_msgs p)"
  using release_slot [OF assms] release_heap [OF assms] owned_slot_iff [OF assms] by auto

section \<open>Properties\<close>

text \<open>
  C36. The ownership discipline of the pool. A new pool owns its whole storage. As long as the messages
  in use are those handed out and not yet released, an acquisition stays in bounds and returns a
  message that is not in use, or \<open>NULL\<close> only when the storage is exhausted and either \<open>malloc\<close> failed or
  1024 fallback messages are outstanding; and the release of a message in use stays in bounds (the
  free stack has room), returns a storage message to the free stack and any other message to \<open>free\<close>.
  Both keep every storage message in exactly one of the two sets, free and in use.
\<close>

theorem message_pool_ownership:
  assumes "pool_inv p owned" and "fresh_msg p owned r"
    and "krs_message_pool_create capacity True (Some st) True = Some p0"
    and "storage_fits st (unat (if capacity = 0 then 256 else capacity))"
  shows "pool_inv p0 {} \<and> free_msgs p0 = pool_slots p0 \<and>
         (\<exists>m p'. krs_message_pool_acquire (Some p) r = Some (m, Some p') \<and>
            (case m of
               None \<Rightarrow> p' = p \<and> free_msgs p = {} \<and> (r = None \<or> card {a \<in> owned. \<not> in_storage p a} = 1024)
             | Some a \<Rightarrow> a \<notin> owned \<and> pool_inv p' (insert a owned) \<and> (free_msgs p \<noteq> {} \<longrightarrow> a \<in> pool_slots p))) \<and>
         (\<forall>m \<in> owned. \<exists>p' freed. krs_message_pool_release (Some p) (Some m) = Some (Some p', freed) \<and>
            pool_inv p' (owned - {m}) \<and> freed = (if m \<in> pool_slots p then None else Some m) \<and>
            free_msgs p' = (if m \<in> pool_slots p then insert m (free_msgs p) else free_msgs p))"
proof -
  have p0: "pool_inv p0 {}" by (rule pool_create_inv [OF assms(3,4)])
  then have all: "free_msgs p0 = pool_slots p0" by (simp add: pool_inv_def)
  show ?thesis
    apply (intro conjI ballI)
       apply (rule p0)
      apply (rule all)
    using acquire_any [OF assms(1,2)] apply blast
    using release_any [OF assms(1)] apply blast
    done
qed

theorem message_pool_ownership_witness:
  "\<exists>p p'. krs_message_pool_create 2 True (Some 4096) True = Some p \<and> pool_inv p {} \<and>
     krs_message_pool_acquire (Some p) None = Some (Some 5632, Some p') \<and> pool_inv p' {5632}"
proof -
  obtain p where p: "krs_message_pool_create 2 True (Some 4096) True = Some p"
    by (simp add: krs_message_pool_create_def)
  have fits: "storage_fits 4096 (unat (if (2 :: u32) = 0 then 256 else 2 :: u32))" by (simp add: storage_fits_def)
  have inv: "pool_inv p {}" by (rule pool_create_inv [OF p fits])
  have "fresh_msg p {} None" by (simp add: fresh_msg_def)
  from message_pool_ownership [OF inv this p fits]
  obtain m p' where a: "krs_message_pool_acquire (Some p) None = Some (m, Some p')"
      "\<And>a. m = Some a \<Longrightarrow> pool_inv p' {a}" by fastforce
  have "krs_message_pool_acquire (Some p) None = Some (Some 5632, Some (p\<lparr>pl_free_count := 1\<rparr>))"
    using p by (auto simp: krs_message_pool_create_def krs_message_pool_acquire_def fill_stack_eq
        mem_get_def upt_rec slot_addr_def)
  with a p inv show ?thesis by auto
qed

end
