(* ===== verification/Kronos_Message_Queue.thy ===== *)
theory Kronos_Message_Queue
  imports Kronos_Message_Pool "HOL-Library.Sublist"
begin

text \<open>
  The queue between the network threads and the protocol thread of
  \<open>src/connection/server/message_queue.c\<close>: a growing ring buffer of message pointers. Its items are
  cells; a cell that was never written, or that \<open>krs_message_queue_drain\<close> cleared, is \<open>None\<close>, and using
  it as a message is undefined. The \<open>size_t\<close> members are natural numbers: the buffer holds
  \<open>capacity\<close> pointers of 8 bytes, so no index reaches the 64-bit bound, and the one product that can
  wrap, the size of the first allocation, is computed on 64 bits.

  The queue refers to the pool its messages return to by an identifier into a store of live pools, so
  that using a queue after its pool was destroyed is undefined. Each operation is one critical
  section; \<open>krs_message_queue_pop\<close> releases the lock while it sleeps, so it takes the sequence of its
  wake-ups, each with the result of the sleep and the queue as the other threads left it.
\<close>

section \<open>State\<close>

type_synonym pool_id = nat
type_synonym pool_store = "pool_id \<rightharpoonup> message_pool"

record message_queue =
  mq_items :: "msg_ptr option list"
  mq_head :: nat
  mq_tail :: nat
  mq_count :: nat
  mq_capacity :: nat
  mq_max_capacity :: nat
  mq_stopped :: bool
  mq_pool :: "pool_id option"

section \<open>Operations\<close>

definition krs_message_queue_create :: "u64 \<Rightarrow> bool \<Rightarrow> bool \<Rightarrow> message_queue option" where
  "krs_message_queue_create initial_capacity alloc_queue alloc_items =
     (let cap = (if initial_capacity = 0 then 64 else initial_capacity) in
      if \<not> alloc_queue then None
      else if \<not> alloc_items then None
      else Some \<lparr>mq_items = replicate (unat (cap * 8) div 8) None, mq_head = 0, mq_tail = 0, mq_count = 0,
                 mq_capacity = unat cap, mq_max_capacity = 65536, mq_stopped = False, mq_pool = None\<rparr>)"

text \<open>\<open>krs_message_pool_release\<close> on a pool pointer: a dangling pointer is undefined behaviour.\<close>

definition release_to ::
    "pool_store \<Rightarrow> pool_id option \<Rightarrow> msg_ptr \<Rightarrow> (pool_store \<times> msg_ptr option) option" where
  "release_to ps pool m =
     (case pool of
        None \<Rightarrow> do { (_, freed) \<leftarrow> krs_message_pool_release None (Some m); Some (ps, freed) }
      | Some a \<Rightarrow> do {
          p \<leftarrow> ps a;
          (p', freed) \<leftarrow> krs_message_pool_release (Some p) (Some m);
          Some (ps(a := p'), freed) })"

text \<open>Taking the item at the head, as the push on a full queue and the pop do.\<close>

definition queue_take :: "message_queue \<Rightarrow> (msg_ptr \<times> message_queue) option" where
  "queue_take q = do {
     c \<leftarrow> mem_get (mq_items q) (mq_head q);
     m \<leftarrow> c;
     Some (m, q\<lparr>mq_head := (mq_head q + 1) mod mq_capacity q, mq_count := mq_count q - 1\<rparr>) }"

text \<open>The copy loop of the growth.\<close>

function grow_copy ::
    "message_queue \<Rightarrow> nat \<Rightarrow> msg_ptr option list \<Rightarrow> msg_ptr option list option" where
  "grow_copy q i new_items =
     (if i < mq_count q then do {
        c \<leftarrow> mem_get (mq_items q) ((mq_head q + i) mod mq_capacity q);
        items \<leftarrow> mem_set new_items i c;
        grow_copy q (Suc i) items }
      else Some new_items)"
  by pat_completeness auto
termination by (relation "measure (\<lambda>(q, i, _). mq_count q - i)") auto

declare grow_copy.simps [simp del]

definition queue_grow :: "message_queue \<Rightarrow> message_queue option" where
  "queue_grow q = do {
     let new_cap = (if mq_capacity q * 2 > mq_max_capacity q then mq_max_capacity q else mq_capacity q * 2);
     items \<leftarrow> grow_copy q 0 (replicate new_cap None);
     Some (q\<lparr>mq_items := items, mq_head := 0, mq_tail := mq_count q, mq_capacity := new_cap\<rparr>) }"

definition queue_store :: "message_queue \<Rightarrow> msg_ptr \<Rightarrow> message_queue option" where
  "queue_store q m = do {
     items \<leftarrow> mem_set (mq_items q) (mq_tail q) (Some m);
     Some (q\<lparr>mq_items := items, mq_tail := (mq_tail q + 1) mod mq_capacity q, mq_count := mq_count q + 1\<rparr>) }"

text \<open>
  \<open>krs_message_queue_push\<close> returns the queue, the pools, and the message it gave to \<open>free\<close>, if any.
\<close>

definition krs_message_queue_push ::
    "message_queue option \<Rightarrow> msg_ptr option \<Rightarrow> bool \<Rightarrow> pool_store \<Rightarrow>
     (message_queue option \<times> pool_store \<times> msg_ptr option) option" where
  "krs_message_queue_push queue msg alloc ps =
     (case (queue, msg) of
        (Some q, Some m) \<Rightarrow>
          if mq_count q = mq_capacity q then
            if mq_capacity q \<ge> mq_max_capacity q then do {
              (oldest, q1) \<leftarrow> queue_take q;
              (ps1, freed) \<leftarrow> release_to ps (mq_pool q1) oldest;
              q2 \<leftarrow> queue_store q1 m;
              Some (Some q2, ps1, freed) }
            else if \<not> alloc then do {
              (ps1, freed) \<leftarrow> release_to ps (mq_pool q) m;
              Some (Some q, ps1, freed) }
            else do {
              q1 \<leftarrow> queue_grow q;
              q2 \<leftarrow> queue_store q1 m;
              Some (Some q2, ps, None) }
          else do { q1 \<leftarrow> queue_store q m; Some (Some q1, ps, None) }
      | _ \<Rightarrow> Some (queue, ps, None))"

datatype pop_outcome = Popped msg_ptr | Pop_null | Pop_waiting

fun krs_message_queue_pop ::
    "message_queue option \<Rightarrow> (bool \<times> message_queue) list \<Rightarrow> (pop_outcome \<times> message_queue option) option" where
  "krs_message_queue_pop None wakes = Some (Pop_null, None)"
| "krs_message_queue_pop (Some q) wakes =
     (if mq_count q = 0 \<and> \<not> mq_stopped q then
        (case wakes of
           [] \<Rightarrow> Some (Pop_waiting, Some q)
         | (woken, q') # wakes' \<Rightarrow>
             if \<not> woken then Some (Pop_null, Some q') else krs_message_queue_pop (Some q') wakes')
      else if mq_count q = 0 then Some (Pop_null, Some q)
      else do { (m, q') \<leftarrow> queue_take q; Some (Popped m, Some q') })"

declare krs_message_queue_pop.simps(2) [simp del]

definition krs_message_queue_stop :: "message_queue option \<Rightarrow> message_queue option" where
  "krs_message_queue_stop queue = map_option (\<lambda>q. q\<lparr>mq_stopped := True\<rparr>) queue"

definition krs_message_queue_msg_destroy :: "msg_ptr option \<Rightarrow> msg_ptr option \<times> msg_ptr option" where
  "krs_message_queue_msg_destroy msg = (None, msg)"

text \<open>The loop of \<open>krs_message_queue_destroy\<close>, which releases every queued message.\<close>

function release_loop ::
    "message_queue \<Rightarrow> nat \<Rightarrow> pool_store \<Rightarrow> msg_ptr list \<Rightarrow> (pool_store \<times> msg_ptr list) option" where
  "release_loop q i ps freed =
     (if i < mq_count q then do {
        c \<leftarrow> mem_get (mq_items q) ((mq_head q + i) mod mq_capacity q);
        m \<leftarrow> c;
        (ps', f) \<leftarrow> release_to ps (mq_pool q) m;
        release_loop q (Suc i) ps' (freed @ (case f of None \<Rightarrow> [] | Some x \<Rightarrow> [x])) }
      else Some (ps, freed))"
  by pat_completeness auto
termination by (relation "measure (\<lambda>(q, i, _). mq_count q - i)") auto

declare release_loop.simps [simp del]

definition krs_message_queue_destroy ::
    "message_queue option \<Rightarrow> pool_store \<Rightarrow> (message_queue option \<times> pool_store \<times> msg_ptr list) option" where
  "krs_message_queue_destroy queue ps =
     (case queue of
        None \<Rightarrow> Some (None, ps, [])
      | Some q \<Rightarrow> do { (ps', freed) \<leftarrow> release_loop q 0 ps []; Some (None, ps', freed) })"

text \<open>The loop of \<open>krs_message_queue_drain\<close>, which also clears the cells; it uses the pool it is given.\<close>

function drain_loop ::
    "message_queue \<Rightarrow> pool_id option \<Rightarrow> nat \<Rightarrow> pool_store \<Rightarrow> msg_ptr list \<Rightarrow>
     (message_queue \<times> pool_store \<times> msg_ptr list) option" where
  "drain_loop q pool i ps freed =
     (if i < mq_count q then do {
        let idx = (mq_head q + i) mod mq_capacity q;
        c \<leftarrow> mem_get (mq_items q) idx;
        m \<leftarrow> c;
        (ps', f) \<leftarrow> release_to ps pool m;
        items \<leftarrow> mem_set (mq_items q) idx None;
        drain_loop (q\<lparr>mq_items := items\<rparr>) pool (Suc i) ps' (freed @ (case f of None \<Rightarrow> [] | Some x \<Rightarrow> [x])) }
      else Some (q, ps, freed))"
  by pat_completeness auto
termination by (relation "measure (\<lambda>(q, _, i, _). mq_count q - i)") auto

declare drain_loop.simps [simp del]

definition krs_message_queue_drain ::
    "message_queue option \<Rightarrow> pool_id option \<Rightarrow> pool_store \<Rightarrow>
     (message_queue option \<times> pool_store \<times> msg_ptr list) option" where
  "krs_message_queue_drain queue pool ps =
     (case queue of
        None \<Rightarrow> Some (None, ps, [])
      | Some q \<Rightarrow> do {
          (q', ps', freed) \<leftarrow> drain_loop q pool 0 ps [];
          Some (Some (q'\<lparr>mq_count := 0, mq_head := 0, mq_tail := 0\<rparr>), ps', freed) })"

definition krs_message_queue_set_pool :: "message_queue option \<Rightarrow> pool_id option \<Rightarrow> message_queue option" where
  "krs_message_queue_set_pool queue pool = map_option (\<lambda>q. q\<lparr>mq_pool := pool\<rparr>) queue"

section \<open>The queue as a list\<close>

definition mq_view :: "message_queue \<Rightarrow> msg_ptr list" where
  "mq_view q = map (\<lambda>i. the (mq_items q ! ((mq_head q + i) mod mq_capacity q))) [0..<mq_count q]"

definition mq_wf :: "message_queue \<Rightarrow> bool" where
  "mq_wf q \<longleftrightarrow>
     0 < mq_capacity q \<and> length (mq_items q) = mq_capacity q \<and> mq_head q < mq_capacity q \<and>
     mq_count q \<le> mq_capacity q \<and> mq_tail q = (mq_head q + mq_count q) mod mq_capacity q \<and>
     (\<forall>i < mq_count q. mq_items q ! ((mq_head q + i) mod mq_capacity q) \<noteq> None)"

lemma length_mq_view [simp]: "length (mq_view q) = mq_count q"
  by (simp add: mq_view_def)

lemma mq_view_nth: "i < mq_count q \<Longrightarrow> mq_view q ! i = the (mq_items q ! ((mq_head q + i) mod mq_capacity q))"
  by (simp add: mq_view_def)

lemma mq_cell:
  "mq_wf q \<Longrightarrow> i < mq_count q \<Longrightarrow> mq_items q ! ((mq_head q + i) mod mq_capacity q) = Some (mq_view q ! i)"
  by (auto simp: mq_wf_def mq_view_nth)

lemma ring_index_inj:
  fixes h :: nat
  assumes "i < j" and "j < n"
  shows "(h + i) mod n \<noteq> (h + j) mod n"
proof
  assume "(h + i) mod n = (h + j) mod n"
  then have "n dvd (h + j) - (h + i)"
    using assms(1) mod_eq_dvd_iff_nat [of "h + i" "h + j" n] by simp
  with assms show False by (auto dest: dvd_imp_le)
qed

lemma queue_store_spec:
  assumes "mq_wf q" and "mq_count q < mq_capacity q"
  shows "\<exists>q'. queue_store q m = Some q' \<and> mq_wf q' \<and> mq_view q' = mq_view q @ [m] \<and>
           mq_capacity q' = mq_capacity q \<and> mq_max_capacity q' = mq_max_capacity q \<and>
           mq_stopped q' = mq_stopped q \<and> mq_pool q' = mq_pool q"
proof -
  define items where "items = (mq_items q)[mq_tail q := Some m]"
  define q' where "q' = q\<lparr>mq_items := items, mq_tail := (mq_tail q + 1) mod mq_capacity q,
                          mq_count := mq_count q + 1\<rparr>"
  have t: "mq_tail q = (mq_head q + mq_count q) mod mq_capacity q" "mq_tail q < length (mq_items q)"
    using assms by (auto simp: mq_wf_def)
  have old: "items ! ((mq_head q + i) mod mq_capacity q) = Some (mq_view q ! i)" if "i < mq_count q" for i
    using ring_index_inj [OF that assms(2), of "mq_head q"] mq_cell [OF assms(1) that]
    by (simp add: items_def t(1) nth_list_update)
  have new: "items ! ((mq_head q + mq_count q) mod mq_capacity q) = Some m"
    using t by (simp add: items_def)
  have "mq_view q' = mq_view q @ [m]"
    by (rule nth_equalityI) (auto simp: q'_def mq_view_def old new nth_append less_Suc_eq)
  moreover have "mq_wf q'"
    using assms t old new by (auto simp: mq_wf_def q'_def items_def less_Suc_eq mod_Suc_eq)
  moreover have "queue_store q m = Some q'"
    using t(2) by (simp add: queue_store_def mem_set_def q'_def items_def)
  ultimately show ?thesis by (auto simp: q'_def)
qed

lemma queue_take_spec:
  assumes "mq_wf q" and "mq_view q \<noteq> []"
  shows "\<exists>q'. queue_take q = Some (hd (mq_view q), q') \<and> mq_wf q' \<and> mq_view q' = tl (mq_view q) \<and>
           mq_capacity q' = mq_capacity q \<and> mq_max_capacity q' = mq_max_capacity q \<and>
           mq_stopped q' = mq_stopped q \<and> mq_pool q' = mq_pool q"
proof -
  define q' where "q' = q\<lparr>mq_head := (mq_head q + 1) mod mq_capacity q, mq_count := mq_count q - 1\<rparr>"
  have c: "0 < mq_count q" using assms(2) by (metis length_mq_view length_greater_0_conv)
  have idx: "((mq_head q + 1) mod mq_capacity q + i) mod mq_capacity q = (mq_head q + Suc i) mod mq_capacity q" for i
    by (simp add: mod_simps)
  have "mq_items q ! mq_head q = Some (mq_view q ! 0)"
    using mq_cell [OF assms(1) c] assms(1) by (simp add: mq_wf_def)
  then have "queue_take q = Some (hd (mq_view q), q')"
    using assms by (simp add: queue_take_def mem_get_def mq_wf_def q'_def hd_conv_nth)
  moreover have "mq_view q' = tl (mq_view q)"
    by (rule nth_equalityI) (use idx in \<open>auto simp: q'_def mq_view_nth nth_tl\<close>)
  moreover have "mq_wf q'"
  proof -
    have q'_fields: "mq_items q' = mq_items q" "mq_capacity q' = mq_capacity q" "mq_tail q' = mq_tail q"
        "mq_head q' = (mq_head q + 1) mod mq_capacity q" "mq_count q' = mq_count q - 1"
      by (simp_all add: q'_def)
    have "mq_items q ! ((mq_head q + Suc i) mod mq_capacity q) \<noteq> None" if "i < mq_count q - 1" for i
      using mq_cell [OF assms(1), of "Suc i"] that by simp
    moreover have "mq_tail q = (mq_head q + Suc (mq_count q - 1)) mod mq_capacity q"
      using c assms(1) by (simp add: mq_wf_def)
    ultimately show ?thesis
      using assms(1) unfolding mq_wf_def q'_fields idx by auto
  qed
  ultimately show ?thesis by (auto simp: q'_def)
qed

lemma grow_copy_spec:
  assumes "mq_wf q" and "i \<le> mq_count q" and "mq_count q \<le> length new" and "take i new = map Some (take i (mq_view q))"
  shows "\<exists>items. grow_copy q i new = Some items \<and> length items = length new \<and>
           take (mq_count q) items = map Some (mq_view q)"
  using assms(2-4)
proof (induction "mq_count q - i" arbitrary: i new)
  case 0
  then show ?case by (simp add: grow_copy.simps)
next
  case (Suc d)
  then have i: "i < mq_count q" by simp
  have r: "mem_get (mq_items q) ((mq_head q + i) mod mq_capacity q) = Some (Some (mq_view q ! i))"
    using assms(1) mq_cell [OF assms(1) i] by (simp add: mem_get_def mq_wf_def)
  have w: "mem_set new i (Some (mq_view q ! i)) = Some (new[i := Some (mq_view q ! i)])"
    using i Suc.prems(2) by (simp add: mem_set_def)
  have "take (Suc i) (new[i := Some (mq_view q ! i)]) = map Some (take (Suc i) (mq_view q))"
    using i Suc.prems by (simp add: take_Suc_conv_app_nth)
  with Suc.hyps(1) [of "Suc i" "new[i := Some (mq_view q ! i)]"] Suc.hyps(2) Suc.prems i r w
  show ?case by (simp add: grow_copy.simps [of q i])
qed

lemma queue_grow_spec:
  assumes "mq_wf q" and "mq_capacity q < mq_max_capacity q"
  shows "\<exists>q'. queue_grow q = Some q' \<and> mq_wf q' \<and> mq_view q' = mq_view q \<and> mq_count q' < mq_capacity q' \<and>
           mq_capacity q' = min (2 * mq_capacity q) (mq_max_capacity q) \<and> mq_max_capacity q' = mq_max_capacity q \<and>
           mq_stopped q' = mq_stopped q \<and> mq_pool q' = mq_pool q"
proof -
  define nc where "nc = min (2 * mq_capacity q) (mq_max_capacity q)"
  have nc: "mq_count q < nc" "0 < nc" using assms by (auto simp: nc_def mq_wf_def)
  obtain items where items: "grow_copy q 0 (replicate nc None) = Some items" "length items = nc"
      "take (mq_count q) items = map Some (mq_view q)"
    using grow_copy_spec [OF assms(1), of 0 "replicate nc None"] nc by auto
  have cell: "items ! i = Some (mq_view q ! i)" if "i < mq_count q" for i
    using arg_cong [OF items(3), of "\<lambda>xs. xs ! i"] that by simp
  define q' where "q' = q\<lparr>mq_items := items, mq_head := 0, mq_tail := mq_count q, mq_capacity := nc\<rparr>"
  have "mq_view q' = mq_view q"
    by (rule nth_equalityI) (use nc cell in \<open>auto simp: q'_def mq_view_nth\<close>)
  moreover have "mq_wf q'" using nc items(2) cell by (auto simp: mq_wf_def q'_def)
  moreover have "queue_grow q = Some q'"
  proof -
    have nc': "(if mq_capacity q * 2 > mq_max_capacity q then mq_max_capacity q else mq_capacity q * 2) = nc"
      by (simp add: nc_def min_def mult.commute)
    show ?thesis using items(1) unfolding queue_grow_def nc' by (simp add: q'_def)
  qed
  ultimately show ?thesis using nc by (auto simp: q'_def nc_def)
qed

section \<open>A queue interface\<close>

text \<open>
  What the operations of the queue rely on: storing and taking on the ring refine the operations on a
  list and keep the settings of the queue.
\<close>

locale fifo_ring =
  fixes ok :: "'q \<Rightarrow> bool" and view :: "'q \<Rightarrow> 'a list" and full :: "'q \<Rightarrow> bool" and settings :: "'q \<Rightarrow> 'c"
    and store :: "'q \<Rightarrow> 'a \<Rightarrow> 'q option" and take_head :: "'q \<Rightarrow> ('a \<times> 'q) option"
  assumes store_law: "ok q \<Longrightarrow> \<not> full q \<Longrightarrow>
          \<exists>q'. store q x = Some q' \<and> ok q' \<and> view q' = view q @ [x] \<and> settings q' = settings q"
    and take_law: "ok q \<Longrightarrow> view q \<noteq> [] \<Longrightarrow>
          \<exists>q'. take_head q = Some (hd (view q), q') \<and> ok q' \<and> view q' = tl (view q) \<and> settings q' = settings q \<and> \<not> full q'"
begin

lemma store_ok:
  assumes "ok q" and "\<not> full q"
  obtains q' where "store q x = Some q'" and "ok q'" and "view q' = view q @ [x]" and "settings q' = settings q"
  using store_law [OF assms, of x] by blast

lemma take_ok:
  assumes "ok q" and "view q = x # xs"
  obtains q' where "take_head q = Some (x, q')" and "ok q'" and "view q' = xs" and "settings q' = settings q"
    and "\<not> full q'"
  using take_law [OF assms(1)] assms(2) by auto

text \<open>The replacement of the oldest element by a new one, the step of a push on a full queue.\<close>

lemma replace_oldest:
  assumes "ok q" and "view q = y # ys"
  obtains q1 q2 where "take_head q = Some (y, q1)" and "settings q1 = settings q" and "store q1 x = Some q2"
    and "ok q2" and "view q2 = ys @ [x]" and "settings q2 = settings q"
proof -
  obtain q1 where q1: "take_head q = Some (y, q1)" "ok q1" "view q1 = ys" "settings q1 = settings q" "\<not> full q1"
    by (rule take_ok [OF assms])
  obtain q2 where "store q1 x = Some q2" "ok q2" "view q2 = view q1 @ [x]" "settings q2 = settings q1"
    by (rule store_ok [OF q1(2,5), of x])
  with q1 show thesis by (intro that [of q1 q2]) simp_all
qed

end

text \<open>The settings of a queue.\<close>

definition mq_settings :: "message_queue \<Rightarrow> nat \<times> bool \<times> pool_id option" where
  "mq_settings q = (mq_max_capacity q, mq_stopped q, mq_pool q)"

interpretation ring: fifo_ring mq_wf mq_view "\<lambda>q. mq_count q = mq_capacity q" mq_settings queue_store queue_take
proof unfold_locales
  fix q x assume q: "mq_wf q" "mq_count q \<noteq> mq_capacity q"
  then have "mq_count q < mq_capacity q" by (simp add: mq_wf_def)
  from queue_store_spec [OF q(1) this, of x]
  show "\<exists>q'. queue_store q x = Some q' \<and> mq_wf q' \<and> mq_view q' = mq_view q @ [x] \<and> mq_settings q' = mq_settings q"
    by (auto simp: mq_settings_def)
next
  fix q assume q: "mq_wf q" "mq_view q \<noteq> []"
  from queue_take_spec [OF q] obtain q' where q': "queue_take q = Some (hd (mq_view q), q')" "mq_wf q'"
      "mq_view q' = tl (mq_view q)" "mq_capacity q' = mq_capacity q" "mq_settings q' = mq_settings q"
    by (auto simp: mq_settings_def)
  moreover have "mq_count q' < mq_count q"
    using q(2) arg_cong [OF q'(3), of length] by (metis diff_less length_greater_0_conv length_mq_view length_tl zero_less_one)
  moreover have "mq_count q \<le> mq_capacity q" using q(1) by (simp add: mq_wf_def)
  ultimately show "\<exists>q'. queue_take q = Some (hd (mq_view q), q') \<and> mq_wf q' \<and> mq_view q' = tl (mq_view q) \<and>
      mq_settings q' = mq_settings q \<and> mq_count q' \<noteq> mq_capacity q'" by (intro exI [of _ q']) simp
qed

section \<open>Operations on a queue with its pool\<close>

lemma release_to_owned:
  assumes "ps a = Some p" and "pool_inv p owned" and "m \<in> owned"
  shows "\<exists>p' freed. release_to ps (Some a) m = Some (ps(a \<mapsto> p'), freed) \<and> pool_inv p' (owned - {m})"
  using release_any [OF assms(2,3)] assms(1) by (auto simp: release_to_def)

text \<open>
  \<open>mq_ok\<close>: a well-formed queue whose pool is alive, whose messages are distinct and in use, none of
  them in the hands of a thread; \<open>hands\<close> are the other messages in use.
\<close>

definition mq_ok :: "message_queue \<Rightarrow> pool_id \<Rightarrow> message_pool \<Rightarrow> msg_ptr set \<Rightarrow> bool" where
  "mq_ok q a p hands \<longleftrightarrow>
     mq_wf q \<and> mq_pool q = Some a \<and> distinct (mq_view q) \<and> set (mq_view q) \<inter> hands = {} \<and>
     pool_inv p (set (mq_view q) \<union> hands)"

text \<open>What a push does to the list of messages, on each branch.\<close>

definition push_view :: "message_queue \<Rightarrow> msg_ptr \<Rightarrow> bool \<Rightarrow> msg_ptr list" where
  "push_view q m alloc =
     (if mq_count q < mq_capacity q then mq_view q @ [m]
      else if mq_max_capacity q \<le> mq_capacity q then tl (mq_view q) @ [m]
      else if alloc then mq_view q @ [m]
      else mq_view q)"

lemma push_spec:
  assumes ok: "mq_ok q a p hands" and m: "m \<in> hands" and ps: "ps a = Some p"
  shows "\<exists>q' p' freed. krs_message_queue_push (Some q) (Some m) alloc ps = Some (Some q', ps(a \<mapsto> p'), freed) \<and>
           mq_ok q' a p' (hands - {m}) \<and> mq_view q' = push_view q m alloc \<and>
           mq_settings q' = mq_settings q"
proof -
  have wf: "mq_wf q" and pool: "mq_pool q = Some a" and dist: "distinct (mq_view q)"
    and sep: "set (mq_view q) \<inter> hands = {}" and inv: "pool_inv p (set (mq_view q) \<union> hands)"
    using ok by (simp_all add: mq_ok_def)
  have m': "m \<notin> set (mq_view q)" using sep m by auto
  have keep: "set (mq_view q @ [m]) \<union> (hands - {m}) = set (mq_view q) \<union> hands" using m by auto
  have psp: "ps(a \<mapsto> p) = ps" using ps by auto
  have le: "mq_count q \<le> mq_capacity q" "0 < mq_capacity q" using wf by (simp_all add: mq_wf_def)
  consider (room) "mq_count q < mq_capacity q"
    | (oldest) "mq_count q = mq_capacity q" "mq_max_capacity q \<le> mq_capacity q"
    | (fail) "mq_count q = mq_capacity q" "mq_capacity q < mq_max_capacity q" "\<not> alloc"
    | (grow) "mq_count q = mq_capacity q" "mq_capacity q < mq_max_capacity q" alloc
    using le(1) by linarith
  then show ?thesis
  proof cases
    case room
    obtain q' where q': "queue_store q m = Some q'" "mq_wf q'" "mq_view q' = mq_view q @ [m]"
        "mq_settings q' = mq_settings q"
      by (rule ring.store_ok [OF wf, of m]) (use room in simp_all)
    then have "mq_ok q' a p (hands - {m})"
      using dist sep m' inv keep pool by (auto simp: mq_ok_def mq_settings_def)
    with q' room psp show ?thesis
      by (intro exI [of _ q'] exI [of _ p] exI [of _ None])
        (simp add: krs_message_queue_push_def push_view_def)
  next
    case oldest
    obtain x xs where v: "mq_view q = x # xs"
      using oldest(1) le(2) by (metis length_mq_view list.exhaust list.size(3) less_irrefl)
    obtain q1 q2 where q1: "queue_take q = Some (x, q1)" "mq_settings q1 = mq_settings q"
        and q2: "queue_store q1 m = Some q2" "mq_wf q2" "mq_view q2 = xs @ [m]" "mq_settings q2 = mq_settings q"
      by (rule ring.replace_oldest [OF wf v, of m])
    from release_to_owned [where ps = ps and a = a and m = x, OF ps inv] v obtain p' freed where
      r: "release_to ps (Some a) x = Some (ps(a \<mapsto> p'), freed)" "pool_inv p' (set (mq_view q) \<union> hands - {x})"
      by auto
    have "set (mq_view q) \<union> hands - {x} = set (xs @ [m]) \<union> (hands - {m})" using v dist sep m by auto
    with r(2) have "mq_ok q2 a p' (hands - {m})"
      using q2 v dist sep m' pool by (auto simp: mq_ok_def mq_settings_def)
    with q1 q2 r(1) oldest v pool show ?thesis
      by (intro exI [of _ q2] exI [of _ p'] exI [of _ freed])
        (simp add: krs_message_queue_push_def push_view_def mq_settings_def)
  next
    case fail
    from release_to_owned [where ps = ps and a = a and m = m, OF ps inv] m obtain p' freed where
      r: "release_to ps (Some a) m = Some (ps(a \<mapsto> p'), freed)" "pool_inv p' (set (mq_view q) \<union> hands - {m})"
      by auto
    have "set (mq_view q) \<union> hands - {m} = set (mq_view q) \<union> (hands - {m})" using m' by auto
    with r(2) have "mq_ok q a p' (hands - {m})" using wf pool dist sep by (auto simp: mq_ok_def)
    with r(1) fail pool show ?thesis
      by (intro exI [of _ q] exI [of _ p'] exI [of _ freed]) (simp add: krs_message_queue_push_def push_view_def)
  next
    case grow
    from queue_grow_spec [OF wf grow(2)] obtain q1 where q1: "queue_grow q = Some q1" "mq_wf q1"
        "mq_view q1 = mq_view q" "mq_count q1 \<noteq> mq_capacity q1" "mq_settings q1 = mq_settings q"
      by (auto simp: mq_settings_def)
    obtain q' where q': "queue_store q1 m = Some q'" "mq_wf q'" "mq_view q' = mq_view q1 @ [m]"
        "mq_settings q' = mq_settings q1"
      by (rule ring.store_ok [OF q1(2,4), of m])
    then have "mq_ok q' a p (hands - {m})"
      using q1 dist sep m' inv keep pool by (auto simp: mq_ok_def mq_settings_def)
    with q' q1 grow psp show ?thesis
      by (intro exI [of _ q'] exI [of _ p] exI [of _ None])
        (simp add: krs_message_queue_push_def push_view_def)
  qed
qed

lemma pop_spec:
  assumes ok: "mq_ok q a p hands" and ne: "mq_view q \<noteq> []"
  shows "\<exists>q'. krs_message_queue_pop (Some q) wakes = Some (Popped (hd (mq_view q)), Some q') \<and>
           mq_ok q' a p (insert (hd (mq_view q)) hands) \<and> mq_view q' = tl (mq_view q)"
proof -
  obtain x xs where v: "mq_view q = x # xs" using ne by (cases "mq_view q") auto
  have "mq_wf q" using ok by (simp add: mq_ok_def)
  from ring.take_ok [OF this v] ok obtain q' where q': "queue_take q = Some (x, q')" "mq_wf q'" "mq_view q' = xs"
      "mq_pool q' = Some a" by (auto simp: mq_ok_def mq_settings_def)
  have c: "mq_count q \<noteq> 0" using arg_cong [OF v, of length] by simp
  have "set xs \<union> insert x hands = set (mq_view q) \<union> hands" using v by auto
  then have "mq_ok q' a p (insert x hands)" using ok q' v by (auto simp: mq_ok_def)
  moreover have "krs_message_queue_pop (Some q) wakes = Some (Popped x, Some q')"
    using c q' by (simp add: krs_message_queue_pop.simps(2))
  ultimately show ?thesis using v q' by auto
qed

lemma push_view_subseq:
  assumes "subseq (outs @ mq_view q) ins"
  shows "subseq (outs @ push_view q m alloc) (ins @ [m])"
proof -
  have add: "subseq (outs @ xs @ [m]) (ins @ [m])" if "subseq (outs @ xs) ins" for xs
    using list_emb_append_mono [OF that, of "[m]" "[m]"] by simp
  have tl: "subseq (outs @ tl (mq_view q)) ins"
    by (rule subseq_order.trans [OF _ assms]) (cases "mq_view q", auto intro: list_emb_append_mono)
  show ?thesis
    using add [OF assms] add [OF tl] assms by (auto simp: push_view_def intro: list_emb_prefix)
qed

text \<open>Releasing the rest of the queue.\<close>

definition heap_msgs :: "message_pool \<Rightarrow> msg_ptr list \<Rightarrow> msg_ptr list" where
  "heap_msgs p ms = filter (\<lambda>m. m \<notin> pool_slots p) ms"

lemma release_step:
  assumes "ps a = Some p" and "pool_inv p (set (m # ms) \<union> hands)" and "distinct (m # ms)"
    and "set (m # ms) \<inter> hands = {}"
  obtains p' freed where "release_to ps (Some a) m = Some (ps(a \<mapsto> p'), freed)"
    and "pool_inv p' (set ms \<union> hands)" and "heap_msgs p' = heap_msgs p"
    and "(case freed of None \<Rightarrow> [] | Some x \<Rightarrow> [x]) = heap_msgs p [m]"
proof -
  from release_any [OF assms(2), of m] obtain p' freed where
    r: "krs_message_pool_release (Some p) (Some m) = Some (Some p', freed)"
       "pl_storage p' = pl_storage p" "pl_capacity p' = pl_capacity p"
       "pool_inv p' (set (m # ms) \<union> hands - {m})" "freed = (if m \<in> pool_slots p then None else Some m)"
    by auto
  have "set (m # ms) \<union> hands - {m} = set ms \<union> hands" using assms(3,4) by auto
  then have "pool_inv p' (set ms \<union> hands)" using r(4) by simp
  moreover have "release_to ps (Some a) m = Some (ps(a \<mapsto> p'), freed)"
    using assms(1) r(1) by (simp add: release_to_def)
  moreover have "heap_msgs p' = heap_msgs p" using r(2,3) by (simp add: heap_msgs_def pool_slots_def fun_eq_iff)
  ultimately show thesis using r(5) by (intro that [of p' freed]) (simp_all add: heap_msgs_def)
qed

lemma release_loop_spec:
  assumes wf: "mq_wf q" and pool: "mq_pool q = Some a"
  shows "i \<le> mq_count q \<Longrightarrow> ps a = Some p \<Longrightarrow> pool_inv p (set (drop i (mq_view q)) \<union> hands) \<Longrightarrow>
         distinct (drop i (mq_view q)) \<Longrightarrow> set (drop i (mq_view q)) \<inter> hands = {} \<Longrightarrow>
         \<exists>p'. release_loop q i ps fr = Some (ps(a \<mapsto> p'), fr @ heap_msgs p (drop i (mq_view q))) \<and> pool_inv p' hands"
proof (induction "mq_count q - i" arbitrary: i ps p fr)
  case 0
  then have "ps(a \<mapsto> p) = ps" by (intro ext) simp
  with 0 show ?case by (simp add: release_loop.simps [of q i] heap_msgs_def) metis
next
  case (Suc d)
  then have i: "i < mq_count q" by simp
  have d: "drop i (mq_view q) = mq_view q ! i # drop (Suc i) (mq_view q)"
    using i by (simp add: Cons_nth_drop_Suc)
  have r: "mem_get (mq_items q) ((mq_head q + i) mod mq_capacity q) = Some (Some (mq_view q ! i))"
    using wf mq_cell [OF wf i] by (simp add: mem_get_def mq_wf_def)
  note prems = Suc.prems(3-5) [unfolded d]
  obtain p1 f where p1: "release_to ps (Some a) (mq_view q ! i) = Some (ps(a \<mapsto> p1), f)"
      "pool_inv p1 (set (drop (Suc i) (mq_view q)) \<union> hands)" "heap_msgs p1 = heap_msgs p"
      "(case f of None \<Rightarrow> [] | Some x \<Rightarrow> [x]) = heap_msgs p [mq_view q ! i]"
    by (rule release_step [where ps = ps and a = a, OF Suc.prems(2) prems(1) prems(2) prems(3)])
  have "\<exists>p'. release_loop q (Suc i) (ps(a \<mapsto> p1)) (fr @ heap_msgs p [mq_view q ! i]) =
          Some ((ps(a \<mapsto> p1))(a \<mapsto> p'), (fr @ heap_msgs p [mq_view q ! i]) @ heap_msgs p1 (drop (Suc i) (mq_view q)))
          \<and> pool_inv p' hands"
    by (rule Suc.hyps(1)) (use Suc.hyps(2) i p1(2) prems in auto)
  moreover have "heap_msgs p [mq_view q ! i] @ heap_msgs p (drop (Suc i) (mq_view q)) = heap_msgs p (drop i (mq_view q))"
    by (simp add: d heap_msgs_def)
  ultimately show ?case
    using i r pool p1(1,3,4) by (simp add: release_loop.simps [of q i])
qed

text \<open>The drain loop additionally clears each cell it has released.\<close>

lemma drain_loop_spec:
  assumes "0 < cap" and "length v = n" and "n \<le> cap"
  shows "i \<le> n \<Longrightarrow> mq_count q = n \<Longrightarrow> mq_capacity q = cap \<Longrightarrow> length (mq_items q) = cap \<Longrightarrow>
         (\<forall>j. i \<le> j \<longrightarrow> j < n \<longrightarrow> mq_items q ! ((mq_head q + j) mod cap) = Some (v ! j)) \<Longrightarrow>
         ps a = Some p \<Longrightarrow> pool_inv p (set (drop i v) \<union> hands) \<Longrightarrow> distinct (drop i v) \<Longrightarrow> set (drop i v) \<inter> hands = {} \<Longrightarrow>
         \<exists>items p'. drain_loop q (Some a) i ps fr =
             Some (q\<lparr>mq_items := items\<rparr>, ps(a \<mapsto> p'), fr @ heap_msgs p (drop i v)) \<and>
           length items = cap \<and> pool_inv p' hands"
proof (induction "n - i" arbitrary: i q ps p fr)
  case 0
  then have "ps(a \<mapsto> p) = ps" "i = n" by (auto intro!: ext)
  with 0 assms(2) show ?case
    by (intro exI [of _ "mq_items q"] exI [of _ p]) (simp add: drain_loop.simps heap_msgs_def)
next
  case (Suc d)
  then have i: "i < n" by simp
  have d: "drop i v = v ! i # drop (Suc i) v" using i assms(2) by (simp add: Cons_nth_drop_Suc)
  define idx where "idx = (mq_head q + i) mod cap"
  have idx: "idx < length (mq_items q)" "mq_items q ! idx = Some (v ! i)"
    using Suc.prems(4,5) assms(1) i by (simp_all add: idx_def)
  define q1 where "q1 = q\<lparr>mq_items := (mq_items q)[idx := None]\<rparr>"
  have rest: "\<forall>j. Suc i \<le> j \<longrightarrow> j < n \<longrightarrow> mq_items q1 ! ((mq_head q1 + j) mod cap) = Some (v ! j)"
  proof (intro allI impI)
    fix j assume j: "Suc i \<le> j" "j < n"
    then have "idx \<noteq> (mq_head q + j) mod cap"
      using ring_index_inj [of i j cap "mq_head q"] assms(3) by (simp add: idx_def)
    with Suc.prems(5) j show "mq_items q1 ! ((mq_head q1 + j) mod cap) = Some (v ! j)"
      by (simp add: q1_def nth_list_update)
  qed
  note prems = Suc.prems(7-9) [unfolded d]
  obtain p1 f where p1: "release_to ps (Some a) (v ! i) = Some (ps(a \<mapsto> p1), f)"
      "pool_inv p1 (set (drop (Suc i) v) \<union> hands)" "heap_msgs p1 = heap_msgs p"
      "(case f of None \<Rightarrow> [] | Some x \<Rightarrow> [x]) = heap_msgs p [v ! i]"
    by (rule release_step [where ps = ps and a = a, OF Suc.prems(6) prems(1) prems(2) prems(3)])
  have "\<exists>items p'. drain_loop q1 (Some a) (Suc i) (ps(a \<mapsto> p1)) (fr @ heap_msgs p [v ! i]) =
          Some (q1\<lparr>mq_items := items\<rparr>, (ps(a \<mapsto> p1))(a \<mapsto> p'), (fr @ heap_msgs p [v ! i]) @ heap_msgs p1 (drop (Suc i) v))
          \<and> length items = cap \<and> pool_inv p' hands"
    by (rule Suc.hyps(1)) (use Suc.hyps(2) Suc.prems(2-4) i p1(2) prems rest in \<open>auto simp: q1_def\<close>)
  moreover have "heap_msgs p [v ! i] @ heap_msgs p (drop (Suc i) v) = heap_msgs p (drop i v)"
    by (simp add: d heap_msgs_def)
  moreover have "drain_loop q (Some a) i ps fr =
      drain_loop q1 (Some a) (Suc i) (ps(a \<mapsto> p1)) (fr @ heap_msgs p [v ! i])"
    using i idx p1(1,4) Suc.prems(2,3)
    by (simp add: drain_loop.simps [of q _ i] mem_get_def mem_set_def q1_def idx_def [symmetric])
  ultimately show ?case by (auto simp: q1_def p1(3))
qed

lemma drain_spec:
  assumes ok: "mq_ok q a p hands" and ps: "ps a = Some p"
  shows "\<exists>q' p'. krs_message_queue_drain (Some q) (Some a) ps = Some (Some q', ps(a \<mapsto> p'), heap_msgs p (mq_view q)) \<and>
           mq_ok q' a p' hands \<and> mq_view q' = [] \<and> mq_settings q' = mq_settings q"
proof -
  have wf: "mq_wf q" and pool: "mq_pool q = Some a" using ok by (simp_all add: mq_ok_def)
  have "\<exists>items p'. drain_loop q (Some a) 0 ps [] =
             Some (q\<lparr>mq_items := items\<rparr>, ps(a \<mapsto> p'), [] @ heap_msgs p (drop 0 (mq_view q))) \<and>
           length items = mq_capacity q \<and> pool_inv p' hands"
    by (rule drain_loop_spec [where n = "mq_count q"])
      (use ok wf ps mq_cell [OF wf] in \<open>auto simp: mq_ok_def mq_wf_def\<close>)
  then obtain items p' where l: "drain_loop q (Some a) 0 ps [] =
             Some (q\<lparr>mq_items := items\<rparr>, ps(a \<mapsto> p'), heap_msgs p (mq_view q))"
           "length items = mq_capacity q" "pool_inv p' hands" by auto
  define q' where "q' = q\<lparr>mq_items := items, mq_count := 0, mq_head := 0, mq_tail := 0\<rparr>"
  have v: "mq_view q' = []" by (simp add: q'_def mq_view_def)
  have "mq_wf q'" using wf l(2) by (simp add: mq_wf_def q'_def)
  with l pool v have "mq_ok q' a p' hands" by (simp add: mq_ok_def) (simp add: q'_def)
  moreover have "krs_message_queue_drain (Some q) (Some a) ps = Some (Some q', ps(a \<mapsto> p'), heap_msgs p (mq_view q))"
    using l(1) by (simp add: krs_message_queue_drain_def q'_def)
  ultimately show ?thesis using v by (auto simp: q'_def mq_settings_def)
qed

section \<open>Threads sharing a queue and a pool\<close>

text \<open>
  The messages of a running server. The network threads acquire a message, fill it and push it (or
  release it); the protocol thread pops a message, handles it and releases it. Every operation is
  atomic (a critical section or an interlocked instruction), so an execution is a sequence of them.
  \<open>hands\<close> are the messages some thread holds, \<open>ins\<close> and \<open>outs\<close> the messages pushed and popped so far.
\<close>

inductive msg_reach ::
    "pool_id \<Rightarrow> message_queue \<Rightarrow> message_pool \<Rightarrow> msg_ptr set \<Rightarrow> msg_ptr list \<Rightarrow> msg_ptr list \<Rightarrow> bool"
  for a where
  created: "krs_message_queue_create cap True True = Some q0 \<Longrightarrow> unat cap < 2 ^ 61 \<Longrightarrow>
      krs_message_queue_set_pool (Some q0) (Some a) = Some q \<Longrightarrow>
      krs_message_pool_create pool_cap True (Some st) True = Some p \<Longrightarrow>
      storage_fits st (unat (if pool_cap = 0 then 256 else pool_cap)) \<Longrightarrow>
      msg_reach a q p {} [] []"
| acquire: "msg_reach a q p hands ins outs \<Longrightarrow> fresh_msg p (set (mq_view q) \<union> hands) r \<Longrightarrow>
      krs_message_pool_acquire (Some p) r = Some (Some m, Some p') \<Longrightarrow>
      msg_reach a q p' (insert m hands) ins outs"
| release: "msg_reach a q p hands ins outs \<Longrightarrow> m \<in> hands \<Longrightarrow>
      krs_message_pool_release (Some p) (Some m) = Some (Some p', freed) \<Longrightarrow>
      msg_reach a q p' (hands - {m}) ins outs"
| push: "msg_reach a q p hands ins outs \<Longrightarrow> m \<in> hands \<Longrightarrow>
      krs_message_queue_push (Some q) (Some m) alloc [a \<mapsto> p] = Some (Some q', ps, freed) \<Longrightarrow> ps a = Some p' \<Longrightarrow>
      msg_reach a q' p' (hands - {m}) (ins @ [m]) outs"
| pop: "msg_reach a q p hands ins outs \<Longrightarrow>
      krs_message_queue_pop (Some q) [] = Some (Popped m, Some q') \<Longrightarrow>
      msg_reach a q' p (insert m hands) ins (outs @ [m])"
| stop: "msg_reach a q p hands ins outs \<Longrightarrow> krs_message_queue_stop (Some q) = Some q' \<Longrightarrow>
      msg_reach a q' p hands ins outs"

lemma create_queue_wf:
  assumes "krs_message_queue_create cap True True = Some q" and "unat cap < 2 ^ 61"
  shows "mq_wf q" and "mq_view q = []"
proof -
  define c :: u64 where "c = (if cap = 0 then 64 else cap)"
  have "unat c < 2 ^ 61" "c \<noteq> 0" using assms(2) by (auto simp: c_def)
  moreover from this have "unat (c * 8) = unat c * 8" by (subst unat_mult_lem [THEN iffD1]) simp_all
  moreover have "q = \<lparr>mq_items = replicate (unat (c * 8) div 8) None, mq_head = 0, mq_tail = 0, mq_count = 0,
                 mq_capacity = unat c, mq_max_capacity = 65536, mq_stopped = False, mq_pool = None\<rparr>"
    using assms(1) by (simp add: krs_message_queue_create_def c_def Let_def)
  ultimately show "mq_wf q" "mq_view q = []" by (simp_all add: mq_wf_def mq_view_def unat_gt_0)
qed

lemma mq_wf_update [simp]:
  "mq_wf (q\<lparr>mq_stopped := b\<rparr>) = mq_wf q" "mq_wf (q\<lparr>mq_pool := r\<rparr>) = mq_wf q"
  "mq_view (q\<lparr>mq_stopped := b\<rparr>) = mq_view q" "mq_view (q\<lparr>mq_pool := r\<rparr>) = mq_view q"
  by (simp_all add: mq_wf_def mq_view_def)

lemma msg_reach_ok:
  "msg_reach a q p hands ins outs \<Longrightarrow> mq_ok q a p hands \<and> subseq (outs @ mq_view q) ins"
proof (induction rule: msg_reach.induct)
  case (created cap q0 q pool_cap st p)
  have "q = q0\<lparr>mq_pool := Some a\<rparr>" using created(3) by (simp add: krs_message_queue_set_pool_def)
  with create_queue_wf [OF created(1,2)] pool_create_inv [OF created(4,5)] show ?case by (simp add: mq_ok_def)
next
  case (acquire q p hands ins outs r m p')
  have inv: "pool_inv p (set (mq_view q) \<union> hands)" using acquire.IH by (simp add: mq_ok_def)
  have "m \<notin> set (mq_view q) \<union> hands" "pool_inv p' (insert m (set (mq_view q) \<union> hands))"
    using acquire_any [OF inv acquire(2)] acquire(3) by auto
  with acquire.IH show ?case by (auto simp: mq_ok_def)
next
  case (release q p hands ins outs m p' freed)
  have inv: "pool_inv p (set (mq_view q) \<union> hands)" using release.IH by (simp add: mq_ok_def)
  have "pool_inv p' (set (mq_view q) \<union> hands - {m})" using release_any [OF inv, of m] release(2,3) by auto
  moreover have "set (mq_view q) \<union> hands - {m} = set (mq_view q) \<union> (hands - {m})"
    using release(2) release.IH by (auto simp: mq_ok_def)
  ultimately show ?case using release.IH by (auto simp: mq_ok_def)
next
  case (push q p hands ins outs m alloc q' ps freed p')
  from push_spec [of q a p hands m "[a \<mapsto> p]" alloc] push push_view_subseq [of outs q ins m alloc]
  show ?case by auto
next
  case (pop q p hands ins outs m q')
  have "mq_count q \<noteq> 0"
    using pop.hyps(2) by (auto simp: krs_message_queue_pop.simps(2) split: if_splits)
  then have ne: "mq_view q \<noteq> []" using length_mq_view [of q] by force
  from pop_spec [OF conjunct1 [OF pop.IH] ne, of "[]"] pop.hyps(2) have "m = hd (mq_view q)"
      "mq_ok q' a p (insert m hands)" "mq_view q' = tl (mq_view q)" by auto
  with ne pop.IH show ?case by simp
next
  case (stop q p hands ins outs q')
  then show ?case by (auto simp: krs_message_queue_stop_def mq_ok_def)
qed

lemma pop_empty:
  assumes "mq_view q = []"
  shows "krs_message_queue_pop (Some q) [] = Some (if mq_stopped q then Pop_null else Pop_waiting, Some q)"
    and "krs_message_queue_pop (Some q) ((False, q1) # ws) = Some (Pop_null, Some (if mq_stopped q then q else q1))"
    and "\<not> mq_stopped q \<Longrightarrow> krs_message_queue_pop (Some q) ((True, q1) # ws) = krs_message_queue_pop (Some q1) ws"
  using assms length_mq_view [of q] by (simp_all add: krs_message_queue_pop.simps(2))

lemma destroy_spec:
  assumes "mq_ok q a p hands" and "ps a = Some p"
  shows "\<exists>p'. krs_message_queue_destroy (Some q) ps = Some (None, ps(a \<mapsto> p'), heap_msgs p (mq_view q)) \<and>
           pool_inv p' hands"
  using release_loop_spec [of q a 0 ps p hands "[]"] assms
  by (auto simp: krs_message_queue_destroy_def mq_ok_def)

section \<open>Properties\<close>

text \<open>
  C24. Messages are conserved. In every state the threads of a server can reach, no message is queued
  twice, none is both queued and held by a thread, none in use is on the free stack, and every message
  of the pool is free, queued or held: nothing leaks. So every further operation of a thread on a
  message it holds is within bounds.
\<close>

theorem message_conservation:
  assumes "msg_reach a q p hands ins outs"
  shows "distinct (mq_view q) \<and> set (mq_view q) \<inter> hands = {} \<and>
         free_msgs p \<inter> (set (mq_view q) \<union> hands) = {} \<and> pool_slots p \<subseteq> free_msgs p \<union> set (mq_view q) \<union> hands \<and>
         (\<forall>m \<in> hands. \<forall>alloc. krs_message_queue_push (Some q) (Some m) alloc [a \<mapsto> p] \<noteq> None \<and>
                        krs_message_pool_release (Some p) (Some m) \<noteq> None) \<and>
         krs_message_queue_pop (Some q) [] \<noteq> None \<and>
         (\<forall>r. fresh_msg p (set (mq_view q) \<union> hands) r \<longrightarrow> krs_message_pool_acquire (Some p) r \<noteq> None)"
proof -
  have ok: "mq_ok q a p hands" using msg_reach_ok [OF assms] ..
  then have inv: "pool_inv p (set (mq_view q) \<union> hands)" by (simp add: mq_ok_def)
  have sets: "distinct (mq_view q)" "set (mq_view q) \<inter> hands = {}"
      "free_msgs p \<inter> (set (mq_view q) \<union> hands) = {}" "pool_slots p \<subseteq> free_msgs p \<union> set (mq_view q) \<union> hands"
    using ok inv by (auto simp: mq_ok_def pool_inv_def)
  have "krs_message_queue_push (Some q) (Some m) alloc [a \<mapsto> p] \<noteq> None" if "m \<in> hands" for m alloc
    using push_spec [OF ok that, of "[a \<mapsto> p]" alloc] by auto
  moreover have "krs_message_pool_release (Some p) (Some m) \<noteq> None" if "m \<in> hands" for m
    using release_any [OF inv, of m] that by auto
  moreover have "krs_message_queue_pop (Some q) [] \<noteq> None"
    using pop_spec [OF ok, of "[]"] pop_empty(1) [of q] by (cases "mq_view q = []") auto
  moreover have "krs_message_pool_acquire (Some p) r \<noteq> None" if "fresh_msg p (set (mq_view q) \<union> hands) r" for r
    using acquire_any [OF inv that] by auto
  ultimately show ?thesis using sets by blast
qed

text \<open>A state that threads reach: one message acquired and pushed.\<close>

lemma msg_reach_example:
  "\<exists>q p. msg_reach 0 q p {} [5632] [] \<and> mq_view q = [5632]"
proof -
  obtain q0 where q0: "krs_message_queue_create 4 True True = Some q0" by (simp add: krs_message_queue_create_def)
  obtain q where q: "krs_message_queue_set_pool (Some q0) (Some 0) = Some q" by (simp add: krs_message_queue_set_pool_def)
  obtain p where p: "krs_message_pool_create 2 True (Some 4096) True = Some p" by (simp add: krs_message_pool_create_def)
  have "storage_fits 4096 (unat (if (2 :: u32) = 0 then 256 else 2 :: u32))" by (simp add: storage_fits_def)
  from msg_reach.created [OF q0 _ q p this] have r0: "msg_reach 0 q p {} [] []" by simp
  define p' where "p' = p\<lparr>pl_free_count := 1\<rparr>"
  have "krs_message_pool_acquire (Some p) None = Some (Some 5632, Some p')"
    using p by (auto simp: krs_message_pool_create_def krs_message_pool_acquire_def fill_stack_eq
        mem_get_def upt_rec slot_addr_def p'_def)
  from msg_reach.acquire [OF r0 _ this] have r1: "msg_reach 0 q p' {5632} [] []" by (simp add: fresh_msg_def)
  have v: "mq_view q = []" "mq_count q < mq_capacity q"
    using q0 q by (auto simp: krs_message_queue_create_def krs_message_queue_set_pool_def mq_view_def)
  from push_spec [OF conjunct1 [OF msg_reach_ok [OF r1]], of 5632 "[0 \<mapsto> p']" True]
  obtain q' p'' freed where
    q': "krs_message_queue_push (Some q) (Some 5632) True [0 \<mapsto> p'] = Some (Some q', [0 \<mapsto> p''], freed)"
      "mq_view q' = push_view q 5632 True" by auto
  from msg_reach.push [OF r1 _ q'(1), of p''] q'(2) v show ?thesis by (auto simp: push_view_def)
qed

theorem message_conservation_witness:
  "\<exists>q p. msg_reach 0 q p {} [5632] [] \<and> mq_view q = [5632] \<and> 5632 \<notin> free_msgs p"
proof -
  obtain q p where r: "msg_reach 0 q p {} [5632] []" "mq_view q = [5632]" using msg_reach_example by blast
  from message_conservation [OF r(1)] r show ?thesis by auto
qed

text \<open>
  C31. The queue refines a list of messages: a push appends the message, except that a full queue at its
  maximal capacity first gives up its oldest message and a queue that cannot grow gives up the new one;
  a pop of a non-empty queue returns the oldest message and removes it, a pop of an empty queue waits,
  or returns \<open>NULL\<close> when the queue was stopped. Consequently, whatever the threads do, the messages
  popped so far followed by the messages still queued are a subsequence of the messages pushed, in
  their order.
\<close>

theorem message_queue_fifo:
  assumes "msg_reach a q p hands ins outs"
  shows "subseq (outs @ mq_view q) ins \<and>
         (\<forall>m alloc. m \<in> hands \<longrightarrow>
            (\<exists>q' p' freed. krs_message_queue_push (Some q) (Some m) alloc [a \<mapsto> p] = Some (Some q', [a \<mapsto> p'], freed) \<and>
               mq_view q' = (if mq_count q < mq_capacity q then mq_view q @ [m]
                             else if mq_max_capacity q \<le> mq_capacity q then tl (mq_view q) @ [m]
                             else if alloc then mq_view q @ [m] else mq_view q))) \<and>
         (if mq_view q = []
          then krs_message_queue_pop (Some q) [] = Some (if mq_stopped q then Pop_null else Pop_waiting, Some q)
          else \<exists>q'. krs_message_queue_pop (Some q) [] = Some (Popped (hd (mq_view q)), Some q') \<and>
                 mq_view q' = tl (mq_view q))"
proof -
  have ok: "mq_ok q a p hands" and sub: "subseq (outs @ mq_view q) ins" using msg_reach_ok [OF assms] by simp_all
  have "\<exists>q' p' freed. krs_message_queue_push (Some q) (Some m) alloc [a \<mapsto> p] = Some (Some q', [a \<mapsto> p'], freed) \<and>
          mq_view q' = push_view q m alloc" if "m \<in> hands" for m alloc
    using push_spec [OF ok that, of "[a \<mapsto> p]" alloc] by auto
  moreover have "\<exists>q'. krs_message_queue_pop (Some q) [] = Some (Popped (hd (mq_view q)), Some q') \<and>
          mq_view q' = tl (mq_view q)" if "mq_view q \<noteq> []"
    using pop_spec [OF ok that, of "[]"] by auto
  ultimately show ?thesis using sub pop_empty(1) [of q] unfolding push_view_def by simp
qed

theorem message_queue_fifo_witness:
  "\<exists>q p q'. msg_reach 0 q p {} [5632] [] \<and> krs_message_queue_pop (Some q) [] = Some (Popped 5632, Some q')"
proof -
  obtain q p where r: "msg_reach 0 q p {} [5632] []" "mq_view q = [5632]" using msg_reach_example by blast
  from message_queue_fifo [OF r(1)] r show ?thesis by auto
qed

text \<open>
  Draining or destroying a queue whose pool is alive returns every queued message to the pool or to
  \<open>free\<close>, exactly once each and in order, and leaves the messages in the threads' hands; after a drain
  the queue is empty with its settings kept. Destroying a queue that still holds messages after its pool
  was destroyed is undefined: the pool pointer dangles.
\<close>

theorem message_queue_drain_spec:
  assumes "mq_ok q a p hands"
  shows "\<exists>q' p1 p2.
           krs_message_queue_drain (Some q) (Some a) [a \<mapsto> p] = Some (Some q', [a \<mapsto> p1], heap_msgs p (mq_view q)) \<and>
           mq_view q' = [] \<and> mq_ok q' a p1 hands \<and> mq_settings q' = mq_settings q \<and>
           krs_message_queue_destroy (Some q) [a \<mapsto> p] = Some (None, [a \<mapsto> p2], heap_msgs p (mq_view q)) \<and>
           pool_inv p2 hands \<and>
           (mq_view q \<noteq> [] \<longrightarrow> krs_message_queue_destroy (Some q) Map.empty = None)"
proof -
  have wf: "mq_wf q" and pool: "mq_pool q = Some a" using assms by (simp_all add: mq_ok_def)
  have "krs_message_queue_destroy (Some q) Map.empty = None" if "mq_view q \<noteq> []"
  proof -
    have c: "0 < mq_count q" using that by (metis length_mq_view length_greater_0_conv)
    have "mem_get (mq_items q) ((mq_head q + 0) mod mq_capacity q) = Some (Some (mq_view q ! 0))"
      using wf mq_cell [OF wf c] by (simp add: mem_get_def mq_wf_def)
    with c pool show ?thesis
      by (simp add: krs_message_queue_destroy_def release_loop.simps [of q 0] release_to_def)
  qed
  with drain_spec [OF assms, of "[a \<mapsto> p]"] destroy_spec [OF assms, of "[a \<mapsto> p]"] show ?thesis by auto
qed

theorem message_queue_drain_spec_witness:
  "\<exists>q p q' p1. msg_reach 0 q p {} [5632] [] \<and> mq_view q = [5632] \<and>
     krs_message_queue_drain (Some q) (Some 0) [0 \<mapsto> p] = Some (Some q', [0 \<mapsto> p1], heap_msgs p [5632]) \<and>
     krs_message_queue_destroy (Some q) Map.empty = None"
proof -
  obtain q p where r: "msg_reach 0 q p {} [5632] []" "mq_view q = [5632]" using msg_reach_example by blast
  from message_queue_drain_spec [OF conjunct1 [OF msg_reach_ok [OF r(1)]]] r show ?thesis by auto
qed

end
