(* ===== verification/Kronos_Network.thy ===== *)
theory Kronos_Network
  imports Kronos_Error
begin

text \<open>
  Addresses and sockets: \<open>src/connection/network/*.c\<close>. An \<open>Address_t\<close> is the 16 bytes of an
  \<open>in6_addr\<close>, a \<open>PortAddress_t\<close> the members of a \<open>sockaddr_in6\<close>. The operating system is outside: the
  address parser \<open>inet_pton\<close> is a parameter (from the characters of a string to the bytes of an
  address), the handle \<open>socket\<close> returned and the results of \<open>bind\<close> and \<open>WSAStartup\<close> are arguments, and
  the system calls a function makes are returned as a list of events.
\<close>

section \<open>Addresses\<close>

type_synonym address = bytes

record port_address =
  sin6_family :: u16
  sin6_port :: u16
  sin6_flowinfo :: u32
  sin6_addr :: address
  sin6_scope_id :: u32

record address_create_r =
  adr_base :: krs_result_base
  adr_address :: address

abbreviation (input) MAX_IPV4_LENGTH :: nat where "MAX_IPV4_LENGTH \<equiv> 16"
abbreviation (input) MAX_IPV6_LENGTH :: nat where "MAX_IPV6_LENGTH \<equiv> 46"
abbreviation (input) AF_INET6 :: u16 where "AF_INET6 \<equiv> 23"

definition zero_address :: address where
  "zero_address = replicate 16 0"

text \<open>\<open>strnlen\<close> reads until the first null character or the limit; leaving the memory is undefined.\<close>

fun strnlen :: "bytes \<Rightarrow> nat \<Rightarrow> nat option" where
  "strnlen cs 0 = Some 0"
| "strnlen [] (Suc n) = None"
| "strnlen (c # cs) (Suc n) = (if c = 0 then Some 0 else map_option Suc (strnlen cs n))"

text \<open>The characters of a C string, undefined without a terminating null character.\<close>

fun c_string :: "bytes \<Rightarrow> bytes option" where
  "c_string [] = None"
| "c_string (c # cs) = (if c = 0 then Some [] else map_option ((#) c) (c_string cs))"

text \<open>The bytes 0 to 9 are zero, 10 and 11 are \<open>0xFF\<close>, the last four are the IPv4 address.\<close>

definition ipv4_mapped :: "bytes \<Rightarrow> address option" where
  "ipv4_mapped v4 = do {
     r1 \<leftarrow> mem_set zero_address 10 0xFF;
     r2 \<leftarrow> mem_set r1 11 0xFF;
     four \<leftarrow> mem_read v4 0 4;
     mem_write r2 12 four }"

text \<open>\<open>ip[ip_length - 1]\<close> is evaluated on \<open>int\<close>, so it is out of bounds when \<open>ip_length\<close> is 0.\<close>

definition last_char :: "bytes \<Rightarrow> u8 \<Rightarrow> u8 option" where
  "last_char ip ip_length = (if ip_length = 0 then None else mem_get ip (unat ip_length - 1))"

definition krs_network_address_ipv4_create_len ::
    "(bytes \<Rightarrow> bytes option) \<Rightarrow> bytes option \<Rightarrow> u8 \<Rightarrow> address option" where
  "krs_network_address_ipv4_create_len inet_pton4 ip ip_length =
     (case ip of
        None \<Rightarrow> Some zero_address
      | Some s \<Rightarrow>
          if unat ip_length > MAX_IPV4_LENGTH then Some zero_address
          else do {
            c \<leftarrow> last_char s ip_length;
            if c \<noteq> 0 then Some zero_address
            else do {
              str \<leftarrow> c_string s;
              case inet_pton4 str of
                None \<Rightarrow> Some zero_address
              | Some v4 \<Rightarrow> ipv4_mapped v4 } })"

definition krs_network_address_ipv4_create_len_s ::
    "(bytes \<Rightarrow> bytes option) \<Rightarrow> bytes option \<Rightarrow> u8 \<Rightarrow> address_create_r option" where
  "krs_network_address_ipv4_create_len_s inet_pton4 ip ip_length =
     (case ip of
        None \<Rightarrow> Some \<lparr>adr_base = krs_lib_error_result_base_w_msg KRS_ERR_NULL_POINTER ''ip is NULL'',
                       adr_address = zero_address\<rparr>
      | Some s \<Rightarrow>
          if unat ip_length > MAX_IPV4_LENGTH
          then Some \<lparr>adr_base = krs_lib_error_result_base_w_msg KRS_ERR_TOO_LONG
                                   ''ip_length exceeds MAX_IPV4_LENGTH'', adr_address = zero_address\<rparr>
          else do {
            c \<leftarrow> last_char s ip_length;
            if c \<noteq> 0
            then Some \<lparr>adr_base = krs_lib_error_result_base_w_msg KRS_ERR_NOT_NULL_TERMINATED
                                     ''ip is not null-terminated within ip_length'', adr_address = zero_address\<rparr>
            else do {
              str \<leftarrow> c_string s;
              case inet_pton4 str of
                None \<Rightarrow> Some \<lparr>adr_base = krs_lib_error_result_base_w_msg KRS_ERR_NETWORK_INVALID_IP
                                            ''ip is not a valid IPv4 address'', adr_address = zero_address\<rparr>
              | Some v4 \<Rightarrow> do {
                  address \<leftarrow> ipv4_mapped v4;
                  Some \<lparr>adr_base = krs_lib_error_result_base_suc, adr_address = address\<rparr> } } })"

definition krs_network_address_ipv4_create ::
    "(bytes \<Rightarrow> bytes option) \<Rightarrow> bytes option \<Rightarrow> address option" where
  "krs_network_address_ipv4_create inet_pton4 ip =
     (case ip of
        None \<Rightarrow> Some zero_address
      | Some s \<Rightarrow> do {
          len \<leftarrow> strnlen s MAX_IPV4_LENGTH;
          if len \<ge> MAX_IPV4_LENGTH then Some zero_address
          else krs_network_address_ipv4_create_len inet_pton4 ip (of_nat (len + 1)) })"

definition krs_network_address_ipv4_create_s ::
    "(bytes \<Rightarrow> bytes option) \<Rightarrow> bytes option \<Rightarrow> address_create_r option" where
  "krs_network_address_ipv4_create_s inet_pton4 ip =
     (case ip of
        None \<Rightarrow> Some \<lparr>adr_base = krs_lib_error_result_base_w_msg KRS_ERR_NULL_POINTER ''ip is NULL'',
                       adr_address = zero_address\<rparr>
      | Some s \<Rightarrow> do {
          len \<leftarrow> strnlen s MAX_IPV4_LENGTH;
          if len \<ge> MAX_IPV4_LENGTH
          then Some \<lparr>adr_base = krs_lib_error_result_base_w_msg KRS_ERR_TOO_LONG ''ip exceeds MAX_IPV4_LENGTH'',
                     adr_address = zero_address\<rparr>
          else krs_network_address_ipv4_create_len_s inet_pton4 ip (of_nat (len + 1)) })"

definition krs_network_address_ipv6_create ::
    "(bytes \<Rightarrow> bytes option) \<Rightarrow> bytes option \<Rightarrow> u8 \<Rightarrow> address option" where
  "krs_network_address_ipv6_create inet_pton6 ip ip_length =
     (case ip of
        None \<Rightarrow> Some zero_address
      | Some s \<Rightarrow>
          if unat ip_length > MAX_IPV6_LENGTH then Some zero_address
          else do {
            c \<leftarrow> last_char s ip_length;
            if c \<noteq> 0 then Some zero_address
            else do {
              str \<leftarrow> c_string s;
              Some (case inet_pton6 str of None \<Rightarrow> zero_address | Some v6 \<Rightarrow> v6) } })"

text \<open>\<open>htons\<close> swaps the bytes on the little-endian machines the library runs on.\<close>

definition htons :: "u16 \<Rightarrow> u16" where
  "htons x = push_bit 8 x OR drop_bit 8 x"

definition krs_network_port_address_create :: "u16 \<Rightarrow> address \<Rightarrow> port_address" where
  "krs_network_port_address_create port address =
     \<lparr>sin6_family = AF_INET6, sin6_port = htons port, sin6_flowinfo = 0, sin6_addr = address, sin6_scope_id = 0\<rparr>"

definition krs_network_port_address_equals :: "port_address option \<Rightarrow> port_address option \<Rightarrow> bool" where
  "krs_network_port_address_equals a b =
     (case (a, b) of
        (Some x, Some y) \<Rightarrow>
          if sin6_family x \<noteq> sin6_family y then False
          else if sin6_port x \<noteq> sin6_port y then False
          else sin6_addr x = sin6_addr y
      | _ \<Rightarrow> False)"

section \<open>Sockets\<close>

type_synonym socket = u64

abbreviation (input) INVALID_SOCKET :: socket where "INVALID_SOCKET \<equiv> - 1"

datatype socket_call =
    Setsockopt_dual_stack socket
  | Setsockopt_rcvtimeo socket u32
  | Ioctl_connreset socket
  | Bind socket port_address
  | Closesocket socket

definition krs_network_udp_socket_ref_create ::
    "port_address \<Rightarrow> socket \<Rightarrow> bool \<Rightarrow> socket \<times> socket_call list" where
  "krs_network_udp_socket_ref_create addr s bind_fails =
     (if sin6_family addr \<noteq> AF_INET6 then (INVALID_SOCKET, [])
      else if s = INVALID_SOCKET then (INVALID_SOCKET, [])
      else let calls = [Setsockopt_dual_stack s, Ioctl_connreset s, Bind s addr] in
           if bind_fails then (INVALID_SOCKET, calls @ [Closesocket s]) else (s, calls))"

text \<open>
  A datagram handed to \<open>WSASendTo\<close>. Sending reads \<open>frame_size\<close> bytes of the frame; a failure of the call
  is only logged.
\<close>

type_synonym datagram = "socket \<times> port_address \<times> bytes"

definition krs_net_send_frame ::
    "socket \<Rightarrow> port_address option \<Rightarrow> bytes option \<Rightarrow> u16 \<Rightarrow> datagram list option" where
  "krs_net_send_frame socket addr frame_data frame_size =
     (if frame_size = 0 then Some []
      else case (frame_data, addr) of
             (Some d, Some a) \<Rightarrow> do { bs \<leftarrow> mem_read d 0 (unat frame_size); Some [(socket, a, bs)] }
           | _ \<Rightarrow> Some [])"

section \<open>Winsock reference counting\<close>

text \<open>
  The state is the counter \<open>s_wsa_ref_count\<close> (a \<open>LONG\<close>) and the calls made so far, oldest first. Both
  functions run under the lock.
\<close>

datatype wsa_call = WSAStartup | WSACleanup

record wsa_state =
  wsa_ref_count :: u32
  wsa_calls :: "wsa_call list"

definition krs_wsa_init :: "wsa_state \<Rightarrow> wsa_state" where
  "krs_wsa_init w =
     (let n = wsa_ref_count w + 1
      in w\<lparr>wsa_ref_count := n, wsa_calls := (if n = 1 then wsa_calls w @ [WSAStartup] else wsa_calls w)\<rparr>)"

definition krs_wsa_cleanup :: "wsa_state \<Rightarrow> wsa_state" where
  "krs_wsa_cleanup w =
     (let n = wsa_ref_count w - 1
      in w\<lparr>wsa_ref_count := n, wsa_calls := (if n = 0 then wsa_calls w @ [WSACleanup] else wsa_calls w)\<rparr>)"

text \<open>The users of the library: each has called \<open>krs_wsa_init\<close> and not yet \<open>krs_wsa_cleanup\<close>; there are fewer of them
  than a \<open>LONG\<close> counts.\<close>

inductive wsa_reach :: "nat \<Rightarrow> wsa_state \<Rightarrow> bool" where
  start: "wsa_reach 0 \<lparr>wsa_ref_count = 0, wsa_calls = []\<rparr>"
| init: "wsa_reach n w \<Longrightarrow> n < 2147483647 \<Longrightarrow> wsa_reach (Suc n) (krs_wsa_init w)"
| cleanup: "wsa_reach (Suc n) w \<Longrightarrow> wsa_reach n (krs_wsa_cleanup w)"

text \<open>Winsock is usable after a startup that no cleanup followed.\<close>

definition wsa_running :: "wsa_call list \<Rightarrow> bool" where
  "wsa_running cs \<longleftrightarrow> cs \<noteq> [] \<and> last cs = WSAStartup"

fun alternating :: "wsa_call list \<Rightarrow> bool" where
  "alternating [] = True"
| "alternating [c] = (c = WSAStartup)"
| "alternating (a # b # cs) = (a = WSAStartup \<and> b = WSACleanup \<and> alternating cs)"

section \<open>Lemmas\<close>

lemma strnlen_string:
  "0 \<notin> set s \<Longrightarrow> strnlen (s @ 0 # rest) n = Some (min (length s) n)"
  by (induction s arbitrary: n) (case_tac n; auto)+

lemma c_string_string: "0 \<notin> set s \<Longrightarrow> c_string (s @ 0 # rest) = Some s"
  by (induction s) auto

lemma ipv4_mapped_eq:
  assumes "length v4 = 4"
  shows "ipv4_mapped v4 = Some (replicate 10 0 @ [0xFF, 0xFF] @ v4)"
  using assms by (simp add: ipv4_mapped_def zero_address_def mem_set_def mem_read_def mem_write_def
      numeral_eq_Suc)

lemma last_char_string:
  assumes "length s < 16"
  shows "last_char (s @ 0 # rest) (of_nat (length s + 1)) = Some 0"
proof -
  have u: "unat (of_nat (length s + 1) :: u8) = length s + 1"
    using assms by (intro unat_of_nat_small) simp
  then have "(of_nat (length s + 1) :: u8) \<noteq> 0" by (metis add_is_0 one_neq_zero unat_0)
  with u show ?thesis unfolding last_char_def by (simp add: mem_get_def)
qed

lemma alternating_snoc:
  "alternating cs \<Longrightarrow> alternating (cs @ [c]) \<longleftrightarrow> c = (if wsa_running cs then WSACleanup else WSAStartup)"
  by (induction cs rule: alternating.induct) (auto simp: wsa_running_def split: if_splits)

lemma wsa_running_snoc [simp]: "wsa_running (cs @ [c]) \<longleftrightarrow> c = WSAStartup"
  by (simp add: wsa_running_def)

lemma wsa_reach_inv:
  "wsa_reach n w \<Longrightarrow> n \<le> 2147483647 \<and> wsa_ref_count w = of_nat n \<and> alternating (wsa_calls w) \<and>
     (wsa_running (wsa_calls w) \<longleftrightarrow> 0 < n)"
proof (induction rule: wsa_reach.induct)
  case start
  show ?case by (simp add: wsa_running_def)
next
  case (init n w)
  have "unat (of_nat (Suc n) :: u32) = Suc n" using init.hyps(2) by (intro unat_of_nat_small) simp
  then have "(of_nat (Suc n) :: u32) = 1 \<longleftrightarrow> n = 0"
    using word_unat_eq_iff [of "of_nat (Suc n) :: u32" 1] by (simp del: of_nat_Suc)
  then show ?case using init by (auto simp: krs_wsa_init_def Let_def alternating_snoc add.commute)
next
  case (cleanup n w)
  have "unat (of_nat n :: u32) = n" using cleanup.IH by (intro unat_of_nat_small) simp
  then have "(of_nat n :: u32) = 0 \<longleftrightarrow> n = 0"
    using word_unat_eq_iff [of "of_nat n :: u32" 0] by simp
  then show ?case using cleanup.IH by (auto simp: krs_wsa_cleanup_def Let_def alternating_snoc)
qed

text \<open>The part of an address that identifies an endpoint.\<close>

definition addr_key :: "port_address \<Rightarrow> u16 \<times> u16 \<times> address" where
  "addr_key a = (sin6_family a, sin6_port a, sin6_addr a)"

lemma port_address_equals_iff:
  "krs_network_port_address_equals (Some a) (Some b) \<longleftrightarrow> addr_key a = addr_key b"
  by (simp add: krs_network_port_address_equals_def addr_key_def)

lemma htons_htons [simp]: "htons (htons x) = x"
  by (rule bit_word_eqI) (auto simp: htons_def bit_simps)

section \<open>Properties\<close>

text \<open>
  Creating an IPv4 address from a string. The string is read up to its terminator and never beyond;
  16 characters or more are refused as too long, a string the parser rejects as an invalid address, and
  any other gives the IPv4-mapped address. The variant without a result structure returns the same
  address, all zero on errors. The variant with an explicit length reads before the string when the
  length is 0.
\<close>

theorem ipv4_create_spec:
  assumes "0 \<notin> set str" and "\<forall>v4. inet_pton4 str = Some v4 \<longrightarrow> length v4 = 4"
  shows "\<exists>r. krs_network_address_ipv4_create_s inet_pton4 (Some (str @ 0 # rest)) = Some r \<and>
           krs_network_address_ipv4_create inet_pton4 (Some (str @ 0 # rest)) = Some (adr_address r) \<and>
           (rb_error_code (adr_base r), adr_address r) =
             (if 16 \<le> length str then (KRS_ERR_TOO_LONG, replicate 16 0)
              else case inet_pton4 str of
                     None \<Rightarrow> (KRS_ERR_NETWORK_INVALID_IP, replicate 16 0)
                   | Some v4 \<Rightarrow> (KRS_SUCCESS, replicate 10 0 @ [0xFF, 0xFF] @ v4)) \<and>
           rb_valid (adr_base r) = (rb_error_code (adr_base r) = KRS_SUCCESS) \<and>
           krs_network_address_ipv4_create_len_s inet_pton4 (Some (str @ 0 # rest)) 0 = None"
proof -
  have zero: "krs_network_address_ipv4_create_len_s inet_pton4 (Some (str @ 0 # rest)) 0 = None"
    by (simp add: krs_network_address_ipv4_create_len_s_def last_char_def)
  show ?thesis
  proof (cases "16 \<le> length str")
    case True
    with assms(1) zero show ?thesis
      by (simp add: krs_network_address_ipv4_create_s_def krs_network_address_ipv4_create_def strnlen_string
          krs_lib_error_result_base_w_msg_def zero_address_def)
  next
    case False
    have len: "\<not> 16 < unat (of_nat (length str + 1) :: u8)"
      using False by (subst unat_of_nat_small) simp_all
    have last: "last_char (str @ 0 # rest) (of_nat (length str + 1)) = Some 0"
      using False by (intro last_char_string) simp
    show ?thesis
      using False assms zero len last
      by (cases "inet_pton4 str")
        (simp_all add: krs_network_address_ipv4_create_s_def krs_network_address_ipv4_create_def strnlen_string
          krs_network_address_ipv4_create_len_s_def krs_network_address_ipv4_create_len_def c_string_string
          krs_lib_error_result_base_w_msg_def krs_lib_error_result_base_suc_def zero_address_def ipv4_mapped_eq)
  qed
qed

theorem ipv4_create_spec_witness:
  "\<exists>r. krs_network_address_ipv4_create_s (\<lambda>s. if s = [0x31] then Some [0, 0, 0, 1] else None) (Some [0x31, 0]) = Some r \<and>
       adr_address r = replicate 10 0 @ [0xFF, 0xFF, 0, 0, 0, 1] \<and> rb_valid (adr_base r)"
  using ipv4_create_spec [of "[0x31]" "\<lambda>s. if s = [0x31] then Some [0, 0, 0, 1] else None" "[]"] by auto

text \<open>
  Endpoint equality is an equivalence relation on addresses that depends exactly on family, port and
  the 16 address bytes, and two created endpoints are equal exactly when port and address are.
\<close>

theorem port_address_equality:
  "(krs_network_port_address_equals (Some a) (Some b) \<longleftrightarrow>
      (sin6_family a, sin6_port a, sin6_addr a) = (sin6_family b, sin6_port b, sin6_addr b)) \<and>
   (krs_network_port_address_equals (Some (krs_network_port_address_create p x))
      (Some (krs_network_port_address_create p' x')) \<longleftrightarrow> p = p' \<and> x = x') \<and>
   \<not> krs_network_port_address_equals None y \<and> \<not> krs_network_port_address_equals y None"
proof -
  have "htons p = htons p' \<longleftrightarrow> p = p'" by (metis htons_htons)
  then show ?thesis
    by (cases y) (simp_all add: krs_network_port_address_equals_def krs_network_port_address_create_def)
qed

text \<open>
  Winsock reference counting: as long as every user cleans up once, the calls to \<open>WSAStartup\<close> and
  \<open>WSACleanup\<close> alternate, and Winsock is running exactly while there is a user.
\<close>

theorem wsa_refcount:
  assumes "wsa_reach n w"
  shows "alternating (wsa_calls w) \<and> (wsa_running (wsa_calls w) \<longleftrightarrow> 0 < n) \<and> unat (wsa_ref_count w) = n"
proof -
  have "n \<le> 2147483647" "wsa_ref_count w = of_nat n" using wsa_reach_inv [OF assms] by simp_all
  then have "unat (wsa_ref_count w) = n" by (simp only:) (rule unat_of_nat_small, simp)
  with wsa_reach_inv [OF assms] show ?thesis by simp
qed

theorem wsa_refcount_witness:
  "alternating (wsa_calls (krs_wsa_cleanup (krs_wsa_init \<lparr>wsa_ref_count = 0, wsa_calls = []\<rparr>))) \<and>
   wsa_ref_count (krs_wsa_cleanup (krs_wsa_init \<lparr>wsa_ref_count = 0, wsa_calls = []\<rparr>)) = 0"
  using wsa_refcount [OF wsa_reach.cleanup [OF wsa_reach.init [OF wsa_reach.start]]]
  by (simp add: unat_eq_zero)

end
