(* ===== verification/Kronos_Hash_Table.thy ===== *)
theory Kronos_Hash_Table
  imports Kronos_Prelude
begin

text \<open>
  The open-addressing hash table that \<open>src/connection/server/connection_map.c\<close> contains twice, once
  for connection identifiers and once for remote addresses: linear probing modulo a power of two,
  deleted entries kept as tombstones, doubling when three quarters of the slots are used. The
  functions take the hash function and the key comparison; \<open>Kronos_Connection_Map\<close> instantiates them
  with those of the two tables.

  The locale \<open>open_table\<close> states what a table needs of its hash function and comparison, and proves
  that look-up, insertion, removal and growth implement the operations of a finite map.
\<close>

section \<open>State and loops\<close>

record ('k, 'v) slot =
  sl_key :: 'k
  sl_val :: 'v
  sl_occupied :: bool
  sl_deleted :: bool

record ('k, 'v) table =
  tb_entries :: "('k, 'v) slot list"
  tb_capacity :: u32
  tb_count :: u32
  tb_tombstones :: u32

lemma unat_succ_less:
  fixes c cap :: "'a::len word"
  assumes "c < cap"
  shows "unat (c + 1) = Suc (unat c)" and "unat (cap - (c + 1)) < unat (cap - c)"
proof -
  have lt: "unat c < unat cap" using assms by (simp add: word_less_nat_alt)
  have "unat cap < 2 ^ LENGTH('a)" by (rule unsigned_less)
  with lt have "unat c + 1 < 2 ^ LENGTH('a)" by linarith
  then show 1: "unat (c + 1) = Suc (unat c)" using unat_add_no_wrap [of c 1] by simp
  have "unat (cap - (c + 1)) = unat cap - Suc (unat c)" using lt 1 by (simp add: unat_sub_no_wrap)
  moreover have "unat (cap - c) = unat cap - unat c" using lt by (simp add: unat_sub_no_wrap)
  ultimately show "unat (cap - (c + 1)) < unat (cap - c)" using lt by simp
qed

text \<open>The look-up loop: the index of the live entry with the key, if there is one.\<close>

function tb_scan ::
    "('k \<Rightarrow> 'k \<Rightarrow> bool) \<Rightarrow> ('k, 'v) slot list \<Rightarrow> u32 \<Rightarrow> 'k \<Rightarrow> u32 \<Rightarrow> u32 \<Rightarrow> u32 option option" where
  "tb_scan eq es cap k idx checked =
     do { s \<leftarrow> mem_get es (unat idx);
          if sl_occupied s \<and> checked < cap then
            if \<not> sl_deleted s \<and> eq (sl_key s) k then Some (Some idx)
            else tb_scan eq es cap k ((idx + 1) AND (cap - 1)) (checked + 1)
          else Some None }"
  by pat_completeness auto
termination
  by (relation "measure (\<lambda>(_, _, cap, _, _, checked). unat (cap - checked))") (auto simp: unat_succ_less)

declare tb_scan.simps [simp del]

text \<open>
  The insertion loop also remembers the first tombstone. It ends at the entry with the key (\<open>Inl\<close>), or
  at the index where it stopped, with that tombstone (\<open>Inr\<close>).
\<close>

function tb_scan_put ::
    "('k \<Rightarrow> 'k \<Rightarrow> bool) \<Rightarrow> ('k, 'v) slot list \<Rightarrow> u32 \<Rightarrow> 'k \<Rightarrow> u32 \<Rightarrow> u32 \<Rightarrow> u32 option \<Rightarrow>
     (u32 + u32 \<times> u32 option) option" where
  "tb_scan_put eq es cap k idx checked tomb =
     do { s \<leftarrow> mem_get es (unat idx);
          if sl_occupied s \<and> checked < cap then
            if sl_deleted s then
              tb_scan_put eq es cap k ((idx + 1) AND (cap - 1)) (checked + 1)
                (if tomb = None then Some idx else tomb)
            else if eq (sl_key s) k then Some (Inl idx)
            else tb_scan_put eq es cap k ((idx + 1) AND (cap - 1)) (checked + 1) tomb
          else Some (Inr (idx, tomb)) }"
  by pat_completeness auto
termination
  by (relation "measure (\<lambda>(_, _, cap, _, _, checked, _). unat (cap - checked))") (auto simp: unat_succ_less)

declare tb_scan_put.simps [simp del]

text \<open>
  The loop that places an entry in the new array of a growth. It has no bound of its own: on a full
  array it would not end, which is the value \<open>None\<close>.
\<close>

partial_function (option) tb_free_index :: "('k, 'v) slot list \<Rightarrow> u32 \<Rightarrow> u32 \<Rightarrow> u32 option" where
  "tb_free_index es cap idx =
     do { s \<leftarrow> mem_get es (unat idx);
          if sl_occupied s then tb_free_index es cap ((idx + 1) AND (cap - 1)) else Some idx }"

declare tb_free_index.simps [code]

text \<open>The loop over the old entries, which counts the entries it moves.\<close>

primrec tb_rehash ::
    "('k \<Rightarrow> u32) \<Rightarrow> u32 \<Rightarrow> ('k, 'v) slot list \<Rightarrow> ('k, 'v) slot list \<times> u32 \<Rightarrow>
     (('k, 'v) slot list \<times> u32) option" where
  "tb_rehash h cap [] st = Some st"
| "tb_rehash h cap (s # old) st =
     (if sl_occupied s \<and> \<not> sl_deleted s then do {
        idx \<leftarrow> tb_free_index (fst st) cap (h (sl_key s) AND (cap - 1));
        es \<leftarrow> mem_set (fst st) (unat idx) (s\<lparr>sl_deleted := False\<rparr>);
        tb_rehash h cap old (es, snd st + 1) }
      else tb_rehash h cap old st)"

text \<open>Growth: \<open>zero\<close> is the slot \<open>calloc\<close> provides. A failed allocation leaves the table.\<close>

definition tb_grow ::
    "('k \<Rightarrow> u32) \<Rightarrow> ('k, 'v) slot \<Rightarrow> bool \<Rightarrow> ('k, 'v) table \<Rightarrow> ('k, 'v) table option" where
  "tb_grow h zero alloc t =
     (let new_cap = tb_capacity t * 2 in
      if \<not> alloc then Some t
      else do {
        (es, n) \<leftarrow> tb_rehash h new_cap (tb_entries t) (replicate (unat new_cap) zero, 0);
        Some \<lparr>tb_entries = es, tb_capacity = new_cap, tb_count = n, tb_tombstones = 0\<rparr> })"

text \<open>Storing a value once the table has been grown if necessary.\<close>

definition tb_store ::
    "('k \<Rightarrow> u32) \<Rightarrow> ('k \<Rightarrow> 'k \<Rightarrow> bool) \<Rightarrow> ('k, 'v) table \<Rightarrow> 'k \<Rightarrow> 'v \<Rightarrow> ('k, 'v) table option" where
  "tb_store h eq t k v = do {
     r \<leftarrow> tb_scan_put eq (tb_entries t) (tb_capacity t) k (h k AND (tb_capacity t - 1)) 0 None;
     case r of
       Inl idx \<Rightarrow> do {
         s \<leftarrow> mem_get (tb_entries t) (unat idx);
         es \<leftarrow> mem_set (tb_entries t) (unat idx) (s\<lparr>sl_val := v\<rparr>);
         Some (t\<lparr>tb_entries := es\<rparr>) }
     | Inr (idx, tomb) \<Rightarrow> do {
         let insert_idx = (case tomb of Some i \<Rightarrow> i | None \<Rightarrow> idx);
         let tombs = (case tomb of Some i \<Rightarrow> tb_tombstones t - 1 | None \<Rightarrow> tb_tombstones t);
         es \<leftarrow> mem_set (tb_entries t) (unat insert_idx)
                 \<lparr>sl_key = k, sl_val = v, sl_occupied = True, sl_deleted = False\<rparr>;
         Some (t\<lparr>tb_entries := es, tb_count := tb_count t + 1, tb_tombstones := tombs\<rparr>) } }"

definition tb_put ::
    "('k \<Rightarrow> u32) \<Rightarrow> ('k \<Rightarrow> 'k \<Rightarrow> bool) \<Rightarrow> ('k, 'v) slot \<Rightarrow> bool \<Rightarrow> ('k, 'v) table \<Rightarrow> 'k \<Rightarrow> 'v \<Rightarrow>
     ('k, 'v) table option" where
  "tb_put h eq zero alloc t k v = do {
     t1 \<leftarrow> (if (tb_count t + tb_tombstones t) * 4 \<ge> tb_capacity t * 3 then tb_grow h zero alloc t else Some t);
     tb_store h eq t1 k v }"

definition tb_get ::
    "('k \<Rightarrow> u32) \<Rightarrow> ('k \<Rightarrow> 'k \<Rightarrow> bool) \<Rightarrow> ('k, 'v) table \<Rightarrow> 'k \<Rightarrow> u32 option option" where
  "tb_get h eq t k = tb_scan eq (tb_entries t) (tb_capacity t) k (h k AND (tb_capacity t - 1)) 0"

definition tb_remove ::
    "('k \<Rightarrow> u32) \<Rightarrow> ('k \<Rightarrow> 'k \<Rightarrow> bool) \<Rightarrow> ('k, 'v) table \<Rightarrow> 'k \<Rightarrow> ('k, 'v) table option" where
  "tb_remove h eq t k = do {
     r \<leftarrow> tb_get h eq t k;
     case r of
       None \<Rightarrow> Some t
     | Some idx \<Rightarrow> do {
         s \<leftarrow> mem_get (tb_entries t) (unat idx);
         es \<leftarrow> mem_set (tb_entries t) (unat idx) (s\<lparr>sl_deleted := True\<rparr>);
         Some (t\<lparr>tb_entries := es, tb_count := tb_count t - 1, tb_tombstones := tb_tombstones t + 1\<rparr>) } }"

section \<open>Probe sequences\<close>

definition live :: "('k, 'v) slot \<Rightarrow> bool" where
  "live s \<longleftrightarrow> sl_occupied s \<and> \<not> sl_deleted s"

text \<open>The \<open>j\<close>-th index probed for a hash value, in a table of \<open>n\<close> slots.\<close>

definition path :: "nat \<Rightarrow> u32 \<Rightarrow> nat \<Rightarrow> nat" where
  "path n x j = (unat x + j) mod n"

text \<open>A capacity that is a power of two.\<close>

definition cap_ok :: "u32 \<Rightarrow> bool" where
  "cap_ok cap \<longleftrightarrow> (\<exists>b. 4 \<le> b \<and> b \<le> 31 \<and> cap = 2 ^ b)"

lemma cap_ok_unat:
  assumes "cap_ok cap"
  obtains b where "4 \<le> b" and "b \<le> 31" and "unat cap = 2 ^ b" and "cap = 2 ^ b"
proof -
  from assms obtain b where b: "4 \<le> b" "b \<le> 31" "cap = 2 ^ b" by (auto simp: cap_ok_def)
  have "(2 :: nat) ^ b < 2 ^ 32" using b(2) by (intro power_strict_increasing) simp_all
  then have "unat (of_nat (2 ^ b) :: u32) = 2 ^ b" by (intro unat_of_nat_small) simp
  then have "unat cap = 2 ^ b" by (simp add: b(3))
  with b that show thesis by blast
qed

lemma cap_pos: "cap_ok cap \<Longrightarrow> 16 \<le> unat cap"
proof (elim cap_ok_unat)
  fix b assume b: "4 \<le> b" "unat cap = 2 ^ b"
  have "(2 :: nat) ^ 4 \<le> 2 ^ b" using b(1) by (intro power_increasing) simp_all
  then show "16 \<le> unat cap" using b(2) by simp
qed

lemma unat_and_mask:
  assumes "cap_ok cap"
  shows "unat (x AND (cap - 1)) = unat x mod unat cap"
proof -
  from assms obtain b where b: "4 \<le> b" "b \<le> 31" "unat cap = 2 ^ b" "cap = 2 ^ b" by (rule cap_ok_unat)
  have "x AND (cap - 1) = take_bit b x" by (simp add: b(4) take_bit_eq_mask mask_eq_exp_minus_1)
  then have "unat (x AND (cap - 1)) = take_bit b (unat x)" by (simp add: unsigned_take_bit_eq)
  then show ?thesis by (simp only: b(3) take_bit_eq_mod)
qed

lemma path_start: "cap_ok cap \<Longrightarrow> unat (x AND (cap - 1)) = path (unat cap) x 0"
  by (simp add: unat_and_mask path_def)

lemma path_less: "0 < n \<Longrightarrow> path n x j < n"
  by (simp add: path_def)

lemma path_step:
  assumes "cap_ok cap" and "unat idx = path (unat cap) x j"
  shows "unat ((idx + 1) AND (cap - 1)) = path (unat cap) x (Suc j)"
proof -
  have "unat idx < unat cap" using assms cap_pos [OF assms(1)] by (simp add: path_less)
  then have "idx < cap" by (simp add: word_less_nat_alt)
  then have "unat ((idx + 1) AND (cap - 1)) = Suc (unat idx) mod unat cap"
    using assms(1) by (simp add: unat_and_mask unat_succ_less(1))
  then show ?thesis by (simp add: assms(2) path_def mod_Suc_eq)
qed

lemma path_inj: "i < n \<Longrightarrow> j < n \<Longrightarrow> path n x i = path n x j \<Longrightarrow> i = j"
proof (induction i j rule: linorder_wlog)
  case (le i j)
  then have "n dvd (unat x + j) - (unat x + i)"
    using mod_eq_dvd_iff_nat [of "unat x + i" "unat x + j" n] by (simp add: path_def)
  with le show ?case by (auto dest: dvd_imp_le)
qed simp

lemma path_surj:
  assumes "i < n"
  obtains j where "j < n" and "path n x j = i"
proof -
  have "inj_on (path n x) {..<n}" by (rule inj_onI) (simp add: path_inj)
  moreover have "path n x ` {..<n} \<subseteq> {..<n}" using assms by (auto simp: path_less)
  ultimately have "path n x ` {..<n} = {..<n}" by (simp add: endo_inj_surj)
  with assms have "i \<in> path n x ` {..<n}" by simp
  with that show thesis by auto
qed

section \<open>The invariant and the map a table represents\<close>

text \<open>
  Every live entry is reached by probing from its hash value over occupied slots only, and no two live
  entries have the same key (up to \<open>proj\<close>, the part of a key the comparison looks at).
\<close>

definition es_ok :: "('k \<Rightarrow> u32) \<Rightarrow> ('k \<Rightarrow> 'p) \<Rightarrow> nat \<Rightarrow> ('k, 'v) slot list \<Rightarrow> bool" where
  "es_ok h proj n es \<longleftrightarrow>
     length es = n \<and>
     (\<forall>i < n. live (es ! i) \<longrightarrow>
        (\<exists>d < n. path n (h (sl_key (es ! i))) d = i \<and> (\<forall>j < d. sl_occupied (es ! path n (h (sl_key (es ! i))) j)))) \<and>
     (\<forall>i < n. \<forall>j < n. live (es ! i) \<longrightarrow> live (es ! j) \<longrightarrow> proj (sl_key (es ! i)) = proj (sl_key (es ! j)) \<longrightarrow> i = j)"

definition n_live :: "('k, 'v) slot list \<Rightarrow> nat" where
  "n_live es = length (filter live es)"

definition n_tomb :: "('k, 'v) slot list \<Rightarrow> nat" where
  "n_tomb es = length (filter (\<lambda>s. sl_occupied s \<and> sl_deleted s) es)"

definition tb_map :: "('k \<Rightarrow> 'p) \<Rightarrow> ('k, 'v) slot list \<Rightarrow> ('p \<rightharpoonup> 'v)" where
  "tb_map proj es p = map_option sl_val (find (\<lambda>s. live s \<and> proj (sl_key s) = p) es)"

definition tb_ok :: "('k \<Rightarrow> u32) \<Rightarrow> ('k \<Rightarrow> 'p) \<Rightarrow> ('k, 'v) table \<Rightarrow> bool" where
  "tb_ok h proj t \<longleftrightarrow>
     cap_ok (tb_capacity t) \<and> unat (tb_capacity t) \<le> 2 ^ 30 \<and> es_ok h proj (unat (tb_capacity t)) (tb_entries t) \<and>
     unat (tb_count t) = n_live (tb_entries t) \<and> unat (tb_tombstones t) = n_tomb (tb_entries t) \<and>
     n_live (tb_entries t) + n_tomb (tb_entries t) < unat (tb_capacity t)"

text \<open>The slots in use, tombstones included.\<close>

definition tb_used :: "('k, 'v) table \<Rightarrow> nat" where
  "tb_used t = unat (tb_count t) + unat (tb_tombstones t)"

lemma length_filter_update:
  assumes "i < length xs"
  shows "length (filter P (xs[i := y])) + (if P (xs ! i) then 1 else 0) =
         length (filter P xs) + (if P y then 1 else 0)"
  using assms
proof (induction xs arbitrary: i)
  case (Cons x xs)
  then show ?case by (cases i) auto
qed simp

lemma n_occupied: "n_live es + n_tomb es = length (filter sl_occupied es)"
  by (induction es) (auto simp: n_live_def n_tomb_def live_def)

lemma load_room: "n * 4 < c * 3 \<Longrightarrow> 16 \<le> c \<Longrightarrow> Suc n < c" for c n :: nat
  by simp

lemma first_free:
  assumes "length es = n" and "n_live es + n_tomb es < n"
  obtains u where "u < n" and "\<not> sl_occupied (es ! path n x u)" and "\<forall>j < u. sl_occupied (es ! path n x j)"
proof -
  have "\<exists>i < n. \<not> sl_occupied (es ! i)"
  proof (rule ccontr)
    assume "\<not> ?thesis"
    then have "filter sl_occupied es = es" using assms(1) by (auto intro!: filter_True simp: in_set_conv_nth)
    with assms show False by (simp add: n_occupied)
  qed
  then obtain i where i: "i < n" "\<not> sl_occupied (es ! i)" by blast
  obtain j where j: "j < n" "path n x j = i" by (rule path_surj [OF i(1)])
  define u where "u = (LEAST u. \<not> sl_occupied (es ! path n x u))"
  have "\<not> sl_occupied (es ! path n x u)" unfolding u_def by (rule LeastI [of _ j]) (simp add: j(2) i(2))
  moreover have "u \<le> j" unfolding u_def by (rule Least_le) (simp add: j(2) i(2))
  moreover have "sl_occupied (es ! path n x j')" if "j' < u" for j'
    using not_less_Least [of j' "\<lambda>u. \<not> sl_occupied (es ! path n x u)"] that by (simp add: u_def)
  ultimately show thesis using j(1) by (intro that [of u]) auto
qed

lemma es_unique:
  "es_ok h proj n es \<Longrightarrow> i < n \<Longrightarrow> j < n \<Longrightarrow> live (es ! i) \<Longrightarrow> live (es ! j) \<Longrightarrow>
   proj (sl_key (es ! i)) = proj (sl_key (es ! j)) \<Longrightarrow> i = j"
  by (simp add: es_ok_def)

lemma distinct_live_keys:
  assumes "\<And>i j. i < length xs \<Longrightarrow> j < length xs \<Longrightarrow> P (xs ! i) \<Longrightarrow> P (xs ! j) \<Longrightarrow> f (xs ! i) = f (xs ! j) \<Longrightarrow> i = j"
  shows "distinct (map f (filter P xs))"
  using assms
proof (induction xs)
  case (Cons x xs)
  have "i = j" if "i < length xs" "j < length xs" "P (xs ! i)" "P (xs ! j)" "f (xs ! i) = f (xs ! j)" for i j
    using Cons.prems [of "Suc i" "Suc j"] that by simp
  then have "distinct (map f (filter P xs))" by (rule Cons.IH)
  moreover have "f y \<noteq> f x" if "P x" "y \<in> set xs" "P y" for y
  proof
    assume "f y = f x"
    from that(2) obtain j where "j < length xs" "y = xs ! j" by (auto simp: in_set_conv_nth)
    with Cons.prems [of 0 "Suc j"] that \<open>f y = f x\<close> show False by simp
  qed
  ultimately show ?case by (auto simp: image_iff) metis
qed simp

lemma tb_map_SomeI:
  assumes "es_ok h proj n es" and "i < n" and "live (es ! i)" and "proj (sl_key (es ! i)) = p"
  shows "tb_map proj es p = Some (sl_val (es ! i))"
proof -
  have "find (\<lambda>s. live s \<and> proj (sl_key s) = p) es = Some (es ! i)"
  proof (rule find_unique)
    fix y assume "y \<in> set es" and y: "live y \<and> proj (sl_key y) = p"
    then obtain j where "j < n" "y = es ! j" using assms(1) by (auto simp: in_set_conv_nth es_ok_def)
    with assms y show "y = es ! i" by (auto simp: es_ok_def)
  qed (use assms in \<open>auto simp: es_ok_def\<close>)
  then show ?thesis by (simp add: tb_map_def)
qed

lemma tb_map_NoneI:
  assumes "\<And>i. i < length es \<Longrightarrow> live (es ! i) \<Longrightarrow> proj (sl_key (es ! i)) \<noteq> p"
  shows "tb_map proj es p = None"
  using assms by (auto simp: tb_map_def find_None_iff in_set_conv_nth)

lemma tb_map_cases:
  assumes "es_ok h proj n es"
  obtains (present) i where "i < n" "live (es ! i)" "proj (sl_key (es ! i)) = p" "tb_map proj es p = Some (sl_val (es ! i))"
  | (absent) "\<And>i. i < n \<Longrightarrow> live (es ! i) \<Longrightarrow> proj (sl_key (es ! i)) \<noteq> p" "tb_map proj es p = None"
proof (cases "\<exists>i < n. live (es ! i) \<and> proj (sl_key (es ! i)) = p")
  case True
  then obtain i where "i < n" "live (es ! i)" "proj (sl_key (es ! i)) = p" by blast
  with tb_map_SomeI [OF assms this] present show thesis by blast
next
  case False
  moreover have "length es = n" using assms by (simp add: es_ok_def)
  ultimately show thesis by (intro absent tb_map_NoneI) auto
qed

text \<open>Two tables with the same live keys at the same places, except for one key.\<close>

lemma tb_map_eqI:
  assumes "es_ok h proj n es'"
    and "\<And>p v. m p = Some v \<longleftrightarrow> (\<exists>i < n. live (es' ! i) \<and> proj (sl_key (es' ! i)) = p \<and> sl_val (es' ! i) = v)"
  shows "tb_map proj es' = m"
proof
  fix p
  show "tb_map proj es' p = m p"
    by (rule tb_map_cases [OF assms(1), of p]) (use assms(2) in \<open>metis option.exhaust\<close>)+
qed

lemma tb_map_iff:
  assumes "es_ok h proj n es"
  shows "tb_map proj es p = Some v \<longleftrightarrow> (\<exists>i < n. live (es ! i) \<and> proj (sl_key (es ! i)) = p \<and> sl_val (es ! i) = v)"
  by (rule tb_map_cases [OF assms, of p]) (use assms in \<open>auto simp: es_ok_def\<close>)

section \<open>The loops\<close>

lemma checked_less:
  assumes "j < unat cap"
  shows "(of_nat j :: u32) < cap"
proof -
  have "unat cap < 2 ^ 32" using unat_less_power_u32 [of cap] by simp
  then have "unat (of_nat j :: u32) = j" using assms by (intro unat_of_nat_small) simp
  then show ?thesis using assms by (simp add: word_less_nat_alt)
qed

lemma scan_found:
  assumes cap: "cap_ok cap" "length es = unat cap" and d: "d < unat cap"
    and hit: "live (es ! path (unat cap) x d)" "eq (sl_key (es ! path (unat cap) x d)) k"
    and before: "\<And>j. j < d \<Longrightarrow> sl_occupied (es ! path (unat cap) x j) \<and>
           \<not> (live (es ! path (unat cap) x j) \<and> eq (sl_key (es ! path (unat cap) x j)) k)"
  shows "j \<le> d \<Longrightarrow> unat idx = path (unat cap) x j \<Longrightarrow>
    \<exists>i. unat i = path (unat cap) x d \<and> tb_scan eq es cap k idx (of_nat j) = Some (Some i) \<and>
        tb_scan_put eq es cap k idx (of_nat j) tomb = Some (Inl i)"
proof (induction "d - j" arbitrary: j idx tomb)
  case 0
  have m: "mem_get es (unat idx) = Some (es ! path (unat cap) x d)"
    using 0 d cap by (simp add: mem_get_def path_less)
  moreover have "(of_nat j :: u32) < cap" using 0 d by (intro checked_less) simp
  ultimately show ?case
    using 0 hit by (intro exI [of _ idx]) (simp add: tb_scan.simps [of eq es] tb_scan_put.simps [of eq es] live_def)
next
  case (Suc r)
  then have jd: "j < d" by simp
  have m: "mem_get es (unat idx) = Some (es ! path (unat cap) x j)"
    using Suc.prems jd d cap by (simp add: mem_get_def path_less)
  have c: "(of_nat j :: u32) < cap" using jd d by (intro checked_less) simp
  have nxt: "unat ((idx + 1) AND (cap - 1)) = path (unat cap) x (Suc j)"
    by (rule path_step [OF cap(1) Suc.prems(2)])
  have sj: "of_nat j + 1 = (of_nat (Suc j) :: u32)" by simp
  define tomb' where "tomb' = (if sl_deleted (es ! path (unat cap) x j) \<and> tomb = None then Some idx else tomb)"
  have r: "r = d - Suc j" "Suc j \<le> d" using Suc.hyps(2) by simp_all
  from Suc.hyps(1) [OF r nxt, of tomb']
  obtain i where i: "unat i = path (unat cap) x d" "tb_scan eq es cap k ((idx + 1) AND (cap - 1)) (of_nat (Suc j)) = Some (Some i)"
      "tb_scan_put eq es cap k ((idx + 1) AND (cap - 1)) (of_nat (Suc j)) tomb' = Some (Inl i)" by blast
  have "tb_scan eq es cap k idx (of_nat j) = Some (Some i)"
    using m c before [OF jd] i(2)
    by (auto simp: tb_scan.simps [of eq es cap k idx] sj live_def simp del: of_nat_Suc)
  moreover have "tb_scan_put eq es cap k idx (of_nat j) tomb = Some (Inl i)"
    using m c before [OF jd] i(3)
    by (auto simp: tb_scan_put.simps [of eq es cap k idx] sj live_def tomb'_def simp del: of_nat_Suc)
  ultimately show ?case using i(1) by blast
qed

text \<open>The tombstone the insertion loop remembers.\<close>

definition tomb_ok :: "('k, 'v) slot list \<Rightarrow> nat \<Rightarrow> u32 \<Rightarrow> nat \<Rightarrow> u32 option \<Rightarrow> bool" where
  "tomb_ok es n x j tomb \<longleftrightarrow>
     (case tomb of None \<Rightarrow> True
      | Some i \<Rightarrow> \<exists>d < j. unat i = path n x d \<and> sl_occupied (es ! path n x d) \<and> sl_deleted (es ! path n x d))"

lemma scan_missing:
  assumes cap: "cap_ok cap" "length es = unat cap" and u: "u < unat cap"
    and free: "\<not> sl_occupied (es ! path (unat cap) x u)"
    and before: "\<And>j. j < u \<Longrightarrow> sl_occupied (es ! path (unat cap) x j) \<and>
           \<not> (live (es ! path (unat cap) x j) \<and> eq (sl_key (es ! path (unat cap) x j)) k)"
  shows "j \<le> u \<Longrightarrow> unat idx = path (unat cap) x j \<Longrightarrow> tomb_ok es (unat cap) x j tomb \<Longrightarrow>
    tb_scan eq es cap k idx (of_nat j) = Some None \<and>
    (\<exists>i tomb'. unat i = path (unat cap) x u \<and> tb_scan_put eq es cap k idx (of_nat j) tomb = Some (Inr (i, tomb')) \<and>
       tomb_ok es (unat cap) x u tomb')"
proof (induction "u - j" arbitrary: j idx tomb)
  case 0
  have m: "mem_get es (unat idx) = Some (es ! path (unat cap) x u)"
    using 0 u cap by (simp add: mem_get_def path_less)
  with 0 free show ?case by (simp add: tb_scan.simps [of eq es] tb_scan_put.simps [of eq es])
next
  case (Suc r)
  then have ju: "j < u" by simp
  have m: "mem_get es (unat idx) = Some (es ! path (unat cap) x j)"
    using Suc.prems ju u cap by (simp add: mem_get_def path_less)
  have c: "(of_nat j :: u32) < cap" using ju u by (intro checked_less) simp
  have nxt: "unat ((idx + 1) AND (cap - 1)) = path (unat cap) x (Suc j)"
    by (rule path_step [OF cap(1) Suc.prems(2)])
  have sj: "of_nat j + 1 = (of_nat (Suc j) :: u32)" by simp
  define tomb' where "tomb' = (if sl_deleted (es ! path (unat cap) x j) \<and> tomb = None then Some idx else tomb)"
  have "tomb_ok es (unat cap) x (Suc j) tomb'"
    using Suc.prems(2,3) before [OF ju]
    by (auto simp: tomb_ok_def tomb'_def less_Suc_eq split: option.splits if_splits)
  moreover have r: "r = u - Suc j" "Suc j \<le> u" using Suc.hyps(2) by simp_all
  ultimately
  obtain i tomb'' where i: "tb_scan eq es cap k ((idx + 1) AND (cap - 1)) (of_nat (Suc j)) = Some None"
      "unat i = path (unat cap) x u" "tomb_ok es (unat cap) x u tomb''"
      "tb_scan_put eq es cap k ((idx + 1) AND (cap - 1)) (of_nat (Suc j)) tomb' = Some (Inr (i, tomb''))"
    using Suc.hyps(1) [OF r nxt] by blast
  have "tb_scan eq es cap k idx (of_nat j) = Some None"
    using m c before [OF ju] i(1)
    by (auto simp: tb_scan.simps [of eq es cap k idx] sj live_def simp del: of_nat_Suc)
  moreover have "tb_scan_put eq es cap k idx (of_nat j) tomb = Some (Inr (i, tomb''))"
    using m c before [OF ju] i(4)
    by (auto simp: tb_scan_put.simps [of eq es cap k idx] sj live_def tomb'_def simp del: of_nat_Suc)
  ultimately show ?case using i(2,3) by blast
qed

lemma free_index_spec:
  assumes cap: "cap_ok cap" "length es = unat cap" and u: "u < unat cap"
    and free: "\<not> sl_occupied (es ! path (unat cap) x u)"
    and before: "\<And>j. j < u \<Longrightarrow> sl_occupied (es ! path (unat cap) x j)"
  shows "j \<le> u \<Longrightarrow> unat idx = path (unat cap) x j \<Longrightarrow>
    \<exists>i. unat i = path (unat cap) x u \<and> tb_free_index es cap idx = Some i"
proof (induction "u - j" arbitrary: j idx)
  case 0
  then show ?case using free u cap by (simp add: tb_free_index.simps [of es] mem_get_def path_less)
next
  case (Suc r)
  then have ju: "j < u" by simp
  have nxt: "unat ((idx + 1) AND (cap - 1)) = path (unat cap) x (Suc j)"
    by (rule path_step [OF cap(1) Suc.prems(2)])
  have r: "r = u - Suc j" "Suc j \<le> u" using Suc.hyps(2) by simp_all
  from Suc.hyps(1) [OF r nxt] obtain i where
    "unat i = path (unat cap) x u" "tb_free_index es cap ((idx + 1) AND (cap - 1)) = Some i" by auto
  with before [OF ju] Suc.prems u ju cap show ?case
    by (simp add: tb_free_index.simps [of es cap idx] mem_get_def path_less)
qed

section \<open>The interface of a table\<close>

locale open_table =
  fixes h :: "'k \<Rightarrow> u32" and eq :: "'k \<Rightarrow> 'k \<Rightarrow> bool" and proj :: "'k \<Rightarrow> 'p"
  assumes eq_proj: "eq a b \<longleftrightarrow> proj a = proj b"
    and hash_proj: "proj a = proj b \<Longrightarrow> h a = h b"
begin

text \<open>Where the two scans end.\<close>

lemma probe_cases:
  fixes es :: "('k, 'v) slot list"
  assumes cap: "cap_ok cap" and ok: "es_ok h proj (unat cap) es" and room: "n_live es + n_tomb es < unat cap"
  obtains
    (hit) i where "unat i < unat cap" "live (es ! unat i)" "proj (sl_key (es ! unat i)) = proj k"
      "tb_scan eq es cap k (h k AND (cap - 1)) 0 = Some (Some i)"
      "tb_scan_put eq es cap k (h k AND (cap - 1)) 0 None = Some (Inl i)"
  | (miss) u i tomb where "\<And>i. i < unat cap \<Longrightarrow> live (es ! i) \<Longrightarrow> proj (sl_key (es ! i)) \<noteq> proj k"
      "tb_scan eq es cap k (h k AND (cap - 1)) 0 = Some None"
      "tb_scan_put eq es cap k (h k AND (cap - 1)) 0 None = Some (Inr (i, tomb))"
      "u < unat cap" "unat i = path (unat cap) (h k) u" "\<not> sl_occupied (es ! unat i)"
      "\<And>j. j < u \<Longrightarrow> sl_occupied (es ! path (unat cap) (h k) j)" "tomb_ok es (unat cap) (h k) u tomb"
proof -
  have len: "length es = unat cap" using ok by (simp add: es_ok_def)
  have st: "unat (h k AND (cap - 1)) = path (unat cap) (h k) 0" by (rule path_start [OF cap])
  show thesis
  proof (rule tb_map_cases [OF ok, of "proj k"])
    fix i assume i: "i < unat cap" "live (es ! i)" "proj (sl_key (es ! i)) = proj k"
    from i(3) have "h (sl_key (es ! i)) = h k" by (rule hash_proj)
    with ok i obtain d where d: "d < unat cap" "path (unat cap) (h k) d = i"
        "\<forall>j < d. sl_occupied (es ! path (unat cap) (h k) j)" by (auto simp: es_ok_def)
    have before: "sl_occupied (es ! path (unat cap) (h k) j) \<and>
        \<not> (live (es ! path (unat cap) (h k) j) \<and> eq (sl_key (es ! path (unat cap) (h k) j)) k)" if "j < d" for j
    proof -
      define y where "y = path (unat cap) (h k) j"
      have y: "y < unat cap" using i(1) by (simp add: y_def path_less)
      have "y \<noteq> i" using path_inj [of j "unat cap" d "h k"] d(1,2) that by (auto simp: y_def)
      then have "\<not> (live (es ! y) \<and> eq (sl_key (es ! y)) k)"
        using es_unique [OF ok y i(1) _ i(2)] i(3) by (auto simp: eq_proj)
      with d(3) that show ?thesis by (simp add: y_def)
    qed
    have "\<exists>w. unat w = path (unat cap) (h k) d \<and>
        tb_scan eq es cap k (h k AND (cap - 1)) (of_nat 0) = Some (Some w) \<and>
        tb_scan_put eq es cap k (h k AND (cap - 1)) (of_nat 0) None = Some (Inl w)"
      by (rule scan_found [where eq = eq and x = "h k", OF cap len d(1) _ _ before _ st])
        (use i d(2) in \<open>simp_all add: eq_proj\<close>)
    then obtain w where "unat w = i" "tb_scan eq es cap k (h k AND (cap - 1)) 0 = Some (Some w)"
        "tb_scan_put eq es cap k (h k AND (cap - 1)) 0 None = Some (Inl w)" using d(2) by auto
    with i show thesis by (intro hit [of w]) simp_all
  next
    assume none: "\<And>i. i < unat cap \<Longrightarrow> live (es ! i) \<Longrightarrow> proj (sl_key (es ! i)) \<noteq> proj k"
    obtain u where u: "u < unat cap" "\<not> sl_occupied (es ! path (unat cap) (h k) u)"
        "\<forall>j < u. sl_occupied (es ! path (unat cap) (h k) j)"
      by (rule first_free [OF len room, of "h k"])
    have before: "sl_occupied (es ! path (unat cap) (h k) j) \<and>
        \<not> (live (es ! path (unat cap) (h k) j) \<and> eq (sl_key (es ! path (unat cap) (h k) j)) k)" if "j < u" for j
      using u(3) that none [of "path (unat cap) (h k) j"] u(1) by (auto simp: eq_proj path_less)
    have "tb_scan eq es cap k (h k AND (cap - 1)) (of_nat 0) = Some None \<and>
      (\<exists>i tomb'. unat i = path (unat cap) (h k) u \<and>
         tb_scan_put eq es cap k (h k AND (cap - 1)) (of_nat 0) None = Some (Inr (i, tomb')) \<and>
         tomb_ok es (unat cap) (h k) u tomb')"
      by (rule scan_missing [where eq = eq and x = "h k", OF cap len u(1,2) before _ st]) (simp_all add: tomb_ok_def)
    then obtain i tomb' where "tb_scan eq es cap k (h k AND (cap - 1)) 0 = Some None"
        "unat i = path (unat cap) (h k) u" "tomb_ok es (unat cap) (h k) u tomb'"
        "tb_scan_put eq es cap k (h k AND (cap - 1)) 0 None = Some (Inr (i, tomb'))" by auto
    with none u show thesis by (intro miss [of i tomb' u]) simp_all
  qed
qed

text \<open>Writing a new live entry into a slot of the probe sequence that is not live.\<close>

lemma insert_entry:
  assumes ok: "es_ok h proj n es" and none: "\<And>i. i < n \<Longrightarrow> live (es ! i) \<Longrightarrow> proj (sl_key (es ! i)) \<noteq> proj (sl_key e)"
    and d: "d < n" "\<And>j. j < d \<Longrightarrow> sl_occupied (es ! path n (h (sl_key e)) j)"
    and x: "x = path n (h (sl_key e)) d" "\<not> live (es ! x)" and e: "live e"
  shows "es_ok h proj n (es[x := e])" and "tb_map proj (es[x := e]) = (tb_map proj es)(proj (sl_key e) \<mapsto> sl_val e)"
proof -
  have len: "length es = n" and xn: "x < n" using ok d(1) by (auto simp: es_ok_def x(1) path_less)
  have occ: "sl_occupied (es[x := e] ! i)" if "sl_occupied (es ! i)" for i
    using that e xn len by (cases "i = x") (simp_all add: live_def)
  have "\<exists>d<n. path n (h (sl_key (es[x := e] ! i))) d = i \<and> (\<forall>j<d. sl_occupied (es[x := e] ! path n (h (sl_key (es[x := e] ! i))) j))"
    if "i < n" "live (es[x := e] ! i)" for i
  proof (cases "i = x")
    case True
    with d x(1) occ xn len show ?thesis by (intro exI [of _ d]) simp
  next
    case False
    with that ok obtain d' where "d' < n" "path n (h (sl_key (es ! i))) d' = i"
        "\<forall>j<d'. sl_occupied (es ! path n (h (sl_key (es ! i))) j)" by (auto simp: es_ok_def)
    with False occ show ?thesis by (intro exI [of _ d']) simp
  qed
  moreover have "i = j" if "i < n" "j < n" "live (es[x := e] ! i)" "live (es[x := e] ! j)"
      "proj (sl_key (es[x := e] ! i)) = proj (sl_key (es[x := e] ! j))" for i j
    using that ok none xn len by (cases "i = x"; cases "j = x") (auto simp: es_ok_def)
  ultimately show ok': "es_ok h proj n (es[x := e])" using len by (auto simp: es_ok_def)
  show "tb_map proj (es[x := e]) = (tb_map proj es)(proj (sl_key e) \<mapsto> sl_val e)"
  proof (rule tb_map_eqI [OF ok'])
    fix p v
    show "((tb_map proj es)(proj (sl_key e) \<mapsto> sl_val e)) p = Some v \<longleftrightarrow>
      (\<exists>i<n. live (es[x := e] ! i) \<and> proj (sl_key (es[x := e] ! i)) = p \<and> sl_val (es[x := e] ! i) = v)"
    proof (cases "p = proj (sl_key e)")
      case True
      then show ?thesis using e none xn len by (auto simp: nth_list_update)
    next
      case False
      then show ?thesis using tb_map_iff [OF ok, of p v] x(2) xn len by (auto simp: nth_list_update)
    qed
  qed
qed

text \<open>Overwriting the value of a live entry, and deleting one.\<close>

lemma update_entry:
  assumes ok: "es_ok h proj n es" and x: "x < n" "live (es ! x)"
  shows "es_ok h proj n (es[x := (es ! x)\<lparr>sl_val := v\<rparr>])"
    and "tb_map proj (es[x := (es ! x)\<lparr>sl_val := v\<rparr>]) = (tb_map proj es)(proj (sl_key (es ! x)) \<mapsto> v)"
proof -
  define es' where "es' = es[x := (es ! x)\<lparr>sl_val := v\<rparr>]"
  have len: "length es = n" using ok by (simp add: es_ok_def)
  have same: "sl_key (es' ! i) = sl_key (es ! i)" "live (es' ! i) = live (es ! i)"
      "sl_occupied (es' ! i) = sl_occupied (es ! i)" "sl_val (es' ! i) = (if i = x then v else sl_val (es ! i))"
      "length es' = n" for i
    using x len by (cases "i = x"; simp add: es'_def live_def)+
  show ok': "es_ok h proj n es'" using ok unfolding es_ok_def same by simp
  show "tb_map proj es' = (tb_map proj es)(proj (sl_key (es ! x)) \<mapsto> v)"
  proof (rule tb_map_eqI [OF ok'])
    fix p w
    show "((tb_map proj es)(proj (sl_key (es ! x)) \<mapsto> v)) p = Some w \<longleftrightarrow>
      (\<exists>i<n. live (es' ! i) \<and> proj (sl_key (es' ! i)) = p \<and> sl_val (es' ! i) = w)"
    proof (cases "p = proj (sl_key (es ! x))")
      case True
      then show ?thesis unfolding same using x es_unique [OF ok _ x(1) _ x(2)] by auto
    next
      case False
      then show ?thesis unfolding same using tb_map_iff [OF ok, of p w] by auto
    qed
  qed
qed

lemma delete_entry:
  assumes ok: "es_ok h proj n es" and x: "x < n" "live (es ! x)"
  shows "es_ok h proj n (es[x := (es ! x)\<lparr>sl_deleted := True\<rparr>])"
    and "tb_map proj (es[x := (es ! x)\<lparr>sl_deleted := True\<rparr>]) = (tb_map proj es)(proj (sl_key (es ! x)) := None)"
proof -
  define es' where "es' = es[x := (es ! x)\<lparr>sl_deleted := True\<rparr>]"
  have len: "length es = n" using ok by (simp add: es_ok_def)
  have same: "sl_key (es' ! i) = sl_key (es ! i)" "live (es' ! i) = (live (es ! i) \<and> i \<noteq> x)"
      "sl_occupied (es' ! i) = sl_occupied (es ! i)" "sl_val (es' ! i) = sl_val (es ! i)"
      "length es' = n" for i
    using x len by (cases "i = x"; simp add: es'_def live_def)+
  show ok': "es_ok h proj n es'" using ok unfolding es_ok_def same by auto
  show "tb_map proj es' = (tb_map proj es)(proj (sl_key (es ! x)) := None)"
  proof (rule tb_map_eqI [OF ok'])
    fix p w
    show "((tb_map proj es)(proj (sl_key (es ! x)) := None)) p = Some w \<longleftrightarrow>
      (\<exists>i<n. live (es' ! i) \<and> proj (sl_key (es' ! i)) = p \<and> sl_val (es' ! i) = w)"
      unfolding same using tb_map_iff [OF ok, of p w] x es_unique [OF ok _ x(1) _ x(2)] by auto
  qed
qed

text \<open>Look-up and removal.\<close>

lemma get_spec:
  fixes t :: "('k, 'v) table"
  assumes "tb_ok h proj t"
  shows "\<exists>r. tb_get h eq t k = Some r \<and>
           (case r of
              None \<Rightarrow> tb_map proj (tb_entries t) (proj k) = None
            | Some i \<Rightarrow> unat i < length (tb_entries t) \<and> live (tb_entries t ! unat i) \<and>
                        proj (sl_key (tb_entries t ! unat i)) = proj k \<and>
                        tb_map proj (tb_entries t) (proj k) = Some (sl_val (tb_entries t ! unat i)))"
proof -
  have ok: "cap_ok (tb_capacity t)" "es_ok h proj (unat (tb_capacity t)) (tb_entries t)"
      "n_live (tb_entries t) + n_tomb (tb_entries t) < unat (tb_capacity t)"
    using assms by (simp_all add: tb_ok_def)
  have len: "length (tb_entries t) = unat (tb_capacity t)" using ok(2) by (simp add: es_ok_def)
  from ok show ?thesis
  proof (cases rule: probe_cases [where k = k])
    case (hit i)
    with tb_map_SomeI [OF ok(2) hit(1,2,3)] len show ?thesis by (simp add: tb_get_def)
  next
    case (miss u i tomb)
    with tb_map_NoneI [of "tb_entries t" proj "proj k"] len show ?thesis by (simp add: tb_get_def)
  qed
qed

lemma remove_spec:
  assumes "tb_ok h proj t"
  shows "\<exists>t'. tb_remove h eq t k = Some t' \<and> tb_ok h proj t' \<and> tb_capacity t' = tb_capacity t \<and>
           tb_map proj (tb_entries t') = (tb_map proj (tb_entries t))(proj k := None)"
proof -
  have cap: "cap_ok (tb_capacity t)" "unat (tb_capacity t) \<le> 2 ^ 30"
    and ok: "es_ok h proj (unat (tb_capacity t)) (tb_entries t)"
    and cnt: "unat (tb_count t) = n_live (tb_entries t)" "unat (tb_tombstones t) = n_tomb (tb_entries t)"
    and room: "n_live (tb_entries t) + n_tomb (tb_entries t) < unat (tb_capacity t)"
    using assms by (simp_all add: tb_ok_def)
  have len: "length (tb_entries t) = unat (tb_capacity t)" using ok by (simp add: es_ok_def)
  obtain r where r: "tb_get h eq t k = Some r" and
      r': "case r of None \<Rightarrow> tb_map proj (tb_entries t) (proj k) = None
        | Some i \<Rightarrow> unat i < length (tb_entries t) \<and> live (tb_entries t ! unat i) \<and>
              proj (sl_key (tb_entries t ! unat i)) = proj k \<and>
              tb_map proj (tb_entries t) (proj k) = Some (sl_val (tb_entries t ! unat i))"
    using get_spec [OF assms, of k] by blast
  show ?thesis
  proof (cases r)
    case None
    with r r' assms show ?thesis by (simp add: tb_remove_def fun_upd_idem)
  next
    case (Some i)
    define x where "x = unat i"
    have x: "x < unat (tb_capacity t)" "live (tb_entries t ! x)" "proj (sl_key (tb_entries t ! x)) = proj k"
      using r' len by (simp_all add: Some x_def)
    define es' where "es' = (tb_entries t)[x := (tb_entries t ! x)\<lparr>sl_deleted := True\<rparr>]"
    define t' where "t' = t\<lparr>tb_entries := es', tb_count := tb_count t - 1, tb_tombstones := tb_tombstones t + 1\<rparr>"
    have c: "Suc (n_live es') = n_live (tb_entries t)" "n_tomb es' = Suc (n_tomb (tb_entries t))"
      using length_filter_update [of x "tb_entries t" live "(tb_entries t ! x)\<lparr>sl_deleted := True\<rparr>"]
        length_filter_update [of x "tb_entries t" "\<lambda>s. sl_occupied s \<and> sl_deleted s" "(tb_entries t ! x)\<lparr>sl_deleted := True\<rparr>"]
        x(1,2) len by (simp_all add: n_live_def n_tomb_def es'_def live_def)
    have "unat (tb_count t - 1) = n_live es'" using c(1) cnt(1) by (simp add: unat_sub_no_wrap)
    moreover have "unat (tb_tombstones t + 1) = n_tomb es'"
      using c cnt room cap(2) by (subst unat_add_no_wrap) simp_all
    ultimately have "tb_ok h proj t'"
      using cap room delete_entry(1) [OF ok x(1,2)] c by (simp add: tb_ok_def t'_def es'_def)
    moreover have "tb_remove h eq t k = Some t'"
      using r x(1) len by (simp add: tb_remove_def Some mem_get_def mem_set_def t'_def es'_def x_def)
    moreover have "tb_map proj (tb_entries t') = (tb_map proj (tb_entries t))(proj k := None)"
      using delete_entry(2) [OF ok x(1,2)] x(3) by (simp add: t'_def es'_def)
    ultimately show ?thesis by (auto simp: t'_def)
  qed
qed

text \<open>Placing an entry in an array without tombstones.\<close>

lemma place_entry:
  assumes cap: "cap_ok cap" and ok: "es_ok h proj (unat cap) es" and room: "n_live es + n_tomb es < unat cap"
    and s: "live s" "tb_map proj es (proj (sl_key s)) = None"
  obtains idx where "tb_free_index es cap (h (sl_key s) AND (cap - 1)) = Some idx" and "unat idx < unat cap"
    and "es_ok h proj (unat cap) (es[unat idx := s])"
    and "tb_map proj (es[unat idx := s]) = (tb_map proj es)(proj (sl_key s) \<mapsto> sl_val s)"
    and "n_live (es[unat idx := s]) = Suc (n_live es)" and "n_tomb (es[unat idx := s]) = n_tomb es"
proof -
  have len: "length es = unat cap" using ok by (simp add: es_ok_def)
  obtain u where u: "u < unat cap" "\<not> sl_occupied (es ! path (unat cap) (h (sl_key s)) u)"
      "\<forall>j < u. sl_occupied (es ! path (unat cap) (h (sl_key s)) j)"
    by (rule first_free [OF len room, of "h (sl_key s)"])
  obtain idx where idx: "unat idx = path (unat cap) (h (sl_key s)) u"
      "tb_free_index es cap (h (sl_key s) AND (cap - 1)) = Some idx"
    using free_index_spec [where j = 0, OF cap len u(1,2)] u(3) path_start [OF cap, of "h (sl_key s)"] by auto
  have none: "proj (sl_key (es ! i)) \<noteq> proj (sl_key s)" if "i < unat cap" "live (es ! i)" for i
    using tb_map_SomeI [OF ok that] s(2) by auto
  have dead: "\<not> live (es ! unat idx)" using u(2) by (simp add: idx(1) live_def)
  note ins = insert_entry [OF ok none u(1) u(3) [rule_format] idx(1) dead s(1)]
  have lt: "unat idx < unat cap" using u(1) by (simp add: idx(1) path_less)
  have "n_live (es[unat idx := s]) = Suc (n_live es)" "n_tomb (es[unat idx := s]) = n_tomb es"
    using length_filter_update [of "unat idx" es live s]
      length_filter_update [of "unat idx" es "\<lambda>s. sl_occupied s \<and> sl_deleted s" s] lt len dead s(1) u(2)
    by (simp_all add: n_live_def n_tomb_def live_def idx(1))
  with ins idx(2) lt show thesis by (intro that [of idx]) simp_all
qed

lemma rehash_spec:
  assumes cap: "cap_ok cap"
  shows "es_ok h proj (unat cap) es \<Longrightarrow> n_tomb es = 0 \<Longrightarrow> unat c = n_live es \<Longrightarrow>
    n_live es + n_live old < unat cap \<Longrightarrow> distinct (map (\<lambda>s. proj (sl_key s)) (filter live old)) \<Longrightarrow>
    \<forall>s \<in> set old. live s \<longrightarrow> tb_map proj es (proj (sl_key s)) = None \<Longrightarrow>
    \<exists>es' c'. tb_rehash h cap old (es, c) = Some (es', c') \<and> es_ok h proj (unat cap) es' \<and> n_tomb es' = 0 \<and>
      unat c' = n_live es' \<and> n_live es' = n_live es + n_live old \<and>
      (\<forall>p. tb_map proj es' p = (case tb_map proj old p of Some v \<Rightarrow> Some v | None \<Rightarrow> tb_map proj es p))"
proof (induction old arbitrary: es c)
  case Nil
  then show ?case by (simp add: n_live_def tb_map_def)
next
  case (Cons s old)
  show ?case
  proof (cases "live s")
    case False
    then have "n_live (s # old) = n_live old" "tb_map proj (s # old) = tb_map proj old" "filter live (s # old) = filter live old"
        "tb_rehash h cap (s # old) (es, c) = tb_rehash h cap old (es, c)"
      by (simp_all add: n_live_def tb_map_def fun_eq_iff) (auto simp: live_def)
    with Cons.IH [OF Cons.prems(1-3)] Cons.prems(4-6) show ?thesis by simp
  next
    case True
    have s: "s\<lparr>sl_deleted := False\<rparr> = s" using True by (simp add: live_def)
    have room: "n_live es + n_tomb es < unat cap" using Cons.prems(2,4) by simp
    obtain idx where idx: "tb_free_index es cap (h (sl_key s) AND (cap - 1)) = Some idx" "unat idx < unat cap"
        "es_ok h proj (unat cap) (es[unat idx := s])"
        "tb_map proj (es[unat idx := s]) = (tb_map proj es)(proj (sl_key s) \<mapsto> sl_val s)"
        "n_live (es[unat idx := s]) = Suc (n_live es)" "n_tomb (es[unat idx := s]) = n_tomb es"
      by (rule place_entry [OF cap Cons.prems(1) room True]) (use Cons.prems(6) True in auto)
    have len: "length es = unat cap" using Cons.prems(1) by (simp add: es_ok_def)
    have more: "n_live (s # old) = Suc (n_live old)" using True by (simp add: n_live_def)
    have "unat c + 1 < 2 ^ 32"
      using Cons.prems(3,4) more unat_less_power_u32 [of cap] by simp
    then have c: "unat (c + 1) = Suc (n_live es)"
      using Cons.prems(3) unat_add_no_wrap [of c 1] by simp
    have differ: "proj (sl_key s') \<noteq> proj (sl_key s)" if "s' \<in> set old" "live s'" for s'
    proof -
      have "proj (sl_key s') \<in> (\<lambda>x. proj (sl_key x)) ` {x \<in> set old. live x}" using that by simp
      then show ?thesis using Cons.prems(5) True by force
    qed
    then have fresh: "\<forall>s' \<in> set old. live s' \<longrightarrow> tb_map proj (es[unat idx := s]) (proj (sl_key s')) = None"
      using Cons.prems(6) by (simp add: idx(4))
    obtain es' c' where r: "tb_rehash h cap old (es[unat idx := s], c + 1) = Some (es', c')"
        "es_ok h proj (unat cap) es'" "n_tomb es' = 0" "unat c' = n_live es'"
        "n_live es' = n_live (es[unat idx := s]) + n_live old"
        "\<forall>p. tb_map proj es' p = (case tb_map proj old p of Some v \<Rightarrow> Some v | None \<Rightarrow> tb_map proj (es[unat idx := s]) p)"
      using Cons.IH [of "es[unat idx := s]" "c + 1"] idx c fresh Cons.prems True more by auto
    have none: "tb_map proj old (proj (sl_key s)) = None"
      using differ by (auto simp: tb_map_def find_None_iff)
    have "tb_map proj (s # old) p = (if p = proj (sl_key s) then Some (sl_val s) else tb_map proj old p)" for p
      using True by (simp add: tb_map_def)
    with r(6) none have "\<forall>p. tb_map proj es' p = (case tb_map proj (s # old) p of Some v \<Rightarrow> Some v | None \<Rightarrow> tb_map proj es p)"
      by (auto simp: idx(4) split: option.split)
    moreover have "tb_rehash h cap (s # old) (es, c) = Some (es', c')"
      using True idx(1,2) len r(1) by (simp add: s live_def mem_set_def)
    ultimately show ?thesis using r idx(5) more by auto
  qed
qed

lemma grow_spec:
  assumes t: "tb_ok h proj t" and small: "unat (tb_capacity t) \<le> 2 ^ 29" and zero: "\<not> sl_occupied zero"
  shows "\<exists>t'. tb_grow h zero True t = Some t' \<and> tb_ok h proj t' \<and> unat (tb_capacity t') = 2 * unat (tb_capacity t) \<and>
           tb_tombstones t' = 0 \<and> unat (tb_count t') = unat (tb_count t) \<and>
           tb_map proj (tb_entries t') = tb_map proj (tb_entries t)"
proof -
  define cap where "cap = tb_capacity t * 2"
  have t': "cap_ok (tb_capacity t)" "es_ok h proj (unat (tb_capacity t)) (tb_entries t)"
      "n_live (tb_entries t) + n_tomb (tb_entries t) < unat (tb_capacity t)"
      "unat (tb_count t) = n_live (tb_entries t)" using t by (simp_all add: tb_ok_def)
  obtain b where b: "4 \<le> b" "b \<le> 31" "unat (tb_capacity t) = 2 ^ b" "tb_capacity t = 2 ^ b"
    by (rule cap_ok_unat [OF t'(1)])
  have "(2 :: nat) ^ b \<le> 2 ^ 29" using small b(3) by simp
  then have b29: "b \<le> 29" by (rule power_le_imp_le_exp [rotated]) simp
  have cap: "cap_ok cap" using b(1,4) b29 by (auto simp: cap_ok_def cap_def intro!: exI [of _ "Suc b"])
  have "unat cap = unat (tb_capacity t) * unat (2 :: u32)"
    unfolding cap_def using small by (subst unat_mult_lem [THEN iffD1]) simp_all
  then have ucap: "unat cap = 2 * unat (tb_capacity t)" by simp
  define es0 where "es0 = replicate (unat cap) zero"
  have dead: "\<not> live (es0 ! i)" if "i < unat cap" for i using that zero by (simp add: es0_def live_def)
  have es0: "es_ok h proj (unat cap) es0" "n_tomb es0 = 0" "n_live es0 = 0" "tb_map proj es0 p = None" for p
    using dead zero
    by (auto simp: es_ok_def es0_def n_tomb_def n_live_def tb_map_def live_def find_None_iff filter_empty_conv)
  have dist: "distinct (map (\<lambda>s. proj (sl_key s)) (filter live (tb_entries t)))"
    using t'(2) by (intro distinct_live_keys) (auto simp: es_ok_def)
  obtain es' c' where r: "tb_rehash h cap (tb_entries t) (es0, 0) = Some (es', c')" "es_ok h proj (unat cap) es'"
      "n_tomb es' = 0" "unat c' = n_live es'" "n_live es' = n_live es0 + n_live (tb_entries t)"
      "\<forall>p. tb_map proj es' p = (case tb_map proj (tb_entries t) p of Some v \<Rightarrow> Some v | None \<Rightarrow> tb_map proj es0 p)"
    using rehash_spec [OF cap es0(1,2), of 0 "tb_entries t"] es0(3,4) dist t'(3) ucap by auto
  have same: "tb_map proj es' = tb_map proj (tb_entries t)"
    using r(6) es0(4) by (auto simp: fun_eq_iff split: option.split)
  moreover have "unat cap \<le> 2 ^ 30" using small ucap by simp
  ultimately have "tb_ok h proj \<lparr>tb_entries = es', tb_capacity = cap, tb_count = c', tb_tombstones = 0\<rparr>"
    using r cap ucap t'(3) es0(3) by (simp add: tb_ok_def)
  moreover have "tb_grow h zero True t = Some \<lparr>tb_entries = es', tb_capacity = cap, tb_count = c', tb_tombstones = 0\<rparr>"
    using r(1) unfolding tb_grow_def cap_def [symmetric] es0_def by simp
  ultimately show ?thesis using same ucap r(4,5) es0(3) t'(4) by simp
qed

text \<open>Insertion when the table has a free slot besides the one it takes.\<close>

lemma put_entry:
  fixes t :: "('k, 'v) table"
  assumes t: "tb_ok h proj t" and room: "Suc (unat (tb_count t) + unat (tb_tombstones t)) < unat (tb_capacity t)"
  shows "\<exists>t'. tb_ok h proj t' \<and> tb_capacity t' = tb_capacity t \<and>
           tb_map proj (tb_entries t') = (tb_map proj (tb_entries t))(proj k \<mapsto> v) \<and>
           tb_used t' \<le> Suc (tb_used t) \<and> tb_store h eq t k v = Some t'"
proof -
  have cap: "cap_ok (tb_capacity t)" "unat (tb_capacity t) \<le> 2 ^ 30"
    and ok: "es_ok h proj (unat (tb_capacity t)) (tb_entries t)"
    and cnt: "unat (tb_count t) = n_live (tb_entries t)" "unat (tb_tombstones t) = n_tomb (tb_entries t)"
    and lt: "n_live (tb_entries t) + n_tomb (tb_entries t) < unat (tb_capacity t)"
    using t by (simp_all add: tb_ok_def)
  have len: "length (tb_entries t) = unat (tb_capacity t)" using ok by (simp add: es_ok_def)
  from cap(1) ok lt show ?thesis
  proof (cases rule: probe_cases [where k = k])
    case (hit i)
    define es' where "es' = (tb_entries t)[unat i := (tb_entries t ! unat i)\<lparr>sl_val := v\<rparr>]"
    have "n_live es' = n_live (tb_entries t)" "n_tomb es' = n_tomb (tb_entries t)"
      using length_filter_update [of "unat i" "tb_entries t" live "(tb_entries t ! unat i)\<lparr>sl_val := v\<rparr>"]
        length_filter_update [of "unat i" "tb_entries t" "\<lambda>s. sl_occupied s \<and> sl_deleted s" "(tb_entries t ! unat i)\<lparr>sl_val := v\<rparr>"]
        hit(1,2) len by (simp_all add: n_live_def n_tomb_def es'_def live_def)
    with update_entry [OF ok hit(1,2), of v] t hit len show ?thesis
      by (intro exI [of _ "t\<lparr>tb_entries := es'\<rparr>"]) (simp add: tb_used_def tb_ok_def es'_def mem_get_def mem_set_def tb_store_def)
  next
    case (miss u i tomb)
    define e where "e = \<lparr>sl_key = k, sl_val = v, sl_occupied = True, sl_deleted = False\<rparr>"
    define x where "x = unat (case tomb of Some j \<Rightarrow> j | None \<Rightarrow> i)"
    have "\<exists>d < unat (tb_capacity t). x = path (unat (tb_capacity t)) (h k) d \<and> d \<le> u \<and> \<not> live (tb_entries t ! x) \<and>
        sl_occupied (tb_entries t ! x) = (tomb \<noteq> None)"
    proof (cases tomb)
      case None
      with miss(4-6) show ?thesis by (intro exI [of _ u]) (simp add: x_def live_def)
    next
      case (Some j)
      with miss(8) obtain d where "d < u" "unat j = path (unat (tb_capacity t)) (h k) d"
          "sl_occupied (tb_entries t ! unat j)" "sl_deleted (tb_entries t ! unat j)" by (auto simp: tomb_ok_def)
      with Some miss(4) show ?thesis by (intro exI [of _ d]) (simp add: x_def live_def)
    qed
    then obtain d where d: "d < unat (tb_capacity t)" "x = path (unat (tb_capacity t)) (h k) d" "d \<le> u"
        "\<not> live (tb_entries t ! x)" "sl_occupied (tb_entries t ! x) = (tomb \<noteq> None)" by blast
    have x: "x < length (tb_entries t)" using d(1,2) len by (simp add: path_less)
    have e: "live e" "sl_key e = k" "sl_val e = v" by (simp_all add: e_def live_def)
    have before: "sl_occupied (tb_entries t ! path (unat (tb_capacity t)) (h (sl_key e)) j)" if "j < d" for j
      using miss(7) that d(3) by (simp add: e)
    have none: "proj (sl_key (tb_entries t ! i)) \<noteq> proj (sl_key e)"
      if "i < unat (tb_capacity t)" "live (tb_entries t ! i)" for i
      using miss(1) that by (simp add: e)
    note ins = insert_entry [OF ok none d(1) before d(2) [folded e(2)] d(4) e(1)]
    define es' where "es' = (tb_entries t)[x := e]"
    have n: "n_live es' = Suc (n_live (tb_entries t))"
        "n_tomb es' + (if tomb = None then 0 else 1) = n_tomb (tb_entries t)"
      using length_filter_update [of x "tb_entries t" live e]
        length_filter_update [of x "tb_entries t" "\<lambda>s. sl_occupied s \<and> sl_deleted s" e] x d(4,5) e(1)
      by (auto simp: n_live_def n_tomb_def es'_def live_def)
    define tombs where "tombs = (case tomb of Some i \<Rightarrow> tb_tombstones t - 1 | None \<Rightarrow> tb_tombstones t)"
    have tombs: "unat tombs = n_tomb es'"
      using n(2) cnt(2) by (cases tomb) (simp_all add: tombs_def unat_sub_no_wrap)
    have count: "unat (tb_count t + 1) = n_live es'"
      using n(1) cnt room cap(2) by (subst unat_add_no_wrap) simp_all
    have used: "n_live es' + n_tomb es' \<le> Suc (tb_used t)" using n cnt by (simp add: tb_used_def split: if_splits)
    have "n_live es' + n_tomb es' < unat (tb_capacity t)" using n room cnt by (simp split: if_splits)
    then have "tb_ok h proj (t\<lparr>tb_entries := es', tb_count := tb_count t + 1, tb_tombstones := tombs\<rparr>)"
      using ins(1) cap tombs count by (simp add: tb_ok_def es'_def)
    moreover have "mem_set (tb_entries t) x e = Some es'" using x by (simp add: mem_set_def es'_def)
    ultimately show ?thesis
      using ins(2) miss(3) used tombs count
      by (intro exI [of _ "t\<lparr>tb_entries := es', tb_count := tb_count t + 1, tb_tombstones := tombs\<rparr>"])
        (simp add: tb_used_def tb_store_def e es'_def [symmetric] e_def [symmetric] x_def [symmetric] tombs_def [symmetric])
  qed
qed

lemma put_spec:
  assumes t: "tb_ok h proj t" and small: "unat (tb_capacity t) \<le> 2 ^ 29" and zero: "\<not> sl_occupied zero"
    and room: "alloc \<or> Suc (tb_used t) < unat (tb_capacity t)"
  shows "\<exists>t'. tb_put h eq zero alloc t k v = Some t' \<and> tb_ok h proj t' \<and>
           tb_map proj (tb_entries t') = (tb_map proj (tb_entries t))(proj k \<mapsto> v) \<and>
           tb_used t' \<le> Suc (tb_used t) \<and>
           (tb_capacity t' = tb_capacity t \<or>
            unat (tb_capacity t') = 2 * unat (tb_capacity t) \<and> 3 * unat (tb_capacity t) \<le> 4 * tb_used t)"
proof -
  define full where "full \<longleftrightarrow> (tb_count t + tb_tombstones t) * 4 \<ge> tb_capacity t * 3"
  have lt: "tb_used t < unat (tb_capacity t)" using t by (simp add: tb_ok_def tb_used_def)
  have big: "16 \<le> unat (tb_capacity t)" using t by (intro cap_pos) (simp add: tb_ok_def)
  have full: "full \<longleftrightarrow> unat (tb_capacity t) * 3 \<le> tb_used t * 4"
  proof -
    have a: "unat (tb_count t + tb_tombstones t) = tb_used t"
      unfolding tb_used_def using lt small by (intro unat_add_no_wrap) (simp add: tb_used_def)
    have b: "unat ((tb_count t + tb_tombstones t) * 4) = tb_used t * 4"
      using lt small a by (subst unat_mult_lem [THEN iffD1]) simp_all
    have c: "unat (tb_capacity t * 3) = unat (tb_capacity t) * 3"
      using small by (subst unat_mult_lem [THEN iffD1]) simp_all
    show ?thesis unfolding full_def word_le_nat_alt b c ..
  qed
  have "\<exists>t1. (if full then tb_grow h zero alloc t else Some t) = Some t1 \<and> tb_ok h proj t1 \<and>
      (tb_capacity t1 = tb_capacity t \<or> full \<and> unat (tb_capacity t1) = 2 * unat (tb_capacity t)) \<and>
      tb_used t1 \<le> tb_used t \<and> Suc (tb_used t1) < unat (tb_capacity t1) \<and>
      tb_map proj (tb_entries t1) = tb_map proj (tb_entries t)"
  proof (cases "full \<and> alloc")
    case True
    with grow_spec [OF t small zero] lt big show ?thesis by (auto simp: tb_used_def)
  next
    case False
    then have "(if full then tb_grow h zero alloc t else Some t) = Some t" by (auto simp: tb_grow_def)
    moreover have "Suc (tb_used t) < unat (tb_capacity t)"
      using False room load_room [OF _ big, of "tb_used t"] by (auto simp: full)
    ultimately show ?thesis using t by auto
  qed
  then obtain t1 where t1: "(if full then tb_grow h zero alloc t else Some t) = Some t1" "tb_ok h proj t1"
      "tb_capacity t1 = tb_capacity t \<or> full \<and> unat (tb_capacity t1) = 2 * unat (tb_capacity t)"
      "tb_used t1 \<le> tb_used t" "Suc (tb_used t1) < unat (tb_capacity t1)"
      "tb_map proj (tb_entries t1) = tb_map proj (tb_entries t)" by blast
  obtain t' where t': "tb_store h eq t1 k v = Some t'" "tb_ok h proj t'" "tb_capacity t' = tb_capacity t1"
      "tb_map proj (tb_entries t') = (tb_map proj (tb_entries t1))(proj k \<mapsto> v)" "tb_used t' \<le> Suc (tb_used t1)"
    using put_entry [OF t1(2), of k v] t1(5) by (auto simp: tb_used_def)
  have "tb_put h eq zero alloc t k v = Some t'"
    using t1(1) t'(1) unfolding tb_put_def full_def [symmetric] by simp
  moreover have "tb_capacity t' = tb_capacity t \<or>
      unat (tb_capacity t') = 2 * unat (tb_capacity t) \<and> 3 * unat (tb_capacity t) \<le> 4 * tb_used t"
    using t1(3) full t'(3) by auto
  ultimately show ?thesis using t' t1(4,6) by auto
qed

lemma remove_used: "tb_remove h eq t k = Some t' \<Longrightarrow> tb_ok h proj t \<Longrightarrow> tb_ok h proj t' \<Longrightarrow> tb_used t' = tb_used t"
proof -
  assume r: "tb_remove h eq t k = Some t'" and t: "tb_ok h proj t" and t': "tb_ok h proj t'"
  have occ: "length (filter sl_occupied (es[i := (es ! i)\<lparr>sl_deleted := True\<rparr>])) = length (filter sl_occupied es)"
    if "i < length es" for es :: "('k, 'a) slot list" and i
    using length_filter_update [OF that, of sl_occupied "(es ! i)\<lparr>sl_deleted := True\<rparr>"] by simp
  have "length (filter sl_occupied (tb_entries t')) = length (filter sl_occupied (tb_entries t))"
    using r by (auto simp: tb_remove_def mem_get_def mem_set_def occ Option.bind_eq_Some_conv split: option.splits if_splits)
  with t t' show ?thesis by (simp add: tb_ok_def tb_used_def n_occupied)
qed

end

end
