(* ===== verification/Kronos_Connection_Map.thy ===== *)
theory Kronos_Connection_Map
  imports Kronos_Hash_Table Kronos_Network Kronos_Ack Kronos_Congestion "HOL-Library.Multiset"
begin

text \<open>
  The connection map of \<open>src/connection/server/connection_map.c\<close>: a table from connection identifiers
  to a descriptor and a connection, and a table from remote addresses to connection identifiers. Both
  are instances of \<open>Kronos_Hash_Table\<close>, with the hash functions and comparisons of this file.

  Connections are shared objects with a reference count: they live in a store from references to
  connections, and using a reference that is not in the store (a freed connection) is undefined.
\<close>

section \<open>State\<close>

type_synonym desc_ref = nat
type_synonym conn_ref = nat

record client_connection =
  cn_connection_id :: u32
  cn_remote_address :: port_address
  cn_last_heartbeat_ms :: u64
  cn_congestion :: "congestion_controller option"
  cn_ack_tracker :: "ack_tracker option"
  cn_refcount :: u32

type_synonym conn_store = "conn_ref \<rightharpoonup> client_connection"

type_synonym connection_map_entry = "(u32, desc_ref option \<times> conn_ref option) slot"
type_synonym address_map_entry = "(port_address, u32) slot"

record connection_map =
  cm_ids :: "(u32, desc_ref option \<times> conn_ref option) table"
  cm_addrs :: "(port_address, u32) table"

definition zero_port_address :: port_address where
  "zero_port_address =
     \<lparr>sin6_family = 0, sin6_port = 0, sin6_flowinfo = 0, sin6_addr = zero_address, sin6_scope_id = 0\<rparr>"

text \<open>The entries \<open>calloc\<close> provides.\<close>

definition zero_id_entry :: connection_map_entry where
  "zero_id_entry = \<lparr>sl_key = 0, sl_val = (None, None), sl_occupied = False, sl_deleted = False\<rparr>"

definition zero_addr_entry :: address_map_entry where
  "zero_addr_entry = \<lparr>sl_key = zero_port_address, sl_val = 0, sl_occupied = False, sl_deleted = False\<rparr>"

section \<open>Operations\<close>

definition s_next_power_of_two :: "u32 \<Rightarrow> u32" where
  "s_next_power_of_two v =
     (let v = v - 1;
          v = v OR drop_bit 1 v;
          v = v OR drop_bit 2 v;
          v = v OR drop_bit 4 v;
          v = v OR drop_bit 8 v;
          v = v OR drop_bit 16 v;
          v = v + 1
      in if v < 16 then 16 else v)"

primrec hash_bytes :: "u32 \<Rightarrow> bytes \<Rightarrow> u32" where
  "hash_bytes hash [] = hash"
| "hash_bytes hash (b # bs) = hash_bytes ((hash XOR ucast b) * 16777619) bs"

definition s_hash_address :: "port_address \<Rightarrow> u32" where
  "s_hash_address addr = hash_bytes ((2166136261 XOR ucast (sin6_port addr)) * 16777619) (sin6_addr addr)"

definition s_addr_eq :: "port_address \<Rightarrow> port_address \<Rightarrow> bool" where
  "s_addr_eq a b = krs_network_port_address_equals (Some a) (Some b)"

definition s_addr_probe :: "connection_map \<Rightarrow> port_address \<Rightarrow> u32" where
  "s_addr_probe cmap addr = s_hash_address addr AND (tb_capacity (cm_addrs cmap) - 1)"

definition s_addr_grow :: "bool \<Rightarrow> connection_map \<Rightarrow> connection_map option" where
  "s_addr_grow alloc cmap =
     do { t \<leftarrow> tb_grow s_hash_address zero_addr_entry alloc (cm_addrs cmap); Some (cmap\<lparr>cm_addrs := t\<rparr>) }"

definition s_addr_put :: "bool \<Rightarrow> connection_map \<Rightarrow> port_address \<Rightarrow> u32 \<Rightarrow> connection_map option" where
  "s_addr_put alloc cmap addr connection_id =
     do { t \<leftarrow> tb_put s_hash_address s_addr_eq zero_addr_entry alloc (cm_addrs cmap) addr connection_id;
          Some (cmap\<lparr>cm_addrs := t\<rparr>) }"

definition s_addr_remove :: "connection_map \<Rightarrow> port_address \<Rightarrow> connection_map option" where
  "s_addr_remove cmap addr =
     do { t \<leftarrow> tb_remove s_hash_address s_addr_eq (cm_addrs cmap) addr; Some (cmap\<lparr>cm_addrs := t\<rparr>) }"

definition krs_connection_map_create :: "u32 \<Rightarrow> bool \<Rightarrow> bool \<Rightarrow> bool \<Rightarrow> connection_map option" where
  "krs_connection_map_create initial_capacity alloc_map alloc_entries alloc_addr =
     (let cap = s_next_power_of_two initial_capacity in
      if \<not> alloc_map then None
      else if \<not> alloc_entries then None
      else if \<not> alloc_addr then None
      else Some \<lparr>cm_ids = \<lparr>tb_entries = replicate (unat cap) zero_id_entry, tb_capacity = cap,
                           tb_count = 0, tb_tombstones = 0\<rparr>,
                 cm_addrs = \<lparr>tb_entries = replicate (unat cap) zero_addr_entry, tb_capacity = cap,
                             tb_count = 0, tb_tombstones = 0\<rparr>\<rparr>)"

definition krs_connection_map_destroy :: "connection_map option \<Rightarrow> connection_map option" where
  "krs_connection_map_destroy cmap = None"

text \<open>The hash of an identifier is the identifier itself.\<close>

definition s_id_hash :: "u32 \<Rightarrow> u32" where
  "s_id_hash connection_id = connection_id"

definition s_probe :: "connection_map \<Rightarrow> u32 \<Rightarrow> u32" where
  "s_probe cmap connection_id = s_id_hash connection_id AND (tb_capacity (cm_ids cmap) - 1)"

definition s_grow :: "bool \<Rightarrow> connection_map \<Rightarrow> connection_map option" where
  "s_grow alloc cmap =
     do { t \<leftarrow> tb_grow s_id_hash zero_id_entry alloc (cm_ids cmap); Some (cmap\<lparr>cm_ids := t\<rparr>) }"

text \<open>\<open>alloc_ids\<close> and \<open>alloc_addrs\<close> are the outcomes of the allocations of the two growths.\<close>

definition krs_connection_map_put ::
    "conn_store \<Rightarrow> bool \<Rightarrow> bool \<Rightarrow> connection_map option \<Rightarrow> u32 \<Rightarrow> desc_ref option \<Rightarrow> conn_ref \<Rightarrow>
     connection_map option option" where
  "krs_connection_map_put cs alloc_ids alloc_addrs cmap connection_id desc conn =
     (case cmap of
        None \<Rightarrow> Some None
      | Some m \<Rightarrow> do {
          t \<leftarrow> tb_put s_id_hash (=) zero_id_entry alloc_ids (cm_ids m) connection_id (desc, Some conn);
          c \<leftarrow> cs conn;
          m' \<leftarrow> s_addr_put alloc_addrs (m\<lparr>cm_ids := t\<rparr>) (cn_remote_address c) connection_id;
          Some (Some m') })"

text \<open>\<open>krs_connection_map_get\<close> returns a pointer to the entry; the model returns the entry.\<close>

definition krs_connection_map_get ::
    "connection_map option \<Rightarrow> u32 \<Rightarrow> connection_map_entry option option" where
  "krs_connection_map_get cmap connection_id =
     (case cmap of
        None \<Rightarrow> Some None
      | Some m \<Rightarrow> do {
          r \<leftarrow> tb_get s_id_hash (=) (cm_ids m) connection_id;
          case r of
            None \<Rightarrow> Some None
          | Some idx \<Rightarrow> do { e \<leftarrow> mem_get (tb_entries (cm_ids m)) (unat idx); Some (Some e) } })"

definition krs_connection_map_remove ::
    "conn_store \<Rightarrow> connection_map option \<Rightarrow> u32 \<Rightarrow> connection_map option option" where
  "krs_connection_map_remove cs cmap connection_id =
     (case cmap of
        None \<Rightarrow> Some None
      | Some m \<Rightarrow> do {
          e \<leftarrow> krs_connection_map_get cmap connection_id;
          case e of
            None \<Rightarrow> Some (Some m)
          | Some entry \<Rightarrow> do {
              m1 \<leftarrow> (case snd (sl_val entry) of
                       None \<Rightarrow> Some m
                     | Some conn \<Rightarrow> do { c \<leftarrow> cs conn; s_addr_remove m (cn_remote_address c) });
              t \<leftarrow> tb_remove s_id_hash (=) (cm_ids m1) connection_id;
              Some (Some (m1\<lparr>cm_ids := t\<rparr>)) } })"

definition krs_connection_map_get_by_address ::
    "connection_map option \<Rightarrow> port_address option \<Rightarrow> u32 option" where
  "krs_connection_map_get_by_address cmap addr =
     (case (cmap, addr) of
        (Some m, Some a) \<Rightarrow> do {
          r \<leftarrow> tb_get s_hash_address s_addr_eq (cm_addrs m) a;
          case r of
            None \<Rightarrow> Some 0
          | Some idx \<Rightarrow> do { e \<leftarrow> mem_get (tb_entries (cm_addrs m)) (unat idx); Some (sl_val e) } }
      | _ \<Rightarrow> Some 0)"

text \<open>Acquiring a connection counts a reference; it returns the descriptor and the connection.\<close>

definition krs_connection_map_acquire ::
    "conn_store \<Rightarrow> connection_map option \<Rightarrow> u32 \<Rightarrow>
     ((desc_ref option \<times> conn_ref) option \<times> conn_store) option" where
  "krs_connection_map_acquire cs cmap connection_id =
     (case cmap of
        None \<Rightarrow> Some (None, cs)
      | Some m \<Rightarrow> do {
          e \<leftarrow> krs_connection_map_get cmap connection_id;
          case e of
            None \<Rightarrow> Some (None, cs)
          | Some entry \<Rightarrow>
              (case snd (sl_val entry) of
                 None \<Rightarrow> Some (None, cs)
               | Some conn \<Rightarrow> do {
                   c \<leftarrow> cs conn;
                   Some (Some (fst (sl_val entry), conn), cs(conn \<mapsto> c\<lparr>cn_refcount := cn_refcount c + 1\<rparr>)) }) })"

text \<open>Releasing the last reference destroys the tracker and the controller and frees the connection.\<close>

definition krs_connection_map_release :: "conn_store \<Rightarrow> conn_ref option \<Rightarrow> conn_store option" where
  "krs_connection_map_release cs conn =
     (case conn of
        None \<Rightarrow> Some cs
      | Some r \<Rightarrow> do {
          c \<leftarrow> cs r;
          if cn_refcount c - 1 \<noteq> 0 then Some (cs(r \<mapsto> c\<lparr>cn_refcount := cn_refcount c - 1\<rparr>))
          else do { _ \<leftarrow> krs_ack_tracker_destroy (cn_ack_tracker c); Some (cs(r := None)) } })"

section \<open>The two tables\<close>

lemma s_addr_eq_iff: "s_addr_eq a b \<longleftrightarrow> addr_key a = addr_key b"
  by (simp add: s_addr_eq_def port_address_equals_iff)

interpretation id_table: open_table s_id_hash "(=)" "\<lambda>k. k"
  by unfold_locales simp_all

interpretation addr_table: open_table s_hash_address s_addr_eq addr_key
  by unfold_locales (simp_all add: s_addr_eq_iff s_hash_address_def addr_key_def)

section \<open>The capacity\<close>

text \<open>Or-ing a word with its own shifts: bit \<open>i\<close> is set when one of the bits \<open>i, \<dots>, i + w - 1\<close> was.\<close>

definition smear :: "nat \<Rightarrow> u32 \<Rightarrow> u32 \<Rightarrow> bool" where
  "smear w v x \<longleftrightarrow> (\<forall>i. bit x i \<longleftrightarrow> (\<exists>d < w. bit v (i + d)))"

lemma smear_double:
  assumes "smear w v x" and w': "w' = w + w"
  shows "smear w' v (x OR drop_bit w x)"
proof -
  have "(\<exists>d < w. bit v (i + d)) \<or> (\<exists>d < w. bit v (i + w + d)) \<longleftrightarrow> (\<exists>d < w + w. bit v (i + d))" for i
  proof
    assume "\<exists>d < w + w. bit v (i + d)"
    then obtain d where d: "d < w + w" "bit v (i + d)" by blast
    show "(\<exists>d < w. bit v (i + d)) \<or> (\<exists>d < w. bit v (i + w + d))"
    proof (cases "d < w")
      case False
      with d have "d - w < w" "bit v (i + w + (d - w))" by simp_all
      then show ?thesis by blast
    qed (use d in blast)
  next
    assume "(\<exists>d < w. bit v (i + d)) \<or> (\<exists>d < w. bit v (i + w + d))"
    then show "\<exists>d < w + w. bit v (i + d)"
      by (metis add.assoc nat_add_left_cancel_less trans_less_add1)
  qed
  with assms(1) show ?thesis
    by (simp add: smear_def bit_or_iff bit_drop_bit_eq w' add.commute add.left_commute)
qed

lemma smear_all:
  assumes "smear 32 v x" and "v \<noteq> 0"
  obtains m where "m < 32" and "x = mask (Suc m)" and "bit v m"
proof -
  have bound: "n < 32" if "bit v n" for n using bit_imp_le_length [OF that] by simp
  define m where "m = Max {n. bit v n}"
  have fin: "finite {n. bit v n}" by (rule finite_subset [of _ "{..<32}"]) (auto dest: bound)
  moreover have ne: "{n. bit v n} \<noteq> {}" using assms(2) by (auto simp: bit_eq_iff)
  ultimately have m: "bit v m" "m < 32" using Max_in [OF fin ne] bound by (auto simp: m_def)
  have "bit x i \<longleftrightarrow> i < Suc m" for i
  proof
    assume "bit x i"
    then obtain d where "bit v (i + d)" using assms(1) by (auto simp: smear_def)
    then have "i + d \<le> m" using fin by (auto simp: m_def intro: Max_ge)
    then show "i < Suc m" by simp
  next
    assume "i < Suc m"
    then show "bit x i" using assms(1) m by (auto simp: smear_def intro!: exI [of _ "m - i"])
  qed
  then have "x = mask (Suc m)" using m(2) by (intro bit_word_eqI) (simp add: bit_mask_iff)
  with m that show thesis by blast
qed

lemma next_power_of_two_ok: "cap_ok (s_next_power_of_two v)"
proof -
  define w where "w = v - 1"
  define x where "x = (let v = w OR drop_bit 1 w; v = v OR drop_bit 2 v; v = v OR drop_bit 4 v;
                         v = v OR drop_bit 8 v in v OR drop_bit 16 v)"
  have "smear 1 w w" by (simp add: smear_def)
  then have sx: "smear 32 w x"
    unfolding x_def Let_def by (intro smear_double [of 16] smear_double [of 8] smear_double [of 4] smear_double [of 2] smear_double [of 1]) simp_all
  have r: "s_next_power_of_two v = (if x + 1 < 16 then 16 else x + 1)"
    by (simp add: s_next_power_of_two_def Let_def x_def w_def)
  have sixteen: "cap_ok 16" by (auto simp: cap_ok_def intro!: exI [of _ 4])
  show ?thesis
  proof (cases "w = 0")
    case True
    then have "x = 0" by (simp add: x_def)
    with r sixteen show ?thesis by simp
  next
    case False
    obtain m where m: "m < 32" "x = mask (Suc m)" by (rule smear_all [OF sx False])
    then have x1: "x + 1 = 2 ^ Suc m" by (simp add: mask_eq_exp_minus_1)
    show ?thesis
    proof (cases "m = 31")
      case True
      then have "x + 1 = 0" using x1 by (simp add: word_eq_iff_unsigned)
      with r sixteen show ?thesis by simp
    next
      case m31: False
      show ?thesis
      proof (cases "4 \<le> Suc m")
        case True
        with m31 m(1) have "cap_ok (2 ^ Suc m)" by (auto simp: cap_ok_def intro!: exI [of _ "Suc m"])
        with r sixteen x1 show ?thesis by (simp split: if_splits)
      next
        case False
        then have "m \<in> {0, 1, 2}" by auto
        then have "x + 1 < 16" using x1 by auto
        with r sixteen show ?thesis by simp
      qed
    qed
  qed
qed

section \<open>The maps a connection map represents\<close>

text \<open>
  The abstract state: the connections by identifier, and the identifier by address key. The abstract
  operations follow the code: a removal also removes the address of the connection, whichever
  identifier that address currently has.
\<close>

type_synonym cm_spec = "(u32 \<rightharpoonup> desc_ref option \<times> conn_ref option) \<times> (u16 \<times> u16 \<times> address \<rightharpoonup> u32)"

definition cm_abs :: "connection_map \<Rightarrow> cm_spec" where
  "cm_abs m = (tb_map (\<lambda>k. k) (tb_entries (cm_ids m)), tb_map addr_key (tb_entries (cm_addrs m)))"

datatype cm_op = Cm_put u32 "desc_ref option" conn_ref | Cm_remove u32

definition conn_key :: "conn_store \<Rightarrow> conn_ref \<Rightarrow> u16 \<times> u16 \<times> address" where
  "conn_key cs r = addr_key (cn_remote_address (the (cs r)))"

primrec cm_spec_step :: "conn_store \<Rightarrow> cm_op \<Rightarrow> cm_spec \<Rightarrow> cm_spec" where
  "cm_spec_step cs (Cm_put cid d r) s = ((fst s)(cid \<mapsto> (d, Some r)), (snd s)(conn_key cs r \<mapsto> cid))"
| "cm_spec_step cs (Cm_remove cid) s =
     (case fst s cid of
        None \<Rightarrow> s
      | Some (d, conn) \<Rightarrow>
          ((fst s)(cid := None),
           case conn of None \<Rightarrow> snd s | Some r \<Rightarrow> (snd s)(conn_key cs r := None)))"

text \<open>The operations of the code, with every allocation successful.\<close>

primrec cm_step :: "conn_store \<Rightarrow> cm_op \<Rightarrow> connection_map \<Rightarrow> connection_map option" where
  "cm_step cs (Cm_put cid d r) m = do { m' \<leftarrow> krs_connection_map_put cs True True (Some m) cid d r; m' }"
| "cm_step cs (Cm_remove cid) m = do { m' \<leftarrow> krs_connection_map_remove cs (Some m) cid; m' }"

fun cm_run :: "conn_store \<Rightarrow> cm_op list \<Rightarrow> connection_map \<Rightarrow> connection_map option" where
  "cm_run cs [] m = Some m"
| "cm_run cs (p # ps) m = do { m' \<leftarrow> cm_step cs p m; cm_run cs ps m' }"

fun cm_spec_run :: "conn_store \<Rightarrow> cm_op list \<Rightarrow> cm_spec \<Rightarrow> cm_spec" where
  "cm_spec_run cs [] s = s"
| "cm_spec_run cs (p # ps) s = cm_spec_run cs ps (cm_spec_step cs p s)"

definition cm_ok :: "connection_map \<Rightarrow> bool" where
  "cm_ok m \<longleftrightarrow> tb_ok s_id_hash (\<lambda>k. k) (cm_ids m) \<and> tb_ok s_hash_address addr_key (cm_addrs m)"

text \<open>Every connection the map refers to is alive.\<close>

definition refs_ok :: "conn_store \<Rightarrow> cm_spec \<Rightarrow> bool" where
  "refs_ok cs s \<longleftrightarrow> (\<forall>cid d r. fst s cid = Some (d, Some r) \<longrightarrow> cs r \<noteq> None)"

text \<open>After \<open>n\<close> operations on tables created with capacity \<open>c\<close>.\<close>

definition tb_budget :: "nat \<Rightarrow> nat \<Rightarrow> ('k, 'v) table \<Rightarrow> bool" where
  "tb_budget c n t \<longleftrightarrow> tb_used t \<le> n \<and> (unat (tb_capacity t) \<le> c \<or> 3 * unat (tb_capacity t) \<le> 8 * n)"

lemma tb_budget_mono: "tb_budget c n t \<Longrightarrow> n \<le> n' \<Longrightarrow> tb_budget c n' t"
  by (auto simp: tb_budget_def)

lemma tb_budget_put:
  assumes "tb_budget c n t" and "tb_used t' \<le> Suc (tb_used t)"
    and "tb_capacity t' = tb_capacity t \<or>
         unat (tb_capacity t') = 2 * unat (tb_capacity t) \<and> 3 * unat (tb_capacity t) \<le> 4 * tb_used t"
  shows "tb_budget c (Suc n) t'"
  using assms by (auto simp: tb_budget_def)

lemma tb_budget_small: "tb_budget c n t \<Longrightarrow> c \<le> 2 ^ 29 \<Longrightarrow> n \<le> 2 ^ 27 \<Longrightarrow> unat (tb_capacity t) \<le> 2 ^ 29"
  by (auto simp: tb_budget_def)

text \<open>One operation.\<close>

lemma cm_get_spec:
  assumes "cm_ok m"
  shows "\<exists>e. krs_connection_map_get (Some m) cid = Some e \<and> map_option sl_val e = fst (cm_abs m) cid"
proof -
  have ok: "tb_ok s_id_hash (\<lambda>k. k) (cm_ids m)" using assms by (simp add: cm_ok_def)
  obtain r where r: "tb_get s_id_hash (=) (cm_ids m) cid = Some r" and
      r': "case r of
            None \<Rightarrow> tb_map (\<lambda>k. k) (tb_entries (cm_ids m)) cid = None
          | Some i \<Rightarrow> unat i < length (tb_entries (cm_ids m)) \<and> live (tb_entries (cm_ids m) ! unat i) \<and>
                      sl_key (tb_entries (cm_ids m) ! unat i) = cid \<and>
                      tb_map (\<lambda>k. k) (tb_entries (cm_ids m)) cid = Some (sl_val (tb_entries (cm_ids m) ! unat i))"
    using id_table.get_spec [OF ok, of cid] by blast
  show ?thesis
    using r r' by (cases r) (simp_all add: krs_connection_map_get_def mem_get_def cm_abs_def)
qed

lemma cm_get_by_address_spec:
  assumes "cm_ok m"
  shows "krs_connection_map_get_by_address (Some m) (Some a) =
         Some (case snd (cm_abs m) (addr_key a) of None \<Rightarrow> 0 | Some cid \<Rightarrow> cid)"
proof -
  have ok: "tb_ok s_hash_address addr_key (cm_addrs m)" using assms by (simp add: cm_ok_def)
  from addr_table.get_spec [OF ok, of a] show ?thesis
    by (auto simp: krs_connection_map_get_by_address_def mem_get_def cm_abs_def split: option.splits)
qed

lemma cm_put_spec:
  assumes ok: "cm_ok m" and c: "cs r = Some conn"
    and small: "unat (tb_capacity (cm_ids m)) \<le> 2 ^ 29" "unat (tb_capacity (cm_addrs m)) \<le> 2 ^ 29"
    and room: "a1 \<or> Suc (tb_used (cm_ids m)) < unat (tb_capacity (cm_ids m))"
              "a2 \<or> Suc (tb_used (cm_addrs m)) < unat (tb_capacity (cm_addrs m))"
  shows "\<exists>m'. krs_connection_map_put cs a1 a2 (Some m) cid d r = Some (Some m') \<and> cm_ok m' \<and>
           cm_abs m' = cm_spec_step cs (Cm_put cid d r) (cm_abs m) \<and>
           (tb_budget c0 n (cm_ids m) \<longrightarrow> tb_budget c0 (Suc n) (cm_ids m')) \<and>
           (tb_budget c0 n (cm_addrs m) \<longrightarrow> tb_budget c0 (Suc n) (cm_addrs m'))"
proof -
  have ids: "tb_ok s_id_hash (\<lambda>k. k) (cm_ids m)" and addrs: "tb_ok s_hash_address addr_key (cm_addrs m)"
    using ok by (simp_all add: cm_ok_def)
  have z: "\<not> sl_occupied zero_id_entry" "\<not> sl_occupied zero_addr_entry"
    by (simp_all add: zero_id_entry_def zero_addr_entry_def)
  obtain t where t: "tb_put s_id_hash (=) zero_id_entry a1 (cm_ids m) cid (d, Some r) = Some t"
      "tb_ok s_id_hash (\<lambda>k. k) t" "tb_map (\<lambda>k. k) (tb_entries t) = (tb_map (\<lambda>k. k) (tb_entries (cm_ids m)))(cid \<mapsto> (d, Some r))"
      "tb_budget c0 n (cm_ids m) \<longrightarrow> tb_budget c0 (Suc n) t"
    using id_table.put_spec [OF ids small(1) z(1) room(1), of cid "(d, Some r)"] tb_budget_put [of c0 n "cm_ids m"] by blast
  obtain u where u: "tb_put s_hash_address s_addr_eq zero_addr_entry a2 (cm_addrs m) (cn_remote_address conn) cid = Some u"
      "tb_ok s_hash_address addr_key u"
      "tb_map addr_key (tb_entries u) = (tb_map addr_key (tb_entries (cm_addrs m)))(addr_key (cn_remote_address conn) \<mapsto> cid)"
      "tb_budget c0 n (cm_addrs m) \<longrightarrow> tb_budget c0 (Suc n) u"
    using addr_table.put_spec [OF addrs small(2) z(2) room(2), of "cn_remote_address conn" cid]
      tb_budget_put [of c0 n "cm_addrs m"] by blast
  show ?thesis
    using t u c
    by (intro exI [of _ "m\<lparr>cm_ids := t, cm_addrs := u\<rparr>"])
      (simp add: krs_connection_map_put_def s_addr_put_def cm_ok_def cm_abs_def conn_key_def)
qed

lemma cm_remove_spec:
  assumes ok: "cm_ok m" and refs: "refs_ok cs (cm_abs m)"
  shows "\<exists>m'. krs_connection_map_remove cs (Some m) cid = Some (Some m') \<and> cm_ok m' \<and>
           cm_abs m' = cm_spec_step cs (Cm_remove cid) (cm_abs m) \<and>
           (tb_budget c0 n (cm_ids m) \<longrightarrow> tb_budget c0 n (cm_ids m')) \<and>
           (tb_budget c0 n (cm_addrs m) \<longrightarrow> tb_budget c0 n (cm_addrs m'))"
proof -
  have ids: "tb_ok s_id_hash (\<lambda>k. k) (cm_ids m)" and addrs: "tb_ok s_hash_address addr_key (cm_addrs m)"
    using ok by (simp_all add: cm_ok_def)
  obtain e where e: "krs_connection_map_get (Some m) cid = Some e" "map_option sl_val e = fst (cm_abs m) cid"
    using cm_get_spec [OF ok] by blast
  obtain t where t: "tb_remove s_id_hash (=) (cm_ids m) cid = Some t" "tb_ok s_id_hash (\<lambda>k. k) t"
      "tb_capacity t = tb_capacity (cm_ids m)"
      "tb_map (\<lambda>k. k) (tb_entries t) = (tb_map (\<lambda>k. k) (tb_entries (cm_ids m)))(cid := None)"
    using id_table.remove_spec [OF ids, of cid] by blast
  have bt: "tb_budget c0 n (cm_ids m) \<longrightarrow> tb_budget c0 n t"
    using id_table.remove_used [OF t(1) ids t(2)] t(3) by (simp add: tb_budget_def)
  show ?thesis
  proof (cases e)
    case None
    with e ok show ?thesis by (auto simp: krs_connection_map_remove_def)
  next
    case (Some entry)
    obtain d conn where v: "sl_val entry = (d, conn)" by force
    have abs: "fst (cm_abs m) cid = Some (d, conn)" using e(2) by (simp add: Some v)
    show ?thesis
    proof (cases conn)
      case None
      with Some e(1) abs v t bt addrs show ?thesis
        by (intro exI [of _ "m\<lparr>cm_ids := t\<rparr>"]) (simp add: krs_connection_map_remove_def cm_ok_def cm_abs_def)
    next
      case c: (Some r)
      then have "cs r \<noteq> None" using refs abs unfolding refs_ok_def by blast
      then obtain cn where cn: "cs r = Some cn" by blast
      obtain u where u: "tb_remove s_hash_address s_addr_eq (cm_addrs m) (cn_remote_address cn) = Some u"
          "tb_ok s_hash_address addr_key u" "tb_capacity u = tb_capacity (cm_addrs m)"
          "tb_map addr_key (tb_entries u) = (tb_map addr_key (tb_entries (cm_addrs m)))(addr_key (cn_remote_address cn) := None)"
        using addr_table.remove_spec [OF addrs, of "cn_remote_address cn"] by blast
      have "tb_budget c0 n (cm_addrs m) \<longrightarrow> tb_budget c0 n u"
        using addr_table.remove_used [OF u(1) addrs u(2)] u(3) by (simp add: tb_budget_def)
      with Some e(1) abs v t bt u c cn show ?thesis
        by (intro exI [of _ "m\<lparr>cm_addrs := u, cm_ids := t\<rparr>"])
          (simp add: krs_connection_map_remove_def s_addr_remove_def cm_ok_def cm_abs_def conn_key_def)
    qed
  qed
qed

text \<open>Sequences of operations.\<close>

primrec op_alive :: "conn_store \<Rightarrow> cm_op \<Rightarrow> bool" where
  "op_alive cs (Cm_put cid d r) = (cs r \<noteq> None)"
| "op_alive cs (Cm_remove cid) = True"

lemma refs_ok_step: "refs_ok cs s \<Longrightarrow> op_alive cs p \<Longrightarrow> refs_ok cs (cm_spec_step cs p s)"
  by (cases p) (auto simp: refs_ok_def split: option.splits if_splits prod.splits)

lemma cm_run_refines:
  assumes "cm_ok m" and "refs_ok cs (cm_abs m)" and "\<forall>p \<in> set ps. op_alive cs p"
    and "tb_budget c n (cm_ids m)" and "tb_budget c n (cm_addrs m)" and "c \<le> 2 ^ 29" and "n + length ps \<le> 2 ^ 27"
  shows "\<exists>m'. cm_run cs ps m = Some m' \<and> cm_ok m' \<and> cm_abs m' = cm_spec_run cs ps (cm_abs m) \<and>
           tb_budget c (n + length ps) (cm_ids m') \<and> tb_budget c (n + length ps) (cm_addrs m')"
  using assms
proof (induction ps arbitrary: m n)
  case (Cons p ps)
  have small: "unat (tb_capacity (cm_ids m)) \<le> 2 ^ 29" "unat (tb_capacity (cm_addrs m)) \<le> 2 ^ 29"
    using tb_budget_small [OF Cons.prems(4,6)] tb_budget_small [OF Cons.prems(5,6)] Cons.prems(7) by simp_all
  have "\<exists>m1. cm_step cs p m = Some m1 \<and> cm_ok m1 \<and> cm_abs m1 = cm_spec_step cs p (cm_abs m) \<and>
      tb_budget c (Suc n) (cm_ids m1) \<and> tb_budget c (Suc n) (cm_addrs m1)"
  proof (cases p)
    case (Cm_put cid d r)
    with Cons.prems(3) obtain conn where "cs r = Some conn" by auto
    from cm_put_spec [where cs = cs and r = r, OF Cons.prems(1) this small, of True True cid d c n] Cons.prems(4,5) Cm_put
    show ?thesis by auto
  next
    case (Cm_remove cid)
    from cm_remove_spec [OF Cons.prems(1,2), of cid c n] Cons.prems(4,5) Cm_remove show ?thesis
      by (auto intro: tb_budget_mono [of c n, OF _ le_SucI [OF order_refl]])
  qed
  then obtain m1 where m1: "cm_step cs p m = Some m1" "cm_ok m1" "cm_abs m1 = cm_spec_step cs p (cm_abs m)"
      "tb_budget c (Suc n) (cm_ids m1)" "tb_budget c (Suc n) (cm_addrs m1)" by blast
  have "refs_ok cs (cm_abs m1)" using refs_ok_step [OF Cons.prems(2), of p] Cons.prems(3) m1(3) by simp
  with Cons.IH [OF m1(2) _ _ m1(4,5) Cons.prems(6)] Cons.prems(3,7) m1(1,3) show ?case by simp
qed simp

lemma cm_create_ok:
  assumes "krs_connection_map_create cap True True True = Some m" and "unat (s_next_power_of_two cap) \<le> 2 ^ 29"
  shows "cm_ok m" and "cm_abs m = (Map.empty, Map.empty)"
    and "tb_budget (unat (s_next_power_of_two cap)) 0 (cm_ids m)"
    and "tb_budget (unat (s_next_power_of_two cap)) 0 (cm_addrs m)"
proof -
  define c where "c = s_next_power_of_two cap"
  have m: "m = \<lparr>cm_ids = \<lparr>tb_entries = replicate (unat c) zero_id_entry, tb_capacity = c, tb_count = 0, tb_tombstones = 0\<rparr>,
      cm_addrs = \<lparr>tb_entries = replicate (unat c) zero_addr_entry, tb_capacity = c, tb_count = 0, tb_tombstones = 0\<rparr>\<rparr>"
    using assms(1) by (simp add: krs_connection_map_create_def c_def Let_def)
  have z: "\<not> sl_occupied zero_id_entry" "\<not> sl_occupied zero_addr_entry"
    by (simp_all add: zero_id_entry_def zero_addr_entry_def)
  have empty: "es_ok h proj n (replicate n z)" "n_live (replicate n z) = 0" "n_tomb (replicate n z) = 0"
      "tb_map proj (replicate n z) = Map.empty" if "\<not> sl_occupied z" for h proj n and z :: "('k, 'v) slot"
    using that by (auto simp: es_ok_def n_live_def n_tomb_def tb_map_def live_def find_None_iff fun_eq_iff)
  have "cap_ok c" by (simp add: c_def next_power_of_two_ok)
  moreover from cap_pos [OF this] have "0 < unat c" by simp
  ultimately show "cm_ok m" using assms(2) z by (simp add: cm_ok_def m tb_ok_def empty c_def [symmetric])
  show "cm_abs m = (Map.empty, Map.empty)" using z by (simp add: cm_abs_def m empty)
  show "tb_budget (unat (s_next_power_of_two cap)) 0 (cm_ids m)" "tb_budget (unat (s_next_power_of_two cap)) 0 (cm_addrs m)"
    by (simp_all add: tb_budget_def tb_used_def m c_def)
qed

section \<open>Properties\<close>

text \<open>
  C27. The connection map implements its two maps. From a new map, every sequence of at most 2^27
  insertions and removals stays in bounds, ends with the tables proportional to the number of
  operations, and afterwards \<open>krs_connection_map_get\<close> returns the entry and
  \<open>krs_connection_map_get_by_address\<close> the identifier that the abstract maps hold (0 for none). The
  abstract removal of a connection also removes the address entry of its remote address, even when a
  newer connection from that address has replaced it.
\<close>

theorem connection_map_refines:
  assumes "krs_connection_map_create cap True True True = Some m0" and "unat (s_next_power_of_two cap) \<le> 2 ^ 29"
    and "\<forall>p \<in> set ps. op_alive cs p" and "length ps \<le> 2 ^ 27"
  shows "\<exists>m. cm_run cs ps m0 = Some m \<and>
           (\<forall>cid. \<exists>e. krs_connection_map_get (Some m) cid = Some e \<and>
              map_option sl_val e = fst (cm_spec_run cs ps (Map.empty, Map.empty)) cid) \<and>
           (\<forall>a. krs_connection_map_get_by_address (Some m) (Some a) =
              Some (case snd (cm_spec_run cs ps (Map.empty, Map.empty)) (addr_key a) of None \<Rightarrow> 0 | Some cid \<Rightarrow> cid)) \<and>
           (\<forall>c \<in> {tb_capacity (cm_ids m), tb_capacity (cm_addrs m)}.
              unat c \<le> unat (s_next_power_of_two cap) \<or> 3 * unat c \<le> 8 * length ps)"
proof -
  note new = cm_create_ok [OF assms(1,2)]
  have "refs_ok cs (cm_abs m0)" by (simp add: refs_ok_def new(2))
  from cm_run_refines [OF new(1) this assms(3) new(3,4) assms(2)] assms(4)
  obtain m where m: "cm_run cs ps m0 = Some m" "cm_ok m" "cm_abs m = cm_spec_run cs ps (Map.empty, Map.empty)"
      "tb_budget (unat (s_next_power_of_two cap)) (length ps) (cm_ids m)"
      "tb_budget (unat (s_next_power_of_two cap)) (length ps) (cm_addrs m)" by (auto simp: new(2))
  with cm_get_spec [OF m(2)] cm_get_by_address_spec [OF m(2)] show ?thesis
    by (intro exI [of _ m]) (simp add: tb_budget_def)
qed


definition sample_connection :: "u16 \<Rightarrow> u32 \<Rightarrow> client_connection" where
  "sample_connection port cid =
     \<lparr>cn_connection_id = cid, cn_remote_address = krs_network_port_address_create port zero_address,
      cn_last_heartbeat_ms = 0, cn_congestion = None, cn_ack_tracker = None, cn_refcount = 1\<rparr>"

theorem connection_map_refines_witness:
  "\<exists>m m0 :: connection_map. krs_connection_map_create 10 True True True = Some m0 \<and>
     cm_run [1 \<mapsto> sample_connection 5000 7] [Cm_put 7 None 1, Cm_put 9 None 1, Cm_remove 7] m0 = Some m \<and>
     (\<exists>e. krs_connection_map_get (Some m) 9 = Some (Some e) \<and> sl_val e = (None, Some 1)) \<and>
     krs_connection_map_get (Some m) 7 = Some None \<and>
     krs_connection_map_get_by_address (Some m) (Some (krs_network_port_address_create 5000 zero_address)) = Some 0"
proof -
  let ?cs = "[1 \<mapsto> sample_connection 5000 7] :: conn_store"
  let ?ps = "[Cm_put 7 None 1, Cm_put 9 None 1, Cm_remove 7]"
  have cap: "s_next_power_of_two 10 = 16" by (simp add: s_next_power_of_two_def Let_def)
  obtain m0 where m0: "krs_connection_map_create 10 True True True = Some m0"
    by (simp add: krs_connection_map_create_def Let_def)
  have "unat (s_next_power_of_two 10) \<le> 2 ^ 29" by (simp add: cap)
  from connection_map_refines [OF m0 this, of ?ps ?cs] obtain m where m: "cm_run ?cs ?ps m0 = Some m"
      "\<And>cid. \<exists>e. krs_connection_map_get (Some m) cid = Some e \<and>
              map_option sl_val e = fst (cm_spec_run ?cs ?ps (Map.empty, Map.empty)) cid"
      "\<And>a. krs_connection_map_get_by_address (Some m) (Some a) =
          Some (case snd (cm_spec_run ?cs ?ps (Map.empty, Map.empty)) (addr_key a) of None \<Rightarrow> 0 | Some cid \<Rightarrow> cid)"
    by auto
  have key: "conn_key ?cs 1 = addr_key (krs_network_port_address_create 5000 zero_address)"
    by (simp add: conn_key_def sample_connection_def)
  have "\<exists>e. krs_connection_map_get (Some m) 9 = Some (Some e) \<and> sl_val e = (None, Some 1)" using m(2) [of 9] by auto
  moreover have "krs_connection_map_get (Some m) 7 = Some None" using m(2) [of 7] by auto
  ultimately show ?thesis using m0 m(1) m(3) [of "krs_network_port_address_create 5000 zero_address"] key by auto
qed

section \<open>Reference counts\<close>

text \<open>
  The life of connections when threads interleave. The map owns one reference of every connection it
  holds; a thread owns the references it has acquired and not yet released, and the one of a
  connection it has taken out of the map. \<open>rs_held\<close> are the references that threads own.
\<close>

record ref_state =
  rs_map :: connection_map
  rs_store :: conn_store
  rs_held :: "conn_ref multiset"

definition tracker_ok :: "client_connection \<Rightarrow> bool" where
  "tracker_ok c \<longleftrightarrow> (case cn_ack_tracker c of None \<Rightarrow> True | Some t \<Rightarrow> ack_wf t)"

definition small_map :: "connection_map \<Rightarrow> bool" where
  "small_map m \<longleftrightarrow> unat (tb_capacity (cm_ids m)) \<le> 2 ^ 29 \<and> unat (tb_capacity (cm_addrs m)) \<le> 2 ^ 29"

inductive ref_step :: "ref_state \<Rightarrow> ref_state \<Rightarrow> bool" where
  insert: "cs r = None \<Longrightarrow> cn_refcount c = 1 \<Longrightarrow> tracker_ok c \<Longrightarrow> small_map m \<Longrightarrow>
    krs_connection_map_get (Some m) cid = Some None \<Longrightarrow>
    krs_connection_map_put (cs(r \<mapsto> c)) True True (Some m) cid d r = Some (Some m') \<Longrightarrow>
    ref_step \<lparr>rs_map = m, rs_store = cs, rs_held = H\<rparr> \<lparr>rs_map = m', rs_store = cs(r \<mapsto> c), rs_held = H\<rparr>"
| acquire: "size H < 2 ^ 31 \<Longrightarrow> krs_connection_map_acquire cs (Some m) cid = Some (Some (d, r), cs') \<Longrightarrow>
    ref_step \<lparr>rs_map = m, rs_store = cs, rs_held = H\<rparr> \<lparr>rs_map = m, rs_store = cs', rs_held = add_mset r H\<rparr>"
| release: "r \<in># H \<Longrightarrow> krs_connection_map_release cs (Some r) = Some cs' \<Longrightarrow>
    ref_step \<lparr>rs_map = m, rs_store = cs, rs_held = H\<rparr> \<lparr>rs_map = m, rs_store = cs', rs_held = H - {#r#}\<rparr>"
| evict: "krs_connection_map_get (Some m) cid = Some (Some e) \<Longrightarrow> snd (sl_val e) = Some r \<Longrightarrow>
    krs_connection_map_remove cs (Some m) cid = Some (Some m') \<Longrightarrow>
    ref_step \<lparr>rs_map = m, rs_store = cs, rs_held = H\<rparr> \<lparr>rs_map = m', rs_store = cs, rs_held = add_mset r H\<rparr>"

inductive ref_reach :: "ref_state \<Rightarrow> bool" where
  created: "krs_connection_map_create cap True True True = Some m \<Longrightarrow> unat (s_next_power_of_two cap) \<le> 2 ^ 29 \<Longrightarrow>
    ref_reach \<lparr>rs_map = m, rs_store = Map.empty, rs_held = {#}\<rparr>"
| step: "ref_reach s \<Longrightarrow> ref_step s s' \<Longrightarrow> ref_reach s'"

abbreviation ids_of :: "connection_map \<Rightarrow> u32 \<rightharpoonup> desc_ref option \<times> conn_ref option" where
  "ids_of m \<equiv> fst (cm_abs m)"

definition in_map :: "connection_map \<Rightarrow> conn_ref \<Rightarrow> bool" where
  "in_map m r \<longleftrightarrow> (\<exists>cid d. ids_of m cid = Some (d, Some r))"

definition owners :: "connection_map \<Rightarrow> conn_ref multiset \<Rightarrow> conn_ref \<Rightarrow> nat" where
  "owners m H r = (if in_map m r then 1 else 0) + count H r"

definition ids_inj :: "connection_map \<Rightarrow> bool" where
  "ids_inj m \<longleftrightarrow> (\<forall>i j d d' r. ids_of m i = Some (d, Some r) \<longrightarrow> ids_of m j = Some (d', Some r) \<longrightarrow> i = j)"

definition counted :: "ref_state \<Rightarrow> conn_ref \<Rightarrow> bool" where
  "counted s r \<longleftrightarrow>
     (case rs_store s r of
        None \<Rightarrow> owners (rs_map s) (rs_held s) r = 0
      | Some c \<Rightarrow> owners (rs_map s) (rs_held s) r = unat (cn_refcount c) \<and> 0 < owners (rs_map s) (rs_held s) r \<and> tracker_ok c)"

definition ref_inv :: "ref_state \<Rightarrow> bool" where
  "ref_inv s \<longleftrightarrow> cm_ok (rs_map s) \<and> ids_inj (rs_map s) \<and> (\<forall>r. counted s r)"

lemma ref_inv_refs:
  assumes "ref_inv s"
  shows "refs_ok (rs_store s) (cm_abs (rs_map s))"
proof -
  have "rs_store s r \<noteq> None" if "ids_of (rs_map s) cid = Some (d, Some r)" for cid d r
  proof -
    have "in_map (rs_map s) r" using that by (auto simp: in_map_def)
    moreover have "counted s r" using assms by (simp add: ref_inv_def)
    ultimately show ?thesis by (cases "rs_store s r") (simp_all add: counted_def owners_def)
  qed
  then show ?thesis by (auto simp: refs_ok_def)
qed

lemma cm_acquire_spec:
  assumes "ref_inv s"
  shows "krs_connection_map_acquire (rs_store s) (Some (rs_map s)) cid =
     Some (case ids_of (rs_map s) cid of
        Some (d, Some r) \<Rightarrow>
          (Some (d, r), (rs_store s)(r \<mapsto> the (rs_store s r)\<lparr>cn_refcount := cn_refcount (the (rs_store s r)) + 1\<rparr>))
      | _ \<Rightarrow> (None, rs_store s))"
proof -
  have "cm_ok (rs_map s)" using assms by (simp add: ref_inv_def)
  from cm_get_spec [OF this, of cid] obtain e where
    e: "krs_connection_map_get (Some (rs_map s)) cid = Some e" "map_option sl_val e = ids_of (rs_map s) cid" by blast
  have "rs_store s r \<noteq> None" if "ids_of (rs_map s) cid = Some (d, Some r)" for d r
    using ref_inv_refs [OF assms] that by (auto simp: refs_ok_def)
  with e show ?thesis
    by (auto simp: krs_connection_map_acquire_def split: option.splits prod.splits)
qed

lemma cm_release_spec:
  assumes "counted s r" and "0 < owners (rs_map s) (rs_held s) r"
  shows "\<exists>c. rs_store s r = Some c \<and> tracker_ok c \<and> unat (cn_refcount c) = owners (rs_map s) (rs_held s) r \<and>
    krs_connection_map_release (rs_store s) (Some r) =
      Some (if owners (rs_map s) (rs_held s) r = 1 then (rs_store s)(r := None)
            else (rs_store s)(r \<mapsto> c\<lparr>cn_refcount := cn_refcount c - 1\<rparr>))"
proof -
  obtain c where c: "rs_store s r = Some c" "unat (cn_refcount c) = owners (rs_map s) (rs_held s) r" "tracker_ok c"
    using assms by (auto simp: counted_def split: option.splits)
  have "cn_refcount c - 1 = 0 \<longleftrightarrow> owners (rs_map s) (rs_held s) r = 1" by (metis c(2) eq_iff_diff_eq_0 unat_1 word_unat_eq_iff)
  moreover have "\<exists>x. krs_ack_tracker_destroy (cn_ack_tracker c) = Some x"
    using c(3)
    by (auto simp: tracker_ok_def krs_ack_tracker_destroy_def destroy_items_vals dest: ack_wfD split: option.splits)
  ultimately show ?thesis using c by (auto simp: krs_connection_map_release_def)
qed


lemma ref_inv_insert:
  assumes inv: "ref_inv \<lparr>rs_map = m, rs_store = cs, rs_held = H\<rparr>" and fresh: "cs r = None"
    and c: "cn_refcount c = 1" "tracker_ok c" and small: "small_map m"
    and get: "krs_connection_map_get (Some m) cid = Some None"
    and put: "krs_connection_map_put (cs(r \<mapsto> c)) True True (Some m) cid d r = Some (Some m')"
  shows "ref_inv \<lparr>rs_map = m', rs_store = cs(r \<mapsto> c), rs_held = H\<rparr>"
proof -
  have ok: "cm_ok m" and inj: "ids_inj m" and cnt: "\<And>r. counted \<lparr>rs_map = m, rs_store = cs, rs_held = H\<rparr> r"
    using inv by (simp_all add: ref_inv_def)
  have none: "ids_of m cid = None" using cm_get_spec [OF ok, of cid] get by auto
  have m': "cm_ok m'" "ids_of m' = (ids_of m)(cid \<mapsto> (d, Some r))"
    using cm_put_spec [where cs = "cs(r \<mapsto> c)" and r = r and conn = c and m = m and ?a1.0 = True and ?a2.0 = True
        and cid = cid and d = d] ok small put by (auto simp: small_map_def)
  have out: "\<not> in_map m r" "count H r = 0"
    using cnt [of r] fresh by (auto simp: counted_def owners_def split: if_splits)
  have im: "in_map m' q \<longleftrightarrow> q = r \<or> in_map m q" for q
  proof
    assume "q = r \<or> in_map m q"
    moreover have "in_map m' r" by (auto simp: in_map_def m'(2))
    moreover have "in_map m' q" if "ids_of m i = Some (d', Some q)" for i d'
    proof -
      have "ids_of m' i = Some (d', Some q)" using that none by (cases "i = cid") (simp_all add: m'(2))
      then show ?thesis by (auto simp: in_map_def)
    qed
    ultimately show "in_map m' q" by (auto simp: in_map_def [of m])
  qed (auto simp: in_map_def m'(2) split: if_splits)
  have "counted \<lparr>rs_map = m', rs_store = cs(r \<mapsto> c), rs_held = H\<rparr> q" for q
    using cnt [of q] c out by (auto simp: counted_def owners_def im split: option.splits)
  moreover have "ids_inj m'" using inj out(1) by (auto simp: ids_inj_def m'(2) in_map_def)
  ultimately show ?thesis using m'(1) by (simp add: ref_inv_def)
qed

lemma ref_inv_acquire:
  assumes inv: "ref_inv \<lparr>rs_map = m, rs_store = cs, rs_held = H\<rparr>" and held: "size H < 2 ^ 31"
    and acq: "krs_connection_map_acquire cs (Some m) cid = Some (Some (d, r), cs')"
  shows "ref_inv \<lparr>rs_map = m, rs_store = cs', rs_held = add_mset r H\<rparr>"
proof -
  let ?s = "\<lparr>rs_map = m, rs_store = cs, rs_held = H\<rparr>"
  have ids: "ids_of m cid = Some (d, Some r)" and cs': "cs' = cs(r \<mapsto> the (cs r)\<lparr>cn_refcount := cn_refcount (the (cs r)) + 1\<rparr>)"
    using cm_acquire_spec [OF inv, of cid] acq by (auto split: option.splits prod.splits)
  then have im: "in_map m r" by (auto simp: in_map_def)
  have cnt: "counted ?s q" for q using inv by (simp add: ref_inv_def)
  obtain c where c: "cs r = Some c" using cnt [of r] im by (auto simp: counted_def owners_def split: option.splits)
  have n: "unat (cn_refcount c) = Suc (count H r)" using cnt [of r] c im by (simp add: counted_def owners_def)
  have "unat (cn_refcount c) + unat (1 :: u32) < 2 ^ LENGTH(32)"
    using held count_le_size [of H r] n by simp
  then have n': "unat (cn_refcount c + 1) = Suc (Suc (count H r))"
    using n by (simp add: unat_add_lem [THEN iffD1])
  have "counted \<lparr>rs_map = m, rs_store = cs', rs_held = add_mset r H\<rparr> q" for q
    using cnt [of q] c im n n'
    by (cases "q = r") (auto simp: counted_def owners_def cs' tracker_ok_def split: option.splits)
  with inv show ?thesis by (simp add: ref_inv_def)
qed

lemma ref_inv_release:
  assumes inv: "ref_inv \<lparr>rs_map = m, rs_store = cs, rs_held = H\<rparr>" and r: "r \<in># H"
    and rel: "krs_connection_map_release cs (Some r) = Some cs'"
  shows "ref_inv \<lparr>rs_map = m, rs_store = cs', rs_held = H - {#r#}\<rparr>"
proof -
  let ?s = "\<lparr>rs_map = m, rs_store = cs, rs_held = H\<rparr>" and ?s' = "\<lparr>rs_map = m, rs_store = cs', rs_held = H - {#r#}\<rparr>"
  have cnt: "counted ?s q" for q using inv by (simp add: ref_inv_def)
  have pos: "0 < owners m H r" using r by (simp add: owners_def)
  obtain c where c: "cs r = Some c" "tracker_ok c" "unat (cn_refcount c) = owners m H r"
      "cs' = (if owners m H r = 1 then cs(r := None) else cs(r \<mapsto> c\<lparr>cn_refcount := cn_refcount c - 1\<rparr>))"
    using cm_release_spec [of ?s r] cnt [of r] pos rel by auto
  have o: "owners m (H - {#r#}) q = owners m H q - (if q = r then 1 else 0)" for q
    using r by (auto simp: owners_def)
  have "(1 :: u32) \<le> cn_refcount c" using c(3) pos by (simp add: word_le_nat_alt)
  then have dec: "unat (cn_refcount c - 1) = owners m H r - 1" using c(3) by (simp add: unat_sub)
  have "counted ?s' q" for q
    using cnt [of q] c pos dec by (cases "q = r") (auto simp: counted_def o tracker_ok_def split: option.splits)
  with inv show ?thesis by (simp add: ref_inv_def)
qed

lemma ref_inv_evict:
  assumes inv: "ref_inv \<lparr>rs_map = m, rs_store = cs, rs_held = H\<rparr>"
    and get: "krs_connection_map_get (Some m) cid = Some (Some e)" "snd (sl_val e) = Some r"
    and rem: "krs_connection_map_remove cs (Some m) cid = Some (Some m')"
  shows "ref_inv \<lparr>rs_map = m', rs_store = cs, rs_held = add_mset r H\<rparr>"
proof -
  let ?s = "\<lparr>rs_map = m, rs_store = cs, rs_held = H\<rparr>" and ?s' = "\<lparr>rs_map = m', rs_store = cs, rs_held = add_mset r H\<rparr>"
  have ok: "cm_ok m" and inj: "ids_inj m" and cnt: "\<And>r. counted ?s r" using inv by (simp_all add: ref_inv_def)
  obtain d where ids: "ids_of m cid = Some (d, Some r)"
    using cm_get_spec [OF ok, of cid] get by (cases "sl_val e") (metis option.inject option.map(2) snd_conv)
  have m': "cm_ok m'" "ids_of m' = (ids_of m)(cid := None)"
    using cm_remove_spec [OF ok, of cs cid] ref_inv_refs [OF inv] rem ids by auto
  have "in_map m' q \<longleftrightarrow> in_map m q \<and> q \<noteq> r" for q
    using inj ids by (auto simp: in_map_def m'(2) ids_inj_def) (metis option.inject prod.inject)+
  moreover have "in_map m r" using ids by (auto simp: in_map_def)
  ultimately have "owners m' (add_mset r H) q = owners m H q" for q by (auto simp: owners_def)
  then have "counted ?s' q" for q using cnt [of q] by (simp add: counted_def split: option.splits)
  moreover have "ids_inj m'" using inj by (auto simp: ids_inj_def m'(2))
  ultimately show ?thesis using m'(1) by (simp add: ref_inv_def)
qed

lemma ref_reach_inv: "ref_reach s \<Longrightarrow> ref_inv s"
proof (induction rule: ref_reach.induct)
  case (created cap m)
  then show ?case
    using cm_create_ok [OF created] by (simp add: ref_inv_def ids_inj_def counted_def owners_def in_map_def)
next
  case (step s s')
  from step(2) step.IH show ?case
    by (cases rule: ref_step.cases)
      (auto intro: ref_inv_insert ref_inv_acquire ref_inv_release ref_inv_evict)
qed

text \<open>
  C26. Reference counting of connections is exact under every interleaving of insertions, acquisitions,
  releases and evictions: the count of an allocated connection is the number of its owners (the map
  and the threads), a connection without owners is freed and a freed connection has no owner. So no
  acquisition, release, insertion, eviction or lookup touches a freed connection and none leaks: the
  next release by an owner is defined and frees the connection exactly when it was the last owner.
\<close>

theorem connection_refcount_exact:
  assumes "ref_reach s"
  shows "(case rs_store s r of None \<Rightarrow> owners (rs_map s) (rs_held s) r = 0 | Some c \<Rightarrow> unat (cn_refcount c) = owners (rs_map s) (rs_held s) r \<and> 0 < owners (rs_map s) (rs_held s) r) \<and>
         (\<exists>res. krs_connection_map_acquire (rs_store s) (Some (rs_map s)) cid = Some res) \<and>
         (\<exists>m'. krs_connection_map_remove (rs_store s) (Some (rs_map s)) cid = Some (Some m')) \<and>
         (r \<in># rs_held s \<longrightarrow>
            (\<exists>cs'. krs_connection_map_release (rs_store s) (Some r) = Some cs' \<and> (cs' r = None \<longleftrightarrow> owners (rs_map s) (rs_held s) r = 1)))"
proof -
  have inv: "ref_inv s" by (rule ref_reach_inv [OF assms])
  then have cnt: "counted s r" and ok: "cm_ok (rs_map s)" by (simp_all add: ref_inv_def)
  have "\<exists>m'. krs_connection_map_remove (rs_store s) (Some (rs_map s)) cid = Some (Some m')"
    using cm_remove_spec [OF ok ref_inv_refs [OF inv], of cid] by blast
  moreover have "\<exists>cs'. krs_connection_map_release (rs_store s) (Some r) = Some cs' \<and> (cs' r = None \<longleftrightarrow> owners (rs_map s) (rs_held s) r = 1)"
    if "r \<in># rs_held s"
  proof -
    have "0 < owners (rs_map s) (rs_held s) r" using that by (simp add: owners_def)
    from cm_release_spec [OF cnt this] show ?thesis by auto
  qed
  ultimately show ?thesis
    using cnt cm_acquire_spec [OF inv, of cid] by (auto simp: counted_def split: option.splits)
qed

theorem connection_refcount_exact_witness:
  "\<exists>s c. ref_reach s \<and> rs_store s 1 = Some c \<and> cn_refcount c = 1 \<and> owners (rs_map s) (rs_held s) 1 = 1 \<and>
     (\<exists>res. krs_connection_map_acquire (rs_store s) (Some (rs_map s)) 7 = Some res)"
proof -
  have cap: "unat (s_next_power_of_two 10) \<le> 2 ^ 29" by (simp add: s_next_power_of_two_def Let_def)
  obtain m0 where m0: "krs_connection_map_create 10 True True True = Some m0"
    by (simp add: krs_connection_map_create_def Let_def)
  note new = cm_create_ok [OF m0 cap]
  let ?c = "sample_connection 5000 7" and ?cs = "[1 \<mapsto> sample_connection 5000 7] :: conn_store"
  have small: "small_map m0"
    using m0 by (auto simp: small_map_def krs_connection_map_create_def s_next_power_of_two_def Let_def)
  obtain m1 where m1: "krs_connection_map_put ?cs True True (Some m0) 7 None 1 = Some (Some m1)"
    using cm_put_spec [where cs = ?cs and r = 1 and conn = ?c and m = m0 and ?a1.0 = True and ?a2.0 = True
        and cid = 7 and d = None] new(1) small by (auto simp: small_map_def)
  have get: "krs_connection_map_get (Some m0) 7 = Some None" using cm_get_spec [OF new(1), of 7] new(2) by auto
  let ?s = "\<lparr>rs_map = m1, rs_store = ?cs, rs_held = {#}\<rparr>"
  have "ref_step \<lparr>rs_map = m0, rs_store = Map.empty, rs_held = {#}\<rparr> ?s"
    by (rule ref_step.insert [OF _ _ _ small get m1]) (simp_all add: sample_connection_def tracker_ok_def)
  then have reach: "ref_reach ?s" by (rule ref_reach.step [OF ref_reach.created [OF m0 cap]])
  from connection_refcount_exact [OF this, of 1 7] have "owners (rs_map ?s) (rs_held ?s) 1 = 1"
    "\<exists>res. krs_connection_map_acquire (rs_store ?s) (Some (rs_map ?s)) 7 = Some res"
    by (simp_all add: sample_connection_def)
  then show ?thesis using reach by (intro exI [of _ ?s] exI [of _ ?c]) (simp add: sample_connection_def)
qed

end
