(* ===== verification/Kronos_Port_Table.thy ===== *)
theory Kronos_Port_Table
  imports Kronos_Error Kronos_Double
begin

text \<open>
  The port table of \<open>src/lib/port_table\<close>: a hash table with chaining from ports to socket descriptors
  (pointers of some type \<open>'d\<close>), that moves to the next prime size when its load factor exceeds 1.5.
  A chain of links is the list of the links in order.
\<close>

section \<open>State\<close>

type_synonym port = u16

record 'd port_link =
  pl_socket_handler :: 'd
  pl_port :: port

record 'd port_table =
  pt_table :: "'d port_link list list option"
  pt_table_size :: u32
  pt_prime_size_index :: u8
  pt_total_entries :: u32

record 'd port_table_create_r =
  ptc_base :: krs_result_base
  ptc_port_table :: "'d port_table option"

record 'd port_table_lookup_r =
  ptl_base :: krs_result_base
  ptl_exists :: bool
  ptl_socket_handler :: "'d option"

definition PRIME_SIZES :: "u32 list" where
  "PRIME_SIZES = [17, 31, 67, 131, 257, 521, 1031, 2053, 4099, 8209, 16411, 32771, 65537]"

abbreviation (input) PRIME_SIZES_COUNT :: nat where "PRIME_SIZES_COUNT \<equiv> 13"
abbreviation (input) HASH_MULTIPLIER :: u32 where "HASH_MULTIPLIER \<equiv> 2654435761"
abbreviation (input) MAX_LOAD_FACTOR :: rat where "MAX_LOAD_FACTOR \<equiv> 3 / 2"

section \<open>Operations\<close>

text \<open>A remainder by zero is undefined.\<close>

definition hash_port_index :: "u32 \<Rightarrow> u32 \<Rightarrow> nat option" where
  "hash_port_index port sz = (if sz = 0 then None else Some (unat (port * HASH_MULTIPLIER mod sz)))"

definition port_table_alloc :: "bool \<Rightarrow> 'd port_table option" where
  "port_table_alloc alloc =
     (if alloc then Some \<lparr>pt_table = None, pt_table_size = 0, pt_prime_size_index = 0, pt_total_entries = 0\<rparr>
      else None)"

definition port_links_alloc :: "bool \<Rightarrow> 'd port_table \<Rightarrow> 'd port_table" where
  "port_links_alloc alloc pt =
     (let initial_size = PRIME_SIZES ! 0 in
      if alloc then pt\<lparr>pt_table := Some (replicate (unat initial_size) []), pt_table_size := initial_size\<rparr>
      else pt\<lparr>pt_table := None\<rparr>)"

definition port_table_create :: "bool \<Rightarrow> bool \<Rightarrow> 'd port_table option" where
  "port_table_create alloc alloc_links =
     (case port_table_alloc alloc of
        None \<Rightarrow> None
      | Some pt \<Rightarrow>
          let pt = port_links_alloc alloc_links pt in
          if pt_table pt = None then None else Some pt)"

definition krs_lib_port_table_create :: "bool \<Rightarrow> bool \<Rightarrow> 'd port_table option" where
  "krs_lib_port_table_create alloc alloc_links = port_table_create alloc alloc_links"

definition krs_lib_port_table_create_s :: "bool \<Rightarrow> bool \<Rightarrow> 'd port_table_create_r" where
  "krs_lib_port_table_create_s alloc alloc_links =
     (case port_table_create alloc alloc_links of
        None \<Rightarrow> \<lparr>ptc_base = krs_lib_error_result_base_w_msg KRS_ERR_MEMORY_ALLOCATION
                    ''Could not allocate memory for PortTable_t'', ptc_port_table = None\<rparr>
      | Some pt \<Rightarrow> \<lparr>ptc_base = krs_lib_error_result_base_suc, ptc_port_table = Some pt\<rparr>)"

text \<open>The descriptors that are destroyed, in order, and the pointer afterwards.\<close>

definition krs_lib_port_table_destroy :: "'d port_table option \<Rightarrow> ('d list \<times> 'd port_table option) option" where
  "krs_lib_port_table_destroy pt =
     (case pt of
        None \<Rightarrow> Some ([], None)
      | Some t \<Rightarrow> do {
          table \<leftarrow> pt_table t;
          chains \<leftarrow> mem_read table 0 (unat (pt_table_size t));
          Some (map pl_socket_handler (concat chains), None) })"

text \<open>Walking a chain to its end; \<open>None\<close> when the port is already in it.\<close>

fun chain_append :: "port \<Rightarrow> 'd port_link \<Rightarrow> 'd port_link list \<Rightarrow> 'd port_link list option" where
  "chain_append port new_link [] = Some [new_link]"
| "chain_append port new_link (l # ls) =
     (if pl_port l = port then None else map_option ((#) l) (chain_append port new_link ls))"

definition port_table_insert ::
    "bool \<Rightarrow> 'd port_table option \<Rightarrow> port \<Rightarrow> 'd option \<Rightarrow> (bool \<times> 'd port_table option) option" where
  "port_table_insert alloc port_table port udp_socket_handler =
     (case (port_table, udp_socket_handler) of
        (Some pt, Some d) \<Rightarrow> do {
          index \<leftarrow> hash_port_index (ucast port) (pt_table_size pt);
          if \<not> alloc then Some (False, port_table)
          else do {
            table \<leftarrow> pt_table pt;
            chain \<leftarrow> mem_get table index;
            case chain_append port \<lparr>pl_socket_handler = d, pl_port = port\<rparr> chain of
              None \<Rightarrow> Some (False, Some (pt\<lparr>pt_total_entries := pt_total_entries pt + 1 - 1\<rparr>))
            | Some chain' \<Rightarrow> do {
                table' \<leftarrow> mem_set table index chain';
                Some (True, Some (pt\<lparr>pt_table := Some table', pt_total_entries := pt_total_entries pt + 1\<rparr>)) } } }
      | _ \<Rightarrow> Some (False, port_table))"

text \<open>
  The two loops of the rebuild; \<open>link_alloc\<close> says for which ports the allocation of the new link succeeds
  (the ports of a table are distinct).
\<close>

primrec rebuild_chain :: "(port \<Rightarrow> bool) \<Rightarrow> 'd port_link list \<Rightarrow> 'd port_table option \<Rightarrow> 'd port_table option option" where
  "rebuild_chain link_alloc [] pt = Some pt"
| "rebuild_chain link_alloc (l # ls) pt =
     do { (_, pt') \<leftarrow> port_table_insert (link_alloc (pl_port l)) pt (pl_port l) (Some (pl_socket_handler l));
          rebuild_chain link_alloc ls pt' }"

primrec rebuild_table :: "(port \<Rightarrow> bool) \<Rightarrow> 'd port_link list list \<Rightarrow> 'd port_table option \<Rightarrow> 'd port_table option option" where
  "rebuild_table link_alloc [] pt = Some pt"
| "rebuild_table link_alloc (c # cs) pt = do { pt' \<leftarrow> rebuild_chain link_alloc c pt; rebuild_table link_alloc cs pt' }"

definition port_table_rebuild :: "bool \<Rightarrow> (port \<Rightarrow> bool) \<Rightarrow> 'd port_table option \<Rightarrow> 'd port_table option option" where
  "port_table_rebuild alloc link_alloc port_table =
     (case port_table of
        None \<Rightarrow> Some None
      | Some pt \<Rightarrow>
          let next_index = pt_prime_size_index pt + 1 in
          if unat next_index \<ge> PRIME_SIZES_COUNT then Some port_table
          else
            let new_table_size = PRIME_SIZES ! unat next_index in
            if \<not> alloc then Some port_table
            else do {
              old \<leftarrow> pt_table pt;
              chains \<leftarrow> mem_read old 0 (unat (pt_table_size pt));
              rebuild_table link_alloc chains
                (Some (pt\<lparr>pt_table := Some (replicate (unat new_table_size) []),
                          pt_table_size := new_table_size,
                          pt_prime_size_index := next_index,
                          pt_total_entries := 0\<rparr>)) })"

text \<open>The load factor in binary64; the conversions of 32-bit values are exact.\<close>

definition load_exceeded :: "'d port_table \<Rightarrow> bool" where
  "load_exceeded pt \<longleftrightarrow>
     rnd64 (rnd64 (of_nat (unat (pt_total_entries pt))) / rnd64 (of_nat (unat (pt_table_size pt)))) > MAX_LOAD_FACTOR"

record insert_alloc =
  ia_table :: bool
  ia_links :: "port \<Rightarrow> bool"
  ia_link :: bool

definition krs_lib_port_table_insert ::
    "insert_alloc \<Rightarrow> 'd port_table option \<Rightarrow> port \<Rightarrow> 'd option \<Rightarrow> 'd port_table option option" where
  "krs_lib_port_table_insert al port_table port udp_socket_handler =
     (case (port_table, udp_socket_handler) of
        (Some pt, Some d) \<Rightarrow>
          if pt_table pt = None then Some port_table
          else if load_exceeded pt then do {
            pt1 \<leftarrow> port_table_rebuild (ia_table al) (ia_links al) port_table;
            (_, pt2) \<leftarrow> port_table_insert (ia_link al) pt1 port udp_socket_handler;
            Some pt2 }
          else do {
            (_, pt2) \<leftarrow> port_table_insert (ia_link al) port_table port udp_socket_handler;
            Some pt2 }
      | _ \<Rightarrow> Some port_table)"

text \<open>The first link of a chain with the port.\<close>

fun chain_find :: "port \<Rightarrow> 'd port_link list \<Rightarrow> 'd option" where
  "chain_find port [] = None"
| "chain_find port (l # ls) = (if pl_port l = port then Some (pl_socket_handler l) else chain_find port ls)"

definition krs_lib_port_table_lookup :: "'d port_table option \<Rightarrow> port \<Rightarrow> 'd port_table_lookup_r option" where
  "krs_lib_port_table_lookup port_table port =
     (case port_table of
        None \<Rightarrow> Some \<lparr>ptl_base = krs_lib_error_result_base_w_msg KRS_ERR_NULL_POINTER ''port_table is NULL'',
                     ptl_exists = False, ptl_socket_handler = None\<rparr>
      | Some pt \<Rightarrow> do {
          start_index \<leftarrow> hash_port_index (ucast port) (pt_table_size pt);
          table \<leftarrow> pt_table pt;
          chain \<leftarrow> mem_get table start_index;
          Some \<lparr>ptl_base = krs_lib_error_result_base_suc,
                ptl_exists = (chain_find port chain \<noteq> None), ptl_socket_handler = chain_find port chain\<rparr> })"

section \<open>Invariant and abstraction\<close>

definition pt_links :: "'d port_table \<Rightarrow> 'd port_link list" where
  "pt_links pt = concat (case pt_table pt of None \<Rightarrow> [] | Some tb \<Rightarrow> tb)"

definition link_map :: "'d port_link list \<Rightarrow> port \<rightharpoonup> 'd" where
  "link_map ls = map_of (map (\<lambda>l. (pl_port l, pl_socket_handler l)) ls)"

definition pt_map :: "'d port_table \<Rightarrow> port \<rightharpoonup> 'd" where
  "pt_map pt = link_map (pt_links pt)"

definition port_home :: "u32 \<Rightarrow> port \<Rightarrow> nat" where
  "port_home sz port = unat (ucast port * HASH_MULTIPLIER mod sz)"

definition chains_ok :: "u32 \<Rightarrow> 'd port_link list list \<Rightarrow> bool" where
  "chains_ok sz tb \<longleftrightarrow> length tb = unat sz \<and> distinct (map pl_port (concat tb)) \<and>
     (\<forall>i < length tb. \<forall>l \<in> set (tb ! i). port_home sz (pl_port l) = i)"

definition pt_ok :: "'d port_table \<Rightarrow> bool" where
  "pt_ok pt \<longleftrightarrow> (\<exists>tb. pt_table pt = Some tb \<and> chains_ok (pt_table_size pt) tb \<and>
     unat (pt_total_entries pt) = length (concat tb)) \<and>
     unat (pt_prime_size_index pt) < PRIME_SIZES_COUNT \<and>
     pt_table_size pt = PRIME_SIZES ! unat (pt_prime_size_index pt)"

lemma prime_sizes_cases:
  "i < PRIME_SIZES_COUNT \<Longrightarrow> 17 \<le> unat (PRIME_SIZES ! i) \<and> unat (PRIME_SIZES ! i) \<le> 65537"
proof -
  assume "i < PRIME_SIZES_COUNT"
  then have "i \<in> {0, 1, 2, 3, 4, 5, 6, 7, 8, 9, 10, 11, 12}" unfolding insert_iff empty_iff by presburger
  then show ?thesis by (auto simp: PRIME_SIZES_def)
qed

lemma prime_sizes_grow: "Suc i < PRIME_SIZES_COUNT \<Longrightarrow> unat (PRIME_SIZES ! i) + 2 \<le> unat (PRIME_SIZES ! Suc i)"
proof -
  assume "Suc i < PRIME_SIZES_COUNT"
  then have "i \<in> {0, 1, 2, 3, 4, 5, 6, 7, 8, 9, 10, 11}" unfolding insert_iff empty_iff by presburger
  then show ?thesis by (auto simp: PRIME_SIZES_def)
qed

lemma pt_ok_size: "pt_ok pt \<Longrightarrow> 17 \<le> unat (pt_table_size pt) \<and> unat (pt_table_size pt) \<le> 65537"
  using prime_sizes_cases by (auto simp: pt_ok_def)

lemma port_home_less: "sz \<noteq> 0 \<Longrightarrow> port_home sz port < unat sz"
  by (simp add: port_home_def unat_mod unat_gt_0)

text \<open>Ports have 16 bits, so a table has at most 65536 links and their count never wraps.\<close>

lemma distinct_ports_bound: "distinct (map pl_port ls) \<Longrightarrow> length ls \<le> 65536"
proof -
  assume "distinct (map pl_port ls)"
  then have "length ls = card (pl_port ` set ls)" by (metis distinct_card length_map list.set_map)
  also have "\<dots> \<le> card (UNIV :: port set)" by (rule card_mono) simp_all
  also have "\<dots> = 65536" by (simp add: card_word)
  finally show ?thesis .
qed

lemma pt_ok_total: "pt_ok pt \<Longrightarrow> unat (pt_total_entries pt) = length (pt_links pt) \<and> length (pt_links pt) \<le> 65536"
  by (auto simp: pt_ok_def chains_ok_def pt_links_def intro: distinct_ports_bound)

lemma chain_append_iff:
  "chain_append port l ls = (if port \<in> pl_port ` set ls then None else Some (ls @ [l]))"
  by (induction ls) auto

lemma chain_find_iff: "chain_find port ls = link_map ls port"
  by (induction ls) (auto simp: link_map_def)

lemma link_map_append: "link_map (xs @ ys) port = (case link_map xs port of None \<Rightarrow> link_map ys port | Some d \<Rightarrow> Some d)"
  by (auto simp: link_map_def map_add_def split: option.splits)

lemma link_map_None_iff: "link_map ls port = None \<longleftrightarrow> port \<notin> pl_port ` set ls"
  by (simp add: link_map_def map_of_eq_None_iff image_image)

text \<open>Only the chain of its home index can hold a port.\<close>

lemma link_map_concat:
  assumes "chains_ok sz tb" and "sz \<noteq> 0"
  shows "link_map (concat tb) port = link_map (tb ! port_home sz port) port"
proof -
  let ?i = "port_home sz port"
  have i: "?i < length tb" using assms port_home_less by (auto simp: chains_ok_def)
  have others: "link_map (concat cs) port = None" if "\<forall>c \<in> set cs. port \<notin> pl_port ` set c" for cs
    using that by (auto simp: link_map_None_iff)
  have *: "port \<notin> pl_port ` set (tb ! j)" if "j < length tb" "j \<noteq> ?i" for j
    using assms(1) that by (auto simp: chains_ok_def)
  have split: "concat tb = concat (take ?i tb) @ tb ! ?i @ concat (drop (Suc ?i) tb)"
    using i by (metis concat.simps(2) concat_append id_take_nth_drop)
  have "link_map (concat (take ?i tb)) port = None"
  proof (intro others ballI)
    fix c assume "c \<in> set (take ?i tb)"
    then obtain j where "j < ?i" "c = tb ! j" by (auto simp: in_set_conv_nth)
    with * [of j] i show "port \<notin> pl_port ` set c" by simp
  qed
  moreover have "link_map (concat (drop (Suc ?i) tb)) port = None"
  proof (intro others ballI)
    fix c assume "c \<in> set (drop (Suc ?i) tb)"
    then obtain j where "j < length tb - Suc ?i" "c = tb ! (Suc ?i + j)" by (auto simp: in_set_conv_nth)
    with * [of "Suc ?i + j"] show "port \<notin> pl_port ` set c" by simp
  qed
  ultimately show ?thesis by (simp add: split link_map_append split: option.splits)
qed


lemma pt_lookup_spec:
  assumes "pt_ok pt"
  shows "krs_lib_port_table_lookup (Some pt) port =
    Some \<lparr>ptl_base = krs_lib_error_result_base_suc, ptl_exists = (pt_map pt port \<noteq> None),
          ptl_socket_handler = pt_map pt port\<rparr>"
proof -
  obtain tb where tb: "pt_table pt = Some tb" "chains_ok (pt_table_size pt) tb" using assms by (auto simp: pt_ok_def)
  have sz: "pt_table_size pt \<noteq> 0" using pt_ok_size [OF assms] by (intro notI) simp
  have "mem_get tb (port_home (pt_table_size pt) port) = Some (tb ! port_home (pt_table_size pt) port)"
    using tb(2) port_home_less [OF sz] by (simp add: mem_get_def chains_ok_def)
  then show ?thesis
    using tb sz link_map_concat [OF tb(2) sz, of port]
    by (simp add: krs_lib_port_table_lookup_def hash_port_index_def port_home_def [symmetric] chain_find_iff
        pt_map_def pt_links_def)
qed

text \<open>Appending a link to the chain of its port.\<close>

lemma concat_update:
  assumes "i < length tb"
  shows "concat (tb[i := c]) = concat (take i tb) @ c @ concat (drop (Suc i) tb)"
    and "concat tb = concat (take i tb) @ tb ! i @ concat (drop (Suc i) tb)"
  using assms by (simp_all add: upd_conv_take_nth_drop) (metis concat.simps(2) concat_append id_take_nth_drop)

lemma chains_ok_append:
  assumes ok: "chains_ok sz tb" and sz: "sz \<noteq> 0" and new: "pl_port l \<notin> pl_port ` set (concat tb)"
  defines "i \<equiv> port_home sz (pl_port l)"
  shows "chains_ok sz (tb[i := tb ! i @ [l]])" and "length (concat (tb[i := tb ! i @ [l]])) = Suc (length (concat tb))"
    and "set (concat (tb[i := tb ! i @ [l]])) = insert l (set (concat tb))"
proof -
  have i: "i < length tb" using ok port_home_less [OF sz] by (simp add: chains_ok_def i_def)
  note upd = concat_update [OF i]
  show "length (concat (tb[i := tb ! i @ [l]])) = Suc (length (concat tb))" by (simp add: upd(1)) (simp add: upd(2))
  show *: "set (concat (tb[i := tb ! i @ [l]])) = insert l (set (concat tb))"
    unfolding upd(1) by (subst upd(2)) auto
  have d: "distinct (map pl_port (concat (take i tb) @ tb ! i @ concat (drop (Suc i) tb)))"
    using ok upd(2) by (simp add: chains_ok_def)
  have n: "pl_port l \<notin> pl_port ` set (concat (take i tb) @ tb ! i @ concat (drop (Suc i) tb))"
    using new upd(2) by simp
  have "distinct (map pl_port (concat (tb[i := tb ! i @ [l]])))"
    unfolding upd(1) using d n by (auto simp: image_iff)
  moreover have "port_home sz (pl_port x) = j" if "j < length tb" "x \<in> set (tb[i := tb ! i @ [l]] ! j)" for j x
    using ok that i by (cases "j = i") (auto simp: chains_ok_def i_def)
  ultimately show "chains_ok sz (tb[i := tb ! i @ [l]])" using ok by (simp add: chains_ok_def)
qed

lemma link_map_in: "distinct (map pl_port ls) \<Longrightarrow> l \<in> set ls \<Longrightarrow> link_map ls (pl_port l) = Some (pl_socket_handler l)"
  by (simp add: link_map_def map_of_is_SomeI comp_def rev_image_eqI)

lemma link_map_insert:
  assumes "distinct (map pl_port ls)" and "distinct (map pl_port ls')" and "set ls' = insert l (set ls)"
    and "pl_port l \<notin> pl_port ` set ls"
  shows "link_map ls' = (link_map ls)(pl_port l \<mapsto> pl_socket_handler l)"
proof
  fix p
  show "link_map ls' p = ((link_map ls)(pl_port l \<mapsto> pl_socket_handler l)) p"
  proof (cases "\<exists>x \<in> set ls'. pl_port x = p")
    case True
    then obtain x where x: "x \<in> set ls'" "pl_port x = p" by blast
    have "x = l \<or> x \<in> set ls \<and> pl_port x \<noteq> pl_port l" using x(1) assms(3,4) by (metis imageI insert_iff)
    with assms(3) x link_map_in [OF assms(2) x(1)] link_map_in [OF assms(1), of x] show ?thesis by auto
  next
    case False
    then have "link_map ls' p = None" "p \<noteq> pl_port l" "link_map ls p = None"
      using assms(3) by (auto simp: link_map_None_iff)
    then show ?thesis by simp
  qed
qed

text \<open>What one insertion does: nothing if the port is there or no memory is left.\<close>

lemma pt_insert_spec:
  assumes ok: "pt_ok pt"
  shows "\<exists>pt'. port_table_insert alloc (Some pt) port (Some d) = Some (alloc \<and> pt_map pt port = None, Some pt') \<and>
    pt_ok pt' \<and> pt_map pt' = (if alloc \<and> pt_map pt port = None then (pt_map pt)(port \<mapsto> d) else pt_map pt) \<and>
    length (pt_links pt') = length (pt_links pt) + (if alloc \<and> pt_map pt port = None then 1 else 0) \<and>
    pt_prime_size_index pt' = pt_prime_size_index pt"
proof -
  obtain tb where tb: "pt_table pt = Some tb" "chains_ok (pt_table_size pt) tb"
      "unat (pt_total_entries pt) = length (concat tb)" using ok by (auto simp: pt_ok_def)
  let ?sz = "pt_table_size pt" and ?l = "\<lparr>pl_socket_handler = d, pl_port = port\<rparr>"
  have sz: "?sz \<noteq> 0" using pt_ok_size [OF ok] by (intro notI) simp
  let ?i = "port_home ?sz port"
  have i: "?i < length tb" using tb(2) port_home_less [OF sz] by (simp add: chains_ok_def)
  have idx: "hash_port_index (ucast port) ?sz = Some ?i" using sz by (simp add: hash_port_index_def port_home_def)
  have mem: "port \<in> pl_port ` set (tb ! ?i) \<longleftrightarrow> pt_map pt port \<noteq> None"
    using link_map_concat [OF tb(2) sz, of port] tb(1) by (simp add: pt_map_def pt_links_def link_map_None_iff)
  show ?thesis
  proof (cases "alloc \<and> pt_map pt port = None")
    case False
    then show ?thesis
      using ok idx tb(1) i mem
      by (intro exI [of _ pt]) (auto simp: port_table_insert_def mem_get_def chain_append_iff)
  next
    case True
    then have new: "pl_port ?l \<notin> pl_port ` set (concat tb)"
      using tb(1) by (simp add: pt_map_def pt_links_def link_map_None_iff)
    note app = chains_ok_append [OF tb(2) sz new, simplified]
    let ?tb = "tb[?i := tb ! ?i @ [?l]]"
    let ?pt = "pt\<lparr>pt_table := Some ?tb, pt_total_entries := pt_total_entries pt + 1\<rparr>"
    have "unat (pt_total_entries pt) + unat (1 :: u32) < 2 ^ LENGTH(32)"
      using pt_ok_total [OF ok] by simp
    then have "unat (pt_total_entries pt + 1) = Suc (length (concat tb))"
      using tb(3) by (simp add: unat_add_lem [THEN iffD1])
    then have ok': "pt_ok ?pt" using ok app(1,2) by (auto simp: pt_ok_def)
    have "distinct (map pl_port (concat tb))" "distinct (map pl_port (concat ?tb))"
      using tb(2) app(1) by (simp_all add: chains_ok_def)
    from link_map_insert [OF this, of ?l] app(3) new have "pt_map ?pt = (pt_map pt)(port \<mapsto> d)"
      by (simp add: pt_map_def pt_links_def tb(1))
    then show ?thesis
      using True idx tb(1) i mem ok' app(2)
      by (intro exI [of _ ?pt]) (auto simp: port_table_insert_def mem_get_def mem_set_def chain_append_iff pt_links_def)
  qed
qed


text \<open>A rebuild keeps exactly the entries whose new link could be allocated.\<close>

lemma rebuild_chain_spec:
  assumes "pt_ok pt" and "distinct (map pl_port ls)" and "\<forall>l \<in> set ls. pt_map pt (pl_port l) = None"
  shows "\<exists>pt'. rebuild_chain al ls (Some pt) = Some (Some pt') \<and> pt_ok pt' \<and>
    pt_map pt' = pt_map pt ++ link_map (filter (\<lambda>l. al (pl_port l)) ls) \<and>
    length (pt_links pt') = length (pt_links pt) + length (filter (\<lambda>l. al (pl_port l)) ls) \<and>
    pt_prime_size_index pt' = pt_prime_size_index pt"
  using assms
proof (induction ls arbitrary: pt)
  case Nil
  then show ?case by (simp add: link_map_def)
next
  case (Cons l ls)
  have new: "pt_map pt (pl_port l) = None" using Cons.prems(3) by simp
  obtain pt1 where pt1: "port_table_insert (al (pl_port l)) (Some pt) (pl_port l) (Some (pl_socket_handler l)) =
        Some (al (pl_port l), Some pt1)" "pt_ok pt1"
      "pt_map pt1 = (if al (pl_port l) then (pt_map pt)(pl_port l \<mapsto> pl_socket_handler l) else pt_map pt)"
      "length (pt_links pt1) = length (pt_links pt) + (if al (pl_port l) then 1 else 0)"
      "pt_prime_size_index pt1 = pt_prime_size_index pt"
    using pt_insert_spec [OF Cons.prems(1), of "al (pl_port l)" "pl_port l" "pl_socket_handler l"] new by auto
  have "\<forall>x \<in> set ls. pt_map pt1 (pl_port x) = None"
    using Cons.prems(2,3) pt1(3) by (auto simp: image_iff)
  from Cons.IH [OF pt1(2) _ this] Cons.prems(2) obtain pt2 where pt2:
      "rebuild_chain al ls (Some pt1) = Some (Some pt2)" "pt_ok pt2"
      "pt_map pt2 = pt_map pt1 ++ link_map (filter (\<lambda>l. al (pl_port l)) ls)"
      "length (pt_links pt2) = length (pt_links pt1) + length (filter (\<lambda>l. al (pl_port l)) ls)"
      "pt_prime_size_index pt2 = pt_prime_size_index pt1" by auto
  have dom: "pl_port l \<notin> dom (link_map (filter (\<lambda>l. al (pl_port l)) ls))"
    using Cons.prems(2) by (auto simp: domIff link_map_None_iff)
  have "pt_map pt2 = pt_map pt ++ link_map (filter (\<lambda>l. al (pl_port l)) (l # ls))"
    using pt2(3) pt1(3) dom by (auto simp: link_map_def map_add_upd_left)
  then show ?case using pt1 pt2 by auto
qed

lemma rebuild_table_chain: "rebuild_table al cs pt = rebuild_chain al (concat cs) pt"
proof -
  have app: "rebuild_chain al (xs @ ys) p = do { q \<leftarrow> rebuild_chain al xs p; rebuild_chain al ys q }" for xs ys p
    by (induction xs arbitrary: p) (auto split: Option.bind_splits)
  show ?thesis by (induction cs arbitrary: pt) (simp_all add: app)
qed

lemma link_map_filter: "link_map (filter (\<lambda>l. P (pl_port l)) ls) = link_map ls |` {p. P p}"
  by (rule ext, induction ls) (auto simp: link_map_def restrict_map_def)

lemma empty_ok:
  assumes "unat ix < PRIME_SIZES_COUNT"
  shows "pt_ok \<lparr>pt_table = Some (replicate (unat (PRIME_SIZES ! unat ix)) []), pt_table_size = PRIME_SIZES ! unat ix,
                pt_prime_size_index = ix, pt_total_entries = 0\<rparr>"
  using assms by (simp add: pt_ok_def chains_ok_def)

lemma pt_rebuild_spec:
  assumes ok: "pt_ok pt"
  shows "\<exists>pt'. port_table_rebuild alloc al (Some pt) = Some (Some pt') \<and> pt_ok pt' \<and>
    (if alloc \<and> Suc (unat (pt_prime_size_index pt)) < PRIME_SIZES_COUNT
     then unat (pt_prime_size_index pt') = Suc (unat (pt_prime_size_index pt)) \<and> pt_map pt' = pt_map pt |` {p. al p} \<and>
          length (pt_links pt') = length (filter (\<lambda>l. al (pl_port l)) (pt_links pt))
     else pt' = pt)"
proof -
  obtain tb where tb: "pt_table pt = Some tb" "length tb = unat (pt_table_size pt)" "distinct (map pl_port (concat tb))"
    using ok by (auto simp: pt_ok_def chains_ok_def)
  have "unat (pt_prime_size_index pt) + unat (1 :: u8) < 2 ^ LENGTH(8)" using ok by (simp add: pt_ok_def)
  then have nx: "unat (pt_prime_size_index pt + 1) = Suc (unat (pt_prime_size_index pt))"
    by (simp add: unat_add_lem [THEN iffD1])
  show ?thesis
  proof (cases "alloc \<and> Suc (unat (pt_prime_size_index pt)) < PRIME_SIZES_COUNT")
    case False
    with ok nx show ?thesis by (auto simp: port_table_rebuild_def Let_def)
  next
    case True
    let ?ix = "pt_prime_size_index pt + 1"
    let ?e = "\<lparr>pt_table = Some (replicate (unat (PRIME_SIZES ! unat ?ix)) []), pt_table_size = PRIME_SIZES ! unat ?ix,
                pt_prime_size_index = ?ix, pt_total_entries = 0\<rparr> :: 'a port_table"
    have e: "pt_ok ?e" "pt_map ?e = Map.empty" "length (pt_links ?e) = 0"
      using empty_ok [of ?ix] True nx by (simp_all add: pt_map_def pt_links_def link_map_def)
    have run: "port_table_rebuild alloc al (Some pt) = rebuild_chain al (concat tb) (Some ?e)"
      using True nx tb(1,2) by (cases pt) (simp add: port_table_rebuild_def Let_def mem_read_all rebuild_table_chain)
    obtain pt' where pt': "rebuild_chain al (concat tb) (Some ?e) = Some (Some pt')" "pt_ok pt'"
        "pt_map pt' = link_map (filter (\<lambda>l. al (pl_port l)) (concat tb))"
        "length (pt_links pt') = length (filter (\<lambda>l. al (pl_port l)) (concat tb))"
        "pt_prime_size_index pt' = pt_prime_size_index pt + 1"
      using rebuild_chain_spec [OF e(1) tb(3), of al] e by auto
    have "unat (pt_prime_size_index pt') = Suc (unat (pt_prime_size_index pt))" using pt'(5) nx by simp
    with True run pt' tb(1) show ?thesis
      by (intro exI [of _ pt']) (simp add: pt_map_def pt_links_def link_map_filter [of al])
  qed
qed

text \<open>
  The test of the load factor is exact: the quotient of a table that exceeds the factor lies at least
  \<open>2 powi -18\<close> above 1.5, and the binary64 rounding cannot bring it down to 1.5.
\<close>

lemma load_exceeded_iff:
  assumes "pt_ok pt"
  shows "load_exceeded pt \<longleftrightarrow> 3 * unat (pt_table_size pt) < 2 * unat (pt_total_entries pt)"
proof -
  define n s where "n = unat (pt_total_entries pt)" and "s = unat (pt_table_size pt)"
  have s: "17 \<le> s" "s \<le> 65537" and n: "n \<le> 65536"
    using pt_ok_size [OF assms] pt_ok_total [OF assms] by (simp_all add: n_def s_def)
  have exact: "rnd64 (of_nat n) = of_nat n" "rnd64 (of_nat s) = of_nat s"
    using rnd64_int [of "int n"] rnd64_int [of "int s"] n s by simp_all
  have "(2 :: rat) powi (- 1) = 1 / 2" "(2 :: rat) powi (- 18) = 1 / 262144" by (simp_all add: power_int_def power_divide)
  then have "rnd_pos (3 / 2) = 3 / 2" "rnd_pos (393217 / 262144) = 393217 / 262144"
    by (intro rnd_pos_exact [of _ 3 "- 1"] rnd_pos_exact [of _ 393217 "- 18"]; simp)+
  then have r: "rnd64 (3 / 2) = 3 / 2" "rnd64 (393217 / 262144) = 393217 / 262144" by (simp_all add: rnd64_def)
  have "load_exceeded pt \<longleftrightarrow> rnd64 (of_nat n / of_nat s) > 3 / 2"
    by (simp add: load_exceeded_def n_def [symmetric] s_def [symmetric] exact)
  also have "\<dots> \<longleftrightarrow> 3 * s < 2 * n"
  proof
    assume "3 * s < 2 * n"
    then have "3 * s + 1 \<le> 2 * n" by simp
    then have "(of_nat (3 * s + 1) :: rat) \<le> of_nat (2 * n)" by (subst of_nat_le_iff)
    then have le: "3 * of_nat s + 1 \<le> 2 * (of_nat n :: rat)" by simp
    have "(of_nat s :: rat) \<le> 65537" using s(2) of_nat_le_iff [of s 65537, where 'a = rat] by simp
    with le s(1) have "(393217 / 262144 :: rat) \<le> of_nat n / of_nat s"
      by (simp add: pos_le_divide_eq) 
    from rnd64_mono [OF this] r(2) show "rnd64 (of_nat n / of_nat s) > 3 / 2" by simp
  next
    assume gt: "rnd64 (of_nat n / of_nat s) > 3 / 2"
    show "3 * s < 2 * n"
    proof (rule ccontr)
      assume "\<not> 3 * s < 2 * n"
      then have "2 * n \<le> 3 * s" by simp
      then have "(of_nat (2 * n) :: rat) \<le> of_nat (3 * s)" by (subst of_nat_le_iff)
      then have "of_nat n / of_nat s \<le> (3 / 2 :: rat)" using s(1) by (simp add: pos_divide_le_eq)
      from rnd64_mono [OF this] r(1) gt show False by simp
    qed
  qed
  finally show ?thesis by (simp add: n_def s_def)
qed


text \<open>One call of \<open>krs_lib_port_table_insert\<close>.\<close>

lemma pt_ok_table: "pt_ok pt \<Longrightarrow> pt_table pt \<noteq> None"
  by (auto simp: pt_ok_def)

lemma pt_lib_insert_spec:
  assumes ok: "pt_ok pt" and al: "\<forall>p. ia_links al p" "ia_link al"
  shows "\<exists>pt'. krs_lib_port_table_insert al (Some pt) port (Some d) = Some (Some pt') \<and> pt_ok pt' \<and>
    pt_map pt' = (if pt_map pt port = None then (pt_map pt)(port \<mapsto> d) else pt_map pt) \<and>
    length (pt_links pt') = length (pt_links pt) + (if pt_map pt port = None then 1 else 0) \<and>
    (ia_table al \<longrightarrow> 2 * length (pt_links pt) \<le> 3 * unat (pt_table_size pt) + 2 \<longrightarrow>
       2 * length (pt_links pt') \<le> 3 * unat (pt_table_size pt') + 2)"
proof (cases "load_exceeded pt")
  case False
  obtain pt' where pt': "port_table_insert (ia_link al) (Some pt) port (Some d) = Some (ia_link al \<and> pt_map pt port = None, Some pt')"
      "pt_ok pt'" "pt_map pt' = (if pt_map pt port = None then (pt_map pt)(port \<mapsto> d) else pt_map pt)"
      "length (pt_links pt') = length (pt_links pt) + (if pt_map pt port = None then 1 else 0)"
      "pt_prime_size_index pt' = pt_prime_size_index pt"
    using pt_insert_spec [OF ok, of "ia_link al" port d] al(2) by auto
  have "pt_table_size pt' = pt_table_size pt" using ok pt'(2,5) by (simp add: pt_ok_def)
  moreover have "2 * length (pt_links pt) \<le> 3 * unat (pt_table_size pt)"
    using False load_exceeded_iff [OF ok] pt_ok_total [OF ok] by simp
  ultimately show ?thesis
    using False pt' pt_ok_table [OF ok] by (auto simp: krs_lib_port_table_insert_def)
next
  case True
  let ?grow = "ia_table al \<and> Suc (unat (pt_prime_size_index pt)) < PRIME_SIZES_COUNT"
  obtain pt1 where pt1: "port_table_rebuild (ia_table al) (ia_links al) (Some pt) = Some (Some pt1)" "pt_ok pt1"
      "if ?grow then unat (pt_prime_size_index pt1) = Suc (unat (pt_prime_size_index pt)) \<and>
           pt_map pt1 = pt_map pt |` {p. ia_links al p} \<and>
           length (pt_links pt1) = length (filter (\<lambda>l. ia_links al (pl_port l)) (pt_links pt))
        else pt1 = pt"
    using pt_rebuild_spec [OF ok, of "ia_table al" "ia_links al"] by blast
  have same: "pt_map pt1 = pt_map pt" "length (pt_links pt1) = length (pt_links pt)"
    using pt1(3) al(1) by (simp_all add: restrict_map_def split: if_splits)
  obtain pt' where pt': "port_table_insert (ia_link al) (Some pt1) port (Some d) = Some (ia_link al \<and> pt_map pt1 port = None, Some pt')"
      "pt_ok pt'" "pt_map pt' = (if pt_map pt port = None then (pt_map pt)(port \<mapsto> d) else pt_map pt)"
      "length (pt_links pt') = length (pt_links pt) + (if pt_map pt port = None then 1 else 0)"
      "pt_prime_size_index pt' = pt_prime_size_index pt1"
    using pt_insert_spec [OF pt1(2), of "ia_link al" port d] al(2) same by auto
  have sz: "pt_table_size pt' = pt_table_size pt1" using pt1(2) pt'(2,5) by (simp add: pt_ok_def)
  have "2 * length (pt_links pt') \<le> 3 * unat (pt_table_size pt') + 2"
    if "ia_table al" "2 * length (pt_links pt) \<le> 3 * unat (pt_table_size pt) + 2"
  proof (cases ?grow)
    case g: True
    then have "unat (pt_prime_size_index pt1) = Suc (unat (pt_prime_size_index pt))" using pt1(3) by simp
    then have "unat (pt_table_size pt) + 2 \<le> unat (pt_table_size pt1)"
      using prime_sizes_grow [of "unat (pt_prime_size_index pt)"] ok pt1(2) g by (simp add: pt_ok_def)
    then show ?thesis using that(2) pt'(4) sz by simp
  next
    case False
    then have "pt_table_size pt = 65537" using that(1) ok by (auto simp: pt_ok_def PRIME_SIZES_def not_less_eq less_Suc_eq_le)
    then show ?thesis using True load_exceeded_iff [OF ok] pt_ok_total [OF ok] by simp
  qed
  then show ?thesis
    using True pt1(1) pt' pt_ok_table [OF ok] by (auto simp: krs_lib_port_table_insert_def)
qed

text \<open>
  A sequence of insertions: each with its port, its descriptor and whether the table of a rebuild could
  be allocated. The links are always allocated.
\<close>

fun insert_all :: "(port \<times> 'd \<times> bool) list \<Rightarrow> 'd port_table \<Rightarrow> 'd port_table option" where
  "insert_all [] pt = Some pt"
| "insert_all ((port, d, grow) # ps) pt =
     do { pt1 \<leftarrow> krs_lib_port_table_insert \<lparr>ia_table = grow, ia_links = (\<lambda>_. True), ia_link = True\<rparr> (Some pt) port (Some d);
          pt2 \<leftarrow> pt1;
          insert_all ps pt2 }"

definition requests :: "(port \<times> 'd \<times> bool) list \<Rightarrow> port \<rightharpoonup> 'd" where
  "requests ps = map_of (map (\<lambda>(port, d, _). (port, d)) ps)"

lemma insert_all_spec:
  assumes "pt_ok pt"
  shows "\<exists>pt'. insert_all ps pt = Some pt' \<and> pt_ok pt' \<and> pt_map pt' = requests ps ++ pt_map pt \<and>
    ((\<forall>(_, _, grow) \<in> set ps. grow) \<longrightarrow> 2 * length (pt_links pt) \<le> 3 * unat (pt_table_size pt) + 2 \<longrightarrow>
       2 * length (pt_links pt') \<le> 3 * unat (pt_table_size pt') + 2)"
  using assms
proof (induction ps arbitrary: pt)
  case Nil
  then show ?case by (simp add: requests_def)
next
  case (Cons p ps)
  obtain port d grow where p: "p = (port, d, grow)" by (cases p)
  let ?al = "\<lparr>ia_table = grow, ia_links = (\<lambda>_. True), ia_link = True\<rparr>"
  obtain pt1 where pt1: "krs_lib_port_table_insert ?al (Some pt) port (Some d) = Some (Some pt1)" "pt_ok pt1"
      "pt_map pt1 = (if pt_map pt port = None then (pt_map pt)(port \<mapsto> d) else pt_map pt)"
      "grow \<longrightarrow> 2 * length (pt_links pt) \<le> 3 * unat (pt_table_size pt) + 2 \<longrightarrow>
         2 * length (pt_links pt1) \<le> 3 * unat (pt_table_size pt1) + 2"
    using pt_lib_insert_spec [OF Cons.prems, of ?al port d] by auto
  have "requests ps ++ pt_map pt1 = requests (p # ps) ++ pt_map pt"
    by (rule ext) (auto simp: pt1(3) p requests_def map_add_def split: option.splits)
  with Cons.IH [OF pt1(2)] pt1(1,4) show ?case by (auto simp: p)
qed

lemma card_dom_links:
  assumes "pt_ok pt"
  shows "card (dom (pt_map pt)) = length (pt_links pt)" and "ran (pt_map pt) = pl_socket_handler ` set (pt_links pt)"
proof -
  have d: "distinct (map pl_port (pt_links pt))" using assms by (auto simp: pt_ok_def chains_ok_def pt_links_def)
  have "dom (pt_map pt) = pl_port ` set (pt_links pt)"
    unfolding dom_def link_map_None_iff pt_map_def by blast
  with d show "card (dom (pt_map pt)) = length (pt_links pt)" by (metis distinct_card length_map list.set_map)
  show "ran (pt_map pt) = pl_socket_handler ` set (pt_links pt)"
    using d by (simp add: pt_map_def link_map_def ran_distinct comp_def image_image)
qed

lemma pt_destroy_spec: "pt_ok pt \<Longrightarrow> krs_lib_port_table_destroy (Some pt) = Some (map pl_socket_handler (pt_links pt), None)"
  by (auto simp: pt_ok_def chains_ok_def krs_lib_port_table_destroy_def mem_read_all pt_links_def)

lemma pt_create_spec: "krs_lib_port_table_create True True = Some pt \<Longrightarrow>
    pt_ok pt \<and> pt_map pt = Map.empty \<and> pt_links pt = []"
  using empty_ok [of 0]
  by (auto simp: krs_lib_port_table_create_def port_table_create_def port_table_alloc_def port_links_alloc_def Let_def
      pt_map_def pt_links_def link_map_def)

section \<open>Properties\<close>

text \<open>
  C38. The port table implements a map in which the first descriptor inserted for a port stays. From
  a new table, after every sequence of insertions (with every outcome of the table allocations),
  \<open>krs_lib_port_table_lookup\<close> reports exactly the inserted ports with their first descriptors, the
  number of entries is the number of ports, the chains have at most 1.5 entries per bucket on average
  (plus one) if the tables could be allocated, and \<open>krs_lib_port_table_destroy\<close> destroys the
  descriptor of each port once.
\<close>

theorem port_table_refines:
  assumes "krs_lib_port_table_create True True = Some pt0"
  shows "\<exists>pt. insert_all ps pt0 = Some pt \<and>
     (\<forall>port. krs_lib_port_table_lookup (Some pt) port =
        Some \<lparr>ptl_base = krs_lib_error_result_base_suc, ptl_exists = (requests ps port \<noteq> None),
              ptl_socket_handler = requests ps port\<rparr>) \<and>
     unat (pt_total_entries pt) = card (dom (requests ps)) \<and>
     ((\<forall>(_, _, grow) \<in> set ps. grow) \<longrightarrow> 2 * unat (pt_total_entries pt) \<le> 3 * unat (pt_table_size pt) + 2) \<and>
     (\<exists>ds. krs_lib_port_table_destroy (Some pt) = Some (ds, None) \<and> length ds = card (dom (requests ps)) \<and>
        set ds = ran (requests ps))"
proof -
  note new = pt_create_spec [OF assms]
  from insert_all_spec [of pt0 ps] new obtain pt where pt: "insert_all ps pt0 = Some pt" "pt_ok pt"
      "pt_map pt = requests ps ++ Map.empty"
      "(\<forall>(_, _, grow) \<in> set ps. grow) \<longrightarrow> 2 * length (pt_links pt0) \<le> 3 * unat (pt_table_size pt0) + 2 \<longrightarrow>
         2 * length (pt_links pt) \<le> 3 * unat (pt_table_size pt) + 2"
    by metis
  show ?thesis
    using pt new pt_lookup_spec [OF pt(2)] pt_ok_total [OF pt(2)] card_dom_links [OF pt(2)] pt_destroy_spec [OF pt(2)]
    by (intro exI [of _ pt]) auto
qed

theorem port_table_refines_witness:
  "\<exists>pt0 pt. krs_lib_port_table_create True True = Some pt0 \<and>
     insert_all [(80, ''a'', True), (443, ''b'', True), (80, ''c'', True)] pt0 = Some pt \<and>
     (\<exists>r. krs_lib_port_table_lookup (Some pt) 80 = Some r \<and> ptl_socket_handler r = Some ''a'') \<and>
     (\<exists>r. krs_lib_port_table_lookup (Some pt) 81 = Some r \<and> \<not> ptl_exists r)"
proof -
  obtain pt0 :: "string port_table" where new: "krs_lib_port_table_create True True = Some pt0"
    by (simp add: krs_lib_port_table_create_def port_table_create_def port_table_alloc_def port_links_alloc_def Let_def)
  from port_table_refines [OF new, of "[(80, ''a'', True), (443, ''b'', True), (80, ''c'', True)]"] new
  show ?thesis by (auto simp: requests_def)
qed

text \<open>
  A rebuild moves to the next prime size and keeps exactly the entries whose new link could be
  allocated: a port whose link allocation failed is no longer found although its descriptor is open.
  When the table itself cannot be allocated, or the largest size is reached, nothing changes.
\<close>

theorem port_table_rebuild_keeps:
  assumes "pt_ok pt"
  shows "\<exists>pt'. port_table_rebuild alloc al (Some pt) = Some (Some pt') \<and> pt_ok pt' \<and>
     (let moved = alloc \<and> Suc (unat (pt_prime_size_index pt)) < PRIME_SIZES_COUNT in
      (\<forall>port. \<exists>r. krs_lib_port_table_lookup (Some pt') port = Some r \<and>
         ptl_socket_handler r = (if moved \<and> \<not> al port then None else pt_map pt port)) \<and>
      (if moved then pt_table_size pt' = PRIME_SIZES ! Suc (unat (pt_prime_size_index pt)) else pt' = pt))"
proof -
  obtain pt' where pt': "port_table_rebuild alloc al (Some pt) = Some (Some pt')" "pt_ok pt'"
     "if alloc \<and> Suc (unat (pt_prime_size_index pt)) < PRIME_SIZES_COUNT
      then unat (pt_prime_size_index pt') = Suc (unat (pt_prime_size_index pt)) \<and> pt_map pt' = pt_map pt |` {p. al p} \<and>
          length (pt_links pt') = length (filter (\<lambda>l. al (pl_port l)) (pt_links pt))
      else pt' = pt"
    using pt_rebuild_spec [OF assms, of alloc al] by blast
  then have "pt_table_size pt' = PRIME_SIZES ! unat (pt_prime_size_index pt')" by (simp add: pt_ok_def)
  with pt' pt_lookup_spec [OF pt'(2)] show ?thesis
    by (intro exI [of _ pt']) (auto simp: Let_def restrict_map_def split: if_splits)
qed

theorem port_table_rebuild_keeps_witness:
  "\<exists>pt0 pt1 pt' r. krs_lib_port_table_create True True = Some pt0 \<and> insert_all [(80, ''a'', True)] pt0 = Some pt1 \<and>
     port_table_rebuild True (\<lambda>p. p \<noteq> 80) (Some pt1) = Some (Some pt') \<and>
     krs_lib_port_table_lookup (Some pt') 80 = Some r \<and> ptl_socket_handler r = None"
proof -
  obtain pt0 :: "string port_table" where new: "krs_lib_port_table_create True True = Some pt0" "pt_prime_size_index pt0 = 0"
    by (simp add: krs_lib_port_table_create_def port_table_create_def port_table_alloc_def port_links_alloc_def Let_def)
  from insert_all_spec [of pt0 "[(80, ''a'', True)]"] pt_create_spec [OF new(1)] obtain pt1 where
    pt1: "insert_all [(80, ''a'', True)] pt0 = Some pt1" "pt_ok pt1" by auto
  have "\<not> load_exceeded pt0" using load_exceeded_iff [of pt0] pt_create_spec [OF new(1)] pt_ok_total [of pt0] by simp
  then have "pt_prime_size_index pt1 = 0"
    using pt1(1) new pt_insert_spec [of pt0 True 80 "''a''"] pt_create_spec [OF new(1)] pt_ok_table [of pt0]
    by (auto simp: krs_lib_port_table_insert_def)
  with port_table_rebuild_keeps [OF pt1(2), of True "\<lambda>p. p \<noteq> 80"] new(1) pt1(1) show ?thesis
    by (force simp: Let_def)
qed

end
