(* ===== verification/Kronos_Server.thy ===== *)
theory Kronos_Server
  imports Kronos_Connection_Map Kronos_Port_Table Kronos_Message_Queue Kronos_Reassembler Kronos_Packet_Counter
begin

text \<open>
  The state of the server, with the structures of \<open>server_internal.h\<close>, and its set-up:
  \<open>socket_handler_lifecycle.c\<close>, \<open>server_port_manager_lifecycle.c\<close>,
  \<open>server_port_manager_validation.c\<close> and \<open>server_callbacks.c\<close>.

  Descriptors and connections are shared by several structures, so they live in stores from references
  to objects; using a reference that is not in the store (a freed object) is undefined. A \<open>world\<close> holds
  the stores, the static variables and the manager the caller passes (\<open>None\<close> for \<open>NULL\<close>). Callbacks
  and datagrams are events, in the order the code produces them.
\<close>

section \<open>State\<close>

text \<open>Function pointers and user data are opaque addresses.\<close>

type_synonym callback = u64
type_synonym user_data = u64

text \<open>Handles of the operating system, and the receive contexts of the completion port.\<close>

type_synonym handle = u64
type_synonym ctx_ref = nat

record channel_state =
  ch_packet_counter :: "packet_counter option"
  ch_reassembler :: "reassembler option"
  ch_connections :: "conn_ref krs_array option"

record udp_socket_descriptor =
  ds_port :: port
  ds_udp_socket_ref :: socket
  ds_recv_ctx :: "ctx_ref option"
  ds_port_callback :: "callback option"
  ds_port_callback_user_data :: user_data
  ds_channel_callbacks :: "callback option list"
  ds_channel_callback_user_data :: "user_data list"
  ds_channel_states :: "channel_state list"
  ds_connect_callback :: "callback option"
  ds_connect_callback_user_data :: user_data
  ds_disconnect_callback :: "callback option"
  ds_disconnect_callback_user_data :: user_data
  ds_delivery_failure_callback :: "callback option"
  ds_delivery_failure_callback_user_data :: user_data

record server_port_manager =
  spm_port_table :: "desc_ref port_table option"
  spm_descriptor_list :: "desc_ref krs_array option"
  spm_default_address :: address
  spm_default_max_channel :: u8
  spm_config_iocp_threads :: u32
  spm_config_handler_threads :: u32
  spm_iocp_handle :: "handle option"
  spm_iocp_threads :: "handle option list option"
  spm_iocp_thread_count :: u32
  spm_handler_threads :: "handle option list option"
  spm_handler_thread_count :: u32
  spm_message_queue :: "message_queue option"
  spm_message_pool :: "pool_id option"
  spm_connection_map :: "connection_map option"
  spm_retransmit_thread :: "handle option"
  spm_running :: bool
  stat_messages_received :: u64
  stat_messages_sent :: u64
  stat_ack_sent :: u64
  stat_ack_received :: u64
  stat_retransmissions :: u64
  stat_connections_total :: u64
  stat_disconnections :: u64
  stat_fragments_received :: u64
  stat_fragments_reassembled :: u64
  stat_pool_fallback_mallocs :: u64

record incoming_message =
  im_data :: bytes
  im_data_length :: u32
  im_remote_address :: port_address
  im_port :: port

text \<open>The receive context; its \<open>WSABUF\<close> always describes its own buffer.\<close>

record udp_overlapped =
  uo_buffer :: bytes
  uo_remote_addr :: port_address
  uo_port :: port
  uo_socket :: socket

record world =
  w_spm :: "server_port_manager option"
  w_descs :: "desc_ref \<rightharpoonup> udp_socket_descriptor"
  w_conns :: conn_store
  w_next_connection_id :: u32
  w_pools :: pool_store
  w_msgs :: "msg_ptr \<rightharpoonup> incoming_message"
  w_ctxs :: "ctx_ref \<rightharpoonup> udp_overlapped"
  w_wsa :: wsa_state

text \<open>
  A message callback gets a buffer and a length; the other callbacks get their arguments. The calls that
  concern threads and completion ports are events too.
\<close>

datatype io_call =
    Create_port handle
  | Associate handle socket port
  | Recv_from socket ctx_ref
  | Create_thread handle
  | Post_shutdown "handle option"
  | Wait_threads "handle list" u32
  | Close_handle handle

datatype event =
    Ev_send datagram
  | Ev_message callback u8 u32 "bytes option" u16 user_data
  | Ev_connect callback u32 u8 user_data
  | Ev_disconnect callback u32 u8 user_data
  | Ev_delivery_failure callback u32 u8 u64 user_data
  | Ev_socket socket_call
  | Ev_io io_call

abbreviation (input) MAX_EVICTIONS_PER_CYCLE :: nat where "MAX_EVICTIONS_PER_CYCLE \<equiv> 64"

text \<open>Access to the stores.\<close>

definition set_spm :: "server_port_manager \<Rightarrow> world \<Rightarrow> world" where
  "set_spm spm w = w\<lparr>w_spm := Some spm\<rparr>"

definition set_desc :: "desc_ref \<Rightarrow> udp_socket_descriptor \<Rightarrow> world \<Rightarrow> world" where
  "set_desc d desc w = w\<lparr>w_descs := (w_descs w)(d \<mapsto> desc)\<rparr>"

definition set_conn :: "conn_ref \<Rightarrow> client_connection \<Rightarrow> world \<Rightarrow> world" where
  "set_conn r c w = w\<lparr>w_conns := (w_conns w)(r \<mapsto> c)\<rparr>"

definition get_channel :: "udp_socket_descriptor \<Rightarrow> u8 \<Rightarrow> channel_state option" where
  "get_channel desc ch = mem_get (ds_channel_states desc) (unat ch)"

definition set_channel :: "u8 \<Rightarrow> channel_state \<Rightarrow> udp_socket_descriptor \<Rightarrow> udp_socket_descriptor option" where
  "set_channel ch st desc =
     do { sts \<leftarrow> mem_set (ds_channel_states desc) (unat ch) st; Some (desc\<lparr>ds_channel_states := sts\<rparr>) }"

lemma set_simps [simp]:
  "w_spm (set_spm spm w) = Some spm"
  "w_descs (set_spm spm w) = w_descs w"
  "w_conns (set_spm spm w) = w_conns w"
  "w_next_connection_id (set_spm spm w) = w_next_connection_id w"
  "w_pools (set_spm spm w) = w_pools w"
  "w_msgs (set_spm spm w) = w_msgs w"
  "w_ctxs (set_spm spm w) = w_ctxs w"
  "w_wsa (set_spm spm w) = w_wsa w"
  "w_spm (set_desc d desc w) = w_spm w"
  "w_descs (set_desc d desc w) = (w_descs w)(d \<mapsto> desc)"
  "w_conns (set_desc d desc w) = w_conns w"
  "w_next_connection_id (set_desc d desc w) = w_next_connection_id w"
  "w_pools (set_desc d desc w) = w_pools w"
  "w_msgs (set_desc d desc w) = w_msgs w"
  "w_ctxs (set_desc d desc w) = w_ctxs w"
  "w_wsa (set_desc d desc w) = w_wsa w"
  "w_spm (set_conn r c w) = w_spm w"
  "w_descs (set_conn r c w) = w_descs w"
  "w_conns (set_conn r c w) = (w_conns w)(r \<mapsto> c)"
  "w_next_connection_id (set_conn r c w) = w_next_connection_id w"
  "w_pools (set_conn r c w) = w_pools w"
  "w_msgs (set_conn r c w) = w_msgs w"
  "w_ctxs (set_conn r c w) = w_ctxs w"
  "w_wsa (set_conn r c w) = w_wsa w"
  "set_desc d desc (set_desc d desc' w) = set_desc d desc w"
  "set_spm spm (set_spm spm' w) = set_spm spm w"
  "set_conn r c (set_conn r c' w) = set_conn r c w"
  by (simp_all add: set_spm_def set_desc_def set_conn_def)

section \<open>Socket descriptors\<close>

definition zero_channel :: channel_state where
  "zero_channel = \<lparr>ch_packet_counter = None, ch_reassembler = None, ch_connections = None\<rparr>"

text \<open>What \<open>calloc\<close> provides.\<close>

definition zero_descriptor :: udp_socket_descriptor where
  "zero_descriptor =
     \<lparr>ds_port = 0, ds_udp_socket_ref = 0, ds_recv_ctx = None, ds_port_callback = None, ds_port_callback_user_data = 0,
      ds_channel_callbacks = replicate (MAX_CHANNEL_NUMBER + 1) None,
      ds_channel_callback_user_data = replicate (MAX_CHANNEL_NUMBER + 1) 0,
      ds_channel_states = replicate (MAX_CHANNEL_NUMBER + 1) zero_channel,
      ds_connect_callback = None, ds_connect_callback_user_data = 0,
      ds_disconnect_callback = None, ds_disconnect_callback_user_data = 0,
      ds_delivery_failure_callback = None, ds_delivery_failure_callback_user_data = 0\<rparr>"

text \<open>
  The address \<open>calloc\<close> returned, and the results of \<open>socket\<close> and \<open>bind\<close>.
\<close>

record socket_outcome =
  so_desc :: "desc_ref option"
  so_socket :: socket
  so_bind_fails :: bool

definition krs_server_udp_socket_handler_create ::
    "socket_outcome \<Rightarrow> port_address \<Rightarrow> world \<Rightarrow> event list \<times> desc_ref option \<times> world" where
  "krs_server_udp_socket_handler_create so port_address w =
     (case so_desc so of
        None \<Rightarrow> ([], None, w)
      | Some d \<Rightarrow>
          let (s, calls) = krs_network_udp_socket_ref_create port_address (so_socket so) (so_bind_fails so) in
          if s = INVALID_SOCKET then (map Ev_socket calls, None, w)
          else (map Ev_socket calls, Some d, set_desc d (zero_descriptor\<lparr>ds_udp_socket_ref := s\<rparr>) w))"

text \<open>The loop over the connections of channel 0; releasing a null pointer does nothing.\<close>

fun release_anchor :: "conn_ref krs_array \<Rightarrow> nat \<Rightarrow> nat \<Rightarrow> conn_store \<Rightarrow> conn_store option" where
  "release_anchor anchor i 0 cs = Some cs"
| "release_anchor anchor i (Suc n) cs =
     do { r \<leftarrow> array_at anchor i;
          cs' \<leftarrow> krs_connection_map_release cs r;
          release_anchor anchor (Suc i) n cs' }"

fun destroy_channels :: "channel_state list \<Rightarrow> unit option" where
  "destroy_channels [] = Some ()"
| "destroy_channels (st # sts) = do { _ \<leftarrow> krs_reassembler_destroy (ch_reassembler st); destroy_channels sts }"

definition krs_server_udp_socket_handler_destroy :: "desc_ref option \<Rightarrow> world \<Rightarrow> (event list \<times> world) option" where
  "krs_server_udp_socket_handler_destroy socket_handler w =
     (case socket_handler of
        None \<Rightarrow> Some ([], w)
      | Some d \<Rightarrow> do {
          desc \<leftarrow> w_descs w d;
          st0 \<leftarrow> get_channel desc 0;
          cs \<leftarrow> (case ch_connections st0 of
                   None \<Rightarrow> Some (w_conns w)
                 | Some anchor \<Rightarrow> release_anchor anchor 0 (unat (krs_array_length (Some anchor))) (w_conns w));
          _ \<leftarrow> destroy_channels (ds_channel_states desc);
          Some ((if ds_udp_socket_ref desc \<noteq> INVALID_SOCKET then [Ev_socket (Closesocket (ds_udp_socket_ref desc))] else []),
                w\<lparr>w_conns := cs, w_descs := (w_descs w)(d := None)\<rparr>) })"

section \<open>The port manager\<close>

definition krs_server_port_manager_validate :: "server_port_manager option \<Rightarrow> bool" where
  "krs_server_port_manager_validate spm =
     (case spm of None \<Rightarrow> False | Some m \<Rightarrow> spm_port_table m \<noteq> None)"

text \<open>The allocations: the manager, the port table with its links, the list with its cells.\<close>

record manager_alloc =
  ma_spm :: bool
  ma_table :: bool
  ma_links :: bool
  ma_list :: bool
  ma_cells :: "desc_ref cells"

definition krs_server_port_manager_create :: "manager_alloc \<Rightarrow> address \<Rightarrow> server_port_manager option" where
  "krs_server_port_manager_create al default_address =
     (if \<not> ma_spm al then None
      else case krs_lib_port_table_create (ma_table al) (ma_links al) of
        None \<Rightarrow> None
      | Some port_table \<Rightarrow>
          (case krs_array_create (ma_list al) (ma_cells al) 8 of
             None \<Rightarrow> None
           | Some descriptor_list \<Rightarrow>
               Some \<lparr>spm_port_table = Some port_table, spm_descriptor_list = Some descriptor_list,
                     spm_default_address = default_address, spm_default_max_channel = 255,
                     spm_config_iocp_threads = 2, spm_config_handler_threads = 4, spm_iocp_handle = None,
                     spm_iocp_threads = None, spm_iocp_thread_count = 0, spm_handler_threads = None,
                     spm_handler_thread_count = 0,
                     spm_message_queue = None, spm_message_pool = None, spm_connection_map = None,
                     spm_retransmit_thread = None, spm_running = False, stat_messages_received = 0, stat_messages_sent = 0,
                     stat_ack_sent = 0, stat_ack_received = 0, stat_retransmissions = 0,
                     stat_connections_total = 0, stat_disconnections = 0, stat_fragments_received = 0,
                     stat_fragments_reassembled = 0, stat_pool_fallback_mallocs = 0\<rparr>))"

record port_add_alloc =
  pa_socket :: socket_outcome
  pa_insert :: insert_alloc
  pa_push :: "desc_ref cells"

text \<open>
  Both functions that add a port have the same body after the validation and differ in the address they
  bind and in their log messages.
\<close>

definition port_add_address ::
    "port_add_alloc \<Rightarrow> port \<Rightarrow> address \<Rightarrow> world \<Rightarrow> (void_r \<times> event list \<times> world) option" where
  "port_add_address al port addr w0 =
     (let w = w0\<lparr>w_wsa := krs_wsa_init (w_wsa w0)\<rparr>;
          (evs, sock, w) = krs_server_udp_socket_handler_create (pa_socket al) (krs_network_port_address_create port addr) w in
      case sock of
        None \<Rightarrow> Some (krs_lib_error_result_base_w_msg KRS_ERR_SERVER_BIND_FAILED ''socket creation failed'', evs,
                     w\<lparr>w_wsa := krs_wsa_cleanup (w_wsa w)\<rparr>)
      | Some d \<Rightarrow> do {
          desc \<leftarrow> w_descs w d;
          let w = set_desc d (desc\<lparr>ds_port := port\<rparr>) w;
          spm \<leftarrow> w_spm w;
          table \<leftarrow> krs_lib_port_table_insert (pa_insert al) (spm_port_table spm) port (Some d);
          (r, list) \<leftarrow> krs_array_push (pa_push al) (spm_descriptor_list spm) (Some d);
          let w = set_spm (spm\<lparr>spm_port_table := table, spm_descriptor_list := list\<rparr>) w;
          if \<not> rb_valid r then do {
            (evs', w') \<leftarrow> krs_server_udp_socket_handler_destroy (Some d) w;
            Some (r, evs @ evs', w'\<lparr>w_wsa := krs_wsa_cleanup (w_wsa w')\<rparr>) }
          else Some (krs_lib_error_result_base_suc, evs, w) })"

definition krs_server_port_manager_port_add ::
    "port_add_alloc \<Rightarrow> port \<Rightarrow> world \<Rightarrow> (void_r \<times> event list \<times> world) option" where
  "krs_server_port_manager_port_add al port w =
     (if \<not> krs_server_port_manager_validate (w_spm w)
      then Some (krs_lib_error_result_base_w_msg KRS_ERR_NULL_POINTER ''invalid spm'', [], w)
      else do { spm \<leftarrow> w_spm w; port_add_address al port (spm_default_address spm) w })"

definition krs_server_port_manager_port_add_with_address ::
    "port_add_alloc \<Rightarrow> port \<Rightarrow> address \<Rightarrow> world \<Rightarrow> (void_r \<times> event list \<times> world) option" where
  "krs_server_port_manager_port_add_with_address al port addr w =
     (if \<not> krs_server_port_manager_validate (w_spm w)
      then Some (krs_lib_error_result_base_w_msg KRS_ERR_NULL_POINTER ''invalid spm'', [], w)
      else port_add_address al port addr w)"

text \<open>Destroying the descriptors of the port table, and the final loop of \<open>krs_wsa_cleanup\<close>.\<close>

fun destroy_descriptors :: "desc_ref list \<Rightarrow> world \<Rightarrow> (event list \<times> world) option" where
  "destroy_descriptors [] w = Some ([], w)"
| "destroy_descriptors (d # ds) w =
     do { (evs, w') \<leftarrow> krs_server_udp_socket_handler_destroy (Some d) w;
          (evs', w'') \<leftarrow> destroy_descriptors ds w';
          Some (evs @ evs', w'') }"

definition krs_server_port_manager_destroy :: "world \<Rightarrow> (event list \<times> world) option" where
  "krs_server_port_manager_destroy w =
     (case w_spm w of
        None \<Rightarrow> Some ([], w)
      | Some m \<Rightarrow> do {
          let port_count = krs_array_length (spm_descriptor_list m);
          (ds, _) \<leftarrow> krs_lib_port_table_destroy (spm_port_table m);
          (evs, w') \<leftarrow> destroy_descriptors ds w;
          Some (evs, w'\<lparr>w_spm := None, w_wsa := (krs_wsa_cleanup ^^ unat port_count) (w_wsa w')\<rparr>) })"

definition krs_server_set_thread_counts :: "u32 \<Rightarrow> u32 \<Rightarrow> world \<Rightarrow> world" where
  "krs_server_set_thread_counts iocp_threads handler_threads w =
     (case w_spm w of
        None \<Rightarrow> w
      | Some spm \<Rightarrow>
          let iocp_threads = (if iocp_threads < 1 then 1 else iocp_threads);
              handler_threads = (if handler_threads < 1 then 1 else handler_threads)
          in set_spm (spm\<lparr>spm_config_iocp_threads := iocp_threads, spm_config_handler_threads := handler_threads\<rparr>) w)"

record server_stats =
  ss_messages_received :: u64
  ss_messages_sent :: u64
  ss_ack_sent :: u64
  ss_ack_received :: u64
  ss_retransmissions :: u64
  ss_connections_active :: u64
  ss_connections_total :: u64
  ss_disconnections :: u64
  ss_fragments_received :: u64
  ss_fragments_reassembled :: u64
  ss_pool_acquires :: u64
  ss_pool_fallback_mallocs :: u64

definition zero_stats :: server_stats where
  "zero_stats = \<lparr>ss_messages_received = 0, ss_messages_sent = 0, ss_ack_sent = 0, ss_ack_received = 0,
     ss_retransmissions = 0, ss_connections_active = 0, ss_connections_total = 0, ss_disconnections = 0,
     ss_fragments_received = 0, ss_fragments_reassembled = 0, ss_pool_acquires = 0, ss_pool_fallback_mallocs = 0\<rparr>"

definition krs_server_get_stats :: "world \<Rightarrow> server_stats option" where
  "krs_server_get_stats w =
     (case w_spm w of
        None \<Rightarrow> Some zero_stats
      | Some spm \<Rightarrow>
          let stats = \<lparr>ss_messages_received = stat_messages_received spm, ss_messages_sent = stat_messages_sent spm,
                ss_ack_sent = stat_ack_sent spm, ss_ack_received = stat_ack_received spm,
                ss_retransmissions = stat_retransmissions spm,
                ss_connections_active = stat_connections_total spm - stat_disconnections spm,
                ss_connections_total = stat_connections_total spm, ss_disconnections = stat_disconnections spm,
                ss_fragments_received = stat_fragments_received spm,
                ss_fragments_reassembled = stat_fragments_reassembled spm, ss_pool_acquires = 0,
                ss_pool_fallback_mallocs = 0\<rparr> in
          (case spm_message_pool spm of
             None \<Rightarrow> Some stats
           | Some p \<Rightarrow> do {
               pool \<leftarrow> w_pools w p;
               Some (stats\<lparr>ss_pool_fallback_mallocs := krs_message_pool_get_fallback_count (Some pool),
                           ss_pool_acquires := stat_messages_received spm\<rparr>) }))"

section \<open>Callbacks\<close>

definition s_get_descriptor :: "server_port_manager \<Rightarrow> port \<Rightarrow> desc_ref option option" where
  "s_get_descriptor spm port = do {
     r \<leftarrow> krs_lib_port_table_lookup (spm_port_table spm) port;
     Some (if ptl_exists r then ptl_socket_handler r else None) }"

text \<open>The common shape of the setters: look the descriptor up and store into it.\<close>

definition with_port_descriptor ::
    "port \<Rightarrow> (udp_socket_descriptor \<Rightarrow> udp_socket_descriptor option) \<Rightarrow> world \<Rightarrow> (void_r \<times> world) option" where
  "with_port_descriptor port f w =
     (case w_spm w of
        None \<Rightarrow> Some (krs_lib_error_result_base_w_msg KRS_ERR_NULL_POINTER ''spm is NULL'', w)
      | Some spm \<Rightarrow> do {
          d \<leftarrow> s_get_descriptor spm port;
          case d of
            None \<Rightarrow> Some (krs_lib_error_result_base_w_msg KRS_ERR_NOT_INITIALIZED ''no descriptor for port'', w)
          | Some r \<Rightarrow> do {
              desc \<leftarrow> w_descs w r;
              desc' \<leftarrow> f desc;
              Some (krs_lib_error_result_base_suc, set_desc r desc' w) } })"

definition krs_server_set_port_callback ::
    "port \<Rightarrow> callback option \<Rightarrow> user_data \<Rightarrow> world \<Rightarrow> (void_r \<times> world) option" where
  "krs_server_set_port_callback port cb ud w =
     with_port_descriptor port
       (\<lambda>desc. Some (desc\<lparr>ds_port_callback := cb, ds_port_callback_user_data := ud\<rparr>)) w"

definition krs_server_set_channel_callback ::
    "port \<Rightarrow> u8 \<Rightarrow> callback option \<Rightarrow> user_data \<Rightarrow> world \<Rightarrow> (void_r \<times> world) option" where
  "krs_server_set_channel_callback port channel cb ud w =
     (if w_spm w = None then Some (krs_lib_error_result_base_w_msg KRS_ERR_NULL_POINTER ''spm is NULL'', w)
      else if channel < 10
      then Some (krs_lib_error_result_base_w_msg KRS_ERR_INVALID_PARAMETER ''channel < 10 is reserved'', w)
      else with_port_descriptor port
             (\<lambda>desc. do {
                cbs \<leftarrow> mem_set (ds_channel_callbacks desc) (unat channel) cb;
                uds \<leftarrow> mem_set (ds_channel_callback_user_data desc) (unat channel) ud;
                Some (desc\<lparr>ds_channel_callbacks := cbs, ds_channel_callback_user_data := uds\<rparr>) }) w)"

definition krs_server_set_connect_callback ::
    "port \<Rightarrow> callback option \<Rightarrow> user_data \<Rightarrow> world \<Rightarrow> (void_r \<times> world) option" where
  "krs_server_set_connect_callback port cb ud w =
     with_port_descriptor port
       (\<lambda>desc. Some (desc\<lparr>ds_connect_callback := cb, ds_connect_callback_user_data := ud\<rparr>)) w"

definition krs_server_set_disconnect_callback ::
    "port \<Rightarrow> callback option \<Rightarrow> user_data \<Rightarrow> world \<Rightarrow> (void_r \<times> world) option" where
  "krs_server_set_disconnect_callback port cb ud w =
     with_port_descriptor port
       (\<lambda>desc. Some (desc\<lparr>ds_disconnect_callback := cb, ds_disconnect_callback_user_data := ud\<rparr>)) w"

text \<open>The loop over the channels of a range, which stops at the first error; \<open>n\<close> channels are left.\<close>

fun set_range ::
    "port \<Rightarrow> nat \<Rightarrow> nat \<Rightarrow> callback option \<Rightarrow> user_data \<Rightarrow> world \<Rightarrow> (void_r \<times> world) option" where
  "set_range port ch 0 cb ud w = Some (krs_lib_error_result_base_suc, w)"
| "set_range port ch (Suc n) cb ud w =
     do { (r, w') \<leftarrow> krs_server_set_channel_callback port (of_nat ch) cb ud w;
          if \<not> rb_valid r then Some (r, w') else set_range port (Suc ch) n cb ud w' }"

definition krs_server_set_channel_range_callback ::
    "port \<Rightarrow> u8 \<Rightarrow> u8 \<Rightarrow> callback option \<Rightarrow> user_data \<Rightarrow> world \<Rightarrow> (void_r \<times> world) option" where
  "krs_server_set_channel_range_callback port from_channel to_channel cb ud w =
     (if w_spm w = None then Some (krs_lib_error_result_base_w_msg KRS_ERR_NULL_POINTER ''spm is NULL'', w)
      else if from_channel < 10
      then Some (krs_lib_error_result_base_w_msg KRS_ERR_INVALID_PARAMETER ''from_channel < 10'', w)
      else if to_channel < from_channel
      then Some (krs_lib_error_result_base_w_msg KRS_ERR_INVALID_PARAMETER ''to_channel < from_channel'', w)
      else set_range port (unat from_channel) (Suc (unat to_channel) - unat from_channel) cb ud w)"

definition krs_server_set_delivery_failure_callback ::
    "port \<Rightarrow> callback option \<Rightarrow> user_data \<Rightarrow> world \<Rightarrow> (void_r \<times> world) option" where
  "krs_server_set_delivery_failure_callback port cb ud w =
     with_port_descriptor port
       (\<lambda>desc. Some (desc\<lparr>ds_delivery_failure_callback := cb, ds_delivery_failure_callback_user_data := ud\<rparr>)) w"


section \<open>Properties\<close>

text \<open>A descriptor is well-formed when its arrays have an element per channel.\<close>

definition desc_wf :: "udp_socket_descriptor \<Rightarrow> bool" where
  "desc_wf desc \<longleftrightarrow> length (ds_channel_states desc) = 256 \<and> length (ds_channel_callbacks desc) = 256 \<and>
     length (ds_channel_callback_user_data desc) = 256"

lemma channel_index: "unat (ch :: u8) < 256"
  using unat_less_power_u8 .

lemma set_channel_callback_spec:
  assumes "w_spm w = Some spm" and "s_get_descriptor spm port = Some (Some d)" and "w_descs w d = Some desc"
    and "desc_wf desc" and "10 \<le> channel"
  shows "krs_server_set_channel_callback port channel cb ud w =
    Some (krs_lib_error_result_base_suc,
      set_desc d (desc\<lparr>ds_channel_callbacks := (ds_channel_callbacks desc)[unat channel := cb],
                       ds_channel_callback_user_data := (ds_channel_callback_user_data desc)[unat channel := ud]\<rparr>) w)"
  using assms channel_index [of channel]
  by (simp add: krs_server_set_channel_callback_def with_port_descriptor_def mem_set_def desc_wf_def)

definition in_range :: "nat \<Rightarrow> nat \<Rightarrow> 'a list \<Rightarrow> 'a \<Rightarrow> 'a list" where
  "in_range a n xs v = map (\<lambda>i. if a \<le> i \<and> i < a + n then v else xs ! i) [0..<length xs]"

lemma in_range_Suc: "a < length xs \<Longrightarrow> in_range (Suc a) n (xs[a := v]) v = in_range a (Suc n) xs v"
  by (rule nth_equalityI) (auto simp: in_range_def nth_list_update)

lemma in_range_0: "in_range a 0 xs v = xs"
  by (rule nth_equalityI) (auto simp: in_range_def)

lemma in_range_nth:
  assumes "length xs = 256" and "unat from_ch \<le> unat to_ch"
  shows "in_range (unat from_ch) (Suc (unat to_ch) - unat from_ch) xs v ! unat (ch :: u8) =
    (if from_ch \<le> ch \<and> ch \<le> to_ch then v else xs ! unat ch)"
  using assms channel_index [of ch] by (auto simp: in_range_def word_le_nat_alt)

definition with_range :: "nat \<Rightarrow> nat \<Rightarrow> callback option \<Rightarrow> user_data \<Rightarrow> udp_socket_descriptor \<Rightarrow> udp_socket_descriptor" where
  "with_range a n cb ud desc =
     desc\<lparr>ds_channel_callbacks := in_range a n (ds_channel_callbacks desc) cb,
          ds_channel_callback_user_data := in_range a n (ds_channel_callback_user_data desc) ud\<rparr>"

lemma set_range_spec:
  assumes "w_spm w = Some spm" and "s_get_descriptor spm port = Some (Some d)" and "w_descs w d = Some desc"
    and "desc_wf desc" and "10 \<le> ch" and "ch + n \<le> 256"
  shows "set_range port ch n cb ud w = Some (krs_lib_error_result_base_suc, set_desc d (with_range ch n cb ud desc) w)"
  using assms
proof (induction n arbitrary: ch w desc)
  case 0
  then have "set_desc d desc w = w" by (simp add: set_desc_def fun_upd_idem)
  then show ?case by (simp add: with_range_def in_range_0)
next
  case (Suc n)
  have u: "unat (of_nat ch :: u8) = ch" using Suc.prems(6) by (intro unat_of_nat_small) simp
  then have ten: "(10 :: u8) \<le> of_nat ch" using Suc.prems(5) by (simp add: word_le_nat_alt)
  define desc1 where "desc1 = desc\<lparr>ds_channel_callbacks := (ds_channel_callbacks desc)[ch := cb],
                       ds_channel_callback_user_data := (ds_channel_callback_user_data desc)[ch := ud]\<rparr>"
  have step: "krs_server_set_channel_callback port (of_nat ch) cb ud w =
      Some (krs_lib_error_result_base_suc, set_desc d desc1 w)"
    using set_channel_callback_spec [OF Suc.prems(1-4) ten] by (simp add: u desc1_def)
  have "set_range port (Suc ch) n cb ud (set_desc d desc1 w) =
      Some (krs_lib_error_result_base_suc, set_desc d (with_range (Suc ch) n cb ud desc1) (set_desc d desc1 w))"
    using Suc.prems by (intro Suc.IH) (simp_all add: desc1_def desc_wf_def)
  moreover have "with_range (Suc ch) n cb ud desc1 = with_range ch (Suc n) cb ud desc"
    using Suc.prems(4,6) by (simp add: with_range_def desc1_def in_range_Suc desc_wf_def)
  ultimately show ?case using step by (simp add: krs_lib_error_result_base_suc_def)
qed

text \<open>
  Setting the callback of a range of channels stores it for exactly the channels of the range, both
  ends included, up to channel 255, and leaves every other callback; a reserved first channel or an
  empty range is an error that changes nothing.
\<close>

theorem channel_range_callback_spec:
  assumes "w_spm w = Some spm" and "s_get_descriptor spm port = Some (Some d)" and "w_descs w d = Some desc" and "desc_wf desc"
  shows "if from_ch < 10 \<or> to_ch < from_ch
    then \<exists>r. krs_server_set_channel_range_callback port from_ch to_ch cb ud w = Some (r, w) \<and>
             rb_error_code r = KRS_ERR_INVALID_PARAMETER
    else \<exists>desc'. krs_server_set_channel_range_callback port from_ch to_ch cb ud w =
             Some (krs_lib_error_result_base_suc, set_desc d desc' w) \<and>
           (\<forall>ch :: u8. ds_channel_callbacks desc' ! unat ch =
                (if from_ch \<le> ch \<and> ch \<le> to_ch then cb else ds_channel_callbacks desc ! unat ch) \<and>
              ds_channel_callback_user_data desc' ! unat ch =
                (if from_ch \<le> ch \<and> ch \<le> to_ch then ud else ds_channel_callback_user_data desc ! unat ch)) \<and>
           ds_channel_states desc' = ds_channel_states desc"
proof (cases "from_ch < 10 \<or> to_ch < from_ch")
  case True
  with assms(1) show ?thesis
    by (auto simp: krs_server_set_channel_range_callback_def krs_lib_error_result_base_w_msg_def)
next
  case False
  let ?n = "Suc (unat to_ch) - unat from_ch"
  have le: "10 \<le> unat from_ch" "unat from_ch \<le> unat to_ch" using False by (simp_all add: word_le_nat_alt not_less)
  have "set_range port (unat from_ch) ?n cb ud w =
      Some (krs_lib_error_result_base_suc, set_desc d (with_range (unat from_ch) ?n cb ud desc) w)"
  proof (rule set_range_spec [OF assms])
    show "unat from_ch + ?n \<le> 256" using channel_index [of to_ch] le by linarith
  qed (rule le)
  then have "krs_server_set_channel_range_callback port from_ch to_ch cb ud w =
      Some (krs_lib_error_result_base_suc, set_desc d (with_range (unat from_ch) ?n cb ud desc) w)"
    using False assms(1) by (simp add: krs_server_set_channel_range_callback_def)
  then show ?thesis
    using False assms(4) le
    by (auto simp: with_range_def desc_wf_def in_range_nth
        intro!: exI [of _ "with_range (unat from_ch) ?n cb ud desc"])
qed


definition sample_manager :: server_port_manager where
  "sample_manager = the (krs_server_port_manager_create
     \<lparr>ma_spm = True, ma_table = True, ma_links = True, ma_list = True, ma_cells = Some (\<lambda>_. None)\<rparr> zero_address)"

definition sample_world :: world where
  "sample_world = \<lparr>w_spm = Some sample_manager, w_descs = Map.empty, w_conns = Map.empty, w_next_connection_id = 0,
     w_pools = Map.empty, w_msgs = Map.empty, w_ctxs = Map.empty, w_wsa = \<lparr>wsa_ref_count = 0, wsa_calls = []\<rparr>\<rparr>"

theorem channel_range_callback_spec_witness:
  "\<exists>w spm desc. w_spm w = Some spm \<and> s_get_descriptor spm 80 = Some (Some 3) \<and> w_descs w 3 = Some desc \<and>
     (\<exists>desc'. krs_server_set_channel_range_callback 80 10 20 (Some 5) 6 w =
        Some (krs_lib_error_result_base_suc, set_desc 3 desc' w) \<and>
        ds_channel_callbacks desc' ! 15 = Some 5 \<and> ds_channel_callbacks desc' ! 21 = None)"
proof -
  obtain pt0 :: "desc_ref port_table" where new: "krs_lib_port_table_create True True = Some pt0"
    by (simp add: krs_lib_port_table_create_def port_table_create_def port_table_alloc_def port_links_alloc_def Let_def)
  obtain pt :: "desc_ref port_table" where pt: "pt_ok pt" "pt_map pt = (Map.empty)(80 \<mapsto> 3)"
    using pt_insert_spec [of pt0 True 80 3] pt_create_spec [OF new] by auto
  define spm where "spm = sample_manager\<lparr>spm_port_table := Some pt\<rparr>"
  define w where "w = set_desc 3 zero_descriptor (set_spm spm sample_world)"
  have w: "w_spm w = Some spm" "w_descs w 3 = Some zero_descriptor" by (simp_all add: w_def)
  have get: "s_get_descriptor spm 80 = Some (Some 3)"
    using pt_lookup_spec [OF pt(1), of 80] pt(2) by (simp add: s_get_descriptor_def spm_def)
  have wf: "desc_wf zero_descriptor" by (simp add: desc_wf_def zero_descriptor_def)
  from channel_range_callback_spec [OF w(1) get w(2) wf, of 10 20 "Some 5" 6] obtain desc' where
    d: "krs_server_set_channel_range_callback 80 10 20 (Some 5) 6 w = Some (krs_lib_error_result_base_suc, set_desc 3 desc' w)"
      "\<forall>ch :: u8. ds_channel_callbacks desc' ! unat ch =
         (if 10 \<le> ch \<and> ch \<le> 20 then Some 5 else ds_channel_callbacks zero_descriptor ! unat ch)" by auto
  have "ds_channel_callbacks desc' ! 15 = Some 5" "ds_channel_callbacks desc' ! 21 = None"
    using spec [OF d(2), of 15] spec [OF d(2), of 21] by (simp_all add: zero_descriptor_def)
  with d(1) w get show ?thesis by blast
qed

text \<open>Adding a port.\<close>

definition port_add_ok :: "port_add_alloc \<Rightarrow> desc_ref \<Rightarrow> world \<Rightarrow> bool" where
  "port_add_ok al d w \<longleftrightarrow> so_desc (pa_socket al) = Some d \<and> w_descs w d = None \<and>
     so_socket (pa_socket al) \<noteq> INVALID_SOCKET \<and> \<not> so_bind_fails (pa_socket al) \<and>
     (\<forall>p. ia_links (pa_insert al) p) \<and> ia_link (pa_insert al)"

lemma socket_create_spec:
  assumes "port_add_ok al d w"
  shows "krs_server_udp_socket_handler_create (pa_socket al) (krs_network_port_address_create port addr) w =
    ([Ev_socket (Setsockopt_dual_stack (so_socket (pa_socket al))), Ev_socket (Ioctl_connreset (so_socket (pa_socket al))),
      Ev_socket (Bind (so_socket (pa_socket al)) (krs_network_port_address_create port addr))],
     Some d, set_desc d (zero_descriptor\<lparr>ds_udp_socket_ref := so_socket (pa_socket al)\<rparr>) w)"
  using assms by (simp add: port_add_ok_def krs_server_udp_socket_handler_create_def Let_def
      krs_network_udp_socket_ref_create_def krs_network_port_address_create_def)

lemma destroy_channels_zero: "destroy_channels (replicate n zero_channel) = Some ()"
  by (induction n) (simp_all add: zero_channel_def krs_reassembler_destroy_def)

lemma destroy_fresh:
  assumes "w_descs w d = Some (zero_descriptor\<lparr>ds_udp_socket_ref := s, ds_port := p\<rparr>)"
  shows "\<exists>evs. krs_server_udp_socket_handler_destroy (Some d) w = Some (evs, w\<lparr>w_descs := (w_descs w)(d := None)\<rparr>)"
  using assms
  by (simp add: krs_server_udp_socket_handler_destroy_def zero_descriptor_def get_channel_def mem_get_def
      destroy_channels_zero) (simp add: zero_channel_def)

text \<open>
  Adding a port with a new descriptor \<open>d\<close>. When the descriptor list can take it, the call succeeds,
  the descriptor is open and in the list, and the port table finds it if the port is new; for a port
  that is already there the call also reports success, but the table keeps the older descriptor, so
  that destroying the manager never reaches the new one. When the list cannot grow the call reports the
  error after destroying the descriptor, but the port table still refers to it: the next use of the
  port, such as setting its callback, accesses freed memory.
\<close>

theorem port_add_spec:
  assumes "w_spm w = Some spm" and "spm_port_table spm = Some pt" and "pt_ok pt" and "spm_descriptor_list spm = Some a"
    and "arr_ok a" and "length (arr_vals a) < 2 ^ 31" and "port_add_ok al d w"
  shows "\<exists>r evs w'. krs_server_port_manager_port_add al port w = Some (r, evs, w') \<and>
    (if arr_length a < arr_capacity a \<or> pa_push al \<noteq> None
     then rb_valid r \<and> (\<exists>desc. w_descs w' d = Some desc \<and> ds_port desc = port \<and> desc_wf desc) \<and>
       (\<exists>spm' a'. w_spm w' = Some spm' \<and> spm_descriptor_list spm' = Some a' \<and> arr_vals a' = arr_vals a @ [d] \<and>
          s_get_descriptor spm' port = Some (case pt_map pt port of None \<Rightarrow> Some d | Some d' \<Rightarrow> Some d'))
     else rb_error_code r = KRS_ERR_MEMORY_ALLOCATION \<and> w_descs w' d = None \<and>
       (pt_map pt port = None \<longrightarrow> krs_server_set_port_callback port cb ud w' = None))"
proof -
  let ?desc = "zero_descriptor\<lparr>ds_udp_socket_ref := so_socket (pa_socket al), ds_port := port\<rparr>"
  define w1 where "w1 = set_desc d ?desc (w\<lparr>w_wsa := krs_wsa_init (w_wsa w)\<rparr>)"
  have w1: "w_descs w1 = (w_descs w)(d \<mapsto> ?desc)" by (simp add: w1_def)
  obtain pt' where pt': "krs_lib_port_table_insert (pa_insert al) (Some pt) port (Some d) = Some (Some pt')" "pt_ok pt'"
      "pt_map pt' = (if pt_map pt port = None then (pt_map pt)(port \<mapsto> d) else pt_map pt)"
    using pt_lib_insert_spec [OF assms(3), of "pa_insert al" port d] assms(7) by (auto simp: port_add_ok_def)
  have get: "s_get_descriptor m port = Some (pt_map pt' port)" if "spm_port_table m = Some pt'" for m
    using pt_lookup_spec [OF pt'(2), of port] that by (simp add: s_get_descriptor_def)
  define evs where "evs = fst (krs_server_udp_socket_handler_create (pa_socket al)
    (krs_network_port_address_create port (spm_default_address spm)) w)"
  have run: "krs_server_port_manager_port_add al port w =
      do { (r, list) \<leftarrow> krs_array_push (pa_push al) (Some a) (Some d);
           let w2 = set_spm (spm\<lparr>spm_port_table := Some pt', spm_descriptor_list := list\<rparr>) w1;
           if \<not> rb_valid r then do {
             (evs', w') \<leftarrow> krs_server_udp_socket_handler_destroy (Some d) w2;
             Some (r, evs @ evs', w'\<lparr>w_wsa := krs_wsa_cleanup (w_wsa w')\<rparr>) }
           else Some (krs_lib_error_result_base_suc, evs, w2) }"
    using assms(1,2,4) pt'(1) socket_create_spec [OF assms(7), of port "spm_default_address spm"]
      socket_create_spec [of al d "w\<lparr>w_wsa := krs_wsa_init (w_wsa w)\<rparr>" port "spm_default_address spm"] assms(7)
    by (simp add: krs_server_port_manager_port_add_def krs_server_port_manager_validate_def port_add_address_def Let_def
        w1_def evs_def port_add_ok_def cong: if_cong)
  show ?thesis
  proof (cases "arr_length a < arr_capacity a \<or> pa_push al \<noteq> None")
    case True
    obtain a' where a': "krs_array_push (pa_push al) (Some a) (Some d) = Some (krs_lib_error_result_base_suc, Some a')"
        "arr_vals a' = arr_vals a @ [d]"
    proof (rule push_vals [OF assms(5,6), of "pa_push al" d])
      assume fail: "pa_push al = None" "krs_array_push (pa_push al) (Some a) (Some d) =
        Some (krs_lib_error_result_base_w_msg KRS_ERR_MEMORY_ALLOCATION ''Failed to grow array'', Some a)"
      then have False
        using True by (auto simp: krs_array_push_def Let_def krs_lib_error_result_base_w_msg_def
            krs_lib_error_result_base_suc_def not_le [symmetric] split: Option.bind_splits)
      then show thesis by blast
    qed (use that in blast)
    let ?spm = "spm\<lparr>spm_port_table := Some pt', spm_descriptor_list := Some a'\<rparr>"
    have "krs_server_port_manager_port_add al port w = Some (krs_lib_error_result_base_suc, evs, set_spm ?spm w1)"
      using run a'(1) by (simp add: krs_lib_error_result_base_suc_def)
    moreover have "desc_wf ?desc" "ds_port ?desc = port" by (simp_all add: desc_wf_def zero_descriptor_def)
    moreover have "s_get_descriptor ?spm port = Some (case pt_map pt port of None \<Rightarrow> Some d | Some d' \<Rightarrow> Some d')"
      using get [of ?spm] pt'(3) by (simp split: option.splits)
    moreover have "rb_valid krs_lib_error_result_base_suc" by (simp add: krs_lib_error_result_base_suc_def)
    ultimately show ?thesis using True w1 a'(2) by auto
  next
    case False
    then have push: "krs_array_push (pa_push al) (Some a) (Some d) =
        Some (krs_lib_error_result_base_w_msg KRS_ERR_MEMORY_ALLOCATION ''Failed to grow array'', Some a)"
      by (simp add: krs_array_push_def Let_def not_less)
    let ?w2 = "set_spm (spm\<lparr>spm_port_table := Some pt', spm_descriptor_list := Some a\<rparr>) w1"
    have "w_descs ?w2 d = Some ?desc" by (simp add: w1)
    from destroy_fresh [OF this] obtain evs where
      "krs_server_udp_socket_handler_destroy (Some d) ?w2 = Some (evs, ?w2\<lparr>w_descs := (w_descs ?w2)(d := None)\<rparr>)" by blast
    then show ?thesis
      using False run push get [of "spm\<lparr>spm_port_table := Some pt', spm_descriptor_list := Some a\<rparr>"] pt'(3)
      by (auto simp: krs_lib_error_result_base_w_msg_def krs_server_set_port_callback_def with_port_descriptor_def)
  qed
qed


lemma sample_manager_ok:
  "spm_port_table sample_manager = krs_lib_port_table_create True True"
  "spm_descriptor_list sample_manager = Some \<lparr>arr_items = replicate 8 None, arr_length = 0, arr_capacity = 8\<rparr>"
  by (simp_all add: sample_manager_def krs_server_port_manager_create_def krs_lib_port_table_create_def port_table_create_def
      port_table_alloc_def port_links_alloc_def krs_array_create_def Let_def map_replicate_const)

definition sample_port_add :: port_add_alloc where
  "sample_port_add = \<lparr>pa_socket = \<lparr>so_desc = Some 3, so_socket = 77, so_bind_fails = False\<rparr>,
     pa_insert = \<lparr>ia_table = True, ia_links = (\<lambda>_. True), ia_link = True\<rparr>, pa_push = None\<rparr>"

theorem port_add_spec_witness:
  "\<exists>r evs w' spm'. krs_server_port_manager_port_add sample_port_add 80 sample_world = Some (r, evs, w') \<and> rb_valid r \<and>
     w_spm w' = Some spm' \<and> s_get_descriptor spm' 80 = Some (Some 3)"
proof -
  obtain pt where pt: "krs_lib_port_table_create True True = Some (pt :: desc_ref port_table)" "pt_ok pt" "pt_map pt = Map.empty"
    using pt_create_spec by (auto simp: krs_lib_port_table_create_def port_table_create_def port_table_alloc_def
        port_links_alloc_def Let_def)
  let ?a = "\<lparr>arr_items = replicate 8 None, arr_length = 0, arr_capacity = 8\<rparr> :: desc_ref krs_array"
  have a: "arr_ok ?a" "arr_vals ?a = []" by (simp_all add: arr_ok_def arr_wf_def arr_list_def arr_vals_def)
  have ok: "port_add_ok sample_port_add 3 sample_world"
    by (simp add: port_add_ok_def sample_port_add_def sample_world_def)
  have "w_spm sample_world = Some sample_manager" by (simp add: sample_world_def)
  from port_add_spec [OF this _ pt(2) sample_manager_ok(2) a(1) _ ok, of 80] sample_manager_ok(1) pt a(2)
  show ?thesis by auto
qed

end
