(* ===== verification/Kronos_Server_Handler.thy ===== *)
theory Kronos_Server_Handler
  imports Kronos_Server
begin

text \<open>
  The protocol threads of the server: \<open>server_connection_handler.c\<close> and \<open>message_handler.c\<close>. A handler
  is a function on the \<open>world\<close>; \<open>None\<close> is undefined behaviour, such as the use of a freed connection.
  Each handler is the sequential execution of its body; the locks it takes are not part of the state.
\<close>

section \<open>Loops over connections\<close>

text \<open>
  The search loop: the first connection of an array that satisfies a predicate. It reads each
  connection it visits.
\<close>

fun find_conn ::
    "conn_store \<Rightarrow> (client_connection \<Rightarrow> bool) \<Rightarrow> conn_ref krs_array \<Rightarrow> nat \<Rightarrow> nat \<Rightarrow> conn_ref option option" where
  "find_conn cs P conns i 0 = Some None"
| "find_conn cs P conns i (Suc n) =
     do { x \<leftarrow> array_at conns i;
          case x of
            None \<Rightarrow> find_conn cs P conns (Suc i) n
          | Some r \<Rightarrow> do { c \<leftarrow> cs r; if P c then Some (Some r) else find_conn cs P conns (Suc i) n } }"

definition arr_rounds :: "'a krs_array \<Rightarrow> nat" where
  "arr_rounds a = unat (krs_array_length (Some a))"

text \<open>
  The downward loop that removes connections from an array and remembers them. \<open>body\<close> decides for one
  connection and the connections remembered so far.
\<close>

fun sweep_conns ::
    "(conn_ref \<Rightarrow> conn_ref list \<Rightarrow> (bool \<times> conn_ref list) option) \<Rightarrow> nat \<Rightarrow> conn_ref krs_array \<Rightarrow> conn_ref list \<Rightarrow>
     (conn_ref krs_array \<times> conn_ref list) option" where
  "sweep_conns body 0 conns orphans = Some (conns, orphans)"
| "sweep_conns body (Suc i) conns orphans =
     do { x \<leftarrow> array_at conns i;
          case x of
            None \<Rightarrow> sweep_conns body i conns orphans
          | Some c \<Rightarrow> do {
              (drp, orphans') \<leftarrow> body c orphans;
              if drp then do { conns' \<leftarrow> array_drop conns i; sweep_conns body i conns' orphans' }
              else sweep_conns body i conns orphans' } }"

text \<open>The loop over the channels around it.\<close>

fun sweep_channels ::
    "(conn_ref \<Rightarrow> conn_ref list \<Rightarrow> (bool \<times> conn_ref list) option) \<Rightarrow> channel_state list \<Rightarrow> conn_ref list \<Rightarrow>
     (channel_state list \<times> conn_ref list) option" where
  "sweep_channels body [] orphans = Some ([], orphans)"
| "sweep_channels body (st # sts) orphans =
     do { (st', orphans') \<leftarrow> (case ch_connections st of
            None \<Rightarrow> Some (st, orphans)
          | Some conns \<Rightarrow> do {
              (conns', os) \<leftarrow> sweep_conns body (arr_rounds conns) conns orphans;
              Some (st\<lparr>ch_connections := Some conns'\<rparr>, os) });
          (sts', os) \<leftarrow> sweep_channels body sts orphans';
          Some (st' # sts', os) }"

text \<open>Remembering a connection once, in an array of \<open>MAX_EVICTIONS_PER_CYCLE\<close>.\<close>

definition track_orphan :: "conn_ref \<Rightarrow> conn_ref list \<Rightarrow> conn_ref list" where
  "track_orphan c orphans =
     (if c \<notin> set orphans \<and> length orphans < MAX_EVICTIONS_PER_CYCLE then orphans @ [c] else orphans)"

section \<open>Sending\<close>

text \<open>
  \<open>s_send_frame\<close>: \<open>alloc\<close> is the allocation of the builder, \<open>junk\<close> the initial contents of the buffer.
\<close>

definition s_send_frame ::
    "bool \<Rightarrow> bytes \<Rightarrow> socket \<Rightarrow> port_address option \<Rightarrow> u8 \<Rightarrow> frame_type_e \<Rightarrow> bytes option \<Rightarrow> u16 \<Rightarrow> event list option" where
  "s_send_frame alloc junk sock addr channel type body body_len =
     (case krs_frame_builder_create alloc channel type of
        None \<Rightarrow> Some []
      | Some b \<Rightarrow> do {
          let b = (if body \<noteq> None \<and> body_len > 0 then krs_frame_builder_set_data (Some b) body body_len else Some b);
          (n, buf) \<leftarrow> krs_frame_builder_serialize b (Some junk) (of_nat KRONOS_BUFFER_SIZE);
          if n = 0 then Some []
          else do { ds \<leftarrow> krs_net_send_frame sock addr buf n; Some (map Ev_send ds) } })"

definition s_send_ack_response ::
    "bool \<Rightarrow> bytes \<Rightarrow> udp_socket_descriptor \<Rightarrow> port_address option \<Rightarrow> u8 \<Rightarrow> u64 \<Rightarrow> event list option" where
  "s_send_ack_response alloc junk desc remote_addr channel packet_id =
     (case krs_frame_builder_create alloc channel MESSAGE_ACK of
        None \<Rightarrow> Some []
      | Some b \<Rightarrow> do {
          (n, buf) \<leftarrow> krs_frame_builder_serialize (krs_frame_builder_set_packet_id (Some b) packet_id) (Some junk) 64;
          if n = 0 then Some []
          else do { ds \<leftarrow> krs_net_send_frame (ds_udp_socket_ref desc) remote_addr buf n; Some (map Ev_send ds) } })"

section \<open>Connections\<close>

definition s_generate_connection_id :: "world \<Rightarrow> u32 \<times> world" where
  "s_generate_connection_id w =
     (let i = w_next_connection_id w + 1 in (i, w\<lparr>w_next_connection_id := i\<rparr>))"

text \<open>The outcomes of the allocations of the handlers, and the contents of their buffers.\<close>

record handler_alloc =
  ha_array :: bool
  ha_cells :: "conn_ref cells"
  ha_conn :: "conn_ref option"
  ha_push :: "conn_ref cells"
  ha_ids :: bool
  ha_addrs :: bool
  ha_builder :: bool
  ha_buf :: bytes
  ha_ack_buf :: bytes
  ha_reassembler :: bool
  ha_sessions :: bool
  ha_session_cells :: "fragment_session cells"
  ha_feed :: feed_alloc

text \<open>The four bytes of a connection identifier.\<close>

definition id_body :: "u32 \<Rightarrow> bytes" where
  "id_body i = [ucast (drop_bit 24 i AND 0xFF), ucast (drop_bit 16 i AND 0xFF), ucast (drop_bit 8 i AND 0xFF),
     ucast (i AND 0xFF)]"

text \<open>A new connection as it is before it is registered.\<close>

definition new_connection :: "u32 \<Rightarrow> port_address \<Rightarrow> u64 \<Rightarrow> client_connection" where
  "new_connection i addr now =
     \<lparr>cn_connection_id = i, cn_remote_address = addr, cn_last_heartbeat_ms = now, cn_congestion = None,
      cn_ack_tracker = None, cn_refcount = 1\<rparr>"

definition same_address :: "port_address \<Rightarrow> client_connection \<Rightarrow> bool" where
  "same_address addr c = krs_network_port_address_equals (Some (cn_remote_address c)) (Some addr)"

text \<open>The arm for a connection that exists already.\<close>

definition reconnect ::
    "handler_alloc \<Rightarrow> u64 \<Rightarrow> udp_socket_descriptor \<Rightarrow> conn_ref \<Rightarrow> port_address \<Rightarrow> world \<Rightarrow> (event list \<times> world) option" where
  "reconnect al now desc r addr w = do {
     c \<leftarrow> w_conns w r;
     evs \<leftarrow> s_send_frame (ha_builder al) (ha_buf al) (ds_udp_socket_ref desc) (Some addr) 0 SOCKET_ACK
              (Some (id_body (cn_connection_id c))) 4;
     Some (evs, set_conn r (c\<lparr>cn_last_heartbeat_ms := now\<rparr>) w) }"

text \<open>The arm for a new connection, with the connection array of channel 0 as it is then.\<close>

definition connect_new ::
    "handler_alloc \<Rightarrow> u64 \<Rightarrow> desc_ref \<Rightarrow> udp_socket_descriptor \<Rightarrow> channel_state \<Rightarrow> port_address \<Rightarrow> world \<Rightarrow>
     (event list \<times> world) option" where
  "connect_new al now d desc state addr w =
     (case ha_conn al of
        None \<Rightarrow> Some ([], w)
      | Some r \<Rightarrow>
          let (i, w) = s_generate_connection_id w;
              conn = new_connection i addr now in
          (case ch_connections state of
             None \<Rightarrow> Some ([], w)
           | Some conns \<Rightarrow> do {
               (res, conns') \<leftarrow> krs_array_push (ha_push al) (Some conns) (Some r);
               if rb_error_code res \<noteq> KRS_SUCCESS then Some ([], w)
               else do {
                 desc' \<leftarrow> set_channel 0 (state\<lparr>ch_connections := conns'\<rparr>) desc;
                 let w = set_conn r conn (set_desc d desc' w);
                 spm \<leftarrow> w_spm w;
                 w \<leftarrow> (case spm_connection_map spm of
                        None \<Rightarrow> Some w
                      | Some m \<Rightarrow> do {
                          m' \<leftarrow> krs_connection_map_put (w_conns w) (ha_ids al) (ha_addrs al) (Some m) i (Some d) r;
                          Some (set_spm (spm\<lparr>spm_connection_map := m'\<rparr>) w) });
                 evs \<leftarrow> s_send_frame (ha_builder al) (ha_buf al) (ds_udp_socket_ref desc) (Some addr) 0 SOCKET_ACK
                          (Some (id_body i)) 4;
                 Some (evs @ (case ds_connect_callback desc of
                                None \<Rightarrow> []
                              | Some cb \<Rightarrow> [Ev_connect cb i 0 (ds_connect_callback_user_data desc)]), w) } }))"

definition krs_server_handle_connection_frame ::
    "handler_alloc \<Rightarrow> u64 \<Rightarrow> desc_ref option \<Rightarrow> krs_frame option \<Rightarrow> port_address option \<Rightarrow> world \<Rightarrow>
     (event list \<times> world) option" where
  "krs_server_handle_connection_frame al now descriptor frame remote_addr w =
     (case (w_spm w, descriptor, frame, remote_addr) of
        (Some spm, Some d, Some f, Some addr) \<Rightarrow> do {
          desc \<leftarrow> w_descs w d;
          state \<leftarrow> get_channel desc 0;
          let state = (if ch_connections state = None
                       then state\<lparr>ch_connections := krs_array_create (ha_array al) (ha_cells al) 8\<rparr> else state);
          desc \<leftarrow> set_channel 0 state desc;
          let w = set_desc d desc w;
          existing \<leftarrow> (case ch_connections state of
                         None \<Rightarrow> Some None
                       | Some conns \<Rightarrow> find_conn (w_conns w) (same_address addr) conns 0 (arr_rounds conns));
          case existing of
            Some r \<Rightarrow> reconnect al now desc r addr w
          | None \<Rightarrow> connect_new al now d desc state addr w }
      | _ \<Rightarrow> Some ([], w))"

text \<open>The two loops of the heartbeat.\<close>

fun touch_conns :: "u64 \<Rightarrow> port_address \<Rightarrow> conn_ref krs_array \<Rightarrow> nat \<Rightarrow> nat \<Rightarrow> conn_store \<Rightarrow> conn_store option" where
  "touch_conns now addr conns i 0 cs = Some cs"
| "touch_conns now addr conns i (Suc n) cs =
     do { x \<leftarrow> array_at conns i;
          case x of
            None \<Rightarrow> touch_conns now addr conns (Suc i) n cs
          | Some r \<Rightarrow> do {
              c \<leftarrow> cs r;
              touch_conns now addr conns (Suc i) n
                (if same_address addr c then cs(r \<mapsto> c\<lparr>cn_last_heartbeat_ms := now\<rparr>) else cs) } }"

fun touch_channels :: "u64 \<Rightarrow> port_address \<Rightarrow> channel_state list \<Rightarrow> conn_store \<Rightarrow> conn_store option" where
  "touch_channels now addr [] cs = Some cs"
| "touch_channels now addr (st # sts) cs =
     do { cs' \<leftarrow> (case ch_connections st of
                    None \<Rightarrow> Some cs
                  | Some conns \<Rightarrow> touch_conns now addr conns 0 (arr_rounds conns) cs);
          touch_channels now addr sts cs' }"

definition krs_server_handle_heartbeat_frame ::
    "u64 \<Rightarrow> desc_ref option \<Rightarrow> krs_frame option \<Rightarrow> port_address option \<Rightarrow> world \<Rightarrow> (event list \<times> world) option" where
  "krs_server_handle_heartbeat_frame now descriptor frame remote_addr w =
     (case (descriptor, frame, remote_addr) of
        (Some d, Some f, Some addr) \<Rightarrow> do {
          desc \<leftarrow> w_descs w d;
          cs \<leftarrow> touch_channels now addr (ds_channel_states desc) (w_conns w);
          Some ([], w\<lparr>w_conns := cs\<rparr>) }
      | _ \<Rightarrow> Some ([], w))"

section \<open>Evictions\<close>

fun read_ids :: "conn_store \<Rightarrow> conn_ref list \<Rightarrow> u32 list option" where
  "read_ids cs [] = Some []"
| "read_ids cs (r # rs) = do { c \<leftarrow> cs r; ids \<leftarrow> read_ids cs rs; Some (cn_connection_id c # ids) }"

fun remove_ids :: "conn_store \<Rightarrow> u32 list \<Rightarrow> connection_map option \<Rightarrow> connection_map option option" where
  "remove_ids cs [] m = Some m"
| "remove_ids cs (i # ids) m = do { m' \<leftarrow> krs_connection_map_remove cs m i; remove_ids cs ids m' }"

fun release_all :: "conn_ref list \<Rightarrow> conn_store \<Rightarrow> conn_store option" where
  "release_all [] cs = Some cs"
| "release_all (r # rs) cs = do { cs' \<leftarrow> krs_connection_map_release cs (Some r); release_all rs cs' }"

text \<open>The array \<open>evicted_ids\<close> has \<open>MAX_EVICTIONS_PER_CYCLE\<close> elements.\<close>

definition krs_server_finalize_orphan_evictions ::
    "udp_socket_descriptor \<Rightarrow> conn_ref list \<Rightarrow> world \<Rightarrow> (event list \<times> world) option" where
  "krs_server_finalize_orphan_evictions desc unique_orphans w =
     (if unique_orphans = [] then Some ([], w)
      else if length unique_orphans > MAX_EVICTIONS_PER_CYCLE then None
      else do {
        evicted_ids \<leftarrow> read_ids (w_conns w) unique_orphans;
        spm \<leftarrow> w_spm w;
        m \<leftarrow> (case spm_connection_map spm of
                None \<Rightarrow> Some None
              | Some m \<Rightarrow> remove_ids (w_conns w) evicted_ids (Some m));
        cs \<leftarrow> release_all unique_orphans (w_conns w);
        let spm = spm\<lparr>spm_connection_map := m,
                      stat_disconnections := stat_disconnections spm + of_nat (length unique_orphans)\<rparr>;
        Some ((case ds_disconnect_callback desc of
                 None \<Rightarrow> []
               | Some cb \<Rightarrow> map (\<lambda>i. Ev_disconnect cb i 0 (ds_disconnect_callback_user_data desc)) evicted_ids),
              (set_spm spm w)\<lparr>w_conns := cs\<rparr>) })"

definition disconnect_body ::
    "conn_store \<Rightarrow> port_address \<Rightarrow> conn_ref \<Rightarrow> conn_ref list \<Rightarrow> (bool \<times> conn_ref list) option" where
  "disconnect_body cs addr r orphans = do {
     c \<leftarrow> cs r;
     Some (if same_address addr c then (True, track_orphan r orphans) else (False, orphans)) }"

section \<open>Dispatching\<close>

definition s_dispatch_connection ::
    "handler_alloc \<Rightarrow> u64 \<Rightarrow> desc_ref \<Rightarrow> krs_frame \<Rightarrow> port_address \<Rightarrow> world \<Rightarrow> (event list \<times> world) option" where
  "s_dispatch_connection al now d frame remote_addr w = do {
     (evs, w) \<leftarrow> krs_server_handle_connection_frame al now (Some d) (Some frame) (Some remote_addr) w;
     spm \<leftarrow> w_spm w;
     Some (evs, set_spm (spm\<lparr>stat_connections_total := stat_connections_total spm + 1\<rparr>) w) }"

definition s_dispatch_heartbeat ::
    "u64 \<Rightarrow> desc_ref \<Rightarrow> krs_frame \<Rightarrow> port_address \<Rightarrow> world \<Rightarrow> (event list \<times> world) option" where
  "s_dispatch_heartbeat now d frame remote_addr w =
     krs_server_handle_heartbeat_frame now (Some d) (Some frame) (Some remote_addr) w"

definition s_dispatch_disconnect ::
    "desc_ref \<Rightarrow> port_address \<Rightarrow> world \<Rightarrow> (event list \<times> world) option" where
  "s_dispatch_disconnect d remote_addr w = do {
     desc \<leftarrow> w_descs w d;
     (sts, orphans) \<leftarrow> sweep_channels (disconnect_body (w_conns w) remote_addr) (ds_channel_states desc) [];
     let desc = desc\<lparr>ds_channel_states := sts\<rparr>;
     krs_server_finalize_orphan_evictions desc orphans (set_desc d desc w) }"

text \<open>The connection an acknowledgement belongs to, by the remote address.\<close>

definition ack_connection :: "connection_map \<Rightarrow> port_address \<Rightarrow> conn_ref option option" where
  "ack_connection m remote_addr = do {
     conn_id \<leftarrow> krs_connection_map_get_by_address (Some m) (Some remote_addr);
     entry \<leftarrow> (if conn_id \<noteq> 0 then krs_connection_map_get (Some m) conn_id else Some None);
     Some (case entry of None \<Rightarrow> None | Some e \<Rightarrow> snd (sl_val e)) }"

text \<open>The tracker, then the controller, then the timeout of the tracker.\<close>

definition ack_received :: "u64 \<Rightarrow> krs_frame \<Rightarrow> client_connection \<Rightarrow> client_connection option" where
  "ack_received now frame c = do {
     (rtt_ms, tracker) \<leftarrow> (case cn_ack_tracker c of
        None \<Rightarrow> Some (- 1, None)
      | Some t \<Rightarrow> krs_ack_tracker_receive_rtt now (Some t) (frame_packet_id frame) (frame_channel frame));
     let c = c\<lparr>cn_ack_tracker := tracker\<rparr>;
     if rtt_ms \<ge> 0 \<and> cn_congestion c \<noteq> None then do {
       let cc = krs_congestion_on_ack (cn_congestion c) rtt_ms;
       new_timeout \<leftarrow> u32_of_double (krs_congestion_get_rto cc);
       Some (c\<lparr>cn_congestion := cc, cn_ack_tracker := krs_ack_tracker_set_timeout (cn_ack_tracker c) new_timeout\<rparr>) }
     else Some c }"

definition s_dispatch_ack ::
    "u64 \<Rightarrow> krs_frame \<Rightarrow> port_address \<Rightarrow> world \<Rightarrow> (event list \<times> world) option" where
  "s_dispatch_ack now frame remote_addr w = do {
     spm \<leftarrow> w_spm w;
     let spm = spm\<lparr>stat_ack_received := stat_ack_received spm + 1\<rparr>;
     let w = set_spm spm w;
     case spm_connection_map spm of
       None \<Rightarrow> Some ([], w)
     | Some m \<Rightarrow> do {
         conn \<leftarrow> ack_connection m remote_addr;
         case conn of
           None \<Rightarrow> Some ([], w)
         | Some r \<Rightarrow> do {
             c \<leftarrow> w_conns w r;
             c' \<leftarrow> ack_received now frame c;
             Some ([], set_conn r c' w) } } }"

definition s_find_conn_on_channel0_unlocked ::
    "conn_store \<Rightarrow> udp_socket_descriptor \<Rightarrow> port_address \<Rightarrow> conn_ref option option" where
  "s_find_conn_on_channel0_unlocked cs desc remote_addr = do {
     st \<leftarrow> get_channel desc 0;
     case ch_connections st of
       None \<Rightarrow> Some None
     | Some ch0 \<Rightarrow> find_conn cs (same_address remote_addr) ch0 0 (arr_rounds ch0) }"

text \<open>The index of a connection in an array, compared as a pointer.\<close>

definition conn_index :: "conn_ref krs_array \<Rightarrow> conn_ref \<Rightarrow> nat option option" where
  "conn_index arr needle = find_loop array_at (\<lambda>c. c = needle) arr 0 (arr_rounds arr)"

definition s_array_contains_conn_unlocked :: "conn_ref krs_array option \<Rightarrow> conn_ref \<Rightarrow> bool option" where
  "s_array_contains_conn_unlocked arr needle =
     (case arr of
        None \<Rightarrow> Some False
      | Some a \<Rightarrow> do { i \<leftarrow> conn_index a needle; Some (i \<noteq> None) })"

definition s_dispatch_subscribe ::
    "handler_alloc \<Rightarrow> desc_ref \<Rightarrow> krs_frame \<Rightarrow> port_address \<Rightarrow> world \<Rightarrow> (event list \<times> world) option" where
  "s_dispatch_subscribe al d frame remote_addr w =
     (if frame_body frame = None \<or> frame_body_length frame < 1 then Some ([], w)
      else do {
        body \<leftarrow> frame_body frame;
        target_ch \<leftarrow> mem_get body 0;
        if target_ch < 10 \<or> unat target_ch > MAX_CHANNEL_NUMBER then Some ([], w)
        else do {
          desc \<leftarrow> w_descs w d;
          conn \<leftarrow> s_find_conn_on_channel0_unlocked (w_conns w) desc remote_addr;
          (committed, desc) \<leftarrow> (case conn of
             None \<Rightarrow> Some (False, desc)
           | Some r \<Rightarrow> do {
               st \<leftarrow> get_channel desc target_ch;
               let conns = (if ch_connections st = None then krs_array_create (ha_array al) (ha_cells al) 8
                            else ch_connections st);
               there \<leftarrow> s_array_contains_conn_unlocked conns r;
               (committed, conns) \<leftarrow> (if conns \<noteq> None \<and> there then Some (True, conns)
                 else if conns = None then Some (False, conns)
                 else do {
                   (res, conns') \<leftarrow> krs_array_push (ha_push al) conns (Some r);
                   Some (rb_error_code res = KRS_SUCCESS, conns') });
               desc' \<leftarrow> set_channel target_ch (st\<lparr>ch_connections := conns\<rparr>) desc;
               Some (committed, desc') });
          let w = set_desc d desc w;
          if \<not> committed then Some ([], w)
          else if has_flag (frame_presence_flags frame) META_FLAG_ACK_REQUIRED then do {
            evs \<leftarrow> s_send_ack_response (ha_builder al) (ha_ack_buf al) desc (Some remote_addr) 0 (frame_packet_id frame);
            Some (evs, w) }
          else Some ([], w) } })"

definition s_dispatch_unsubscribe ::
    "handler_alloc \<Rightarrow> desc_ref \<Rightarrow> krs_frame \<Rightarrow> port_address \<Rightarrow> world \<Rightarrow> (event list \<times> world) option" where
  "s_dispatch_unsubscribe al d frame remote_addr w =
     (if frame_body frame = None \<or> frame_body_length frame < 1 then Some ([], w)
      else do {
        body \<leftarrow> frame_body frame;
        target_ch \<leftarrow> mem_get body 0;
        if target_ch < 10 \<or> unat target_ch > MAX_CHANNEL_NUMBER then Some ([], w)
        else do {
          desc \<leftarrow> w_descs w d;
          conn \<leftarrow> s_find_conn_on_channel0_unlocked (w_conns w) desc remote_addr;
          desc \<leftarrow> (case conn of
             None \<Rightarrow> Some desc
           | Some r \<Rightarrow> do {
               st \<leftarrow> get_channel desc target_ch;
               case ch_connections st of
                 None \<Rightarrow> Some desc
               | Some target \<Rightarrow> do {
                   i \<leftarrow> conn_index target r;
                   case i of
                     None \<Rightarrow> Some desc
                   | Some i \<Rightarrow> do {
                       target' \<leftarrow> array_drop target i;
                       set_channel target_ch (st\<lparr>ch_connections := Some target'\<rparr>) desc } } });
          let w = set_desc d desc w;
          if has_flag (frame_presence_flags frame) META_FLAG_ACK_REQUIRED then do {
            evs \<leftarrow> s_send_ack_response (ha_builder al) (ha_ack_buf al) desc (Some remote_addr) 0 (frame_packet_id frame);
            Some (evs, w) }
          else Some ([], w) } })"

text \<open>
  An application frame, first part: the data to deliver, its length and whether an acknowledgement is
  wanted; \<open>None\<close> when there is nothing to deliver yet.
\<close>

definition app_payload ::
    "handler_alloc \<Rightarrow> u64 \<Rightarrow> desc_ref \<Rightarrow> krs_frame \<Rightarrow> world \<Rightarrow>
     ((bytes option \<times> u16 \<times> bool) option \<times> world) option" where
  "app_payload al now d frame w =
     (if \<not> has_flag (frame_presence_flags frame) META_FLAG_FRAGMENT_INFO
      then Some (Some (frame_body frame, frame_body_length frame,
                       has_flag (frame_presence_flags frame) META_FLAG_ACK_REQUIRED), w)
      else do {
        spm \<leftarrow> w_spm w;
        let spm = spm\<lparr>stat_fragments_received := stat_fragments_received spm + 1\<rparr>;
        let w = set_spm spm w;
        desc \<leftarrow> w_descs w d;
        st \<leftarrow> get_channel desc (frame_channel frame);
        let st = (if ch_reassembler st = None
                  then st\<lparr>ch_reassembler := krs_reassembler_create (ha_reassembler al) (ha_sessions al) (ha_session_cells al)\<rparr>
                  else st);
        if ch_reassembler st = None then do {
          desc \<leftarrow> set_channel (frame_channel frame) st desc;
          Some (None, set_desc d desc w) }
        else do {
          (reassembly, re) \<leftarrow> krs_reassembler_feed (ha_feed al) now (ch_reassembler st) (Some frame);
          desc \<leftarrow> set_channel (frame_channel frame) (st\<lparr>ch_reassembler := re\<rparr>) desc;
          let w = set_desc d desc w;
          if \<not> rr_complete reassembly then Some (None, w)
          else Some (Some (rr_data reassembly, ucast (rr_data_length reassembly), rr_ack_required reassembly),
                     set_spm (spm\<lparr>stat_fragments_reassembled := stat_fragments_reassembled spm + 1\<rparr>) w) } })"

text \<open>Second part: acknowledge, find the subscription, call the callback.\<close>

definition app_deliver ::
    "handler_alloc \<Rightarrow> desc_ref \<Rightarrow> krs_frame \<Rightarrow> port_address \<Rightarrow> bytes option \<Rightarrow> u16 \<Rightarrow> bool \<Rightarrow> world \<Rightarrow>
     (event list \<times> world) option" where
  "app_deliver al d frame remote_addr callback_data callback_data_length ack_required w = do {
     desc \<leftarrow> w_descs w d;
     (acks, w) \<leftarrow> (if ack_required then do {
          evs \<leftarrow> s_send_ack_response (ha_builder al) (ha_ack_buf al) desc (Some remote_addr) (frame_channel frame)
                   (frame_packet_id frame);
          spm \<leftarrow> w_spm w;
          Some (evs, set_spm (spm\<lparr>stat_ack_sent := stat_ack_sent spm + 1\<rparr>) w) }
        else Some ([], w));
     st \<leftarrow> get_channel desc (frame_channel frame);
     sub \<leftarrow> (case ch_connections st of
              None \<Rightarrow> Some None
            | Some subs \<Rightarrow> find_conn (w_conns w) (same_address remote_addr) subs 0 (arr_rounds subs));
     case sub of
       None \<Rightarrow> Some (acks, w)
     | Some r \<Rightarrow> do {
         c \<leftarrow> w_conns w r;
         cb \<leftarrow> mem_get (ds_channel_callbacks desc) (unat (frame_channel frame));
         ud \<leftarrow> mem_get (ds_channel_callback_user_data desc) (unat (frame_channel frame));
         let (cb, ud) = (if cb = None then (ds_port_callback desc, ds_port_callback_user_data desc) else (cb, ud));
         Some (acks @ (case cb of
                         None \<Rightarrow> []
                       | Some f \<Rightarrow> [Ev_message f (frame_channel frame) (cn_connection_id c) callback_data
                                      callback_data_length ud]), w) } }"

definition s_dispatch_app_frame ::
    "handler_alloc \<Rightarrow> u64 \<Rightarrow> desc_ref \<Rightarrow> krs_frame \<Rightarrow> port_address \<Rightarrow> world \<Rightarrow> (event list \<times> world) option" where
  "s_dispatch_app_frame al now d frame remote_addr w = do {
     (payload, w) \<leftarrow> app_payload al now d frame w;
     case payload of
       None \<Rightarrow> Some ([], w)
     | Some (data, len, ack_required) \<Rightarrow> app_deliver al d frame remote_addr data len ack_required w }"

definition s_route_frame ::
    "handler_alloc \<Rightarrow> u64 \<Rightarrow> desc_ref \<Rightarrow> krs_frame \<Rightarrow> port_address \<Rightarrow> world \<Rightarrow> (event list \<times> world) option" where
  "s_route_frame al now d frame remote_addr w =
     (if frame_channel frame = 0 \<and> frame_frame_type frame = frame_type_code CONNECTION
      then s_dispatch_connection al now d frame remote_addr w
      else if frame_channel frame = 1 \<and> frame_frame_type frame = frame_type_code HEARTBEAT
      then s_dispatch_heartbeat now d frame remote_addr w
      else if frame_channel frame = 0 \<and> frame_frame_type frame = frame_type_code DISCONNECT
      then s_dispatch_disconnect d remote_addr w
      else if frame_channel frame = 0 \<and> frame_frame_type frame = frame_type_code SUBSCRIBE
      then s_dispatch_subscribe al d frame remote_addr w
      else if frame_channel frame = 0 \<and> frame_frame_type frame = frame_type_code UNSUBSCRIBE
      then s_dispatch_unsubscribe al d frame remote_addr w
      else if frame_frame_type frame = frame_type_code MESSAGE_ACK
      then s_dispatch_ack now frame remote_addr w
      else if frame_frame_type frame \<noteq> frame_type_code BASIC_MESSAGE then Some ([], w)
      else if 2 \<le> frame_channel frame \<and> frame_channel frame \<le> 9 then Some ([], w)
      else if frame_channel frame \<ge> 10 then s_dispatch_app_frame al now d frame remote_addr w
      else Some ([], w))"

section \<open>The handler thread\<close>

text \<open>Giving a message back; a message that did not come from the storage of the pool is freed.\<close>

definition release_message :: "msg_ptr \<Rightarrow> world \<Rightarrow> world option" where
  "release_message msg w = do {
     spm \<leftarrow> w_spm w;
     (ps, freed) \<leftarrow> release_to (w_pools w) (spm_message_pool spm) msg;
     Some (w\<lparr>w_pools := ps, w_msgs := (case freed of None \<Rightarrow> w_msgs w | Some x \<Rightarrow> (w_msgs w)(x := None))\<rparr>) }"

text \<open>What a handler thread does with a message it has popped; \<open>body_buf\<close> is its buffer on the stack.\<close>

definition handle_message ::
    "handler_alloc \<Rightarrow> bytes \<Rightarrow> u64 \<Rightarrow> msg_ptr \<Rightarrow> world \<Rightarrow> (event list \<times> world) option" where
  "handle_message al body_buf now msg w = do {
     spm \<leftarrow> w_spm w;
     m \<leftarrow> w_msgs w msg;
     lookup \<leftarrow> krs_lib_port_table_lookup (spm_port_table spm) (im_port m);
     if \<not> ptl_exists lookup then do { w \<leftarrow> release_message msg w; Some ([], w) }
     else do {
       d \<leftarrow> ptl_socket_handler lookup;
       frame \<leftarrow> krs_frame_create (Some (im_data m)) (ucast (im_data_length m)) (Some body_buf) (of_nat KRONOS_BUFFER_SIZE);
       if frame_protocol_char frame \<noteq> 0x4B then do { w \<leftarrow> release_message msg w; Some ([], w) }
       else if frame_body_length frame > 0 \<and> frame_body frame = None
       then do { w \<leftarrow> release_message msg w; Some ([], w) }
       else do {
         let w = set_spm (spm\<lparr>stat_messages_received := stat_messages_received spm + 1\<rparr>) w;
         (evs, w) \<leftarrow> s_route_frame al now d frame (im_remote_address m) w;
         w \<leftarrow> release_message msg w;
         Some (evs, w) } } }"

text \<open>One round of the loop of \<open>krs_server_message_handler_thread\<close>.\<close>

definition message_handler_round ::
    "handler_alloc \<Rightarrow> bytes \<Rightarrow> u64 \<Rightarrow> (bool \<times> message_queue) list \<Rightarrow> world \<Rightarrow> (event list \<times> world) option" where
  "message_handler_round al body_buf now wakes w = do {
     spm \<leftarrow> w_spm w;
     (out, q) \<leftarrow> krs_message_queue_pop (spm_message_queue spm) wakes;
     let w = set_spm (spm\<lparr>spm_message_queue := q\<rparr>) w;
     case out of
       Popped msg \<Rightarrow> handle_message al body_buf now msg w
     | _ \<Rightarrow> Some ([], w) }"

end
