(* ===== verification/Kronos_Server_Safety.thy ===== *)
theory Kronos_Server_Safety
  imports Kronos_Server_Handler
begin

text \<open>
  The invariant of the running server and its preservation by the protocol threads.
\<close>

section \<open>Loops\<close>

lemma arr_rounds_vals: "arr_ok a \<Longrightarrow> arr_rounds a = length (arr_vals a)"
  by (simp add: arr_rounds_def krs_array_length_def length_arr_vals)

lemma find_conn_from:
  assumes "arr_ok a" and "\<forall>r \<in> set (arr_vals a). cs r \<noteq> None" and "i + n = length (arr_vals a)"
  shows "find_conn cs P a i n = Some (find (\<lambda>r. P (the (cs r))) (drop i (arr_vals a)))"
  using assms(3)
proof (induction n arbitrary: i)
  case (Suc n)
  then have i: "i < length (arr_vals a)" by simp
  then have "cs (arr_vals a ! i) \<noteq> None" using assms(2) by simp
  with Suc.IH [of "Suc i"] Suc.prems kra.at_nth [OF assms(1) i] i show ?case
    by (auto simp: Cons_nth_drop_Suc [symmetric])
qed simp

lemma find_conn_spec:
  "arr_ok a \<Longrightarrow> \<forall>r \<in> set (arr_vals a). cs r \<noteq> None \<Longrightarrow>
   find_conn cs P a 0 (arr_rounds a) = Some (find (\<lambda>r. P (the (cs r))) (arr_vals a))"
  using find_conn_from [of a cs 0 "arr_rounds a" P] by (simp add: arr_rounds_vals)

text \<open>
  The sweep: \<open>P\<close> says which connections the body removes. It may depend on the connections remembered so
  far, all of which satisfy \<open>P\<close>.
\<close>

definition sweeps :: "(conn_ref \<Rightarrow> bool) \<Rightarrow> conn_ref set \<Rightarrow> (conn_ref \<Rightarrow> conn_ref list \<Rightarrow> (bool \<times> conn_ref list) option) \<Rightarrow> bool" where
  "sweeps P A body \<longleftrightarrow> (\<forall>r \<in> A. \<forall>os. (\<forall>x \<in> set os. P x) \<longrightarrow>
     body r os = Some (P r, if P r then track_orphan r os else os))"

definition track_all :: "conn_ref list \<Rightarrow> conn_ref list \<Rightarrow> conn_ref list" where
  "track_all rs os = fold track_orphan rs os"

lemma track_all_simps [simp]:
  "track_all [] os = os" "track_all (r # rs) os = track_all rs (track_orphan r os)"
  "track_all (xs @ ys) os = track_all ys (track_all xs os)"
  by (simp_all add: track_all_def)

lemma set_track_orphan: "set (track_orphan r os) \<subseteq> insert r (set os)" "set os \<subseteq> set (track_orphan r os)"
  by (auto simp: track_orphan_def)

lemma set_track_all: "set (track_all rs os) \<subseteq> set rs \<union> set os" "set os \<subseteq> set (track_all rs os)"
proof -
  show "set (track_all rs os) \<subseteq> set rs \<union> set os"
    by (induction rs arbitrary: os) (auto dest: subsetD [OF set_track_orphan(1)] simp: subset_iff)
  show "set os \<subseteq> set (track_all rs os)"
    by (induction rs arbitrary: os) (auto dest: subsetD [OF set_track_orphan(2)] simp: subset_iff)
qed

lemma sweep_conns_from:
  assumes "arr_ok a" and "arr_vals a = vs @ ws" and "sweeps P (set vs) body" and "\<forall>x \<in> set os. P x"
  shows "\<exists>a'. sweep_conns body (length vs) a os = Some (a', track_all (rev (filter P vs)) os) \<and> arr_ok a' \<and>
           arr_vals a' = filter (\<lambda>r. \<not> P r) vs @ ws"
  using assms
proof (induction vs arbitrary: a ws os rule: rev_induct)
  case (snoc v vs)
  then have i: "length vs < length (arr_vals a)" and nth: "arr_vals a ! length vs = v" by auto
  note read = kra.at_nth [OF snoc.prems(1) i, unfolded nth]
  have sw: "sweeps P (set vs) body" using snoc.prems(3) by (simp add: sweeps_def)
  have body: "body v os = Some (P v, if P v then track_orphan v os else os)"
    using snoc.prems(3,4) by (simp add: sweeps_def)
  show ?case
  proof (cases "P v")
    case True
    obtain a' where a': "array_drop a (length vs) = Some a'" "arr_ok a'" "arr_vals a' = vs @ ws"
      using kra.drp_remove [OF snoc.prems(1) i] snoc.prems(2) by auto
    have "\<forall>x \<in> set (track_orphan v os). P x" using snoc.prems(4) True set_track_orphan(1) [of v os] by blast
    from snoc.IH [OF a'(2,3) sw this] read body True a'(1) show ?thesis by auto
  next
    case False
    have "arr_vals a = vs @ (v # ws)" using snoc.prems(2) by simp
    from snoc.IH [OF snoc.prems(1) this sw snoc.prems(4)] read body False show ?thesis by auto
  qed
qed simp

lemma sweep_conns_spec:
  assumes "arr_ok a" and "sweeps P (set (arr_vals a)) body" and "\<forall>x \<in> set os. P x"
  shows "\<exists>a'. sweep_conns body (arr_rounds a) a os = Some (a', track_all (rev (filter P (arr_vals a))) os) \<and> arr_ok a' \<and>
           arr_vals a' = filter (\<lambda>r. \<not> P r) (arr_vals a)"
  using sweep_conns_from [OF assms(1), of "arr_vals a" "[]"] assms by (simp add: arr_rounds_vals)

section \<open>Channels\<close>

definition chan_refs :: "channel_state \<Rightarrow> conn_ref list" where
  "chan_refs st = (case ch_connections st of None \<Rightarrow> [] | Some a \<Rightarrow> arr_vals a)"

definition chan_ok :: "channel_state \<Rightarrow> bool" where
  "chan_ok st \<longleftrightarrow> (\<forall>a. ch_connections st = Some a \<longrightarrow> arr_ok a) \<and> distinct (chan_refs st) \<and>
     (\<forall>re. ch_reassembler st = Some re \<longrightarrow> re_wf re) \<and>
     (\<forall>pc. ch_packet_counter st = Some pc \<longrightarrow> length (pc_counters pc) = 256)"

definition swept :: "(conn_ref \<Rightarrow> bool) \<Rightarrow> channel_state \<Rightarrow> channel_state \<Rightarrow> bool" where
  "swept P st st' \<longleftrightarrow> chan_refs st' = filter (\<lambda>r. \<not> P r) (chan_refs st) \<and> (chan_ok st \<longrightarrow> chan_ok st') \<and>
     ch_reassembler st' = ch_reassembler st \<and> ch_packet_counter st' = ch_packet_counter st"

lemma sweep_channels_spec:
  assumes "\<forall>st \<in> set sts. chan_ok st" and "sweeps P (\<Union>st \<in> set sts. set (chan_refs st)) body" and "\<forall>x \<in> set os. P x"
  shows "\<exists>sts'. sweep_channels body sts os =
           Some (sts', track_all (concat (map (\<lambda>st. rev (filter P (chan_refs st))) sts)) os) \<and>
           list_all2 (swept P) sts sts'"
  using assms
proof (induction sts arbitrary: os)
  case (Cons st sts)
  let ?os = "track_all (rev (filter P (chan_refs st))) os"
  have sw: "sweeps P (set (chan_refs st)) body" "sweeps P (\<Union>st \<in> set sts. set (chan_refs st)) body"
    using Cons.prems(2) by (auto simp: sweeps_def)
  have "\<forall>x \<in> set ?os. P x" using Cons.prems(3) set_track_all(1) [of "rev (filter P (chan_refs st))" os] by auto
  from Cons.IH [OF _ sw(2) this] Cons.prems(1) obtain sts' where sts':
    "sweep_channels body sts ?os = Some (sts', track_all (concat (map (\<lambda>st. rev (filter P (chan_refs st))) sts)) ?os)"
    "list_all2 (swept P) sts sts'" by auto
  show ?case
  proof (cases "ch_connections st")
    case None
    then have "chan_refs st = []" "swept P st st" by (simp_all add: chan_refs_def swept_def)
    with None sts' show ?thesis by simp
  next
    case (Some a)
    then have a: "arr_ok a" "chan_refs st = arr_vals a" using Cons.prems(1) by (auto simp: chan_ok_def chan_refs_def)
    obtain a' where a': "sweep_conns body (arr_rounds a) a os = Some (a', ?os)" "arr_ok a'"
        "arr_vals a' = filter (\<lambda>r. \<not> P r) (arr_vals a)"
      using sweep_conns_spec [OF a(1) _ Cons.prems(3), of body] sw(1) a(2) by auto
    have "swept P st (st\<lparr>ch_connections := Some a'\<rparr>)"
      using a a' by (auto simp: swept_def chan_refs_def Some chan_ok_def)
    then show ?thesis using sts' a'(1) Some by auto
  qed
qed simp

text \<open>The heartbeat loops.\<close>

definition touch :: "u64 \<Rightarrow> port_address \<Rightarrow> conn_ref set \<Rightarrow> conn_store \<Rightarrow> conn_store" where
  "touch now addr A cs r = (case cs r of
     None \<Rightarrow> None
   | Some c \<Rightarrow> Some (if r \<in> A \<and> same_address addr c then c\<lparr>cn_last_heartbeat_ms := now\<rparr> else c))"

lemma touch_simps:
  "touch now addr {} cs = cs"
  "touch now addr A (touch now addr B cs) = touch now addr (A \<union> B) cs"
  "touch now addr {r} cs = (case cs r of None \<Rightarrow> cs | Some c \<Rightarrow>
     if same_address addr c then cs(r \<mapsto> c\<lparr>cn_last_heartbeat_ms := now\<rparr>) else cs)"
  "touch now addr A cs r = None \<longleftrightarrow> cs r = None"
  by (auto simp: touch_def fun_eq_iff same_address_def split: option.splits)

lemma touch_conns_from:
  assumes "arr_ok a" and "\<forall>r \<in> set (arr_vals a). cs r \<noteq> None" and "i + n = length (arr_vals a)"
  shows "touch_conns now addr a i n cs = Some (touch now addr (set (drop i (arr_vals a))) cs)"
  using assms(2,3)
proof (induction n arbitrary: i cs)
  case (Suc n)
  then have i: "i < length (arr_vals a)" by simp
  let ?r = "arr_vals a ! i"
  have "cs ?r \<noteq> None" using Suc.prems(1) i by simp
  then obtain c where c: "cs ?r = Some c" by blast
  have "touch_conns now addr a (Suc i) n (touch now addr {?r} cs) =
      Some (touch now addr (set (drop (Suc i) (arr_vals a))) (touch now addr {?r} cs))"
    using Suc.prems by (intro Suc.IH) (auto simp: touch_simps(4))
  moreover have "set (drop i (arr_vals a)) = set (drop (Suc i) (arr_vals a)) \<union> {?r}"
    using i by (simp add: Cons_nth_drop_Suc [symmetric])
  ultimately show ?case
    using kra.at_nth [OF assms(1) i] c by (simp add: touch_simps(2)) (simp add: touch_simps(3) split: if_splits)
qed (simp add: touch_simps(1))

lemma touch_channels_spec:
  assumes "\<forall>st \<in> set sts. chan_ok st" and "\<forall>st \<in> set sts. \<forall>r \<in> set (chan_refs st). cs r \<noteq> None"
  shows "touch_channels now addr sts cs = Some (touch now addr (\<Union>st \<in> set sts. set (chan_refs st)) cs)"
  using assms
proof (induction sts arbitrary: cs)
  case (Cons st sts)
  have "touch_channels now addr sts (touch now addr (set (chan_refs st)) cs) =
      Some (touch now addr (\<Union>st \<in> set sts. set (chan_refs st)) (touch now addr (set (chan_refs st)) cs))"
    using Cons.prems by (intro Cons.IH) (auto simp: touch_simps(4))
  then have "touch_channels now addr sts (touch now addr (set (chan_refs st)) cs) =
      Some (touch now addr (\<Union>st \<in> set (st # sts). set (chan_refs st)) cs)"
    by (simp add: touch_simps(2) Un_commute)
  moreover have "touch_conns now addr a 0 (arr_rounds a) cs = Some (touch now addr (set (chan_refs st)) cs)"
    if "ch_connections st = Some a" for a
    using touch_conns_from [of a cs 0 "arr_rounds a" now addr] that Cons.prems
    by (simp add: chan_ok_def chan_refs_def arr_rounds_vals)
  ultimately show ?case by (auto simp: chan_refs_def touch_simps(1) split: option.splits)
qed (simp add: touch_simps(1))


section \<open>The invariant\<close>

definition refs0 :: "udp_socket_descriptor \<Rightarrow> conn_ref list" where
  "refs0 desc = chan_refs (ds_channel_states desc ! 0)"

text \<open>Every subscriber of a channel is connected, that is, in the array of channel 0.\<close>

definition desc_ok :: "udp_socket_descriptor \<Rightarrow> bool" where
  "desc_ok desc \<longleftrightarrow> desc_wf desc \<and>
     (\<forall>st \<in> set (ds_channel_states desc). chan_ok st \<and> set (chan_refs st) \<subseteq> set (refs0 desc))"

definition cc_ok :: "client_connection \<Rightarrow> bool" where
  "cc_ok c \<longleftrightarrow> (\<forall>cc. cn_congestion c = Some cc \<longrightarrow> (\<exists>n. cc_reach n cc))"

text \<open>Between two handlers nobody but the server itself holds a reference.\<close>

definition conn_ok :: "world \<Rightarrow> client_connection \<Rightarrow> bool" where
  "conn_ok w c \<longleftrightarrow> cn_refcount c = 1 \<and> tracker_ok c \<and> cc_ok c \<and>
     unat (cn_connection_id c) \<le> unat (w_next_connection_id w)"

text \<open>
  The invariant: the connections of a descriptor and those in the map are alive; the connections of a
  descriptor have different remote addresses, and each is in the map under its identifier, with that
  descriptor; the descriptors the map refers to are open.
\<close>

definition desc_conns_ok :: "world \<Rightarrow> connection_map \<Rightarrow> bool" where
  "desc_conns_ok w m \<longleftrightarrow> (\<forall>d desc. w_descs w d = Some desc \<longrightarrow> desc_ok desc \<and>
     inj_on (conn_key (w_conns w)) (set (refs0 desc)) \<and>
     (\<forall>r \<in> set (refs0 desc). \<exists>c. w_conns w r = Some c \<and> ids_of m (cn_connection_id c) = Some (Some d, Some r)))"

definition map_conns_ok :: "world \<Rightarrow> connection_map \<Rightarrow> bool" where
  "map_conns_ok w m \<longleftrightarrow> (\<forall>i e. ids_of m i = Some e \<longrightarrow>
     (\<exists>d r c. e = (Some d, Some r) \<and> w_descs w d \<noteq> None \<and> w_conns w r = Some c \<and> cn_connection_id c = i))"

definition sv_map :: "world \<Rightarrow> connection_map option" where
  "sv_map w = do { spm \<leftarrow> w_spm w; spm_connection_map spm }"

definition sv_inv :: "world \<Rightarrow> bool" where
  "sv_inv w \<longleftrightarrow> (\<exists>m. sv_map w = Some m \<and> cm_ok m \<and> desc_conns_ok w m \<and> map_conns_ok w m) \<and>
     (\<forall>r c. w_conns w r = Some c \<longrightarrow> conn_ok w c)"

lemma sv_invE:
  assumes "sv_inv w"
  obtains spm m where "w_spm w = Some spm" and "spm_connection_map spm = Some m" and "cm_ok m"
    and "desc_conns_ok w m" and "map_conns_ok w m"
  using assms by (auto simp: sv_inv_def sv_map_def split: Option.bind_splits)

lemma sv_inv_refs_ok: "map_conns_ok w m \<Longrightarrow> refs_ok (w_conns w) (cm_abs m)"
  by (fastforce simp: map_conns_ok_def refs_ok_def)

lemma desc_conns_okD:
  assumes "desc_conns_ok w m" and "w_descs w d = Some desc"
  shows "desc_ok desc" and "\<And>r. r \<in> set (refs0 desc) \<Longrightarrow>
    \<exists>c. w_conns w r = Some c \<and> ids_of m (cn_connection_id c) = Some (Some d, Some r)"
    and "\<And>st r. st \<in> set (ds_channel_states desc) \<Longrightarrow> r \<in> set (chan_refs st) \<Longrightarrow> w_conns w r \<noteq> None"
    and "inj_on (conn_key (w_conns w)) (set (refs0 desc))"
proof -
  show ok: "desc_ok desc" and r: "\<And>r. r \<in> set (refs0 desc) \<Longrightarrow>
    \<exists>c. w_conns w r = Some c \<and> ids_of m (cn_connection_id c) = Some (Some d, Some r)"
    using assms by (auto simp: desc_conns_ok_def)
  show "\<And>st r. st \<in> set (ds_channel_states desc) \<Longrightarrow> r \<in> set (chan_refs st) \<Longrightarrow> w_conns w r \<noteq> None"
    using ok r by (fastforce simp: desc_ok_def)
  show "inj_on (conn_key (w_conns w)) (set (refs0 desc))" using assms by (simp add: desc_conns_ok_def)
qed

text \<open>Updates of connections that keep their identifier and count keep the invariant.\<close>

definition conn_update :: "world \<Rightarrow> conn_store \<Rightarrow> bool" where
  "conn_update w cs' \<longleftrightarrow> dom cs' = dom (w_conns w) \<and> (\<forall>r c c'. w_conns w r = Some c \<longrightarrow> cs' r = Some c' \<longrightarrow>
     cn_connection_id c' = cn_connection_id c \<and> cn_remote_address c' = cn_remote_address c \<and>
     cn_refcount c' = cn_refcount c \<and> tracker_ok c' \<and> cc_ok c')"

lemma sv_inv_conns:
  assumes inv: "sv_inv w" and upd: "conn_update w cs'"
  shows "sv_inv (w\<lparr>w_conns := cs'\<rparr>)"
proof -
  have alive: "\<exists>c'. cs' r = Some c' \<and> cn_connection_id c' = cn_connection_id c" if "w_conns w r = Some c" for r c
    using that upd unfolding conn_update_def by (metis domD domI)
  have key: "conn_key cs' r = conn_key (w_conns w) r" if "w_conns w r \<noteq> None" for r
    using that upd unfolding conn_update_def conn_key_def by (metis domD domI domIff option.sel)
  have ok: "conn_ok (w\<lparr>w_conns := cs'\<rparr>) c'" if "cs' r = Some c'" for r c'
  proof -
    have "r \<in> dom (w_conns w)" using that upd by (auto simp: conn_update_def)
    then obtain c where c: "w_conns w r = Some c" by blast
    then have "conn_ok w c" using inv by (simp add: sv_inv_def)
    moreover have "cn_connection_id c' = cn_connection_id c \<and> cn_refcount c' = cn_refcount c \<and> tracker_ok c' \<and> cc_ok c'"
      using upd c that unfolding conn_update_def by blast
    ultimately show ?thesis by (simp add: conn_ok_def)
  qed
  from inv show ?thesis
  proof (rule sv_invE)
    fix spm m assume m: "w_spm w = Some spm" "spm_connection_map spm = Some m" "cm_ok m" "desc_conns_ok w m" "map_conns_ok w m"
    have "desc_conns_ok (w\<lparr>w_conns := cs'\<rparr>) m"
      unfolding desc_conns_ok_def
    proof (intro allI impI conjI ballI)
      fix d desc assume d: "w_descs (w\<lparr>w_conns := cs'\<rparr>) d = Some desc"
      then have d': "w_descs w d = Some desc" by simp
      then show "desc_ok desc" by (rule desc_conns_okD(1) [OF m(4)])
      have "\<forall>r \<in> set (refs0 desc). w_conns w r \<noteq> None" using desc_conns_okD(2) [OF m(4) d'] by blast
      then show "inj_on (conn_key (w_conns (w\<lparr>w_conns := cs'\<rparr>))) (set (refs0 desc))"
        using desc_conns_okD(4) [OF m(4) d'] key by (simp add: inj_on_def)
      fix r assume "r \<in> set (refs0 desc)"
      from desc_conns_okD(2) [OF m(4) d' this]
      obtain c where c: "w_conns w r = Some c" "ids_of m (cn_connection_id c) = Some (Some d, Some r)" by blast
      from alive [OF c(1)] c(2)
      show "\<exists>c. w_conns (w\<lparr>w_conns := cs'\<rparr>) r = Some c \<and> ids_of m (cn_connection_id c) = Some (Some d, Some r)" by auto
    qed
    moreover have "map_conns_ok (w\<lparr>w_conns := cs'\<rparr>) m"
      unfolding map_conns_ok_def
    proof (intro allI impI)
      fix i e assume "ids_of m i = Some e"
      then obtain d r c where e: "e = (Some d, Some r)" "w_descs w d \<noteq> None" "w_conns w r = Some c" "cn_connection_id c = i"
        using m(5) unfolding map_conns_ok_def by blast
      from alive [OF e(3)] e show "\<exists>d r c. e = (Some d, Some r) \<and> w_descs (w\<lparr>w_conns := cs'\<rparr>) d \<noteq> None \<and>
          w_conns (w\<lparr>w_conns := cs'\<rparr>) r = Some c \<and> cn_connection_id c = i"
        by auto
    qed
    ultimately show ?thesis using m ok by (auto simp: sv_inv_def sv_map_def)
  qed
qed

lemma set_conn_store: "set_conn r c w = w\<lparr>w_conns := (w_conns w)(r \<mapsto> c)\<rparr>"
  by (simp add: set_conn_def)

text \<open>Changes of the statistics, and of the channels other than channel 0.\<close>

lemma sv_inv_spm:
  assumes "sv_inv w" and "w_spm w = Some spm" and "spm_connection_map spm' = spm_connection_map spm"
  shows "sv_inv (set_spm spm' w)"
  using assms by (auto simp: sv_inv_def sv_map_def desc_conns_ok_def map_conns_ok_def conn_ok_def)

lemma desc_ok_channel:
  assumes "desc_ok desc" and "set_channel ch st desc = Some desc'" and "chan_ok st" and "ch \<noteq> 0"
    and "set (chan_refs st) \<subseteq> set (refs0 desc)"
  shows "desc_ok desc'" and "refs0 desc' = refs0 desc"
proof -
  have ch: "unat ch \<noteq> 0" using assms(4) by (simp add: unat_eq_zero)
  have d: "desc' = desc\<lparr>ds_channel_states := (ds_channel_states desc)[unat ch := st]\<rparr>"
    using assms(2) by (auto simp: set_channel_def mem_set_def split: if_splits)
  show r: "refs0 desc' = refs0 desc" using ch by (simp add: d refs0_def)
  have "chan_ok x \<and> set (chan_refs x) \<subseteq> set (refs0 desc)" if "x \<in> set (ds_channel_states desc')" for x
    using that assms(1,3,5) set_update_subset_insert [of "ds_channel_states desc" "unat ch" st]
    by (auto simp: d desc_ok_def)
  moreover have "desc_wf desc'" using assms(1) by (simp add: desc_ok_def desc_wf_def d)
  ultimately show "desc_ok desc'" by (simp add: desc_ok_def r)
qed

lemma map_conns_ok_desc:
  assumes "map_conns_ok w m"
  shows "map_conns_ok (set_desc d desc w) m"
  unfolding map_conns_ok_def
proof (intro allI impI)
  fix i e assume "ids_of m i = Some e"
  then obtain x r c where "e = (Some x, Some r)" "w_descs w x \<noteq> None" "w_conns w r = Some c" "cn_connection_id c = i"
    using assms unfolding map_conns_ok_def by blast
  then show "\<exists>x r c. e = (Some x, Some r) \<and> w_descs (set_desc d desc w) x \<noteq> None \<and> w_conns (set_desc d desc w) r = Some c \<and>
      cn_connection_id c = i"
    by (intro exI [of _ x] exI [of _ r] exI [of _ c]) simp
qed

lemma sv_inv_desc:
  assumes "sv_inv w" and "w_descs w d = Some desc" and "desc_ok desc'" and "refs0 desc' = refs0 desc"
  shows "sv_inv (set_desc d desc' w)"
proof -
  obtain m where m: "sv_map w = Some m" "cm_ok m" "desc_conns_ok w m" "map_conns_ok w m" using assms(1) by (auto simp: sv_inv_def)
  have "desc_conns_ok (set_desc d desc' w) m" using m(3) assms(2-4) by (auto simp: desc_conns_ok_def)
  moreover have "sv_map (set_desc d desc' w) = Some m" using m(1) by (simp add: sv_map_def)
  moreover have "conn_ok (set_desc d desc' w) c" if "w_conns (set_desc d desc' w) r = Some c" for r c
    using that assms(1) by (auto simp: sv_inv_def conn_ok_def)
  ultimately show ?thesis using m(2) map_conns_ok_desc [OF m(4)] by (auto simp: sv_inv_def)
qed

lemma set_channel_Some: "desc_ok desc \<Longrightarrow> \<exists>desc'. set_channel ch st desc = Some desc'"
  using channel_index [of ch] by (auto simp: set_channel_def mem_set_def desc_ok_def desc_wf_def)

lemma get_channel_Some:
  assumes "desc_ok desc"
  obtains st where "get_channel desc ch = Some st" and "st \<in> set (ds_channel_states desc)"
    and "st = ds_channel_states desc ! unat ch"
  using assms channel_index [of ch] by (auto simp: get_channel_def mem_get_def desc_ok_def desc_wf_def)


section \<open>Frames sent\<close>

definition ack_frame :: "u8 \<Rightarrow> u64 \<Rightarrow> bytes" where
  "ack_frame ch pid = wire_header ch MESSAGE_ACK 0 pid"

definition socket_ack_frame :: "u32 \<Rightarrow> bytes" where
  "socket_ack_frame i = wire_header 0 SOCKET_ACK 0 0 @ id_body i"

lemma metadata_length_0: "metadata_length 0 = 0" "wire_metadata 0 md = []"
  by (simp_all add: metadata_length_def wire_metadata_def has_flag_def)

lemma send_frame_bytes:
  assumes "length xs \<noteq> 0" and "length xs < 65536" and "buf = xs @ ys"
  shows "krs_net_send_frame sock (Some addr) (Some buf) (of_nat (length xs)) = Some [(sock, addr, xs)]"
proof -
  have u: "unat (of_nat (length xs) :: u16) = length xs" using assms(2) by (intro unat_of_nat_small) simp
  then have "(of_nat (length xs) :: u16) \<noteq> 0" using assms(1) by (metis unat_0)
  then show ?thesis by (simp add: krs_net_send_frame_def u assms(3) mem_read_def)
qed

lemma s_send_ack_response_spec:
  assumes "64 \<le> length junk"
  shows "s_send_ack_response alloc junk desc (Some addr) ch pid =
    Some (if alloc then [Ev_send (ds_udp_socket_ref desc, addr, ack_frame ch pid)] else [])"
proof (cases alloc)
  case True
  let ?b = "\<lparr>fb_channel = ch, fb_type = MESSAGE_ACK, fb_packet_id = pid, fb_presence_flags = 0,
                 fb_metadata = metadata_zero, fb_data = None, fb_data_length = 0\<rparr>"
  have wire: "wire_frame ?b = ack_frame ch pid" by (simp add: wire_frame_def ack_frame_def metadata_length_0 fb_payload_def)
  have len: "length (ack_frame ch pid) = 14" by (simp add: ack_frame_def)
  have "krs_frame_builder_serialize (Some ?b) (Some junk) 64 =
      Some (of_nat (length (wire_frame ?b)), Some (wire_frame ?b @ drop (length (wire_frame ?b)) junk))"
    using assms len wire by (intro serialize_wire) (simp_all add: fb_wf_def fb_payload_def metadata_length_0)
  then have ser: "krs_frame_builder_serialize (Some ?b) (Some junk) 64 =
      Some (14, Some (ack_frame ch pid @ drop 14 junk))" by (simp only: wire len) simp
  have "krs_net_send_frame (ds_udp_socket_ref desc) (Some addr) (Some (ack_frame ch pid @ drop 14 junk)) 14 =
      Some [(ds_udp_socket_ref desc, addr, ack_frame ch pid)]"
    using send_frame_bytes [of "ack_frame ch pid" _ "drop 14 junk"] len by simp
  with True ser show ?thesis
    by (simp add: s_send_ack_response_def krs_frame_builder_create_def krs_frame_builder_set_packet_id_def)
qed (simp add: s_send_ack_response_def krs_frame_builder_create_def)

lemma s_send_frame_spec:
  assumes "1500 \<le> length junk"
  shows "s_send_frame alloc junk sock (Some addr) 0 SOCKET_ACK (Some (id_body i)) 4 =
    Some (if alloc then [Ev_send (sock, addr, socket_ack_frame i)] else [])"
proof (cases alloc)
  case True
  let ?b = "\<lparr>fb_channel = 0, fb_type = SOCKET_ACK, fb_packet_id = 0, fb_presence_flags = 0,
                 fb_metadata = metadata_zero, fb_data = Some (id_body i), fb_data_length = 4\<rparr>"
  have id4: "length (id_body i) = 4" by (simp add: id_body_def)
  have wire: "wire_frame ?b = socket_ack_frame i"
    using id4 by (simp add: wire_frame_def socket_ack_frame_def metadata_length_0 fb_payload_def)
  have len: "length (socket_ack_frame i) = 18" using id4 by (simp add: socket_ack_frame_def)
  have "krs_frame_builder_serialize (Some ?b) (Some junk) 1500 =
      Some (of_nat (length (wire_frame ?b)), Some (wire_frame ?b @ drop (length (wire_frame ?b)) junk))"
    using assms len wire id4 by (intro serialize_wire) (simp_all add: fb_wf_def fb_payload_def metadata_length_0)
  then have ser: "krs_frame_builder_serialize (Some ?b) (Some junk) 1500 =
      Some (18, Some (socket_ack_frame i @ drop 18 junk))" by (simp only: wire len) simp
  have "krs_net_send_frame sock (Some addr) (Some (socket_ack_frame i @ drop 18 junk)) 18 =
      Some [(sock, addr, socket_ack_frame i)]"
    using send_frame_bytes [of "socket_ack_frame i" _ "drop 18 junk"] len by simp
  with True ser show ?thesis
    by (simp add: s_send_frame_def krs_frame_builder_create_def krs_frame_builder_set_data_def)
qed (simp add: s_send_frame_def krs_frame_builder_create_def)

section \<open>Heartbeats and acknowledgements\<close>

lemma all_refs:
  assumes "desc_ok desc"
  shows "(\<Union>st \<in> set (ds_channel_states desc). set (chan_refs st)) = set (refs0 desc)"
proof -
  have "ds_channel_states desc ! 0 \<in> set (ds_channel_states desc)"
    using assms by (intro nth_mem) (simp add: desc_ok_def desc_wf_def)
  then have "set (refs0 desc) \<subseteq> (\<Union>st \<in> set (ds_channel_states desc). set (chan_refs st))" by (auto simp: refs0_def)
  with assms show ?thesis by (auto simp: desc_ok_def)
qed

lemma heartbeat_spec:
  fixes now :: u64 and addr :: port_address
  assumes inv: "sv_inv w" and d: "w_descs w d = Some desc"
  defines "w' \<equiv> w\<lparr>w_conns := touch now addr (set (refs0 desc)) (w_conns w)\<rparr>"
  shows "krs_server_handle_heartbeat_frame now (Some d) (Some f) (Some addr) w = Some ([], w')" and "sv_inv w'"
proof -
  obtain spm m where m: "desc_conns_ok w m" using inv by (rule sv_invE)
  note dd = desc_conns_okD [OF m d]
  have "touch_channels now addr (ds_channel_states desc) (w_conns w) = Some (touch now addr (set (refs0 desc)) (w_conns w))"
    using touch_channels_spec [of "ds_channel_states desc" "w_conns w" now addr] dd
    by (auto simp: all_refs [OF dd(1)] desc_ok_def)
  then show "krs_server_handle_heartbeat_frame now (Some d) (Some f) (Some addr) w = Some ([], w')"
    by (simp add: krs_server_handle_heartbeat_frame_def d w'_def)
  have "conn_update w (touch now addr (set (refs0 desc)) (w_conns w))"
    unfolding conn_update_def
  proof (intro conjI allI impI)
    show "dom (touch now addr (set (refs0 desc)) (w_conns w)) = dom (w_conns w)"
      by (auto simp: touch_def split: option.splits)
    fix r c c' assume c: "w_conns w r = Some c" "touch now addr (set (refs0 desc)) (w_conns w) r = Some c'"
    have "conn_ok w c" using inv c(1) by (simp add: sv_inv_def)
    with c show "cn_connection_id c' = cn_connection_id c" "cn_remote_address c' = cn_remote_address c" "cn_refcount c' = cn_refcount c" "tracker_ok c'" "cc_ok c'"
      by (auto simp: touch_def conn_ok_def tracker_ok_def cc_ok_def split: if_splits)
  qed
  then show "sv_inv w'" unfolding w'_def by (rule sv_inv_conns [OF inv])
qed

lemma on_ack_rto: "krs_congestion_on_ack (Some cc) rtt = Some cc' \<Longrightarrow> 200 \<le> cc_rto_ms cc' \<and> cc_rto_ms cc' \<le> 60000"
  by (auto simp: krs_congestion_on_ack_def Let_def grow_window_def update_rto_def)

lemma ack_received_spec:
  assumes "tracker_ok c" and "cc_ok c"
  shows "\<exists>c'. ack_received now f c = Some c' \<and> cn_connection_id c' = cn_connection_id c \<and>
    cn_refcount c' = cn_refcount c \<and> cn_remote_address c' = cn_remote_address c \<and> tracker_ok c' \<and> cc_ok c'"
proof -
  obtain rtt tr where tr: "(case cn_ack_tracker c of
        None \<Rightarrow> Some (- 1, None)
      | Some t \<Rightarrow> krs_ack_tracker_receive_rtt now (Some t) (frame_packet_id f) (frame_channel f)) = Some (rtt, tr)"
      and wf: "\<And>t. tr = Some t \<Longrightarrow> ack_wf t"
  proof (cases "cn_ack_tracker c")
    case (Some t)
    then have t: "ack_wf t" using assms(1) by (simp add: tracker_ok_def)
    from receive_rtt_pending [OF ack_wfD(1) [OF t], of now "frame_packet_id f" "frame_channel f"]
    obtain r t' where "krs_ack_tracker_receive_rtt now (Some t) (frame_packet_id f) (frame_channel f) = Some (r, Some t')" by blast
    with receive_rtt_wf [OF t this] Some that show thesis by auto
  qed (use that in auto)
  show ?thesis
  proof (cases "rtt \<ge> 0 \<and> cn_congestion c \<noteq> None")
    case True
    then obtain cc where cc: "cn_congestion c = Some cc" by blast
    obtain n where n: "cc_reach n cc" using assms(2) cc by (auto simp: cc_ok_def)
    obtain cc' where cc': "krs_congestion_on_ack (Some cc) rtt = Some cc'" by (simp add: krs_congestion_on_ack_def)
    have "cc_reach (Suc n) cc'" using cc_reach.ack [OF n _ cc'] True by simp
    moreover obtain v where "u32_of_double (cc_rto_ms cc') = Some v"
      using u32_of_double_defined [of "cc_rto_ms cc'"] on_ack_rto [OF cc'] by force
    moreover have "ack_wf t'" if "krs_ack_tracker_set_timeout tr v' = Some t'" for t' v'
    proof (cases tr)
      case None
      with that show ?thesis by (simp add: krs_ack_tracker_set_timeout_def)
    next
      case (Some t)
      from settings_wf(1) [OF that [unfolded Some] wf [OF Some]] show ?thesis .
    qed
    ultimately show ?thesis
      using True tr cc cc' by (auto simp: ack_received_def krs_congestion_get_rto_def tracker_ok_def cc_ok_def split: option.splits)
  next
    case False
    with tr wf assms(2) show ?thesis by (auto simp: ack_received_def tracker_ok_def cc_ok_def split: option.splits)
  qed
qed


lemma ack_connection_spec:
  assumes "cm_ok m" and "map_conns_ok w m"
  shows "\<exists>conn. ack_connection m addr = Some conn \<and> (\<forall>r. conn = Some r \<longrightarrow> w_conns w r \<noteq> None)"
proof -
  obtain i where i: "krs_connection_map_get_by_address (Some m) (Some addr) = Some i"
    using cm_get_by_address_spec [OF assms(1)] by blast
  obtain e where e: "krs_connection_map_get (Some m) i = Some e" "map_option sl_val e = ids_of m i"
    using cm_get_spec [OF assms(1)] by blast
  have "w_conns w r \<noteq> None" if "e = Some x" "snd (sl_val x) = Some r" for x r
  proof -
    have "ids_of m i = Some (sl_val x)" using e(2) that(1) by simp
    then obtain d r' c where "sl_val x = (Some d, Some r')" "w_conns w r' = Some c"
      using assms(2) unfolding map_conns_ok_def by blast
    with that(2) show ?thesis by simp
  qed
  with i e(1) show ?thesis by (auto simp: ack_connection_def split: option.splits)
qed

lemma dispatch_ack_safe:
  assumes inv: "sv_inv w"
  shows "\<exists>w'. s_dispatch_ack now f addr w = Some ([], w') \<and> sv_inv w' \<and> w_descs w' = w_descs w"
proof -
  obtain spm m where m: "w_spm w = Some spm" "spm_connection_map spm = Some m" "cm_ok m" "desc_conns_ok w m" "map_conns_ok w m"
    using inv by (rule sv_invE)
  let ?w = "set_spm (spm\<lparr>stat_ack_received := stat_ack_received spm + 1\<rparr>) w"
  have inv1: "sv_inv ?w" by (rule sv_inv_spm [OF inv m(1)]) simp
  obtain conn where conn: "ack_connection m addr = Some conn" "\<forall>r. conn = Some r \<longrightarrow> w_conns w r \<noteq> None"
    using ack_connection_spec [OF m(3,5)] by blast
  show ?thesis
  proof (cases conn)
    case None
    with m conn(1) inv1 show ?thesis by (simp add: s_dispatch_ack_def)
  next
    case (Some r)
    then obtain c where c: "w_conns w r = Some c" using conn(2) by auto
    have "conn_ok w c" using inv c by (simp add: sv_inv_def)
    then obtain c' where c': "ack_received now f c = Some c'" "cn_connection_id c' = cn_connection_id c"
        "cn_refcount c' = cn_refcount c" "cn_remote_address c' = cn_remote_address c" "tracker_ok c'" "cc_ok c'"
      using ack_received_spec [of c now f] by (auto simp: conn_ok_def)
    have "conn_update ?w ((w_conns ?w)(r \<mapsto> c'))"
      unfolding conn_update_def
    proof (intro conjI allI impI)
      show "dom ((w_conns ?w)(r \<mapsto> c')) = dom (w_conns ?w)" using c by auto
      fix q x x' assume x: "w_conns ?w q = Some x" "((w_conns ?w)(r \<mapsto> c')) q = Some x'"
      then have "conn_ok w x" using inv by (simp add: sv_inv_def)
      with x c c' show "cn_connection_id x' = cn_connection_id x" "cn_remote_address x' = cn_remote_address x" "cn_refcount x' = cn_refcount x" "tracker_ok x'" "cc_ok x'"
        by (auto simp: conn_ok_def split: if_splits)
    qed
    from sv_inv_conns [OF inv1 this] have "sv_inv (set_conn r c' ?w)" by (simp add: set_conn_store)
    with m conn(1) Some c c'(1) show ?thesis by (simp add: s_dispatch_ack_def)
  qed
qed

section \<open>Subscriptions\<close>

definition ch_refs :: "udp_socket_descriptor \<Rightarrow> u8 \<Rightarrow> conn_ref list" where
  "ch_refs desc ch = chan_refs (ds_channel_states desc ! unat ch)"

definition desc_small :: "udp_socket_descriptor \<Rightarrow> bool" where
  "desc_small desc \<longleftrightarrow> (\<forall>st \<in> set (ds_channel_states desc). length (chan_refs st) < 2 ^ 31)"

text \<open>The connection of an address.\<close>

definition conn_at :: "world \<Rightarrow> udp_socket_descriptor \<Rightarrow> u8 \<Rightarrow> port_address \<Rightarrow> conn_ref option" where
  "conn_at w desc ch addr = find (\<lambda>r. same_address addr (the (w_conns w r))) (ch_refs desc ch)"

lemma find_on_channel0:
  assumes "desc_conns_ok w m" and "w_descs w d = Some desc"
  shows "s_find_conn_on_channel0_unlocked (w_conns w) desc addr = Some (conn_at w desc 0 addr)"
proof -
  note dd = desc_conns_okD [OF assms]
  obtain st where st: "get_channel desc 0 = Some st" "st \<in> set (ds_channel_states desc)"
      "st = ds_channel_states desc ! unat (0 :: u8)" using dd(1) by (rule get_channel_Some)
  have ok: "chan_ok st" using dd(1) st(2) by (simp add: desc_ok_def)
  show ?thesis
  proof (cases "ch_connections st")
    case None
    with st show ?thesis by (simp add: s_find_conn_on_channel0_unlocked_def conn_at_def ch_refs_def chan_refs_def)
  next
    case (Some a)
    then have "arr_ok a" "chan_refs st = arr_vals a" using ok by (auto simp: chan_ok_def chan_refs_def)
    with find_conn_spec [of a "w_conns w" "same_address addr"] dd(3) [OF st(2)] st Some show ?thesis
      by (simp add: s_find_conn_on_channel0_unlocked_def conn_at_def ch_refs_def)
  qed
qed

lemma conn_index_spec: "arr_ok a \<Longrightarrow> conn_index a r = Some (find_index (\<lambda>c. c = r) (arr_vals a))"
  by (simp add: conn_index_def kra.find_all arr_rounds_vals)

lemma contains_conn_spec:
  "arr_ok a \<Longrightarrow> s_array_contains_conn_unlocked (Some a) r = Some (r \<in> set (arr_vals a))"
  using find_index_None_iff [of "\<lambda>c. c = r" "arr_vals a"]
  by (auto simp: s_array_contains_conn_unlocked_def conn_index_spec)

lemma ch_refs_set_channel:
  assumes "desc_wf desc" and "set_channel tgt st desc = Some desc'"
  shows "ch_refs desc' ch = (if ch = tgt then chan_refs st else ch_refs desc ch)"
  using assms channel_index [of tgt]
  by (auto simp: set_channel_def mem_set_def ch_refs_def desc_wf_def nth_list_update word_unat_eq_iff [of ch tgt]
      split: if_splits)

text \<open>Pushing a connection into the array of a channel that may not exist yet.\<close>

lemma subscribe_array:
  fixes alloc :: bool and cells :: "conn_ref cells"
  assumes ok: "chan_ok st" and small: "length (chan_refs st) < 2 ^ 31"
  defines "conns0 \<equiv> (if ch_connections st = None then krs_array_create alloc cells 8 else ch_connections st)"
  shows "\<exists>there committed conns. s_array_contains_conn_unlocked conns0 r = Some there \<and>
    (if conns0 \<noteq> None \<and> there then Some (True, conns0)
     else if conns0 = None then Some (False, conns0)
     else do { (res, conns') \<leftarrow> krs_array_push grow conns0 (Some r); Some (rb_error_code res = KRS_SUCCESS, conns') }) =
      Some (committed, conns) \<and>
    chan_ok (st\<lparr>ch_connections := conns\<rparr>) \<and>
    chan_refs (st\<lparr>ch_connections := conns\<rparr>) =
      (if committed \<and> r \<notin> set (chan_refs st) then chan_refs st @ [r] else chan_refs st) \<and>
    (alloc \<and> cells \<noteq> None \<and> grow \<noteq> None \<longrightarrow> committed)"
proof (cases conns0)
  case None
  then have st: "ch_connections st = None" and "krs_array_create alloc cells 8 = None" by (simp_all add: conns0_def split: if_splits)
  then have "\<not> (alloc \<and> cells \<noteq> None)" by (auto simp: krs_array_create_def Let_def split: option.splits)
  moreover have "st\<lparr>ch_connections := None\<rparr> = st" using st by (cases st) simp
  ultimately show ?thesis
    using ok None by (intro exI [of _ False] exI [of _ None]) (auto simp: s_array_contains_conn_unlocked_def)
next
  case (Some a)
  have a: "arr_ok a" "arr_vals a = chan_refs st"
    using Some ok by (auto simp: conns0_def chan_ok_def chan_refs_def create_vals split: if_splits)
  note there = contains_conn_spec [OF a(1), of r]
  show ?thesis
  proof (cases "r \<in> set (arr_vals a)")
    case True
    with Some there a ok show ?thesis by (auto simp: chan_ok_def chan_refs_def)
  next
    case False
    have len: "length (arr_vals a) < 2 ^ 31" using small a(2) by simp
    show ?thesis
    proof (rule push_vals [OF a(1) len, of grow r])
      fix a' assume a': "krs_array_push grow (Some a) (Some r) = Some (krs_lib_error_result_base_suc, Some a')"
        "arr_ok a'" "arr_vals a' = arr_vals a @ [r]"
      have "chan_ok (st\<lparr>ch_connections := Some a'\<rparr>)" using a' a(2) ok False by (auto simp: chan_ok_def chan_refs_def)
      with False Some there a a' show ?thesis by (auto simp: krs_lib_error_result_base_suc_def chan_refs_def)
    next
      assume fail: "grow = None" "krs_array_push grow (Some a) (Some r) =
         Some (krs_lib_error_result_base_w_msg KRS_ERR_MEMORY_ALLOCATION ''Failed to grow array'', Some a)"
      have "chan_ok (st\<lparr>ch_connections := Some a\<rparr>)" using a ok by (auto simp: chan_ok_def chan_refs_def)
      with False Some there a fail show ?thesis by (auto simp: krs_lib_error_result_base_w_msg_def chan_refs_def)
    qed
  qed
qed


text \<open>What a subscription or its cancellation may change of a descriptor.\<close>

definition desc_step :: "udp_socket_descriptor \<Rightarrow> udp_socket_descriptor \<Rightarrow> bool" where
  "desc_step desc desc' \<longleftrightarrow> desc_ok desc' \<and> refs0 desc' = refs0 desc \<and> ds_udp_socket_ref desc' = ds_udp_socket_ref desc \<and>
     (\<exists>sts. desc' = desc\<lparr>ds_channel_states := sts\<rparr>)"

lemma desc_self [simp]: "\<exists>sts. desc = desc\<lparr>ds_channel_states := sts\<rparr>"
  by (intro exI [of _ "ds_channel_states desc"]) simp

lemma set_channel_sts: "set_channel ch st desc = Some desc' \<Longrightarrow> \<exists>sts. desc' = desc\<lparr>ds_channel_states := sts\<rparr>"
  by (auto simp: set_channel_def split: Option.bind_splits)

lemma conn_at_in: "conn_at w desc 0 addr = Some r \<Longrightarrow> r \<in> set (refs0 desc)"
  by (auto simp: conn_at_def ch_refs_def refs0_def find_Some_iff)

lemma set_desc_same: "w_descs w d = Some desc \<Longrightarrow> set_desc d desc w = w"
  by (simp add: set_desc_def fun_upd_idem)

definition handler_bufs_ok :: "handler_alloc \<Rightarrow> bool" where
  "handler_bufs_ok al \<longleftrightarrow> 1500 \<le> length (ha_buf al) \<and> 64 \<le> length (ha_ack_buf al)"

definition sub_allocs_ok :: "handler_alloc \<Rightarrow> bool" where
  "sub_allocs_ok al \<longleftrightarrow> ha_array al \<and> ha_cells al \<noteq> None \<and> ha_push al \<noteq> None"

definition ack_if :: "bool \<Rightarrow> handler_alloc \<Rightarrow> udp_socket_descriptor \<Rightarrow> port_address \<Rightarrow> krs_frame \<Rightarrow> event list" where
  "ack_if b al desc addr f =
     (if b \<and> has_flag (frame_presence_flags f) META_FLAG_ACK_REQUIRED \<and> ha_builder al
      then [Ev_send (ds_udp_socket_ref desc, addr, ack_frame 0 (frame_packet_id f))] else [])"

text \<open>The target channel of a subscription frame, if it is acceptable.\<close>

definition sub_target :: "krs_frame \<Rightarrow> u8 option" where
  "sub_target f = (case frame_body f of
     None \<Rightarrow> None
   | Some body \<Rightarrow> if frame_body_length f < 1 \<or> hd body < 10 then None else Some (hd body))"

lemma sub_target_Some:
  assumes "sub_target f = Some tgt" and "frame_ok f"
  obtains body where "frame_body f = Some body" and "\<not> frame_body_length f < 1" and "mem_get body 0 = Some tgt"
    and "\<not> tgt < 10" and "tgt \<noteq> 0"
proof -
  obtain body where b: "frame_body f = Some body" "\<not> frame_body_length f < 1" "hd body = tgt" "\<not> tgt < 10"
    using assms(1) by (auto simp: sub_target_def split: option.splits if_splits)
  then have "0 < unat (frame_body_length f)" by (simp add: word_less_nat_alt)
  then have "body \<noteq> []" using assms(2) b(1) by (auto simp: frame_ok_def)
  then have "mem_get body 0 = Some tgt" using b(3) by (cases body) (auto simp: mem_get_def)
  moreover have "tgt \<noteq> 0" using b(4) by auto
  ultimately show thesis using b that by blast
qed

lemma sub_target_None:
  assumes "sub_target f = None" and "frame_ok f"
  shows "frame_body_length f < 1 \<or> (\<exists>body tgt. frame_body f = Some body \<and> mem_get body 0 = Some tgt \<and> tgt < 10)"
proof (cases "frame_body_length f < 1")
  case False
  obtain body where b: "frame_body f = Some body" "unat (frame_body_length f) \<le> length body"
    using assms(2) by (auto simp: frame_ok_def)
  have "body \<noteq> []" using False b(2) by (auto simp: word_less_nat_alt)
  then have "mem_get body 0 = Some (hd body)" by (cases body) (auto simp: mem_get_def)
  then show ?thesis using assms(1) False b(1) by (auto simp: sub_target_def split: if_splits)
qed simp

lemma subscribe_none:
  assumes "sub_target f = None" and "frame_ok f"
  shows "s_dispatch_subscribe al d f addr w = Some ([], w)" and "s_dispatch_unsubscribe al d f addr w = Some ([], w)"
  using sub_target_None [OF assms] by (auto simp: s_dispatch_subscribe_def s_dispatch_unsubscribe_def)

lemma subscribe_core:
  assumes inv: "sv_inv w" and d: "w_descs w d = Some desc" and small: "desc_small desc" and f: "frame_ok f"
    and tgt: "sub_target f = Some tgt" and bufs: "handler_bufs_ok al"
  shows "\<exists>committed desc'. s_dispatch_subscribe al d f addr w = Some (ack_if committed al desc addr f, set_desc d desc' w) \<and>
    desc_step desc desc' \<and> (committed \<longrightarrow> conn_at w desc 0 addr \<noteq> None) \<and>
    (sub_allocs_ok al \<longrightarrow> conn_at w desc 0 addr \<noteq> None \<longrightarrow> committed) \<and>
    (\<forall>ch. ch_refs desc' ch = (case conn_at w desc 0 addr of
         Some r \<Rightarrow> if ch = tgt \<and> committed \<and> r \<notin> set (ch_refs desc ch) then ch_refs desc ch @ [r] else ch_refs desc ch
       | None \<Rightarrow> ch_refs desc ch))"
proof -
  obtain spm m where m: "desc_conns_ok w m" using inv by (rule sv_invE)
  note dd = desc_conns_okD [OF m d]
  obtain body where body: "frame_body f = Some body" "\<not> frame_body_length f < 1" "mem_get body 0 = Some tgt" "\<not> tgt < 10" "tgt \<noteq> 0"
    by (rule sub_target_Some [OF tgt f])
  have wf: "desc_wf desc" using dd(1) by (simp add: desc_ok_def)
  have le: "\<not> 255 < unat tgt" using channel_index [of tgt] by linarith
  note send = s_send_ack_response_spec [of "ha_ack_buf al"]
  have buf: "64 \<le> length (ha_ack_buf al)" using bufs by (simp add: handler_bufs_ok_def)
  show ?thesis
  proof (cases "conn_at w desc 0 addr")
    case None
    have "s_dispatch_subscribe al d f addr w = Some ([], w)"
      using body le d find_on_channel0 [OF m d, of addr] None by (simp add: s_dispatch_subscribe_def set_desc_same)
    then show ?thesis
      using None dd(1) d by (intro exI [of _ False] exI [of _ desc]) (simp add: ack_if_def desc_step_def set_desc_same)
  next
    case (Some r)
    obtain st where st: "get_channel desc tgt = Some st" "st \<in> set (ds_channel_states desc)"
        "st = ds_channel_states desc ! unat tgt" using dd(1) by (rule get_channel_Some)
    have ok: "chan_ok st" "length (chan_refs st) < 2 ^ 31" "set (chan_refs st) \<subseteq> set (refs0 desc)"
      using dd(1) small st(2) by (auto simp: desc_ok_def desc_small_def)
    obtain there committed conns where sub:
      "s_array_contains_conn_unlocked (if ch_connections st = None then krs_array_create (ha_array al) (ha_cells al) 8
          else ch_connections st) r = Some there"
      "(let conns0 = (if ch_connections st = None then krs_array_create (ha_array al) (ha_cells al) 8 else ch_connections st) in
        if conns0 \<noteq> None \<and> there then Some (True, conns0)
        else if conns0 = None then Some (False, conns0)
        else do { (res, conns') \<leftarrow> krs_array_push (ha_push al) conns0 (Some r); Some (rb_error_code res = KRS_SUCCESS, conns') }) =
        Some (committed, conns)"
      "chan_ok (st\<lparr>ch_connections := conns\<rparr>)"
      "chan_refs (st\<lparr>ch_connections := conns\<rparr>) =
        (if committed \<and> r \<notin> set (chan_refs st) then chan_refs st @ [r] else chan_refs st)"
      "ha_array al \<and> ha_cells al \<noteq> None \<and> ha_push al \<noteq> None \<longrightarrow> committed"
      using subscribe_array [OF ok(1,2), of "ha_array al" "ha_cells al" r "ha_push al"] unfolding Let_def by blast
    obtain desc' where desc': "set_channel tgt (st\<lparr>ch_connections := conns\<rparr>) desc = Some desc'"
      using set_channel_Some [OF dd(1)] by blast
    have sub_refs: "set (chan_refs (st\<lparr>ch_connections := conns\<rparr>)) \<subseteq> set (refs0 desc)"
      using sub(4) ok(3) conn_at_in [OF Some] by auto
    note dok = desc_ok_channel [OF dd(1) desc' sub(3) body(5) sub_refs]
    have sock: "ds_udp_socket_ref desc' = ds_udp_socket_ref desc"
      using desc' by (auto simp: set_channel_def split: Option.bind_splits)
    have "s_dispatch_subscribe al d f addr w = Some (ack_if committed al desc addr f, set_desc d desc' w)"
      using body le d find_on_channel0 [OF m d, of addr] Some st(1) sub(1,2) desc' send [OF buf] sock
      by (simp add: s_dispatch_subscribe_def ack_if_def Let_def)
    moreover have "ch_refs desc' ch = (if ch = tgt \<and> committed \<and> r \<notin> set (ch_refs desc ch) then ch_refs desc ch @ [r]
        else ch_refs desc ch)" for ch
      using ch_refs_set_channel [OF wf desc', of ch] sub(4) st(3) by (auto simp: ch_refs_def)
    ultimately show ?thesis
      using Some dok sock sub(5) set_channel_sts [OF desc'] by (intro exI [of _ committed] exI [of _ desc']) (auto simp: desc_step_def sub_allocs_ok_def)
  qed
qed


lemma filter_absent: "x \<notin> set xs \<Longrightarrow> filter (\<lambda>c. c \<noteq> x) xs = xs"
  by (rule filter_True) auto

lemma remove_nth_find_index:
  assumes "find_index (\<lambda>c. c = r) xs = Some i" and "distinct xs"
  shows "remove_nth i xs = filter (\<lambda>c. c \<noteq> r) xs" and "i < length xs"
proof -
  have i: "i < length xs" "xs ! i = r" using assms(1) by (auto simp: find_index_Some_iff)
  show "i < length xs" by (rule i)
  have s: "xs = take i xs @ r # drop (Suc i) xs" using i by (metis id_take_nth_drop)
  then have "distinct (take i xs @ r # drop (Suc i) xs)" using assms(2) by simp
  then have "filter (\<lambda>c. c \<noteq> r) (take i xs @ r # drop (Suc i) xs) = take i xs @ drop (Suc i) xs"
    by (simp add: filter_absent del: append_take_drop_id)
  then show "remove_nth i xs = filter (\<lambda>c. c \<noteq> r) xs" using s by (simp add: remove_nth_def)
qed

lemma unsubscribe_core:
  assumes inv: "sv_inv w" and d: "w_descs w d = Some desc" and f: "frame_ok f"
    and tgt: "sub_target f = Some tgt" and bufs: "handler_bufs_ok al"
  shows "\<exists>desc'. s_dispatch_unsubscribe al d f addr w = Some (ack_if True al desc addr f, set_desc d desc' w) \<and>
    desc_step desc desc' \<and>
    (\<forall>ch. ch_refs desc' ch = (case conn_at w desc 0 addr of
         Some r \<Rightarrow> if ch = tgt then filter (\<lambda>c. c \<noteq> r) (ch_refs desc ch) else ch_refs desc ch
       | None \<Rightarrow> ch_refs desc ch))"
proof -
  obtain spm m where m: "desc_conns_ok w m" using inv by (rule sv_invE)
  note dd = desc_conns_okD [OF m d]
  obtain body where body: "frame_body f = Some body" "\<not> frame_body_length f < 1" "mem_get body 0 = Some tgt" "\<not> tgt < 10" "tgt \<noteq> 0"
    by (rule sub_target_Some [OF tgt f])
  have wf: "desc_wf desc" using dd(1) by (simp add: desc_ok_def)
  have le: "\<not> 255 < unat tgt" using channel_index [of tgt] by linarith
  have buf: "64 \<le> length (ha_ack_buf al)" using bufs by (simp add: handler_bufs_ok_def)
  note send = s_send_ack_response_spec [OF buf]
  obtain st where st: "get_channel desc tgt = Some st" "st \<in> set (ds_channel_states desc)"
      "st = ds_channel_states desc ! unat tgt" using dd(1) by (rule get_channel_Some)
  have ok: "chan_ok st" "set (chan_refs st) \<subseteq> set (refs0 desc)" using dd(1) st(2) by (auto simp: desc_ok_def)
  have same: ?thesis if "s_dispatch_unsubscribe al d f addr w = Some (ack_if True al desc addr f, w)"
    "\<And>r. conn_at w desc 0 addr = Some r \<Longrightarrow> r \<notin> set (chan_refs st)"
    using that dd(1) d st(3)
    by (intro exI [of _ desc]) (auto simp: desc_step_def set_desc_same ch_refs_def filter_absent split: option.splits)
  show ?thesis
  proof (cases "conn_at w desc 0 addr")
    case None
    have "s_dispatch_unsubscribe al d f addr w = Some (ack_if True al desc addr f, w)"
      using body le d find_on_channel0 [OF m d, of addr] None send by (simp add: s_dispatch_unsubscribe_def set_desc_same ack_if_def)
    with None show ?thesis by (intro same) simp_all
  next
    case (Some r)
    note base = body le d find_on_channel0 [OF m d, of addr] Some st(1) send
    show ?thesis
    proof (cases "ch_connections st")
      case None
      with base show ?thesis by (intro same) (simp_all add: s_dispatch_unsubscribe_def set_desc_same ack_if_def chan_refs_def)
    next
      case a: (Some a)
      then have ao: "arr_ok a" "arr_vals a = chan_refs st" "distinct (arr_vals a)" using ok(1) by (auto simp: chan_ok_def chan_refs_def)
      note idx = conn_index_spec [OF ao(1), of r]
      show ?thesis
      proof (cases "find_index (\<lambda>c. c = r) (arr_vals a)")
        case None
        then have "r \<notin> set (chan_refs st)" using ao(2) by (auto simp: find_index_None_iff)
        with base a idx None show ?thesis by (intro same) (simp_all add: s_dispatch_unsubscribe_def set_desc_same ack_if_def)
      next
        case i: (Some i)
        note rm = remove_nth_find_index [OF i ao(3)]
        obtain a' where a': "array_drop a i = Some a'" "arr_ok a'" "arr_vals a' = filter (\<lambda>c. c \<noteq> r) (arr_vals a)"
          using kra.drp_remove [OF ao(1) rm(2)] rm(1) by auto
        let ?st = "st\<lparr>ch_connections := Some a'\<rparr>"
        obtain desc' where desc': "set_channel tgt ?st desc = Some desc'" using set_channel_Some [OF dd(1)] by blast
        have cok: "chan_ok ?st" "chan_refs ?st = filter (\<lambda>c. c \<noteq> r) (chan_refs st)"
          using a' ao ok(1) by (auto simp: chan_ok_def chan_refs_def)
        then have "set (chan_refs ?st) \<subseteq> set (refs0 desc)" using ok(2) by auto
        note dok = desc_ok_channel [OF dd(1) desc' cok(1) body(5) this]
        have sock: "ds_udp_socket_ref desc' = ds_udp_socket_ref desc"
          using desc' by (auto simp: set_channel_def split: Option.bind_splits)
        have "s_dispatch_unsubscribe al d f addr w = Some (ack_if True al desc addr f, set_desc d desc' w)"
          using base a idx i a'(1) desc' sock by (simp add: s_dispatch_unsubscribe_def ack_if_def Let_def)
        moreover have "ch_refs desc' ch = (if ch = tgt then filter (\<lambda>c. c \<noteq> r) (ch_refs desc ch) else ch_refs desc ch)" for ch
          using ch_refs_set_channel [OF wf desc', of ch] cok(2) st(3) by (auto simp: ch_refs_def)
        ultimately show ?thesis using Some dok sock set_channel_sts [OF desc'] by (intro exI [of _ desc']) (simp add: desc_step_def)
      qed
    qed
  qed
qed

section \<open>Application frames\<close>

text \<open>The fragments that the reassembler of their channel can take (see \<open>krs_reassembler_feed_safe\<close>).\<close>

definition fragment_fits :: "udp_socket_descriptor \<Rightarrow> krs_frame \<Rightarrow> bool" where
  "fragment_fits desc f \<longleftrightarrow> (fragment_frame f \<longrightarrow>
     (\<forall>re p. ch_reassembler (ds_channel_states desc ! unat (frame_channel f)) = Some re \<longrightarrow>
        re_map re (frame_packet_id f) = Some p \<longrightarrow> unat (frame_index f) < pd_total p))"

lemma reassembler_create_wf: "krs_reassembler_create a b c = Some re \<Longrightarrow> re_wf re \<and> re_map re = Map.empty"
  by (auto simp: krs_reassembler_create_def re_wf_def re_map_def sess_map_def create_vals split: if_splits option.splits)

lemma app_payload_safe:
  assumes inv: "sv_inv w" and d: "w_descs w d = Some desc" and f: "frame_ok f" and ch: "10 \<le> frame_channel f"
    and fits: "fragment_fits desc f"
  shows "\<exists>p w' desc'. app_payload al now d f w = Some (p, w') \<and> sv_inv w' \<and> w_descs w' d = Some desc' \<and> desc_step desc desc' \<and>
    w_conns w' = w_conns w \<and> (\<forall>ch. ch_refs desc' ch = ch_refs desc ch) \<and>
    (\<forall>d'. d' \<noteq> d \<longrightarrow> w_descs w' d' = w_descs w d')"
proof (cases "has_flag (frame_presence_flags f) META_FLAG_FRAGMENT_INFO")
  case False
  obtain spm m where m: "desc_conns_ok w m" using inv by (rule sv_invE)
  from desc_conns_okD(1) [OF m d] False inv d show ?thesis by (simp add: app_payload_def desc_step_def)
next
  case True
  obtain spm m where m: "w_spm w = Some spm" "desc_conns_ok w m" using inv by (rule sv_invE)
  note dd = desc_conns_okD [OF m(2) d]
  have wf: "desc_wf desc" using dd(1) by (simp add: desc_ok_def)
  let ?ch = "frame_channel f"
  have ch0: "?ch \<noteq> 0" using ch by auto
  obtain st where st: "get_channel desc ?ch = Some st" "st \<in> set (ds_channel_states desc)"
      "st = ds_channel_states desc ! unat ?ch" using dd(1) by (rule get_channel_Some)
  have ok: "chan_ok st" "set (chan_refs st) \<subseteq> set (refs0 desc)" using dd(1) st(2) by (auto simp: desc_ok_def)
  define spm1 where "spm1 = spm\<lparr>stat_fragments_received := stat_fragments_received spm + 1\<rparr>"
  have inv1: "sv_inv (set_spm spm1 w)" by (rule sv_inv_spm [OF inv m(1)]) (simp add: spm1_def)
  define re0 where "re0 = (if ch_reassembler st = None
    then krs_reassembler_create (ha_reassembler al) (ha_sessions al) (ha_session_cells al) else ch_reassembler st)"
  have upd: "sv_inv (set_desc d desc' (set_spm spm2 w)) \<and> desc_step desc desc' \<and> (\<forall>ch. ch_refs desc' ch = ch_refs desc ch)"
    if c: "set_channel ?ch (st\<lparr>ch_reassembler := re\<rparr>) desc = Some desc'" and re: "\<And>x. re = Some x \<Longrightarrow> re_wf x"
      and s: "spm_connection_map spm2 = spm_connection_map spm" for re desc' spm2
  proof -
    have "chan_ok (st\<lparr>ch_reassembler := re\<rparr>)" "chan_refs (st\<lparr>ch_reassembler := re\<rparr>) = chan_refs st"
      using ok(1) re by (auto simp: chan_ok_def chan_refs_def)
    note dok = desc_ok_channel [OF dd(1) c this(1) ch0] and refs = this(2)
    have "sv_inv (set_spm spm2 w)" by (rule sv_inv_spm [OF inv m(1) s])
    then have "sv_inv (set_desc d desc' (set_spm spm2 w))"
      using dok ok(2) refs d by (intro sv_inv_desc [where desc = desc]) simp_all
    moreover have "ds_udp_socket_ref desc' = ds_udp_socket_ref desc"
      using c by (auto simp: set_channel_def split: Option.bind_splits)
    moreover have "\<forall>ch. ch_refs desc' ch = ch_refs desc ch"
      using ch_refs_set_channel [OF wf c] refs st(3) by (auto simp: ch_refs_def)
    ultimately show ?thesis using dok ok(2) refs set_channel_sts [OF c] by (simp add: desc_step_def)
  qed
  show ?thesis
  proof (cases re0)
    case None
    obtain desc' where c: "set_channel ?ch (st\<lparr>ch_reassembler := None\<rparr>) desc = Some desc'" using set_channel_Some [OF dd(1)] by blast
    have "ch_reassembler st = None" "krs_reassembler_create (ha_reassembler al) (ha_sessions al) (ha_session_cells al) = None"
      using None by (simp_all add: re0_def split: if_splits)
    with True m(1) d st(1) c upd [OF c, of spm1] show ?thesis
      by (simp add: app_payload_def Let_def spm1_def)
  next
    case (Some re)
    have wfre: "re_wf re"
      using Some ok(1) reassembler_create_wf by (auto simp: re0_def chan_ok_def split: if_splits)
    have "\<forall>p. re_map re (frame_packet_id f) = Some p \<longrightarrow> unat (frame_index f) < pd_total p" if "fragment_frame f"
      using that fits Some st(3) reassembler_create_wf by (auto simp: fragment_fits_def re0_def split: if_splits)
    from feed_defined [OF wfre f this, of "ha_feed al" now] obtain res re' where
      feed: "krs_reassembler_feed (ha_feed al) now (Some re) (Some f) = Some (res, Some re')" "re_wf re'" by blast
    obtain desc' where c: "set_channel ?ch (st\<lparr>ch_reassembler := Some re'\<rparr>) desc = Some desc'" using set_channel_Some [OF dd(1)] by blast
    let ?spm2 = "spm1\<lparr>stat_fragments_reassembled := stat_fragments_reassembled spm1 + 1\<rparr>"
    have st1: "(if ch_reassembler st = None then st\<lparr>ch_reassembler := krs_reassembler_create (ha_reassembler al)
        (ha_sessions al) (ha_session_cells al)\<rparr> else st) = st\<lparr>ch_reassembler := Some re\<rparr>"
      using Some by (cases st) (auto simp: re0_def split: if_splits)
    have run: "app_payload al now d f w = (if \<not> rr_complete res then Some (None, set_desc d desc' (set_spm spm1 w))
        else Some (Some (rr_data res, ucast (rr_data_length res), rr_ack_required res), set_spm ?spm2 (set_desc d desc' (set_spm spm1 w))))"
      using True m(1) d st(1) feed(1) c unfolding app_payload_def Let_def
      by (simp add: st1 spm1_def)
    have swap: "set_spm ?spm2 (set_desc d desc' (set_spm spm1 w)) = set_desc d desc' (set_spm ?spm2 w)"
      by (simp add: set_spm_def set_desc_def)
    have s: "spm_connection_map spm1 = spm_connection_map spm" "spm_connection_map ?spm2 = spm_connection_map spm"
      by (simp_all add: spm1_def)
    show ?thesis
      using run [unfolded swap] upd [OF c _ s(1)] upd [OF c _ s(2)] feed(2) by (cases "rr_complete res") simp_all
  qed
qed


lemma deliver_safe:
  assumes inv: "sv_inv w" and d: "w_descs w d = Some desc" and bufs: "handler_bufs_ok al"
  shows "\<exists>w'. app_deliver al d f addr data len ack w = Some
    ((if ack \<and> ha_builder al then [Ev_send (ds_udp_socket_ref desc, addr, ack_frame (frame_channel f) (frame_packet_id f))] else []) @
     (case conn_at w desc (frame_channel f) addr of
        None \<Rightarrow> []
      | Some r \<Rightarrow>
          (case (if ds_channel_callbacks desc ! unat (frame_channel f) = None then ds_port_callback desc
                 else ds_channel_callbacks desc ! unat (frame_channel f)) of
             None \<Rightarrow> []
           | Some cb \<Rightarrow> [Ev_message cb (frame_channel f) (cn_connection_id (the (w_conns w r))) data len
                (if ds_channel_callbacks desc ! unat (frame_channel f) = None then ds_port_callback_user_data desc
                 else ds_channel_callback_user_data desc ! unat (frame_channel f))])), w') \<and>
    sv_inv w' \<and> w_descs w' = w_descs w \<and> w_conns w' = w_conns w"
proof -
  obtain spm m where m: "w_spm w = Some spm" "desc_conns_ok w m" using inv by (rule sv_invE)
  note dd = desc_conns_okD [OF m(2) d]
  let ?ch = "frame_channel f"
  obtain st where st: "get_channel desc ?ch = Some st" "st \<in> set (ds_channel_states desc)"
      "st = ds_channel_states desc ! unat ?ch" using dd(1) by (rule get_channel_Some)
  have ok: "chan_ok st" using dd(1) st(2) by (simp add: desc_ok_def)
  have find: "(case ch_connections st of None \<Rightarrow> Some None
      | Some subs \<Rightarrow> find_conn (w_conns w) (same_address addr) subs 0 (arr_rounds subs)) = Some (conn_at w desc ?ch addr)"
  proof (cases "ch_connections st")
    case None
    with st show ?thesis by (simp add: conn_at_def ch_refs_def chan_refs_def)
  next
    case (Some a)
    then have "arr_ok a" "chan_refs st = arr_vals a" using ok by (auto simp: chan_ok_def chan_refs_def)
    with find_conn_spec [of a "w_conns w" "same_address addr"] dd(3) [OF st(2)] st Some show ?thesis
      by (simp add: conn_at_def ch_refs_def)
  qed
  have alive: "\<exists>c. w_conns w r = Some c" if "conn_at w desc ?ch addr = Some r" for r
    using that dd(3) [OF st(2)] st(3) by (fastforce simp: conn_at_def ch_refs_def find_Some_iff)
  have cbs: "mem_get (ds_channel_callbacks desc) (unat ?ch) = Some (ds_channel_callbacks desc ! unat ?ch)"
      "mem_get (ds_channel_callback_user_data desc) (unat ?ch) = Some (ds_channel_callback_user_data desc ! unat ?ch)"
    using dd(1) channel_index [of ?ch] by (auto simp: mem_get_def desc_ok_def desc_wf_def)
  have buf: "64 \<le> length (ha_ack_buf al)" using bufs by (simp add: handler_bufs_ok_def)
  define w1 where "w1 = (if ack then set_spm (spm\<lparr>stat_ack_sent := stat_ack_sent spm + 1\<rparr>) w else w)"
  have w1: "sv_inv w1" "w_conns w1 = w_conns w" "w_descs w1 = w_descs w"
    using inv sv_inv_spm [OF inv m(1), of "spm\<lparr>stat_ack_sent := stat_ack_sent spm + 1\<rparr>"] by (simp_all add: w1_def)
  have find1: "(case ch_connections st of None \<Rightarrow> Some None
      | Some subs \<Rightarrow> find_conn (w_conns w1) (same_address addr) subs 0 (arr_rounds subs)) = Some (conn_at w desc ?ch addr)"
    unfolding w1(2) by (rule find)
  have acks: "(if ack then do {
          evs \<leftarrow> s_send_ack_response (ha_builder al) (ha_ack_buf al) desc (Some addr) ?ch (frame_packet_id f);
          spm \<leftarrow> w_spm w;
          Some (evs, set_spm (spm\<lparr>stat_ack_sent := stat_ack_sent spm + 1\<rparr>) w) }
        else Some ([], w)) =
      Some (if ack \<and> ha_builder al then [Ev_send (ds_udp_socket_ref desc, addr, ack_frame ?ch (frame_packet_id f))] else [], w1)"
    using m(1) s_send_ack_response_spec [OF buf] by (simp add: w1_def)
  show ?thesis
  proof (cases "conn_at w desc ?ch addr")
    case None
    then show ?thesis using w1 unfolding app_deliver_def d bind.bind_lunit acks prod.case st(1) find1 by simp
  next
    case (Some r)
    then obtain c where c: "w_conns w r = Some c" using alive by blast
    then show ?thesis
      using w1 Some unfolding app_deliver_def d bind.bind_lunit acks prod.case st(1) find1
      by (simp add: cbs split: option.splits)
  qed
qed


section \<open>Evictions\<close>

lemma same_address_iff: "same_address addr c \<longleftrightarrow> addr_key (cn_remote_address c) = addr_key addr"
  by (simp add: same_address_def port_address_equals_iff)

lemma read_ids_spec: "\<forall>r \<in> set rs. cs r \<noteq> None \<Longrightarrow> read_ids cs rs = Some (map (\<lambda>r. cn_connection_id (the (cs r))) rs)"
  by (induction rs) auto

lemma remove_ids_spec:
  assumes "cm_ok m" and "refs_ok cs (cm_abs m)"
  shows "\<exists>m'. remove_ids cs ids (Some m) = Some (Some m') \<and> cm_ok m' \<and>
    ids_of m' = (\<lambda>i. if i \<in> set ids then None else ids_of m i)"
  using assms
proof (induction ids arbitrary: m)
  case (Cons i ids)
  obtain m1 where m1: "krs_connection_map_remove cs (Some m) i = Some (Some m1)" "cm_ok m1"
      "cm_abs m1 = cm_spec_step cs (Cm_remove i) (cm_abs m)"
    using cm_remove_spec [OF Cons.prems, of i] by blast
  have r1: "refs_ok cs (cm_abs m1)" unfolding m1(3) by (rule refs_ok_step [OF Cons.prems(2)]) simp
  have ids1: "ids_of m1 = (ids_of m)(i := None)"
    unfolding m1(3) by (auto split: option.splits simp: fun_upd_idem)
  from Cons.IH [OF m1(2) r1] m1(1) show ?case by (auto simp: ids1 fun_eq_iff)
qed simp

lemma release_all_spec:
  assumes "distinct rs" and "\<forall>r \<in> set rs. \<exists>c. cs r = Some c \<and> cn_refcount c = 1 \<and> tracker_ok c"
  shows "release_all rs cs = Some (\<lambda>r. if r \<in> set rs then None else cs r)"
  using assms
proof (induction rs arbitrary: cs)
  case (Cons r rs)
  then obtain c where c: "cs r = Some c" "cn_refcount c = 1" "tracker_ok c" by auto
  have "\<exists>x. krs_ack_tracker_destroy (cn_ack_tracker c) = Some x"
    using c(3) by (auto simp: tracker_ok_def krs_ack_tracker_destroy_def destroy_items_vals dest: ack_wfD split: option.splits)
  then have "krs_connection_map_release cs (Some r) = Some (cs(r := None))"
    using c by (auto simp: krs_connection_map_release_def)
  moreover have "release_all rs (cs(r := None)) = Some (\<lambda>q. if q \<in> set rs then None else (cs(r := None)) q)"
    using Cons.prems by (intro Cons.IH) auto
  ultimately show ?case by (auto simp: fun_eq_iff)
qed simp

lemma track_all_props:
  assumes "distinct os" and "length os \<le> 64"
  shows "distinct (track_all rs os)" and "length (track_all rs os) \<le> 64"
  using assms by (induction rs arbitrary: os) (auto simp: track_orphan_def)

text \<open>If there is room for all of them, the connections are remembered in the order of their first visit.\<close>

lemma track_all_room:
  "distinct os \<Longrightarrow> card (set os \<union> set rs) \<le> 64 \<Longrightarrow> set (track_all rs os) = set os \<union> set rs"
proof (induction rs arbitrary: os)
  case (Cons r rs)
  have fin: "card (set os) \<le> card (set os \<union> set (r # rs))" by (rule card_mono) auto
  have "set (track_orphan r os) = insert r (set os)"
  proof (cases "r \<in> set os")
    case False
    then have "card (insert r (set os)) = Suc (length os)" using Cons.prems(1) by (simp add: distinct_card)
    moreover have "card (insert r (set os)) \<le> card (set os \<union> set (r # rs))" by (rule card_mono) auto
    ultimately show ?thesis using Cons.prems(2) False by (auto simp: track_orphan_def)
  qed (auto simp: track_orphan_def)
  moreover have "distinct (track_orphan r os)" using Cons.prems(1) by (auto simp: track_orphan_def)
  ultimately show ?case using Cons.IH [of "track_orphan r os"] Cons.prems(2) by auto
qed simp

lemma swept_desc:
  assumes "desc_ok desc" and sw: "list_all2 (swept P) (ds_channel_states desc) sts"
  defines "desc' \<equiv> desc\<lparr>ds_channel_states := sts\<rparr>"
  shows "desc_ok desc'" and "refs0 desc' = filter (\<lambda>r. \<not> P r) (refs0 desc)"
    and "\<And>ch. ch_refs desc' ch = filter (\<lambda>r. \<not> P r) (ch_refs desc ch)"
proof -
  have len: "length sts = 256" "length (ds_channel_states desc) = 256"
    using assms(1) list_all2_lengthD [OF sw] by (simp_all add: desc_ok_def desc_wf_def)
  show c: "ch_refs desc' ch = filter (\<lambda>r. \<not> P r) (ch_refs desc ch)" for ch
    using list_all2_nthD [OF sw, of "unat ch"] channel_index [of ch] len by (simp add: ch_refs_def desc'_def swept_def)
  show r: "refs0 desc' = filter (\<lambda>r. \<not> P r) (refs0 desc)" using c [of 0] by (simp add: ch_refs_def refs0_def)
  have "chan_ok st \<and> set (chan_refs st) \<subseteq> set (refs0 desc')" if st: "st \<in> set sts" for st
  proof -
    obtain i where i: "i < length sts" "st = sts ! i" using st by (auto simp: in_set_conv_nth)
    let ?o = "ds_channel_states desc ! i"
    have "swept P ?o st" using list_all2_nthD [OF sw] i len by simp
    moreover have "chan_ok ?o" "set (chan_refs ?o) \<subseteq> set (refs0 desc)"
      using assms(1) i(1) len nth_mem [of i "ds_channel_states desc"] by (auto simp: desc_ok_def)
    ultimately show ?thesis unfolding r by (auto simp: swept_def)
  qed
  then show "desc_ok desc'" using assms(1) len by (simp add: desc_ok_def desc_wf_def desc'_def)
qed


text \<open>
  Evicting connections of a descriptor: \<open>desc'\<close> is the descriptor after the sweep and \<open>os\<close> the
  connections to finish off.
\<close>

lemma finalize_spec:
  assumes inv: "sv_inv w" and d: "w_descs w d = Some desc" and ok': "desc_ok desc'"
    and sub: "set (refs0 desc') \<subseteq> set (refs0 desc) - set os" and os: "distinct os" "length os \<le> 64" "set os \<subseteq> set (refs0 desc)"
  shows "\<exists>w'. krs_server_finalize_orphan_evictions desc' os (set_desc d desc' w) =
      Some ((case ds_disconnect_callback desc' of
               None \<Rightarrow> []
             | Some cb \<Rightarrow> map (\<lambda>r. Ev_disconnect cb (cn_connection_id (the (w_conns w r))) 0 (ds_disconnect_callback_user_data desc')) os), w') \<and>
    sv_inv w' \<and> w_descs w' = (w_descs w)(d \<mapsto> desc') \<and>
    w_conns w' = (\<lambda>r. if r \<in> set os then None else w_conns w r) \<and>
    (\<forall>m. sv_map w = Some m \<longrightarrow> (\<exists>m'. sv_map w' = Some m' \<and>
       ids_of m' = (\<lambda>i. if i \<in> (\<lambda>r. cn_connection_id (the (w_conns w r))) ` set os then None else ids_of m i)))"
proof -
  obtain spm m where m: "w_spm w = Some spm" "spm_connection_map spm = Some m" "cm_ok m" "desc_conns_ok w m" "map_conns_ok w m"
    using inv by (rule sv_invE)
  note dd = desc_conns_okD [OF m(4) d]
  have conn: "\<exists>c. w_conns w r = Some c \<and> ids_of m (cn_connection_id c) = Some (Some d, Some r) \<and> conn_ok w c"
    if "r \<in> set os" for r
    using dd(2) [of r] os(3) that inv by (fastforce simp: sv_inv_def)
  let ?cid = "\<lambda>r. cn_connection_id (the (w_conns w r))"
  let ?cs = "\<lambda>r. if r \<in> set os then None else w_conns w r"
  obtain m' where m': "remove_ids (w_conns w) (map ?cid os) (Some m) = Some (Some m')" "cm_ok m'"
      "ids_of m' = (\<lambda>i. if i \<in> set (map ?cid os) then None else ids_of m i)"
    using remove_ids_spec [OF m(3) sv_inv_refs_ok [OF m(5)]] by blast
  have read: "read_ids (w_conns w) os = Some (map ?cid os)" using conn by (intro read_ids_spec) fastforce
  have rel: "release_all os (w_conns w) = Some ?cs"
    using conn by (intro release_all_spec [OF os(1)]) (fastforce simp: conn_ok_def)
  define spm' where "spm' = (if os = [] then spm else spm\<lparr>spm_connection_map := Some m',
    stat_disconnections := stat_disconnections spm + of_nat (length os)\<rparr>)"
  define w' where "w' = (set_spm spm' (set_desc d desc' w))\<lparr>w_conns := ?cs\<rparr>"
  have map': "spm_connection_map spm' = Some m'" using m(2) m' by (auto simp: spm'_def)
  have run: "krs_server_finalize_orphan_evictions desc' os (set_desc d desc' w) =
      Some ((case ds_disconnect_callback desc' of None \<Rightarrow> []
        | Some cb \<Rightarrow> map (\<lambda>r. Ev_disconnect cb (?cid r) 0 (ds_disconnect_callback_user_data desc')) os), w')"
  proof (cases "os = []")
    case True
    then show ?thesis using m(1) by (simp add: krs_server_finalize_orphan_evictions_def w'_def spm'_def set_spm_def set_desc_def
          split: option.splits)
  next
    case False
    then show ?thesis
      using m(1,2) m'(1) read rel os(2)
      by (simp add: krs_server_finalize_orphan_evictions_def w'_def spm'_def comp_def split: option.splits)
  qed
  have w': "w_descs w' = (w_descs w)(d \<mapsto> desc')" "w_conns w' = ?cs" "sv_map w' = Some m'" "w_next_connection_id w' = w_next_connection_id w"
    by (simp_all add: w'_def sv_map_def map')
  have keep: "\<exists>c. w_conns w' r = Some c \<and> ids_of m' (cn_connection_id c) = Some (Some e, Some r)"
    if c: "w_conns w r = Some c" "ids_of m (cn_connection_id c) = Some (Some e, Some r)" and r: "r \<notin> set os" for r e c
  proof -
    have "cn_connection_id c \<noteq> ?cid q" if "q \<in> set os" for q
      using conn [OF that] c(2) r that by auto
    with c r show ?thesis by (auto simp: w'(2) m'(3))
  qed
  have other: "r \<notin> set os" if e: "w_descs w e = Some x" "r \<in> set (refs0 x)" "e \<noteq> d" for e x r
  proof
    assume "r \<in> set os"
    from conn [OF this] desc_conns_okD(2) [OF m(4) e(1,2)] e(3) show False by auto
  qed
  have "desc_conns_ok w' m'"
    unfolding desc_conns_ok_def
  proof (intro allI impI conjI ballI)
    fix e x assume e: "w_descs w' e = Some x"
    show "desc_ok x" using e ok' desc_conns_okD(1) [OF m(4)] by (auto simp: w'(1) split: if_splits)
    obtain y where y: "w_descs w e = Some y" "set (refs0 x) \<subseteq> set (refs0 y)" "set (refs0 x) \<inter> set os = {}"
      using e sub other d by (cases "e = d") (auto simp: w'(1))
    show "inj_on (conn_key (w_conns w')) (set (refs0 x))"
    proof (rule inj_onI)
      fix a b assume ab: "a \<in> set (refs0 x)" "b \<in> set (refs0 x)" "conn_key (w_conns w') a = conn_key (w_conns w') b"
      have "a \<notin> set os" "b \<notin> set os" using ab(1,2) y(3) by auto
      then have "conn_key (w_conns w) a = conn_key (w_conns w) b" using ab(3) by (simp add: conn_key_def w'(2))
      with ab(1,2) y(2) desc_conns_okD(4) [OF m(4) y(1)] show "a = b" by (auto dest: inj_onD)
    qed
    fix r assume r: "r \<in> set (refs0 x)"
    then obtain c where "w_conns w r = Some c" "ids_of m (cn_connection_id c) = Some (Some e, Some r)"
      using desc_conns_okD(2) [OF m(4) y(1)] y(2) by blast
    from keep [OF this] r y(3) show "\<exists>c. w_conns w' r = Some c \<and> ids_of m' (cn_connection_id c) = Some (Some e, Some r)" by auto
  qed
  moreover have "map_conns_ok w' m'"
    unfolding map_conns_ok_def
  proof (intro allI impI)
    fix i e assume "ids_of m' i = Some e"
    then have i: "ids_of m i = Some e" "i \<notin> set (map ?cid os)" by (simp_all add: m'(3) split: if_splits)
    then obtain x r c where e: "e = (Some x, Some r)" "w_descs w x \<noteq> None" "w_conns w r = Some c" "cn_connection_id c = i"
      using m(5) unfolding map_conns_ok_def by blast
    then have "r \<notin> set os" using i(2) by force
    with e show "\<exists>d r c. e = (Some d, Some r) \<and> w_descs w' d \<noteq> None \<and> w_conns w' r = Some c \<and> cn_connection_id c = i"
      by (auto simp: w'(1,2))
  qed
  moreover have "conn_ok w' c" if "w_conns w' r = Some c" for r c
    using that inv by (auto simp: w'(2,4) sv_inv_def conn_ok_def split: if_splits)
  ultimately have "sv_inv w'" using w'(3) m'(2) by (auto simp: sv_inv_def)
  with run w' m' m show ?thesis by (auto simp: sv_map_def)
qed


text \<open>A disconnection: at most one connection of the descriptor has the address.\<close>

lemma find_filter: "find P xs = (case filter P xs of [] \<Rightarrow> None | x # _ \<Rightarrow> Some x)"
  by (induction xs) auto

lemma at_address:
  assumes "desc_conns_ok w m" and "w_descs w d = Some desc"
  shows "filter (\<lambda>r. same_address addr (the (w_conns w r))) (refs0 desc) =
    (case conn_at w desc 0 addr of None \<Rightarrow> [] | Some r \<Rightarrow> [r])"
proof -
  note dd = desc_conns_okD [OF assms]
  let ?P = "\<lambda>r. same_address addr (the (w_conns w r))"
  have "ds_channel_states desc ! 0 \<in> set (ds_channel_states desc)"
    using dd(1) by (intro nth_mem) (simp add: desc_ok_def desc_wf_def)
  then have dist: "distinct (refs0 desc)" using dd(1) by (auto simp: desc_ok_def chan_ok_def refs0_def)
  have c: "conn_at w desc 0 addr = find ?P (refs0 desc)" by (simp add: conn_at_def ch_refs_def refs0_def)
  show ?thesis
  proof (cases "filter ?P (refs0 desc)")
    case Nil
    then show ?thesis using c by (simp add: find_filter)
  next
    case (Cons r rs)
    then have r: "r \<in> set (refs0 desc)" "?P r" by (metis filter_eq_ConsD in_set_conv_decomp)+
    have "rs = []"
    proof (rule ccontr)
      assume "rs \<noteq> []"
      then obtain q qs where "rs = q # qs" by (cases rs) auto
      then have "q \<in> set (filter ?P (refs0 desc))" "q \<noteq> r"
        using Cons distinct_filter [OF dist, of ?P] by auto
      then have "q \<in> set (refs0 desc)" "conn_key (w_conns w) q = conn_key (w_conns w) r"
        using r(2) by (auto simp: same_address_iff conn_key_def)
      with dd(4) r(1) \<open>q \<noteq> r\<close> show False by (auto dest: inj_onD)
    qed
    with Cons c show ?thesis by (simp add: find_filter)
  qed
qed

lemma disconnect_spec:
  fixes addr :: port_address
  assumes inv: "sv_inv w" and d: "w_descs w d = Some desc"
  defines "os \<equiv> (case conn_at w desc 0 addr of None \<Rightarrow> [] | Some r \<Rightarrow> [r])"
  shows "\<exists>w' desc'. s_dispatch_disconnect d addr w =
      Some ((case ds_disconnect_callback desc of
               None \<Rightarrow> []
             | Some cb \<Rightarrow> map (\<lambda>r. Ev_disconnect cb (cn_connection_id (the (w_conns w r))) 0 (ds_disconnect_callback_user_data desc)) os), w') \<and>
    sv_inv w' \<and> w_descs w' = (w_descs w)(d \<mapsto> desc') \<and>
    (\<forall>ch. ch_refs desc' ch = filter (\<lambda>r. r \<notin> set os) (ch_refs desc ch)) \<and>
    w_conns w' = (\<lambda>r. if r \<in> set os then None else w_conns w r) \<and>
    (\<forall>m. sv_map w = Some m \<longrightarrow> (\<exists>m'. sv_map w' = Some m' \<and>
       ids_of m' = (\<lambda>i. if i \<in> (\<lambda>r. cn_connection_id (the (w_conns w r))) ` set os then None else ids_of m i)))"
proof -
  obtain spm m where m: "desc_conns_ok w m" using inv by (rule sv_invE)
  note dd = desc_conns_okD [OF m d]
  let ?P = "\<lambda>r. same_address addr (the (w_conns w r))"
  let ?sts = "ds_channel_states desc"
  have fP: "filter ?P (refs0 desc) = os" unfolding os_def by (rule at_address [OF m d])
  have P_os: "?P r \<longleftrightarrow> r \<in> set os" if "r \<in> set (refs0 desc)" for r using that by (auto simp: fP [symmetric])
  have sw: "sweeps ?P (\<Union>st \<in> set ?sts. set (chan_refs st)) (disconnect_body (w_conns w) addr)"
    using dd(3) by (fastforce simp: sweeps_def disconnect_body_def)
  define cat where "cat = concat (map (\<lambda>st. rev (filter ?P (chan_refs st))) ?sts)"
  obtain sts where sts: "sweep_channels (disconnect_body (w_conns w) addr) ?sts [] = Some (sts, track_all cat [])"
      "list_all2 (swept ?P) ?sts sts"
    using sweep_channels_spec [OF _ sw, of "[]"] dd(1) by (auto simp: desc_ok_def cat_def)
  have "set cat = {r \<in> (\<Union>st \<in> set ?sts. set (chan_refs st)). ?P r}" by (auto simp: cat_def)
  then have cat: "set cat = set os" unfolding all_refs [OF dd(1)] fP [symmetric] by auto
  have len: "length os \<le> 1" by (auto simp: os_def split: option.splits)
  have "card (set os) \<le> length os" by (rule card_length)
  then have set_os: "set (track_all cat []) = set os" using track_all_room [of "[]" cat] cat len by auto
  have props: "distinct (track_all cat [])" "length (track_all cat []) \<le> 64" by (rule track_all_props; simp)+
  have eq: "track_all cat [] = os"
  proof -
    have "length (track_all cat []) = card (set os)" using distinct_card [OF props(1)] set_os by simp
    also have "\<dots> \<le> 1" using \<open>card (set os) \<le> length os\<close> len by simp
    finally have "length (track_all cat []) \<le> 1" .
    with set_os len show ?thesis by (cases "track_all cat []"; cases os) auto
  qed
  define desc' where "desc' = desc\<lparr>ds_channel_states := sts\<rparr>"
  note sd = swept_desc [OF dd(1) sts(2), folded desc'_def]
  have sub: "set (refs0 desc') \<subseteq> set (refs0 desc) - set os" using P_os by (auto simp: sd(2))
  have os: "distinct os" "length os \<le> 64" "set os \<subseteq> set (refs0 desc)" using len props(1) eq by (auto simp: fP [symmetric])
  have cb: "ds_disconnect_callback desc' = ds_disconnect_callback desc"
      "ds_disconnect_callback_user_data desc' = ds_disconnect_callback_user_data desc" by (simp_all add: desc'_def)
  have run: "s_dispatch_disconnect d addr w = krs_server_finalize_orphan_evictions desc' os (set_desc d desc' w)"
    using d sts(1) eq by (simp add: s_dispatch_disconnect_def desc'_def Let_def)
  have refs: "ch_refs desc' ch = filter (\<lambda>r. r \<notin> set os) (ch_refs desc ch)" for ch
  proof -
    have "set (ch_refs desc ch) \<subseteq> set (refs0 desc)"
      using dd(1) channel_index [of ch] nth_mem [of "unat ch" ?sts] by (auto simp: ch_refs_def desc_ok_def desc_wf_def)
    then show ?thesis unfolding sd(3) using P_os by (intro filter_cong) auto
  qed
  from finalize_spec [OF inv d sd(1) sub os] show ?thesis unfolding run cb using refs by blast
qed

section \<open>Connections\<close>

lemma desc_ok_channel0:
  assumes "desc_ok desc" and "set_channel 0 st desc = Some desc'" and "chan_ok st"
    and "set (refs0 desc) \<subseteq> set (chan_refs st)"
  shows "desc_ok desc'" and "refs0 desc' = chan_refs st"
    and "\<And>ch. ch_refs desc' ch = (if ch = 0 then chan_refs st else ch_refs desc ch)"
    and "\<exists>sts. desc' = desc\<lparr>ds_channel_states := sts\<rparr>"
proof -
  have wf: "desc_wf desc" using assms(1) by (simp add: desc_ok_def)
  have d: "desc' = desc\<lparr>ds_channel_states := (ds_channel_states desc)[0 := st]\<rparr>"
    using assms(2) by (auto simp: set_channel_def mem_set_def split: if_splits)
  then show "\<exists>sts. desc' = desc\<lparr>ds_channel_states := sts\<rparr>" by blast
  show refs: "ch_refs desc' ch = (if ch = 0 then chan_refs st else ch_refs desc ch)" for ch
    by (rule ch_refs_set_channel [OF wf assms(2)])
  show r: "refs0 desc' = chan_refs st" using refs [of 0] by (simp add: ch_refs_def refs0_def)
  have "chan_ok x \<and> set (chan_refs x) \<subseteq> set (chan_refs st)" if "x \<in> set (ds_channel_states desc')" for x
    using that assms(1,3,4) set_update_subset_insert [of "ds_channel_states desc" 0 st]
    by (auto simp: d desc_ok_def)
  moreover have "desc_wf desc'" using wf by (simp add: desc_wf_def d)
  ultimately show "desc_ok desc'" by (simp add: desc_ok_def r)
qed

lemma conn_at_fresh:
  assumes "conn_at w desc 0 addr = None" and "q \<in> set (refs0 desc)"
  shows "conn_key (w_conns w) q \<noteq> addr_key addr"
  using assms by (auto simp: conn_at_def ch_refs_def refs0_def find_None_iff same_address_iff conn_key_def)

text \<open>Adding a connection under an identifier that was never used.\<close>

lemma sv_inv_insert:
  assumes inv: "sv_inv w" and d: "w_descs w d = Some desc" and fresh: "w_conns w r = None" "conn_at w desc 0 addr = None"
    and i: "unat i = Suc (unat (w_next_connection_id w))" and map: "sv_map w = Some m"
    and desc': "desc_ok desc'" "refs0 desc' = refs0 desc @ [r]"
    and m': "cm_ok m'" "ids_of m' = (ids_of m)(i \<mapsto> (Some d, Some r))"
    and w': "w_descs w' = (w_descs w)(d \<mapsto> desc')" "w_conns w' = (w_conns w)(r \<mapsto> new_connection i addr now)"
      "w_next_connection_id w' = i" "sv_map w' = Some m'"
  shows "sv_inv w'"
proof -
  let ?c = "new_connection i addr now"
  have m: "desc_conns_ok w m" "map_conns_ok w m" and ok: "\<And>q c. w_conns w q = Some c \<Longrightarrow> conn_ok w c"
    using inv map by (auto simp: sv_inv_def)
  have old: "cn_connection_id c \<noteq> i" if "w_conns w q = Some c" for q c
    using ok [OF that] i by (auto simp: conn_ok_def)
  have new: "conn_ok w' ?c" by (simp add: conn_ok_def new_connection_def tracker_ok_def cc_ok_def w'(3))
  have "conn_ok w' c" if "w_conns w' q = Some c" for q c
  proof (cases "q = r")
    case False
    with that have "w_conns w q = Some c" by (simp add: w'(2))
    with ok [OF this] i show ?thesis by (simp add: conn_ok_def w'(3))
  qed (use that new w'(2) in simp)
  moreover have "map_conns_ok w' m'"
    unfolding map_conns_ok_def
  proof (intro allI impI)
    fix j e assume e: "ids_of m' j = Some e"
    show "\<exists>d r c. e = (Some d, Some r) \<and> w_descs w' d \<noteq> None \<and> w_conns w' r = Some c \<and> cn_connection_id c = j"
    proof (cases "j = i")
      case True
      with e show ?thesis by (auto simp: m'(2) w'(1,2) new_connection_def)
    next
      case False
      with e have "ids_of m j = Some e" by (simp add: m'(2))
      then obtain x q c where "e = (Some x, Some q)" "w_descs w x \<noteq> None" "w_conns w q = Some c" "cn_connection_id c = j"
        using m(2) unfolding map_conns_ok_def by blast
      moreover have "q \<noteq> r" using calculation(3) fresh(1) by auto
      ultimately show ?thesis by (auto simp: w'(1,2))
    qed
  qed
  moreover have "desc_conns_ok w' m'"
    unfolding desc_conns_ok_def
  proof (intro allI impI conjI ballI)
    fix e x assume e: "w_descs w' e = Some x"
    show "desc_ok x" using e desc'(1) desc_conns_okD(1) [OF m(1)] by (auto simp: w'(1) split: if_splits)
    obtain y where y: "w_descs w e = Some y" "refs0 x = (if e = d then refs0 y @ [r] else refs0 y)"
      using e d desc'(2) by (auto simp: w'(1) split: if_splits)
    have notr: "r \<notin> set (refs0 y)" using desc_conns_okD(2) [OF m(1) y(1)] fresh(1) by force
    have key: "conn_key (w_conns w') q = (if q = r then addr_key addr else conn_key (w_conns w) q)" for q
      by (simp add: conn_key_def w'(2) new_connection_def)
    have "\<forall>q \<in> set (refs0 y). e = d \<longrightarrow> conn_key (w_conns w) q \<noteq> addr_key addr"
      using conn_at_fresh [OF fresh(2)] d y(1) by auto
    with desc_conns_okD(4) [OF m(1) y(1)] notr show "inj_on (conn_key (w_conns w')) (set (refs0 x))"
      unfolding y(2) inj_on_def key by (auto split: if_splits)
    fix q assume q: "q \<in> set (refs0 x)"
    show "\<exists>c. w_conns w' q = Some c \<and> ids_of m' (cn_connection_id c) = Some (Some e, Some q)"
    proof (cases "q = r")
      case True
      with q notr have "e = d" by (auto simp: y(2) split: if_splits)
      with True show ?thesis by (simp add: w'(2) m'(2) new_connection_def)
    next
      case False
      with q have "q \<in> set (refs0 y)" by (auto simp: y(2) split: if_splits)
      from desc_conns_okD(2) [OF m(1) y(1) this] old False show ?thesis by (auto simp: w'(2) m'(2))
    qed
  qed
  ultimately show ?thesis using w'(4) m'(1) by (auto simp: sv_inv_def)
qed

text \<open>What the handler did about a connection request.\<close>

definition socket_ack :: "handler_alloc \<Rightarrow> udp_socket_descriptor \<Rightarrow> port_address \<Rightarrow> u32 \<Rightarrow> event list" where
  "socket_ack al desc addr i =
     (if ha_builder al then [Ev_send (ds_udp_socket_ref desc, addr, socket_ack_frame i)] else [])"

definition connect_event :: "udp_socket_descriptor \<Rightarrow> u32 \<Rightarrow> event list" where
  "connect_event desc i = (case ds_connect_callback desc of
     None \<Rightarrow> [] | Some cb \<Rightarrow> [Ev_connect cb i 0 (ds_connect_callback_user_data desc)])"

lemma sv_inv_next:
  assumes "sv_inv w" and "unat (w_next_connection_id w) \<le> unat i"
  shows "sv_inv (w\<lparr>w_next_connection_id := i\<rparr>)"
  using assms by (fastforce simp: sv_inv_def sv_map_def desc_conns_ok_def map_conns_ok_def conn_ok_def)

lemma conn_at_refs: "(\<And>ch. ch_refs desc' ch = ch_refs desc ch) \<Longrightarrow> w_conns w' = w_conns w \<Longrightarrow> conn_at w' desc' ch addr = conn_at w desc ch addr"
  by (simp add: conn_at_def)

text \<open>The start of the handler: the array of channel 0 exists afterwards, unless it could not be allocated.\<close>

lemma connect_start:
  assumes inv: "sv_inv w" and d: "w_descs w d = Some desc"
  obtains st desc1 where "krs_server_handle_connection_frame al now (Some d) (Some f) (Some addr) w =
      (case conn_at w desc 0 addr of
         Some r \<Rightarrow> reconnect al now desc1 r addr (set_desc d desc1 w)
       | None \<Rightarrow> connect_new al now d desc1 st addr (set_desc d desc1 w))"
    and "chan_ok st" and "chan_refs st = refs0 desc" and "desc_ok desc1" and "refs0 desc1 = refs0 desc"
    and "\<And>ch. ch_refs desc1 ch = ch_refs desc ch" and "\<exists>sts. desc1 = desc\<lparr>ds_channel_states := sts\<rparr>"
    and "sv_inv (set_desc d desc1 w)" and "sub_allocs_ok al \<longrightarrow> ch_connections st \<noteq> None"
proof -
  obtain spm m where m: "w_spm w = Some spm" "desc_conns_ok w m" using inv by (rule sv_invE)
  note dd = desc_conns_okD [OF m(2) d]
  obtain st where st: "get_channel desc 0 = Some st" "st \<in> set (ds_channel_states desc)"
      "st = ds_channel_states desc ! unat (0 :: u8)" using dd(1) by (rule get_channel_Some)
  define st1 where "st1 = (if ch_connections st = None
    then st\<lparr>ch_connections := krs_array_create (ha_array al) (ha_cells al) 8\<rparr> else st)"
  have ok: "chan_ok st" using dd(1) st(2) by (simp add: desc_ok_def)
  have "chan_refs st1 = chan_refs st" by (auto simp: st1_def chan_refs_def create_vals split: option.splits)
  then have refs: "chan_refs st1 = refs0 desc" using st(3) by (simp add: refs0_def)
  have ok1: "chan_ok st1" using ok by (auto simp: st1_def chan_ok_def chan_refs_def create_vals split: option.splits)
  obtain desc1 where desc1: "set_channel 0 st1 desc = Some desc1" using set_channel_Some [OF dd(1)] by blast
  note d1 = desc_ok_channel0 [OF dd(1) desc1 ok1, unfolded refs, OF order_refl]
  have find: "(case ch_connections st1 of None \<Rightarrow> Some None
     | Some conns \<Rightarrow> find_conn (w_conns w) (same_address addr) conns 0 (arr_rounds conns)) = Some (conn_at w desc 0 addr)"
  proof (cases "ch_connections st1")
    case None
    then show ?thesis using refs by (simp add: conn_at_def ch_refs_def refs0_def chan_refs_def)
  next
    case (Some a)
    then have a: "arr_ok a" "refs0 desc = arr_vals a" using ok1 refs by (auto simp: chan_ok_def chan_refs_def)
    have "\<forall>r \<in> set (arr_vals a). w_conns w r \<noteq> None" using dd(2) a(2) by fastforce
    with find_conn_spec [OF a(1) this, of "same_address addr"] a(2) Some show ?thesis
      by (simp add: conn_at_def ch_refs_def refs0_def)
  qed
  then have find1: "(case ch_connections st1 of None \<Rightarrow> Some None
     | Some conns \<Rightarrow> find_conn (w_conns (set_desc d desc1 w)) (same_address addr) conns 0 (arr_rounds conns)) =
     Some (conn_at w desc 0 addr)"
    by (simp only: set_simps)
  have "krs_server_handle_connection_frame al now (Some d) (Some f) (Some addr) w =
      (case conn_at w desc 0 addr of
         Some r \<Rightarrow> reconnect al now desc1 r addr (set_desc d desc1 w)
       | None \<Rightarrow> connect_new al now d desc1 st1 addr (set_desc d desc1 w))"
    unfolding krs_server_handle_connection_frame_def
    by (simp add: m(1) d st(1) Let_def st1_def [symmetric] desc1 find1)
  moreover have "ch_refs desc1 ch = ch_refs desc ch" for ch using d1(3) [of ch] by (simp add: ch_refs_def refs0_def)
  moreover have "sv_inv (set_desc d desc1 w)" by (rule sv_inv_desc [OF inv d d1(1,2)])
  moreover have "sub_allocs_ok al \<longrightarrow> ch_connections st1 \<noteq> None"
    by (auto simp: sub_allocs_ok_def st1_def krs_array_create_def Let_def)
  ultimately show thesis using that ok1 refs d1(1,2,4) by blast
qed

lemma connect_existing:
  assumes inv: "sv_inv w" and d: "w_descs w d = Some desc" and bufs: "handler_bufs_ok al"
    and at: "conn_at w desc 0 addr = Some r" and c: "w_conns w r = Some c"
  shows "\<exists>w' desc'. krs_server_handle_connection_frame al now (Some d) (Some f) (Some addr) w =
      Some (socket_ack al desc addr (cn_connection_id c), w') \<and> sv_inv w' \<and>
      w_conns w' = (w_conns w)(r \<mapsto> c\<lparr>cn_last_heartbeat_ms := now\<rparr>) \<and> w_descs w' = (w_descs w)(d \<mapsto> desc') \<and>
      (\<exists>sts. desc' = desc\<lparr>ds_channel_states := sts\<rparr>) \<and>
      (\<forall>ch. ch_refs desc' ch = ch_refs desc ch) \<and> sv_map w' = sv_map w \<and> w_next_connection_id w' = w_next_connection_id w"
proof -
  obtain st desc1 where s: "krs_server_handle_connection_frame al now (Some d) (Some f) (Some addr) w =
      reconnect al now desc1 r addr (set_desc d desc1 w)"
    "\<And>ch. ch_refs desc1 ch = ch_refs desc ch" "\<exists>sts. desc1 = desc\<lparr>ds_channel_states := sts\<rparr>" "sv_inv (set_desc d desc1 w)"
    using connect_start [OF inv d, of al now f addr] at by (metis option.case(2))
  have sock: "ds_udp_socket_ref desc1 = ds_udp_socket_ref desc" using s(3) by auto
  let ?w = "set_desc d desc1 w" and ?c = "c\<lparr>cn_last_heartbeat_ms := now\<rparr>"
  have buf: "1500 \<le> length (ha_buf al)" using bufs by (simp add: handler_bufs_ok_def)
  have run: "reconnect al now desc1 r addr ?w = Some (socket_ack al desc addr (cn_connection_id c), set_conn r ?c ?w)"
    using c by (simp add: reconnect_def s_send_frame_spec [OF buf] socket_ack_def sock)
  have "conn_update ?w ((w_conns ?w)(r \<mapsto> ?c))"
    unfolding conn_update_def
  proof (intro conjI allI impI)
    show "dom ((w_conns ?w)(r \<mapsto> ?c)) = dom (w_conns ?w)" using c by auto
    fix q x x' assume x: "w_conns ?w q = Some x" "((w_conns ?w)(r \<mapsto> ?c)) q = Some x'"
    then have "conn_ok w x" using inv by (simp add: sv_inv_def)
    with x c show "cn_connection_id x' = cn_connection_id x" "cn_remote_address x' = cn_remote_address x"
        "cn_refcount x' = cn_refcount x" "tracker_ok x'" "cc_ok x'"
      by (auto simp: conn_ok_def tracker_ok_def cc_ok_def split: if_splits)
  qed
  from sv_inv_conns [OF s(4) this] have "sv_inv (set_conn r ?c ?w)" by (simp add: set_conn_store)
  with run s(1-3) show ?thesis by (auto simp: sv_map_def)
qed

text \<open>
  A new connection; \<open>r\<close> is the address \<open>malloc\<close> returns for it. When an allocation fails nothing but the
  counter of identifiers changes.
\<close>

lemma connect_fresh:
  assumes inv: "sv_inv w" and d: "w_descs w d = Some desc" and bufs: "handler_bufs_ok al"
    and at: "conn_at w desc 0 addr = None" and fresh: "\<And>r. ha_conn al = Some r \<Longrightarrow> w_conns w r = None"
    and nxt: "unat (w_next_connection_id w) < 2 ^ 32 - 1" and map: "sv_map w = Some m" "small_map m"
    and allocs: "ha_ids al" "ha_addrs al" and small: "length (refs0 desc) < 2 ^ 31"
  shows "\<exists>evs w' desc'. krs_server_handle_connection_frame al now (Some d) (Some f) (Some addr) w = Some (evs, w') \<and>
      sv_inv w' \<and> w_descs w' = (w_descs w)(d \<mapsto> desc') \<and> (\<exists>sts. desc' = desc\<lparr>ds_channel_states := sts\<rparr>) \<and>
      (case ha_conn al of
         Some r \<Rightarrow> (let i = w_next_connection_id w + 1 in
           if w_conns w' r = None
           then \<not> sub_allocs_ok al \<and> evs = [] \<and> w_conns w' = w_conns w \<and> sv_map w' = sv_map w \<and>
             (\<forall>ch. ch_refs desc' ch = ch_refs desc ch)
           else evs = socket_ack al desc addr i @ connect_event desc i \<and>
             w_conns w' = (w_conns w)(r \<mapsto> new_connection i addr now) \<and>
             refs0 desc' = refs0 desc @ [r] \<and> (\<forall>ch. ch \<noteq> 0 \<longrightarrow> ch_refs desc' ch = ch_refs desc ch) \<and>
             ids_of m i = None \<and> (\<exists>m'. sv_map w' = Some m' \<and> ids_of m' = (ids_of m)(i \<mapsto> (Some d, Some r))))
       | None \<Rightarrow> evs = [] \<and> w_conns w' = w_conns w \<and> sv_map w' = sv_map w \<and> (\<forall>ch. ch_refs desc' ch = ch_refs desc ch))"
proof -
  obtain st desc1 where s: "krs_server_handle_connection_frame al now (Some d) (Some f) (Some addr) w =
      connect_new al now d desc1 st addr (set_desc d desc1 w)"
    "chan_ok st" "chan_refs st = refs0 desc" "desc_ok desc1" "refs0 desc1 = refs0 desc"
    "\<And>ch. ch_refs desc1 ch = ch_refs desc ch" "\<exists>sts. desc1 = desc\<lparr>ds_channel_states := sts\<rparr>" "sv_inv (set_desc d desc1 w)"
    "sub_allocs_ok al \<longrightarrow> ch_connections st \<noteq> None"
    using connect_start [OF inv d, of al now f addr] at by (metis option.case(1))
  let ?w = "set_desc d desc1 w"
  define i where "i = w_next_connection_id w + 1"
  define w1 where "w1 = ?w\<lparr>w_next_connection_id := i\<rparr>"
  have i: "unat i = Suc (unat (w_next_connection_id w))"
    using nxt by (simp add: i_def unat_word_ariths)
  have inv1: "sv_inv w1" unfolding w1_def by (rule sv_inv_next [OF s(8)]) (simp add: i)
  have alive: "\<And>q. q \<in> set (refs0 desc) \<Longrightarrow> w_conns w q \<noteq> None" and unused: "ids_of m i = None"
  proof -
    have m: "desc_conns_ok w m" "map_conns_ok w m" using inv map(1) by (auto simp: sv_inv_def)
    show "\<And>q. q \<in> set (refs0 desc) \<Longrightarrow> w_conns w q \<noteq> None" using desc_conns_okD(2) [OF m(1) d] by blast
    show "ids_of m i = None"
    proof (rule ccontr)
      assume "ids_of m i \<noteq> None"
      then obtain q c where c: "w_conns w q = Some c" "cn_connection_id c = i" using m(2) unfolding map_conns_ok_def by blast
      have "conn_ok w c" using inv c(1) unfolding sv_inv_def by blast
      with i c(2) show False by (simp add: conn_ok_def)
    qed
  qed
  show ?thesis
  proof (cases "ha_conn al")
    case None
    with s show ?thesis by (auto simp: connect_new_def sv_map_def)
  next
    case (Some r)
    note fr = fresh [OF Some]
    have cn: "connect_new al now d desc1 st addr ?w = (case ch_connections st of
             None \<Rightarrow> Some ([], w1)
           | Some conns \<Rightarrow> do {
               (res, conns') \<leftarrow> krs_array_push (ha_push al) (Some conns) (Some r);
               if rb_error_code res \<noteq> KRS_SUCCESS then Some ([], w1)
               else do {
                 desc' \<leftarrow> set_channel 0 (st\<lparr>ch_connections := conns'\<rparr>) desc1;
                 let w = set_conn r (new_connection i addr now) (set_desc d desc' w1);
                 spm \<leftarrow> w_spm w;
                 w \<leftarrow> (case spm_connection_map spm of
                        None \<Rightarrow> Some w
                      | Some m \<Rightarrow> do {
                          m' \<leftarrow> krs_connection_map_put (w_conns w) (ha_ids al) (ha_addrs al) (Some m) i (Some d) r;
                          Some (set_spm (spm\<lparr>spm_connection_map := m'\<rparr>) w) });
                 evs \<leftarrow> s_send_frame (ha_builder al) (ha_buf al) (ds_udp_socket_ref desc1) (Some addr) 0 SOCKET_ACK
                          (Some (id_body i)) 4;
                 Some (evs @ (case ds_connect_callback desc1 of
                                None \<Rightarrow> []
                              | Some cb \<Rightarrow> [Ev_connect cb i 0 (ds_connect_callback_user_data desc1)]), w) } })"
      unfolding connect_new_def Some s_generate_connection_id_def Let_def w1_def i_def by simp
    have fail: ?thesis if "connect_new al now d desc1 st addr ?w = Some ([], w1)" "\<not> sub_allocs_ok al"
      using that s(1,6,7) inv1 Some fr by (simp add: w1_def sv_map_def Let_def) blast
    show ?thesis
    proof (cases "ch_connections st")
      case None
      with cn s(9) show ?thesis by (intro fail) auto
    next
      case a: (Some a)
      then have ao: "arr_ok a" "arr_vals a = refs0 desc" "length (arr_vals a) < 2 ^ 31"
        using s(2,3) small by (auto simp: chan_ok_def chan_refs_def)
      show ?thesis
      proof (rule push_vals [OF ao(1,3), of "ha_push al" r])
        assume "ha_push al = None" "krs_array_push (ha_push al) (Some a) (Some r) =
          Some (krs_lib_error_result_base_w_msg KRS_ERR_MEMORY_ALLOCATION ''Failed to grow array'', Some a)"
        with cn a show ?thesis by (intro fail) (simp_all add: krs_lib_error_result_base_w_msg_def sub_allocs_ok_def)
      next
        fix a' assume a': "krs_array_push (ha_push al) (Some a) (Some r) = Some (krs_lib_error_result_base_suc, Some a')"
          "arr_ok a'" "arr_vals a' = arr_vals a @ [r]"
        let ?st = "st\<lparr>ch_connections := Some a'\<rparr>" and ?c = "new_connection i addr now"
        have notin: "r \<notin> set (refs0 desc)" using alive [of r] fr by auto
        have st: "chan_ok ?st" "chan_refs ?st = refs0 desc @ [r]"
          using a' ao(2) s(2,3) notin by (auto simp: chan_ok_def chan_refs_def)
        obtain desc' where desc': "set_channel 0 ?st desc1 = Some desc'" using set_channel_Some [OF s(4)] by blast
        have "set (refs0 desc1) \<subseteq> set (chan_refs ?st)" by (auto simp: st(2) s(5))
        note d' = desc_ok_channel0 [OF s(4) desc' st(1) this]
        obtain spm where spm: "w_spm w = Some spm" "spm_connection_map spm = Some m"
          using map(1) by (auto simp: sv_map_def split: Option.bind_splits)
        have cm: "cm_ok m" using inv map(1) by (auto simp: sv_inv_def)
        obtain m' where m': "krs_connection_map_put ((w_conns w)(r \<mapsto> ?c)) True True (Some m) i (Some d) r = Some (Some m')"
            "cm_ok m'" "cm_abs m' = cm_spec_step ((w_conns w)(r \<mapsto> ?c)) (Cm_put i (Some d) r) (cm_abs m)"
          using cm_put_spec [where cs = "(w_conns w)(r \<mapsto> ?c)" and r = r and conn = ?c and m = m and ?a1.0 = True
              and ?a2.0 = True and cid = i and d = "Some d"] cm map(2) by (auto simp: small_map_def)
        have ids: "ids_of m' = (ids_of m)(i \<mapsto> (Some d, Some r))" by (simp add: m'(3))
        define w' where "w' = set_spm (spm\<lparr>spm_connection_map := Some m'\<rparr>) (set_conn r ?c (set_desc d desc' w1))"
        have w': "w_descs w' = (w_descs w)(d \<mapsto> desc')" "w_conns w' = (w_conns w)(r \<mapsto> ?c)"
            "w_next_connection_id w' = i" "sv_map w' = Some m'"
          by (simp_all add: w'_def w1_def sv_map_def)
        have inv': "sv_inv w'"
          using sv_inv_insert [OF inv d fr at i map(1) d'(1) _ m'(2) ids w'] by (simp add: d'(2) st(2))
        have buf: "1500 \<le> length (ha_buf al)" using bufs by (simp add: handler_bufs_ok_def)
        have same: "ds_udp_socket_ref desc1 = ds_udp_socket_ref desc" "ds_connect_callback desc1 = ds_connect_callback desc"
            "ds_connect_callback_user_data desc1 = ds_connect_callback_user_data desc" using s(7) by auto
        have run: "connect_new al now d desc1 st addr ?w = Some (socket_ack al desc addr i @ connect_event desc i, w')"
          using a a'(1) desc' spm m'(1) allocs
          by (simp add: cn krs_lib_error_result_base_suc_def Let_def w1_def s_send_frame_spec [OF buf]
              socket_ack_def connect_event_def same w'_def cong: option.case_cong)
        have upd: "\<exists>sts. desc' = desc\<lparr>ds_channel_states := sts\<rparr>" using d'(4) s(7) by auto
        have refs': "ch_refs desc' ch = ch_refs desc ch" if "ch \<noteq> 0" for ch using d'(3) [of ch] that by (simp add: s(6))
        show ?thesis
          using s(1) run inv' w' upd refs' ids unused Some d'(2) st(2) unfolding i_def [symmetric] Let_def by auto
      qed
    qed
  qed
qed

section \<open>What the handlers leave alone\<close>

text \<open>No handler touches the pools, the received messages, or the port table of the manager.\<close>

definition keeps :: "world \<Rightarrow> world \<Rightarrow> bool" where
  "keeps w w' \<longleftrightarrow> w_pools w' = w_pools w \<and> w_msgs w' = w_msgs w \<and>
     map_option spm_message_pool (w_spm w') = map_option spm_message_pool (w_spm w) \<and>
     map_option spm_port_table (w_spm w') = map_option spm_port_table (w_spm w)"

lemma keeps_refl: "keeps w w"
  by (simp add: keeps_def)

lemma keeps_trans: "keeps w w' \<Longrightarrow> keeps w' w'' \<Longrightarrow> keeps w w''"
  by (simp add: keeps_def)

lemma keeps_connection_frame:
  "reconnect al now desc r addr w = Some (evs, w') \<Longrightarrow> keeps w w'"
  "connect_new al now d desc st addr w = Some (evs, w') \<Longrightarrow> keeps w w'"
  by (auto simp: reconnect_def connect_new_def s_generate_connection_id_def keeps_def Let_def
      split: Option.bind_splits option.splits if_splits prod.splits)

lemma keeps_connection: "s_dispatch_connection al now d f addr w = Some (evs, w') \<Longrightarrow> keeps w w'"
  by (auto simp: s_dispatch_connection_def krs_server_handle_connection_frame_def Let_def keeps_def
      dest!: keeps_connection_frame split: Option.bind_splits option.splits prod.splits)

lemma keeps_heartbeat: "s_dispatch_heartbeat now d f addr w = Some (evs, w') \<Longrightarrow> keeps w w'"
  by (auto simp: s_dispatch_heartbeat_def krs_server_handle_heartbeat_frame_def keeps_def
      split: Option.bind_splits option.splits)

lemma keeps_disconnect: "s_dispatch_disconnect d addr w = Some (evs, w') \<Longrightarrow> keeps w w'"
  by (auto simp: s_dispatch_disconnect_def krs_server_finalize_orphan_evictions_def keeps_def Let_def
      split: Option.bind_splits option.splits if_splits prod.splits)

lemma keeps_ack: "s_dispatch_ack now f addr w = Some (evs, w') \<Longrightarrow> keeps w w'"
  by (auto simp: s_dispatch_ack_def keeps_def Let_def split: Option.bind_splits option.splits)

lemma keeps_subscribe:
  "s_dispatch_subscribe al d f addr w = Some (evs, w') \<Longrightarrow> keeps w w'"
  "s_dispatch_unsubscribe al d f addr w = Some (evs, w') \<Longrightarrow> keeps w w'"
  by (auto simp: s_dispatch_subscribe_def s_dispatch_unsubscribe_def keeps_def Let_def split: Option.bind_splits if_splits)

lemma keeps_payload: "app_payload al now d f w = Some (p, w') \<Longrightarrow> keeps w w'"
  by (auto simp: app_payload_def keeps_def Let_def split: Option.bind_splits if_splits)

lemma keeps_deliver: "app_deliver al d f addr data len ack w = Some (evs, w') \<Longrightarrow> keeps w w'"
  by (cases ack) (auto simp: app_deliver_def Let_def keeps_def split: Option.bind_split_asm option.split_asm prod.split_asm)

lemma keeps_app_frame: "s_dispatch_app_frame al now d f addr w = Some (evs, w') \<Longrightarrow> keeps w w'"
  unfolding s_dispatch_app_frame_def
  by (auto dest!: keeps_payload keeps_deliver split: Option.bind_splits option.splits intro: keeps_trans)

lemma keeps_route: "s_route_frame al now d f addr w = Some (evs, w') \<Longrightarrow> keeps w w'"
  unfolding s_route_frame_def
  by (auto simp: keeps_refl dest: keeps_connection keeps_heartbeat keeps_disconnect keeps_ack keeps_subscribe keeps_app_frame
      split: if_splits)

end
