(* ===== verification/Kronos_Server_Protocol.thy ===== *)
theory Kronos_Server_Protocol
  imports Kronos_Server_Safety
begin

text \<open>
  The properties of the protocol threads of the server: no frame breaks the server, the life of a
  connection, and subscriptions with the delivery of messages.
\<close>

section \<open>Every frame\<close>

text \<open>
  What a handler needs besides the invariant: its buffers, memory for the tables of the connection map
  (which have room for \<open>2 ^ 29\<close> entries), an unused address for a new connection, an unused identifier,
  and a fragment that fits the message it belongs to.
\<close>

definition route_ready :: "handler_alloc \<Rightarrow> world \<Rightarrow> udp_socket_descriptor \<Rightarrow> krs_frame \<Rightarrow> bool" where
  "route_ready al w desc f \<longleftrightarrow> handler_bufs_ok al \<and> ha_ids al \<and> ha_addrs al \<and>
     (\<forall>r. ha_conn al = Some r \<longrightarrow> w_conns w r = None) \<and> unat (w_next_connection_id w) < 2 ^ 32 - 1 \<and>
     (\<forall>m. sv_map w = Some m \<longrightarrow> small_map m) \<and> desc_small desc \<and> fragment_fits desc f"

lemma dispatch_connection_run:
  assumes "krs_server_handle_connection_frame al now (Some d) (Some f) (Some addr) w = Some (evs, w')" and "sv_inv w'"
  obtains w'' where "s_dispatch_connection al now d f addr w = Some (evs, w'')" and "sv_inv w''"
    and "w_conns w'' = w_conns w'" and "w_descs w'' = w_descs w'" and "sv_map w'' = sv_map w'"
    and "w_next_connection_id w'' = w_next_connection_id w'"
proof -
  obtain spm m where spm: "w_spm w' = Some spm" "spm_connection_map spm = Some m" using assms(2) by (rule sv_invE)
  let ?w = "set_spm (spm\<lparr>stat_connections_total := stat_connections_total spm + 1\<rparr>) w'"
  show thesis
  proof (rule that)
    show "s_dispatch_connection al now d f addr w = Some (evs, ?w)"
      using assms(1) spm(1) by (simp add: s_dispatch_connection_def)
    show "sv_inv ?w" by (rule sv_inv_spm [OF assms(2) spm(1)]) simp
  qed (use spm in \<open>simp_all add: sv_map_def\<close>)
qed

lemma refs0_small: "desc_ok desc \<Longrightarrow> desc_small desc \<Longrightarrow> length (refs0 desc) < 2 ^ 31"
  by (simp add: refs0_def desc_small_def desc_ok_def desc_wf_def)

lemma dispatch_connection_safe:
  assumes inv: "sv_inv w" and d: "w_descs w d = Some desc" and rd: "route_ready al w desc f"
  shows "\<exists>evs w'. s_dispatch_connection al now d f addr w = Some (evs, w') \<and> sv_inv w'"
proof -
  obtain spm m where m: "w_spm w = Some spm" "spm_connection_map spm = Some m" "desc_conns_ok w m" using inv by (rule sv_invE)
  note dd = desc_conns_okD [OF m(3) d]
  have map: "sv_map w = Some m" using m(1,2) by (simp add: sv_map_def)
  have "\<exists>evs w'. krs_server_handle_connection_frame al now (Some d) (Some f) (Some addr) w = Some (evs, w') \<and> sv_inv w'"
  proof (cases "conn_at w desc 0 addr")
    case (Some r)
    then obtain c where c: "w_conns w r = Some c" using dd(2) conn_at_in by blast
    have "handler_bufs_ok al" using rd by (simp add: route_ready_def)
    from connect_existing [OF inv d this Some c, of now f] show ?thesis by blast
  next
    case None
    have "\<exists>evs w' desc'. krs_server_handle_connection_frame al now (Some d) (Some f) (Some addr) w = Some (evs, w') \<and>
      sv_inv w' \<and> w_descs w' = (w_descs w)(d \<mapsto> desc') \<and> True"
      using connect_fresh [OF inv d _ None _ _ map, of al now f] rd map refs0_small [OF dd(1)]
      unfolding route_ready_def by blast
    then show ?thesis by blast
  qed
  then show ?thesis using dispatch_connection_run by metis
qed

lemma dispatch_app_frame_safe:
  assumes inv: "sv_inv w" and d: "w_descs w d = Some desc" and f: "frame_ok f" and ch: "10 \<le> frame_channel f"
    and rd: "route_ready al w desc f"
  shows "\<exists>evs w'. s_dispatch_app_frame al now d f addr w = Some (evs, w') \<and> sv_inv w'"
proof -
  have fits: "fragment_fits desc f" "handler_bufs_ok al" using rd by (simp_all add: route_ready_def)
  from app_payload_safe [OF inv d f ch fits(1)] obtain p w1 desc1 where
    p: "app_payload al now d f w = Some (p, w1)" "sv_inv w1" "w_descs w1 d = Some desc1" by blast
  show ?thesis
  proof (cases p)
    case None
    with p show ?thesis by (simp add: s_dispatch_app_frame_def)
  next
    case (Some q)
    obtain data len ack where q: "q = (data, len, ack)" by (cases q)
    from deliver_safe [OF p(2,3) fits(2), of f addr data len ack] obtain evs w' where
      "app_deliver al d f addr data len ack w1 = Some (evs, w')" "sv_inv w'" by blast
    with p(1) Some q show ?thesis by (simp add: s_dispatch_app_frame_def)
  qed
qed

lemma route_safe:
  assumes inv: "sv_inv w" and d: "w_descs w d = Some desc" and f: "frame_ok f" and rd: "route_ready al w desc f"
  shows "\<exists>evs w'. s_route_frame al now d f addr w = Some (evs, w') \<and> sv_inv w'"
proof -
  have bufs: "handler_bufs_ok al" and small: "desc_small desc" using rd by (simp_all add: route_ready_def)
  have "\<exists>evs w'. s_dispatch_heartbeat now d f addr w = Some (evs, w') \<and> sv_inv w'"
    using heartbeat_spec [OF inv d] by (simp add: s_dispatch_heartbeat_def)
  moreover have "\<exists>evs w'. s_dispatch_disconnect d addr w = Some (evs, w') \<and> sv_inv w'"
    using disconnect_spec [OF inv d, of addr] by blast
  moreover have "\<exists>evs w'. s_dispatch_ack now f addr w = Some (evs, w') \<and> sv_inv w'"
    using dispatch_ack_safe [OF inv] by blast
  moreover have "\<exists>evs w'. s_dispatch_subscribe al d f addr w = Some (evs, w') \<and> sv_inv w'"
  proof (cases "sub_target f")
    case (Some tgt)
    from subscribe_core [OF inv d small f Some bufs, of addr] obtain b desc' where
      "s_dispatch_subscribe al d f addr w = Some (ack_if b al desc addr f, set_desc d desc' w)" "desc_step desc desc'" by blast
    then show ?thesis using sv_inv_desc [OF inv d] by (auto simp: desc_step_def)
  qed (use subscribe_none [OF _ f] inv in auto)
  moreover have "\<exists>evs w'. s_dispatch_unsubscribe al d f addr w = Some (evs, w') \<and> sv_inv w'"
  proof (cases "sub_target f")
    case (Some tgt)
    from unsubscribe_core [OF inv d f Some bufs, of addr] obtain desc' where
      "s_dispatch_unsubscribe al d f addr w = Some (ack_if True al desc addr f, set_desc d desc' w)" "desc_step desc desc'" by blast
    then show ?thesis using sv_inv_desc [OF inv d] by (auto simp: desc_step_def)
  qed (use subscribe_none [OF _ f] inv in auto)
  ultimately show ?thesis
    using dispatch_connection_safe [OF inv d rd, of now addr] dispatch_app_frame_safe [OF inv d f _ rd, of now addr] inv
    unfolding s_route_frame_def by (auto split: if_splits)
qed

text \<open>A message in the hands of a handler thread: its buffer, its pool and the port it came from.\<close>

definition message_ready :: "world \<Rightarrow> msg_ptr \<Rightarrow> incoming_message \<Rightarrow> pool_id \<Rightarrow> msg_ptr set \<Rightarrow> bool" where
  "message_ready w msg im a owned \<longleftrightarrow> w_msgs w msg = Some im \<and> unat (im_data_length im) \<le> length (im_data im) \<and>
     length (im_data im) = KRONOS_BUFFER_SIZE \<and>
     (\<exists>spm pt p. w_spm w = Some spm \<and> spm_port_table spm = Some pt \<and> pt_ok pt \<and>
        (\<forall>q d. pt_map pt q = Some d \<longrightarrow> w_descs w d \<noteq> None) \<and>
        spm_message_pool spm = Some a \<and> w_pools w a = Some p \<and> pool_inv p owned \<and> msg \<in> owned)"

lemma sv_inv_pools [simp]: "sv_inv (w\<lparr>w_pools := ps, w_msgs := ms\<rparr>) = sv_inv w"
  by (simp add: sv_inv_def sv_map_def desc_conns_ok_def map_conns_ok_def conn_ok_def)

lemma release_message_spec:
  assumes "w_spm w = Some spm" and "spm_message_pool spm = Some a" and "w_pools w a = Some p" and "pool_inv p owned" and "msg \<in> owned"
  shows "\<exists>w' p'. release_message msg w = Some w' \<and> w_pools w' = (w_pools w)(a \<mapsto> p') \<and> pool_inv p' (owned - {msg}) \<and>
    (sv_inv w \<longrightarrow> sv_inv w')"
  using release_to_owned [where ps = "w_pools w" and a = a and m = msg, OF assms(3-5)] assms(1,2) by (auto simp: release_message_def)

lemma sv_inv_stat: "sv_inv w \<Longrightarrow> w_spm w = Some spm \<Longrightarrow> sv_inv (set_spm (spm\<lparr>stat_messages_received := n\<rparr>) w)"
  by (rule sv_inv_spm) simp_all

text \<open>A handler thread with one message, whatever its bytes.\<close>

lemma handle_message_run:
  assumes "sv_inv w" and "message_ready w msg im a owned" and "length body_buf = KRONOS_BUFFER_SIZE"
    and "\<forall>d desc f. w_descs w d = Some desc \<longrightarrow>
      krs_frame_create (Some (im_data im)) (ucast (im_data_length im)) (Some body_buf) (of_nat KRONOS_BUFFER_SIZE) = Some f \<longrightarrow>
      route_ready al w desc f"
  shows "\<exists>evs w' p'. handle_message al body_buf now msg w = Some (evs, w') \<and> sv_inv w' \<and>
    w_pools w' = (w_pools w)(a \<mapsto> p') \<and> pool_inv p' (owned - {msg})"
proof -
  obtain spm pt p where w: "w_msgs w msg = Some im" "w_spm w = Some spm" "spm_port_table spm = Some pt" "pt_ok pt"
      "\<forall>q d. pt_map pt q = Some d \<longrightarrow> w_descs w d \<noteq> None"
      "spm_message_pool spm = Some a" "w_pools w a = Some p" "pool_inv p owned" "msg \<in> owned"
    using assms(2) unfolding message_ready_def by blast
  have len: "unat (im_data_length im) \<le> 1500" "length (im_data im) = 1500" using assms(2) by (auto simp: message_ready_def)
  have "unat (ucast (im_data_length im) :: u16) \<le> unat (im_data_length im)"
    by (simp add: unsigned_ucast_eq unsigned_take_bit_eq)
  with len have n: "unat (ucast (im_data_length im) :: u16) \<le> length (im_data im)" by simp
  then have "unat (ucast (im_data_length im) :: u16) - k \<le> 1500" for k using len(2) by simp
  with s_create_frame_safe [OF n, of 1500 body_buf] assms(3) obtain f where
    f: "krs_frame_create (Some (im_data im)) (ucast (im_data_length im)) (Some body_buf) (of_nat KRONOS_BUFFER_SIZE) = Some f"
      "frame_protocol_char f = 0x4B \<Longrightarrow> frame_ok f"
    unfolding krs_frame_create_def frame_ok_def by (auto simp: len)
  have give: ?thesis if run: "handle_message al body_buf now msg w = do { w \<leftarrow> release_message msg w1; Some (evs, w) }"
      and inv1: "sv_inv w1" and k: "keeps w w1" for evs w1
  proof -
    obtain spm1 where "w_spm w1 = Some spm1" "spm_message_pool spm1 = Some a" "w_pools w1 = w_pools w"
      using k w(2,6) by (auto simp: keeps_def)
    from release_message_spec [OF this(1,2)] this(3) w(7-9) run inv1 show ?thesis by fastforce
  qed
  obtain lk where lk: "krs_lib_port_table_lookup (spm_port_table spm) (im_port im) = Some lk"
      "ptl_exists lk \<longleftrightarrow> pt_map pt (im_port im) \<noteq> None" "ptl_socket_handler lk = pt_map pt (im_port im)"
    using pt_lookup_spec [OF w(4), of "im_port im"] w(3) by auto
  show ?thesis
  proof (cases "pt_map pt (im_port im)")
    case None
    with lk w show ?thesis by (intro give [of w "[]"]) (simp_all add: handle_message_def keeps_refl assms(1))
  next
    case (Some d)
    then obtain desc where d: "w_descs w d = Some desc" using w(5) by auto
    note hm = handle_message_def w(1,2) lk Some f(1) [unfolded of_nat_numeral]
    let ?w = "set_spm (spm\<lparr>stat_messages_received := stat_messages_received spm + 1\<rparr>) w"
    show ?thesis
    proof (cases "frame_protocol_char f = 0x4B")
      case True
      obtain body where "frame_body f = Some body" using f(2) [OF True] by (auto simp: frame_ok_def)
      have inv: "sv_inv ?w" by (rule sv_inv_stat [OF assms(1) w(2)])
      have d': "w_descs ?w d = Some desc" using d by simp
      have "route_ready al ?w desc f"
        using assms(4) d f(1) w(2) unfolding route_ready_def sv_map_def by auto
      from route_safe [OF inv d' f(2) [OF True] this, of now "im_remote_address im"] obtain evs w1 where
        w1: "s_route_frame al now d f (im_remote_address im) ?w = Some (evs, w1)" "sv_inv w1" by blast
      have "keeps w ?w" using w(2) by (simp add: keeps_def)
      with keeps_route [OF w1(1)] have "keeps w w1" by (rule keeps_trans [rotated])
      with w1 \<open>frame_body f = Some body\<close> True show ?thesis by (intro give [of w1 evs]) (simp_all add: hm)
    next
      case False
      then show ?thesis by (intro give [of w "[]"]) (simp_all add: hm keeps_refl assms(1))
    qed
  qed
qed


section \<open>The life of a connection\<close>

definition disconnect_event :: "udp_socket_descriptor \<Rightarrow> u32 \<Rightarrow> event list" where
  "disconnect_event desc i = (case ds_disconnect_callback desc of
     None \<Rightarrow> [] | Some cb \<Rightarrow> [Ev_disconnect cb i 0 (ds_disconnect_callback_user_data desc)])"

lemma find_snoc: "\<forall>x \<in> set xs. \<not> P x \<Longrightarrow> P y \<Longrightarrow> find P (xs @ [y]) = Some y"
  by (induction xs) auto

lemma if_notD: "if b then P else Q \<Longrightarrow> \<not> b \<Longrightarrow> Q"
  by simp

lemma conn_at_added:
  assumes "conn_at w desc 0 addr = None" and "refs0 desc' = refs0 desc @ [r]" and "r \<notin> set (refs0 desc)"
    and "w_conns w' = (w_conns w)(r \<mapsto> new_connection i addr now)"
  shows "conn_at w' desc' 0 addr = Some r"
proof -
  have none: "\<forall>q \<in> set (refs0 desc). \<not> same_address addr (the (w_conns w' q))"
    using assms(1,3,4) by (auto simp: conn_at_def ch_refs_def refs0_def find_None_iff)
  have r: "same_address addr (the (w_conns w' r))" by (simp add: assms(4) same_address_iff new_connection_def)
  have "find (\<lambda>q. same_address addr (the (w_conns w' q))) (refs0 desc @ [r]) = Some r"
    using find_snoc [of "refs0 desc" "\<lambda>q. same_address addr (the (w_conns w' q))" r] none r by blast
  with assms(2) show ?thesis by (simp add: conn_at_def ch_refs_def refs0_def)
qed

lemma connect_new_run:
  assumes inv: "sv_inv w" and d: "w_descs w d = Some desc" and rd: "route_ready al w desc f"
    and al: "sub_allocs_ok al" "ha_conn al = Some r" and at: "conn_at w desc 0 addr = None" and map: "sv_map w = Some m"
  defines "i \<equiv> w_next_connection_id w + 1"
  obtains w1 sts m1 where "s_dispatch_connection al now d f addr w = Some (socket_ack al desc addr i @ connect_event desc i, w1)"
    and "sv_inv w1" and "w_descs w1 = (w_descs w)(d \<mapsto> desc\<lparr>ds_channel_states := sts\<rparr>)"
    and "w_conns w1 = (w_conns w)(r \<mapsto> new_connection i addr now)" and "w_conns w r = None" and "ids_of m i = None"
    and "sv_map w1 = Some m1" and "ids_of m1 = (ids_of m)(i \<mapsto> (Some d, Some r))"
    and "conn_at w1 (desc\<lparr>ds_channel_states := sts\<rparr>) 0 addr = Some r"
    and "\<And>ch. ch \<noteq> 0 \<Longrightarrow> ch_refs (desc\<lparr>ds_channel_states := sts\<rparr>) ch = ch_refs desc ch"
    and "refs0 (desc\<lparr>ds_channel_states := sts\<rparr>) = refs0 desc @ [r]"
proof -
  have m: "desc_conns_ok w m" using inv map by (auto simp: sv_inv_def)
  note dd = desc_conns_okD [OF m d]
  have r: "w_conns w r = None" using rd al(2) by (simp add: route_ready_def)
  have hyps: "handler_bufs_ok al" "unat (w_next_connection_id w) < 2 ^ 32 - 1" "small_map m" "ha_ids al" "ha_addrs al"
      "length (refs0 desc) < 2 ^ 31" "\<And>q. ha_conn al = Some q \<Longrightarrow> w_conns w q = None"
    using rd map refs0_small [OF dd(1)] by (auto simp: route_ready_def)
  from connect_fresh [OF inv d hyps(1) at hyps(7) hyps(2) map hyps(3-6), of now f]
  obtain evs w' desc' sts where w': "krs_server_handle_connection_frame al now (Some d) (Some f) (Some addr) w = Some (evs, w')"
      "sv_inv w'" "w_descs w' = (w_descs w)(d \<mapsto> desc')" "desc' = desc\<lparr>ds_channel_states := sts\<rparr>"
      "let i = w_next_connection_id w + 1 in
           if w_conns w' r = None
           then \<not> sub_allocs_ok al \<and> evs = [] \<and> w_conns w' = w_conns w \<and> sv_map w' = sv_map w \<and>
             (\<forall>ch. ch_refs desc' ch = ch_refs desc ch)
           else evs = socket_ack al desc addr i @ connect_event desc i \<and>
             w_conns w' = (w_conns w)(r \<mapsto> new_connection i addr now) \<and>
             refs0 desc' = refs0 desc @ [r] \<and> (\<forall>ch. ch \<noteq> 0 \<longrightarrow> ch_refs desc' ch = ch_refs desc ch) \<and>
             ids_of m i = None \<and> (\<exists>m'. sv_map w' = Some m' \<and> ids_of m' = (ids_of m)(i \<mapsto> (Some d, Some r)))"
    unfolding al(2) option.case by blast
  have alive: "w_conns w' r \<noteq> None" using w'(5) al(1) by (cases "w_conns w' r = None") (simp_all only: Let_def if_True simp_thms)
  obtain m1 where i: "evs = socket_ack al desc addr i @ connect_event desc i"
      "w_conns w' = (w_conns w)(r \<mapsto> new_connection i addr now)" "refs0 desc' = refs0 desc @ [r]"
      "\<forall>ch. ch \<noteq> 0 \<longrightarrow> ch_refs desc' ch = ch_refs desc ch" "ids_of m i = None" "sv_map w' = Some m1"
      "ids_of m1 = (ids_of m)(i \<mapsto> (Some d, Some r))"
    using if_notD [OF w'(5) [folded i_def, unfolded Let_def] alive] by blast
  have "r \<notin> set (refs0 desc)" using dd(2) [of r] r by auto
  note at' = conn_at_added [OF at i(3) this i(2)]
  from w'(1,2) obtain w1 where w1: "s_dispatch_connection al now d f addr w = Some (evs, w1)" "sv_inv w1"
      "w_conns w1 = w_conns w'" "w_descs w1 = w_descs w'" "sv_map w1 = sv_map w'"
    by (rule dispatch_connection_run)
  have "conn_at w1 desc' 0 addr = Some r" using at' by (simp add: conn_at_def w1(3))
  with w1 w'(3,4) i r show thesis by (intro that [of w1 sts m1]) simp_all
qed


section \<open>Subscriptions and deliveries\<close>

text \<open>What the client and the application see of an unfragmented message.\<close>

definition message_ack :: "handler_alloc \<Rightarrow> udp_socket_descriptor \<Rightarrow> port_address \<Rightarrow> krs_frame \<Rightarrow> event list" where
  "message_ack al desc addr g =
     (if has_flag (frame_presence_flags g) META_FLAG_ACK_REQUIRED \<and> ha_builder al
      then [Ev_send (ds_udp_socket_ref desc, addr, ack_frame (frame_channel g) (frame_packet_id g))] else [])"

definition message_event :: "udp_socket_descriptor \<Rightarrow> u32 \<Rightarrow> krs_frame \<Rightarrow> event list" where
  "message_event desc i g =
     (let own = ds_channel_callbacks desc ! unat (frame_channel g) in
      case (if own = None then ds_port_callback desc else own) of
        None \<Rightarrow> []
      | Some cb \<Rightarrow> [Ev_message cb (frame_channel g) i (frame_body g) (frame_body_length g)
          (if own = None then ds_port_callback_user_data desc
           else ds_channel_callback_user_data desc ! unat (frame_channel g))])"

lemma message_sts [simp]:
  "message_event (desc\<lparr>ds_channel_states := sts\<rparr>) i g = message_event desc i g"
  "message_ack al (desc\<lparr>ds_channel_states := sts\<rparr>) addr g = message_ack al desc addr g"
  by (simp_all add: message_event_def message_ack_def Let_def cong: option.case_cong)

lemma find_only:
  assumes "x \<in> set xs" and "P x" and only: "\<And>y. y \<in> set xs \<Longrightarrow> P y \<Longrightarrow> y = x"
  shows "find P xs = Some x"
proof (cases "find P xs")
  case None
  then show ?thesis using assms(1,2) by (simp add: find_None_iff)
next
  case (Some y)
  then have "y \<in> set xs" "P y" by (auto simp: find_Some_iff)
  from only [OF this] Some show ?thesis by simp
qed

lemma ch_refs_connected:
  assumes "sv_inv w" and "w_descs w d = Some desc"
  shows "set (ch_refs desc ch) \<subseteq> set (refs0 desc)"
proof -
  obtain m where m: "desc_conns_ok w m" using assms(1) by (auto simp: sv_inv_def)
  show ?thesis using desc_conns_okD(1) [OF m assms(2)] channel_index [of ch] nth_mem [of "unat ch" "ds_channel_states desc"]
    by (auto simp: ch_refs_def desc_ok_def desc_wf_def)
qed

lemma only_at_address:
  assumes "sv_inv w" and "w_descs w d = Some desc" and "conn_at w desc 0 addr = Some r"
    and "q \<in> set (refs0 desc)" and "same_address addr (the (w_conns w q))"
  shows "q = r"
proof -
  obtain m where m: "desc_conns_ok w m" using assms(1) by (auto simp: sv_inv_def)
  have "same_address addr (the (w_conns w r))" using assms(3) by (auto simp: conn_at_def find_Some_iff)
  then have "conn_key (w_conns w) q = conn_key (w_conns w) r" using assms(5) by (simp add: conn_key_def same_address_iff)
  with desc_conns_okD(4) [OF m assms(2)] assms(4) conn_at_in [OF assms(3)] show ?thesis by (auto dest: inj_onD)
qed

lemma whole_message:
  assumes inv: "sv_inv w" and d: "w_descs w d = Some desc" and bufs: "handler_bufs_ok al"
    and g: "\<not> has_flag (frame_presence_flags g) META_FLAG_FRAGMENT_INFO"
  shows "\<exists>w'. s_dispatch_app_frame al now d g addr w =
      Some (message_ack al desc addr g @
        (case conn_at w desc (frame_channel g) addr of
           None \<Rightarrow> [] | Some r \<Rightarrow> message_event desc (cn_connection_id (the (w_conns w r))) g), w') \<and>
    sv_inv w' \<and> w_descs w' = w_descs w \<and> w_conns w' = w_conns w"
  using deliver_safe [OF inv d bufs, of g addr "frame_body g" "frame_body_length g"
      "has_flag (frame_presence_flags g) META_FLAG_ACK_REQUIRED"] g
  by (simp add: s_dispatch_app_frame_def app_payload_def message_ack_def message_event_def Let_def
      cong: option.case_cong if_cong)

lemma subscribe_reaches:
  assumes inv: "sv_inv w" and d: "w_descs w d = Some desc" and small: "desc_small desc" and bufs: "handler_bufs_ok al"
    and allocs: "sub_allocs_ok al" and at0: "conn_at w desc 0 addr = Some r" and f: "frame_ok f" and tgt: "sub_target f = Some tgt"
  obtains sts where "s_dispatch_subscribe al d f addr w =
      Some (ack_if True al desc addr f, set_desc d (desc\<lparr>ds_channel_states := sts\<rparr>) w)"
    and "sv_inv (set_desc d (desc\<lparr>ds_channel_states := sts\<rparr>) w)"
    and "refs0 (desc\<lparr>ds_channel_states := sts\<rparr>) = refs0 desc"
    and "set (ch_refs (desc\<lparr>ds_channel_states := sts\<rparr>) tgt) \<subseteq> set (refs0 desc)"
    and "conn_at (set_desc d (desc\<lparr>ds_channel_states := sts\<rparr>) w) (desc\<lparr>ds_channel_states := sts\<rparr>) tgt addr = Some r"
proof -
  from subscribe_core [OF inv d small f tgt bufs, of addr] allocs at0 obtain d1 where
    s: "s_dispatch_subscribe al d f addr w = Some (ack_if True al desc addr f, set_desc d d1 w)" "desc_step desc d1"
      "\<forall>ch. ch_refs d1 ch = (if ch = tgt \<and> r \<notin> set (ch_refs desc ch) then ch_refs desc ch @ [r] else ch_refs desc ch)"
    by auto
  obtain sts where sts: "d1 = desc\<lparr>ds_channel_states := sts\<rparr>" using s(2) by (auto simp: desc_step_def)
  have inv1: "sv_inv (set_desc d d1 w)" and refs: "refs0 d1 = refs0 desc"
    using s(2) by (auto intro: sv_inv_desc [OF inv d] simp: desc_step_def)
  have at: "same_address addr (the (w_conns w r))" "r \<in> set (refs0 desc)"
    using at0 conn_at_in by (auto simp: conn_at_def find_Some_iff)
  have sub: "r \<in> set (ch_refs d1 tgt)" "set (ch_refs d1 tgt) \<subseteq> set (refs0 desc)"
    using s(3) ch_refs_connected [OF inv d, of tgt] at(2) by auto
  then have "find (\<lambda>q. same_address addr (the (w_conns w q))) (ch_refs d1 tgt) = Some r"
    using only_at_address [OF inv d at0] at(1) by (intro find_only) auto
  then have "conn_at (set_desc d d1 w) d1 tgt addr = Some r" by (simp add: conn_at_def)
  with that s(1) inv1 refs sub(2) show thesis by (simp add: sts)
qed


section \<open>A small server\<close>

definition sample_descriptor :: udp_socket_descriptor where
  "sample_descriptor = zero_descriptor\<lparr>ds_port := 80, ds_udp_socket_ref := 77, ds_port_callback := Some 4,
     ds_connect_callback := Some 5, ds_disconnect_callback := Some 6\<rparr>"

definition sample_message :: incoming_message where
  "sample_message = \<lparr>im_data = wire_header 0 CONNECTION 0 0 @ replicate 1486 0, im_data_length = 14,
     im_remote_address = krs_network_port_address_create 5000 zero_address, im_port = 80\<rparr>"

definition sample_server :: "desc_ref port_table \<Rightarrow> connection_map \<Rightarrow> message_pool \<Rightarrow> world" where
  "sample_server pt m p =
     \<lparr>w_spm = Some (sample_manager\<lparr>spm_port_table := Some pt, spm_connection_map := Some m, spm_message_pool := Some 1\<rparr>),
      w_descs = [3 \<mapsto> sample_descriptor], w_conns = Map.empty, w_next_connection_id = 0,
      w_pools = [1 \<mapsto> p], w_msgs = [5632 \<mapsto> sample_message], w_ctxs = Map.empty, w_wsa = \<lparr>wsa_ref_count = 1, wsa_calls = []\<rparr>\<rparr>"

definition sample_handler :: handler_alloc where
  "sample_handler = \<lparr>ha_array = True, ha_cells = Some (\<lambda>_. None), ha_conn = Some 9, ha_push = Some (\<lambda>_. None),
     ha_ids = True, ha_addrs = True, ha_builder = True, ha_buf = replicate 1500 0, ha_ack_buf = replicate 64 0,
     ha_reassembler = True, ha_sessions = True, ha_session_cells = Some (\<lambda>_. None),
     ha_feed = \<lparr>fa_body = None, fa_session = \<lparr>sa_session = True, sa_buffer = None, sa_sizes = True, sa_received = True, sa_push = None\<rparr>\<rparr>\<rparr>"

definition sample_frame :: "u8 \<Rightarrow> bytes \<Rightarrow> krs_frame" where
  "sample_frame ch body = \<lparr>frame_protocol_char = 0x4B, frame_protocol_version = 0x20, frame_channel = ch,
     frame_frame_type = frame_type_code BASIC_MESSAGE, frame_presence_flags = 0, frame_packet_id = 1,
     frame_metadata = metadata_zero, frame_body_length = of_nat (length body), frame_body = Some body\<rparr>"

lemma zero_states:
  "refs0 sample_descriptor = []" "ch_refs sample_descriptor ch = []" "desc_ok sample_descriptor" "desc_small sample_descriptor"
  "fragment_fits sample_descriptor f"
proof -
  have st: "ds_channel_states sample_descriptor = replicate 256 zero_channel"
    by (simp add: sample_descriptor_def zero_descriptor_def)
  have z: "chan_refs zero_channel = []" "chan_ok zero_channel" by (simp_all add: zero_channel_def chan_refs_def chan_ok_def)
  show "refs0 sample_descriptor = []" "ch_refs sample_descriptor ch = []"
    using channel_index [of ch] by (simp_all add: refs0_def ch_refs_def st z)
  show "desc_ok sample_descriptor" "desc_small sample_descriptor"
    by (simp_all add: desc_ok_def desc_small_def st z desc_wf_def) (simp_all add: sample_descriptor_def zero_descriptor_def)
  show "fragment_fits sample_descriptor f"
    using channel_index [of "frame_channel f"] by (simp add: fragment_fits_def st) (simp add: zero_channel_def)
qed

lemma sample_server_ok:
  obtains pt m p where "sv_inv (sample_server pt m p)" and "pt_ok pt" and "pt_map pt = [80 \<mapsto> 3]"
    and "small_map m" and "ids_of m = Map.empty" and "pool_inv p {5632}"
proof -
  obtain pt0 :: "desc_ref port_table" where new: "krs_lib_port_table_create True True = Some pt0"
    by (simp add: krs_lib_port_table_create_def port_table_create_def port_table_alloc_def port_links_alloc_def Let_def)
  obtain pt :: "desc_ref port_table" where pt: "pt_ok pt" "pt_map pt = [80 \<mapsto> 3]"
    using pt_insert_spec [of pt0 True 80 3] pt_create_spec [OF new] by auto
  obtain m where m: "krs_connection_map_create 8 True True True = Some m" by (simp add: krs_connection_map_create_def Let_def)
  have cap: "unat (s_next_power_of_two 8) \<le> 2 ^ 29" by (simp add: s_next_power_of_two_def Let_def)
  have ok: "cm_ok m" "cm_abs m = (Map.empty, Map.empty)" and small: "small_map m"
    using cm_create_ok(1,2) [OF m cap] m by (auto simp: small_map_def krs_connection_map_create_def s_next_power_of_two_def Let_def)
  obtain p0 where p0: "krs_message_pool_create 2 True (Some 4096) True = Some p0" by (simp add: krs_message_pool_create_def)
  have "storage_fits 4096 (unat (if (2 :: u32) = 0 then 256 else 2 :: u32))" by (simp add: storage_fits_def)
  from pool_create_inv [OF p0 this] have inv0: "pool_inv p0 {}" .
  have "fresh_msg p0 {} None" by (simp add: fresh_msg_def)
  from acquire_any [OF inv0 this] obtain x p where acq: "krs_message_pool_acquire (Some p0) None = Some (x, Some p)"
      "\<And>q. x = Some q \<Longrightarrow> pool_inv p {q}" by fastforce
  have "x = Some 5632"
    using acq(1) p0 by (auto simp: krs_message_pool_create_def krs_message_pool_acquire_def fill_stack_eq
        mem_get_def upt_rec slot_addr_def)
  with acq(2) have p: "pool_inv p {5632}" by blast
  have "sv_inv (sample_server pt m p)"
    using ok zero_states
    by (auto simp: sv_inv_def sv_map_def sample_server_def desc_conns_ok_def map_conns_ok_def)
  with that pt ok small p show thesis by simp
qed

lemma sample_ready:
  assumes "small_map m"
  shows "route_ready sample_handler (sample_server pt m p) sample_descriptor f"
    and "handler_bufs_ok sample_handler" and "sub_allocs_ok sample_handler"
    and "conn_at (sample_server pt m p) sample_descriptor ch addr = None"
  using assms zero_states by (auto simp: route_ready_def handler_bufs_ok_def sub_allocs_ok_def sample_handler_def
      sample_server_def sv_map_def conn_at_def)

lemma sample_handler_ok: "handler_bufs_ok sample_handler" "sub_allocs_ok sample_handler" "ha_builder sample_handler"
  by (auto simp: handler_bufs_ok_def sub_allocs_ok_def sample_handler_def)

text \<open>The small server with one connection.\<close>

lemma sample_connected:
  obtains w sts m where "sv_inv w" and "sv_map w = Some m" and "ids_of m 1 = Some (Some 3, Some 9)"
    and "w_conns w 9 = Some (new_connection 1 (krs_network_port_address_create 5000 zero_address) 1000)"
    and "w_descs w 3 = Some (sample_descriptor\<lparr>ds_channel_states := sts\<rparr>)"
    and "refs0 (sample_descriptor\<lparr>ds_channel_states := sts\<rparr>) = [9]"
    and "desc_small (sample_descriptor\<lparr>ds_channel_states := sts\<rparr>)"
    and "conn_at w (sample_descriptor\<lparr>ds_channel_states := sts\<rparr>) 0 (krs_network_port_address_create 5000 zero_address) = Some 9"
    and "w_conns w = [9 \<mapsto> new_connection 1 (krs_network_port_address_create 5000 zero_address) 1000]"
    and "w_descs w = [3 \<mapsto> sample_descriptor\<lparr>ds_channel_states := sts\<rparr>]"
proof -
  obtain pt m0 p where s: "sv_inv (sample_server pt m0 p)" "small_map m0" by (rule sample_server_ok)
  let ?w = "sample_server pt m0 p" and ?addr = "krs_network_port_address_create 5000 zero_address"
  have w: "w_descs ?w 3 = Some sample_descriptor" "sv_map ?w = Some m0" "w_next_connection_id ?w = 0"
    by (simp_all add: sample_server_def sv_map_def)
  have al: "ha_conn sample_handler = Some 9" by (simp add: sample_handler_def)
  note rd = sample_ready [OF s(2)]
  let ?d = "\<lambda>sts. sample_descriptor\<lparr>ds_channel_states := sts\<rparr>"
  obtain w0 sts m where c: "sv_inv w0" "w_descs w0 = (w_descs ?w)(3 \<mapsto> ?d sts)"
      "w_conns w0 = (w_conns ?w)(9 \<mapsto> new_connection 1 ?addr 1000)" "conn_at w0 (?d sts) 0 ?addr = Some 9"
      "\<And>ch. ch \<noteq> 0 \<Longrightarrow> ch_refs (?d sts) ch = ch_refs sample_descriptor ch" "refs0 (?d sts) = refs0 sample_descriptor @ [9]"
      "sv_map w0 = Some m" "ids_of m 1 = Some (Some 3, Some 9)"
  proof (rule connect_new_run [OF s(1) w(1) rd(1) rd(3) al rd(4) w(2), where addr = ?addr and now = 1000 and f = "sample_frame 0 []"])
  qed (use that in \<open>simp add: w(3)\<close>)
  have d: "w_descs w0 3 = Some (?d sts)" "w_conns w0 9 = Some (new_connection 1 ?addr 1000)" by (simp_all add: c(2,3))
  have refs: "refs0 (?d sts) = [9]" using c(6) zero_states(1) by simp
  obtain m1 where "desc_conns_ok w0 m1" using c(1) by (auto simp: sv_inv_def)
  from desc_conns_okD(1) [OF this d(1)] have len: "length sts = 256" by (simp add: desc_ok_def desc_wf_def)
  have "length (chan_refs st) \<le> 1" if st: "st \<in> set sts" for st
  proof -
    obtain i where i: "i < 256" "st = sts ! i" using st len by (auto simp: in_set_conv_nth)
    then have "chan_refs st = ch_refs (?d sts) (of_nat i)" by (simp add: ch_refs_def unat_of_nat)
    moreover have "ch_refs (?d sts) 0 = [9]" using refs by (simp add: ch_refs_def refs0_def)
    ultimately show ?thesis using c(5) [of "of_nat i"] zero_states(2) by (cases "(of_nat i :: u8) = 0") auto
  qed
  then have "desc_small (?d sts)" by (fastforce simp: desc_small_def)
  moreover have "w_conns w0 = [9 \<mapsto> new_connection 1 ?addr 1000]" using c(3) by (simp add: sample_server_def)
  moreover have "w_descs w0 = [3 \<mapsto> ?d sts]" using c(2) by (simp add: sample_server_def)
  ultimately show thesis using that c(1,4,7,8) d refs by blast
qed




end
