(* ===== verification/Kronos_Server_Send.thy ===== *)
theory Kronos_Server_Send
  imports Kronos_Server_Protocol
begin

text \<open>
  Sending to clients: \<open>server_broadcast.c\<close>. A send takes a reference to the connection and gives it back
  on every path; a reliable send also registers what it sends with the tracker of the connection.
\<close>

section \<open>Sending to one connection\<close>

text \<open>The outcomes of the allocations of one send, and the contents of its buffer.\<close>

record send_alloc =
  sd_counter :: bool
  sd_tracker :: bool
  sd_tracker_array :: bool
  sd_tracker_cells :: "ack_entry cells"
  sd_congestion :: bool
  sd_builder :: bool
  sd_buf :: bytes
  sd_split :: split_alloc
  sd_expect :: "nat \<Rightarrow> expect_alloc"

text \<open>The next packet identifier of a channel; 0 without a counter.\<close>

definition next_packet_id :: "bool \<Rightarrow> u8 \<Rightarrow> channel_state \<Rightarrow> (u64 \<times> channel_state) option" where
  "next_packet_id alloc channel st = do {
     let counter = (if ch_packet_counter st = None then krs_packet_counter_create alloc else ch_packet_counter st);
     (packet_id, counter') \<leftarrow> krs_packet_counter_next counter channel;
     Some (packet_id, st\<lparr>ch_packet_counter := counter'\<rparr>) }"

text \<open>The tracker and the controller of a reliable send, and whether the window has room.\<close>

definition reliable_setup :: "send_alloc \<Rightarrow> client_connection \<Rightarrow> (bool \<times> client_connection) option" where
  "reliable_setup al target = do {
     let target = (if cn_ack_tracker target = None
                   then target\<lparr>cn_ack_tracker := krs_ack_tracker_create (sd_tracker al) (sd_tracker_array al)
                                 (sd_tracker_cells al) 1000 5\<rparr> else target);
     let target = (if cn_congestion target = None
                   then target\<lparr>cn_congestion := krs_congestion_create (sd_congestion al)\<rparr> else target);
     case cn_congestion target of
       None \<Rightarrow> Some (True, target)
     | Some cc \<Rightarrow> do {
         can_send \<leftarrow> krs_congestion_can_send (Some cc);
         Some (can_send, if can_send then target\<lparr>cn_congestion := krs_congestion_on_send (Some cc)\<rparr> else target) } }"

text \<open>
  The two ways to send: the result, the datagrams, the tracker afterwards and the number of frames
  counted as sent.
\<close>

definition send_whole ::
    "send_alloc \<Rightarrow> u64 \<Rightarrow> socket \<Rightarrow> port_address \<Rightarrow> u8 \<Rightarrow> u64 \<Rightarrow> bytes \<Rightarrow> u16 \<Rightarrow> bool \<Rightarrow> ack_tracker option \<Rightarrow>
     (void_r \<times> event list \<times> ack_tracker option \<times> nat) option" where
  "send_whole al now sock addr channel packet_id data len require_ack tracker =
     (case krs_frame_builder_create (sd_builder al) channel BASIC_MESSAGE of
        None \<Rightarrow> Some (krs_lib_error_result_base_w_msg KRS_ERR_MEMORY_ALLOCATION ''builder alloc failed'', [], tracker, 0)
      | Some b \<Rightarrow> do {
          let b = krs_frame_builder_set_packet_id (Some b) packet_id;
          let b = krs_frame_builder_set_data b (Some data) len;
          let b = (if require_ack then krs_frame_builder_set_flag b META_FLAG_ACK_REQUIRED else b);
          (n, buf) \<leftarrow> krs_frame_builder_serialize b (Some (sd_buf al)) (of_nat KRONOS_BUFFER_SIZE);
          if n = 0
          then Some (krs_lib_error_result_base_w_msg KRS_ERR_NETWORK_SOCKET_ERROR ''serialize failed'', [], tracker, 0)
          else do {
            tracker \<leftarrow> (if require_ack then krs_ack_tracker_expect (sd_expect al 0) now tracker packet_id channel buf n
                        else Some tracker);
            ds \<leftarrow> krs_net_send_frame sock (Some addr) buf n;
            Some (krs_lib_error_result_base_suc, map Ev_send ds, tracker, 1) } })"

text \<open>A fragment as the loops see it: its bytes and its size.\<close>

definition fragment_at :: "fragment_result \<Rightarrow> nat \<Rightarrow> (bytes \<times> u16) option" where
  "fragment_at frag f = do {
     bs \<leftarrow> fragment_bytes frag f;
     n \<leftarrow> (case fr_sizes frag of Live ss \<Rightarrow> mem_get ss f | _ \<Rightarrow> None);
     Some (bs, n) }"

fun expect_fragments ::
    "(nat \<Rightarrow> expect_alloc) \<Rightarrow> u64 \<Rightarrow> u64 \<Rightarrow> u8 \<Rightarrow> fragment_result \<Rightarrow> nat \<Rightarrow> nat \<Rightarrow> ack_tracker option \<Rightarrow>
     ack_tracker option option" where
  "expect_fragments als now packet_id channel frag f 0 tracker = Some tracker"
| "expect_fragments als now packet_id channel frag f (Suc n) tracker = do {
     (bs, sz) \<leftarrow> fragment_at frag f;
     tracker' \<leftarrow> krs_ack_tracker_expect (als f) now tracker packet_id channel (Some bs) sz;
     expect_fragments als now packet_id channel frag (Suc f) n tracker' }"

fun send_fragments :: "socket \<Rightarrow> port_address \<Rightarrow> fragment_result \<Rightarrow> nat \<Rightarrow> nat \<Rightarrow> event list option" where
  "send_fragments sock addr frag f 0 = Some []"
| "send_fragments sock addr frag f (Suc n) = do {
     (bs, sz) \<leftarrow> fragment_at frag f;
     ds \<leftarrow> krs_net_send_frame sock (Some addr) (Some bs) sz;
     evs \<leftarrow> send_fragments sock addr frag (Suc f) n;
     Some (map Ev_send ds @ evs) }"

definition send_split ::
    "send_alloc \<Rightarrow> u64 \<Rightarrow> socket \<Rightarrow> port_address \<Rightarrow> u8 \<Rightarrow> u64 \<Rightarrow> bytes \<Rightarrow> u16 \<Rightarrow> bool \<Rightarrow> ack_tracker option \<Rightarrow>
     (void_r \<times> event list \<times> ack_tracker option \<times> nat) option" where
  "send_split al now sock addr channel packet_id data len require_ack tracker = do {
     frag \<leftarrow> krs_fragment_split (sd_split al) channel BASIC_MESSAGE packet_id (Some data) (ucast len) (of_nat KRS_DEFAULT_MTU)
              (if require_ack then push_bit META_FLAG_ACK_REQUIRED 1 else 0);
     if rb_error_code (fr_base frag) \<noteq> KRS_SUCCESS then Some (fr_base frag, [], tracker, 0)
     else do {
       tracker \<leftarrow> (if require_ack \<and> tracker \<noteq> None
                   then expect_fragments (sd_expect al) now packet_id channel frag 0 (unat (fr_count frag)) tracker
                   else Some tracker);
       evs \<leftarrow> send_fragments sock addr frag 0 (unat (fr_count frag));
       _ \<leftarrow> krs_fragment_result_destroy (Some frag);
       Some (krs_lib_error_result_base_suc, evs, tracker, unat (fr_count frag)) } }"

text \<open>The reference taken on the target is given back before the result is returned.\<close>

definition send_done ::
    "conn_ref \<Rightarrow> void_r \<Rightarrow> event list \<Rightarrow> world \<Rightarrow> (void_r \<times> event list \<times> world) option" where
  "send_done r res evs w = do {
     cs \<leftarrow> krs_connection_map_release (w_conns w) (Some r);
     Some (res, evs, w\<lparr>w_conns := cs\<rparr>) }"

definition krs_server_send ::
    "send_alloc \<Rightarrow> u64 \<Rightarrow> u32 \<Rightarrow> u8 \<Rightarrow> bytes option \<Rightarrow> u16 \<Rightarrow> bool \<Rightarrow> world \<Rightarrow> (void_r \<times> event list \<times> world) option" where
  "krs_server_send al now connection_id channel data len require_ack w =
     (case (w_spm w, data) of
        (Some spm, Some bytes) \<Rightarrow>
          (case spm_connection_map spm of
             None \<Rightarrow> Some (krs_lib_error_result_base_w_msg KRS_ERR_NOT_INITIALIZED ''no connection map'', [], w)
           | Some m \<Rightarrow> do {
               (found, cs) \<leftarrow> krs_connection_map_acquire (w_conns w) (Some m) connection_id;
               case found of
                 None \<Rightarrow> Some (krs_lib_error_result_base_w_msg KRS_ERR_INVALID_PARAMETER ''connection_id not found'', [],
                              w\<lparr>w_conns := cs\<rparr>)
               | Some (descriptor, r) \<Rightarrow> do {
                   let w = w\<lparr>w_conns := cs\<rparr>;
                   target \<leftarrow> w_conns w r;
                   d \<leftarrow> descriptor;
                   desc \<leftarrow> w_descs w d;
                   st \<leftarrow> get_channel desc channel;
                   (packet_id, st') \<leftarrow> next_packet_id (sd_counter al) channel st;
                   desc' \<leftarrow> set_channel channel st' desc;
                   let w = set_desc d desc' w;
                   (can_send, target') \<leftarrow> (if require_ack then reliable_setup al target else Some (True, target));
                   let w = set_conn r target' w;
                   if \<not> can_send
                   then send_done r (krs_lib_error_result_base_w_msg KRS_ERR_SERVER_CONGESTION_WINDOW_FULL
                                       ''congestion window full'') [] w
                   else do {
                     (res, evs, tracker, sent) \<leftarrow>
                       (if unat len \<le> KRS_MAX_PAYLOAD_PER_FRAGMENT
                        then send_whole al now (ds_udp_socket_ref desc') (cn_remote_address target') channel packet_id
                               bytes len require_ack (cn_ack_tracker target')
                        else send_split al now (ds_udp_socket_ref desc') (cn_remote_address target') channel packet_id
                               bytes len require_ack (cn_ack_tracker target'));
                     send_done r res evs
                       (set_spm (spm\<lparr>stat_messages_sent := stat_messages_sent spm + of_nat sent\<rparr>)
                          (set_conn r (target'\<lparr>cn_ack_tracker := tracker\<rparr>) w)) } } })
      | _ \<Rightarrow> Some (krs_lib_error_result_base_w_msg KRS_ERR_NULL_POINTER ''spm or data is NULL'', [], w))"

text \<open>
  The blocking variant: each round has its allocations, the two readings of the clock and what the other
  threads do while it sleeps. The third component of the result lists the sleeps; the result is \<open>None\<close>
  while it has not returned. The loop is the same for every kind of send.
\<close>

record 'w send_round =
  sr_alloc :: send_alloc
  sr_now :: u64
  sr_later :: u64
  sr_others :: "'w \<Rightarrow> 'w"

fun send_blocking_loop ::
    "(send_alloc \<Rightarrow> u64 \<Rightarrow> 'w \<Rightarrow> (void_r \<times> event list \<times> 'w) option) \<Rightarrow> 'w send_round list \<Rightarrow> u64 \<Rightarrow> u32 \<Rightarrow> 'w \<Rightarrow>
     (void_r option \<times> event list \<times> u32 list \<times> 'w) option" where
  "send_blocking_loop send [] deadline backoff_ms w = Some (None, [], [], w)"
| "send_blocking_loop send (rd # rds) deadline backoff_ms w = do {
     (res, evs, w) \<leftarrow> send (sr_alloc rd) (sr_now rd) w;
     if rb_valid res \<or> rb_error_code res \<noteq> KRS_ERR_SERVER_CONGESTION_WINDOW_FULL \<or> sr_later rd \<ge> deadline
     then Some (Some res, evs, [], w)
     else do {
       let remaining = deadline - sr_later rd;
       let sleep_ms = (if ucast backoff_ms < remaining then backoff_ms else ucast remaining);
       (out, evs', sleeps, w) \<leftarrow> send_blocking_loop send rds deadline (if backoff_ms < 50 then backoff_ms * 2 else backoff_ms)
          (sr_others rd w);
       Some (out, evs @ evs', sleep_ms # sleeps, w) } }"

definition krs_server_send_blocking ::
    "world send_round list \<Rightarrow> u64 \<Rightarrow> u32 \<Rightarrow> u8 \<Rightarrow> bytes option \<Rightarrow> u16 \<Rightarrow> u32 \<Rightarrow> world \<Rightarrow>
     (void_r option \<times> event list \<times> u32 list \<times> world) option" where
  "krs_server_send_blocking rds start connection_id channel data len timeout_ms w =
     send_blocking_loop (\<lambda>al now. krs_server_send al now connection_id channel data len True) rds (start + ucast timeout_ms) 1 w"

section \<open>Broadcasts\<close>

definition s_send_to_connection ::
    "send_alloc \<Rightarrow> socket \<Rightarrow> client_connection \<Rightarrow> u8 \<Rightarrow> u64 \<Rightarrow> bytes \<Rightarrow> u16 \<Rightarrow> event list option" where
  "s_send_to_connection al sock conn channel packet_id data len =
     (if unat len \<le> KRS_MAX_PAYLOAD_PER_FRAGMENT
      then case krs_frame_builder_create (sd_builder al) channel BASIC_MESSAGE of
             None \<Rightarrow> Some []
           | Some b \<Rightarrow> do {
               (n, buf) \<leftarrow> krs_frame_builder_serialize
                  (krs_frame_builder_set_data (krs_frame_builder_set_packet_id (Some b) packet_id) (Some data) len)
                  (Some (sd_buf al)) (of_nat KRONOS_BUFFER_SIZE);
               if n = 0 then Some []
               else do { ds \<leftarrow> krs_net_send_frame sock (Some (cn_remote_address conn)) buf n; Some (map Ev_send ds) } }
      else do {
        frag \<leftarrow> krs_fragment_split (sd_split al) channel BASIC_MESSAGE packet_id (Some data) (ucast len)
                 (of_nat KRS_DEFAULT_MTU) 0;
        if rb_error_code (fr_base frag) \<noteq> KRS_SUCCESS then Some []
        else do {
          evs \<leftarrow> send_fragments sock (cn_remote_address conn) frag 0 (unat (fr_count frag));
          _ \<leftarrow> krs_fragment_result_destroy (Some frag);
          Some evs } })"

text \<open>The snapshot of at most 256 subscribers, each with a reference taken.\<close>

fun snapshot_loop ::
    "conn_ref krs_array \<Rightarrow> u32 \<Rightarrow> nat \<Rightarrow> nat \<Rightarrow> conn_store \<Rightarrow> conn_ref list \<Rightarrow> (conn_store \<times> conn_ref list) option" where
  "snapshot_loop conns exclude_id i 0 cs snap = Some (cs, snap)"
| "snapshot_loop conns exclude_id i (Suc n) cs snap =
     (if length snap \<ge> 256 then Some (cs, snap)
      else do {
        x \<leftarrow> array_at conns i;
        case x of
          None \<Rightarrow> snapshot_loop conns exclude_id (Suc i) n cs snap
        | Some r \<Rightarrow> do {
            c \<leftarrow> cs r;
            if cn_connection_id c = exclude_id then snapshot_loop conns exclude_id (Suc i) n cs snap
            else snapshot_loop conns exclude_id (Suc i) n (cs(r \<mapsto> c\<lparr>cn_refcount := cn_refcount c + 1\<rparr>)) (snap @ [r]) } })"

fun take_packet_ids :: "packet_counter option \<Rightarrow> u8 \<Rightarrow> nat \<Rightarrow> (u64 list \<times> packet_counter option) option" where
  "take_packet_ids counter channel 0 = Some ([], counter)"
| "take_packet_ids counter channel (Suc n) = do {
     (p, counter') \<leftarrow> krs_packet_counter_next counter channel;
     (ps, counter'') \<leftarrow> take_packet_ids counter' channel n;
     Some (p # ps, counter'') }"

fun send_each ::
    "(nat \<Rightarrow> send_alloc) \<Rightarrow> socket \<Rightarrow> conn_store \<Rightarrow> u8 \<Rightarrow> bytes \<Rightarrow> u16 \<Rightarrow> nat \<Rightarrow> (conn_ref \<times> u64) list \<Rightarrow> event list option" where
  "send_each als sock cs channel data len i [] = Some []"
| "send_each als sock cs channel data len i ((r, p) # rest) = do {
     c \<leftarrow> cs r;
     evs \<leftarrow> s_send_to_connection (als i) sock c channel p data len;
     evs' \<leftarrow> send_each als sock cs channel data len (Suc i) rest;
     Some (evs @ evs') }"

definition s_broadcast_on_descriptor ::
    "(nat \<Rightarrow> send_alloc) \<Rightarrow> desc_ref \<Rightarrow> u8 \<Rightarrow> bytes \<Rightarrow> u16 \<Rightarrow> u32 \<Rightarrow> world \<Rightarrow> (event list \<times> world) option" where
  "s_broadcast_on_descriptor als d channel data len exclude_id w = do {
     desc \<leftarrow> w_descs w d;
     st \<leftarrow> get_channel desc channel;
     case ch_connections st of
       None \<Rightarrow> Some ([], w)
     | Some conns \<Rightarrow> do {
         (cs, snap) \<leftarrow> snapshot_loop conns exclude_id 0 (arr_rounds conns) (w_conns w) [];
         let counter = (if ch_packet_counter st = None then krs_packet_counter_create (sd_counter (als 0)) else ch_packet_counter st);
         (pids, counter') \<leftarrow> take_packet_ids counter channel (length snap);
         desc' \<leftarrow> set_channel channel (st\<lparr>ch_packet_counter := counter'\<rparr>) desc;
         evs \<leftarrow> send_each als (ds_udp_socket_ref desc') cs channel data len 0 (zip snap pids);
         cs' \<leftarrow> release_all snap cs;
         Some (evs, (set_desc d desc' w)\<lparr>w_conns := cs'\<rparr>) } }"

text \<open>The loop over the descriptors.\<close>

fun each_descriptor ::
    "(nat \<Rightarrow> desc_ref \<Rightarrow> world \<Rightarrow> (event list \<times> world) option) \<Rightarrow> desc_ref krs_array \<Rightarrow> nat \<Rightarrow> nat \<Rightarrow> world \<Rightarrow>
     (event list \<times> world) option" where
  "each_descriptor f list i 0 w = Some ([], w)"
| "each_descriptor f list i (Suc n) w = do {
     x \<leftarrow> array_at list i;
     case x of
       None \<Rightarrow> each_descriptor f list (Suc i) n w
     | Some d \<Rightarrow> do {
         (evs, w') \<leftarrow> f i d w;
         (evs', w'') \<leftarrow> each_descriptor f list (Suc i) n w';
         Some (evs @ evs', w'') } }"

definition krs_server_broadcast_except ::
    "(nat \<Rightarrow> nat \<Rightarrow> send_alloc) \<Rightarrow> u8 \<Rightarrow> u32 \<Rightarrow> bytes option \<Rightarrow> u16 \<Rightarrow> world \<Rightarrow> (event list \<times> world) option" where
  "krs_server_broadcast_except als channel exclude_connection_id data len w =
     (case (w_spm w, data) of
        (Some spm, Some bytes) \<Rightarrow>
          (case spm_descriptor_list spm of
             None \<Rightarrow> Some ([], w)
           | Some list \<Rightarrow>
               each_descriptor (\<lambda>i d. s_broadcast_on_descriptor (als i) d channel bytes len exclude_connection_id) list 0
                 (unat (krs_array_length (Some list))) w)
      | _ \<Rightarrow> Some ([], w))"

definition krs_server_broadcast ::
    "(nat \<Rightarrow> nat \<Rightarrow> send_alloc) \<Rightarrow> u8 \<Rightarrow> bytes option \<Rightarrow> u16 \<Rightarrow> world \<Rightarrow> (event list \<times> world) option" where
  "krs_server_broadcast als channel data len w =
     (case (w_spm w, data) of
        (Some spm, Some bytes) \<Rightarrow>
          (case spm_descriptor_list spm of
             None \<Rightarrow> Some ([], w)
           | Some list \<Rightarrow>
               each_descriptor (\<lambda>i d. s_broadcast_on_descriptor (als i) d channel bytes len 0) list 0
                 (unat (krs_array_length (Some list))) w)
      | _ \<Rightarrow> Some ([], w))"

text \<open>The reliable broadcast: a snapshot of the identifiers, then one reliable send for each.\<close>

fun snapshot_ids :: "conn_ref krs_array \<Rightarrow> nat \<Rightarrow> nat \<Rightarrow> conn_store \<Rightarrow> u32 list \<Rightarrow> u32 list option" where
  "snapshot_ids subs i 0 cs ids = Some ids"
| "snapshot_ids subs i (Suc n) cs ids =
     (if length ids \<ge> 256 then Some ids
      else do {
        x \<leftarrow> array_at subs i;
        case x of
          None \<Rightarrow> snapshot_ids subs (Suc i) n cs ids
        | Some r \<Rightarrow> do { c \<leftarrow> cs r; snapshot_ids subs (Suc i) n cs (ids @ [cn_connection_id c]) } })"

fun send_ids ::
    "(nat \<Rightarrow> send_alloc) \<Rightarrow> u64 \<Rightarrow> u8 \<Rightarrow> bytes \<Rightarrow> u16 \<Rightarrow> nat \<Rightarrow> u32 list \<Rightarrow> world \<Rightarrow> (event list \<times> world) option" where
  "send_ids als now channel data len i [] w = Some ([], w)"
| "send_ids als now channel data len i (c # cs) w = do {
     (_, evs, w') \<leftarrow> krs_server_send (als i) now c channel (Some data) len True w;
     (evs', w'') \<leftarrow> send_ids als now channel data len (Suc i) cs w';
     Some (evs @ evs', w'') }"

definition broadcast_reliable_on ::
    "(nat \<Rightarrow> send_alloc) \<Rightarrow> u64 \<Rightarrow> u8 \<Rightarrow> bytes \<Rightarrow> u16 \<Rightarrow> desc_ref \<Rightarrow> world \<Rightarrow> (event list \<times> world) option" where
  "broadcast_reliable_on als now channel data len d w = do {
     desc \<leftarrow> w_descs w d;
     st \<leftarrow> get_channel desc channel;
     snap_ids \<leftarrow> (case ch_connections st of
                    None \<Rightarrow> Some []
                  | Some subs \<Rightarrow> snapshot_ids subs 0 (arr_rounds subs) (w_conns w) []);
     send_ids als now channel data len 0 snap_ids w }"

definition krs_server_broadcast_reliable ::
    "(nat \<Rightarrow> nat \<Rightarrow> send_alloc) \<Rightarrow> u64 \<Rightarrow> u8 \<Rightarrow> bytes option \<Rightarrow> u16 \<Rightarrow> world \<Rightarrow> (void_r \<times> event list \<times> world) option" where
  "krs_server_broadcast_reliable als now channel data len w =
     (case (w_spm w, data) of
        (Some spm, Some bytes) \<Rightarrow>
          (case spm_descriptor_list spm of
             None \<Rightarrow> Some (krs_lib_error_result_base_w_msg KRS_ERR_NOT_INITIALIZED ''no descriptor list'', [], w)
           | Some list \<Rightarrow> do {
               (evs, w') \<leftarrow> each_descriptor (\<lambda>i d. broadcast_reliable_on (als i) now channel bytes len d) list 0
                              (unat (krs_array_length (Some list))) w;
               Some (krs_lib_error_result_base_suc, evs, w') })
      | _ \<Rightarrow> Some (krs_lib_error_result_base_w_msg KRS_ERR_NULL_POINTER ''spm or data NULL'', [], w))"

section \<open>Lemmas on a single send\<close>

lemma next_packet_id_spec:
  assumes "chan_ok st"
  shows "\<exists>pc. next_packet_id alloc channel st = Some (case ch_packet_counter st of
       None \<Rightarrow> if alloc then 1 else 0 | Some pc \<Rightarrow> pc_counters pc ! unat channel + 1, st\<lparr>ch_packet_counter := pc\<rparr>) \<and>
    chan_ok (st\<lparr>ch_packet_counter := pc\<rparr>) \<and> chan_refs (st\<lparr>ch_packet_counter := pc\<rparr>) = chan_refs st"
proof -
  let ?pc = "if ch_packet_counter st = None then krs_packet_counter_create alloc else ch_packet_counter st"
  have len: "length (pc_counters p) = 256" if "?pc = Some p" for p
    using that assms by (auto simp: chan_ok_def krs_packet_counter_create_def split: if_splits)
  show ?thesis
  proof (cases ?pc)
    case None
    then show ?thesis using assms
      by (auto simp: next_packet_id_def krs_packet_counter_next_def krs_packet_counter_create_def chan_ok_def chan_refs_def
          Let_def split: if_splits)
  next
    case (Some p)
    let ?l = "pc_counters p" and ?i = "unat channel"
    have "krs_packet_counter_next ?pc channel = Some (?l ! ?i + 1, Some (p\<lparr>pc_counters := ?l[?i := ?l ! ?i + 1]\<rparr>))"
      unfolding Some using len [OF Some] channel_index [of channel]
      by (auto simp: krs_packet_counter_next_def mem_get_def mem_set_def)
    moreover have "?l ! ?i + 1 = (case ch_packet_counter st of None \<Rightarrow> if alloc then 1 else 0
        | Some pc \<Rightarrow> pc_counters pc ! unat channel + 1)"
      using Some channel_index [of channel] by (auto simp: krs_packet_counter_create_def split: if_splits option.splits)
    ultimately show ?thesis
      using assms len [OF Some] by (auto simp: next_packet_id_def chan_ok_def chan_refs_def Let_def)
  qed
qed

text \<open>Replacing the packet counter of a channel, which may be channel 0.\<close>

lemma desc_ok_counter:
  assumes ok: "desc_ok desc" and st: "get_channel desc ch = Some st" and c: "set_channel ch st' desc = Some desc'"
    and st': "chan_ok st'" "chan_refs st' = chan_refs st"
  shows "desc_ok desc'" and "refs0 desc' = refs0 desc" and "\<exists>sts. desc' = desc\<lparr>ds_channel_states := sts\<rparr>"
    and "\<And>x. ch_refs desc' x = ch_refs desc x"
proof -
  have "st = ds_channel_states desc ! unat ch" "st \<in> set (ds_channel_states desc)"
    using st by (auto simp: get_channel_def mem_get_def split: if_splits)
  then have refs: "chan_refs st' = ch_refs desc ch" and sub: "set (chan_refs st') \<subseteq> set (refs0 desc)"
    using st'(2) ok by (auto simp: ch_refs_def desc_ok_def)
  show "desc_ok desc'" "refs0 desc' = refs0 desc"
  proof -
    have "desc_ok desc' \<and> refs0 desc' = refs0 desc"
    proof (cases "ch = 0")
      case True
      then have "chan_refs st' = refs0 desc" using refs by (simp add: ch_refs_def refs0_def)
      with desc_ok_channel0 [OF ok c [unfolded True] st'(1)] show ?thesis by simp
    next
      case False
      from desc_ok_channel [OF ok c st'(1) False sub] show ?thesis by simp
    qed
    then show "desc_ok desc'" "refs0 desc' = refs0 desc" by simp_all
  qed
  show "\<exists>sts. desc' = desc\<lparr>ds_channel_states := sts\<rparr>" by (rule set_channel_sts [OF c])
  show "ch_refs desc' x = ch_refs desc x" for x
    using ch_refs_set_channel [OF _ c, of x] ok refs by (simp add: desc_ok_def)
qed

text \<open>
  What a connection must satisfy for a reliable send: its controller has seen fewer than \<open>2 ^ 32 - 4\<close>
  acknowledgements, so that the window fits 32 bits, and its tracker has room for a message.
\<close>

definition can_track :: "client_connection \<Rightarrow> bool" where
  "can_track c \<longleftrightarrow> (\<forall>cc. cn_congestion c = Some cc \<longrightarrow> (\<exists>n < 4294967292. cc_reach n cc)) \<and>
     (\<forall>t. cn_ack_tracker c = Some t \<longrightarrow> length (pending_entries t) + 48 < 2 ^ 31)"

definition same_conn :: "client_connection \<Rightarrow> client_connection \<Rightarrow> bool" where
  "same_conn c c' \<longleftrightarrow> cn_connection_id c' = cn_connection_id c \<and> cn_remote_address c' = cn_remote_address c \<and>
     cn_refcount c' = cn_refcount c"

lemma window_defined:
  assumes "cc_reach n cc" and "n < 4294967292"
  shows "\<exists>v. u32_of_double (cc_cwnd cc) = Some v"
proof -
  have inv: "cc_inv n cc" using assms by (auto intro: cc_reach_inv)
  have "(of_nat (4 + n) :: rat) < of_nat 4294967296" using assms(2) by (simp only: of_nat_less_iff)
  then have "cc_cwnd cc < 4294967296" using inv by (simp add: cc_inv_def)
  with inv u32_of_double_defined [of "cc_cwnd cc"] show ?thesis by (auto simp: cc_inv_def)
qed

lemma reliable_setup_spec:
  assumes "tracker_ok c" and "cc_ok c" and "can_track c"
  shows "\<exists>can c'. reliable_setup al c = Some (can, c') \<and> same_conn c c' \<and> tracker_ok c' \<and> cc_ok c' \<and>
    can_track c' \<and> (\<forall>t. cn_ack_tracker c = Some t \<longrightarrow> cn_ack_tracker c' = Some t)"
proof -
  define c1 where "c1 = (if cn_ack_tracker c = None then c\<lparr>cn_ack_tracker := krs_ack_tracker_create (sd_tracker al)
    (sd_tracker_array al) (sd_tracker_cells al) 1000 5\<rparr> else c)"
  define c2 where "c2 = (if cn_congestion c1 = None then c1\<lparr>cn_congestion := krs_congestion_create (sd_congestion al)\<rparr> else c1)"
  have tr: "tracker_ok c2" "same_conn c c2" "\<forall>t. cn_ack_tracker c2 = Some t \<longrightarrow> length (pending_entries t) + 48 < 2 ^ 31"
      "\<forall>t. cn_ack_tracker c = Some t \<longrightarrow> cn_ack_tracker c2 = Some t"
    using assms(1,3) create_wf(1,2)
    by (auto simp: c2_def c1_def tracker_ok_def same_conn_def can_track_def split: option.splits)
  have reach: "\<exists>n < 4294967292. cc_reach n cc" if "cn_congestion c2 = Some cc" for cc
    using that assms(3) cc_reach.created [of cc]
    by (force simp: c2_def c1_def can_track_def krs_congestion_create_def split: if_splits)
  have unf: "reliable_setup al c = (case cn_congestion c2 of None \<Rightarrow> Some (True, c2)
     | Some cc \<Rightarrow> do {
         can_send \<leftarrow> krs_congestion_can_send (Some cc);
         Some (can_send, if can_send then c2\<lparr>cn_congestion := krs_congestion_on_send (Some cc)\<rparr> else c2) })"
    unfolding reliable_setup_def c1_def [symmetric] Let_def c2_def [symmetric] ..
  show ?thesis
  proof (cases "cn_congestion c2")
    case None
    then show ?thesis using unf tr by (auto simp: cc_ok_def can_track_def)
  next
    case (Some cc)
    obtain n where n: "cc_reach n cc" "n < 4294967292" using reach [OF Some] by blast
    obtain v where v: "u32_of_double (cc_cwnd cc) = Some v" using window_defined [OF n] by blast
    obtain cc' where cc': "krs_congestion_on_send (Some cc) = Some cc'" by (simp add: krs_congestion_on_send_def)
    have "cc_ok c2" "cc_ok (c2\<lparr>cn_congestion := Some cc'\<rparr>)"
      using n(1) Some cc_reach.send [OF n(1) cc'] by (auto simp: cc_ok_def)
    moreover have "can_track c2" "can_track (c2\<lparr>cn_congestion := Some cc'\<rparr>)"
      using n Some cc_reach.send [OF n(1) cc'] tr(3) by (auto simp: can_track_def)
    moreover have "tracker_ok (c2\<lparr>cn_congestion := Some cc'\<rparr>)" using tr(1) by (simp add: tracker_ok_def)
    moreover have "same_conn c (c2\<lparr>cn_congestion := Some cc'\<rparr>)" using tr(2) by (simp add: same_conn_def)
    ultimately show ?thesis using unf Some v cc' tr by (auto simp: krs_congestion_can_send_def)
  qed
qed

text \<open>The frames of a message, as every way to send produces them, and the entries that track them.\<close>

definition ack_flags :: "bool \<Rightarrow> u16" where
  "ack_flags require_ack = (if require_ack then push_bit META_FLAG_ACK_REQUIRED 1 else 0)"

definition message_frames :: "u8 \<Rightarrow> u64 \<Rightarrow> bytes \<Rightarrow> bool \<Rightarrow> bytes list" where
  "message_frames ch pid data require_ack = split_frames ch BASIC_MESSAGE pid data KRS_DEFAULT_MTU (ack_flags require_ack)"

definition track_entries :: "u64 \<Rightarrow> u64 \<Rightarrow> u8 \<Rightarrow> bytes list \<Rightarrow> ack_entry list" where
  "track_entries now pid ch frames = map (\<lambda>b. new_entry now pid ch (Some b) (of_nat (length b))) frames"

lemma ack_flags_length: "metadata_length (ack_flags b) = 0" "wire_metadata (ack_flags b) md = []"
  by (simp_all add: ack_flags_def metadata_length_def wire_metadata_def has_flag_def)

lemma net_send_all:
  assumes "bs \<noteq> []" and "unat sz = length bs"
  shows "krs_net_send_frame sock (Some addr) (Some bs) sz = Some [(sock, addr, bs)]"
proof -
  have "sz \<noteq> 0" using assms by (metis length_0_conv unat_0)
  with assms(2) show ?thesis by (simp add: krs_net_send_frame_def mem_read_all)
qed

definition frames_at :: "fragment_result \<Rightarrow> bytes list \<Rightarrow> bool" where
  "frames_at frag frames \<longleftrightarrow> (\<forall>i < length frames. frames ! i \<noteq> [] \<and> length (frames ! i) < 65536 \<and>
     fragment_at frag i = Some (frames ! i, of_nat (length (frames ! i))))"

lemma expect_fragments_spec:
  assumes "frames_at frag frames" and "f + n = length frames" and "ack_wf t" and "length (pending_entries t) + n < 2 ^ 31"
  shows "\<exists>t'. expect_fragments als now pid ch frag f n (Some t) = Some (Some t') \<and> ack_wf t' \<and>
    ((\<forall>i. expect_alloc_ok (als i)) \<longrightarrow> pending_entries t' = pending_entries t @ track_entries now pid ch (drop f frames))"
  using assms(2-4)
proof (induction n arbitrary: f t)
  case (Suc n)
  let ?b = "frames ! f" and ?e = "new_entry now pid ch (Some (frames ! f)) (of_nat (length (frames ! f)))"
  have f: "f < length frames" using Suc.prems(1) by simp
  have at: "fragment_at frag f = Some (?b, of_nat (length ?b))" "length ?b < 65536"
    using assms(1) f by (auto simp: frames_at_def)
  have src: "\<forall>d. Some ?b = Some d \<longrightarrow> unat (of_nat (length ?b) :: u16) \<le> length d" using at(2) by (simp add: unat_of_nat)
  have wf: "arr_ok (at_pending t)" "length (pending_entries t) < 2 ^ 31" using Suc.prems(2,3) by (auto dest: ack_wfD)
  obtain t1 where t1: "krs_ack_tracker_expect (als f) now (Some t) pid ch (Some ?b) (of_nat (length ?b)) = Some (Some t1)"
      "ack_wf t1" "length (pending_entries t1) \<le> Suc (length (pending_entries t))"
      "expect_alloc_ok (als f) \<longrightarrow> pending_entries t1 = pending_entries t @ [?e]"
  proof (rule expect_cases [OF wf src, of "als f" now pid ch])
    fix a assume "krs_ack_tracker_expect (als f) now (Some t) pid ch (Some ?b) (of_nat (length ?b)) = Some (Some (t\<lparr>at_pending := a\<rparr>))"
      "arr_vals a = pending_entries t @ [?e]"
    with expect_wf [OF Suc.prems(2) wf(2) src this(1)] show thesis by (intro that) auto
  next
    assume "krs_ack_tracker_expect (als f) now (Some t) pid ch (Some ?b) (of_nat (length ?b)) = Some (Some t)" "\<not> expect_alloc_ok (als f)"
    with Suc.prems(2) show thesis by (intro that) auto
  qed
  have "Suc f + n = length frames" "length (pending_entries t1) + n < 2 ^ 31" using Suc.prems t1(3) by simp_all
  from Suc.IH [OF this(1) t1(2) this(2)] t1(1,4) at(1) f show ?case
    by (auto simp: track_entries_def Cons_nth_drop_Suc [symmetric])
qed (simp add: track_entries_def)

lemma send_fragments_spec:
  assumes "frames_at frag frames" and "f + n = length frames"
  shows "send_fragments sock addr frag f n = Some (map (\<lambda>b. Ev_send (sock, addr, b)) (drop f frames))"
  using assms(2)
proof (induction n arbitrary: f)
  case (Suc n)
  then have f: "f < length frames" by simp
  then have at: "fragment_at frag f = Some (frames ! f, of_nat (length (frames ! f)))" "length (frames ! f) < 65536" "frames ! f \<noteq> []"
    using assms(1) by (auto simp: frames_at_def)
  have "krs_net_send_frame sock (Some addr) (Some (frames ! f)) (of_nat (length (frames ! f))) = Some [(sock, addr, frames ! f)]"
    using at(2,3) by (intro net_send_all) (simp_all add: unat_of_nat)
  with Suc.IH [of "Suc f"] Suc.prems at(1) f show ?case by (simp add: Cons_nth_drop_Suc [symmetric])
qed simp

lemma fragment_at_bytes:
  assumes "fragment_bytes frag i = Some bs"
  shows "fragment_at frag i = Some (bs, of_nat (length bs)) \<and> length bs < 65536"
proof -
  obtain ps ss p n where p: "fr_fragments frag = Live ps" "fr_sizes frag = Live ss" "mem_get ps i = Some p" "mem_get ss i = Some n"
    using assms by (auto simp: fragment_bytes_def split: heap_ptr.splits Option.bind_splits)
  then have "length bs = unat n"
    using assms by (auto simp: fragment_bytes_def split: frame_ptr.splits heap_ptr.splits dest: mem_read_length)
  moreover have "unat n < 65536" using unat_less_power_u16 [of n] by simp
  ultimately show ?thesis using assms p(2,4) by (simp add: fragment_at_def)
qed

definition send_mem_ok :: "send_alloc \<Rightarrow> bool" where
  "send_mem_ok al \<longleftrightarrow> sd_builder al \<and> sp_fragments (sd_split al) \<and> sp_sizes (sd_split al) \<and> sp_block (sd_split al) \<noteq> None"

definition tracker_room :: "ack_tracker option \<Rightarrow> bool" where
  "tracker_room tr \<longleftrightarrow> (\<forall>t. tr = Some t \<longrightarrow> ack_wf t \<and> length (pending_entries t) + 48 < 2 ^ 31)"

text \<open>What both ways to send do.\<close>

definition sends ::
    "send_alloc \<Rightarrow> u64 \<Rightarrow> socket \<Rightarrow> port_address \<Rightarrow> u8 \<Rightarrow> u64 \<Rightarrow> bytes \<Rightarrow> bool \<Rightarrow> ack_tracker option \<Rightarrow>
     void_r \<times> event list \<times> ack_tracker option \<times> nat \<Rightarrow> bool" where
  "sends al now sock addr ch pid data ack tr out \<longleftrightarrow> (case out of (res, evs, tr', sent) \<Rightarrow>
     (\<forall>t. tr' = Some t \<longrightarrow> ack_wf t) \<and> (\<not> ack \<longrightarrow> tr' = tr) \<and> (send_mem_ok al \<longrightarrow> rb_valid res) \<and>
     (if rb_valid res
      then evs = map (\<lambda>b. Ev_send (sock, addr, b)) (message_frames ch pid data ack) \<and>
        (\<forall>t. ack \<and> tr = Some t \<and> (\<forall>i. expect_alloc_ok (sd_expect al i)) \<longrightarrow>
           (\<exists>t'. tr' = Some t' \<and> pending_entries t' = pending_entries t @ track_entries now pid ch (message_frames ch pid data ack)))
      else evs = [] \<and> tr' = tr))"

lemma send_whole_spec:
  assumes len: "length data = unat len" "unat len \<le> 1382" and buf: "1500 \<le> length (sd_buf al)" and tr: "tracker_room tr"
  shows "\<exists>out. send_whole al now sock addr ch pid data len ack tr = Some out \<and> sends al now sock addr ch pid data ack tr out"
proof (cases "sd_builder al")
  case False
  then show ?thesis using tr
    by (auto simp: send_whole_def krs_frame_builder_create_def sends_def send_mem_ok_def tracker_room_def
        krs_lib_error_result_base_w_msg_def)
next
  case True
  let ?b = "\<lparr>fb_channel = ch, fb_type = BASIC_MESSAGE, fb_packet_id = pid, fb_presence_flags = ack_flags ack,
     fb_metadata = metadata_zero, fb_data = Some data, fb_data_length = len\<rparr>"
  define wire where "wire = wire_header ch BASIC_MESSAGE (ack_flags ack) pid @ data"
  have wire: "wire_frame ?b = wire" "message_frames ch pid data ack = [wire]"
    using len by (simp_all add: wire_frame_def ack_flags_length fb_payload_def wire_def message_frames_def split_frames_def)
  have lw: "length wire = 14 + unat len" using len by (simp add: wire_def)
  let ?n = "of_nat (length wire) :: u16" and ?buf = "wire @ drop (length wire) (sd_buf al)"
  have n: "unat ?n = length wire" using lw len(2) by (intro unat_of_nat_small) simp
  have ser: "krs_frame_builder_serialize (Some ?b) (Some (sd_buf al)) 1500 = Some (?n, Some ?buf)"
    using serialize_wire [of ?b 1500 "sd_buf al"] len buf lw by (simp add: wire fb_wf_def fb_payload_def ack_flags_length)
  have n0: "?n \<noteq> 0" using n lw by (metis add_is_0 unat_0 zero_neq_numeral)
  have net: "krs_net_send_frame sock (Some addr) (Some ?buf) ?n = Some [(sock, addr, wire)]"
    using lw len(2) by (intro send_frame_bytes) auto
  have run: "send_whole al now sock addr ch pid data len ack tr = do {
      tr' \<leftarrow> (if ack then krs_ack_tracker_expect (sd_expect al 0) now tr pid ch (Some ?buf) ?n else Some tr);
      Some (krs_lib_error_result_base_suc, [Ev_send (sock, addr, wire)], tr', 1) }"
    unfolding send_whole_def using True ser [unfolded ack_flags_def] n0 net
    by (cases ack) (simp_all add: krs_frame_builder_create_def Let_def krs_frame_builder_set_flag_def
        krs_frame_builder_set_packet_id_def krs_frame_builder_set_data_def)
  show ?thesis
  proof (cases "ack \<and> tr \<noteq> None")
    case False
    then have "(if ack then krs_ack_tracker_expect (sd_expect al 0) now tr pid ch (Some ?buf) ?n else Some tr) = Some tr"
      by (auto simp: krs_ack_tracker_expect_def)
    with run False tr show ?thesis by (auto simp: sends_def wire(2) tracker_room_def krs_lib_error_result_base_suc_def)
  next
    case ack: True
    then obtain t where t: "tr = Some t" "ack_wf t" "length (pending_entries t) + 48 < 2 ^ 31"
      using tr by (auto simp: tracker_room_def)
    have w2: "message_frames ch pid data True = [wire]" using wire(2) ack by simp
    have src: "\<forall>d. Some ?buf = Some d \<longrightarrow> unat ?n \<le> length d" using n by simp
    have e: "new_entry now pid ch (Some ?buf) ?n = new_entry now pid ch (Some wire) ?n" using n by (simp add: new_entry_def)
    have room: "length (pending_entries t) < 2 ^ 31" using t(3) by simp
    show ?thesis
    proof (rule expect_cases [OF ack_wfD(1) [OF t(2)] room src, of "sd_expect al 0" now pid ch])
      fix a assume a: "krs_ack_tracker_expect (sd_expect al 0) now (Some t) pid ch (Some ?buf) ?n = Some (Some (t\<lparr>at_pending := a\<rparr>))"
        "arr_vals a = pending_entries t @ [new_entry now pid ch (Some ?buf) ?n]"
      from run a ack t e expect_wf [OF t(2) room src a(1)] show ?thesis
        by (auto simp: sends_def w2 track_entries_def krs_lib_error_result_base_suc_def)
    next
      assume a: "krs_ack_tracker_expect (sd_expect al 0) now (Some t) pid ch (Some ?buf) ?n = Some (Some t)" "\<not> expect_alloc_ok (sd_expect al 0)"
      from run a ack t show ?thesis by (auto simp: sends_def w2 krs_lib_error_result_base_suc_def)
    qed
  qed
qed

lemma send_split_spec:
  assumes len: "length data = unat len" and tr: "tracker_room tr"
  shows "\<exists>out. send_split al now sock addr ch pid data len ack tr = Some out \<and> sends al now sock addr ch pid data ack tr out"
proof (cases "sp_fragments (sd_split al) \<and> sp_sizes (sd_split al) \<and> sp_block (sd_split al) \<noteq> None")
  case False
  from split_unavailable [OF this, of 1400 ch BASIC_MESSAGE pid "Some data" "ucast len" "ack_flags ack"]
  obtain r where r: "krs_fragment_split (sd_split al) ch BASIC_MESSAGE pid (Some data) (ucast len) 1400 (ack_flags ack) = Some r"
      "rb_error_code (fr_base r) \<noteq> KRS_SUCCESS" by auto
  have "\<not> rb_valid (fr_base r)" using r by (auto elim!: split_shape simp: fragment_result_err_def krs_lib_error_result_base_w_msg_def
        krs_lib_error_result_base_suc_def)
  with r False tr show ?thesis
    by (auto simp: send_split_def ack_flags_def [symmetric] sends_def send_mem_ok_def tracker_room_def)
next
  case True
  then obtain junk where al: "sp_fragments (sd_split al)" "sp_sizes (sd_split al)" "sp_block (sd_split al) = Some junk" by blast
  have u: "unat (ucast len :: u32) = unat len" by (rule unat_ucast_widen) simp
  have bounds: "unat len < 65536" using unat_less_power_u16 [of len] by simp
  have cnt: "fragment_count (unat len) 1382 \<le> 48" using bounds by (simp add: fragment_count_def)
  let ?fr = "message_frames ch pid data ack"
  obtain r where r: "krs_fragment_split (sd_split al) ch BASIC_MESSAGE pid (Some data) (ucast len) 1400 (ack_flags ack) = Some r"
      "rb_valid (fr_base r)" "unat (fr_count r) = length ?fr" "\<And>i. i < length ?fr \<Longrightarrow> fragment_bytes r i = Some (?fr ! i)"
    using split_result [of 1400 data "ucast len" "sd_split al" junk ch BASIC_MESSAGE pid "ack_flags ack"] al len u cnt bounds
    by (auto simp: message_frames_def)
  have ne: "?fr ! i \<noteq> []" if "i < length ?fr" for i
  proof -
    have "14 \<le> length (?fr ! i)"
      using that by (cases "length data \<le> 1386") (simp_all add: message_frames_def split_frames_def length_fragment_wire)
    then show ?thesis by auto
  qed
  have at: "frames_at r ?fr" using fragment_at_bytes r(4) ne by (auto simp: frames_at_def)
  have short: "length ?fr \<le> 48" using cnt len by (simp add: message_frames_def split_frames_def)
  have code: "rb_error_code (fr_base r) = KRS_SUCCESS"
    using r(1,2) by (auto elim!: split_shape simp: fragment_result_err_def krs_lib_error_result_base_w_msg_def krs_lib_error_result_base_suc_def)
  obtain z where z: "krs_fragment_result_destroy (Some r) = Some z" using split_destroy [OF r(1,2)] by blast
  have run: "send_split al now sock addr ch pid data len ack tr = do {
      tr' \<leftarrow> (if ack \<and> tr \<noteq> None then expect_fragments (sd_expect al) now pid ch r 0 (length ?fr) tr else Some tr);
      Some (krs_lib_error_result_base_suc, map (\<lambda>b. Ev_send (sock, addr, b)) ?fr, tr', length ?fr) }"
    using r(1,3) code z send_fragments_spec [OF at, of 0 "length ?fr" sock addr]
    by (auto simp: send_split_def ack_flags_def [symmetric])
  show ?thesis
  proof (cases "ack \<and> tr \<noteq> None")
    case False
    with run tr show ?thesis by (auto simp: sends_def tracker_room_def krs_lib_error_result_base_suc_def)
  next
    case ack: True
    then obtain t where t: "tr = Some t" "ack_wf t" "length (pending_entries t) + 48 < 2 ^ 31"
      using tr by (auto simp: tracker_room_def)
    have "length (pending_entries t) + length ?fr < 2 ^ 31" using t(3) short by simp
    from expect_fragments_spec [OF at _ t(2) this, of 0 "sd_expect al" now pid ch] obtain t' where
      t': "expect_fragments (sd_expect al) now pid ch r 0 (length ?fr) (Some t) = Some (Some t')" "ack_wf t'"
        "(\<forall>i. expect_alloc_ok (sd_expect al i)) \<longrightarrow> pending_entries t' = pending_entries t @ track_entries now pid ch ?fr" by auto
    let ?out = "(krs_lib_error_result_base_suc, map (\<lambda>b. Ev_send (sock, addr, b)) ?fr, Some t', length ?fr)"
    have "send_split al now sock addr ch pid data len ack tr = Some ?out" using run ack t(1) t'(1) by simp
    moreover have "sends al now sock addr ch pid data ack tr ?out"
      using ack t(1) t'(2,3) by (simp add: sends_def krs_lib_error_result_base_suc_def)
    ultimately show ?thesis by blast
  qed
qed

section \<open>The send as a whole\<close>

lemma acquire_live:
  assumes inv: "sv_inv w" and map: "sv_map w = Some m" and id: "ids_of m cid = Some (Some d, Some r)" and c: "w_conns w r = Some c"
  shows "krs_connection_map_acquire (w_conns w) (Some m) cid =
    Some (Some (Some d, r), (w_conns w)(r \<mapsto> c\<lparr>cn_refcount := 2\<rparr>))"
proof -
  have "cm_ok m" using inv map by (auto simp: sv_inv_def)
  from cm_get_spec [OF this, of cid] id obtain e where
    e: "krs_connection_map_get (Some m) cid = Some (Some e)" "sl_val e = (Some d, Some r)" by auto
  have "cn_refcount c = 1" using inv c by (auto simp: sv_inv_def conn_ok_def)
  with e c show ?thesis by (simp add: krs_connection_map_acquire_def)
qed

lemma send_done_spec:
  assumes "w_conns w r = Some c" and "cn_refcount c = 2"
  shows "send_done r res evs w = Some (res, evs, w\<lparr>w_conns := (w_conns w)(r \<mapsto> c\<lparr>cn_refcount := 1\<rparr>)\<rparr>)"
  using assms by (simp add: send_done_def krs_connection_map_release_def)

text \<open>The world after a send: the counter of the channel, the connection and the statistics may have changed.\<close>

lemma sv_inv_send:
  assumes inv: "sv_inv w" and d: "w_descs w d = Some desc" and desc': "desc_ok desc'" "refs0 desc' = refs0 desc"
    and c: "w_conns w r = Some c" and c': "same_conn c c'" "tracker_ok c'" "cc_ok c'"
    and spm: "w_spm w = Some spm" "spm_connection_map spm' = spm_connection_map spm"
  shows "sv_inv ((set_spm spm' (set_desc d desc' w))\<lparr>w_conns := (w_conns w)(r \<mapsto> c')\<rparr>)"
proof -
  let ?w = "set_spm spm' (set_desc d desc' w)"
  have "sv_inv (set_desc d desc' w)" by (rule sv_inv_desc [OF inv d desc'])
  then have inv1: "sv_inv ?w" using spm by (intro sv_inv_spm [where spm = spm]) simp_all
  have "conn_update ?w ((w_conns w)(r \<mapsto> c'))"
    unfolding conn_update_def
  proof (intro conjI allI impI)
    show "dom ((w_conns w)(r \<mapsto> c')) = dom (w_conns ?w)" using c by auto
    fix q x x' assume x: "w_conns ?w q = Some x" "((w_conns w)(r \<mapsto> c')) q = Some x'"
    then have "conn_ok w x" using inv by (simp add: sv_inv_def)
    with x c c' show "cn_connection_id x' = cn_connection_id x" "cn_remote_address x' = cn_remote_address x"
        "cn_refcount x' = cn_refcount x" "tracker_ok x'" "cc_ok x'"
      by (auto simp: conn_ok_def same_conn_def split: if_splits)
  qed
  from sv_inv_conns [OF inv1 this] show ?thesis .
qed

lemma send_any_spec:
  assumes "length data = unat len" and "1500 \<le> length (sd_buf al)" and "tracker_room tr"
  shows "\<exists>out. (if unat len \<le> 1382 then send_whole al now sock addr ch pid data len ack tr
      else send_split al now sock addr ch pid data len ack tr) = Some out \<and> sends al now sock addr ch pid data ack tr out"
  using send_whole_spec [OF assms(1) _ assms(2,3)] send_split_spec [OF assms(1,3)] by simp

lemma same_conn_refcount:
  "same_conn (c\<lparr>cn_refcount := n\<rparr>) c' \<Longrightarrow> same_conn c (c'\<lparr>cn_refcount := cn_refcount c\<rparr>)"
  by (simp add: same_conn_def)

lemma send_setup:
  assumes "conn_ok w c" and "can_track c"
  shows "\<exists>can c'. (if ack then reliable_setup al (c\<lparr>cn_refcount := 2\<rparr>) else Some (True, c\<lparr>cn_refcount := 2\<rparr>)) = Some (can, c') \<and>
    same_conn (c\<lparr>cn_refcount := 2\<rparr>) c' \<and> tracker_ok c' \<and> cc_ok c' \<and> tracker_room (cn_ack_tracker c') \<and> can_track c' \<and>
    (\<forall>t. cn_ack_tracker c = Some t \<longrightarrow> cn_ack_tracker c' = Some t) \<and> (\<not> ack \<longrightarrow> can)"
proof -
  let ?c = "c\<lparr>cn_refcount := 2\<rparr>"
  have ok: "tracker_ok ?c" "cc_ok ?c" "can_track ?c"
    using assms by (auto simp: conn_ok_def tracker_ok_def cc_ok_def can_track_def)
  show ?thesis
  proof (cases ack)
    case False
    with ok show ?thesis by (auto simp: same_conn_def tracker_room_def can_track_def tracker_ok_def)
  next
    case True
    from reliable_setup_spec [OF ok, of al] obtain can c' where
      "reliable_setup al ?c = Some (can, c')" "same_conn ?c c'" "tracker_ok c'" "cc_ok c'"
      "can_track c'" "\<forall>t. cn_ack_tracker ?c = Some t \<longrightarrow> cn_ack_tracker c' = Some t" by blast
    with True show ?thesis by (auto simp: tracker_room_def tracker_ok_def can_track_def)
  qed
qed

definition issued_id :: "bool \<Rightarrow> u8 \<Rightarrow> udp_socket_descriptor \<Rightarrow> u64" where
  "issued_id alloc ch desc = (case ch_packet_counter (ds_channel_states desc ! unat ch) of
     None \<Rightarrow> if alloc then 1 else 0 | Some pc \<Rightarrow> pc_counters pc ! unat ch + 1)"

lemma server_send_result:
  assumes "sv_inv w" and "sv_map w = Some m" and "ids_of m cid = Some (Some d, Some r)" and "w_conns w r = Some c"
    and "w_descs w d = Some desc" and "can_track c" and "length data = unat len" and "1500 \<le> length (sd_buf al)"
  shows "\<exists>res evs w' c'. let pid = issued_id (sd_counter al) ch desc; frames = message_frames ch pid data ack in
    krs_server_send al now cid ch (Some data) len ack w = Some (res, evs, w') \<and> sv_inv w' \<and>
    w_conns w' = (w_conns w)(r \<mapsto> c') \<and> same_conn c c' \<and> (\<not> ack \<and> send_mem_ok al \<longrightarrow> rb_valid res) \<and> (\<not> rb_valid res \<longrightarrow> can_track c') \<and>
    evs = (if rb_valid res then map (\<lambda>b. Ev_send (ds_udp_socket_ref desc, cn_remote_address c, b)) frames else []) \<and>
    (\<forall>t. rb_valid res \<and> ack \<and> cn_ack_tracker c = Some t \<and> (\<forall>i. expect_alloc_ok (sd_expect al i)) \<longrightarrow>
       (\<exists>t'. cn_ack_tracker c' = Some t' \<and> pending_entries t' = pending_entries t @ track_entries now pid ch frames))"
proof -
  obtain spm where spm: "w_spm w = Some spm" "spm_connection_map spm = Some m"
    using assms(2) by (auto simp: sv_map_def split: Option.bind_splits)
  have cok: "conn_ok w c" using assms(1,4) by (auto simp: sv_inv_def)
  have dok: "desc_ok desc" using assms(1,5) by (auto simp: sv_inv_def dest: desc_conns_okD(1))
  obtain st where st: "get_channel desc ch = Some st" "st \<in> set (ds_channel_states desc)" "st = ds_channel_states desc ! unat ch"
    using dok by (rule get_channel_Some)
  have "chan_ok st" using dok st(2) by (simp add: desc_ok_def)
  from next_packet_id_spec [OF this, of "sd_counter al" ch] obtain pc where
    pc: "next_packet_id (sd_counter al) ch st = Some (issued_id (sd_counter al) ch desc, st\<lparr>ch_packet_counter := pc\<rparr>)"
      "chan_ok (st\<lparr>ch_packet_counter := pc\<rparr>)" "chan_refs (st\<lparr>ch_packet_counter := pc\<rparr>) = chan_refs st"
    by (auto simp: issued_id_def st(3))
  obtain desc' where desc': "set_channel ch (st\<lparr>ch_packet_counter := pc\<rparr>) desc = Some desc'" using set_channel_Some [OF dok] by blast
  note d' = desc_ok_counter [OF dok st(1) desc' pc(2,3)]
  have sock: "ds_udp_socket_ref desc' = ds_udp_socket_ref desc" using d'(3) by auto
  obtain can c1 where c1: "(if ack then reliable_setup al (c\<lparr>cn_refcount := 2\<rparr>) else Some (True, c\<lparr>cn_refcount := 2\<rparr>)) = Some (can, c1)"
      "same_conn (c\<lparr>cn_refcount := 2\<rparr>) c1" "tracker_ok c1" "cc_ok c1" "tracker_room (cn_ack_tracker c1)" "can_track c1"
      "\<forall>t. cn_ack_tracker c = Some t \<longrightarrow> cn_ack_tracker c1 = Some t" "\<not> ack \<longrightarrow> can"
    using send_setup [OF cok assms(6), of ack al] by blast
  have ref: "cn_refcount c = 1" "cn_refcount c1 = 2" "cn_remote_address c1 = cn_remote_address c"
    using cok c1(2) by (simp_all add: conn_ok_def same_conn_def)
  note acq = acquire_live [OF assms(1-4)]
  let ?pid = "issued_id (sd_counter al) ch desc" and ?sock = "ds_udp_socket_ref desc" and ?addr = "cn_remote_address c"
  let ?W = "\<lambda>spm' tr. (set_spm spm' (set_desc d desc' w))\<lparr>w_conns := (w_conns w)(r \<mapsto> c1\<lparr>cn_ack_tracker := tr, cn_refcount := 1\<rparr>)\<rparr>"
  have fin: "sv_inv (?W spm' tr)" "same_conn c (c1\<lparr>cn_ack_tracker := tr, cn_refcount := 1\<rparr>)"
    if "\<forall>t. tr = Some t \<longrightarrow> ack_wf t" "spm_connection_map spm' = spm_connection_map spm" for spm' tr
  proof -
    show same: "same_conn c (c1\<lparr>cn_ack_tracker := tr, cn_refcount := 1\<rparr>)" using c1(2) ref(1) by (simp add: same_conn_def)
    show "sv_inv (?W spm' tr)"
      using that c1(4) by (intro sv_inv_send [OF assms(1,5) d'(1,2) assms(4) same _ _ spm(1)])
        (simp_all add: tracker_ok_def cc_ok_def split: option.splits)
  qed
  define w1 where "w1 = set_conn r c1 (set_desc d desc' (w\<lparr>w_conns := (w_conns w)(r \<mapsto> c\<lparr>cn_refcount := 2\<rparr>)\<rparr>))"
  let ?full = "krs_lib_error_result_base_w_msg KRS_ERR_SERVER_CONGESTION_WINDOW_FULL ''congestion window full''"
  let ?send = "if unat len \<le> 1382 then send_whole al now ?sock ?addr ch ?pid data len ack (cn_ack_tracker c1)
        else send_split al now ?sock ?addr ch ?pid data len ack (cn_ack_tracker c1)"
  have run: "krs_server_send al now cid ch (Some data) len ack w =
      (if \<not> can then send_done r ?full [] w1
       else do {
         (res, evs, tr, sent) \<leftarrow> ?send;
         send_done r res evs (set_spm (spm\<lparr>stat_messages_sent := stat_messages_sent spm + of_nat sent\<rparr>)
           (set_conn r (c1\<lparr>cn_ack_tracker := tr\<rparr>) w1)) })"
    unfolding krs_server_send_def w1_def using spm acq assms(5) st(1) pc(1) desc' c1(1) sock ref(3) by (simp add: Let_def)
  show ?thesis
  proof (cases can)
    case False
    have "krs_server_send al now cid ch (Some data) len ack w = Some (?full, [], ?W spm (cn_ack_tracker c1))"
      using run False send_done_spec [of w1 r c1] ref(2) spm(1)
      by (simp add: w1_def)
    with fin [of "cn_ack_tracker c1" spm] c1(3,6,8) False show ?thesis
      by (auto simp: can_track_def Let_def krs_lib_error_result_base_w_msg_def tracker_ok_def split: option.splits)
  next
    case True
    from send_any_spec [OF assms(7,8) c1(5), of now ?sock ?addr ch ?pid ack] obtain res evs tr sent where
      out: "?send = Some (res, evs, tr, sent)" "sends al now ?sock ?addr ch ?pid data ack (cn_ack_tracker c1) (res, evs, tr, sent)"
      by auto
    let ?spm = "spm\<lparr>stat_messages_sent := stat_messages_sent spm + of_nat sent\<rparr>"
    have "krs_server_send al now cid ch (Some data) len ack w = Some (res, evs, ?W ?spm tr)"
      using run True out(1) send_done_spec [of "set_spm ?spm (set_conn r (c1\<lparr>cn_ack_tracker := tr\<rparr>) w1)" r "c1\<lparr>cn_ack_tracker := tr\<rparr>"] ref(2)
      by (simp add: w1_def)
    moreover have wf: "\<forall>t. tr = Some t \<longrightarrow> ack_wf t" using out(2) by (simp add: sends_def)
    ultimately show ?thesis
      using fin [OF wf, of ?spm] c1(6,7) out(2) unfolding sends_def prod.case Let_def
      by (intro exI [of _ res] exI [of _ evs] exI [of _ "?W ?spm tr"] exI [of _ "c1\<lparr>cn_ack_tracker := tr, cn_refcount := 1\<rparr>"])
        (auto simp: can_track_def split: if_splits)
  qed
qed

text \<open>
  C9. Sending to a connection. Whatever the allocations do and whether the window has room, the call
  returns with the invariant of the server intact and with the reference count of the connection as it
  was. An error means that nothing was sent. Success means that the frames of the message, and nothing
  else, went to the address of the connection under the next packet identifier of the channel; and when
  the send is reliable and the tracker could store them, the tracker of the connection then waits for
  exactly these frames. An unreliable send succeeds whenever memory is available.
\<close>

theorem krs_server_send_spec:
  assumes "sv_inv w" and "sv_map w = Some m" and "ids_of m cid = Some (Some d, Some r)" and "w_conns w r = Some c"
    and "w_descs w d = Some desc" and "can_track c" and "length data = unat len" and "1500 \<le> length (sd_buf al)"
  shows "\<exists>res evs w' c'. let pid = issued_id (sd_counter al) ch desc; frames = message_frames ch pid data ack in
    krs_server_send al now cid ch (Some data) len ack w = Some (res, evs, w') \<and> sv_inv w' \<and>
    w_conns w' = (w_conns w)(r \<mapsto> c') \<and> same_conn c c' \<and> (\<not> ack \<and> send_mem_ok al \<longrightarrow> rb_valid res) \<and>
    evs = (if rb_valid res then map (\<lambda>b. Ev_send (ds_udp_socket_ref desc, cn_remote_address c, b)) frames else []) \<and>
    (\<forall>t. rb_valid res \<and> ack \<and> cn_ack_tracker c = Some t \<and> (\<forall>i. expect_alloc_ok (sd_expect al i)) \<longrightarrow>
       (\<exists>t'. cn_ack_tracker c' = Some t' \<and> pending_entries t' = pending_entries t @ track_entries now pid ch frames))"
  using server_send_result [OF assms, where ch = ch and ack = ack and now = now] unfolding Let_def
  by - (elim exE conjE, intro exI conjI; assumption)

definition sample_send :: send_alloc where
  "sample_send = \<lparr>sd_counter = True, sd_tracker = True, sd_tracker_array = True, sd_tracker_cells = Some (\<lambda>_. None),
     sd_congestion = True, sd_builder = True, sd_buf = replicate 1500 0,
     sd_split = \<lparr>sp_fragments = True, sp_sizes = True, sp_block = Some (\<lambda>_. 0)\<rparr>,
     sd_expect = (\<lambda>_. \<lparr>ea_entry = True, ea_data = Some (\<lambda>_. 0), ea_push = Some (\<lambda>_. None)\<rparr>)\<rparr>"

lemma sample_send_ok: "1500 \<le> length (sd_buf sample_send)" "send_mem_ok sample_send"
  by (simp_all add: sample_send_def send_mem_ok_def)

theorem krs_server_send_spec_witness:
  "\<exists>w res w' pid. krs_server_send sample_send 1000 1 12 (Some [1, 2, 3]) 3 False w =
     Some (res, [Ev_send (77, krs_network_port_address_create 5000 zero_address, wire_header 12 BASIC_MESSAGE 0 pid @ [1, 2, 3])], w') \<and>
     rb_valid res \<and> sv_inv w'"
proof -
  let ?addr = "krs_network_port_address_create 5000 zero_address" and ?d = "\<lambda>sts. sample_descriptor\<lparr>ds_channel_states := sts\<rparr>"
  obtain w sts m where w: "sv_inv w" "sv_map w = Some m" "ids_of m 1 = Some (Some 3, Some 9)"
      "w_conns w 9 = Some (new_connection 1 ?addr 1000)" "w_descs w 3 = Some (?d sts)" by (rule sample_connected)
  have hyps: "can_track (new_connection 1 ?addr 1000)" "length [1, 2, 3 :: u8] = unat (3 :: u16)"
    by (simp_all add: can_track_def new_connection_def)
  have "message_frames 12 pid [1, 2, 3] False = [wire_header 12 BASIC_MESSAGE 0 pid @ [1, 2, 3]]" for pid
    by (simp add: message_frames_def split_frames_def ack_flags_def)
  moreover have "ds_udp_socket_ref (?d sts) = 77" "cn_remote_address (new_connection 1 ?addr 1000) = ?addr"
    by (simp_all add: sample_descriptor_def new_connection_def)
  ultimately show ?thesis
    using krs_server_send_spec [OF w hyps sample_send_ok(1), where ack = False and now = 1000 and ch = 12] sample_send_ok(2)
    unfolding Let_def by (fastforce split: if_splits)
qed

section \<open>Broadcasts: proofs\<close>

definition bump :: "conn_ref set \<Rightarrow> conn_store \<Rightarrow> conn_store" where
  "bump A cs r = (case cs r of None \<Rightarrow> None | Some c \<Rightarrow> Some (if r \<in> A then c\<lparr>cn_refcount := cn_refcount c + 1\<rparr> else c))"

lemma bump_simps [simp]:
  "bump {} cs = cs"
  "cs r = Some c \<Longrightarrow> r \<notin> A \<Longrightarrow> (bump A cs)(r \<mapsto> c\<lparr>cn_refcount := cn_refcount c + 1\<rparr>) = bump (insert r A) cs"
  by (auto simp: bump_def fun_eq_iff split: option.splits)

definition cid_of :: "conn_store \<Rightarrow> conn_ref \<Rightarrow> u32" where
  "cid_of cs r = cn_connection_id (the (cs r))"

lemma snapshot_from:
  fixes ex :: u32
  assumes a: "arr_ok a" "distinct (arr_vals a)" and alive: "\<forall>r \<in> set (arr_vals a). cs r \<noteq> None"
    and "i + n = length (arr_vals a)" and "set snap \<subseteq> set (take i (arr_vals a))" and "length snap \<le> 256"
  defines "S \<equiv> \<lambda>i snap. snap @ take (256 - length snap) (filter (\<lambda>r. cid_of cs r \<noteq> ex) (drop i (arr_vals a)))"
  shows "snapshot_loop a ex i n (bump (set snap) cs) snap = Some (bump (set (S i snap)) cs, S i snap)"
  using assms(4-6)
proof (induction n arbitrary: i snap)
  case 0
  then show ?case by (simp add: S_def)
next
  case (Suc n)
  let ?r = "arr_vals a ! i"
  have i: "i < length (arr_vals a)" using Suc.prems(1) by simp
  show ?case
  proof (cases "length snap = 256")
    case True
    then show ?thesis by (simp add: S_def)
  next
    case False
    then have room: "256 - length snap = Suc (256 - Suc (length snap))" using Suc.prems(3) by simp
    obtain c where c: "cs ?r = Some c" using alive i nth_mem by blast
    have "distinct (take i (arr_vals a) @ ?r # drop (Suc i) (arr_vals a))" using a(2) id_take_nth_drop [OF i] by simp
    then have nin: "?r \<notin> set snap" using Suc.prems(2) by auto
    have read: "bump (set snap) cs ?r = Some c" using c nin by (simp add: bump_def)
    have drop: "drop i (arr_vals a) = ?r # drop (Suc i) (arr_vals a)" using i by (simp add: Cons_nth_drop_Suc)
    have sub: "set snap \<subseteq> set (take (Suc i) (arr_vals a))" "?r \<in> set (take (Suc i) (arr_vals a))"
      using Suc.prems(2) i by (auto simp: take_Suc_conv_app_nth)
    have step: "Suc i + n = length (arr_vals a)" using Suc.prems(1) by simp
    show ?thesis
    proof (cases "cn_connection_id c = ex")
      case True
      then have "S i snap = S (Suc i) snap" using c by (simp add: S_def drop cid_of_def)
      with Suc.IH [OF step sub(1) Suc.prems(3)] True False Suc.prems(3) kra.at_nth [OF a(1) i] read show ?thesis by simp
    next
      case other: False
      have "S i snap = S (Suc i) (snap @ [?r])" using c other room by (simp add: S_def drop cid_of_def)
      moreover have "set (snap @ [?r]) \<subseteq> set (take (Suc i) (arr_vals a))" "length (snap @ [?r]) \<le> 256"
        using sub False Suc.prems(3) by auto
      moreover have "(bump (set snap) cs)(?r \<mapsto> c\<lparr>cn_refcount := cn_refcount c + 1\<rparr>) = bump (set (snap @ [?r])) cs"
        using c nin by simp
      ultimately show ?thesis
        using Suc.IH [OF step, of "snap @ [?r]"] other False Suc.prems(3) kra.at_nth [OF a(1) i] read by simp
    qed
  qed
qed

lemma snapshot_spec:
  assumes "arr_ok a" "distinct (arr_vals a)" "\<forall>r \<in> set (arr_vals a). cs r \<noteq> None"
  defines "S \<equiv> \<lambda>ex. take 256 (filter (\<lambda>r. cid_of cs r \<noteq> ex) (arr_vals a))"
  shows "snapshot_loop a ex 0 (arr_rounds a) cs [] = Some (bump (set (S ex)) cs, S ex)"
  using snapshot_from [OF assms(1-3), of 0 "arr_rounds a" "[]" ex] by (simp add: S_def arr_rounds_vals [OF assms(1)])

text \<open>The identifiers the channel hands out.\<close>

definition issued_ids :: "bool \<Rightarrow> u8 \<Rightarrow> udp_socket_descriptor \<Rightarrow> nat \<Rightarrow> u64 list" where
  "issued_ids alloc ch desc n = (case (if ch_packet_counter (ds_channel_states desc ! unat ch) = None
      then krs_packet_counter_create alloc else ch_packet_counter (ds_channel_states desc ! unat ch)) of
     None \<Rightarrow> replicate n 0
   | Some pc \<Rightarrow> map (\<lambda>k. pc_counters pc ! unat ch + of_nat (Suc k)) [0..<n])"

lemma take_ids_Some:
  "length (pc_counters pc) = 256 \<Longrightarrow> \<exists>pc'. take_packet_ids (Some pc) ch n =
     Some (map (\<lambda>k. pc_counters pc ! unat ch + of_nat (Suc k)) [0..<n], Some pc') \<and> length (pc_counters pc') = 256"
proof (induction n arbitrary: pc)
  case (Suc n)
  let ?l = "pc_counters pc" and ?i = "unat ch"
  let ?pc = "pc\<lparr>pc_counters := ?l[?i := ?l ! ?i + 1]\<rparr>"
  have i: "?i < length ?l" using Suc.prems channel_index [of ch] by simp
  have "krs_packet_counter_next (Some pc) ch = Some (?l ! ?i + 1, Some ?pc)"
    using i by (simp add: krs_packet_counter_next_def mem_get_def mem_set_def)
  moreover obtain pc' where "take_packet_ids (Some ?pc) ch n =
      Some (map (\<lambda>k. pc_counters ?pc ! ?i + of_nat (Suc k)) [0..<n], Some pc')" "length (pc_counters pc') = 256"
    using Suc.IH [of ?pc] Suc.prems by auto
  moreover have "map (\<lambda>k. ?l ! ?i + of_nat (Suc k)) [0..<Suc n] = (?l ! ?i + 1) # map (\<lambda>k. ?l ! ?i + 1 + of_nat (Suc k)) [0..<n]"
    by (simp only: map_upt_Suc) simp
  ultimately show ?case using i by simp
qed simp

lemma take_ids_None: "take_packet_ids None ch n = Some (replicate n 0, None)"
  by (induction n) (simp_all add: krs_packet_counter_next_def)

lemma take_ids_spec:
  assumes "chan_ok st" and "st = ds_channel_states desc ! unat ch"
  shows "\<exists>pc. take_packet_ids (if ch_packet_counter st = None then krs_packet_counter_create alloc else ch_packet_counter st) ch n =
      Some (issued_ids alloc ch desc n, pc) \<and> chan_ok (st\<lparr>ch_packet_counter := pc\<rparr>) \<and>
      chan_refs (st\<lparr>ch_packet_counter := pc\<rparr>) = chan_refs st"
proof -
  let ?pc = "if ch_packet_counter st = None then krs_packet_counter_create alloc else ch_packet_counter st"
  have len: "length (pc_counters p) = 256" if "?pc = Some p" for p
    using that assms(1) by (auto simp: chan_ok_def krs_packet_counter_create_def split: if_splits)
  show ?thesis
  proof (cases ?pc)
    case None
    have "issued_ids alloc ch desc n = replicate n 0" unfolding issued_ids_def assms(2) [symmetric] None by simp
    with take_ids_None [of ch n] assms(1) show ?thesis unfolding None by (auto simp: chan_ok_def chan_refs_def)
  next
    case (Some p)
    have "issued_ids alloc ch desc n = map (\<lambda>k. pc_counters p ! unat ch + of_nat (Suc k)) [0..<n]"
      unfolding issued_ids_def assms(2) [symmetric] Some by simp
    with take_ids_Some [OF len [OF Some], of ch n] assms(1) show ?thesis unfolding Some by (auto simp: chan_ok_def chan_refs_def)
  qed
qed

lemma send_to_connection_spec:
  assumes "length data = unat len" and "1500 \<le> length (sd_buf al)" and "send_mem_ok al"
  shows "s_send_to_connection al sock conn ch pid data len =
    Some (map (\<lambda>b. Ev_send (sock, cn_remote_address conn, b)) (message_frames ch pid data False))"
proof (cases "unat len \<le> 1382")
  case True
  have "s_send_to_connection al sock conn ch pid data len =
      map_option (\<lambda>out. fst (snd out)) (send_whole al 0 sock (cn_remote_address conn) ch pid data len False None)"
    using True by (simp add: s_send_to_connection_def send_whole_def Let_def split: option.splits Option.bind_splits)
  moreover obtain out where "send_whole al 0 sock (cn_remote_address conn) ch pid data len False None = Some out"
      "sends al 0 sock (cn_remote_address conn) ch pid data False None out"
    using send_whole_spec [OF assms(1) True assms(2), of None 0 sock "cn_remote_address conn" ch pid False] by (auto simp: tracker_room_def)
  ultimately show ?thesis using assms(3) by (auto simp: sends_def)
next
  case False
  have "s_send_to_connection al sock conn ch pid data len =
      map_option (\<lambda>out. fst (snd out)) (send_split al 0 sock (cn_remote_address conn) ch pid data len False None)"
    using False by (simp add: s_send_to_connection_def send_split_def Let_def split: Option.bind_splits)
  moreover obtain out where "send_split al 0 sock (cn_remote_address conn) ch pid data len False None = Some out"
      "sends al 0 sock (cn_remote_address conn) ch pid data False None out"
    using send_split_spec [OF assms(1), of None al 0 sock "cn_remote_address conn" ch pid False] by (auto simp: tracker_room_def)
  ultimately show ?thesis using assms(3) by (auto simp: sends_def)
qed

text \<open>Releasing every reference of the snapshot restores the counts.\<close>

lemma release_bumped:
  assumes "distinct rs" and "\<forall>r \<in> set rs. \<exists>c. cs r = Some c \<and> cn_refcount c = 1"
  shows "release_all rs (bump (set rs) cs) = Some cs"
  using assms
proof (induction rs)
  case (Cons r rs)
  obtain c where c: "cs r = Some c" "cn_refcount c = 1" using Cons.prems(2) by auto
  have "bump (set (r # rs)) cs r = Some (c\<lparr>cn_refcount := 2\<rparr>)" using c by (simp add: bump_def)
  moreover have "(bump (set (r # rs)) cs)(r \<mapsto> c) = bump (set rs) cs"
    using c Cons.prems(1) by (auto simp: bump_def fun_eq_iff split: option.splits)
  moreover have "c\<lparr>cn_refcount := 1\<rparr> = c" using c(2) by simp
  ultimately show ?case using Cons by (simp add: krs_connection_map_release_def)
qed simp

definition broadcast_events ::
    "socket \<Rightarrow> conn_store \<Rightarrow> u8 \<Rightarrow> bytes \<Rightarrow> (conn_ref \<times> u64) list \<Rightarrow> event list" where
  "broadcast_events sock cs ch data ts = concat (map (\<lambda>(r, pid).
     map (\<lambda>b. Ev_send (sock, cn_remote_address (the (cs r)), b)) (message_frames ch pid data False)) ts)"

lemma send_each_spec:
  assumes "length data = unat len" and "\<forall>i. 1500 \<le> length (sd_buf (als i)) \<and> send_mem_ok (als i)" and "\<forall>r \<in> fst ` set ts. cs r \<noteq> None"
  shows "send_each als sock (bump A cs) ch data len i ts = Some (broadcast_events sock cs ch data ts)"
  using assms(3)
proof (induction ts arbitrary: i)
  case (Cons t ts)
  obtain r pid where t: "t = (r, pid)" by (cases t)
  obtain c where c: "cs r = Some c" using Cons.prems t by auto
  then obtain c' where c': "bump A cs r = Some c'" "cn_remote_address c' = cn_remote_address c" by (auto simp: bump_def)
  have "send_each als sock (bump A cs) ch data len (Suc i) ts = Some (broadcast_events sock cs ch data ts)" using Cons by auto
  with t c c' send_to_connection_spec [OF assms(1), of "als i" sock c' ch pid] assms(2) show ?case
    by (simp add: broadcast_events_def)
qed (simp add: broadcast_events_def)



end
