(* ===== verification/Kronos_Server_Retransmit.thy ===== *)
theory Kronos_Server_Retransmit
  imports Kronos_Server_Send
begin

text \<open>
  The retransmission thread: \<open>retransmit_thread.c\<close>. Every tick it resends what has timed out, reports
  what it gave up, and evicts the connections that have been silent for too long.
\<close>

section \<open>Resending\<close>

abbreviation (input) KRS_HEARTBEAT_TIMEOUT_MS :: u64 where "KRS_HEARTBEAT_TIMEOUT_MS \<equiv> 30000"
abbreviation (input) MAX_PENDING_RETRANSMITS :: nat where "MAX_PENDING_RETRANSMITS \<equiv> 64"
abbreviation (input) MAX_PENDING_FAILURES :: nat where "MAX_PENDING_FAILURES \<equiv> 32"

record pending_retransmit =
  pr_data :: bytes
  pr_size :: u16
  pr_addr :: port_address
  pr_socket :: socket

record pending_delivery_failure =
  pf_connection_id :: u32
  pf_channel :: u8
  pf_packet_id :: u64
  pf_callback :: callback
  pf_user_data :: user_data

text \<open>
  The copies of the frames to resend, in the order the tracker reported them. The two flags say whether
  a fast retransmission and whether a timeout is among them.
\<close>

fun collect_retries ::
    "socket \<Rightarrow> port_address \<Rightarrow> retry_out list \<Rightarrow> nat \<Rightarrow> nat \<Rightarrow> pending_retransmit list \<Rightarrow> bool \<Rightarrow> bool \<Rightarrow>
     (pending_retransmit list \<times> bool \<times> bool) option" where
  "collect_retries sock addr retries r 0 pending any_fast any_timeout = Some (pending, any_fast, any_timeout)"
| "collect_retries sock addr retries r (Suc n) pending any_fast any_timeout =
     (if length pending \<ge> MAX_PENDING_RETRANSMITS then Some (pending, any_fast, any_timeout)
      else do {
        ro \<leftarrow> mem_get retries r;
        let (frame_data, frame_size) = krs_ack_tracker_get_retry_frame_for_entry (Some (ro_entry ro));
        if frame_data = None \<or> frame_size = 0 \<or> unat frame_size > KRONOS_BUFFER_SIZE
        then collect_retries sock addr retries (Suc r) n pending any_fast any_timeout
        else do {
          d \<leftarrow> frame_data;
          bs \<leftarrow> mem_read d 0 (unat frame_size);
          collect_retries sock addr retries (Suc r) n
            (pending @ [\<lparr>pr_data = bs, pr_size = frame_size, pr_addr = addr, pr_socket = sock\<rparr>])
            (any_fast \<or> ro_was_fast ro) (any_timeout \<or> \<not> ro_was_fast ro) } })"

fun add_failures ::
    "callback \<Rightarrow> user_data \<Rightarrow> u32 \<Rightarrow> (u64 \<times> u8) list \<Rightarrow> nat \<Rightarrow> nat \<Rightarrow> pending_delivery_failure list \<Rightarrow>
     pending_delivery_failure list option" where
  "add_failures cb ud cid dropped d 0 failures = Some failures"
| "add_failures cb ud cid dropped d (Suc n) failures =
     (if length failures \<ge> MAX_PENDING_FAILURES then Some failures
      else do {
        (packet_id, channel) \<leftarrow> mem_get dropped d;
        add_failures cb ud cid dropped (Suc d) n
          (failures @ [\<lparr>pf_connection_id = cid, pf_channel = channel, pf_packet_id = packet_id, pf_callback = cb,
                        pf_user_data = ud\<rparr>]) })"

text \<open>What happens to one connection of the descriptor.\<close>

definition collect_slot ::
    "u64 \<Rightarrow> udp_socket_descriptor \<Rightarrow> client_connection \<Rightarrow> pending_retransmit list \<Rightarrow> pending_delivery_failure list \<Rightarrow>
     (pending_retransmit list \<times> pending_delivery_failure list \<times> client_connection) option" where
  "collect_slot now desc conn pending failures =
     (case cn_ack_tracker conn of
        None \<Rightarrow> Some (pending, failures, conn)
      | Some tracker \<Rightarrow> do {
          (out, tracker') \<leftarrow> krs_ack_tracker_check_timeouts now (Some tracker) True 32 True 32;
          let to_check = (if to_retry_count out < 32 then to_retry_count out else 32);
          (pending', any_fast, any_timeout) \<leftarrow> collect_retries (ds_udp_socket_ref desc) (cn_remote_address conn)
             (to_retries out) 0 (unat to_check) pending False False;
          let conn = conn\<lparr>cn_ack_tracker := tracker'\<rparr>;
          let conn = (if cn_congestion conn \<noteq> None \<and> (any_fast \<or> any_timeout)
                      then conn\<lparr>cn_congestion := (if any_timeout then krs_congestion_on_timeout_loss (cn_congestion conn)
                                               else krs_congestion_on_fast_retransmit_loss (cn_congestion conn))\<rparr>
                      else conn);
          failures' \<leftarrow> (case ds_delivery_failure_callback desc of
             Some cb \<Rightarrow> if to_dropped_count out > 0
                        then add_failures cb (ds_delivery_failure_callback_user_data desc) (cn_connection_id conn)
                               (to_dropped out) 0 (unat (to_dropped_count out)) failures
                        else Some failures
           | None \<Rightarrow> Some failures);
          Some (pending', failures', conn) })"

text \<open>The loop over the slots of the connection map; the clock is read once for each connection.\<close>

fun collect_slots ::
    "(nat \<Rightarrow> u64) \<Rightarrow> desc_ref \<Rightarrow> (desc_ref \<rightharpoonup> udp_socket_descriptor) \<Rightarrow>
     (u32, desc_ref option \<times> conn_ref option) slot list \<Rightarrow> nat \<Rightarrow> nat \<Rightarrow>
     pending_retransmit list \<Rightarrow> pending_delivery_failure list \<Rightarrow> conn_store \<Rightarrow>
     (pending_retransmit list \<times> pending_delivery_failure list \<times> conn_store) option" where
  "collect_slots now d descs entries slot 0 pending failures cs = Some (pending, failures, cs)"
| "collect_slots now d descs entries slot (Suc n) pending failures cs = do {
     entry \<leftarrow> mem_get entries slot;
     if \<not> sl_occupied entry \<or> sl_deleted entry \<or> fst (sl_val entry) \<noteq> Some d
     then collect_slots now d descs entries (Suc slot) n pending failures cs
     else case snd (sl_val entry) of
       None \<Rightarrow> collect_slots now d descs entries (Suc slot) n pending failures cs
     | Some r \<Rightarrow> do {
         conn \<leftarrow> cs r;
         desc \<leftarrow> descs d;
         (pending', failures', conn') \<leftarrow> collect_slot (now slot) desc conn pending failures;
         collect_slots now d descs entries (Suc slot) n pending' failures' (cs(r \<mapsto> conn')) } }"

definition s_collect_retransmits ::
    "(nat \<Rightarrow> u64) \<Rightarrow> desc_ref \<Rightarrow> pending_retransmit list \<Rightarrow> pending_delivery_failure list \<Rightarrow> world \<Rightarrow>
     (pending_retransmit list \<times> pending_delivery_failure list \<times> world) option" where
  "s_collect_retransmits now d pending failures w = do {
     spm \<leftarrow> w_spm w;
     case spm_connection_map spm of
       None \<Rightarrow> Some (pending, failures, w)
     | Some m \<Rightarrow> do {
         (pending', failures', cs) \<leftarrow> collect_slots now d (w_descs w) (tb_entries (cm_ids m)) 0
            (unat (tb_capacity (cm_ids m))) pending failures (w_conns w);
         Some (pending', failures', w\<lparr>w_conns := cs\<rparr>) } }"

fun s_flush_retransmits :: "pending_retransmit list \<Rightarrow> world \<Rightarrow> (event list \<times> world) option" where
  "s_flush_retransmits [] w = Some ([], w)"
| "s_flush_retransmits (p # pending) w = do {
     ds \<leftarrow> krs_net_send_frame (pr_socket p) (Some (pr_addr p)) (Some (pr_data p)) (pr_size p);
     spm \<leftarrow> w_spm w;
     (evs, w') \<leftarrow> s_flush_retransmits pending (set_spm (spm\<lparr>stat_retransmissions := stat_retransmissions spm + 1\<rparr>) w);
     Some (map Ev_send ds @ evs, w') }"

section \<open>Evictions\<close>

definition evict_body ::
    "u64 \<Rightarrow> conn_store \<Rightarrow> conn_ref \<Rightarrow> conn_ref list \<Rightarrow> (bool \<times> conn_ref list) option" where
  "evict_body now cs r orphaned =
     (if r \<in> set orphaned then Some (True, orphaned)
      else do {
        conn \<leftarrow> cs r;
        let stale = (now - cn_last_heartbeat_ms conn \<ge> KRS_HEARTBEAT_TIMEOUT_MS);
        Some (stale, if stale \<and> length orphaned < MAX_EVICTIONS_PER_CYCLE then orphaned @ [r] else orphaned) })"

fun sweep_reassemblers :: "(nat \<Rightarrow> u64) \<Rightarrow> nat \<Rightarrow> channel_state list \<Rightarrow> channel_state list option" where
  "sweep_reassemblers now ch [] = Some []"
| "sweep_reassemblers now ch (st # sts) = do {
     st' \<leftarrow> (if ch_reassembler st = None then Some st
            else do {
              (removed, re) \<leftarrow> krs_reassembler_sweep_stale (now ch) (ch_reassembler st) 10000;
              Some (st\<lparr>ch_reassembler := re\<rparr>) });
     sts' \<leftarrow> sweep_reassemblers now (Suc ch) sts;
     Some (st' # sts') }"

definition s_evict_stale_connections ::
    "u64 \<Rightarrow> (nat \<Rightarrow> u64) \<Rightarrow> desc_ref \<Rightarrow> world \<Rightarrow> (conn_ref list \<times> world) option" where
  "s_evict_stale_connections now sweep_now d w = do {
     desc \<leftarrow> w_descs w d;
     (sts, orphaned) \<leftarrow> sweep_channels (evict_body now (w_conns w)) (ds_channel_states desc) [];
     sts \<leftarrow> sweep_reassemblers sweep_now 0 sts;
     Some (orphaned, set_desc d (desc\<lparr>ds_channel_states := sts\<rparr>) w) }"

section \<open>The thread\<close>

text \<open>The readings of the clock during one tick.\<close>

record tick_clock =
  tk_collect :: "nat \<Rightarrow> nat \<Rightarrow> u64"
  tk_evict :: "nat \<Rightarrow> u64"
  tk_sweep :: "nat \<Rightarrow> nat \<Rightarrow> u64"

fun collect_descriptors ::
    "tick_clock \<Rightarrow> desc_ref krs_array \<Rightarrow> nat \<Rightarrow> nat \<Rightarrow> pending_retransmit list \<Rightarrow> pending_delivery_failure list \<Rightarrow> world \<Rightarrow>
     (pending_retransmit list \<times> pending_delivery_failure list \<times> world) option" where
  "collect_descriptors clk list d 0 pending failures w = Some (pending, failures, w)"
| "collect_descriptors clk list d (Suc n) pending failures w = do {
     x \<leftarrow> array_at list d;
     case x of
       None \<Rightarrow> collect_descriptors clk list (Suc d) n pending failures w
     | Some desc \<Rightarrow> do {
         (pending', failures', w') \<leftarrow> s_collect_retransmits (tk_collect clk d) desc pending failures w;
         collect_descriptors clk list (Suc d) n pending' failures' w' } }"

text \<open>The body of the second loop.\<close>

definition evict_on :: "u64 \<Rightarrow> (nat \<Rightarrow> u64) \<Rightarrow> desc_ref \<Rightarrow> world \<Rightarrow> (event list \<times> world) option" where
  "evict_on now sweep_now d w = do {
     (orphans, w) \<leftarrow> s_evict_stale_connections now sweep_now d w;
     desc \<leftarrow> w_descs w d;
     krs_server_finalize_orphan_evictions desc orphans w }"

definition failure_event :: "pending_delivery_failure \<Rightarrow> event" where
  "failure_event f = Ev_delivery_failure (pf_callback f) (pf_connection_id f) (pf_channel f) (pf_packet_id f) (pf_user_data f)"

definition s_retransmit_tick :: "tick_clock \<Rightarrow> world \<Rightarrow> (event list \<times> world) option" where
  "s_retransmit_tick clk w = do {
     spm \<leftarrow> w_spm w;
     case spm_descriptor_list spm of
       None \<Rightarrow> Some ([], w)
     | Some list \<Rightarrow> do {
         let desc_count = unat (krs_array_length (Some list));
         (pending, failures, w) \<leftarrow> collect_descriptors clk list 0 desc_count [] [] w;
         (sent, w) \<leftarrow> s_flush_retransmits pending w;
         (evicted, w) \<leftarrow> each_descriptor (\<lambda>i d. evict_on (tk_evict clk i) (tk_sweep clk i) d) list 0 desc_count w;
         Some (sent @ map failure_event failures @ evicted, w) } }"

text \<open>
  The thread: each round has the readings of its clock and what the other threads do while it sleeps.
  The flag says whether the thread has ended.
\<close>

record retransmit_round =
  rt_others :: "world \<Rightarrow> world"
  rt_clock :: tick_clock

fun krs_server_retransmit_thread :: "retransmit_round list \<Rightarrow> world \<Rightarrow> (bool \<times> event list \<times> world) option" where
  "krs_server_retransmit_thread [] w = do { spm \<leftarrow> w_spm w; Some (\<not> spm_running spm, [], w) }"
| "krs_server_retransmit_thread (rd # rds) w = do {
     spm \<leftarrow> w_spm w;
     if \<not> spm_running spm then Some (True, [], w)
     else do {
       let w = rt_others rd w;
       spm \<leftarrow> w_spm w;
       if \<not> spm_running spm then Some (True, [], w)
       else do {
         (evs, w) \<leftarrow> s_retransmit_tick (rt_clock rd) w;
         (ended, evs', w) \<leftarrow> krs_server_retransmit_thread rds w;
         Some (ended, evs @ evs', w) } } }"

section \<open>Resending: lemmas\<close>

definition resendable :: "retry_out \<Rightarrow> bool" where
  "resendable ro \<longleftrightarrow> ae_frame_data (ro_entry ro) \<noteq> None \<and> unat (ae_frame_size (ro_entry ro)) \<le> KRONOS_BUFFER_SIZE"

definition resend :: "socket \<Rightarrow> port_address \<Rightarrow> retry_out \<Rightarrow> pending_retransmit" where
  "resend sock addr ro = \<lparr>pr_data = the (ae_frame_data (ro_entry ro)), pr_size = ae_frame_size (ro_entry ro),
     pr_addr = addr, pr_socket = sock\<rparr>"

lemma drop_nth_Cons:
  assumes "mem_get xs r = Some x"
  shows "take (Suc n) (drop r xs) = x # take n (drop (Suc r) xs)"
  using assms by (auto simp: mem_get_Some_iff Cons_nth_drop_Suc [symmetric])

lemma collect_retries_spec:
  assumes "\<forall>ro \<in> set retries. \<exists>m. entry_ok m (ro_entry ro)" and "r + n \<le> length retries"
  shows "collect_retries sock addr retries r n pending f t =
    (let xs = take (64 - length pending) (filter resendable (take n (drop r retries)))
     in Some (pending @ map (resend sock addr) xs, f \<or> (\<exists>x \<in> set xs. ro_was_fast x), t \<or> (\<exists>x \<in> set xs. \<not> ro_was_fast x)))"
  using assms(2)
proof (induction n arbitrary: r pending f t)
  case (Suc n)
  show ?case
  proof (cases "length pending \<ge> 64")
    case False
    obtain ro where ro: "mem_get retries r = Some ro" "ro \<in> set retries"
      using Suc.prems by (auto simp: mem_get_def)
    let ?e = "ro_entry ro"
    obtain m where ok: "entry_ok m ?e" using assms(1) ro(2) by blast
    note IH = Suc.IH [of "Suc r"]
    show ?thesis
    proof (cases "resendable ro")
      case True
      then obtain d where d: "ae_frame_data ?e = Some d" "length d = unat (ae_frame_size ?e)" "ae_frame_size ?e > 0"
          "unat (ae_frame_size ?e) \<le> 1500"
        using ok by (auto simp: resendable_def entry_ok_def split: option.splits)
      have nz: "ae_frame_size ?e \<noteq> 0" using d(3) by auto
      have r: "resend sock addr ro = \<lparr>pr_data = d, pr_size = ae_frame_size ?e, pr_addr = addr, pr_socket = sock\<rparr>"
        using d(1) by (simp add: resend_def)
      obtain k where k: "64 - length pending = Suc k" "64 - Suc (length pending) = k"
        using False by (cases "64 - length pending") auto
      have "collect_retries sock addr retries r (Suc n) pending f t =
          collect_retries sock addr retries (Suc r) n (pending @ [resend sock addr ro]) (f \<or> ro_was_fast ro) (t \<or> \<not> ro_was_fast ro)"
        using False ro(1) d nz unfolding r
        by (simp add: krs_ack_tracker_get_retry_frame_for_entry_def mem_read_all Let_def)
      also have "\<dots> = (let xs = take k (filter resendable (take n (drop (Suc r) retries))) in
          Some ((pending @ [resend sock addr ro]) @ map (resend sock addr) xs, (f \<or> ro_was_fast ro) \<or> (\<exists>x \<in> set xs. ro_was_fast x),
            (t \<or> \<not> ro_was_fast ro) \<or> (\<exists>x \<in> set xs. \<not> ro_was_fast x)))"
        using Suc.prems k(2) by (subst IH) simp_all
      finally show ?thesis
        by (simp add: drop_nth_Cons [OF ro(1)] True k(1) Let_def)
    next
      case no: False
      then have "ae_frame_data ?e = None \<or> unat (ae_frame_size ?e) > 1500" by (auto simp: resendable_def)
      then have "collect_retries sock addr retries r (Suc n) pending f t = collect_retries sock addr retries (Suc r) n pending f t"
        using False ro(1) by (auto simp: krs_ack_tracker_get_retry_frame_for_entry_def Let_def)
      then show ?thesis using IH [of pending f t] Suc.prems by (simp add: drop_nth_Cons [OF ro(1)] no)
    qed
  qed simp
qed simp

lemma add_failures_spec:
  assumes "d + n \<le> length dropped"
  shows "add_failures cb ud cid dropped d n failures = Some (failures @
    map (\<lambda>(pid, ch). \<lparr>pf_connection_id = cid, pf_channel = ch, pf_packet_id = pid, pf_callback = cb, pf_user_data = ud\<rparr>)
      (take (32 - length failures) (take n (drop d dropped))))"
  using assms
proof (induction n arbitrary: d failures)
  case (Suc n)
  show ?case
  proof (cases "length failures \<ge> 32")
    case False
    obtain pid ch where x: "mem_get dropped d = Some (pid, ch)"
      using Suc.prems by (cases "dropped ! d") (auto simp: mem_get_def)
    obtain k where k: "32 - length failures = Suc k" "32 - Suc (length failures) = k"
      using False by (cases "32 - length failures") auto
    from Suc show ?thesis using False x k by (simp add: drop_nth_Cons [OF x])
  qed simp
qed simp

text \<open>The reaction of the controller: a timeout outweighs fast retransmissions.\<close>

definition loss_reaction :: "retry_out list \<Rightarrow> congestion_controller option \<Rightarrow> congestion_controller option" where
  "loss_reaction queued cc =
     (if queued = [] then cc
      else if \<exists>x \<in> set queued. \<not> ro_was_fast x then krs_congestion_on_timeout_loss cc
      else krs_congestion_on_fast_retransmit_loss cc)"

definition failures_of :: "udp_socket_descriptor \<Rightarrow> u32 \<Rightarrow> (u64 \<times> u8) list \<Rightarrow> pending_delivery_failure list" where
  "failures_of desc cid dropped =
     (case ds_delivery_failure_callback desc of
        None \<Rightarrow> []
      | Some cb \<Rightarrow> map (\<lambda>(pid, ch). \<lparr>pf_connection_id = cid, pf_channel = ch, pf_packet_id = pid, pf_callback = cb,
          pf_user_data = ds_delivery_failure_callback_user_data desc\<rparr>) dropped)"

lemma retry_list_ok:
  assumes "ack_wf t" and "ro \<in> set (retry_list now t (pending_entries t))"
  shows "\<exists>m. entry_ok m (ro_entry ro)"
  using assms by (auto simp: retry_list_def retry_report_def retried_def ack_wf_def intro!: exI bump_entry_ok)

lemma collect_slot_result:
  fixes now :: u64 and pending :: "pending_retransmit list" and failures :: "pending_delivery_failure list"
  assumes "cn_ack_tracker c = Some t" and wf: "ack_wf t"
  defines "queued \<equiv> take (64 - length pending) (filter resendable (take 32 (retry_list now t (pending_entries t))))"
    and "dropped \<equiv> take (32 - length failures) (take 32 (dropped_list now t (pending_entries t)))"
  shows "\<exists>a. collect_slot now desc c pending failures =
      Some (pending @ map (resend (ds_udp_socket_ref desc) (cn_remote_address c)) queued,
            failures @ failures_of desc (cn_connection_id c) dropped,
            c\<lparr>cn_ack_tracker := Some (t\<lparr>at_pending := a\<rparr>), cn_congestion := loss_reaction queued (cn_congestion c)\<rparr>) \<and>
    ack_wf (t\<lparr>at_pending := a\<rparr>) \<and> arr_vals a = after_check now t (pending_entries t)"
proof -
  let ?rs = "retry_list now t (pending_entries t)"
  obtain out a where out: "krs_ack_tracker_check_timeouts now (Some t) True 32 True 32 = Some (out, Some (t\<lparr>at_pending := a\<rparr>))"
      "arr_vals a = after_check now t (pending_entries t)" "unat (to_retry_count out) = length ?rs"
      "to_retries out = take 32 ?rs" "to_dropped out = take 32 (dropped_list now t (pending_entries t))"
      "unat (to_dropped_count out) = length (to_dropped out)"
    using check_timeouts_pending [OF ack_wfD(1) [OF wf], of now 32 True 32] by auto
  let ?n = "unat (if to_retry_count out < 32 then to_retry_count out else 32)"
  have n: "?n = length (to_retries out)" by (simp add: out(3,4) word_less_nat_alt)
  have ok: "\<forall>ro \<in> set (to_retries out). \<exists>m. entry_ok m (ro_entry ro)"
    unfolding out(4) using retry_list_ok [OF wf] by (blast dest: in_set_takeD)
  have qd: "queued = take (64 - length pending) (filter resendable (to_retries out))"
    by (simp add: queued_def out(4))
  have cr: "collect_retries (ds_udp_socket_ref desc) (cn_remote_address c) (to_retries out) 0 ?n pending False False =
      Some (pending @ map (resend (ds_udp_socket_ref desc) (cn_remote_address c)) queued,
        (\<exists>x \<in> set queued. ro_was_fast x), (\<exists>x \<in> set queued. \<not> ro_was_fast x))"
    unfolding n using collect_retries_spec [OF ok, of 0 "length (to_retries out)"]
    by (simp add: qd Let_def)
  have dd: "dropped = take (32 - length failures) (to_dropped out)" by (simp add: dropped_def out(5))
  have af: "add_failures cb ud cid (to_dropped out) 0 (unat (to_dropped_count out)) failures = Some (failures @
      map (\<lambda>(pid, ch). \<lparr>pf_connection_id = cid, pf_channel = ch, pf_packet_id = pid, pf_callback = cb, pf_user_data = ud\<rparr>) dropped)" for cb ud cid
    using add_failures_spec [of 0 "unat (to_dropped_count out)" "to_dropped out" cb ud cid failures]
    unfolding out(6) dd by simp
  have d0: "to_dropped_count out > 0 \<or> dropped = []"
    using out(5,6) by (auto simp: dropped_def word_less_nat_alt)
  have "collect_slot now desc c pending failures =
      Some (pending @ map (resend (ds_udp_socket_ref desc) (cn_remote_address c)) queued,
            failures @ failures_of desc (cn_connection_id c) dropped,
            c\<lparr>cn_ack_tracker := Some (t\<lparr>at_pending := a\<rparr>), cn_congestion := loss_reaction queued (cn_congestion c)\<rparr>)"
  proof -
    have fl: "(case ds_delivery_failure_callback desc of
        Some cb \<Rightarrow> if to_dropped_count out > 0
          then add_failures cb (ds_delivery_failure_callback_user_data desc) (cn_connection_id c)
                 (to_dropped out) 0 (unat (to_dropped_count out)) failures
          else Some failures
      | None \<Rightarrow> Some failures) = Some (failures @ failures_of desc (cn_connection_id c) dropped)"
      using d0 by (cases "ds_delivery_failure_callback desc") (auto simp: af failures_of_def)
    have q: "(\<exists>x \<in> set queued. ro_was_fast x) \<or> (\<exists>x \<in> set queued. \<not> ro_was_fast x) \<longleftrightarrow> queued \<noteq> []"
      by (cases queued) auto
    have none: "krs_congestion_on_timeout_loss None = None" "krs_congestion_on_fast_retransmit_loss None = None"
      by (simp_all add: krs_congestion_on_timeout_loss_def krs_congestion_on_fast_retransmit_loss_def)
    show ?thesis
      using assms(1) out(1) cr fl q none
      by (cases "queued = []"; cases "cn_congestion c"; cases c)
         (simp_all add: collect_slot_def loss_reaction_def Let_def cong: option.case_cong if_cong)
  qed
  then show ?thesis using check_timeouts_wf [OF wf out(1)] out(2) by blast
qed


text \<open>What is safe to send, and how many there can be.\<close>

definition pending_ok :: "pending_retransmit \<Rightarrow> bool" where
  "pending_ok p \<longleftrightarrow> length (pr_data p) = unat (pr_size p) \<and> 0 < pr_size p \<and> unat (pr_size p) \<le> KRONOS_BUFFER_SIZE"

definition collected_ok :: "pending_retransmit list \<Rightarrow> pending_delivery_failure list \<Rightarrow> bool" where
  "collected_ok pending failures \<longleftrightarrow> length pending \<le> 64 \<and> length failures \<le> 32 \<and> (\<forall>p \<in> set pending. pending_ok p)"

lemma loss_reaction_ok: "cc_reach n cc \<Longrightarrow> \<exists>cc'. loss_reaction q (Some cc) = Some cc' \<and> cc_reach n cc'"
  by (auto simp: loss_reaction_def krs_congestion_on_timeout_loss_def krs_congestion_on_fast_retransmit_loss_def
      intro: cc_reach.timeout cc_reach.fast)

lemma collect_slot_safe:
  assumes "tracker_ok c" and "cc_ok c" and "collected_ok pending failures"
  shows "\<exists>pending' failures' c'. collect_slot now desc c pending failures = Some (pending', failures', c') \<and>
    same_conn c c' \<and> tracker_ok c' \<and> cc_ok c' \<and> collected_ok pending' failures'"
proof (cases "cn_ack_tracker c")
  case None
  then show ?thesis using assms by (simp add: collect_slot_def same_conn_def)
next
  case (Some t)
  then have wf: "ack_wf t" using assms(1) by (simp add: tracker_ok_def)
  define queued where "queued = take (64 - length pending) (filter resendable (take 32 (retry_list now t (pending_entries t))))"
  define dropped where "dropped = take (32 - length failures) (take 32 (dropped_list now t (pending_entries t)))"
  obtain a where a: "collect_slot now desc c pending failures =
      Some (pending @ map (resend (ds_udp_socket_ref desc) (cn_remote_address c)) queued,
            failures @ failures_of desc (cn_connection_id c) dropped,
            c\<lparr>cn_ack_tracker := Some (t\<lparr>at_pending := a\<rparr>), cn_congestion := loss_reaction queued (cn_congestion c)\<rparr>)"
      "ack_wf (t\<lparr>at_pending := a\<rparr>)"
    using collect_slot_result [OF Some wf] unfolding queued_def dropped_def by blast
  let ?c = "c\<lparr>cn_ack_tracker := Some (t\<lparr>at_pending := a\<rparr>), cn_congestion := loss_reaction queued (cn_congestion c)\<rparr>"
  have "pending_ok (resend s ad ro)" if "ro \<in> set queued" for s ad ro
  proof -
    have "ro \<in> set (retry_list now t (pending_entries t))" "resendable ro"
      using that by (auto simp: queued_def dest!: in_set_takeD)
    then show ?thesis using retry_list_ok [OF wf] by (fastforce simp: resend_def pending_ok_def resendable_def entry_ok_def)
  qed
  moreover have "length queued \<le> 64 - length pending" "length (failures_of desc (cn_connection_id c) dropped) \<le> 32 - length failures"
    by (auto simp: queued_def dropped_def failures_of_def split: option.split)
  ultimately have "collected_ok (pending @ map (resend (ds_udp_socket_ref desc) (cn_remote_address c)) queued)
      (failures @ failures_of desc (cn_connection_id c) dropped)"
    using assms(3) by (auto simp: collected_ok_def)
  moreover have "cc_ok ?c"
  proof (cases "cn_congestion c")
    case None
    then show ?thesis
      by (simp add: cc_ok_def loss_reaction_def krs_congestion_on_timeout_loss_def krs_congestion_on_fast_retransmit_loss_def)
  next
    case cc: (Some cc)
    then obtain n where "cc_reach n cc" using assms(2) by (auto simp: cc_ok_def)
    from loss_reaction_ok [OF this, of queued] cc show ?thesis by (auto simp: cc_ok_def)
  qed
  moreover have "tracker_ok ?c" "same_conn c ?c" using a(2) by (simp_all add: tracker_ok_def same_conn_def)
  ultimately show ?thesis using a(1) by blast
qed

lemma conn_update_self: "sv_inv w \<Longrightarrow> conn_update w (w_conns w)"
  by (auto simp: conn_update_def sv_inv_def conn_ok_def)

lemma conn_update_step:
  assumes "conn_update w cs" and "cs r = Some c" and "same_conn c c'" and "tracker_ok c'" and "cc_ok c'"
  shows "conn_update w (cs(r \<mapsto> c'))"
  unfolding conn_update_def
proof (intro conjI allI impI)
  have "r \<in> dom (w_conns w)" using assms(1,2) by (auto simp: conn_update_def)
  then show "dom (cs(r \<mapsto> c')) = dom (w_conns w)" using assms(1) by (auto simp: conn_update_def)
  fix q x y assume q: "w_conns w q = Some x" "(cs(r \<mapsto> c')) q = Some y"
  have old: "cn_connection_id z = cn_connection_id x \<and> cn_remote_address z = cn_remote_address x \<and> cn_refcount z = cn_refcount x \<and>
      tracker_ok z \<and> cc_ok z" if "cs q = Some z" for z
    using assms(1) q(1) that unfolding conn_update_def by blast
  have "cn_connection_id y = cn_connection_id x \<and> cn_remote_address y = cn_remote_address x \<and> cn_refcount y = cn_refcount x \<and>
      tracker_ok y \<and> cc_ok y"
  proof (cases "q = r")
    case True
    then show ?thesis using old [of c] assms(2-5) q(2) by (simp add: same_conn_def)
  qed (use old q(2) in simp)
  then show "cn_connection_id y = cn_connection_id x" "cn_remote_address y = cn_remote_address x"
    "cn_refcount y = cn_refcount x" "tracker_ok y" "cc_ok y" by simp_all
qed

lemma collect_slots_safe:
  assumes "\<forall>e \<in> set entries. live e \<longrightarrow> (\<forall>x r. sl_val e = (Some x, Some r) \<longrightarrow> r \<in> dom (w_conns w))"
    and "descs d = Some desc" and "slot + n \<le> length entries" and "conn_update w cs" and "collected_ok pending failures"
  shows "\<exists>pending' failures' cs'. collect_slots now d descs entries slot n pending failures cs = Some (pending', failures', cs') \<and>
    conn_update w cs' \<and> collected_ok pending' failures'"
  using assms(3-5)
proof (induction n arbitrary: slot pending failures cs)
  case (Suc n)
  obtain e where e: "mem_get entries slot = Some e" "e \<in> set entries"
    using Suc.prems by (auto simp: mem_get_def)
  have IH: "conn_update w cs1 \<Longrightarrow> collected_ok p f \<Longrightarrow>
      \<exists>pending' failures' cs'. collect_slots now d descs entries (Suc slot) n p f cs1 = Some (pending', failures', cs') \<and>
        conn_update w cs' \<and> collected_ok pending' failures'" for p f cs1
    using Suc.IH [of "Suc slot"] Suc.prems(1) by simp
  show ?case
  proof (cases "live e \<and> fst (sl_val e) = Some d \<and> snd (sl_val e) \<noteq> None")
    case False
    then have "collect_slots now d descs entries slot (Suc n) pending failures cs =
        collect_slots now d descs entries (Suc slot) n pending failures cs"
      using e(1) by (auto simp: live_def)
    then show ?thesis using IH Suc.prems by simp
  next
    case True
    then obtain r where r: "sl_val e = (Some d, Some r)" by (cases "sl_val e") auto
    then have "r \<in> dom (w_conns w)" using assms(1) e(2) True by blast
    moreover from this have "r \<in> dom cs" using Suc.prems(2) by (simp add: conn_update_def)
    ultimately obtain c x where c: "cs r = Some c" "w_conns w r = Some x" by blast
    have ok: "tracker_ok c" "cc_ok c" using Suc.prems(2) c unfolding conn_update_def by blast+
    obtain p f c' where s: "collect_slot (now slot) desc c pending failures = Some (p, f, c')" "same_conn c c'" "tracker_ok c'"
        "cc_ok c'" "collected_ok p f"
      using collect_slot_safe [OF ok Suc.prems(3)] by blast
    have "collect_slots now d descs entries slot (Suc n) pending failures cs =
        collect_slots now d descs entries (Suc slot) n p f (cs(r \<mapsto> c'))"
      using e(1) True r c(1) assms(2) s(1) by (simp add: live_def)
    then show ?thesis using IH [OF conn_update_step [OF Suc.prems(2) c(1) s(2-4)] s(5)] by simp
  qed
qed auto

lemma collect_safe:
  assumes inv: "sv_inv w" and d: "w_descs w d = Some desc" and "collected_ok pending failures"
  shows "\<exists>pending' failures' cs. s_collect_retransmits now d pending failures w = Some (pending', failures', w\<lparr>w_conns := cs\<rparr>) \<and>
    sv_inv (w\<lparr>w_conns := cs\<rparr>) \<and> collected_ok pending' failures'"
proof -
  obtain spm m where m: "w_spm w = Some spm" "spm_connection_map spm = Some m" "cm_ok m" "desc_conns_ok w m" "map_conns_ok w m"
    using inv by (rule sv_invE)
  have es: "es_ok s_id_hash (\<lambda>k. k) (unat (tb_capacity (cm_ids m))) (tb_entries (cm_ids m))"
    using m(3) by (simp add: cm_ok_def tb_ok_def)
  have len: "length (tb_entries (cm_ids m)) = unat (tb_capacity (cm_ids m))" using es by (simp add: es_ok_def)
  have "\<forall>e \<in> set (tb_entries (cm_ids m)). live e \<longrightarrow> (\<forall>x r. sl_val e = (Some x, Some r) \<longrightarrow> r \<in> dom (w_conns w))"
  proof (intro ballI allI impI)
    fix e x r assume e: "e \<in> set (tb_entries (cm_ids m))" "live e" "sl_val e = (Some x, Some r)"
    then obtain i where "i < unat (tb_capacity (cm_ids m))" "tb_entries (cm_ids m) ! i = e" by (auto simp: in_set_conv_nth len)
    then have "ids_of m (sl_key e) = Some (Some x, Some r)"
      using tb_map_SomeI [OF es, of i "sl_key e"] e by (simp add: cm_abs_def)
    then show "r \<in> dom (w_conns w)" using m(5) unfolding map_conns_ok_def by blast
  qed
  from collect_slots_safe [where w = w, OF this, of "w_descs w" d, OF d _ conn_update_self [OF inv] assms(3), of 0
      "unat (tb_capacity (cm_ids m))" now]
  obtain p f cs where "collect_slots now d (w_descs w) (tb_entries (cm_ids m)) 0 (unat (tb_capacity (cm_ids m))) pending failures (w_conns w) =
      Some (p, f, cs)" "conn_update w cs" "collected_ok p f"
    using len by auto
  with m(1,2) sv_inv_conns [OF inv] show ?thesis by (auto simp: s_collect_retransmits_def)
qed


lemma collect_descriptors_safe:
  assumes "arr_ok list" and "d + n \<le> length (arr_vals list)" and "sv_inv w"
    and "set (arr_vals list) \<subseteq> dom (w_descs w)" and "collected_ok pending failures"
  shows "\<exists>pending' failures' cs. collect_descriptors clk list d n pending failures w = Some (pending', failures', w\<lparr>w_conns := cs\<rparr>) \<and>
    sv_inv (w\<lparr>w_conns := cs\<rparr>) \<and> collected_ok pending' failures'"
  using assms(2-)
proof (induction n arbitrary: d pending failures w)
  case 0
  then show ?case by (auto intro!: exI [of _ "w_conns w"])
next
  case (Suc n)
  let ?d = "arr_vals list ! d"
  have at: "array_at list d = Some (Some ?d)" using array_at_vals [OF assms(1)] Suc.prems(1) by simp
  have "?d \<in> set (arr_vals list)" using Suc.prems(1) by (intro nth_mem) simp
  then have "?d \<in> dom (w_descs w)" using Suc.prems(3) by blast
  then obtain desc where "w_descs w ?d = Some desc" by blast
  from collect_safe [OF Suc.prems(2) this Suc.prems(4), of "tk_collect clk d"]
  obtain p f cs where c: "s_collect_retransmits (tk_collect clk d) ?d pending failures w = Some (p, f, w\<lparr>w_conns := cs\<rparr>)"
      "sv_inv (w\<lparr>w_conns := cs\<rparr>)" "collected_ok p f" by blast
  have "Suc d + n \<le> length (arr_vals list)" "set (arr_vals list) \<subseteq> dom (w_descs (w\<lparr>w_conns := cs\<rparr>))"
    using Suc.prems(1,3) by simp_all
  from Suc.IH [OF this(1) c(2) this(2) c(3)] at c(1) show ?case by auto
qed

lemma flush_spec:
  assumes "\<forall>p \<in> set pending. pending_ok p" and "w_spm w = Some spm"
  shows "s_flush_retransmits pending w = Some (map (\<lambda>p. Ev_send (pr_socket p, pr_addr p, pr_data p)) pending,
    set_spm (spm\<lparr>stat_retransmissions := stat_retransmissions spm + of_nat (length pending)\<rparr>) w)"
  using assms
proof (induction pending arbitrary: w spm)
  case Nil
  then show ?case by (simp add: set_spm_def)
next
  case (Cons p pending)
  then have "krs_net_send_frame (pr_socket p) (Some (pr_addr p)) (Some (pr_data p)) (pr_size p) =
      Some [(pr_socket p, pr_addr p, pr_data p)]"
    by (auto simp: krs_net_send_frame_def pending_ok_def mem_read_all)
  with Cons show ?case by (simp add: add.assoc)
qed

section \<open>Evictions: lemmas\<close>

definition stale :: "u64 \<Rightarrow> world \<Rightarrow> conn_ref \<Rightarrow> bool" where
  "stale now w r \<longleftrightarrow> now - cn_last_heartbeat_ms (the (w_conns w r)) \<ge> KRS_HEARTBEAT_TIMEOUT_MS"

lemma evict_body_sweeps:
  assumes "\<forall>r \<in> A. w_conns w r \<noteq> None"
  shows "sweeps (stale now w) A (evict_body now (w_conns w))"
  using assms by (auto simp: sweeps_def evict_body_def track_orphan_def stale_def)

lemma track_all_length:
  assumes "distinct os" and "length os \<le> 64"
  shows "length (track_all rs os) = min 64 (card (set os \<union> set rs))"
  using assms
proof (induction rs arbitrary: os)
  case Nil
  then show ?case by (simp add: distinct_card)
next
  case (Cons r rs)
  show ?case
  proof (cases "r \<in> set os \<or> length os < 64")
    case True
    then have "set (track_orphan r os) = insert r (set os)" "distinct (track_orphan r os)" "length (track_orphan r os) \<le> 64"
      using Cons.prems by (auto simp: track_orphan_def)
    then show ?thesis using Cons.IH [of "track_orphan r os"] by simp
  next
    case False
    then have t: "track_orphan r os = os" "length os = 64" using Cons.prems by (auto simp: track_orphan_def)
    have "64 \<le> card (set os \<union> A)" if "finite A" for A
      using card_mono [of "set os \<union> A" "set os"] t(2) Cons.prems(1) that by (simp add: distinct_card)
    then have "64 \<le> card (set os \<union> set rs)" "64 \<le> card (set os \<union> set (r # rs))" by blast+
    with Cons.IH [OF Cons.prems] t show ?thesis by (simp add: min_absorb1)
  qed
qed

definition swept_re :: "u64 \<Rightarrow> channel_state \<Rightarrow> channel_state \<Rightarrow> bool" where
  "swept_re now st st' \<longleftrightarrow> ch_connections st' = ch_connections st \<and> ch_packet_counter st' = ch_packet_counter st \<and>
     (case ch_reassembler st of
        None \<Rightarrow> ch_reassembler st' = None
      | Some re \<Rightarrow> \<exists>re'. ch_reassembler st' = Some re' \<and> re_wf re' \<and>
          sessions re' = filter (\<lambda>s. now - fs_created_ms s < 10000) (sessions re))"

lemma sweep_reassemblers_spec:
  assumes "\<forall>st \<in> set sts. chan_ok st"
  shows "\<exists>sts'. sweep_reassemblers now ch sts = Some sts' \<and> length sts' = length sts \<and>
    (\<forall>i < length sts. swept_re (now (ch + i)) (sts ! i) (sts' ! i))"
  using assms
proof (induction sts arbitrary: ch)
  case (Cons st sts)
  obtain sts' where IH: "sweep_reassemblers now (Suc ch) sts = Some sts'" "length sts' = length sts"
      "\<forall>i < length sts. swept_re (now (Suc ch + i)) (sts ! i) (sts' ! i)"
    using Cons.IH [of "Suc ch"] Cons.prems by auto
  obtain st' where st': "(if ch_reassembler st = None then Some st
      else do { (removed, re) \<leftarrow> krs_reassembler_sweep_stale (now ch) (ch_reassembler st) 10000;
                Some (st\<lparr>ch_reassembler := re\<rparr>) }) = Some st'" "swept_re (now ch) st st'"
  proof (cases "ch_reassembler st")
    case None
    then show ?thesis using that [of st] by (simp add: swept_re_def)
  next
    case (Some re)
    then have "re_wf re" using Cons.prems by (simp add: chan_ok_def)
    from sweep_stale_result [OF this, of "now ch" 10000] obtain k re' where
      "krs_reassembler_sweep_stale (now ch) (Some re) 10000 = Some (k, Some re')" "re_wf re'"
      "sessions re' = filter (\<lambda>s. now ch - fs_created_ms s < 10000) (sessions re)" by auto
    then show ?thesis using that [of "st\<lparr>ch_reassembler := Some re'\<rparr>"] Some by (simp add: swept_re_def)
  qed
  have "swept_re (now (ch + i)) ((st # sts) ! i) ((st' # sts') ! i)" if "i < length (st # sts)" for i
    using that st'(2) IH(3) by (cases i) auto
  with IH st'(1) show ?case by auto
qed simp

lemma swept_re_ok: "swept_re now st st' \<Longrightarrow> chan_ok st \<Longrightarrow> chan_ok st' \<and> chan_refs st' = chan_refs st"
  by (auto simp: swept_re_def chan_ok_def chan_refs_def split: option.splits)

lemma swept_re_desc:
  assumes "desc_ok desc" and "length sts = length (ds_channel_states desc)"
    and sw: "\<And>i. i < length sts \<Longrightarrow> swept_re (now i) (ds_channel_states desc ! i) (sts ! i)"
  defines "desc' \<equiv> desc\<lparr>ds_channel_states := sts\<rparr>"
  shows "desc_ok desc'" and "refs0 desc' = refs0 desc" and "\<And>ch. ch_refs desc' ch = ch_refs desc ch"
proof -
  have len: "length sts = 256" using assms(1,2) by (simp add: desc_ok_def desc_wf_def)
  have ok: "chan_ok (sts ! i) \<and> chan_refs (sts ! i) = chan_refs (ds_channel_states desc ! i)" if "i < 256" for i
    using swept_re_ok [OF sw] that assms(1,2) len nth_mem [of i "ds_channel_states desc"] by (simp add: desc_ok_def)
  show "ch_refs desc' ch = ch_refs desc ch" for ch
    using ok channel_index [of ch] by (simp add: ch_refs_def desc'_def)
  show r: "refs0 desc' = refs0 desc" using ok [of 0] by (simp add: refs0_def desc'_def)
  have "chan_ok st \<and> set (chan_refs st) \<subseteq> set (refs0 desc)" if mem: "st \<in> set sts" for st
  proof -
    obtain i where i': "i < length sts" "sts ! i = st" using mem unfolding in_set_conv_nth by blast
    then have i: "i < 256" "st = sts ! i" using len by simp_all
    then have "ds_channel_states desc ! i \<in> set (ds_channel_states desc)" using assms(2) len by simp
    then have "set (chan_refs (ds_channel_states desc ! i)) \<subseteq> set (refs0 desc)" using assms(1) by (simp add: desc_ok_def)
    with ok [OF i(1)] i(2) show ?thesis by simp
  qed
  then show "desc_ok desc'" using assms(1) len r by (simp add: desc_ok_def desc_wf_def desc'_def)
qed

lemma evict_result:
  assumes inv: "sv_inv w" and d: "w_descs w d = Some desc"
  shows "\<exists>os w' desc'. evict_on now sweep_now d w =
      Some ((case ds_disconnect_callback desc of
               None \<Rightarrow> []
             | Some cb \<Rightarrow> map (\<lambda>r. Ev_disconnect cb (cn_connection_id (the (w_conns w r))) 0
                 (ds_disconnect_callback_user_data desc)) os), w') \<and>
    sv_inv w' \<and> w_descs w' = (w_descs w)(d \<mapsto> desc') \<and>
    (\<forall>ch. ch_refs desc' ch = filter (\<lambda>r. \<not> stale now w r) (ch_refs desc ch)) \<and>
    (\<forall>ch re. ch_reassembler (ds_channel_states desc ! unat (ch :: u8)) = Some re \<longrightarrow>
       (\<exists>re'. ch_reassembler (ds_channel_states desc' ! unat ch) = Some re' \<and>
          sessions re' = filter (\<lambda>s. sweep_now (unat ch) - fs_created_ms s < 10000) (sessions re))) \<and>
    distinct os \<and> set os \<subseteq> {r \<in> set (refs0 desc). stale now w r} \<and>
    length os = min 64 (card {r \<in> set (refs0 desc). stale now w r}) \<and>
    w_conns w' = (\<lambda>r. if r \<in> set os then None else w_conns w r) \<and>
    (\<forall>m. sv_map w = Some m \<longrightarrow> (\<exists>m'. sv_map w' = Some m' \<and>
       ids_of m' = (\<lambda>i. if i \<in> (\<lambda>r. cn_connection_id (the (w_conns w r))) ` set os then None else ids_of m i)))"
proof -
  obtain spm m where m: "desc_conns_ok w m" using inv by (rule sv_invE)
  note dd = desc_conns_okD [OF m d]
  let ?P = "stale now w" and ?sts = "ds_channel_states desc"
  define cat where "cat = concat (map (\<lambda>st. rev (filter ?P (chan_refs st))) ?sts)"
  define os where "os = track_all cat []"
  have sw: "sweeps ?P (\<Union>st \<in> set ?sts. set (chan_refs st)) (evict_body now (w_conns w))"
    using dd(3) by (intro evict_body_sweeps) blast
  obtain sts where sts: "sweep_channels (evict_body now (w_conns w)) ?sts [] = Some (sts, os)" "list_all2 (swept ?P) ?sts sts"
    using sweep_channels_spec [OF _ sw, of "[]"] dd(1) by (auto simp: desc_ok_def cat_def os_def)
  define desc1 where "desc1 = desc\<lparr>ds_channel_states := sts\<rparr>"
  note sd = swept_desc [OF dd(1) sts(2), folded desc1_def]
  have "\<forall>st \<in> set sts. chan_ok st" using sd(1) by (simp add: desc_ok_def desc1_def)
  from sweep_reassemblers_spec [OF this, of sweep_now 0] obtain sts' where sts':
    "sweep_reassemblers sweep_now 0 sts = Some sts'" "length sts' = length sts"
    "\<And>i. i < length sts \<Longrightarrow> swept_re (sweep_now i) (sts ! i) (sts' ! i)" by auto
  define desc' where "desc' = desc\<lparr>ds_channel_states := sts'\<rparr>"
  have desc': "desc' = desc1\<lparr>ds_channel_states := sts'\<rparr>" by (simp add: desc'_def desc1_def)
  have ok': "desc_ok desc'" "refs0 desc' = refs0 desc1" "\<And>ch. ch_refs desc' ch = ch_refs desc1 ch"
    using swept_re_desc [OF sd(1), of sts' sweep_now] sts'(2,3) unfolding desc' by (simp_all add: desc1_def)
  have cat: "set cat = {r \<in> set (refs0 desc). ?P r}"
    using all_refs [OF dd(1)] by (auto simp: cat_def)
  have os: "distinct os" "length os \<le> 64" "set os \<subseteq> {r \<in> set (refs0 desc). ?P r}"
      "length os = min 64 (card {r \<in> set (refs0 desc). ?P r})"
    using track_all_props [of "[]" cat] set_track_all(1) [of cat "[]"] track_all_length [of "[]" cat] cat
    by (auto simp: os_def)
  have sub: "set (refs0 desc') \<subseteq> set (refs0 desc) - set os" using os(3) by (auto simp: ok'(2) sd(2))
  have refs: "ch_refs desc' ch = filter (\<lambda>r. \<not> ?P r) (ch_refs desc ch)" for ch by (simp add: ok'(3) sd(3))
  have re: "\<exists>re'. ch_reassembler (ds_channel_states desc' ! unat (ch :: u8)) = Some re' \<and>
      sessions re' = filter (\<lambda>s. sweep_now (unat ch) - fs_created_ms s < 10000) (sessions re)"
    if "ch_reassembler (?sts ! unat ch) = Some re" for ch re
  proof -
    have len: "length sts = 256" "length ?sts = 256"
      using dd(1) list_all2_lengthD [OF sts(2)] by (simp_all add: desc_ok_def desc_wf_def)
    have "ch_reassembler (sts ! unat ch) = Some re"
      using that list_all2_nthD [OF sts(2), of "unat ch"] channel_index [of ch] len by (simp add: swept_def)
    then show ?thesis using sts'(3) [of "unat ch"] channel_index [of ch] len by (auto simp: swept_re_def desc'_def)
  qed
  have cb: "ds_disconnect_callback desc' = ds_disconnect_callback desc"
      "ds_disconnect_callback_user_data desc' = ds_disconnect_callback_user_data desc" by (simp_all add: desc'_def)
  have run: "evict_on now sweep_now d w = krs_server_finalize_orphan_evictions desc' os (set_desc d desc' w)"
    using d sts(1) sts'(1) by (simp add: evict_on_def s_evict_stale_connections_def desc'_def)
  have sub': "set os \<subseteq> set (refs0 desc)" using os(3) by blast
  from finalize_spec [OF inv d ok'(1) sub os(1,2) sub'] obtain w' where
    "krs_server_finalize_orphan_evictions desc' os (set_desc d desc' w) =
      Some ((case ds_disconnect_callback desc of None \<Rightarrow> []
         | Some cb \<Rightarrow> map (\<lambda>r. Ev_disconnect cb (cn_connection_id (the (w_conns w r))) 0 (ds_disconnect_callback_user_data desc)) os), w')"
    "sv_inv w'" "w_descs w' = (w_descs w)(d \<mapsto> desc')" "w_conns w' = (\<lambda>r. if r \<in> set os then None else w_conns w r)"
    "\<forall>m. sv_map w = Some m \<longrightarrow> (\<exists>m'. sv_map w' = Some m' \<and>
       ids_of m' = (\<lambda>i. if i \<in> (\<lambda>r. cn_connection_id (the (w_conns w r))) ` set os then None else ids_of m i))"
    unfolding cb by blast
  with os refs re show ?thesis unfolding run
    by (intro exI [of _ os] exI [of _ w'] exI [of _ desc'] conjI allI impI) (assumption | simp only:)+
qed


lemma finalize_stat:
  "krs_server_finalize_orphan_evictions desc os w = Some (evs, w') \<Longrightarrow>
     map_option stat_retransmissions (w_spm w') = map_option stat_retransmissions (w_spm w)"
  by (auto simp: krs_server_finalize_orphan_evictions_def split: if_splits Option.bind_splits)

lemma evict_stat:
  "evict_on now sweep_now d w = Some (evs, w') \<Longrightarrow>
     map_option stat_retransmissions (w_spm w') = map_option stat_retransmissions (w_spm w)"
  by (auto simp: evict_on_def s_evict_stale_connections_def dest!: finalize_stat split: Option.bind_splits)

text \<open>A loop over the descriptors that keeps an invariant at each of them.\<close>

lemma each_descriptor_inv:
  assumes "arr_ok list" and "i + n \<le> length (arr_vals list)" and "I w"
    and step: "\<And>i d w. d \<in> set (arr_vals list) \<Longrightarrow> I w \<Longrightarrow> \<exists>evs w'. f i d w = Some (evs, w') \<and> I w'"
  shows "\<exists>evs w'. each_descriptor f list i n w = Some (evs, w') \<and> I w'"
  using assms(2,3)
proof (induction n arbitrary: i w)
  case (Suc n)
  let ?d = "arr_vals list ! i"
  have at: "array_at list i = Some (Some ?d)" using array_at_vals [OF assms(1)] Suc.prems(1) by simp
  have "?d \<in> set (arr_vals list)" using Suc.prems(1) by (intro nth_mem) simp
  from step [OF this Suc.prems(2)] obtain evs w1 where w1: "f i ?d w = Some (evs, w1)" "I w1" by blast
  from Suc.IH [OF _ w1(2), of "Suc i"] Suc.prems(1) obtain evs' w2 where
    "each_descriptor f list (Suc i) n w1 = Some (evs', w2)" "I w2" by auto
  with at w1(1) show ?case by auto
qed simp

section \<open>Properties\<close>

text \<open>
  What a tick resends for a connection. Of the entries the tracker reports as due, at most 32 of
  them and newest first, those whose frame fits a datagram are queued in that order while there is room
  for 64 frames; each copy is the frame that was registered and goes to the address of the connection.
  The controller reacts once: to a timeout if one of the queued frames timed out, otherwise to a fast
  retransmission, and not at all if nothing was queued. Packets that were given up are reported while
  there is room for 32 reports, and the entries of the tracker are those that are left, the due ones
  counted and time-stamped.
\<close>

theorem collect_slot_spec:
  assumes "cn_ack_tracker c = Some t" and "ack_wf t"
    and "queued = take (64 - length pending) (filter resendable (take 32 (retry_list now t (pending_entries t))))"
    and "dropped = take (32 - length failures) (take 32 (dropped_list now t (pending_entries t)))"
  shows "\<exists>a. collect_slot now desc c pending failures =
      Some (pending @ map (resend (ds_udp_socket_ref desc) (cn_remote_address c)) queued,
            failures @ failures_of desc (cn_connection_id c) dropped,
            c\<lparr>cn_ack_tracker := Some (t\<lparr>at_pending := a\<rparr>), cn_congestion := loss_reaction queued (cn_congestion c)\<rparr>) \<and>
    ack_wf (t\<lparr>at_pending := a\<rparr>) \<and> arr_vals a = after_check now t (pending_entries t)"
  unfolding assms(3,4) using assms(1,2) by (rule collect_slot_result)

text \<open>
  C19. Evictions. On a descriptor exactly the connections whose last heartbeat is 30 seconds or more ago,
  in the wrapping arithmetic of the clock, leave every channel, and exactly the incomplete messages
  older than 10 seconds are discarded. The stale connections are taken out of the map, freed and
  announced to the application, each once, up to 64 of them; the invariant of the server holds again.
\<close>

theorem evict_stale_spec:
  assumes "sv_inv w" and "w_descs w d = Some desc"
  shows "\<exists>os w' desc'. evict_on now sweep_now d w =
      Some ((case ds_disconnect_callback desc of
               None \<Rightarrow> []
             | Some cb \<Rightarrow> map (\<lambda>r. Ev_disconnect cb (cn_connection_id (the (w_conns w r))) 0
                 (ds_disconnect_callback_user_data desc)) os), w') \<and>
    sv_inv w' \<and> w_descs w' = (w_descs w)(d \<mapsto> desc') \<and>
    (\<forall>ch. ch_refs desc' ch = filter (\<lambda>r. \<not> stale now w r) (ch_refs desc ch)) \<and>
    (\<forall>ch re. ch_reassembler (ds_channel_states desc ! unat (ch :: u8)) = Some re \<longrightarrow>
       (\<exists>re'. ch_reassembler (ds_channel_states desc' ! unat ch) = Some re' \<and>
          sessions re' = filter (\<lambda>s. sweep_now (unat ch) - fs_created_ms s < 10000) (sessions re))) \<and>
    distinct os \<and> set os \<subseteq> {r \<in> set (refs0 desc). stale now w r} \<and>
    length os = min 64 (card {r \<in> set (refs0 desc). stale now w r}) \<and>
    w_conns w' = (\<lambda>r. if r \<in> set os then None else w_conns w r) \<and>
    (\<forall>m. sv_map w = Some m \<longrightarrow> (\<exists>m'. sv_map w' = Some m' \<and>
       ids_of m' = (\<lambda>i. if i \<in> (\<lambda>r. cn_connection_id (the (w_conns w r))) ` set os then None else ids_of m i)))"
  using assms by (rule evict_result)

text \<open>
  C18. A tick of the retransmission thread is safe. It is defined in every state that satisfies the
  invariant of the server, and the invariant holds again afterwards. It sends at most 64 datagrams, each
  of 1 to 1500 bytes, counts every one of them as a retransmission, and reports at most 32 failed deliveries.
\<close>

theorem retransmit_tick_safe:
  assumes "sv_inv w" and "w_spm w = Some spm" and "spm_descriptor_list spm = Some list" and "arr_ok list"
    and "set (arr_vals list) \<subseteq> dom (w_descs w)"
  shows "\<exists>sent failures evicted w' spm'. s_retransmit_tick clk w =
      Some (map Ev_send sent @ map failure_event failures @ evicted, w') \<and> sv_inv w' \<and> dom (w_descs w') = dom (w_descs w) \<and>
    length sent \<le> 64 \<and> length failures \<le> 32 \<and> (\<forall>(s, a, bs) \<in> set sent. 0 < length bs \<and> length bs \<le> KRONOS_BUFFER_SIZE) \<and>
    w_spm w' = Some spm' \<and> stat_retransmissions spm' = stat_retransmissions spm + of_nat (length sent)"
proof -
  have len: "unat (krs_array_length (Some list)) = length (arr_vals list)"
    by (simp add: krs_array_length_def length_arr_vals [OF assms(4)])
  obtain pending failures cs where c: "collect_descriptors clk list 0 (length (arr_vals list)) [] [] w = Some (pending, failures, w\<lparr>w_conns := cs\<rparr>)"
      "sv_inv (w\<lparr>w_conns := cs\<rparr>)" "collected_ok pending failures"
    using collect_descriptors_safe [OF assms(4) _ assms(1,5), of 0 "length (arr_vals list)" "[]" "[]" clk]
    by (auto simp: collected_ok_def)
  define spm1 where "spm1 = spm\<lparr>stat_retransmissions := stat_retransmissions spm + of_nat (length pending)\<rparr>"
  define w1 where "w1 = set_spm spm1 (w\<lparr>w_conns := cs\<rparr>)"
  define sent where "sent = map (\<lambda>p. (pr_socket p, pr_addr p, pr_data p)) pending"
  have fl: "s_flush_retransmits pending (w\<lparr>w_conns := cs\<rparr>) = Some (map Ev_send sent, w1)"
    using flush_spec [of pending "w\<lparr>w_conns := cs\<rparr>" spm] c(3) assms(2)
    by (simp add: collected_ok_def sent_def w1_def spm1_def comp_def)
  have w1: "sv_inv w1" "dom (w_descs w1) = dom (w_descs w)" "w_spm w1 = Some spm1"
    using sv_inv_spm [OF c(2), of spm spm1] assms(2) by (simp_all add: w1_def spm1_def)
  let ?I = "\<lambda>x. sv_inv x \<and> dom (w_descs x) = dom (w_descs w) \<and>
    map_option stat_retransmissions (w_spm x) = Some (stat_retransmissions spm1)"
  have step: "\<exists>evs x'. evict_on (tk_evict clk i) (tk_sweep clk i) d x = Some (evs, x') \<and> ?I x'"
    if "d \<in> set (arr_vals list)" "?I x" for i d x
  proof -
    have "d \<in> dom (w_descs x)" using that assms(5) by auto
    then obtain desc where d: "w_descs x d = Some desc" by blast
    have "sv_inv x" using that(2) by simp
    from evict_result [OF this d, of "tk_evict clk i" "tk_sweep clk i"] obtain evs x' desc' where
      r: "evict_on (tk_evict clk i) (tk_sweep clk i) d x = Some (evs, x')" "sv_inv x'" "w_descs x' = (w_descs x)(d \<mapsto> desc')"
      by blast
    have "dom (w_descs x') = dom (w_descs w)" using that(2) d by (auto simp: r(3))
    with r evict_stat [OF r(1)] that(2) show ?thesis by auto
  qed
  have "?I w1" using w1 by simp
  from each_descriptor_inv [OF assms(4), of 0 "length (arr_vals list)" ?I w1 "\<lambda>i d. evict_on (tk_evict clk i) (tk_sweep clk i) d", OF _ this step]
  obtain evicted w' where e: "each_descriptor (\<lambda>i d. evict_on (tk_evict clk i) (tk_sweep clk i) d) list 0 (length (arr_vals list)) w1 =
      Some (evicted, w')" "?I w'" by auto
  have run: "s_retransmit_tick clk w = Some (map Ev_send sent @ map failure_event failures @ evicted, w')"
    using assms(2,3) c(1) fl e(1) by (simp add: s_retransmit_tick_def len Let_def)
  have ok: "length sent \<le> 64" "length failures \<le> 32" "\<forall>(s, a, bs) \<in> set sent. 0 < length bs \<and> length bs \<le> KRONOS_BUFFER_SIZE"
    using c(3) by (auto simp: collected_ok_def sent_def pending_ok_def word_less_nat_alt)
  obtain spm' where "w_spm w' = Some spm'" "stat_retransmissions spm' = stat_retransmissions spm + of_nat (length sent)"
    using e(2) by (auto simp: spm1_def sent_def)
  with run ok e(2) show ?thesis by blast
qed


section \<open>Examples\<close>

definition one_descriptor :: "desc_ref \<Rightarrow> desc_ref krs_array" where
  "one_descriptor d = \<lparr>arr_items = [Some d], arr_length = 1, arr_capacity = 1\<rparr>"

lemma one_descriptor_ok: "arr_ok (one_descriptor d)" "arr_vals (one_descriptor d) = [d]"
  by (simp_all add: one_descriptor_def arr_ok_def arr_wf_def arr_list_def arr_vals_def)

theorem collect_slot_spec_witness:
  "\<exists>c'. collect_slot 600 sample_descriptor
     ((new_connection 1 (krs_network_port_address_create 5000 zero_address) 0)
        \<lparr>cn_ack_tracker := Some (with_entries 500 5 [new_entry 100 7 12 (Some [1, 2]) 2])\<rparr>) [] [] =
     Some ([\<lparr>pr_data = [1, 2], pr_size = 2, pr_addr = krs_network_port_address_create 5000 zero_address, pr_socket = 77\<rparr>], [], c')"
proof -
  let ?addr = "krs_network_port_address_create 5000 zero_address" and ?e = "new_entry 100 7 12 (Some [1, 2]) 2"
  let ?t = "with_entries 500 5 [?e]"
  let ?c = "(new_connection 1 ?addr 0)\<lparr>cn_ack_tracker := Some ?t\<rparr>"
  have ok: "arr_ok (at_pending ?t)" "pending_entries ?t = [?e]" "at_max_retries ?t = 5" "at_timeout_ms ?t = 500"
    by (rule with_entries_ok, simp)+
  have wf: "ack_wf ?t" using ok by (simp add: ack_wf_def entry_ok_def new_entry_def)
  have due: "entry_due 600 ?t ?e" by (simp add: entry_due_def timeout_due_def effective_timeout_ms_def ok)
  then have rs: "retry_list 600 ?t [?e] = [retry_report 600 ?t ?e]" and ds: "dropped_list 600 ?t [?e] = []"
    by (simp_all add: retry_list_def dropped_list_def retried_def given_up_def ok)
  have q: "resendable (retry_report 600 ?t ?e)" "resend 77 ?addr (retry_report 600 ?t ?e) =
      \<lparr>pr_data = [1, 2], pr_size = 2, pr_addr = ?addr, pr_socket = 77\<rparr>"
    by (simp_all add: resendable_def resend_def retry_report_def bump_entry_def new_entry_def)
  have "cn_ack_tracker ?c = Some ?t" by simp
  from collect_slot_spec [OF this wf refl refl, of 600 sample_descriptor "[]" "[]"] show ?thesis
    unfolding ok(2) rs ds by (simp add: q failures_of_def sample_descriptor_def zero_descriptor_def new_connection_def) blast
qed

theorem evict_stale_spec_witness:
  "(\<exists>w w'. evict_on 31000 (\<lambda>_. 31000) 3 w = Some ([Ev_disconnect 6 1 0 0], w') \<and> sv_inv w' \<and> w_conns w' 9 = None) \<and>
   (\<exists>w w'. evict_on 999 (\<lambda>_. 999) 3 w = Some ([Ev_disconnect 6 1 0 0], w') \<and> sv_inv w' \<and> w_conns w' 9 = None)"
proof -
  let ?addr = "krs_network_port_address_create 5000 zero_address" and ?d = "\<lambda>sts. sample_descriptor\<lparr>ds_channel_states := sts\<rparr>"
  obtain w sts m where w: "sv_inv w" "w_conns w 9 = Some (new_connection 1 ?addr 1000)" "w_descs w 3 = Some (?d sts)"
      "refs0 (?d sts) = [9]" by (rule sample_connected)
  have run: "\<exists>w'. evict_on now (\<lambda>_. now) 3 w = Some ([Ev_disconnect 6 1 0 0], w') \<and> sv_inv w' \<and> w_conns w' 9 = None"
    if "now - 1000 \<ge> 30000" for now
  proof -
    have st: "{r \<in> set (refs0 (?d sts)). stale now w r} = {9}" using that w(2,4) by (auto simp: stale_def new_connection_def)
    have cb: "ds_disconnect_callback (?d sts) = Some 6" "ds_disconnect_callback_user_data (?d sts) = 0"
      by (simp_all add: sample_descriptor_def zero_descriptor_def)
    obtain os w' where e: "evict_on now (\<lambda>_. now) 3 w =
          Some (map (\<lambda>r. Ev_disconnect 6 (cn_connection_id (the (w_conns w r))) 0 0) os, w')"
        "sv_inv w'" "set os \<subseteq> {9}" "length os = min 64 (card {9 :: conn_ref})"
        "w_conns w' = (\<lambda>r. if r \<in> set os then None else w_conns w r)"
      using evict_stale_spec [OF w(1,3), of now "\<lambda>_. now"] unfolding st cb option.case by blast
    then have "os = [9]" by (cases os) auto
    with e w(2) show ?thesis by (auto simp: new_connection_def)
  qed
  show ?thesis using run [of 31000] run [of 999] by auto
qed

theorem retransmit_tick_safe_witness:
  "\<exists>w evs w'. s_retransmit_tick \<lparr>tk_collect = \<lambda>_ _. 31000, tk_evict = \<lambda>_. 31000, tk_sweep = \<lambda>_ _. 31000\<rparr> w = Some (evs, w') \<and>
     sv_inv w \<and> sv_inv w' \<and> w_conns w \<noteq> Map.empty"
proof -
  obtain w sts m where w: "sv_inv w" "w_conns w 9 = Some (new_connection 1 (krs_network_port_address_create 5000 zero_address) 1000)"
      "w_descs w 3 = Some (sample_descriptor\<lparr>ds_channel_states := sts\<rparr>)" by (rule sample_connected)
  obtain spm where spm: "w_spm w = Some spm" using w(1) by (rule sv_invE)
  let ?spm = "spm\<lparr>spm_descriptor_list := Some (one_descriptor 3)\<rparr>"
  have inv: "sv_inv (set_spm ?spm w)" by (rule sv_inv_spm [OF w(1) spm]) simp
  have "w_spm (set_spm ?spm w) = Some ?spm" "spm_descriptor_list ?spm = Some (one_descriptor 3)"
      "set (arr_vals (one_descriptor 3)) \<subseteq> dom (w_descs (set_spm ?spm w))"
    using w(3) by (auto simp: one_descriptor_ok)
  from retransmit_tick_safe [OF inv this(1,2) one_descriptor_ok(1) this(3),
      of "\<lparr>tk_collect = \<lambda>_ _. 31000, tk_evict = \<lambda>_. 31000, tk_sweep = \<lambda>_ _. 31000\<rparr>"] inv w(2)
  show ?thesis by (intro exI [of _ "set_spm ?spm w"]) auto
qed

end
