(* ===== verification/Kronos_Client.thy ===== *)
theory Kronos_Client
  imports Kronos_Server_Retransmit
begin

text \<open>
  The client: \<open>client_connection.c\<close>. The connection is a record; \<open>None\<close> for it is a null pointer. What
  the operating system answers, the outcomes of allocations and the readings of the clock are arguments.
\<close>

section \<open>Connecting\<close>

record server_connection =
  cl_socket :: socket
  cl_server_address :: port_address
  cl_connection_id :: u32
  cl_connected :: bool
  cl_packet_counter :: "packet_counter option"
  cl_recv_thread :: "u64 option"
  cl_running :: bool
  cl_callback :: "callback option"
  cl_callback_user_data :: user_data
  cl_reassembler :: "reassembler option"
  cl_ack_tracker :: "ack_tracker option"
  cl_congestion :: "congestion_controller option"
  cl_last_heartbeat_sent_ms :: u64
  cl_delivery_failure_callback :: "callback option"
  cl_delivery_failure_callback_user_data :: user_data
  cl_pending_subscribe_pid :: u64
  cl_subscribe_ack_received :: bool
  cl_subscribed :: "bool list"

definition s_create_client_socket :: "socket \<Rightarrow> bool \<Rightarrow> socket \<times> event list" where
  "s_create_client_socket s bind_fails =
     (if s = INVALID_SOCKET then (INVALID_SOCKET, [])
      else let calls = [Ev_socket (Setsockopt_dual_stack s), Ev_socket (Ioctl_connreset s),
                        Ev_socket (Bind s \<lparr>sin6_family = AF_INET6, sin6_port = 0, sin6_flowinfo = 0,
                                           sin6_addr = zero_address, sin6_scope_id = 0\<rparr>)] in
        if bind_fails then (INVALID_SOCKET, calls @ [Ev_socket (Closesocket s)]) else (s, calls))"

text \<open>
  What the operating system does during a connection attempt: the socket, whether \<open>bind\<close> and
  \<open>WSASendTo\<close> fail, and the datagram \<open>recvfrom\<close> returns (\<open>None\<close> on a timeout or an error); the
  outcomes of the allocations; the contents of the buffers.
\<close>

record connect_outcome =
  co_socket :: socket
  co_bind_fails :: bool
  co_builder :: bool
  co_buf :: bytes
  co_send_fails :: bool
  co_reply :: "bytes option"
  co_recv_buf :: bytes
  co_body_buf :: bytes
  co_conn :: bool
  co_counter :: bool
  co_now :: u64

text \<open>The identifier in the answer, or nothing if the answer is not acceptable.\<close>

definition reply_id :: "krs_frame \<Rightarrow> u32 option option" where
  "reply_id frame =
     (if frame_protocol_char frame \<noteq> 0x4B \<or> frame_frame_type frame \<noteq> frame_type_code SOCKET_ACK \<or> frame_body_length frame < 4
      then Some None
      else do {
        body \<leftarrow> frame_body frame;
        b0 \<leftarrow> mem_get body 0;
        b1 \<leftarrow> mem_get body 1;
        b2 \<leftarrow> mem_get body 2;
        b3 \<leftarrow> mem_get body 3;
        Some (Some (or (or (or (push_bit 24 (ucast b0)) (push_bit 16 (ucast b1))) (push_bit 8 (ucast b2))) (ucast b3))) })"

text \<open>A connection as \<open>krs_client_server_connect\<close> initializes it.\<close>

definition new_server_connection :: "socket \<Rightarrow> port_address \<Rightarrow> u32 \<Rightarrow> packet_counter option \<Rightarrow> u64 \<Rightarrow> server_connection" where
  "new_server_connection sock addr cid counter now =
     \<lparr>cl_socket = sock, cl_server_address = addr, cl_connection_id = cid, cl_connected = True,
      cl_packet_counter = counter, cl_recv_thread = None, cl_running = False, cl_callback = None,
      cl_callback_user_data = 0, cl_reassembler = None, cl_ack_tracker = None, cl_congestion = None,
      cl_last_heartbeat_sent_ms = now, cl_delivery_failure_callback = None, cl_delivery_failure_callback_user_data = 0,
      cl_pending_subscribe_pid = 0, cl_subscribe_ack_received = False,
      cl_subscribed = replicate (MAX_CHANNEL_NUMBER + 1) False\<rparr>"

definition connect_fail ::
    "socket \<Rightarrow> event list \<Rightarrow> wsa_state \<Rightarrow> (server_connection option \<times> event list \<times> wsa_state) option" where
  "connect_fail sock evs wsa = Some (None, evs @ [Ev_socket (Closesocket sock)], krs_wsa_cleanup wsa)"

definition krs_client_server_connect ::
    "connect_outcome \<Rightarrow> port_address \<Rightarrow> wsa_state \<Rightarrow> (server_connection option \<times> event list \<times> wsa_state) option" where
  "krs_client_server_connect co server_address wsa =
     (let wsa = krs_wsa_init wsa;
          (sock, evs) = s_create_client_socket (co_socket co) (co_bind_fails co) in
      if sock = INVALID_SOCKET then Some (None, evs, krs_wsa_cleanup wsa)
      else case krs_frame_builder_create (co_builder co) 0 CONNECTION of
        None \<Rightarrow> connect_fail sock evs wsa
      | Some b \<Rightarrow> do {
          (n, buf) \<leftarrow> krs_frame_builder_serialize (Some b) (Some (co_buf co)) 64;
          if n = 0 then connect_fail sock evs wsa
          else do {
            buf \<leftarrow> buf;
            bs \<leftarrow> mem_read buf 0 (unat n);
            if co_send_fails co then connect_fail sock evs wsa
            else do {
              let evs = evs @ [Ev_send (sock, server_address, bs), Ev_socket (Setsockopt_rcvtimeo sock 5000)];
              case co_reply co of
                None \<Rightarrow> connect_fail sock evs wsa
              | Some reply \<Rightarrow> do {
                  recv_buf \<leftarrow> mem_write (co_recv_buf co) 0 reply;
                  frame \<leftarrow> krs_frame_create (Some recv_buf) (of_nat (length reply)) (Some (co_body_buf co)) 32;
                  connection_id \<leftarrow> reply_id frame;
                  case connection_id of
                    None \<Rightarrow> connect_fail sock evs wsa
                  | Some cid \<Rightarrow>
                      if \<not> co_conn co then connect_fail sock evs wsa
                      else Some (Some (new_server_connection sock server_address cid
                                         (krs_packet_counter_create (co_counter co)) (co_now co)), evs, wsa) } } } })"

section \<open>Sending\<close>

definition ensure_tracker :: "send_alloc \<Rightarrow> ack_tracker option \<Rightarrow> ack_tracker option" where
  "ensure_tracker al tracker =
     (if tracker = None then krs_ack_tracker_create (sd_tracker al) (sd_tracker_array al) (sd_tracker_cells al) 1000 5
      else tracker)"

text \<open>The congestion window of a reliable send.\<close>

definition client_window :: "send_alloc \<Rightarrow> server_connection \<Rightarrow> (bool \<times> server_connection) option" where
  "client_window al conn = do {
     let congestion = (if cl_congestion conn = None then krs_congestion_create (sd_congestion al) else cl_congestion conn);
     case congestion of
       None \<Rightarrow> Some (True, conn\<lparr>cl_congestion := None\<rparr>)
     | Some cc \<Rightarrow> do {
         can_send \<leftarrow> krs_congestion_can_send (Some cc);
         Some (can_send, conn\<lparr>cl_congestion := (if can_send then krs_congestion_on_send (Some cc) else Some cc)\<rparr>) } }"

definition client_send_whole ::
    "send_alloc \<Rightarrow> u64 \<Rightarrow> u8 \<Rightarrow> u64 \<Rightarrow> bytes \<Rightarrow> u16 \<Rightarrow> bool \<Rightarrow> server_connection \<Rightarrow>
     (void_r \<times> event list \<times> server_connection) option" where
  "client_send_whole al now channel pid data len require_ack conn =
     (case krs_frame_builder_create (sd_builder al) channel BASIC_MESSAGE of
        None \<Rightarrow> Some (krs_lib_error_result_base_w_msg KRS_ERR_MEMORY_ALLOCATION ''builder alloc failed'', [], conn)
      | Some b \<Rightarrow> do {
          let b = krs_frame_builder_set_packet_id (Some b) pid;
          let b = (if require_ack then krs_frame_builder_set_flag b META_FLAG_ACK_REQUIRED else b);
          let b = krs_frame_builder_set_data b (Some data) len;
          (n, buf) \<leftarrow> krs_frame_builder_serialize b (Some (sd_buf al)) (of_nat KRONOS_BUFFER_SIZE);
          if n = 0 then Some (krs_lib_error_result_base_w_msg KRS_ERR_BUFFER_TOO_SMALL ''serialize failed'', [], conn)
          else do {
            conn \<leftarrow> (if require_ack then do {
                let tracker = ensure_tracker al (cl_ack_tracker conn);
                tracker \<leftarrow> krs_ack_tracker_expect (sd_expect al 0) now tracker pid channel buf n;
                Some (conn\<lparr>cl_ack_tracker := tracker\<rparr>) }
              else Some conn);
            ds \<leftarrow> krs_net_send_frame (cl_socket conn) (Some (cl_server_address conn)) buf n;
            Some (krs_lib_error_result_base_suc, map Ev_send ds, conn) } })"

definition client_send_split ::
    "send_alloc \<Rightarrow> u64 \<Rightarrow> u8 \<Rightarrow> u64 \<Rightarrow> bytes \<Rightarrow> u16 \<Rightarrow> bool \<Rightarrow> server_connection \<Rightarrow>
     (void_r \<times> event list \<times> server_connection) option" where
  "client_send_split al now channel pid data len require_ack conn = do {
     let conn = (if require_ack then conn\<lparr>cl_ack_tracker := ensure_tracker al (cl_ack_tracker conn)\<rparr> else conn);
     frag \<leftarrow> krs_fragment_split (sd_split al) channel BASIC_MESSAGE pid (Some data) (ucast len) (of_nat KRS_DEFAULT_MTU)
              (if require_ack then push_bit META_FLAG_ACK_REQUIRED 1 else 0);
     if rb_error_code (fr_base frag) \<noteq> KRS_SUCCESS then Some (fr_base frag, [], conn)
     else do {
       tracker \<leftarrow> (if require_ack \<and> cl_ack_tracker conn \<noteq> None
                   then expect_fragments (sd_expect al) now pid channel frag 0 (unat (fr_count frag)) (cl_ack_tracker conn)
                   else Some (cl_ack_tracker conn));
       evs \<leftarrow> send_fragments (cl_socket conn) (cl_server_address conn) frag 0 (unat (fr_count frag));
       _ \<leftarrow> krs_fragment_result_destroy (Some frag);
       Some (krs_lib_error_result_base_suc, evs, conn\<lparr>cl_ack_tracker := tracker\<rparr>) } }"

definition krs_client_send ::
    "send_alloc \<Rightarrow> u64 \<Rightarrow> u8 \<Rightarrow> bytes option \<Rightarrow> u16 \<Rightarrow> bool \<Rightarrow> server_connection option \<Rightarrow>
     (void_r \<times> event list \<times> server_connection option) option" where
  "krs_client_send al now channel data len require_ack connection =
     (case (connection, data) of
        (Some conn, Some bytes) \<Rightarrow>
          if \<not> cl_connected conn
          then Some (krs_lib_error_result_base_w_msg KRS_ERR_CLIENT_NOT_CONNECTED ''not connected'', [], connection)
          else do {
            (pid, counter) \<leftarrow> krs_packet_counter_next (cl_packet_counter conn) channel;
            let conn = conn\<lparr>cl_packet_counter := counter\<rparr>;
            (can_send, conn) \<leftarrow> (if require_ack then client_window al conn else Some (True, conn));
            if \<not> can_send
            then Some (krs_lib_error_result_base_w_msg KRS_ERR_SERVER_CONGESTION_WINDOW_FULL ''congestion window full'', [],
                       Some conn)
            else do {
              (res, evs, conn) \<leftarrow> (if unat len \<le> KRS_MAX_PAYLOAD_PER_FRAGMENT
                 then client_send_whole al now channel pid bytes len require_ack conn
                 else client_send_split al now channel pid bytes len require_ack conn);
              Some (res, evs, Some conn) } }
      | _ \<Rightarrow> Some (krs_lib_error_result_base_w_msg KRS_ERR_NULL_POINTER ''conn or data is NULL'', [], connection))"

definition krs_client_send_blocking ::
    "server_connection option send_round list \<Rightarrow> u64 \<Rightarrow> u8 \<Rightarrow> bytes option \<Rightarrow> u16 \<Rightarrow> u32 \<Rightarrow> server_connection option \<Rightarrow>
     (void_r option \<times> event list \<times> u32 list \<times> server_connection option) option" where
  "krs_client_send_blocking rds start channel data len timeout_ms connection =
     send_blocking_loop (\<lambda>al now. krs_client_send al now channel data len True) rds (start + ucast timeout_ms) 1 connection"

section \<open>The receive thread\<close>

abbreviation (input) KRS_CLIENT_HEARTBEAT_INTERVAL_MS :: u64 where "KRS_CLIENT_HEARTBEAT_INTERVAL_MS \<equiv> 5000"

definition krs_client_set_callback ::
    "callback option \<Rightarrow> user_data \<Rightarrow> server_connection option \<Rightarrow> server_connection option" where
  "krs_client_set_callback cb ud connection =
     map_option (\<lambda>conn. conn\<lparr>cl_callback := cb, cl_callback_user_data := ud\<rparr>) connection"

definition s_client_send_ack ::
    "bool \<Rightarrow> bytes \<Rightarrow> socket \<Rightarrow> port_address \<Rightarrow> u8 \<Rightarrow> u64 \<Rightarrow> event list option" where
  "s_client_send_ack alloc junk sock addr channel packet_id =
     (case krs_frame_builder_create alloc channel MESSAGE_ACK of
        None \<Rightarrow> Some []
      | Some b \<Rightarrow> do {
          (n, buf) \<leftarrow> krs_frame_builder_serialize (krs_frame_builder_set_packet_id (Some b) packet_id) (Some junk) 64;
          if n = 0 then Some []
          else do { ds \<leftarrow> krs_net_send_frame sock (Some addr) buf n; Some (map Ev_send ds) } })"

text \<open>
  What one round of the thread meets: the readings of the clock, the datagram (\<open>None\<close> when \<open>recvfrom\<close>
  times out or fails), the outcomes of the allocations and the contents of the buffers.
\<close>

record recv_round =
  cr_now :: u64
  cr_hb_builder :: bool
  cr_hb_buf :: bytes
  cr_check_now :: u64
  cr_packet :: "bytes option"
  cr_raw :: bytes
  cr_body_buf :: bytes
  cr_recv_now :: u64
  cr_ack_builder :: bool
  cr_ack_buf :: bytes
  cr_reassembler :: bool
  cr_sessions :: bool
  cr_session_cells :: "fragment_session cells"
  cr_feed :: feed_alloc

definition client_heartbeat :: "recv_round \<Rightarrow> server_connection \<Rightarrow> (event list \<times> server_connection) option" where
  "client_heartbeat rd conn =
     (if cr_now rd - cl_last_heartbeat_sent_ms conn \<ge> KRS_CLIENT_HEARTBEAT_INTERVAL_MS then do {
        evs \<leftarrow> (case krs_frame_builder_create (cr_hb_builder rd) 1 HEARTBEAT of
                  None \<Rightarrow> Some []
                | Some b \<Rightarrow> do {
                    (n, buf) \<leftarrow> krs_frame_builder_serialize (Some b) (Some (cr_hb_buf rd)) 32;
                    ds \<leftarrow> krs_net_send_frame (cl_socket conn) (Some (cl_server_address conn)) buf n;
                    Some (map Ev_send ds) });
        Some (evs, conn\<lparr>cl_last_heartbeat_sent_ms := cr_now rd\<rparr>) }
      else Some ([], conn))"

text \<open>The frames to resend, looked up by packet identifier; there are at most 16.\<close>

fun client_resends ::
    "ack_tracker option \<Rightarrow> retry_out list \<Rightarrow> nat \<Rightarrow> nat \<Rightarrow> (bytes \<times> u16) list option" where
  "client_resends tracker retries r 0 = Some []"
| "client_resends tracker retries r (Suc n) = do {
     ro \<leftarrow> mem_get retries r;
     (frame_data, frame_size) \<leftarrow> krs_ack_tracker_get_retry_frame tracker (ro_id ro);
     rest \<leftarrow> client_resends tracker retries (Suc r) n;
     case frame_data of
       Some d \<Rightarrow> if frame_size > 0 \<and> unat frame_size \<le> KRONOS_BUFFER_SIZE
                 then do { bs \<leftarrow> mem_read d 0 (unat frame_size); Some ((bs, frame_size) # rest) }
                 else Some rest
     | None \<Rightarrow> Some rest }"

fun client_flush :: "socket \<Rightarrow> port_address \<Rightarrow> (bytes \<times> u16) list \<Rightarrow> event list option" where
  "client_flush sock addr [] = Some []"
| "client_flush sock addr ((bs, n) # rest) = do {
     ds \<leftarrow> krs_net_send_frame sock (Some addr) (Some bs) n;
     evs \<leftarrow> client_flush sock addr rest;
     Some (map Ev_send ds @ evs) }"

text \<open>The reaction of the controller to the entries reported.\<close>

definition client_loss :: "retry_out list \<Rightarrow> congestion_controller option \<Rightarrow> congestion_controller option" where
  "client_loss checked congestion =
     (let any_fast_retry = (\<exists>ro \<in> set checked. ro_was_fast ro);
          any_timeout_retry = (\<exists>ro \<in> set checked. \<not> ro_was_fast ro) in
      if congestion \<noteq> None \<and> (any_fast_retry \<or> any_timeout_retry)
      then if any_timeout_retry then krs_congestion_on_timeout_loss congestion
           else krs_congestion_on_fast_retransmit_loss congestion
      else congestion)"

definition client_retries :: "u64 \<Rightarrow> server_connection \<Rightarrow> (event list \<times> server_connection) option" where
  "client_retries now conn =
     (case cl_ack_tracker conn of
        None \<Rightarrow> Some ([], conn)
      | Some t \<Rightarrow> do {
          (out, tracker) \<leftarrow> krs_ack_tracker_check_timeouts now (Some t) True 16 True 16;
          let to_resend = (if to_retry_count out < 16 then to_retry_count out else 16);
          let conn = conn\<lparr>cl_ack_tracker := tracker,
                cl_congestion := client_loss (take (unat to_resend) (to_retries out)) (cl_congestion conn)\<rparr>;
          resends \<leftarrow> client_resends tracker (to_retries out) 0 (unat to_resend);
          evs \<leftarrow> client_flush (cl_socket conn) (cl_server_address conn) resends;
          Some (evs @ (case cl_delivery_failure_callback conn of
                         None \<Rightarrow> []
                       | Some cb \<Rightarrow> map (\<lambda>(pid, ch). Ev_delivery_failure cb (cl_connection_id conn) ch pid
                                      (cl_delivery_failure_callback_user_data conn)) (to_dropped out)), conn) })"

text \<open>An acknowledgement.\<close>

definition client_ack :: "u64 \<Rightarrow> krs_frame \<Rightarrow> server_connection \<Rightarrow> server_connection option" where
  "client_ack now frame conn = do {
     (rtt_ms, tracker) \<leftarrow> (case cl_ack_tracker conn of
        None \<Rightarrow> Some (- 1, None)
      | Some t \<Rightarrow> krs_ack_tracker_receive_rtt now (Some t) (frame_packet_id frame) (frame_channel frame));
     let conn = conn\<lparr>cl_ack_tracker := tracker\<rparr>;
     conn \<leftarrow> (if rtt_ms \<ge> 0 \<and> cl_congestion conn \<noteq> None then do {
         let cc = krs_congestion_on_ack (cl_congestion conn) rtt_ms;
         tracker \<leftarrow> (if cl_ack_tracker conn \<noteq> None then do {
                       new_timeout \<leftarrow> u32_of_double (krs_congestion_get_rto cc);
                       Some (krs_ack_tracker_set_timeout (cl_ack_tracker conn) new_timeout) }
                     else Some None);
         Some (conn\<lparr>cl_congestion := cc, cl_ack_tracker := tracker\<rparr>) }
       else Some conn);
     Some (if cl_pending_subscribe_pid conn \<noteq> 0 \<and> frame_packet_id frame = cl_pending_subscribe_pid conn
           then conn\<lparr>cl_subscribe_ack_received := True\<rparr> else conn) }"

definition client_message :: "server_connection \<Rightarrow> u8 \<Rightarrow> bytes option \<Rightarrow> u16 \<Rightarrow> event list" where
  "client_message conn channel data len =
     (case cl_callback conn of
        None \<Rightarrow> []
      | Some cb \<Rightarrow> [Ev_message cb channel (cl_connection_id conn) data len (cl_callback_user_data conn)])"

text \<open>A message on a subscribed channel, whole or a fragment.\<close>

definition client_deliver :: "recv_round \<Rightarrow> krs_frame \<Rightarrow> server_connection \<Rightarrow> (event list \<times> server_connection) option" where
  "client_deliver rd frame conn =
     (if \<not> has_flag (frame_presence_flags frame) META_FLAG_FRAGMENT_INFO then do {
        acks \<leftarrow> (if has_flag (frame_presence_flags frame) META_FLAG_ACK_REQUIRED
                 then s_client_send_ack (cr_ack_builder rd) (cr_ack_buf rd) (cl_socket conn) (cl_server_address conn)
                        (frame_channel frame) (frame_packet_id frame)
                 else Some []);
        Some (acks @ client_message conn (frame_channel frame) (frame_body frame) (frame_body_length frame), conn) }
      else do {
        let conn = (if cl_reassembler conn = None
                    then conn\<lparr>cl_reassembler := krs_reassembler_create (cr_reassembler rd) (cr_sessions rd) (cr_session_cells rd)\<rparr>
                    else conn);
        if cl_reassembler conn = None then Some ([], conn)
        else do {
          (reassembly, re) \<leftarrow> krs_reassembler_feed (cr_feed rd) (cr_recv_now rd) (cl_reassembler conn) (Some frame);
          let conn = conn\<lparr>cl_reassembler := re\<rparr>;
          if \<not> rr_complete reassembly then Some ([], conn)
          else do {
            acks \<leftarrow> (if rr_ack_required reassembly
                     then s_client_send_ack (cr_ack_builder rd) (cr_ack_buf rd) (cl_socket conn) (cl_server_address conn)
                            (frame_channel frame) (frame_packet_id frame)
                     else Some []);
            Some (acks @ client_message conn (frame_channel frame) (rr_data reassembly) (ucast (rr_data_length reassembly)),
                  conn) } } })"

text \<open>What the thread does with a datagram.\<close>

definition client_receive :: "recv_round \<Rightarrow> bytes \<Rightarrow> server_connection \<Rightarrow> (event list \<times> server_connection) option" where
  "client_receive rd packet conn = do {
     raw \<leftarrow> mem_write (cr_raw rd) 0 packet;
     frame \<leftarrow> krs_frame_create (Some raw) (of_nat (length packet)) (Some (cr_body_buf rd)) (of_nat KRONOS_BUFFER_SIZE);
     if frame_protocol_char frame \<noteq> 0x4B then Some ([], conn)
     else if frame_body_length frame > 0 \<and> frame_body frame = None then Some ([], conn)
     else if frame_frame_type frame = frame_type_code MESSAGE_ACK
     then do { conn \<leftarrow> client_ack (cr_recv_now rd) frame conn; Some ([], conn) }
     else if frame_channel frame < 10 then Some ([], conn)
     else do {
       is_subscribed \<leftarrow> mem_get (cl_subscribed conn) (unat (frame_channel frame));
       if \<not> is_subscribed then Some ([], conn) else client_deliver rd frame conn } }"

text \<open>One round of the loop of the thread.\<close>

definition client_recv_round :: "recv_round \<Rightarrow> server_connection \<Rightarrow> (event list \<times> server_connection) option" where
  "client_recv_round rd conn = do {
     (hb, conn) \<leftarrow> client_heartbeat rd conn;
     (resent, conn) \<leftarrow> client_retries (cr_check_now rd) conn;
     case cr_packet rd of
       None \<Rightarrow> Some (hb @ resent, conn)
     | Some packet \<Rightarrow>
         if packet = [] then Some (hb @ resent, conn)
         else do { (evs, conn) \<leftarrow> client_receive rd packet conn; Some (hb @ resent @ evs, conn) } }"

text \<open>
  The loop: in each round the other threads act first. The flag says whether the loop has ended.
\<close>

fun client_recv_loop ::
    "((server_connection \<Rightarrow> server_connection) \<times> recv_round) list \<Rightarrow> server_connection \<Rightarrow>
     (bool \<times> event list \<times> server_connection) option" where
  "client_recv_loop [] conn = Some (\<not> cl_running conn, [], conn)"
| "client_recv_loop ((others, rd) # rds) conn =
     (let conn = others conn in
      if \<not> cl_running conn then Some (True, [], conn)
      else do {
        (evs, conn) \<leftarrow> client_recv_round rd conn;
        (ended, evs', conn) \<leftarrow> client_recv_loop rds conn;
        Some (ended, evs @ evs', conn) })"

definition s_client_recv_thread ::
    "((server_connection \<Rightarrow> server_connection) \<times> recv_round) list \<Rightarrow> server_connection \<Rightarrow>
     (bool \<times> event list \<times> server_connection) option" where
  "s_client_recv_thread rds conn = do {
     (ended, evs, conn') \<leftarrow> client_recv_loop rds conn;
     Some (ended, Ev_socket (Setsockopt_rcvtimeo (cl_socket conn) 100) # evs, conn') }"

text \<open>\<open>handle\<close> is what \<open>CreateThread\<close> returns.\<close>

definition krs_client_start_receive ::
    "u64 option \<Rightarrow> server_connection option \<Rightarrow> void_r \<times> server_connection option" where
  "krs_client_start_receive handle connection =
     (case connection of
        None \<Rightarrow> (krs_lib_error_result_base_w_msg KRS_ERR_NULL_POINTER ''conn is NULL'', None)
      | Some conn \<Rightarrow>
          if \<not> cl_connected conn
          then (krs_lib_error_result_base_w_msg KRS_ERR_CLIENT_NOT_CONNECTED ''not connected'', connection)
          else if cl_recv_thread conn \<noteq> None
          then (krs_lib_error_result_base_w_msg KRS_ERR_ALREADY_INITIALIZED ''already receiving'', connection)
          else if handle = None
          then (krs_lib_error_result_base_w_msg KRS_ERR_PLATFORM_WINDOWS_SOCKET ''CreateThread failed'',
                Some (conn\<lparr>cl_running := False, cl_recv_thread := None\<rparr>))
          else (krs_lib_error_result_base_suc, Some (conn\<lparr>cl_running := True, cl_recv_thread := handle\<rparr>)))"

section \<open>Subscriptions\<close>

text \<open>The frame of a request and the connection after its packet identifier is drawn.\<close>

definition subscription_frame ::
    "bool \<Rightarrow> bytes \<Rightarrow> frame_type_e \<Rightarrow> bool \<Rightarrow> u8 \<Rightarrow> server_connection \<Rightarrow>
     ((u64 \<times> u16 \<times> bytes option) option \<times> server_connection) option" where
  "subscription_frame alloc junk type ack channel conn =
     (case krs_frame_builder_create alloc 0 type of
        None \<Rightarrow> Some (None, conn)
      | Some b \<Rightarrow> do {
          let b = krs_frame_builder_set_data (Some b) (Some [channel]) 1;
          let b = (if ack then krs_frame_builder_set_flag b META_FLAG_ACK_REQUIRED else b);
          (pid, counter) \<leftarrow> krs_packet_counter_next (cl_packet_counter conn) 0;
          (n, buf) \<leftarrow> krs_frame_builder_serialize (krs_frame_builder_set_packet_id b pid) (Some junk) 64;
          Some (Some (pid, n, buf), conn\<lparr>cl_packet_counter := counter\<rparr>) })"

definition krs_client_unsubscribe ::
    "bool \<Rightarrow> bytes \<Rightarrow> u8 \<Rightarrow> server_connection option \<Rightarrow> (void_r \<times> event list \<times> server_connection option) option" where
  "krs_client_unsubscribe alloc junk channel connection =
     (case connection of
        None \<Rightarrow> Some (krs_lib_error_result_base_w_msg KRS_ERR_NULL_POINTER ''conn is NULL'', [], None)
      | Some conn \<Rightarrow>
          if \<not> cl_connected conn
          then Some (krs_lib_error_result_base_w_msg KRS_ERR_CLIENT_NOT_CONNECTED ''not connected'', [], connection)
          else do {
            (request, conn) \<leftarrow> subscription_frame alloc junk UNSUBSCRIBE False channel conn;
            case request of
              None \<Rightarrow> Some (krs_lib_error_result_base_w_msg KRS_ERR_MEMORY_ALLOCATION ''builder alloc failed'', [], Some conn)
            | Some (pid, n, buf) \<Rightarrow>
                if n = 0 then Some (krs_lib_error_result_base_w_msg KRS_ERR_BUFFER_TOO_SMALL ''serialize failed'', [], Some conn)
                else do {
                  subscribed \<leftarrow> mem_set (cl_subscribed conn) (unat channel) False;
                  ds \<leftarrow> krs_net_send_frame (cl_socket conn) (Some (cl_server_address conn)) buf n;
                  Some (krs_lib_error_result_base_suc, map Ev_send ds, Some (conn\<lparr>cl_subscribed := subscribed\<rparr>)) } })"

text \<open>
  Waiting for the receive thread to see the acknowledgement. Each round has what the other threads do
  before it and the reading of the clock; the result is \<open>None\<close> while the wait has not ended.
\<close>

fun subscribe_wait ::
    "((server_connection \<Rightarrow> server_connection) \<times> u64) list \<Rightarrow> u64 \<Rightarrow> u8 \<Rightarrow> server_connection \<Rightarrow>
     (void_r option \<times> server_connection) option" where
  "subscribe_wait [] deadline channel conn = Some (None, conn)"
| "subscribe_wait ((others, now) # rds) deadline channel conn =
     (let conn = others conn in
      if now \<ge> deadline
      then Some (Some (krs_lib_error_result_base_w_msg KRS_ERR_CLIENT_TIMEOUT ''subscribe ACK timeout''),
                 conn\<lparr>cl_pending_subscribe_pid := 0, cl_subscribe_ack_received := False\<rparr>)
      else if cl_subscribe_ack_received conn then do {
        subscribed \<leftarrow> mem_set (cl_subscribed conn) (unat channel) True;
        Some (Some krs_lib_error_result_base_suc,
              conn\<lparr>cl_pending_subscribe_pid := 0, cl_subscribe_ack_received := False, cl_subscribed := subscribed\<rparr>) }
      else subscribe_wait rds deadline channel conn)"

text \<open>
  Without the receive thread the call reads the socket itself: each round has the reading of the clock
  and the datagram; \<open>recv_buf\<close> and \<open>body_buf\<close> are its buffers of 128 and 64 bytes.
\<close>

fun subscribe_poll ::
    "(u64 \<times> bytes option) list \<Rightarrow> bytes \<Rightarrow> bytes \<Rightarrow> u64 \<Rightarrow> u64 \<Rightarrow> u8 \<Rightarrow> server_connection \<Rightarrow>
     (void_r option \<times> server_connection) option" where
  "subscribe_poll [] recv_buf body_buf deadline pid channel conn = Some (None, conn)"
| "subscribe_poll ((now, packet) # rds) recv_buf body_buf deadline pid channel conn =
     (if now \<ge> deadline
      then Some (Some (krs_lib_error_result_base_w_msg KRS_ERR_CLIENT_TIMEOUT ''subscribe ACK timeout''), conn)
      else case packet of
        None \<Rightarrow> subscribe_poll rds recv_buf body_buf deadline pid channel conn
      | Some p \<Rightarrow>
          if p = [] then subscribe_poll rds recv_buf body_buf deadline pid channel conn
          else do {
            buf \<leftarrow> mem_write recv_buf 0 p;
            reply \<leftarrow> krs_frame_create (Some buf) (of_nat (length p)) (Some body_buf) 64;
            if frame_protocol_char reply = 0x4B \<and> frame_frame_type reply = frame_type_code MESSAGE_ACK \<and>
               frame_packet_id reply = pid
            then do {
              subscribed \<leftarrow> mem_set (cl_subscribed conn) (unat channel) True;
              Some (Some krs_lib_error_result_base_suc, conn\<lparr>cl_subscribed := subscribed\<rparr>) }
            else subscribe_poll rds recv_buf body_buf deadline pid channel conn })"

record subscribe_outcome =
  sb_alloc :: send_alloc
  sb_expect_now :: u64
  sb_start :: u64
  sb_waits :: "((server_connection \<Rightarrow> server_connection) \<times> u64) list"
  sb_polls :: "(u64 \<times> bytes option) list"
  sb_old_timeout :: u32
  sb_recv_buf :: bytes
  sb_body_buf :: bytes

definition krs_client_subscribe ::
    "subscribe_outcome \<Rightarrow> u8 \<Rightarrow> u32 \<Rightarrow> server_connection option \<Rightarrow>
     (void_r option \<times> event list \<times> server_connection option) option" where
  "krs_client_subscribe sb channel timeout_ms connection =
     (case connection of
        None \<Rightarrow> Some (Some (krs_lib_error_result_base_w_msg KRS_ERR_NULL_POINTER ''conn is NULL''), [], None)
      | Some conn \<Rightarrow>
          if \<not> cl_connected conn
          then Some (Some (krs_lib_error_result_base_w_msg KRS_ERR_CLIENT_NOT_CONNECTED ''not connected''), [], connection)
          else if channel < 10
          then Some (Some (krs_lib_error_result_base_w_msg KRS_ERR_INVALID_PARAMETER ''channel must be >= 10''), [], connection)
          else do {
            (request, conn) \<leftarrow> subscription_frame (sd_builder (sb_alloc sb)) (sd_buf (sb_alloc sb)) SUBSCRIBE True channel conn;
            case request of
              None \<Rightarrow> Some (Some (krs_lib_error_result_base_w_msg KRS_ERR_MEMORY_ALLOCATION ''builder alloc failed''), [], Some conn)
            | Some (pid, n, buf) \<Rightarrow>
                if n = 0
                then Some (Some (krs_lib_error_result_base_w_msg KRS_ERR_BUFFER_TOO_SMALL ''serialize failed''), [], Some conn)
                else if cl_recv_thread conn \<noteq> None then do {
                  tracker \<leftarrow> krs_ack_tracker_expect (sd_expect (sb_alloc sb) 0) (sb_expect_now sb)
                               (ensure_tracker (sb_alloc sb) (cl_ack_tracker conn)) pid 0 buf n;
                  ds \<leftarrow> krs_net_send_frame (cl_socket conn) (Some (cl_server_address conn)) buf n;
                  (res, conn) \<leftarrow> subscribe_wait (sb_waits sb) (sb_start sb + ucast timeout_ms) channel
                     (conn\<lparr>cl_ack_tracker := tracker, cl_pending_subscribe_pid := pid, cl_subscribe_ack_received := False\<rparr>);
                  Some (res, map Ev_send ds, Some conn) }
                else do {
                  ds \<leftarrow> krs_net_send_frame (cl_socket conn) (Some (cl_server_address conn)) buf n;
                  (res, conn) \<leftarrow> subscribe_poll (sb_polls sb) (sb_recv_buf sb) (sb_body_buf sb)
                     (sb_start sb + ucast timeout_ms) pid channel conn;
                  Some (res, Ev_socket (Setsockopt_rcvtimeo (cl_socket conn) timeout_ms) # map Ev_send ds @
                     (if res = None then [] else [Ev_socket (Setsockopt_rcvtimeo (cl_socket conn) (sb_old_timeout sb))]),
                     Some conn) } })"

section \<open>Disconnecting and settings\<close>

text \<open>
  \<open>alloc\<close> and \<open>junk\<close> are the allocation of the builder and its buffer; \<open>others\<close> is what the receive
  thread still does before it ends.
\<close>

definition krs_client_disconnect ::
    "bool \<Rightarrow> bytes \<Rightarrow> (server_connection \<Rightarrow> server_connection) \<Rightarrow> wsa_state \<Rightarrow> server_connection option option \<Rightarrow>
     (event list \<times> wsa_state \<times> server_connection option option) option" where
  "krs_client_disconnect alloc junk others wsa connection =
     (case connection of
        Some (Some conn) \<Rightarrow> do {
          (evs, conn) \<leftarrow> (if cl_connected conn \<and> cl_socket conn \<noteq> INVALID_SOCKET then do {
               evs \<leftarrow> (case krs_frame_builder_create alloc 0 DISCONNECT of
                         None \<Rightarrow> Some []
                       | Some b \<Rightarrow> do {
                           (n, buf) \<leftarrow> krs_frame_builder_serialize (Some b) (Some junk) 32;
                           ds \<leftarrow> krs_net_send_frame (cl_socket conn) (Some (cl_server_address conn)) buf n;
                           Some (map Ev_send ds) });
               Some (evs, conn\<lparr>cl_connected := False\<rparr>) }
             else Some ([], conn));
          let conn = (if cl_recv_thread conn \<noteq> None
                      then (others (conn\<lparr>cl_running := False\<rparr>))\<lparr>cl_recv_thread := None\<rparr> else conn);
          (_, reassembler) \<leftarrow> krs_reassembler_destroy (cl_reassembler conn);
          let conn = conn\<lparr>cl_reassembler := reassembler, cl_congestion := krs_congestion_destroy (cl_congestion conn)\<rparr>;
          (_, tracker) \<leftarrow> krs_ack_tracker_destroy (cl_ack_tracker conn);
          let conn = conn\<lparr>cl_ack_tracker := tracker, cl_packet_counter := krs_packet_counter_destroy (cl_packet_counter conn)\<rparr>;
          Some (evs @ (if cl_socket conn \<noteq> INVALID_SOCKET then [Ev_socket (Closesocket (cl_socket conn))] else []),
                krs_wsa_cleanup wsa, Some None) }
      | _ \<Rightarrow> Some ([], wsa, connection))"

definition krs_client_set_delivery_failure_callback ::
    "callback option \<Rightarrow> user_data \<Rightarrow> server_connection option \<Rightarrow> server_connection option" where
  "krs_client_set_delivery_failure_callback cb ud connection =
     map_option (\<lambda>conn. conn\<lparr>cl_delivery_failure_callback := cb, cl_delivery_failure_callback_user_data := ud\<rparr>) connection"

definition krs_client_is_subscribed :: "u8 \<Rightarrow> server_connection option \<Rightarrow> bool option" where
  "krs_client_is_subscribed channel connection =
     (case connection of
        None \<Rightarrow> Some False
      | Some conn \<Rightarrow> if channel < 10 then Some False else mem_get (cl_subscribed conn) (unat channel))"

section \<open>Invariant and frames\<close>

definition client_inv :: "server_connection \<Rightarrow> bool" where
  "client_inv conn \<longleftrightarrow> length (cl_subscribed conn) = 256 \<and>
     (\<forall>pc. cl_packet_counter conn = Some pc \<longrightarrow> length (pc_counters pc) = 256) \<and>
     (\<forall>t. cl_ack_tracker conn = Some t \<longrightarrow> ack_wf t) \<and>
     (\<forall>cc. cl_congestion conn = Some cc \<longrightarrow> (\<exists>n. cc_reach n cc)) \<and>
     (\<forall>re. cl_reassembler conn = Some re \<longrightarrow> re_wf re)"

text \<open>The parts of a connection that only calls of the application change.\<close>

definition same_client :: "server_connection \<Rightarrow> server_connection \<Rightarrow> bool" where
  "same_client c c' \<longleftrightarrow> cl_socket c' = cl_socket c \<and> cl_server_address c' = cl_server_address c \<and>
     cl_connection_id c' = cl_connection_id c \<and> cl_connected c' = cl_connected c \<and> cl_recv_thread c' = cl_recv_thread c \<and>
     cl_running c' = cl_running c \<and> cl_callback c' = cl_callback c \<and> cl_callback_user_data c' = cl_callback_user_data c \<and>
     cl_subscribed c' = cl_subscribed c"

lemma same_client_refl [simp]: "same_client c c"
  by (simp add: same_client_def)

lemma same_client_trans: "same_client a b \<Longrightarrow> same_client b c \<Longrightarrow> same_client a c"
  by (simp add: same_client_def)

lemma frame_out:
  assumes "fb_wf b" and "length (wire_frame b) \<le> unat sz" and "unat sz \<le> length junk"
  shows "krs_frame_builder_serialize (Some b) (Some junk) sz =
      Some (of_nat (length (wire_frame b)), Some (wire_frame b @ drop (length (wire_frame b)) junk))"
    and "of_nat (length (wire_frame b)) \<noteq> (0 :: u16)"
    and "unat (of_nat (length (wire_frame b)) :: u16) = length (wire_frame b)"
    and "krs_net_send_frame sock (Some addr) (Some (wire_frame b @ drop (length (wire_frame b)) junk))
      (of_nat (length (wire_frame b))) = Some [(sock, addr, wire_frame b)]"
proof -
  have len: "length (wire_frame b) = 14 + metadata_length (fb_presence_flags b) + unat (fb_data_length b)"
    using assms(1) by (simp add: wire_frame_def length_wire_metadata fb_wf_def)
  have small: "length (wire_frame b) < 65536" using assms(2) unat_less_power_u16 [of sz] by simp
  show "krs_frame_builder_serialize (Some b) (Some junk) sz =
      Some (of_nat (length (wire_frame b)), Some (wire_frame b @ drop (length (wire_frame b)) junk))"
    using assms small len by (intro serialize_wire) simp_all
  show u: "unat (of_nat (length (wire_frame b)) :: u16) = length (wire_frame b)" using small by (intro unat_of_nat_small) simp
  then show "of_nat (length (wire_frame b)) \<noteq> (0 :: u16)" using len by (metis add_is_0 unat_0 zero_neq_numeral)
  show "krs_net_send_frame sock (Some addr) (Some (wire_frame b @ drop (length (wire_frame b)) junk))
      (of_nat (length (wire_frame b))) = Some [(sock, addr, wire_frame b)]"
    using len small by (intro send_frame_bytes) auto
qed

text \<open>Frames without data.\<close>

abbreviation bare_builder :: "u8 \<Rightarrow> frame_type_e \<Rightarrow> frame_builder" where
  "bare_builder ch ty \<equiv> \<lparr>fb_channel = ch, fb_type = ty, fb_packet_id = 0, fb_presence_flags = 0, fb_metadata = metadata_zero,
     fb_data = None, fb_data_length = 0\<rparr>"

lemma bare_wire: "wire_frame (bare_builder ch ty) = wire_header ch ty 0 0" "fb_wf (bare_builder ch ty)"
  by (simp_all add: wire_frame_def metadata_length_0 fb_payload_def fb_wf_def)

lemma bare_out:
  assumes "14 \<le> unat sz" and "unat sz \<le> length junk"
  shows "krs_frame_builder_serialize (Some (bare_builder ch ty)) (Some junk) sz =
      Some (14, Some (wire_header ch ty 0 0 @ drop 14 junk))"
    and "krs_net_send_frame sock (Some addr) (Some (wire_header ch ty 0 0 @ drop 14 junk)) 14 =
      Some [(sock, addr, wire_header ch ty 0 0)]"
  using frame_out [OF bare_wire(2) _ assms(2), of ch ty] assms(1) by (simp_all add: bare_wire)

lemma client_heartbeat_spec:
  assumes "32 \<le> length (cr_hb_buf rd)"
  shows "client_heartbeat rd conn =
    (if cr_now rd - cl_last_heartbeat_sent_ms conn \<ge> 5000
     then Some (if cr_hb_builder rd then [Ev_send (cl_socket conn, cl_server_address conn, wire_header 1 HEARTBEAT 0 0)] else [],
                conn\<lparr>cl_last_heartbeat_sent_ms := cr_now rd\<rparr>)
     else Some ([], conn))"
  using bare_out(1) [of 32 "cr_hb_buf rd" 1 HEARTBEAT]
    bare_out(2) [where sz = 32 and junk = "cr_hb_buf rd" and ch = 1 and ty = HEARTBEAT] assms
  by (simp add: client_heartbeat_def krs_frame_builder_create_def)

lemma client_ack_out:
  assumes "64 \<le> length junk"
  shows "s_client_send_ack alloc junk sock addr ch pid = Some (if alloc then [Ev_send (sock, addr, ack_frame ch pid)] else [])"
  using s_send_ack_response_spec [OF assms, of alloc "zero_descriptor\<lparr>ds_udp_socket_ref := sock\<rparr>" addr ch pid]
  by (simp add: s_client_send_ack_def s_send_ack_response_def cong: option.case_cong if_cong)

section \<open>Retransmissions and acknowledgements\<close>

lemma get_retry_frame_ok:
  assumes "ack_wf t"
  shows "\<exists>d n. krs_ack_tracker_get_retry_frame (Some t) pid = Some (d, n) \<and> (\<forall>bs. d = Some bs \<longrightarrow> length bs = unat n)"
proof -
  note wf = ack_wfD [OF assms]
  let ?P = "\<lambda>e. ae_packet_id e = pid \<and> \<not> (ae_frame_data e = None \<or> ae_frame_size e = 0)"
  show ?thesis
  proof (cases "find_index ?P (pending_entries t)")
    case None
    then show ?thesis using kra.find_all [OF wf(1) refl, of ?P]
      by (simp add: krs_ack_tracker_get_retry_frame_def pending_length [OF wf(1)])
  next
    case (Some i)
    then have i: "i < length (pending_entries t)" unfolding find_index_Some_iff by blast
    let ?e = "pending_entries t ! i"
    have "krs_ack_tracker_get_retry_frame (Some t) pid = Some (ae_frame_data ?e, ae_frame_size ?e)"
      using kra.find_all [OF wf(1) refl, of ?P] kra.at_nth [OF wf(1) i] Some
      by (simp add: krs_ack_tracker_get_retry_frame_def pending_length [OF wf(1)])
    with entry_okD(2) [OF wf(2) [OF nth_mem [OF i]]] show ?thesis by auto
  qed
qed

definition resends_ok :: "(bytes \<times> u16) list \<Rightarrow> bool" where
  "resends_ok xs \<longleftrightarrow> (\<forall>(bs, n) \<in> set xs. length bs = unat n \<and> 0 < n \<and> unat n \<le> KRONOS_BUFFER_SIZE)"

lemma client_resends_spec:
  assumes "ack_wf t" and "r + n \<le> length retries"
  shows "\<exists>xs. client_resends (Some t) retries r n = Some xs \<and> length xs \<le> n \<and> resends_ok xs"
  using assms(2)
proof (induction n arbitrary: r)
  case (Suc n)
  obtain ro where ro: "mem_get retries r = Some ro" using Suc.prems by (auto simp: mem_get_def)
  obtain d sz where d: "krs_ack_tracker_get_retry_frame (Some t) (ro_id ro) = Some (d, sz)"
      "\<And>bs. d = Some bs \<Longrightarrow> length bs = unat sz" using get_retry_frame_ok [OF assms(1)] by blast
  obtain xs where xs: "client_resends (Some t) retries (Suc r) n = Some xs" "length xs \<le> n" "resends_ok xs"
    using Suc.IH [of "Suc r"] Suc.prems by auto
  show ?case
  proof (cases "\<exists>bs. d = Some bs \<and> 0 < sz \<and> unat sz \<le> 1500")
    case True
    then obtain bs where bs: "d = Some bs" "0 < sz" "unat sz \<le> 1500" by blast
    then have "mem_read bs 0 (unat sz) = Some bs" using d(2) by (intro mem_read_all) simp
    with ro d(1) xs bs show ?thesis
      by (intro exI [of _ "(bs, sz) # xs"]) (simp add: resends_ok_def d(2))
  next
    case False
    then show ?thesis using ro d(1) xs by (intro exI [of _ xs]) (auto split: option.split)
  qed
qed (simp add: resends_ok_def)

lemma client_flush_spec:
  assumes "resends_ok xs"
  shows "client_flush sock addr xs = Some (map (\<lambda>(bs, n). Ev_send (sock, addr, bs)) xs)"
  using assms
proof (induction xs)
  case (Cons x xs)
  obtain bs n where x: "x = (bs, n)" by (cases x)
  have ok: "length bs = unat n" "0 < n" and rest: "resends_ok xs" using Cons.prems by (auto simp: resends_ok_def x)
  then have "bs \<noteq> []" by (auto simp: word_less_nat_alt)
  then have "krs_net_send_frame sock (Some addr) (Some bs) n = Some [(sock, addr, bs)]" using ok by (intro net_send_all) simp_all
  with Cons.IH [OF rest] show ?case by (simp add: x)
qed simp

lemma client_retries_safe:
  assumes "client_inv conn"
  shows "\<exists>xs failed tr cc. client_retries now conn =
      Some (map (\<lambda>(bs, n). Ev_send (cl_socket conn, cl_server_address conn, bs)) xs @ failed,
            conn\<lparr>cl_ack_tracker := tr, cl_congestion := cc\<rparr>) \<and>
    client_inv (conn\<lparr>cl_ack_tracker := tr, cl_congestion := cc\<rparr>) \<and> length xs \<le> 16 \<and> resends_ok xs \<and>
    (\<forall>e \<in> set failed. \<exists>cb i ch pid ud. e = Ev_delivery_failure cb i ch pid ud)"
proof (cases "cl_ack_tracker conn")
  case None
  then have "client_retries now conn = Some ([], conn\<lparr>cl_ack_tracker := None, cl_congestion := cl_congestion conn\<rparr>)"
    by (simp add: client_retries_def)
  with assms None show ?thesis
    by (intro exI [of _ "[]"] exI [of _ "[]"] exI [of _ None] exI [of _ "cl_congestion conn"])
       (simp add: resends_ok_def client_inv_def)
next
  case (Some t)
  then have wf: "ack_wf t" using assms by (simp add: client_inv_def)
  let ?rs = "retry_list now t (pending_entries t)"
  obtain out a where out: "krs_ack_tracker_check_timeouts now (Some t) True 16 True 16 = Some (out, Some (t\<lparr>at_pending := a\<rparr>))"
      "unat (to_retry_count out) = length ?rs" "to_retries out = take 16 ?rs"
    using check_timeouts_pending [OF ack_wfD(1) [OF wf], of now 16 True 16] by auto
  let ?n = "unat (if to_retry_count out < 16 then to_retry_count out else 16)"
  have n: "?n = length (to_retries out)" by (simp add: out(2,3) word_less_nat_alt)
  have wf': "ack_wf (t\<lparr>at_pending := a\<rparr>)" by (rule check_timeouts_wf [OF wf out(1)])
  obtain xs where xs: "client_resends (Some (t\<lparr>at_pending := a\<rparr>)) (to_retries out) 0 ?n = Some xs" "length xs \<le> ?n" "resends_ok xs"
    using client_resends_spec [OF wf', of 0 ?n "to_retries out"] n by auto
  have len: "length xs \<le> 16" using xs(2) unfolding n out(3) by simp
  define cc where "cc = client_loss (to_retries out) (cl_congestion conn)"
  let ?conn = "conn\<lparr>cl_ack_tracker := Some (t\<lparr>at_pending := a\<rparr>), cl_congestion := cc\<rparr>"
  let ?failed = "case cl_delivery_failure_callback conn of None \<Rightarrow> []
     | Some cb \<Rightarrow> map (\<lambda>(pid, ch). Ev_delivery_failure cb (cl_connection_id conn) ch pid
         (cl_delivery_failure_callback_user_data conn)) (to_dropped out)"
  have run: "client_retries now conn = Some (map (\<lambda>(bs, n). Ev_send (cl_socket conn, cl_server_address conn, bs)) xs @ ?failed, ?conn)"
    using Some out(1) xs(1) client_flush_spec [OF xs(3)]
    by (simp add: client_retries_def n cc_def Let_def cong: option.case_cong)
  have "\<exists>k. cc_reach k c" if "cc = Some c" for c
  proof (cases "cl_congestion conn")
    case None
    then show ?thesis using that by (simp add: cc_def client_loss_def)
  next
    case cc0: (Some c0)
    then obtain k where k: "cc_reach k c0" using assms by (auto simp: client_inv_def)
    have "krs_congestion_on_timeout_loss (Some c0) = Some c \<or> krs_congestion_on_fast_retransmit_loss (Some c0) = Some c \<or> c = c0"
      using that cc0 by (auto simp: cc_def client_loss_def Let_def split: if_splits)
    with k show ?thesis by (blast intro: cc_reach.timeout cc_reach.fast)
  qed
  then have "client_inv ?conn" using assms wf' by (simp add: client_inv_def)
  moreover have "\<forall>e \<in> set ?failed. \<exists>cb i ch pid ud. e = Ev_delivery_failure cb i ch pid ud" by (auto split: option.splits)
  ultimately show ?thesis using run len xs(3) by blast
qed

text \<open>Acknowledgements change the tracker and the controller as on the server.\<close>

definition as_client :: "server_connection \<Rightarrow> client_connection" where
  "as_client conn = (new_connection (cl_connection_id conn) (cl_server_address conn) 0)
     \<lparr>cn_congestion := cl_congestion conn, cn_ack_tracker := cl_ack_tracker conn\<rparr>"

definition subscribe_seen :: "u64 \<Rightarrow> server_connection \<Rightarrow> bool" where
  "subscribe_seen pid conn \<longleftrightarrow> cl_subscribe_ack_received conn \<or> (cl_pending_subscribe_pid conn \<noteq> 0 \<and> pid = cl_pending_subscribe_pid conn)"

lemma client_ack_received:
  assumes "client_inv conn" and "ack_received now f (as_client conn) = Some c"
  shows "client_ack now f conn = Some (conn\<lparr>cl_ack_tracker := cn_ack_tracker c, cl_congestion := cn_congestion c,
     cl_subscribe_ack_received := subscribe_seen (frame_packet_id f) conn\<rparr>)"
proof (cases "cl_ack_tracker conn")
  case None
  then show ?thesis using assms(2)
    by (cases conn) (auto simp: client_ack_def ack_received_def as_client_def new_connection_def subscribe_seen_def Let_def)
next
  case (Some t)
  then have t: "ack_wf t" using assms(1) by (simp add: client_inv_def)
  obtain r t' where r: "krs_ack_tracker_receive_rtt now (Some t) (frame_packet_id f) (frame_channel f) = Some (r, Some t')"
    using receive_rtt_pending [OF ack_wfD(1) [OF t], of now "frame_packet_id f" "frame_channel f"] by blast
  show ?thesis
  proof (cases "r \<ge> 0 \<and> cl_congestion conn \<noteq> None")
    case True
    then show ?thesis using assms(2) Some r
      by (cases conn) (auto simp: client_ack_def ack_received_def as_client_def new_connection_def subscribe_seen_def Let_def
          split: Option.bind_splits)
  next
    case False
    then show ?thesis using assms(2) Some r
      by (cases conn) (auto simp: client_ack_def ack_received_def as_client_def new_connection_def subscribe_seen_def Let_def
          split: Option.bind_splits)
  qed
qed

lemma client_ack_safe:
  assumes "client_inv conn"
  shows "\<exists>conn'. client_ack now f conn = Some conn' \<and> client_inv conn' \<and> same_client conn conn'"
proof -
  have "tracker_ok (as_client conn)" "cc_ok (as_client conn)"
    using assms by (auto simp: as_client_def tracker_ok_def cc_ok_def client_inv_def split: option.split)
  from ack_received_spec [OF this, of now f] obtain c where c: "ack_received now f (as_client conn) = Some c" "tracker_ok c" "cc_ok c"
    by blast
  let ?conn = "conn\<lparr>cl_ack_tracker := cn_ack_tracker c, cl_congestion := cn_congestion c,
     cl_subscribe_ack_received := subscribe_seen (frame_packet_id f) conn\<rparr>"
  have "client_inv ?conn" using assms c(2,3) by (auto simp: client_inv_def tracker_ok_def cc_ok_def split: option.splits)
  with client_ack_received [OF assms c(1)] show ?thesis by (simp add: same_client_def)
qed

section \<open>Receiving\<close>

definition client_fits :: "krs_frame \<Rightarrow> server_connection \<Rightarrow> bool" where
  "client_fits f conn \<longleftrightarrow> (fragment_frame f \<longrightarrow> (\<forall>re p. cl_reassembler conn = Some re \<longrightarrow>
     re_map re (frame_packet_id f) = Some p \<longrightarrow> unat (frame_index f) < pd_total p))"

text \<open>The events of a delivery: messages on the channel of the frame, and acknowledgements to the server.\<close>

definition delivery_events :: "krs_frame \<Rightarrow> server_connection \<Rightarrow> event list \<Rightarrow> bool" where
  "delivery_events f conn evs \<longleftrightarrow> (\<forall>e \<in> set evs.
     e = Ev_send (cl_socket conn, cl_server_address conn, ack_frame (frame_channel f) (frame_packet_id f)) \<or>
     (\<exists>cb d n. e = Ev_message cb (frame_channel f) (cl_connection_id conn) d n (cl_callback_user_data conn)))"

lemma client_message_events: "e \<in> set (client_message conn ch d n) \<Longrightarrow>
    \<exists>cb. e = Ev_message cb ch (cl_connection_id conn) d n (cl_callback_user_data conn)"
  by (auto simp: client_message_def split: option.splits)

lemma client_deliver_safe:
  assumes inv: "client_inv conn" and f: "frame_ok f" and fits: "client_fits f conn" and buf: "64 \<le> length (cr_ack_buf rd)"
  shows "\<exists>evs conn'. client_deliver rd f conn = Some (evs, conn') \<and> client_inv conn' \<and> same_client conn conn' \<and>
    delivery_events f conn evs"
proof (cases "has_flag (frame_presence_flags f) META_FLAG_FRAGMENT_INFO")
  case False
  let ?evs = "(if has_flag (frame_presence_flags f) META_FLAG_ACK_REQUIRED \<and> cr_ack_builder rd
     then [Ev_send (cl_socket conn, cl_server_address conn, ack_frame (frame_channel f) (frame_packet_id f))] else []) @
     client_message conn (frame_channel f) (frame_body f) (frame_body_length f)"
  have "client_deliver rd f conn = Some (?evs, conn)"
    using False client_ack_out [OF buf] by (simp add: client_deliver_def)
  moreover have "delivery_events f conn ?evs" by (auto simp: delivery_events_def dest: client_message_events)
  ultimately show ?thesis using inv by auto
next
  case frag: True
  define re0 where "re0 = (if cl_reassembler conn = None
    then krs_reassembler_create (cr_reassembler rd) (cr_sessions rd) (cr_session_cells rd) else cl_reassembler conn)"
  have conn1: "(if cl_reassembler conn = None then conn\<lparr>cl_reassembler := krs_reassembler_create (cr_reassembler rd)
      (cr_sessions rd) (cr_session_cells rd)\<rparr> else conn) = conn\<lparr>cl_reassembler := re0\<rparr>"
    by (cases conn) (simp add: re0_def)
  show ?thesis
  proof (cases re0)
    case None
    then have "client_deliver rd f conn = Some ([], conn\<lparr>cl_reassembler := None\<rparr>)"
      using frag conn1 by (simp add: client_deliver_def)
    then show ?thesis using inv by (auto simp: client_inv_def same_client_def delivery_events_def)
  next
    case (Some re)
    have wf: "re_wf re" using Some inv reassembler_create_wf by (auto simp: re0_def client_inv_def split: if_splits)
    have "\<forall>p. re_map re (frame_packet_id f) = Some p \<longrightarrow> unat (frame_index f) < pd_total p" if "fragment_frame f"
      using that fits Some reassembler_create_wf by (auto simp: client_fits_def re0_def split: if_splits)
    from feed_defined [OF wf f this, of "cr_feed rd" "cr_recv_now rd"] obtain res re' where
      feed: "krs_reassembler_feed (cr_feed rd) (cr_recv_now rd) (Some re) (Some f) = Some (res, Some re')" "re_wf re'" by blast
    let ?conn = "conn\<lparr>cl_reassembler := Some re'\<rparr>"
    let ?evs = "if \<not> rr_complete res then [] else (if rr_ack_required res \<and> cr_ack_builder rd
       then [Ev_send (cl_socket conn, cl_server_address conn, ack_frame (frame_channel f) (frame_packet_id f))] else []) @
       client_message ?conn (frame_channel f) (rr_data res) (ucast (rr_data_length res))"
    have "client_deliver rd f conn = Some (?evs, ?conn)"
      using frag conn1 Some feed(1) client_ack_out [OF buf] by (simp add: client_deliver_def Let_def)
    moreover have "client_inv ?conn" "same_client conn ?conn" using inv feed(2) by (simp_all add: client_inv_def same_client_def)
    moreover have "delivery_events f conn ?evs"
      by (auto simp: delivery_events_def dest!: client_message_events)
    ultimately show ?thesis by blast
  qed
qed

definition round_ok :: "recv_round \<Rightarrow> bool" where
  "round_ok rd \<longleftrightarrow> 32 \<le> length (cr_hb_buf rd) \<and> 64 \<le> length (cr_ack_buf rd) \<and> length (cr_raw rd) = KRONOS_BUFFER_SIZE \<and>
     length (cr_body_buf rd) = KRONOS_BUFFER_SIZE \<and> (\<forall>p. cr_packet rd = Some p \<longrightarrow> length p \<le> KRONOS_BUFFER_SIZE)"

definition packet_frame :: "recv_round \<Rightarrow> bytes \<Rightarrow> krs_frame option" where
  "packet_frame rd packet = krs_frame_create (Some (packet @ drop (length packet) (cr_raw rd))) (of_nat (length packet))
     (Some (cr_body_buf rd)) (of_nat KRONOS_BUFFER_SIZE)"

lemma packet_frame_ok:
  assumes "length packet \<le> 1500" and "length (cr_raw rd) = 1500" and "length (cr_body_buf rd) = 1500"
  shows "\<exists>f. packet_frame rd packet = Some f \<and> (frame_protocol_char f = 0x4B \<longrightarrow> frame_ok f)"
proof -
  have n: "unat (of_nat (length packet) :: u16) = length packet" using assms(1) by (intro unat_of_nat_small) simp
  have "unat (of_nat (length packet) :: u16) \<le> length (packet @ drop (length packet) (cr_raw rd))" using n by simp
  from s_create_frame_safe [OF this, of 1500 "cr_body_buf rd"] assms n show ?thesis
    by (auto simp: packet_frame_def krs_frame_create_def frame_ok_def)
qed

lemma client_receive_frame:
  assumes "length packet \<le> 1500" and "length (cr_raw rd) = 1500" and "packet_frame rd packet = Some f"
    and "frame_protocol_char f = 0x4B \<Longrightarrow> frame_ok f" and "length (cl_subscribed conn) = 256"
  shows "client_receive rd packet conn =
    (if frame_protocol_char f \<noteq> 0x4B then Some ([], conn)
     else if frame_frame_type f = frame_type_code MESSAGE_ACK
     then do { conn \<leftarrow> client_ack (cr_recv_now rd) f conn; Some ([], conn) }
     else if frame_channel f < 10 \<or> \<not> cl_subscribed conn ! unat (frame_channel f) then Some ([], conn)
     else client_deliver rd f conn)"
proof -
  have "mem_write (cr_raw rd) 0 packet = Some (packet @ drop (length packet) (cr_raw rd))"
    using assms(1,2) by (intro mem_write_start) simp
  moreover have "mem_get (cl_subscribed conn) (unat (frame_channel f)) = Some (cl_subscribed conn ! unat (frame_channel f))"
    using channel_index [of "frame_channel f"] assms(5) by (simp add: mem_get_def)
  moreover have "frame_protocol_char f = 0x4B \<Longrightarrow> frame_body f \<noteq> None" using assms(4) by (auto simp: frame_ok_def)
  ultimately show ?thesis using assms(3) by (auto simp: client_receive_def packet_frame_def)
qed

text \<open>What the receive thread may do: send a datagram to the server, call a callback.\<close>

definition client_event_ok :: "server_connection \<Rightarrow> event \<Rightarrow> bool" where
  "client_event_ok conn e \<longleftrightarrow> (case e of
     Ev_send (sock, addr, bs) \<Rightarrow> sock = cl_socket conn \<and> addr = cl_server_address conn \<and> 0 < length bs \<and> length bs \<le> KRONOS_BUFFER_SIZE
   | Ev_message cb ch i d n ud \<Rightarrow> 10 \<le> ch \<and> cl_subscribed conn ! unat ch \<and> i = cl_connection_id conn
   | Ev_delivery_failure cb i ch pid ud \<Rightarrow> True
   | _ \<Rightarrow> False)"


definition sample_client :: server_connection where
  "sample_client = (new_server_connection 77 (krs_network_port_address_create 80 zero_address) 1 None 0)
     \<lparr>cl_callback := Some 4, cl_subscribed := (replicate 256 False)[12 := True]\<rparr>"

definition sample_round :: "bytes \<Rightarrow> recv_round" where
  "sample_round packet = \<lparr>cr_now = 1000, cr_hb_builder = True, cr_hb_buf = replicate 32 0, cr_check_now = 1000,
     cr_packet = Some packet, cr_raw = replicate 1500 0, cr_body_buf = replicate 1500 0, cr_recv_now = 1000,
     cr_ack_builder = True, cr_ack_buf = replicate 64 0, cr_reassembler = True, cr_sessions = True,
     cr_session_cells = Some (\<lambda>_. None),
     cr_feed = \<lparr>fa_body = None, fa_session = \<lparr>sa_session = True, sa_buffer = None, sa_sizes = True, sa_received = True, sa_push = None\<rparr>\<rparr>\<rparr>"

lemma sample_client_inv: "client_inv sample_client"
  by (simp add: sample_client_def client_inv_def new_server_connection_def)


end
