(* ===== verification/Kronos_Client_Protocol.thy ===== *)
theory Kronos_Client_Protocol
  imports Kronos_Client
begin

text \<open>
  What the operations of the client achieve: sending, subscribing, the handshake with the server and the
  way of a message to the application of the server and of its acknowledgement back.
\<close>

section \<open>Sending\<close>

lemma whole_out:
  assumes "length data = unat len" and "unat len \<le> 1382" and "1500 \<le> length junk"
  shows "\<exists>n buf. krs_frame_builder_serialize (Some \<lparr>fb_channel = ch, fb_type = BASIC_MESSAGE, fb_packet_id = pid,
      fb_presence_flags = ack_flags ack, fb_metadata = metadata_zero, fb_data = Some data, fb_data_length = len\<rparr>) (Some junk) 1500 =
      Some (n, Some buf) \<and> n \<noteq> 0"
proof -
  let ?b = "\<lparr>fb_channel = ch, fb_type = BASIC_MESSAGE, fb_packet_id = pid, fb_presence_flags = ack_flags ack,
     fb_metadata = metadata_zero, fb_data = Some data, fb_data_length = len\<rparr>"
  have wf: "fb_wf ?b" "length (wire_frame ?b) \<le> unat (1500 :: u16)"
    using assms(1,2) by (simp_all add: fb_wf_def fb_payload_def wire_frame_def ack_flags_length)
  from frame_out(1,2) [OF wf, of junk] assms(3) show ?thesis by simp
qed

definition after_send :: "server_connection \<Rightarrow> void_r \<times> event list \<times> ack_tracker option \<times> nat \<Rightarrow> void_r \<times> event list \<times> server_connection" where
  "after_send conn out = (case out of (res, evs, tr, k) \<Rightarrow> (res, evs, conn\<lparr>cl_ack_tracker := tr\<rparr>))"

definition client_tracker :: "send_alloc \<Rightarrow> bool \<Rightarrow> server_connection \<Rightarrow> ack_tracker option" where
  "client_tracker al ack conn = (if ack then ensure_tracker al (cl_ack_tracker conn) else cl_ack_tracker conn)"

text \<open>The client sends as the server does, with its own socket, address and tracker.\<close>

lemma client_send_split_eq:
  "client_send_split al now ch pid data len ack conn = map_option (after_send conn)
     (send_split al now (cl_socket conn) (cl_server_address conn) ch pid data len ack (client_tracker al ack conn))"
proof -
  have conn: "(if ack then conn\<lparr>cl_ack_tracker := ensure_tracker al (cl_ack_tracker conn)\<rparr> else conn) =
      conn\<lparr>cl_ack_tracker := client_tracker al ack conn\<rparr>"
    by (cases conn) (simp add: client_tracker_def)
  show ?thesis
    unfolding client_send_split_def conn Let_def
    by (auto simp: send_split_def after_send_def map_option_bind split: Option.bind_split)
qed

lemma client_send_whole_eq:
  assumes "length data = unat len" and "unat len \<le> 1382" and "1500 \<le> length (sd_buf al)" and "sd_builder al"
  shows "client_send_whole al now ch pid data len ack conn = map_option (after_send conn)
     (send_whole al now (cl_socket conn) (cl_server_address conn) ch pid data len ack (client_tracker al ack conn))"
proof -
  obtain n buf where "krs_frame_builder_serialize (Some \<lparr>fb_channel = ch, fb_type = BASIC_MESSAGE, fb_packet_id = pid,
      fb_presence_flags = ack_flags ack, fb_metadata = metadata_zero, fb_data = Some data, fb_data_length = len\<rparr>)
      (Some (sd_buf al)) 1500 = Some (n, Some buf)" "n \<noteq> 0"
    using whole_out [OF assms(1-3), of ch pid ack] by blast
  then show ?thesis using assms(4)
    by (cases ack; cases conn)
       (auto simp: client_send_whole_def send_whole_def client_tracker_def after_send_def krs_frame_builder_create_def Let_def
         krs_frame_builder_set_flag_def krs_frame_builder_set_packet_id_def krs_frame_builder_set_data_def ack_flags_def
         map_option_bind split: Option.bind_split)
qed

text \<open>The packet identifier a send on a channel draws.\<close>

definition client_pid :: "server_connection \<Rightarrow> u8 \<Rightarrow> u64" where
  "client_pid conn ch = (case cl_packet_counter conn of None \<Rightarrow> 0 | Some pc \<Rightarrow> pc_counters pc ! unat ch + 1)"

lemma client_counter:
  assumes "client_inv conn"
  shows "\<exists>pc. krs_packet_counter_next (cl_packet_counter conn) ch = Some (client_pid conn ch, pc) \<and>
    client_inv (conn\<lparr>cl_packet_counter := pc\<rparr>)"
proof (cases "cl_packet_counter conn")
  case None
  with assms show ?thesis by (simp add: krs_packet_counter_next_def client_pid_def client_inv_def)
next
  case (Some p)
  then have "length (pc_counters p) = 256" using assms by (simp add: client_inv_def)
  with Some assms channel_index [of ch] show ?thesis
    by (auto simp: krs_packet_counter_next_def client_pid_def client_inv_def mem_get_def mem_set_def)
qed

text \<open>
  What a connection must satisfy for a reliable send: fewer than \<open>2 ^ 32 - 4\<close> acknowledgements so far, and
  room for a message in the tracker.
\<close>

definition client_room :: "server_connection \<Rightarrow> bool" where
  "client_room conn \<longleftrightarrow> (\<forall>cc. cl_congestion conn = Some cc \<longrightarrow> (\<exists>n < 4294967292. cc_reach n cc)) \<and>
     (\<forall>t. cl_ack_tracker conn = Some t \<longrightarrow> length (pending_entries t) + 48 < 2 ^ 31)"

lemma client_window_spec:
  assumes "client_inv conn" and "client_room conn"
  shows "\<exists>can cc. client_window al conn = Some (can, conn\<lparr>cl_congestion := cc\<rparr>) \<and>
    client_inv (conn\<lparr>cl_congestion := cc\<rparr>) \<and> client_room (conn\<lparr>cl_congestion := cc\<rparr>)"
proof -
  define c0 where "c0 = (if cl_congestion conn = None then krs_congestion_create (sd_congestion al) else cl_congestion conn)"
  show ?thesis
  proof (cases c0)
    case None
    then show ?thesis using assms
      by (auto simp: client_window_def c0_def [symmetric] client_inv_def client_room_def Let_def)
  next
    case (Some cc)
    have "\<exists>n < 4294967292. cc_reach n cc"
      using Some assms(2) cc_reach.created [of cc]
      by (force simp: c0_def client_room_def krs_congestion_create_def split: if_splits)
    then obtain n where n: "cc_reach n cc" "n < 4294967292" by blast
    obtain v where v: "u32_of_double (cc_cwnd cc) = Some v" using window_defined [OF n] by blast
    obtain cc' where cc': "krs_congestion_on_send (Some cc) = Some cc'" by (simp add: krs_congestion_on_send_def)
    have "client_inv (conn\<lparr>cl_congestion := Some x\<rparr>)" "client_room (conn\<lparr>cl_congestion := Some x\<rparr>)" if "x = cc \<or> x = cc'" for x
      using that n cc_reach.send [OF n(1) cc'] assms by (auto simp: client_inv_def client_room_def)
    then show ?thesis using Some v cc'
      by (auto simp: client_window_def c0_def [symmetric] krs_congestion_can_send_def Let_def)
  qed
qed

lemma client_window_counter:
  "map_option fst (client_window al (conn\<lparr>cl_packet_counter := pc\<rparr>)) = map_option fst (client_window al conn)"
  by (auto simp: client_window_def Let_def map_option_bind split: option.split Option.bind_split)

lemma client_tracker_room:
  assumes "client_inv conn" and "client_room conn"
  shows "tracker_room (client_tracker al ack conn)"
  using assms create_wf(1,2)
  by (auto simp: tracker_room_def client_tracker_def ensure_tracker_def client_inv_def client_room_def split: if_splits)

lemma client_send_any:
  assumes inv: "client_inv conn" "client_room conn" and len: "length data = unat len" and buf: "1500 \<le> length (sd_buf al)"
  shows "\<exists>res evs tr k. (if unat len \<le> 1382 then client_send_whole al now ch pid data len ack conn
       else client_send_split al now ch pid data len ack conn) = Some (res, evs, conn\<lparr>cl_ack_tracker := tr\<rparr>) \<and>
    (sends al now (cl_socket conn) (cl_server_address conn) ch pid data ack (client_tracker al ack conn) (res, evs, tr, k) \<or>
     (\<not> sd_builder al \<and> \<not> rb_valid res \<and> evs = [] \<and> tr = cl_ack_tracker conn))"
proof (cases "unat len \<le> 1382 \<and> \<not> sd_builder al")
  case True
  then show ?thesis
    by (cases conn) (auto simp: client_send_whole_def krs_frame_builder_create_def krs_lib_error_result_base_w_msg_def)
next
  case False
  obtain res evs tr k where out: "(if unat len \<le> 1382
      then send_whole al now (cl_socket conn) (cl_server_address conn) ch pid data len ack (client_tracker al ack conn)
      else send_split al now (cl_socket conn) (cl_server_address conn) ch pid data len ack (client_tracker al ack conn)) =
        Some (res, evs, tr, k)"
      "sends al now (cl_socket conn) (cl_server_address conn) ch pid data ack (client_tracker al ack conn) (res, evs, tr, k)"
    using send_any_spec [OF len buf client_tracker_room [OF inv], where al1 = al and ack1 = ack and now = now and sock = "cl_socket conn"
        and addr = "cl_server_address conn" and ch = ch and pid = pid and ack = ack] by auto
  have "(if unat len \<le> 1382 then client_send_whole al now ch pid data len ack conn
       else client_send_split al now ch pid data len ack conn) = Some (res, evs, conn\<lparr>cl_ack_tracker := tr\<rparr>)"
  proof (cases "unat len \<le> 1382")
    case True
    then show ?thesis using out(1) False client_send_whole_eq [OF len True buf, of now ch pid ack conn] by (simp add: after_send_def)
  next
    case no: False
    then show ?thesis using out(1) unfolding client_send_split_eq by (simp add: after_send_def)
  qed
  with out(2) show ?thesis by blast
qed

lemma client_send_result:
  assumes "client_inv conn" and "cl_connected conn" and "client_room conn" and "length data = unat len"
    and "1500 \<le> length (sd_buf al)"
  shows "\<exists>res evs conn'. krs_client_send al now ch (Some data) len ack (Some conn) = Some (res, evs, Some conn') \<and>
    client_inv conn' \<and> same_client conn conn' \<and>
    (if rb_valid res
     then evs = map (\<lambda>b. Ev_send (cl_socket conn, cl_server_address conn, b)) (message_frames ch (client_pid conn ch) data ack) \<and>
       (\<forall>t. ack \<and> cl_ack_tracker conn = Some t \<and> (\<forall>i. expect_alloc_ok (sd_expect al i)) \<longrightarrow>
          (\<exists>t'. cl_ack_tracker conn' = Some t' \<and>
             pending_entries t' = pending_entries t @ track_entries now (client_pid conn ch) ch (message_frames ch (client_pid conn ch) data ack)))
     else evs = []) \<and>
    (send_mem_ok al \<and> (ack \<longrightarrow> map_option fst (client_window al conn) = Some True) \<longrightarrow> rb_valid res) \<and>
    (\<not> rb_valid res \<longrightarrow> client_room conn')"
proof -
  obtain pc where pc: "krs_packet_counter_next (cl_packet_counter conn) ch = Some (client_pid conn ch, pc)"
      "client_inv (conn\<lparr>cl_packet_counter := pc\<rparr>)" using client_counter [OF assms(1)] by blast
  let ?c1 = "conn\<lparr>cl_packet_counter := pc\<rparr>"
  have room1: "client_room ?c1" using assms(3) by (simp add: client_room_def)
  obtain can cc where w: "(if ack then client_window al ?c1 else Some (True, ?c1)) = Some (can, ?c1\<lparr>cl_congestion := cc\<rparr>)"
      "client_inv (?c1\<lparr>cl_congestion := cc\<rparr>)" "client_room (?c1\<lparr>cl_congestion := cc\<rparr>)" "ack \<or> can"
  proof (cases ack)
    case True
    with client_window_spec [OF pc(2) room1, of al] that show thesis by auto
  next
    case False
    with that [of True "cl_congestion conn"] pc(2) room1 show thesis by (cases conn) simp
  qed
  have win: "map_option fst (client_window al conn) = Some can" if ack
    using that w(1) client_window_counter [where al = al and conn = conn and pc = pc] by simp
  let ?c2 = "?c1\<lparr>cl_congestion := cc\<rparr>" and ?pid = "client_pid conn ch"
  have start: "krs_client_send al now ch (Some data) len ack (Some conn) =
      (if \<not> can then Some (krs_lib_error_result_base_w_msg KRS_ERR_SERVER_CONGESTION_WINDOW_FULL ''congestion window full'', [], Some ?c2)
       else do { (res, evs, conn) \<leftarrow> (if unat len \<le> 1382 then client_send_whole al now ch ?pid data len ack ?c2
                   else client_send_split al now ch ?pid data len ack ?c2); Some (res, evs, Some conn) })"
    using assms(2) pc(1) w(1) by (simp add: krs_client_send_def cong: if_cong)
  show ?thesis
  proof (cases can)
    case False
    with start w(2-4) win show ?thesis
      by (intro exI [of _ "krs_lib_error_result_base_w_msg KRS_ERR_SERVER_CONGESTION_WINDOW_FULL ''congestion window full''"] exI [of _ "[]"] exI [of _ ?c2])
         (auto simp: same_client_def krs_lib_error_result_base_w_msg_def)
  next
    case True
    obtain res evs tr k where out: "(if unat len \<le> 1382 then client_send_whole al now ch ?pid data len ack ?c2
         else client_send_split al now ch ?pid data len ack ?c2) = Some (res, evs, ?c2\<lparr>cl_ack_tracker := tr\<rparr>)"
        "sends al now (cl_socket conn) (cl_server_address conn) ch ?pid data ack (client_tracker al ack ?c2) (res, evs, tr, k) \<or>
         (\<not> sd_builder al \<and> \<not> rb_valid res \<and> evs = [] \<and> tr = cl_ack_tracker conn)"
      using client_send_any [OF w(2,3) assms(4,5), of now ch ?pid ack] by auto
    let ?c3 = "?c2\<lparr>cl_ack_tracker := tr\<rparr>"
    have run: "krs_client_send al now ch (Some data) len ack (Some conn) = Some (res, evs, Some ?c3)" using start True out(1) by simp
    have "\<forall>t. tr = Some t \<longrightarrow> ack_wf t" using out(2) w(2) by (auto simp: sends_def client_inv_def)
    then have inv3: "client_inv ?c3" using w(2) by (simp add: client_inv_def)
    have tr0: "client_tracker al ack ?c2 = Some t" if "cl_ack_tracker conn = Some t" for t
      using that by (simp add: client_tracker_def ensure_tracker_def)
    have "same_client conn ?c3" by (simp add: same_client_def)
    moreover have "if rb_valid res
     then evs = map (\<lambda>b. Ev_send (cl_socket conn, cl_server_address conn, b)) (message_frames ch ?pid data ack) \<and>
       (\<forall>t. ack \<and> cl_ack_tracker conn = Some t \<and> (\<forall>i. expect_alloc_ok (sd_expect al i)) \<longrightarrow>
          (\<exists>t'. cl_ack_tracker ?c3 = Some t' \<and>
             pending_entries t' = pending_entries t @ track_entries now ?pid ch (message_frames ch ?pid data ack)))
     else evs = []"
      using out(2) tr0 by (auto simp: sends_def split: if_splits)
    moreover have "client_room ?c3" if "\<not> rb_valid res"
      using that out(2) w(3) client_tracker_room [OF w(2,3), of al ack]
      by (auto simp: sends_def client_room_def tracker_room_def)
    moreover have "send_mem_ok al \<longrightarrow> rb_valid res" using out(2) by (auto simp: sends_def send_mem_ok_def)
    ultimately show ?thesis using run inv3 by blast
  qed
qed


section \<open>Connecting\<close>

lemma id_body_value:
  "or (or (or (push_bit 24 (ucast (id_body i ! 0))) (push_bit 16 (ucast (id_body i ! 1)))) (push_bit 8 (ucast (id_body i ! 2))))
     (ucast (id_body i ! 3)) = (i :: u32)"
proof (rule bit_word_eqI)
  have m: "(0xFF :: u32) = mask 8" by (simp add: mask_eq_exp_minus_1)
  fix n assume "n < LENGTH(32)"
  then consider "n < 8" | "8 \<le> n" "n < 16" | "16 \<le> n" "n < 24" | "24 \<le> n" "n < 32" by fastforce
  then show "bit (or (or (or (push_bit 24 (ucast (id_body i ! 0))) (push_bit 16 (ucast (id_body i ! 1)))) (push_bit 8 (ucast (id_body i ! 2))))
     (ucast (id_body i ! 3)) :: u32) n = bit i n"
    by cases (auto simp: id_body_def m bit_or_iff bit_push_bit_iff bit_ucast_iff bit_and_iff bit_mask_iff bit_drop_bit_eq)
qed

lemma reply_id_socket_ack:
  "reply_id (received_frame 0 SOCKET_ACK flags pid md (id_body i) out) = Some (Some i)"
proof -
  have len: "length (id_body i) = 4" by (simp add: id_body_def)
  have "mem_get (id_body i @ drop 4 out) k = Some (id_body i ! k)" if "k < 4" for k
    using that len by (simp add: mem_get_def nth_append)
  then show ?thesis
    using id_body_value [of i] len by (simp add: reply_id_def received_frame_def)
qed

definition connect_ok :: "connect_outcome \<Rightarrow> bool" where
  "connect_ok co \<longleftrightarrow> co_socket co \<noteq> INVALID_SOCKET \<and> \<not> co_bind_fails co \<and> co_builder co \<and> \<not> co_send_fails co \<and>
     64 \<le> length (co_buf co) \<and> length (co_recv_buf co) = 128 \<and> length (co_body_buf co) = 32 \<and> co_conn co"

lemma connect_run:
  assumes "connect_ok co" and "co_reply co = Some (socket_ack_frame i)"
  shows "\<exists>calls. krs_client_server_connect co addr wsa =
    Some (Some (new_server_connection (co_socket co) addr i (krs_packet_counter_create (co_counter co)) (co_now co)),
      map Ev_socket calls @ [Ev_send (co_socket co, addr, wire_header 0 CONNECTION 0 0),
        Ev_socket (Setsockopt_rcvtimeo (co_socket co) 5000)], krs_wsa_init wsa)"
proof -
  let ?r = "socket_ack_frame i"
  have len: "length (id_body i) = 4" "length ?r = 18" by (simp_all add: id_body_def socket_ack_frame_def)
  have out: "krs_frame_builder_serialize (Some (bare_builder 0 CONNECTION)) (Some (co_buf co)) 64 =
      Some (14, Some (wire_header 0 CONNECTION 0 0 @ drop 14 (co_buf co)))"
    using assms(1) by (intro bare_out(1)) (simp_all add: connect_ok_def)
  have rd: "mem_read (wire_header 0 CONNECTION 0 0 @ drop 14 (co_buf co)) 0 14 = Some (wire_header 0 CONNECTION 0 0)"
    by (simp add: mem_read_def)
  have wr: "mem_write (co_recv_buf co) 0 ?r = Some (?r @ drop 18 (co_recv_buf co))"
    using mem_write_start [of ?r "co_recv_buf co"] assms(1) len by (simp add: connect_ok_def)
  have "s_create_frame (Some (?r @ drop 18 (co_recv_buf co))) 18 (Some (co_body_buf co)) 32 =
      Some (received_frame 0 SOCKET_ACK 0 0 metadata_zero (id_body i) (co_body_buf co))"
    using assms(1) len
    by (intro parse_wire_image [where rest = "drop 18 (co_recv_buf co)"])
       (simp_all add: connect_ok_def metadata_length_0 socket_ack_frame_def)
  then have parse: "krs_frame_create (Some (?r @ drop 18 (co_recv_buf co))) 18 (Some (co_body_buf co)) 32 =
      Some (received_frame 0 SOCKET_ACK 0 0 metadata_zero (id_body i) (co_body_buf co))" by (simp add: krs_frame_create_def)
  show ?thesis
    using assms out rd wr parse reply_id_socket_ack len(2)
    by (auto simp: krs_client_server_connect_def connect_ok_def s_create_client_socket_def krs_frame_builder_create_def Let_def
        intro!: exI [of _ "[Setsockopt_dual_stack (co_socket co), Ioctl_connreset (co_socket co),
          Bind (co_socket co) \<lparr>sin6_family = AF_INET6, sin6_port = 0, sin6_flowinfo = 0, sin6_addr = zero_address, sin6_scope_id = 0\<rparr>]"])
qed

text \<open>Parsing a frame without metadata; the buffer may hold more than the frame.\<close>

lemma parse_frame:
  assumes "metadata_length flags = 0" and "unat n = 14 + length payload" and "length payload \<le> unat sz" and "unat sz \<le> length out"
  shows "krs_frame_create (Some ((wire_header ch ty flags pid @ payload) @ rest)) n (Some out) sz =
    Some (received_frame ch ty flags pid metadata_zero payload out)"
proof -
  have "wire_metadata flags metadata_zero = []" using length_wire_metadata [of flags metadata_zero] assms(1) by simp
  then show ?thesis
    unfolding krs_frame_create_def using assms by (intro parse_wire_image [where rest = rest]) simp_all
qed

text \<open>
  C7. The handshake. The CONNECTION frame the client sends, received by the server from an address that is
  not connected, makes the server register a connection under a fresh identifier and answer with one
  datagram; the client that receives this answer returns a well-formed, connected connection with the
  identifier under which the server registered it.
\<close>

theorem client_handshake:
  assumes "sv_inv w" and "w_descs w d = Some desc" and "sub_allocs_ok al" and "ha_conn al = Some r" and "ha_builder al"
    and "conn_at w desc 0 addr = None" and "sv_map w = Some m" and "\<forall>f. route_ready al w desc f"
    and "connect_ok co" and "length body_buf = KRONOS_BUFFER_SIZE"
  shows "\<exists>request reply f w' m' conn calls.
    krs_frame_create (Some (request @ rest)) (of_nat (length request)) (Some body_buf) (of_nat KRONOS_BUFFER_SIZE) = Some f \<and>
    s_route_frame al now d f addr w = Some (Ev_send (ds_udp_socket_ref desc, addr, reply) # connect_event desc (cl_connection_id conn), w') \<and>
    krs_client_server_connect (co\<lparr>co_reply := Some reply\<rparr>) server_addr wsa =
      Some (Some conn, map Ev_socket calls @ [Ev_send (co_socket co, server_addr, request),
        Ev_socket (Setsockopt_rcvtimeo (co_socket co) 5000)], krs_wsa_init wsa) \<and>
    client_inv conn \<and> cl_connected conn \<and> sv_inv w' \<and> ids_of m (cl_connection_id conn) = None \<and>
    sv_map w' = Some m' \<and> ids_of m' = (ids_of m)(cl_connection_id conn \<mapsto> (Some d, Some r)) \<and>
    w_conns w' = (w_conns w)(r \<mapsto> new_connection (cl_connection_id conn) addr now)"
proof -
  let ?req = "wire_header 0 CONNECTION 0 0" and ?i = "w_next_connection_id w + 1"
  let ?f = "received_frame 0 CONNECTION 0 0 metadata_zero [] body_buf"
  have parse: "krs_frame_create (Some (?req @ rest)) (of_nat (length ?req)) (Some body_buf) (of_nat KRONOS_BUFFER_SIZE) = Some ?f"
    using parse_frame [of 0 14 "[]" 1500 body_buf 0 CONNECTION 0 rest] assms(10) by (simp add: metadata_length_0)
  have "route_ready al w desc ?f" using assms(8) by blast
  from assms(1,2) this assms(3,4,6,7) obtain w' sts m' where
    s: "s_dispatch_connection al now d ?f addr w = Some (socket_ack al desc addr ?i @ connect_event desc ?i, w')" "sv_inv w'"
      "w_conns w' = (w_conns w)(r \<mapsto> new_connection ?i addr now)" "ids_of m ?i = None" "sv_map w' = Some m'"
      "ids_of m' = (ids_of m)(?i \<mapsto> (Some d, Some r))"
    by (rule connect_new_run)
  have route: "s_route_frame al now d ?f addr w =
      Some (Ev_send (ds_udp_socket_ref desc, addr, socket_ack_frame ?i) # connect_event desc ?i, w')"
    using s(1) assms(5) by (simp add: s_route_frame_def received_frame_def socket_ack_def)
  let ?co = "co\<lparr>co_reply := Some (socket_ack_frame ?i)\<rparr>"
  have "connect_ok ?co" "co_reply ?co = Some (socket_ack_frame ?i)" using assms(9) by (simp_all add: connect_ok_def)
  from connect_run [OF this, of server_addr wsa] obtain calls where
    c: "krs_client_server_connect ?co server_addr wsa =
      Some (Some (new_server_connection (co_socket co) server_addr ?i (krs_packet_counter_create (co_counter co)) (co_now co)),
        map Ev_socket calls @ [Ev_send (co_socket co, server_addr, ?req), Ev_socket (Setsockopt_rcvtimeo (co_socket co) 5000)],
        krs_wsa_init wsa)" by auto
  let ?conn = "new_server_connection (co_socket co) server_addr ?i (krs_packet_counter_create (co_counter co)) (co_now co)"
  have conn: "client_inv ?conn" "cl_connected ?conn" "cl_connection_id ?conn = ?i"
    by (simp_all add: new_server_connection_def client_inv_def krs_packet_counter_create_def)
  from parse route c conn s(2-6) show ?thesis
    by (intro exI [of _ ?req] exI [of _ "socket_ack_frame ?i"] exI [of _ ?f] exI [of _ w'] exI [of _ m'] exI [of _ ?conn] exI [of _ calls])
       simp
qed

section \<open>A message and its acknowledgement\<close>

lemma ack_received_pending:
  assumes "cn_ack_tracker c = Some t" and "ack_wf t" and "ack_received now f c = Some c'" and "cn_ack_tracker c' = Some t'"
  shows "pending_entries t' = after_ack (at_fast_retransmit_enabled t) (frame_packet_id f) (frame_channel f) (pending_entries t)"
proof -
  obtain a where a: "krs_ack_tracker_receive_rtt now (Some t) (frame_packet_id f) (frame_channel f) =
        Some (rtt_of now (frame_packet_id f) (frame_channel f) (pending_entries t), Some (t\<lparr>at_pending := a\<rparr>))"
      "arr_vals a = after_ack (at_fast_retransmit_enabled t) (frame_packet_id f) (frame_channel f) (pending_entries t)"
    using receive_rtt_pending [OF ack_wfD(1) [OF assms(2)]] by blast
  with assms(1,3,4) show ?thesis
    by (auto simp: ack_received_def Let_def krs_ack_tracker_set_timeout_def split: if_splits Option.bind_splits)
qed

lemma ack_frame_received:
  assumes "round_ok rd" and "client_inv conn"
  shows "\<exists>conn'. client_receive rd (ack_frame ch pid) conn = Some ([], conn') \<and> client_inv conn' \<and> same_client conn conn' \<and>
    cl_subscribe_ack_received conn' = subscribe_seen pid conn \<and>
    (\<forall>t'. cl_ack_tracker conn' = Some t' \<longrightarrow> (\<forall>e \<in> set (pending_entries t'). \<not> ack_matches pid ch e))"
proof -
  let ?p = "ack_frame ch pid" and ?f = "received_frame ch MESSAGE_ACK 0 pid metadata_zero [] (cr_body_buf rd)"
  have len: "length ?p = 14" by (simp add: ack_frame_def)
  have bufs: "length (cr_raw rd) = 1500" "length (cr_body_buf rd) = 1500" using assms(1) by (simp_all add: round_ok_def)
  have "packet_frame rd ?p = Some ?f"
    using parse_frame [of 0 14 "[]" 1500 "cr_body_buf rd" ch MESSAGE_ACK pid "drop 14 (cr_raw rd)"] bufs len
    by (simp add: packet_frame_def metadata_length_0 ack_frame_def)
  moreover have "frame_ok ?f" by (simp add: received_frame_def frame_ok_def)
  ultimately have recv: "client_receive rd ?p conn = do { conn \<leftarrow> client_ack (cr_recv_now rd) ?f conn; Some ([], conn) }"
    using client_receive_frame [of ?p rd ?f conn] bufs len assms(2) by (simp add: client_inv_def received_frame_def)
  have "tracker_ok (as_client conn)" "cc_ok (as_client conn)"
    using assms(2) by (auto simp: as_client_def tracker_ok_def cc_ok_def client_inv_def split: option.split)
  from ack_received_spec [OF this, of "cr_recv_now rd" ?f] obtain c where
    c: "ack_received (cr_recv_now rd) ?f (as_client conn) = Some c" "tracker_ok c" "cc_ok c" by blast
  note conn' = client_ack_received [OF assms(2) c(1)]
  let ?conn = "conn\<lparr>cl_ack_tracker := cn_ack_tracker c, cl_congestion := cn_congestion c,
     cl_subscribe_ack_received := subscribe_seen (frame_packet_id ?f) conn\<rparr>"
  have inv: "client_inv ?conn" using client_ack_safe [OF assms(2), of "cr_recv_now rd" ?f] conn' by simp
  have "\<forall>e \<in> set (pending_entries t'). \<not> ack_matches pid ch e" if t': "cn_ack_tracker c = Some t'" for t'
  proof (cases "cl_ack_tracker conn")
    case None
    then have "cn_ack_tracker c = None" using c(1) by (auto simp: ack_received_def as_client_def new_connection_def Let_def)
    with t' show ?thesis by simp
  next
    case (Some t)
    then have "cn_ack_tracker (as_client conn) = Some t" "ack_wf t" using assms(2) by (simp_all add: as_client_def client_inv_def)
    from ack_received_pending [OF this c(1) t'] show ?thesis
      by (auto simp: after_ack_alt received_frame_def split: if_splits)
  qed
  with inv conn' recv show ?thesis by (auto simp: same_client_def received_frame_def)
qed

definition subscription_wire :: "frame_type_e \<Rightarrow> bool \<Rightarrow> u8 \<Rightarrow> u64 \<Rightarrow> bytes" where
  "subscription_wire ty ack ch pid = wire_header 0 ty (ack_flags ack) pid @ [ch]"

lemma message_reaches_server:
  fixes pid :: u64
  assumes sv: "sv_inv w" "w_descs w d = Some desc" "handler_bufs_ok ha" "ha_builder ha"
    and ch: "10 \<le> ch" and at: "conn_at w desc ch addr = Some r" "w_conns w r = Some c"
    and len: "length data = unat len" "unat len \<le> 1382" and buf: "length body_buf = 1500"
  defines "req \<equiv> wire_header ch BASIC_MESSAGE (ack_flags True) pid @ data"
    and "f \<equiv> received_frame ch BASIC_MESSAGE (ack_flags True) pid metadata_zero data body_buf"
  shows "krs_frame_create (Some (req @ rest)) (of_nat (length req)) (Some body_buf) 1500 = Some f"
    and "\<exists>w'. s_route_frame ha now d f addr w =
      Some (Ev_send (ds_udp_socket_ref desc, addr, ack_frame ch pid) # message_event desc (cn_connection_id c) f, w') \<and> sv_inv w'"
proof -
  have n: "unat (of_nat (length req) :: u16) = 14 + length data"
    using len unfolding req_def by (subst unat_of_nat_small) simp_all
  show "krs_frame_create (Some (req @ rest)) (of_nat (length req)) (Some body_buf) 1500 = Some f"
    unfolding req_def f_def
  proof (rule parse_frame)
    show "unat (of_nat (length (wire_header ch BASIC_MESSAGE (ack_flags True) pid @ data)) :: u16) = 14 + length data"
      using n by (simp add: req_def)
  qed (use len buf ack_flags_length(1) in simp_all)
  have flags: "has_flag (ack_flags True) META_FLAG_ACK_REQUIRED" "\<not> has_flag (ack_flags True) META_FLAG_FRAGMENT_INFO"
    by (simp_all add: ack_flags_def has_flag_def)
  then have nofrag: "\<not> has_flag (frame_presence_flags f) META_FLAG_FRAGMENT_INFO" by (simp add: f_def received_frame_def)
  have f: "frame_channel f = ch" "frame_packet_id f = pid" "has_flag (frame_presence_flags f) META_FLAG_ACK_REQUIRED"
    using flags(1) by (simp_all add: f_def received_frame_def)
  have "ch \<noteq> 0" "ch \<noteq> 1" "\<not> ch \<le> 9" using ch by (auto simp: word_le_nat_alt)
  then have route: "s_route_frame ha now d f addr w = s_dispatch_app_frame ha now d f addr w"
    using ch by (simp add: s_route_frame_def f_def received_frame_def)
  have "message_ack ha desc addr f = [Ev_send (ds_udp_socket_ref desc, addr, ack_frame ch pid)]"
    using f sv(4) by (simp add: message_ack_def)
  with whole_message [OF sv(1-3) nofrag, of now addr] f(1) at show "\<exists>w'. s_route_frame ha now d f addr w =
      Some (Ev_send (ds_udp_socket_ref desc, addr, ack_frame ch pid) # message_event desc (cn_connection_id c) f, w') \<and> sv_inv w'"
    unfolding route by auto
qed

lemma subscription_reaches_server:
  fixes pid :: u64
  assumes sv: "sv_inv w" "w_descs w d = Some desc" "desc_small desc" "handler_bufs_ok ha" "sub_allocs_ok ha" "ha_builder ha"
    and at: "conn_at w desc 0 addr = Some r" and ch: "10 \<le> ch" and buf: "length body_buf = 1500"
  defines "req \<equiv> subscription_wire SUBSCRIBE True ch pid"
    and "f \<equiv> received_frame 0 SUBSCRIBE (ack_flags True) pid metadata_zero [ch] body_buf"
  obtains sts where "krs_frame_create (Some (req @ rest)) (of_nat (length req)) (Some body_buf) 1500 = Some f"
    and "s_route_frame ha now d f addr w = Some ([Ev_send (ds_udp_socket_ref desc, addr, ack_frame 0 pid)],
      set_desc d (desc\<lparr>ds_channel_states := sts\<rparr>) w)"
    and "sv_inv (set_desc d (desc\<lparr>ds_channel_states := sts\<rparr>) w)"
    and "conn_at (set_desc d (desc\<lparr>ds_channel_states := sts\<rparr>) w) (desc\<lparr>ds_channel_states := sts\<rparr>) ch addr = Some r"
proof -
  have parse: "krs_frame_create (Some (req @ rest)) (of_nat (length req)) (Some body_buf) 1500 = Some f"
    unfolding req_def f_def subscription_wire_def using buf ack_flags_length(1) by (intro parse_frame) simp_all
  have "\<not> ch < 10" using ch by simp
  then have f: "frame_ok f" "sub_target f = Some ch" "frame_packet_id f = pid"
      "has_flag (frame_presence_flags f) META_FLAG_ACK_REQUIRED" "frame_channel f = 0" "frame_frame_type f = frame_type_code SUBSCRIBE"
    using buf by (simp_all add: f_def received_frame_def frame_ok_def sub_target_def ack_flags_def has_flag_def)
  obtain sts where s: "s_dispatch_subscribe ha d f addr w =
        Some (ack_if True ha desc addr f, set_desc d (desc\<lparr>ds_channel_states := sts\<rparr>) w)"
      "sv_inv (set_desc d (desc\<lparr>ds_channel_states := sts\<rparr>) w)"
      "conn_at (set_desc d (desc\<lparr>ds_channel_states := sts\<rparr>) w) (desc\<lparr>ds_channel_states := sts\<rparr>) ch addr = Some r"
    by (rule subscribe_reaches [OF sv(1-5) at f(1,2)])
  have "s_route_frame ha now d f addr w = Some ([Ev_send (ds_udp_socket_ref desc, addr, ack_frame 0 pid)],
      set_desc d (desc\<lparr>ds_channel_states := sts\<rparr>) w)"
    using s(1) f(3-6) sv(6) by (simp add: s_route_frame_def ack_if_def)
  with that parse s(2,3) show thesis by blast
qed

text \<open>
  C8. The way of a message. A connected client subscribes to a channel and then sends on it a message of at
  most one datagram, reliably. The server answers the subscription with its acknowledgement. The datagram
  of the message makes the server hand the data, with its length and the identifier of the connection, to
  the callback of the channel or else of the port, and answer with one acknowledgement; the client that
  receives this acknowledgement no longer waits for the message.
\<close>

theorem client_message_delivered:
  assumes "client_inv conn" and "cl_connected conn" and "client_room conn" and "length data = unat len"
    and "unat len \<le> KRS_MAX_PAYLOAD_PER_FRAGMENT" and "1500 \<le> length (sd_buf al)"
    and "krs_client_send al now ch (Some data) len True (Some conn) = Some (res, evs, Some conn1)" and "rb_valid res"
    and "sv_inv w" and "w_descs w d = Some desc" and "desc_small desc" and "handler_bufs_ok ha" and "sub_allocs_ok ha" and "ha_builder ha"
    and "10 \<le> ch" and "conn_at w desc 0 addr = Some r" and "w_conns w r = Some c"
    and "length body_buf = KRONOS_BUFFER_SIZE" and "round_ok rd"
  shows "\<exists>g w1 request f w2 conn2.
    krs_frame_create (Some (subscription_wire SUBSCRIBE True ch pid0 @ rest)) 15 (Some body_buf) (of_nat KRONOS_BUFFER_SIZE) = Some g \<and>
    s_route_frame ha now0 d g addr w = Some ([Ev_send (ds_udp_socket_ref desc, addr, ack_frame 0 pid0)], w1) \<and>
    evs = [Ev_send (cl_socket conn, cl_server_address conn, request)] \<and>
    krs_frame_create (Some (request @ rest')) (of_nat (length request)) (Some body_buf) (of_nat KRONOS_BUFFER_SIZE) = Some f \<and>
    s_route_frame ha now1 d f addr w1 =
      Some (Ev_send (ds_udp_socket_ref desc, addr, ack_frame ch (client_pid conn ch)) # message_event desc (cn_connection_id c) f, w2) \<and>
    frame_channel f = ch \<and> frame_body f = Some (data @ drop (length data) body_buf) \<and> frame_body_length f = len \<and> sv_inv w2 \<and>
    client_receive rd (ack_frame ch (client_pid conn ch)) conn1 = Some ([], conn2) \<and> client_inv conn2 \<and>
    (\<forall>t. cl_ack_tracker conn2 = Some t \<longrightarrow> (\<forall>e \<in> set (pending_entries t). \<not> ack_matches (client_pid conn ch) ch e))"
proof -
  let ?pid = "client_pid conn ch"
  let ?req = "wire_header ch BASIC_MESSAGE (ack_flags True) ?pid @ data"
  let ?f = "received_frame ch BASIC_MESSAGE (ack_flags True) ?pid metadata_zero data body_buf"
  have frames: "message_frames ch ?pid data True = [?req]"
    using assms(4,5) by (simp add: message_frames_def split_frames_def)
  have sent: "evs = [Ev_send (cl_socket conn, cl_server_address conn, ?req)]" "client_inv conn1"
    using client_send_result [OF assms(1-4,6), of now ch True] assms(7,8) by (auto simp: frames)
  have buf: "length body_buf = 1500" using assms(18) by simp
  let ?d = "\<lambda>sts. desc\<lparr>ds_channel_states := sts\<rparr>" and ?sub = "subscription_wire SUBSCRIBE True ch pid0"
  obtain g sts where s: "krs_frame_create (Some (?sub @ rest)) (of_nat (length ?sub)) (Some body_buf) 1500 = Some g"
      "s_route_frame ha now0 d g addr w = Some ([Ev_send (ds_udp_socket_ref desc, addr, ack_frame 0 pid0)], set_desc d (?d sts) w)"
      "sv_inv (set_desc d (?d sts) w)" "conn_at (set_desc d (?d sts) w) (?d sts) ch addr = Some r"
    by (rule subscription_reaches_server [OF assms(9-14,16,15) buf])
  have sub_len: "length ?sub = 15" by (simp add: subscription_wire_def)
  let ?w = "set_desc d (?d sts) w"
  have w: "w_descs ?w d = Some (?d sts)" "w_conns ?w r = Some c" using assms(17) by simp_all
  note m = message_reaches_server [OF s(3) w(1) assms(12,14,15) s(4) w(2) assms(4) _ buf, where pid = ?pid]
  obtain w2 where w2: "s_route_frame ha now1 d ?f addr ?w =
      Some (Ev_send (ds_udp_socket_ref desc, addr, ack_frame ch ?pid) # message_event desc (cn_connection_id c) ?f, w2)" "sv_inv w2"
    using m(2) [of now1] assms(5) by auto
  obtain conn2 where c2: "client_receive rd (ack_frame ch ?pid) conn1 = Some ([], conn2)" "client_inv conn2"
      "\<forall>t'. cl_ack_tracker conn2 = Some t' \<longrightarrow> (\<forall>e \<in> set (pending_entries t'). \<not> ack_matches ?pid ch e)"
    using ack_frame_received [OF assms(19) sent(2)] by blast
  have "frame_channel ?f = ch" "frame_body ?f = Some (data @ drop (length data) body_buf)" "frame_body_length ?f = len"
    using assms(4) by (simp_all add: received_frame_def)
  moreover have "krs_frame_create (Some (?req @ rest')) (of_nat (length ?req)) (Some body_buf) (of_nat KRONOS_BUFFER_SIZE) = Some ?f"
    using m(1) [of rest'] assms(5) by simp
  ultimately show ?thesis using s(1,2) sub_len sent(1) w2 c2 by (metis (no_types, lifting) of_nat_numeral)
qed

section \<open>Subscriptions\<close>

lemma subscription_frame_spec:
  assumes "client_inv conn" and "64 \<le> length junk"
  shows "\<exists>pc. subscription_frame True junk ty ack ch conn =
      Some (Some (client_pid conn 0, 15, Some (subscription_wire ty ack ch (client_pid conn 0) @ drop 15 junk)), conn\<lparr>cl_packet_counter := pc\<rparr>) \<and>
    client_inv (conn\<lparr>cl_packet_counter := pc\<rparr>)"
proof -
  obtain pc where pc: "krs_packet_counter_next (cl_packet_counter conn) 0 = Some (client_pid conn 0, pc)"
      "client_inv (conn\<lparr>cl_packet_counter := pc\<rparr>)" using client_counter [OF assms(1)] by blast
  let ?b = "\<lparr>fb_channel = 0, fb_type = ty, fb_packet_id = client_pid conn 0, fb_presence_flags = ack_flags ack,
     fb_metadata = metadata_zero, fb_data = Some [ch], fb_data_length = 1\<rparr>"
  have wire: "wire_frame ?b = subscription_wire ty ack ch (client_pid conn 0)" "fb_wf ?b"
    by (simp_all add: wire_frame_def ack_flags_length fb_payload_def subscription_wire_def fb_wf_def)
  have len: "length (subscription_wire ty ack ch (client_pid conn 0)) = 15" by (simp add: subscription_wire_def)
  have "length (wire_frame ?b) \<le> unat (64 :: u16)" unfolding wire(1) len by simp
  from frame_out(1) [OF wire(2) this, of junk] assms(2)
  have "krs_frame_builder_serialize (Some ?b) (Some junk) 64 = Some (15, Some (subscription_wire ty ack ch (client_pid conn 0) @ drop 15 junk))"
    unfolding wire(1) len by simp
  with pc show ?thesis
    by (intro exI [of _ pc]) (cases ack; simp add: subscription_frame_def krs_frame_builder_create_def krs_frame_builder_set_data_def
        krs_frame_builder_set_flag_def krs_frame_builder_set_packet_id_def ack_flags_def Let_def)
qed

lemma subscription_sent:
  "krs_net_send_frame sock (Some addr) (Some (subscription_wire ty ack ch pid @ rest)) 15 = Some [(sock, addr, subscription_wire ty ack ch pid)]"
  using send_frame_bytes [of "subscription_wire ty ack ch pid" _ rest] by (simp add: subscription_wire_def)

text \<open>The datagrams that confirm a subscription when the call reads the socket itself.\<close>

definition ack_reply :: "bytes \<Rightarrow> bytes \<Rightarrow> u64 \<Rightarrow> bytes option \<Rightarrow> bool" where
  "ack_reply recv_buf body_buf pid packet \<longleftrightarrow> (case packet of
     None \<Rightarrow> False
   | Some p \<Rightarrow> p \<noteq> [] \<and> (case krs_frame_create (Some (p @ drop (length p) recv_buf)) (of_nat (length p)) (Some body_buf) 64 of
        None \<Rightarrow> False
      | Some f \<Rightarrow> frame_protocol_char f = 0x4B \<and> frame_frame_type f = frame_type_code MESSAGE_ACK \<and> frame_packet_id f = pid))"

definition subscribe_timeout :: void_r where
  "subscribe_timeout = krs_lib_error_result_base_w_msg KRS_ERR_CLIENT_TIMEOUT ''subscribe ACK timeout''"

lemma subscribe_poll_spec:
  assumes "length recv_buf = 128" and "length body_buf = 64" and "\<forall>(now, packet) \<in> set polls. \<forall>p. packet = Some p \<longrightarrow> length p \<le> 128"
    and "length (cl_subscribed conn) = 256"
  shows "subscribe_poll polls recv_buf body_buf deadline pid ch conn = Some
    (case find (\<lambda>(now, packet). deadline \<le> now \<or> ack_reply recv_buf body_buf pid packet) polls of
       None \<Rightarrow> (None, conn)
     | Some (now, packet) \<Rightarrow>
         if deadline \<le> now then (Some subscribe_timeout, conn)
         else (Some krs_lib_error_result_base_suc, conn\<lparr>cl_subscribed := (cl_subscribed conn)[unat ch := True]\<rparr>))"
  using assms(3)
proof (induction polls)
  case (Cons x polls)
  obtain now packet where x: "x = (now, packet)" by (cases x)
  show ?case
  proof (cases "deadline \<le> now \<or> packet = None \<or> packet = Some []")
    case True
    then show ?thesis using Cons by (auto simp: x ack_reply_def subscribe_timeout_def)
  next
    case False
    then obtain p where p: "packet = Some p" "p \<noteq> []" "length p \<le> 128" using Cons.prems by (auto simp: x)
    have wr: "mem_write recv_buf 0 p = Some (p @ drop (length p) recv_buf)" using p(3) assms(1) by (intro mem_write_start) simp
    have "unat (of_nat (length p) :: u16) = length p" using p(3) by (intro unat_of_nat_small) simp
    then obtain f where f: "krs_frame_create (Some (p @ drop (length p) recv_buf)) (of_nat (length p)) (Some body_buf) 64 = Some f"
      using s_create_frame_safe [of "of_nat (length p)" "p @ drop (length p) recv_buf" 64 body_buf] assms(2)
      by (auto simp: krs_frame_create_def)
    have set: "mem_set (cl_subscribed conn) (unat ch) True = Some ((cl_subscribed conn)[unat ch := True])"
      using channel_index [of ch] assms(4) by (simp add: mem_set_def)
    show ?thesis using Cons False p(1,2) wr f set by (auto simp: x ack_reply_def)
  qed
qed simp


text \<open>
  C23. With the receive thread running a subscription is confirmed by its packet identifier alone: an
  acknowledgement of any channel that carries the identifier the subscription waits for, such as that
  of a message with the same number, ends the wait with success and marks the channel as subscribed.
\<close>

theorem subscribe_confirmed_by_id:
  assumes "client_inv conn" and "round_ok rd" and "cl_pending_subscribe_pid conn \<noteq> 0" and "now < deadline"
  shows "\<exists>conn' conn''. client_receive rd (ack_frame any_channel (cl_pending_subscribe_pid conn)) conn = Some ([], conn') \<and>
    subscribe_wait [(\<lambda>_. conn', now)] deadline ch conn = Some (Some krs_lib_error_result_base_suc, conn'') \<and>
    cl_subscribed conn'' = (cl_subscribed conn)[unat ch := True] \<and> client_inv conn''"
proof -
  obtain conn' where c: "client_receive rd (ack_frame any_channel (cl_pending_subscribe_pid conn)) conn = Some ([], conn')"
      "client_inv conn'" "same_client conn conn'" "cl_subscribe_ack_received conn' = subscribe_seen (cl_pending_subscribe_pid conn) conn"
    using ack_frame_received [OF assms(2,1)] by blast
  have seen: "cl_subscribe_ack_received conn'" using c(4) assms(3) by (simp add: subscribe_seen_def)
  have len: "length (cl_subscribed conn') = 256" using c(2) by (simp add: client_inv_def)
  then have set: "mem_set (cl_subscribed conn') (unat ch) True = Some ((cl_subscribed conn')[unat ch := True])"
    using channel_index [of ch] by (simp add: mem_set_def)
  let ?c = "conn'\<lparr>cl_pending_subscribe_pid := 0, cl_subscribe_ack_received := False, cl_subscribed := (cl_subscribed conn')[unat ch := True]\<rparr>"
  have "subscribe_wait [(\<lambda>_. conn', now)] deadline ch conn = Some (Some krs_lib_error_result_base_suc, ?c)"
    using seen set assms(4) by (simp add: not_le [symmetric] Let_def)
  moreover have "client_inv ?c" using c(2) by (simp add: client_inv_def)
  moreover have "cl_subscribed ?c = (cl_subscribed conn)[unat ch := True]" using c(3) by (simp add: same_client_def)
  ultimately show ?thesis using c(1) by blast
qed

section \<open>Samples\<close>

lemma sample_client_ok: "client_room sample_client" "cl_connected sample_client"
  by (simp_all add: client_room_def sample_client_def new_server_connection_def)


definition sample_connect :: connect_outcome where
  "sample_connect = \<lparr>co_socket = 77, co_bind_fails = False, co_builder = True, co_buf = replicate 64 0, co_send_fails = False,
     co_reply = None, co_recv_buf = replicate 128 0, co_body_buf = replicate 32 0, co_conn = True, co_counter = True, co_now = 0\<rparr>"

theorem client_handshake_witness:
  "\<exists>pt m p f reply w' conn evs wsa'. let addr = krs_network_port_address_create 5000 zero_address;
         server = krs_network_port_address_create 80 zero_address in
     s_route_frame sample_handler 1000 3 f addr (sample_server pt m p) =
       Some (Ev_send (77, addr, reply) # connect_event sample_descriptor (cl_connection_id conn), w') \<and>
     krs_client_server_connect (sample_connect\<lparr>co_reply := Some reply\<rparr>) server \<lparr>wsa_ref_count = 0, wsa_calls = []\<rparr> =
       Some (Some conn, evs, wsa') \<and> client_inv conn \<and> w_conns w' = [9 \<mapsto> new_connection (cl_connection_id conn) addr 1000]"
proof -
  obtain pt m p where s: "sv_inv (sample_server pt m p)" "small_map m" by (rule sample_server_ok)
  let ?w = "sample_server pt m p"
  have w: "w_descs ?w 3 = Some sample_descriptor" "sv_map ?w = Some m" "w_conns ?w = Map.empty" "ds_udp_socket_ref sample_descriptor = 77"
    by (simp_all add: sample_server_def sv_map_def sample_descriptor_def)
  have al: "ha_conn sample_handler = Some 9" by (simp add: sample_handler_def)
  note rd = sample_ready [OF s(2)]
  have ready: "\<forall>f. route_ready sample_handler ?w sample_descriptor f" using rd(1) by blast
  have co: "connect_ok sample_connect" by (simp add: connect_ok_def sample_connect_def)
  have buf: "length (replicate 1500 0 :: bytes) = KRONOS_BUFFER_SIZE" by simp
  from client_handshake [OF s(1) w(1) rd(3) al sample_handler_ok(3) rd(4) w(2) ready co buf,
      where addr = "krs_network_port_address_create 5000 zero_address" and now = 1000
        and server_addr = "krs_network_port_address_create 80 zero_address" and wsa = "\<lparr>wsa_ref_count = 0, wsa_calls = []\<rparr>"]
  show ?thesis unfolding Let_def w(3,4) by blast
qed

theorem client_message_delivered_witness:
  "\<exists>w w1 w2 al res evs conn1 conn2 g f. let addr = krs_network_port_address_create 5000 zero_address in
     s_route_frame sample_handler 1000 3 g addr w = Some ([Ev_send (77, addr, ack_frame 0 1)], w1) \<and>
     krs_client_send al 1000 12 (Some [1, 2, 3]) 3 True (Some sample_client) = Some (res, evs, Some conn1) \<and>
     s_route_frame sample_handler 1000 3 f addr w1 =
       Some ([Ev_send (77, addr, ack_frame 12 0), Ev_message 4 12 1 (Some ([1, 2, 3] @ replicate 1497 0)) 3 0], w2) \<and>
     client_receive (sample_round []) (ack_frame 12 0) conn1 = Some ([], conn2)"
proof -
  let ?addr = "krs_network_port_address_create 5000 zero_address" and ?d = "\<lambda>sts. sample_descriptor\<lparr>ds_channel_states := sts\<rparr>"
  obtain w sts m where w: "sv_inv w" "w_descs w 3 = Some (?d sts)" "desc_small (?d sts)" "conn_at w (?d sts) 0 ?addr = Some 9"
      "w_conns w 9 = Some (new_connection 1 ?addr 1000)" by (rule sample_connected)
  let ?al = "sample_send\<lparr>sd_congestion := False\<rparr>"
  have len: "length [1, 2, 3 :: u8] = unat (3 :: u16)" "unat (3 :: u16) \<le> KRS_MAX_PAYLOAD_PER_FRAGMENT" "10 \<le> (12 :: u8)" by simp_all
  have al: "1500 \<le> length (sd_buf ?al)" "send_mem_ok ?al" using sample_send_ok by (simp_all add: send_mem_ok_def)
  have pid: "client_pid sample_client 12 = 0" by (simp add: client_pid_def sample_client_def new_server_connection_def)
  have "client_window ?al sample_client = Some (True, sample_client)"
    by (simp add: client_window_def sample_client_def new_server_connection_def krs_congestion_create_def)
  then obtain res evs conn1 where send: "krs_client_send ?al 1000 12 (Some [1, 2, 3]) 3 True (Some sample_client) = Some (res, evs, Some conn1)"
      "rb_valid res"
    using client_send_result [OF sample_client_inv sample_client_ok(2,1) len(1) al(1), of 1000 12 True] al(2) by auto
  have rd: "round_ok (sample_round [])" by (simp add: round_ok_def sample_round_def)
  have buf: "length (replicate 1500 0 :: bytes) = KRONOS_BUFFER_SIZE" by simp
  have ev: "message_event (?d sts) 1 f = [Ev_message 4 12 1 (frame_body f) (frame_body_length f) 0]" if "frame_channel f = 12" for f
    using that by (simp add: message_event_def sample_descriptor_def zero_descriptor_def nth_Cons')
  have sock: "ds_udp_socket_ref (?d sts) = 77" "cn_connection_id (new_connection 1 ?addr 1000) = 1"
    by (simp_all add: sample_descriptor_def new_connection_def)
  from client_message_delivered [OF sample_client_inv sample_client_ok(2,1) len(1,2) al(1) send w(1-3) sample_handler_ok len(3) w(4,5) buf rd,
      where ?now0.0 = 1000 and ?now1.0 = 1000 and ?pid0.0 = 1 and rest = "[]" and rest' = "[]"]
  obtain g w1 f w2 conn2 where
    "s_route_frame sample_handler 1000 3 g ?addr w = Some ([Ev_send (77, ?addr, ack_frame 0 1)], w1)"
    "s_route_frame sample_handler 1000 3 f ?addr w1 = Some (Ev_send (77, ?addr, ack_frame 12 0) # message_event (?d sts) 1 f, w2)"
    "frame_channel f = 12" "frame_body f = Some ([1, 2, 3] @ replicate 1497 0)" "frame_body_length f = 3"
    "client_receive (sample_round []) (ack_frame 12 0) conn1 = Some ([], conn2)"
    unfolding pid sock by auto
  with send(1) ev show ?thesis unfolding Let_def by fastforce
qed


theorem subscribe_confirmed_by_id_witness:
  "\<exists>conn' conn''. let conn = sample_client\<lparr>cl_pending_subscribe_pid := 7\<rparr> in
     client_receive (sample_round []) (ack_frame 12 7) conn = Some ([], conn') \<and>
     subscribe_wait [(\<lambda>_. conn', 1500)] 2000 20 conn = Some (Some krs_lib_error_result_base_suc, conn'') \<and> cl_subscribed conn'' ! 20"
proof -
  let ?conn = "sample_client\<lparr>cl_pending_subscribe_pid := 7\<rparr>"
  have inv: "client_inv ?conn" "length (cl_subscribed ?conn) = 256" using sample_client_inv by (simp_all add: client_inv_def)
  have rd: "round_ok (sample_round [])" by (simp add: round_ok_def sample_round_def)
  obtain conn' conn'' where c: "client_receive (sample_round []) (ack_frame 12 (cl_pending_subscribe_pid ?conn)) ?conn = Some ([], conn')"
      "subscribe_wait [(\<lambda>_. conn', 1500)] 2000 20 ?conn = Some (Some krs_lib_error_result_base_suc, conn'')"
      "cl_subscribed conn'' = (cl_subscribed ?conn)[unat (20 :: u8) := True]"
    using subscribe_confirmed_by_id [OF inv(1) rd, of 1500 2000 12 20] by auto
  have pid: "cl_pending_subscribe_pid ?conn = 7" by simp
  have "cl_subscribed conn'' ! 20" using c(3) inv(2) by simp
  then show ?thesis unfolding Let_def using c(1,2) unfolding pid by blast
qed

end
