(* ===== verification/Kronos_Blocking_Send.thy ===== *)
theory Kronos_Blocking_Send
  imports Kronos_Client_Protocol
begin

text \<open>
  The blocking sends of the server and the client return. The loop is studied once, over any send that
  promises to return and, when it fails, to send nothing and to leave a state in which it can be tried
  again; the sends of the server and of the client keep this promise.
\<close>

section \<open>The loop\<close>

definition window_full :: "void_r \<Rightarrow> bool" where
  "window_full res \<longleftrightarrow> \<not> rb_valid res \<and> rb_error_code res = KRS_ERR_SERVER_CONGESTION_WINDOW_FULL"

text \<open>The delays between two attempts: 1, 2, 4, \dots, 64 milliseconds, cut at the deadline.\<close>

definition backoffs :: "u32 set" where
  "backoffs = {1, 2, 4, 8, 16, 32, 64}"

lemma backoffs_next: "b \<in> backoffs \<Longrightarrow> (if b < 50 then b * 2 else b) \<in> backoffs"
  by (auto simp: backoffs_def)

lemma backoffs_bounds: "b \<in> backoffs \<Longrightarrow> 0 < b \<and> b \<le> 64"
  by (auto simp: backoffs_def)

lemma sleep_bounds:
  fixes remaining :: u64
  assumes "b \<in> backoffs" and "0 < remaining"
  shows "0 < (if ucast b < remaining then b else ucast remaining) \<and> (if ucast b < remaining then b else ucast remaining) \<le> 64"
proof (cases "ucast b < remaining")
  case False
  have b: "unat b \<le> 64" using backoffs_bounds [OF assms(1)] by (simp add: word_le_nat_alt)
  have "unat (ucast b :: u64) = unat b" by (rule unat_ucast_widen) simp
  then have "unat remaining \<le> 64" using False b by (simp add: word_less_nat_alt)
  moreover from this have "unat (ucast remaining :: u32) = unat remaining" by (simp add: unsigned_ucast_eq take_bit_nat_eq_self)
  ultimately show ?thesis using False assms(2) by (simp add: word_le_nat_alt word_less_nat_alt)
qed (use backoffs_bounds [OF assms(1)] in simp)

text \<open>What the other threads and the allocator may do between two attempts.\<close>

definition rounds_keep :: "('w \<Rightarrow> bool) \<Rightarrow> (send_alloc \<Rightarrow> bool) \<Rightarrow> 'w send_round list \<Rightarrow> bool" where
  "rounds_keep rdy ok rds \<longleftrightarrow> (\<forall>rd \<in> set rds. ok (sr_alloc rd) \<and> (\<forall>w. rdy w \<longrightarrow> rdy (sr_others rd w)))"

locale retryable_send =
  fixes send :: "send_alloc \<Rightarrow> u64 \<Rightarrow> 'w \<Rightarrow> (void_r \<times> event list \<times> 'w) option"
    and rdy :: "'w \<Rightarrow> bool" and ok :: "send_alloc \<Rightarrow> bool"
  assumes send_returns: "rdy w \<Longrightarrow> ok al \<Longrightarrow>
    \<exists>res evs w'. send al now w = Some (res, evs, w') \<and> (rb_valid res \<or> evs = [] \<and> rdy w')"
begin

text \<open>
  The loop returns once the clock has passed the deadline; what it returns and what it has sent are those of
  one single send; a full window is reported only after the deadline.
\<close>

lemma loop_returns:
  assumes "rdy w" and "rounds_keep rdy ok rds" and "\<exists>rd \<in> set rds. deadline \<le> sr_later rd" and "b \<in> backoffs"
  shows "\<exists>res evs sleeps w' w0 rd. send_blocking_loop send rds deadline b w = Some (Some res, evs, sleeps, w') \<and>
    rdy w0 \<and> rd \<in> set rds \<and> send (sr_alloc rd) (sr_now rd) w0 = Some (res, evs, w') \<and> (window_full res \<longrightarrow> deadline \<le> sr_later rd) \<and>
    (\<forall>ms \<in> set sleeps. 0 < ms \<and> ms \<le> 64)"
  using assms
proof (induction rds arbitrary: b w)
  case (Cons rd rds)
  have ok: "ok (sr_alloc rd)" "\<And>w. rdy w \<Longrightarrow> rdy (sr_others rd w)" "rounds_keep rdy ok rds"
    using Cons.prems(2) by (auto simp: rounds_keep_def)
  obtain res evs w' where s: "send (sr_alloc rd) (sr_now rd) w = Some (res, evs, w')" "rb_valid res \<or> evs = [] \<and> rdy w'"
    using send_returns [OF Cons.prems(1) ok(1), of "sr_now rd"] by blast
  show ?case
  proof (cases "window_full res \<and> \<not> deadline \<le> sr_later rd")
    case False
    then have "send_blocking_loop send (rd # rds) deadline b w = Some (Some res, evs, [], w')"
      using s(1) by (auto simp: window_full_def)
    moreover have "rd \<in> set (rd # rds)" "window_full res \<longrightarrow> deadline \<le> sr_later rd" using False by auto
    ultimately show ?thesis using Cons.prems(1) s(1)
      by (intro exI [of _ res] exI [of _ evs] exI [of _ "[]"] exI [of _ w'] exI [of _ w] exI [of _ rd]) simp
  next
    case True
    then have more: "\<exists>rd \<in> set rds. deadline \<le> sr_later rd" and rdy: "rdy (sr_others rd w')" and evs: "evs = []"
      using Cons.prems(3) s(2) ok(2) by (auto simp: window_full_def)
    obtain res1 evs1 sleeps w1 w0 rd1 where
      r: "send_blocking_loop send rds deadline (if b < 50 then b * 2 else b) (sr_others rd w') = Some (Some res1, evs1, sleeps, w1)"
        "rdy w0" "rd1 \<in> set rds" "send (sr_alloc rd1) (sr_now rd1) w0 = Some (res1, evs1, w1)"
        "window_full res1 \<longrightarrow> deadline \<le> sr_later rd1" "\<forall>ms \<in> set sleeps. 0 < ms \<and> ms \<le> 64"
      using Cons.IH [OF rdy ok(3) more backoffs_next [OF Cons.prems(4)]] by blast
    let ?sleep = "if ucast b < deadline - sr_later rd then b else ucast (deadline - sr_later rd)"
    have "send_blocking_loop send (rd # rds) deadline b w = Some (Some res1, evs1, ?sleep # sleeps, w1)"
      using s(1) True evs r(1) by (simp add: window_full_def Let_def)
    moreover have "0 < deadline - sr_later rd" using True by (simp add: not_le word_less_nat_alt unat_sub_if')
    with sleep_bounds [OF Cons.prems(4)] have "0 < ?sleep \<and> ?sleep \<le> 64" .
    ultimately show ?thesis using r(2-6)
      by (intro exI [of _ res1] exI [of _ evs1] exI [of _ "?sleep # sleeps"] exI [of _ w1] exI [of _ w0] exI [of _ rd1]) auto
  qed
qed simp

end

section \<open>The client\<close>

definition client_ready :: "socket \<Rightarrow> port_address \<Rightarrow> server_connection option \<Rightarrow> bool" where
  "client_ready sock addr connection \<longleftrightarrow> (case connection of
     None \<Rightarrow> False
   | Some conn \<Rightarrow> client_inv conn \<and> cl_connected conn \<and> client_room conn \<and> cl_socket conn = sock \<and> cl_server_address conn = addr)"

definition send_buf_ok :: "send_alloc \<Rightarrow> bool" where
  "send_buf_ok al \<longleftrightarrow> KRONOS_BUFFER_SIZE \<le> length (sd_buf al)"

definition client_sendable :: "bytes \<Rightarrow> u16 \<Rightarrow> socket \<Rightarrow> port_address \<Rightarrow> server_connection option \<Rightarrow> bool" where
  "client_sendable data len sock addr connection \<longleftrightarrow> length data = unat len \<and> client_ready sock addr connection"

interpretation client_blocking: retryable_send "\<lambda>al now. krs_client_send al now ch (Some data) len True"
    "client_sendable data len sock addr" send_buf_ok for ch data len sock addr
proof
  fix connection al now
  assume "client_sendable data len sock addr connection" and "send_buf_ok al"
  then obtain conn where conn: "connection = Some conn" "client_inv conn" "cl_connected conn" "client_room conn"
      "cl_socket conn = sock" "cl_server_address conn = addr" and len: "length data = unat len" and buf: "1500 \<le> length (sd_buf al)"
    by (auto simp: client_sendable_def client_ready_def send_buf_ok_def split: option.splits)
  from client_send_result [OF conn(2-4) len buf, of now ch True] obtain res evs conn' where
    r: "krs_client_send al now ch (Some data) len True (Some conn) = Some (res, evs, Some conn')" "client_inv conn'"
      "same_client conn conn'" "rb_valid res \<or> evs = [] \<and> client_room conn'"
    by (auto split: if_splits)
  have "rb_valid res \<or> evs = [] \<and> client_sendable data len sock addr (Some conn')"
    using r conn len by (auto simp: client_sendable_def client_ready_def same_client_def)
  with r(1) conn(1) show "\<exists>res evs w'. krs_client_send al now ch (Some data) len True connection = Some (res, evs, w') \<and>
      (rb_valid res \<or> evs = [] \<and> client_sendable data len sock addr w')" by blast
qed

text \<open>
  C14. The blocking send of the client returns. Once the clock has passed the deadline the call has returned,
  whatever the allocations do and whatever the other threads do between the attempts as long as the
  connection stays up and well-formed. A full congestion window is reported only after the deadline. A
  failed call has sent nothing; a successful one has sent the frames of the message exactly once, under one
  packet identifier. The thread sleeps between 1 and 64 milliseconds at a time.
\<close>

theorem krs_client_send_blocking_returns:
  assumes "length data = unat len" and "client_ready sock addr connection"
    and "rounds_keep (client_ready sock addr) send_buf_ok rds" and "\<exists>rd \<in> set rds. start + ucast timeout_ms \<le> sr_later rd"
  shows "\<exists>res evs sleeps connection' rd pid. krs_client_send_blocking rds start ch (Some data) len timeout_ms connection =
      Some (Some res, evs, sleeps, connection') \<and>
    rd \<in> set rds \<and> (window_full res \<longrightarrow> start + ucast timeout_ms \<le> sr_later rd) \<and>
    evs = (if rb_valid res then map (\<lambda>b. Ev_send (sock, addr, b)) (message_frames ch pid data True) else []) \<and>
    (\<forall>ms \<in> set sleeps. 0 < ms \<and> ms \<le> 64)"
proof -
  have start: "client_sendable data len sock addr connection" "rounds_keep (client_sendable data len sock addr) send_buf_ok rds"
    using assms(1-3) by (auto simp: client_sendable_def rounds_keep_def)
  have "(1 :: u32) \<in> backoffs" by (simp add: backoffs_def)
  from client_blocking.loop_returns [OF start assms(4) this] obtain res evs sleeps connection' c0 rd where
    r: "krs_client_send_blocking rds start ch (Some data) len timeout_ms connection = Some (Some res, evs, sleeps, connection')"
      "client_sendable data len sock addr c0" "rd \<in> set rds"
      "krs_client_send (sr_alloc rd) (sr_now rd) ch (Some data) len True c0 = Some (res, evs, connection')"
      "window_full res \<longrightarrow> start + ucast timeout_ms \<le> sr_later rd" "\<forall>ms \<in> set sleeps. 0 < ms \<and> ms \<le> 64"
    unfolding krs_client_send_blocking_def by blast
  obtain conn where conn: "c0 = Some conn" "client_inv conn" "cl_connected conn" "client_room conn"
      "cl_socket conn = sock" "cl_server_address conn = addr"
    using r(2) by (auto simp: client_sendable_def client_ready_def split: option.splits)
  have buf: "1500 \<le> length (sd_buf (sr_alloc rd))" using start(2) r(3) by (auto simp: rounds_keep_def send_buf_ok_def)
  have "evs = (if rb_valid res then map (\<lambda>b. Ev_send (sock, addr, b)) (message_frames ch (client_pid conn ch) data True) else [])"
    using client_send_result [OF conn(2-4) assms(1) buf, of "sr_now rd" ch True] r(4) conn(1,5,6) by (auto split: if_splits)
  with r show ?thesis
    by (intro exI [of _ res] exI [of _ evs] exI [of _ sleeps] exI [of _ connection'] exI [of _ rd] exI [of _ "client_pid conn ch"]) simp
qed

theorem krs_client_send_blocking_returns_witness:
  "\<exists>res evs sleeps connection'. krs_client_send_blocking
     [\<lparr>sr_alloc = sample_send, sr_now = 1000, sr_later = 1001, sr_others = (\<lambda>w. w)\<rparr>,
      \<lparr>sr_alloc = sample_send, sr_now = 1002, sr_later = 1500, sr_others = (\<lambda>w. w)\<rparr>]
     1000 12 (Some [1, 2, 3]) 3 500 (Some sample_client) = Some (Some res, evs, sleeps, connection')"
proof -
  let ?rds = "[\<lparr>sr_alloc = sample_send, sr_now = 1000, sr_later = 1001, sr_others = (\<lambda>w. w)\<rparr>,
      \<lparr>sr_alloc = sample_send, sr_now = 1002, sr_later = 1500, sr_others = (\<lambda>w. w)\<rparr>] :: server_connection option send_round list"
  have len: "length [1, 2, 3 :: u8] = unat (3 :: u16)" by simp
  have ready: "client_ready 77 (krs_network_port_address_create 80 zero_address) (Some sample_client)"
    using sample_client_inv sample_client_ok
    by (simp add: client_ready_def) (simp add: sample_client_def new_server_connection_def)
  have rds: "rounds_keep (client_ready 77 (krs_network_port_address_create 80 zero_address)) send_buf_ok ?rds"
      "\<exists>rd \<in> set ?rds. 1000 + ucast (500 :: u32) \<le> sr_later rd"
    using sample_send_ok(1) by (simp_all add: rounds_keep_def send_buf_ok_def)
  from krs_client_send_blocking_returns [OF len ready rds, of 12] show ?thesis by blast
qed

section \<open>The server\<close>

definition server_sendable :: "bytes \<Rightarrow> u16 \<Rightarrow> world \<Rightarrow> bool" where
  "server_sendable data len w \<longleftrightarrow> length data = unat len \<and> sv_inv w \<and> (\<forall>r c. w_conns w r = Some c \<longrightarrow> can_track c)"

lemma server_send_unknown:
  assumes "sv_inv w" and "sv_map w = Some m" and "ids_of m cid = None"
  shows "krs_server_send al now cid ch (Some data) len ack w =
    Some (krs_lib_error_result_base_w_msg KRS_ERR_INVALID_PARAMETER ''connection_id not found'', [], w)"
proof -
  obtain spm where spm: "w_spm w = Some spm" "spm_connection_map spm = Some m"
    using assms(2) by (auto simp: sv_map_def split: Option.bind_splits)
  have "cm_ok m" using assms(1,2) by (auto simp: sv_inv_def)
  from cm_get_spec [OF this, of cid] assms(3) have "krs_connection_map_get (Some m) cid = Some None" by auto
  then have "krs_connection_map_acquire (w_conns w) (Some m) cid = Some (None, w_conns w)"
    by (simp add: krs_connection_map_acquire_def)
  with spm show ?thesis by (cases w) (simp add: krs_server_send_def)
qed

interpretation server_blocking: retryable_send "\<lambda>al now. krs_server_send al now cid ch (Some data) len True"
    "server_sendable data len" send_buf_ok for cid ch data len
proof
  fix w al now
  assume w: "server_sendable data len w" and "send_buf_ok al"
  then have inv: "sv_inv w" "\<And>r c. w_conns w r = Some c \<Longrightarrow> can_track c" and len: "length data = unat len" and buf: "1500 \<le> length (sd_buf al)"
    by (auto simp: server_sendable_def send_buf_ok_def)
  obtain m where m: "sv_map w = Some m" "map_conns_ok w m" using inv(1) by (auto simp: sv_inv_def)
  show "\<exists>res evs w'. krs_server_send al now cid ch (Some data) len True w = Some (res, evs, w') \<and>
      (rb_valid res \<or> evs = [] \<and> server_sendable data len w')"
  proof (cases "ids_of m cid")
    case None
    with server_send_unknown [OF inv(1) m(1)] w show ?thesis by blast
  next
    case (Some e)
    then obtain d r c where "e = (Some d, Some r)" "w_descs w d \<noteq> None" "w_conns w r = Some c"
      using m(2) unfolding map_conns_ok_def by blast
    with Some obtain desc where e: "ids_of m cid = Some (Some d, Some r)" "w_descs w d = Some desc" "w_conns w r = Some c" by auto
    from server_send_result [OF inv(1) m(1) e(1,3,2) inv(2) [OF e(3)] len buf, where ch = ch and now = now and ack = True] obtain res evs w' c' where
      s: "krs_server_send al now cid ch (Some data) len True w = Some (res, evs, w')" "sv_inv w'"
        "w_conns w' = (w_conns w)(r \<mapsto> c')" "\<not> rb_valid res \<longrightarrow> can_track c'" "\<not> rb_valid res \<longrightarrow> evs = []"
      unfolding Let_def by fastforce
    have "server_sendable data len w'" if "\<not> rb_valid res"
      using that s(2-4) inv(2) len by (auto simp: server_sendable_def)
    with s(1,5) show ?thesis by blast
  qed
qed

text \<open>
  C21. The blocking send of the server returns. Once the clock has passed the deadline the call has returned,
  whatever the other threads do between the attempts as long as they keep the invariant of the
  server; they may even remove the connection. The result, the datagrams and the state of the server are
  those of one single send, and a full window is reported only after the deadline.
\<close>

theorem krs_server_send_blocking_returns:
  assumes "server_sendable data len w" and "rounds_keep (server_sendable data len) send_buf_ok rds"
    and "\<exists>rd \<in> set rds. start + ucast timeout_ms \<le> sr_later rd"
  shows "\<exists>res evs sleeps w' w0 rd. krs_server_send_blocking rds start cid ch (Some data) len timeout_ms w =
      Some (Some res, evs, sleeps, w') \<and>
    server_sendable data len w0 \<and> rd \<in> set rds \<and>
    krs_server_send (sr_alloc rd) (sr_now rd) cid ch (Some data) len True w0 = Some (res, evs, w') \<and>
    (window_full res \<longrightarrow> start + ucast timeout_ms \<le> sr_later rd) \<and> (\<forall>ms \<in> set sleeps. 0 < ms \<and> ms \<le> 64)"
  unfolding krs_server_send_blocking_def using assms
  by (rule server_blocking.loop_returns) (simp add: backoffs_def)

theorem krs_server_send_blocking_returns_witness:
  "\<exists>w m res evs sleeps w'. sv_map w = Some m \<and> ids_of m 1 = Some (Some 3, Some 9) \<and> krs_server_send_blocking [\<lparr>sr_alloc = sample_send, sr_now = 1000, sr_later = 1500, sr_others = (\<lambda>w. w)\<rparr>]
     1000 1 12 (Some [1, 2, 3]) 3 500 w = Some (Some res, evs, sleeps, w')"
proof -
  let ?addr = "krs_network_port_address_create 5000 zero_address"
  obtain w sts m where w: "sv_inv w" "w_conns w = [9 \<mapsto> new_connection 1 ?addr 1000]" "sv_map w = Some m" "ids_of m 1 = Some (Some 3, Some 9)"
    by (rule sample_connected)
  have "can_track (new_connection 1 ?addr 1000)" by (simp add: can_track_def new_connection_def)
  then have "server_sendable [1, 2, 3] 3 w" using w by (auto simp: server_sendable_def split: if_splits)
  moreover have "rounds_keep (server_sendable [1, 2, 3] 3) send_buf_ok
      [\<lparr>sr_alloc = sample_send, sr_now = 1000, sr_later = 1500, sr_others = (\<lambda>w. w)\<rparr>]"
    using sample_send_ok(1) by (simp add: rounds_keep_def send_buf_ok_def)
  ultimately have "\<exists>res evs sleeps w'. krs_server_send_blocking [\<lparr>sr_alloc = sample_send, sr_now = 1000, sr_later = 1500, sr_others = (\<lambda>w. w)\<rparr>]
     1000 1 12 (Some [1, 2, 3]) 3 500 w = Some (Some res, evs, sleeps, w')"
    using krs_server_send_blocking_returns [of "[1, 2, 3]" 3 w
        "[\<lparr>sr_alloc = sample_send, sr_now = 1000, sr_later = 1500, sr_others = (\<lambda>w. w)\<rparr>]" 1000 500 1 12] by fastforce
  with w(3,4) show ?thesis by blast
qed

end
