(* ===== verification/Kronos_Server_Lifecycle.thy ===== *)
theory Kronos_Server_Lifecycle
  imports Kronos_Blocking_Send
begin

text \<open>
  Starting and stopping the server: \<open>iocp_lifecycle.c\<close>. Threads and completion ports are handles of the
  operating system; the calls that create, wait for and close them are events, and their results are
  arguments. What the threads of the server do while the caller waits for them is an argument too. The
  second half of the theory shows what stopping a running server does; starting is in
  \<open>Kronos_Server_Start\<close>.
\<close>

section \<open>Receive contexts\<close>

definition zero_port_address :: port_address where
  "zero_port_address = \<lparr>sin6_family = 0, sin6_port = 0, sin6_flowinfo = 0, sin6_addr = zero_address, sin6_scope_id = 0\<rparr>"

text \<open>What \<open>calloc\<close> returns, and whether the socket could be associated with the completion port.\<close>

record post_outcome =
  po_ctx :: "ctx_ref option"
  po_associated :: bool

definition s_post_initial_recv :: "post_outcome \<Rightarrow> handle \<Rightarrow> desc_ref \<Rightarrow> world \<Rightarrow> (event list \<times> world) option" where
  "s_post_initial_recv po iocp d w = do {
     desc \<leftarrow> w_descs w d;
     case po_ctx po of
       None \<Rightarrow> Some ([], w)
     | Some x \<Rightarrow>
         let ctx = \<lparr>uo_buffer = replicate KRONOS_BUFFER_SIZE 0, uo_remote_addr = zero_port_address,
                    uo_port = ds_port desc, uo_socket = ds_udp_socket_ref desc\<rparr>;
             w = set_desc d (desc\<lparr>ds_recv_ctx := Some x\<rparr>) (w\<lparr>w_ctxs := (w_ctxs w)(x \<mapsto> ctx)\<rparr>)
         in Some (Ev_io (Associate iocp (ds_udp_socket_ref desc) (ds_port desc)) #
                  (if po_associated po then [Ev_io (Recv_from (ds_udp_socket_ref desc) x)] else []), w) }"

text \<open>Freeing the context of a descriptor; freeing it twice would be undefined.\<close>

definition free_recv_ctx :: "desc_ref \<Rightarrow> world \<Rightarrow> (event list \<times> world) option" where
  "free_recv_ctx d w = do {
     desc \<leftarrow> w_descs w d;
     case ds_recv_ctx desc of
       None \<Rightarrow> Some ([], w)
     | Some x \<Rightarrow> do {
         _ \<leftarrow> w_ctxs w x;
         Some ([], set_desc d (desc\<lparr>ds_recv_ctx := None\<rparr>) (w\<lparr>w_ctxs := (w_ctxs w)(x := None)\<rparr>)) } }"

text \<open>A loop over the descriptors of the server, if it has a list of them.\<close>

definition for_descriptors ::
    "(nat \<Rightarrow> desc_ref \<Rightarrow> world \<Rightarrow> (event list \<times> world) option) \<Rightarrow> server_port_manager \<Rightarrow> world \<Rightarrow> (event list \<times> world) option" where
  "for_descriptors f spm w =
     (case spm_descriptor_list spm of
        None \<Rightarrow> Some ([], w)
      | Some list \<Rightarrow> each_descriptor f list 0 (unat (krs_array_length (Some list))) w)"

section \<open>Threads\<close>

text \<open>
  The loop that creates the threads: it stops at the first that cannot be created. The result is whether all
  were created, how many, and the array of handles.
\<close>

fun create_threads ::
    "(nat \<Rightarrow> handle option) \<Rightarrow> nat \<Rightarrow> nat \<Rightarrow> handle option list \<Rightarrow> (bool \<times> nat \<times> handle option list) option" where
  "create_threads outcome i 0 threads = Some (True, i, threads)"
| "create_threads outcome i (Suc n) threads = do {
     threads \<leftarrow> mem_set threads i (outcome i);
     if outcome i = None then Some (False, i, threads)
     else create_threads outcome (Suc i) n threads }"

text \<open>Waiting for the first threads of an array and closing their handles.\<close>

fun read_handles :: "handle option list \<Rightarrow> nat \<Rightarrow> nat \<Rightarrow> handle list option" where
  "read_handles threads i 0 = Some []"
| "read_handles threads i (Suc n) = do {
     c \<leftarrow> mem_get threads i;
     h \<leftarrow> c;
     hs \<leftarrow> read_handles threads (Suc i) n;
     Some (h # hs) }"

definition join_threads :: "u32 \<Rightarrow> nat \<Rightarrow> handle option list option \<Rightarrow> event list option" where
  "join_threads timeout_ms n threads = do {
     ts \<leftarrow> threads;
     hs \<leftarrow> read_handles ts 0 n;
     Some (Ev_io (Wait_threads hs timeout_ms) # map (\<lambda>h. Ev_io (Close_handle h)) hs) }"

section \<open>Starting\<close>

text \<open>
  The results of the calls: the completion port, the allocations of the queue, the pool (with the identifier
  and the address of its storage) and the map, the receive contexts, and the threads. \<open>st_others k\<close> is what
  threads that run already do: when the failure path begins, while it waits for the handler threads and
  while it waits for the completion port threads. What they do while the function goes on creating
  threads comes after it in the model: from there on it writes only handles and counts that no thread reads.
\<close>

record start_outcome =
  st_iocp :: "handle option"
  st_queue :: bool
  st_items :: bool
  st_pool :: bool
  st_pool_id :: pool_id
  st_storage :: "msg_ptr option"
  st_stack :: bool
  st_map :: bool
  st_ids :: bool
  st_addrs :: bool
  st_post :: "nat \<Rightarrow> post_outcome"
  st_iocp_array :: bool
  st_iocp_thread :: "nat \<Rightarrow> handle option"
  st_handler_array :: bool
  st_handler_thread :: "nat \<Rightarrow> handle option"
  st_retransmit :: "handle option"
  st_others :: "nat \<Rightarrow> world \<Rightarrow> world"

text \<open>The flags the function keeps for its failure path; Winsock is initialized whenever it is taken.\<close>

record start_progress =
  sp_iocp_created :: bool
  sp_queue_created :: bool
  sp_pool_created :: bool
  sp_map_created :: bool
  sp_running_set :: bool
  sp_iocp_started :: nat
  sp_handler_started :: nat

definition no_progress :: start_progress where
  "no_progress = \<lparr>sp_iocp_created = False, sp_queue_created = False, sp_pool_created = False, sp_map_created = False,
     sp_running_set = False, sp_iocp_started = 0, sp_handler_started = 0\<rparr>"

text \<open>Destroying the pool the manager refers to, with the messages in its storage, and the queue.\<close>

definition destroy_pool :: "world \<Rightarrow> world option" where
  "destroy_pool w = do {
     spm \<leftarrow> w_spm w;
     case spm_message_pool spm of
       None \<Rightarrow> Some w
     | Some a \<Rightarrow> do {
         p \<leftarrow> w_pools w a;
         Some (set_spm (spm\<lparr>spm_message_pool := None\<rparr>)
           (w\<lparr>w_pools := (w_pools w)(a := krs_message_pool_destroy (Some p)),
              w_msgs := (\<lambda>m. if in_storage p m then None else w_msgs w m)\<rparr>)) } }"

definition forget_messages :: "msg_ptr list \<Rightarrow> world \<Rightarrow> world" where
  "forget_messages freed w = w\<lparr>w_msgs := (\<lambda>m. if m \<in> set freed then None else w_msgs w m)\<rparr>"

definition destroy_queue :: "world \<Rightarrow> world option" where
  "destroy_queue w = do {
     spm \<leftarrow> w_spm w;
     (q, ps, freed) \<leftarrow> krs_message_queue_destroy (spm_message_queue spm) (w_pools w);
     Some (forget_messages freed (set_spm (spm\<lparr>spm_message_queue := q\<rparr>) (w\<lparr>w_pools := ps\<rparr>))) }"

definition fail_handlers :: "start_outcome \<Rightarrow> start_progress \<Rightarrow> world \<Rightarrow> (event list \<times> world) option" where
  "fail_handlers so sp w = do {
     (evs, w) \<leftarrow> (if sp_handler_started sp > 0 then do {
         spm \<leftarrow> w_spm w;
         let w = st_others so 1 (set_spm (spm\<lparr>spm_message_queue := krs_message_queue_stop (spm_message_queue spm)\<rparr>) w);
         spm \<leftarrow> w_spm w;
         evs \<leftarrow> join_threads 2000 (sp_handler_started sp) (spm_handler_threads spm);
         Some (evs, w) }
       else Some ([], w));
     spm \<leftarrow> w_spm w;
     Some (evs, if spm_handler_threads spm \<noteq> None
                then set_spm (spm\<lparr>spm_handler_threads := None, spm_handler_thread_count := 0\<rparr>) w else w) }"

definition fail_iocp :: "start_outcome \<Rightarrow> start_progress \<Rightarrow> world \<Rightarrow> (event list \<times> world) option" where
  "fail_iocp so sp w = do {
     (evs, w) \<leftarrow> (if sp_iocp_started sp > 0 then do {
         spm \<leftarrow> w_spm w;
         let posts = replicate (sp_iocp_started sp) (Ev_io (Post_shutdown (spm_iocp_handle spm)));
         let w = st_others so 2 w;
         spm \<leftarrow> w_spm w;
         evs \<leftarrow> join_threads 2000 (sp_iocp_started sp) (spm_iocp_threads spm);
         Some (posts @ evs, w) }
       else Some ([], w));
     spm \<leftarrow> w_spm w;
     Some (evs, if spm_iocp_threads spm \<noteq> None
                then set_spm (spm\<lparr>spm_iocp_threads := None, spm_iocp_thread_count := 0\<rparr>) w else w) }"

definition close_iocp :: "server_port_manager \<Rightarrow> event list" where
  "close_iocp spm = (case spm_iocp_handle spm of None \<Rightarrow> [] | Some h \<Rightarrow> [Ev_io (Close_handle h)])"

definition start_fail ::
    "start_outcome \<Rightarrow> start_progress \<Rightarrow> void_r \<Rightarrow> event list \<Rightarrow> world \<Rightarrow> (void_r \<times> event list \<times> world) option" where
  "start_fail so sp result evs w = do {
     let w = (if sp_iocp_started sp > 0 then st_others so 0 w else w);
     spm \<leftarrow> w_spm w;
     let w = (if sp_running_set sp then set_spm (spm\<lparr>spm_running := False\<rparr>) w else w);
     (evs1, w) \<leftarrow> fail_handlers so sp w;
     (evs2, w) \<leftarrow> fail_iocp so sp w;
     spm \<leftarrow> w_spm w;
     let w = (if sp_map_created sp
              then set_spm (spm\<lparr>spm_connection_map := krs_connection_map_destroy (spm_connection_map spm)\<rparr>) w else w);
     w \<leftarrow> (if sp_pool_created sp then destroy_pool w else Some w);
     w \<leftarrow> (if sp_queue_created sp then destroy_queue w else Some w);
     spm \<leftarrow> w_spm w;
     let evs3 = (if sp_iocp_created sp then close_iocp spm else []);
     let w = (if sp_iocp_created sp then set_spm (spm\<lparr>spm_iocp_handle := None\<rparr>) w else w);
     Some (result, evs @ evs1 @ evs2 @ evs3, w\<lparr>w_wsa := krs_wsa_cleanup (w_wsa w)\<rparr>) }"


text \<open>The second half: receives are posted and the threads are created.\<close>

definition start_threads ::
    "start_outcome \<Rightarrow> handle \<Rightarrow> event list \<Rightarrow> world \<Rightarrow> (void_r \<times> event list \<times> world) option" where
  "start_threads so iocp evs w = do {
     spm \<leftarrow> w_spm w;
     (posted, w) \<leftarrow> for_descriptors (\<lambda>i d. s_post_initial_recv (st_post so i) iocp d) spm w;
     let evs = evs @ posted;
     let sp = \<lparr>sp_iocp_created = True, sp_queue_created = True, sp_pool_created = True, sp_map_created = True,
               sp_running_set = True, sp_iocp_started = 0, sp_handler_started = 0\<rparr>;
     spm \<leftarrow> w_spm w;
     let iocp_count = spm_config_iocp_threads spm;
     let handler_count = spm_config_handler_threads spm;
     let spm = spm\<lparr>spm_running := True\<rparr>;
     if \<not> st_iocp_array so
     then start_fail so sp (krs_lib_error_result_base_w_msg KRS_ERR_MEMORY_ALLOCATION ''thread array alloc failed'') evs
            (set_spm (spm\<lparr>spm_iocp_threads := None\<rparr>) w)
     else do {
       (created, n, threads) \<leftarrow> create_threads (st_iocp_thread so) 0 (unat iocp_count) (replicate (unat iocp_count) None);
       let spm = spm\<lparr>spm_iocp_threads := Some threads, spm_iocp_thread_count := iocp_count\<rparr>;
       let sp = sp\<lparr>sp_iocp_started := n\<rparr>;
       hs \<leftarrow> read_handles threads 0 n;
       let evs = evs @ map (\<lambda>h. Ev_io (Create_thread h)) hs;
       if \<not> created
       then start_fail so sp (krs_lib_error_result_base_w_msg KRS_ERR_PLATFORM_WINDOWS_SOCKET
              ''CreateThread failed for IOCP thread'') evs (set_spm spm w)
       else if \<not> st_handler_array so
       then start_fail so sp (krs_lib_error_result_base_w_msg KRS_ERR_MEMORY_ALLOCATION ''handler thread array alloc failed'') evs
              (set_spm (spm\<lparr>spm_handler_threads := None\<rparr>) w)
       else do {
         (created, n, threads) \<leftarrow> create_threads (st_handler_thread so) 0 (unat handler_count) (replicate (unat handler_count) None);
         let spm = spm\<lparr>spm_handler_threads := Some threads, spm_handler_thread_count := handler_count\<rparr>;
         let sp = sp\<lparr>sp_handler_started := n\<rparr>;
         hs \<leftarrow> read_handles threads 0 n;
         let evs = evs @ map (\<lambda>h. Ev_io (Create_thread h)) hs;
         if \<not> created
         then start_fail so sp (krs_lib_error_result_base_w_msg KRS_ERR_PLATFORM_WINDOWS_SOCKET
                ''CreateThread failed for handler thread'') evs (set_spm spm w)
         else case st_retransmit so of
           None \<Rightarrow> start_fail so sp (krs_lib_error_result_base_w_msg KRS_ERR_PLATFORM_WINDOWS_SOCKET
                     ''CreateThread failed for retransmit thread'') evs (set_spm (spm\<lparr>spm_retransmit_thread := None\<rparr>) w)
         | Some h \<Rightarrow> Some (krs_lib_error_result_base_suc, evs @ [Ev_io (Create_thread h)],
                          set_spm (spm\<lparr>spm_retransmit_thread := Some h\<rparr>) w) } } }"

definition krs_server_start :: "start_outcome \<Rightarrow> world \<Rightarrow> (void_r \<times> event list \<times> world) option" where
  "krs_server_start so w =
     (case w_spm w of
        None \<Rightarrow> Some (krs_lib_error_result_base_w_msg KRS_ERR_NULL_POINTER ''spm is NULL'', [], w)
      | Some spm \<Rightarrow>
          if spm_running spm
          then Some (krs_lib_error_result_base_w_msg KRS_ERR_SERVER_ALREADY_RUNNING ''already running'', [], w)
          else do {
            let w = w\<lparr>w_wsa := krs_wsa_init (w_wsa w)\<rparr>;
            let spm = spm\<lparr>spm_iocp_handle := st_iocp so\<rparr>;
            case st_iocp so of
              None \<Rightarrow> start_fail so no_progress
                        (krs_lib_error_result_base_w_msg KRS_ERR_PLATFORM_WINDOWS_SOCKET ''CreateIoCompletionPort failed'') []
                        (set_spm spm w)
            | Some iocp \<Rightarrow> do {
                let evs = [Ev_io (Create_port iocp)];
                let sp = no_progress\<lparr>sp_iocp_created := True\<rparr>;
                let queue = krs_message_queue_create 256 (st_queue so) (st_items so);
                let spm = spm\<lparr>spm_message_queue := queue\<rparr>;
                if queue = None
                then start_fail so sp (krs_lib_error_result_base_w_msg KRS_ERR_MEMORY_ALLOCATION ''message queue alloc failed'') evs
                       (set_spm spm w)
                else do {
                  let sp = sp\<lparr>sp_queue_created := True\<rparr>;
                  let pool = krs_message_pool_create 1024 (st_pool so) (st_storage so) (st_stack so);
                  let spm = spm\<lparr>spm_message_pool := (if pool = None then None else Some (st_pool_id so))\<rparr>;
                  if pool = None
                  then start_fail so sp (krs_lib_error_result_base_w_msg KRS_ERR_MEMORY_ALLOCATION ''message pool alloc failed'') evs
                         (set_spm spm w)
                  else do {
                    let sp = sp\<lparr>sp_pool_created := True\<rparr>;
                    let w = w\<lparr>w_pools := (w_pools w)(st_pool_id so := pool)\<rparr>;
                    let cmap = krs_connection_map_create 64 (st_map so) (st_ids so) (st_addrs so);
                    let spm = spm\<lparr>spm_message_queue := krs_message_queue_set_pool queue (spm_message_pool spm),
                                  spm_connection_map := cmap\<rparr>;
                    if cmap = None
                    then start_fail so sp (krs_lib_error_result_base_w_msg KRS_ERR_MEMORY_ALLOCATION ''connection map alloc failed'') evs
                           (set_spm spm w)
                    else start_threads so iocp evs (set_spm spm w) } } } })"

section \<open>Stopping\<close>

text \<open>
  The loops over the connections of a channel and over the channels. Unlike the other sweeps, this one
  leaves the loop of a channel at the first new connection once 64 are remembered.
\<close>

fun stop_conns :: "nat \<Rightarrow> conn_ref krs_array \<Rightarrow> conn_ref list \<Rightarrow> (conn_ref krs_array \<times> conn_ref list) option" where
  "stop_conns 0 conns orphans = Some (conns, orphans)"
| "stop_conns (Suc i) conns orphans = do {
     x \<leftarrow> array_at conns i;
     case x of
       None \<Rightarrow> stop_conns i conns orphans
     | Some c \<Rightarrow>
         if c \<notin> set orphans \<and> length orphans \<ge> MAX_EVICTIONS_PER_CYCLE then Some (conns, orphans)
         else do { conns' \<leftarrow> array_drop conns i; stop_conns i conns' (track_orphan c orphans) } }"

fun stop_channels :: "channel_state list \<Rightarrow> conn_ref list \<Rightarrow> (channel_state list \<times> conn_ref list) option" where
  "stop_channels [] orphans = Some ([], orphans)"
| "stop_channels (st # sts) orphans = do {
     (st', orphans') \<leftarrow> (case ch_connections st of
        None \<Rightarrow> Some (st, orphans)
      | Some conns \<Rightarrow> do {
          (conns', os) \<leftarrow> stop_conns (arr_rounds conns) conns orphans;
          Some (st\<lparr>ch_connections := Some conns'\<rparr>, os) });
     (sts', os) \<leftarrow> stop_channels sts orphans';
     Some (st' # sts', os) }"

text \<open>One round of the loop for a descriptor, and the loop.\<close>

definition stop_round :: "desc_ref \<Rightarrow> world \<Rightarrow> (conn_ref list \<times> world) option" where
  "stop_round d w = do {
     desc \<leftarrow> w_descs w d;
     (sts, orphans) \<leftarrow> stop_channels (ds_channel_states desc) [];
     Some (orphans, set_desc d (desc\<lparr>ds_channel_states := sts\<rparr>) w) }"

partial_function (option) stop_rounds :: "desc_ref \<Rightarrow> world \<Rightarrow> (event list \<times> world) option" where
  "stop_rounds d w = do {
     (orphans, w) \<leftarrow> stop_round d w;
     if orphans = [] then Some ([], w)
     else do {
       desc \<leftarrow> w_descs w d;
       (evs, w) \<leftarrow> krs_server_finalize_orphan_evictions desc orphans w;
       (evs', w) \<leftarrow> stop_rounds d w;
       Some (evs @ evs', w) } }"

definition s_sweep_active_connections_on_stop :: "world \<Rightarrow> (event list \<times> world) option" where
  "s_sweep_active_connections_on_stop w = do {
     spm \<leftarrow> w_spm w;
     if spm_descriptor_list spm = None \<or> spm_connection_map spm = None then Some ([], w)
     else for_descriptors (\<lambda>_. stop_rounds) spm w }"

text \<open>
  \<open>others k\<close> is what the threads of the server do after the flag is cleared until the completion port
  threads have ended, until the handler threads have ended, and until the retransmission thread has.
\<close>

definition stop_iocp_threads :: "(nat \<Rightarrow> world \<Rightarrow> world) \<Rightarrow> world \<Rightarrow> (event list \<times> world) option" where
  "stop_iocp_threads others w = do {
     spm \<leftarrow> w_spm w;
     let posts = replicate (unat (spm_iocp_thread_count spm)) (Ev_io (Post_shutdown (spm_iocp_handle spm)));
     let w = others 0 w;
     spm \<leftarrow> w_spm w;
     case spm_iocp_threads spm of
       None \<Rightarrow> Some (posts, w)
     | Some ts \<Rightarrow> do {
         evs \<leftarrow> join_threads 5000 (unat (spm_iocp_thread_count spm)) (Some ts);
         Some (posts @ evs, set_spm (spm\<lparr>spm_iocp_threads := None, spm_iocp_thread_count := 0\<rparr>) w) } }"

definition stop_handler_threads :: "(nat \<Rightarrow> world \<Rightarrow> world) \<Rightarrow> world \<Rightarrow> (event list \<times> world) option" where
  "stop_handler_threads others w = do {
     spm \<leftarrow> w_spm w;
     let w = others 1 (set_spm (spm\<lparr>spm_message_queue := krs_message_queue_stop (spm_message_queue spm)\<rparr>) w);
     spm \<leftarrow> w_spm w;
     case spm_handler_threads spm of
       None \<Rightarrow> Some ([], w)
     | Some ts \<Rightarrow> do {
         evs \<leftarrow> join_threads 5000 (unat (spm_handler_thread_count spm)) (Some ts);
         Some (evs, set_spm (spm\<lparr>spm_handler_threads := None, spm_handler_thread_count := 0\<rparr>) w) } }"

definition stop_retransmit_thread :: "(nat \<Rightarrow> world \<Rightarrow> world) \<Rightarrow> world \<Rightarrow> (event list \<times> world) option" where
  "stop_retransmit_thread others w = do {
     let w = others 2 w;
     spm \<leftarrow> w_spm w;
     Some (case spm_retransmit_thread spm of
             None \<Rightarrow> ([], w)
           | Some h \<Rightarrow> ([Ev_io (Wait_threads [h] 2000), Ev_io (Close_handle h)], set_spm (spm\<lparr>spm_retransmit_thread := None\<rparr>) w)) }"

text \<open>What is left when the threads have ended and the connections are gone.\<close>

definition stop_release :: "world \<Rightarrow> (event list \<times> world) option" where
  "stop_release w = do {
     spm \<leftarrow> w_spm w;
     (_, w) \<leftarrow> for_descriptors (\<lambda>_. free_recv_ctx) spm w;
     spm \<leftarrow> w_spm w;
     let evs = close_iocp spm;
     (q, ps, freed) \<leftarrow> krs_message_queue_drain (spm_message_queue spm) (spm_message_pool spm) (w_pools w);
     let w = forget_messages freed (set_spm (spm\<lparr>spm_iocp_handle := None, spm_message_queue := q\<rparr>) (w\<lparr>w_pools := ps\<rparr>));
     w \<leftarrow> destroy_queue w;
     w \<leftarrow> destroy_pool w;
     spm \<leftarrow> w_spm w;
     let w = set_spm (spm\<lparr>spm_connection_map := krs_connection_map_destroy (spm_connection_map spm)\<rparr>) w;
     Some (evs, w\<lparr>w_wsa := krs_wsa_cleanup (w_wsa w)\<rparr>) }"

definition krs_server_stop :: "(nat \<Rightarrow> world \<Rightarrow> world) \<Rightarrow> world \<Rightarrow> (event list \<times> world) option" where
  "krs_server_stop others w =
     (case w_spm w of
        None \<Rightarrow> Some ([], w)
      | Some spm \<Rightarrow>
          if \<not> spm_running spm then Some ([], w)
          else do {
            let w = set_spm (spm\<lparr>spm_running := False\<rparr>) w;
            (evs1, w) \<leftarrow> stop_iocp_threads others w;
            (evs2, w) \<leftarrow> stop_handler_threads others w;
            (evs3, w) \<leftarrow> stop_retransmit_thread others w;
            (evs4, w) \<leftarrow> s_sweep_active_connections_on_stop w;
            (evs5, w) \<leftarrow> stop_release w;
            Some (evs1 @ evs2 @ evs3 @ evs4 @ evs5, w) })"

section \<open>The sweep of connections\<close>

abbreviation (input) take_orphan :: "conn_ref \<Rightarrow> conn_ref list \<Rightarrow> (bool \<times> conn_ref list) option" where
  "take_orphan \<equiv> \<lambda>c os. Some (True, track_orphan c os)"

text \<open>With room for all connections the loop is the ordinary sweep.\<close>

lemma track_orphan_room:
  assumes "distinct os" and "card (insert c (set os)) \<le> 64"
  shows "\<not> (c \<notin> set os \<and> 64 \<le> length os)" and "distinct (track_orphan c os)" and "set (track_orphan c os) = insert c (set os)"
proof -
  show "\<not> (c \<notin> set os \<and> 64 \<le> length os)" using assms by (auto simp: card_insert_if distinct_card)
  then show "distinct (track_orphan c os)" "set (track_orphan c os) = insert c (set os)"
    using assms(1) by (auto simp: track_orphan_def)
qed

lemma stop_conns_eq:
  assumes "arr_ok a" and "n \<le> length (arr_vals a)" and "card (set (take n (arr_vals a)) \<union> set os) \<le> 64" and "distinct os"
  shows "stop_conns n a os = sweep_conns take_orphan n a os"
  using assms
proof (induction n arbitrary: a os)
  case (Suc i)
  have i: "i < length (arr_vals a)" using Suc.prems(2) by simp
  let ?v = "arr_vals a ! i"
  have all: "set (take (Suc i) (arr_vals a)) \<union> set os = set (take i (arr_vals a)) \<union> insert ?v (set os)"
    using i by (simp add: take_Suc_conv_app_nth insert_commute)
  have "card (insert ?v (set os)) \<le> card (set (take (Suc i) (arr_vals a)) \<union> set os)"
    unfolding all by (intro card_mono) auto
  then have room: "card (insert ?v (set os)) \<le> 64" using Suc.prems(3) by simp
  note tr = track_orphan_room [OF Suc.prems(4) room]
  obtain a' where a': "array_drop a i = Some a'" "arr_ok a'" "arr_vals a' = remove_nth i (arr_vals a)"
    using kra.drp_remove [OF Suc.prems(1) i] by blast
  have keep: "take i (arr_vals a') = take i (arr_vals a)" "i \<le> length (arr_vals a')" using i by (simp_all add: a'(3) remove_nth_def)
  have "card (set (take i (arr_vals a')) \<union> set (track_orphan ?v os)) \<le> 64"
    using Suc.prems(3) unfolding all keep(1) tr(3) by simp
  from Suc.IH [OF a'(2) keep(2) this tr(2)] show ?case
    using tr(1) a'(1) by (auto simp: kra.at_nth [OF Suc.prems(1) i])
qed simp

lemma stop_channels_eq:
  assumes "\<forall>st \<in> set sts. chan_ok st" and "card ((\<Union>st \<in> set sts. set (chan_refs st)) \<union> set os) \<le> 64" and "distinct os"
  shows "stop_channels sts os = sweep_channels take_orphan sts os"
  using assms
proof (induction sts arbitrary: os)
  case (Cons st sts)
  let ?all = "(\<Union>st \<in> set (st # sts). set (chan_refs st)) \<union> set os"
  have le: "card A \<le> 64" if "A \<subseteq> ?all" for A using card_mono [OF _ that] Cons.prems(2) by simp
  have len: "length os \<le> 64" using le [of "set os"] Cons.prems(3) by (simp add: distinct_card)
  show ?case
  proof (cases "ch_connections st")
    case None
    have "stop_channels sts os = sweep_channels take_orphan sts os"
      using Cons.prems by (intro Cons.IH le) (auto simp: chan_refs_def None)
    with None show ?thesis by simp
  next
    case (Some a)
    have a: "arr_ok a" "chan_refs st = arr_vals a" using Cons.prems(1) Some by (auto simp: chan_ok_def chan_refs_def)
    have sub: "set (take (arr_rounds a) (arr_vals a)) \<union> set os \<subseteq> ?all" using set_take_subset a(2) by fastforce
    have "sweeps (\<lambda>_. True) (set (arr_vals a)) take_orphan" by (simp add: sweeps_def)
    from sweep_conns_spec [OF a(1) this, of os] obtain a' where
      a': "sweep_conns take_orphan (arr_rounds a) a os = Some (a', track_all (rev (arr_vals a)) os)" by auto
    have eq: "stop_conns (arr_rounds a) a os = sweep_conns take_orphan (arr_rounds a) a os"
      by (rule stop_conns_eq [OF a(1) _ le [OF sub] Cons.prems(3)]) (simp add: arr_rounds_vals [OF a(1)])
    have os': "set (track_all (rev (arr_vals a)) os) \<subseteq> ?all" "distinct (track_all (rev (arr_vals a)) os)"
      using set_track_all(1) [of "rev (arr_vals a)" os] a(2) track_all_props(1) [OF Cons.prems(3) len] by auto
    have "stop_channels sts (track_all (rev (arr_vals a)) os) = sweep_channels take_orphan sts (track_all (rev (arr_vals a)) os)"
      using Cons.prems(1) os' by (intro Cons.IH le) auto
    with Some eq a' show ?thesis by simp
  qed
qed simp

lemma stop_channels_idle:
  "\<forall>st \<in> set sts. chan_ok st \<and> chan_refs st = [] \<Longrightarrow> stop_channels sts os = Some (sts, os)"
proof (induction sts)
  case (Cons st sts)
  show ?case
  proof (cases "ch_connections st")
    case (Some a)
    then have "arr_ok a" "arr_vals a = []" using Cons.prems by (auto simp: chan_ok_def chan_refs_def)
    then have "arr_rounds a = 0" by (simp add: arr_rounds_vals)
    moreover have "st\<lparr>ch_connections := Some a\<rparr> = st" using Some by (cases st) simp
    ultimately show ?thesis using Cons Some by simp
  qed (use Cons in simp)
qed simp

definition disconnects :: "world \<Rightarrow> udp_socket_descriptor \<Rightarrow> conn_ref list \<Rightarrow> event list" where
  "disconnects w desc os = (case ds_disconnect_callback desc of
     None \<Rightarrow> []
   | Some cb \<Rightarrow> map (\<lambda>r. Ev_disconnect cb (cn_connection_id (the (w_conns w r))) 0 (ds_disconnect_callback_user_data desc)) os)"

lemma finalize_frame:
  assumes "krs_server_finalize_orphan_evictions desc os w = Some (evs, w')"
  shows "w_pools w' = w_pools w" and "w_msgs w' = w_msgs w" and "w_ctxs w' = w_ctxs w" and "w_wsa w' = w_wsa w"
    and "\<And>spm. w_spm w = Some spm \<Longrightarrow> \<exists>m n. w_spm w' = Some (spm\<lparr>spm_connection_map := m, stat_disconnections := n\<rparr>)"
proof -
  have "w_pools w' = w_pools w \<and> w_msgs w' = w_msgs w \<and> w_ctxs w' = w_ctxs w \<and> w_wsa w' = w_wsa w \<and>
      (\<forall>spm. w_spm w = Some spm \<longrightarrow> (\<exists>m n. w_spm w' = Some (spm\<lparr>spm_connection_map := m, stat_disconnections := n\<rparr>)))"
  proof (cases "os = []")
    case True
    then have "w' = w" using assms by (simp add: krs_server_finalize_orphan_evictions_def)
    moreover have "spm = spm\<lparr>spm_connection_map := spm_connection_map spm, stat_disconnections := stat_disconnections spm\<rparr>"
      for spm :: server_port_manager by simp
    ultimately show ?thesis by metis
  next
    case False
    with assms show ?thesis
      by (auto simp: krs_server_finalize_orphan_evictions_def Let_def split: if_splits Option.bind_splits intro!: exI)
  qed
  then show "w_pools w' = w_pools w" "w_msgs w' = w_msgs w" "w_ctxs w' = w_ctxs w" "w_wsa w' = w_wsa w"
      "\<And>spm. w_spm w = Some spm \<Longrightarrow> \<exists>m n. w_spm w' = Some (spm\<lparr>spm_connection_map := m, stat_disconnections := n\<rparr>)"
    by simp_all
qed

lemma stop_rounds_spec:
  assumes inv: "sv_inv w" and d: "w_descs w d = Some desc" and few: "length (refs0 desc) \<le> 64"
  obtains os desc' w' where "stop_rounds d w = Some (disconnects w desc os, w')" and "sv_inv w'"
    and "distinct os" and "set os = set (refs0 desc)" and "w_descs w' = (w_descs w)(d \<mapsto> desc')"
    and "\<And>ch. ch_refs desc' ch = []" and "ds_recv_ctx desc' = ds_recv_ctx desc"
    and "w_conns w' = (\<lambda>r. if r \<in> set os then None else w_conns w r)"
    and "w_pools w' = w_pools w" and "w_msgs w' = w_msgs w" and "w_ctxs w' = w_ctxs w" and "w_wsa w' = w_wsa w"
    and "\<And>spm. w_spm w = Some spm \<Longrightarrow> \<exists>m n. w_spm w' = Some (spm\<lparr>spm_connection_map := m, stat_disconnections := n\<rparr>)"
proof -
  obtain spm m where m: "desc_conns_ok w m" using inv by (rule sv_invE)
  note dd = desc_conns_okD [OF m d]
  let ?sts = "ds_channel_states desc"
  have all: "(\<Union>st \<in> set ?sts. set (chan_refs st)) = set (refs0 desc)" by (rule all_refs [OF dd(1)])
  have card: "card (set (refs0 desc)) \<le> 64" using few card_length [of "refs0 desc"] by simp
  define os where "os = track_all (concat (map (\<lambda>st. rev (chan_refs st)) ?sts)) []"
  have cat: "set (concat (map (\<lambda>st. rev (chan_refs st)) ?sts)) = set (refs0 desc)" using all by auto
  have os: "distinct os" "length os \<le> 64" "set os = set (refs0 desc)"
    using track_all_props [of "[]"] track_all_room [of "[]" "concat (map (\<lambda>st. rev (chan_refs st)) ?sts)"] cat card by (auto simp: os_def)
  have ok: "\<forall>st \<in> set ?sts. chan_ok st" using dd(1) by (simp add: desc_ok_def)
  have "sweeps (\<lambda>_. True) (\<Union>st \<in> set ?sts. set (chan_refs st)) take_orphan" by (simp add: sweeps_def)
  from sweep_channels_spec [OF ok this, of "[]"] obtain sts where
    sts: "sweep_channels take_orphan ?sts [] = Some (sts, os)" "list_all2 (swept (\<lambda>_. True)) ?sts sts" by (auto simp: os_def)
  define desc' where "desc' = desc\<lparr>ds_channel_states := sts\<rparr>"
  note sd = swept_desc [OF dd(1) sts(2), folded desc'_def]
  have refs: "refs0 desc' = []" "\<And>ch. ch_refs desc' ch = []" using sd(2,3) by simp_all
  have "card ((\<Union>st \<in> set ?sts. set (chan_refs st)) \<union> set []) \<le> 64" using card all by simp
  then have round1: "stop_round d w = Some (os, set_desc d desc' w)"
    using stop_channels_eq [OF ok _ distinct.simps(1) [THEN iffD2]] sts(1) d by (simp add: stop_round_def desc'_def)
  have idle: "\<forall>st \<in> set sts. chan_ok st \<and> chan_refs st = []"
    using sd(1) all_refs [OF sd(1)] refs(1) by (auto simp: desc_ok_def desc'_def)
  have round2: "stop_round d v = Some ([], v)" if "w_descs v d = Some desc'" for v
  proof -
    have "set_desc d desc' v = v" using that by (cases v) (simp add: set_desc_def fun_upd_idem)
    moreover have "desc'\<lparr>ds_channel_states := sts\<rparr> = desc'" by (simp add: desc'_def)
    ultimately show ?thesis using that stop_channels_idle [OF idle, of "[]"] by (simp add: stop_round_def) (simp add: desc'_def)
  qed
  have cb: "ds_disconnect_callback desc' = ds_disconnect_callback desc" "ds_recv_ctx desc' = ds_recv_ctx desc"
      "ds_disconnect_callback_user_data desc' = ds_disconnect_callback_user_data desc" by (simp_all add: desc'_def)
  have sub: "set (refs0 desc') \<subseteq> set (refs0 desc) - set os" "set os \<subseteq> set (refs0 desc)" using refs(1) os(3) by auto
  from finalize_spec [OF inv d sd(1) sub(1) os(1,2) sub(2)] obtain w' where
    f: "krs_server_finalize_orphan_evictions desc' os (set_desc d desc' w) = Some (disconnects w desc os, w')" "sv_inv w'"
      "w_descs w' = (w_descs w)(d \<mapsto> desc')" "w_conns w' = (\<lambda>r. if r \<in> set os then None else w_conns w r)"
    unfolding disconnects_def cb by blast
  have "w_descs w' d = Some desc'" by (simp add: f(3))
  from round2 [OF this] have tail: "stop_rounds d w' = Some ([], w')" by (simp add: stop_rounds.simps)
  have run: "stop_rounds d w = Some (disconnects w desc os, w')"
  proof (cases "os = []")
    case True
    then have "w' = set_desc d desc' w" "disconnects w desc os = []"
      using f(1) by (auto simp: krs_server_finalize_orphan_evictions_def)
    with round1 True show ?thesis by (subst stop_rounds.simps) simp
  next
    case False
    with round1 f(1) tail show ?thesis by (subst stop_rounds.simps) simp
  qed
  from that [OF run f(2) os(1,3) f(3) refs(2) cb(2) f(4)] finalize_frame [OF f(1)] show thesis by simp
qed

text \<open>What the sweep leaves alone.\<close>

definition sweep_frame :: "world \<Rightarrow> world \<Rightarrow> bool" where
  "sweep_frame w w' \<longleftrightarrow> w_pools w' = w_pools w \<and> w_msgs w' = w_msgs w \<and> w_ctxs w' = w_ctxs w \<and> w_wsa w' = w_wsa w \<and>
     (\<forall>spm. w_spm w = Some spm \<longrightarrow> (\<exists>m n. w_spm w' = Some (spm\<lparr>spm_connection_map := m, stat_disconnections := n\<rparr>)))"

lemma sweep_frame_refl: "sweep_frame w w"
proof -
  have "spm = spm\<lparr>spm_connection_map := spm_connection_map spm, stat_disconnections := stat_disconnections spm\<rparr>"
    for spm :: server_port_manager by simp
  then show ?thesis unfolding sweep_frame_def by metis
qed

lemma sweep_frame_trans:
  assumes "sweep_frame u v" and "sweep_frame v w"
  shows "sweep_frame u w"
proof -
  have "\<exists>m n. w_spm w = Some (spm\<lparr>spm_connection_map := m, stat_disconnections := n\<rparr>)" if u: "w_spm u = Some spm" for spm
  proof -
    obtain m n where v: "w_spm v = Some (spm\<lparr>spm_connection_map := m, stat_disconnections := n\<rparr>)"
      using assms(1) u by (auto simp: sweep_frame_def)
    then obtain m' n' where "w_spm w = Some (spm\<lparr>spm_connection_map := m, stat_disconnections := n\<rparr>
        \<lparr>spm_connection_map := m', stat_disconnections := n'\<rparr>)"
      using assms(2) unfolding sweep_frame_def by blast
    then show ?thesis by (auto intro!: exI)
  qed
  then show ?thesis using assms by (simp add: sweep_frame_def)
qed

text \<open>A descriptor without connections.\<close>

definition silent :: "udp_socket_descriptor \<Rightarrow> udp_socket_descriptor \<Rightarrow> bool" where
  "silent desc desc' \<longleftrightarrow> (\<forall>ch. ch_refs desc' ch = []) \<and> ds_recv_ctx desc' = ds_recv_ctx desc"

lemma stop_each:
  assumes list: "arr_ok list" and "i + n = length (arr_vals list)" and "distinct (drop i (arr_vals list))" and "sv_inv w"
    and "\<forall>d \<in> set (drop i (arr_vals list)). \<exists>desc. w_descs w d = Some desc \<and> length (refs0 desc) \<le> 64"
  defines "D \<equiv> \<lambda>w d. the (w_descs w d)"
  shows "\<exists>f w'. each_descriptor (\<lambda>_. stop_rounds) list i n w =
      Some (concat (map (\<lambda>d. disconnects w (D w d) (f d)) (drop i (arr_vals list))), w') \<and>
    sv_inv w' \<and> sweep_frame w w' \<and>
    (\<forall>d \<in> set (drop i (arr_vals list)). distinct (f d) \<and> set (f d) = set (refs0 (D w d))) \<and>
    (\<forall>d \<in> set (drop i (arr_vals list)). \<exists>desc'. w_descs w' d = Some desc' \<and> silent (D w d) desc') \<and>
    (\<forall>d. d \<notin> set (drop i (arr_vals list)) \<longrightarrow> w_descs w' d = w_descs w d) \<and>
    w_conns w' = (\<lambda>r. if \<exists>d \<in> set (drop i (arr_vals list)). r \<in> set (refs0 (D w d)) then None else w_conns w r)"
  using assms(2-5)
proof (induction n arbitrary: i w)
  case 0
  then show ?case by (intro exI [of _ "\<lambda>_. []"] exI [of _ w]) (simp add: sweep_frame_refl)
next
  case (Suc n)
  let ?d = "arr_vals list ! i" and ?ds = "drop (Suc i) (arr_vals list)"
  have i: "i < length (arr_vals list)" using Suc.prems(1) by simp
  have ds: "drop i (arr_vals list) = ?d # ?ds" using i by (simp add: Cons_nth_drop_Suc)
  have fresh: "?d \<notin> set ?ds" "distinct ?ds" using Suc.prems(2) by (simp_all add: ds)
  obtain desc where d: "w_descs w ?d = Some desc" "length (refs0 desc) \<le> 64" using Suc.prems(4) by (auto simp: ds)
  obtain os desc' w1 where s: "stop_rounds ?d w = Some (disconnects w desc os, w1)" "sv_inv w1" "distinct os"
      "set os = set (refs0 desc)" "w_descs w1 = (w_descs w)(?d \<mapsto> desc')" "\<And>ch. ch_refs desc' ch = []"
      "ds_recv_ctx desc' = ds_recv_ctx desc" "w_conns w1 = (\<lambda>r. if r \<in> set os then None else w_conns w r)"
      "sweep_frame w w1"
    by (rule stop_rounds_spec [OF Suc.prems(3) d]) (simp add: sweep_frame_def)
  have same: "w_descs w1 d = w_descs w d" if "d \<in> set ?ds" for d using that fresh(1) s(5) by auto
  have "\<forall>d \<in> set ?ds. \<exists>desc. w_descs w1 d = Some desc \<and> length (refs0 desc) \<le> 64"
    using Suc.prems(4) same by (auto simp: ds)
  from Suc.IH [OF _ fresh(2) s(2) this] Suc.prems(1) obtain f w2 where
    r: "each_descriptor (\<lambda>_. stop_rounds) list (Suc i) n w1 = Some (concat (map (\<lambda>d. disconnects w1 (D w1 d) (f d)) ?ds), w2)"
      "sv_inv w2" "sweep_frame w1 w2" "\<forall>d \<in> set ?ds. distinct (f d) \<and> set (f d) = set (refs0 (D w1 d))"
      "\<forall>d \<in> set ?ds. \<exists>desc'. w_descs w2 d = Some desc' \<and> silent (D w1 d) desc'"
      "\<forall>d. d \<notin> set ?ds \<longrightarrow> w_descs w2 d = w_descs w1 d"
      "w_conns w2 = (\<lambda>r. if \<exists>d \<in> set ?ds. r \<in> set (refs0 (D w1 d)) then None else w_conns w1 r)" by auto
  have D: "D w1 d = D w d" if "d \<in> set ?ds" for d using same [OF that] by (simp add: D_def)
  have ev: "disconnects w1 (D w1 d) (f d) = disconnects w (D w d) (f d)" if dd: "d \<in> set ?ds" for d
  proof -
    obtain desc2 where d2: "w_descs w1 d = Some desc2" using Suc.prems(4) same [OF dd] dd by (auto simp: ds)
    obtain spm m where m: "desc_conns_ok w1 m" using s(2) by (rule sv_invE)
    have "w_conns w1 r = w_conns w r" if "r \<in> set (f d)" for r
    proof -
      have "r \<in> set (refs0 desc2)" using that r(4) dd d2 by (simp add: D_def)
      from desc_conns_okD(2) [OF m d2 this] s(8) show ?thesis by (auto split: if_splits)
    qed
    then show ?thesis using D [OF dd] by (auto simp: disconnects_def split: option.split)
  qed
  let ?f = "f(?d := os)"
  have evs: "map (\<lambda>d. disconnects w1 (D w1 d) (f d)) ?ds = map (\<lambda>d. disconnects w (D w d) (?f d)) ?ds"
    using ev fresh(1) by (auto intro!: map_cong)
  have at: "array_at list i = Some (Some ?d)" by (rule kra.at_nth [OF list i])
  have Dd: "D w ?d = desc" using d(1) by (simp add: D_def)
  have run: "each_descriptor (\<lambda>_. stop_rounds) list i (Suc n) w =
      Some (concat (map (\<lambda>d. disconnects w (D w d) (?f d)) (?d # ?ds)), w2)"
    using at s(1) r(1) evs by (simp add: Dd)
  have fs: "\<forall>d \<in> set (?d # ?ds). distinct (?f d) \<and> set (?f d) = set (refs0 (D w d))"
    using s(3,4) r(4) D fresh(1) Dd by auto
  have descs: "\<forall>d \<in> set (?d # ?ds). \<exists>desc'. w_descs w2 d = Some desc' \<and> silent (D w d) desc'"
    using r(5,6) D fresh(1) Dd s(5-7) by (auto simp: silent_def)
  have others: "\<forall>d. d \<notin> set (?d # ?ds) \<longrightarrow> w_descs w2 d = w_descs w d" using r(6) s(5) by auto
  have conns: "w_conns w2 = (\<lambda>r. if \<exists>d \<in> set (?d # ?ds). r \<in> set (refs0 (D w d)) then None else w_conns w r)"
    unfolding r(7) s(8) using s(4) D Dd by (auto simp: fun_eq_iff)
  show ?case unfolding ds
    using run r(2) sweep_frame_trans [OF s(9) r(3)] fs descs others conns by blast
qed

section \<open>The last part of the stop\<close>

text \<open>The descriptors of the server: each in the list once, with its own receive context.\<close>

definition contexts_ok :: "world \<Rightarrow> desc_ref list \<Rightarrow> bool" where
  "contexts_ok w ds \<longleftrightarrow> (\<forall>d \<in> set ds. w_descs w d \<noteq> None) \<and>
     (\<forall>d \<in> set ds. \<forall>desc x. w_descs w d = Some desc \<longrightarrow> ds_recv_ctx desc = Some x \<longrightarrow> w_ctxs w x \<noteq> None) \<and>
     (\<forall>d \<in> set ds. \<forall>e \<in> set ds. \<forall>desc desc' x. w_descs w d = Some desc \<longrightarrow> w_descs w e = Some desc' \<longrightarrow>
        ds_recv_ctx desc = Some x \<longrightarrow> ds_recv_ctx desc' = Some x \<longrightarrow> e = d)"

lemma contexts_okD:
  assumes "contexts_ok w ds" and "d \<in> set ds"
  shows "\<exists>desc. w_descs w d = Some desc"
    and "w_descs w d = Some desc \<Longrightarrow> ds_recv_ctx desc = Some x \<Longrightarrow> w_ctxs w x \<noteq> None"
    and "e \<in> set ds \<Longrightarrow> w_descs w d = Some desc \<Longrightarrow> w_descs w e = Some desc' \<Longrightarrow> ds_recv_ctx desc = Some x \<Longrightarrow>
      ds_recv_ctx desc' = Some x \<Longrightarrow> e = d"
  using assms unfolding contexts_ok_def by blast+

lemma free_each:
  assumes list: "arr_ok list" and "i + n = length (arr_vals list)" and "distinct (drop i (arr_vals list))"
    and "contexts_ok w (drop i (arr_vals list))"
  shows "\<exists>w'. each_descriptor (\<lambda>_. free_recv_ctx) list i n w = Some ([], w') \<and>
    w' = w\<lparr>w_descs := w_descs w', w_ctxs := w_ctxs w'\<rparr> \<and>
    (\<forall>d. w_descs w' d = (if d \<in> set (drop i (arr_vals list)) then map_option (\<lambda>desc. desc\<lparr>ds_recv_ctx := None\<rparr>) (w_descs w d) else w_descs w d)) \<and>
    w_ctxs w' = (\<lambda>x. if \<exists>d \<in> set (drop i (arr_vals list)). ds_recv_ctx (the (w_descs w d)) = Some x then None else w_ctxs w x)"
  using assms(2-4)
proof (induction n arbitrary: i w)
  case 0
  then show ?case by (intro exI [of _ w]) (cases w, simp)
next
  case (Suc n)
  let ?d = "arr_vals list ! i" and ?ds = "drop (Suc i) (arr_vals list)"
  have i: "i < length (arr_vals list)" using Suc.prems(1) by simp
  have ds: "drop i (arr_vals list) = ?d # ?ds" using i by (simp add: Cons_nth_drop_Suc)
  have fresh: "?d \<notin> set ?ds" "distinct ?ds" using Suc.prems(2) by (simp_all add: ds)
  note ctx0 = Suc.prems(3) [unfolded ds] and hd = list.set_intros(1) [of ?d ?ds]
  obtain desc where d: "w_descs w ?d = Some desc" using contexts_okD(1) [OF ctx0 hd] by blast
  define w1 where "w1 = set_desc ?d (desc\<lparr>ds_recv_ctx := None\<rparr>)
    (w\<lparr>w_ctxs := (\<lambda>x. if ds_recv_ctx desc = Some x then None else w_ctxs w x)\<rparr>)"
  have free: "free_recv_ctx ?d w = Some ([], w1)"
  proof (cases "ds_recv_ctx desc")
    case None
    then have "desc\<lparr>ds_recv_ctx := None\<rparr> = desc" by (cases desc) simp
    then have "w1 = w" using d None by (cases w) (simp add: w1_def set_desc_def fun_upd_idem)
    with None d show ?thesis by (simp add: free_recv_ctx_def)
  next
    case (Some x)
    then obtain c where "w_ctxs w x = Some c" using contexts_okD(2) [OF ctx0 hd d] by blast
    moreover have "(w_ctxs w)(x := None) = (\<lambda>y. if ds_recv_ctx desc = Some y then None else w_ctxs w y)" using Some by auto
    ultimately show ?thesis using Some d by (simp add: free_recv_ctx_def w1_def)
  qed
  have w1: "w_descs w1 e = w_descs w e" "e \<noteq> ?d" if "e \<in> set ?ds" for e using that fresh(1) by (auto simp: w1_def)
  have ctx: "contexts_ok w1 ?ds"
    unfolding contexts_ok_def
  proof (intro conjI ballI allI impI)
    fix e assume e: "e \<in> set ?ds"
    then have e': "e \<in> set (?d # ?ds)" by simp
    show "w_descs w1 e \<noteq> None" using contexts_okD(1) [OF ctx0 e'] w1(1) [OF e] by auto
    show "w_ctxs w1 x \<noteq> None" if "w_descs w1 e = Some de" "ds_recv_ctx de = Some x" for de x
    proof -
      have de: "w_descs w e = Some de" using that(1) w1(1) [OF e] by simp
      have "ds_recv_ctx desc \<noteq> Some x" using contexts_okD(3) [OF ctx0 hd e' d de _ that(2)] w1(2) [OF e] by blast
      with contexts_okD(2) [OF ctx0 e' de that(2)] show ?thesis by (simp add: w1_def)
    qed
    show "e2 = e" if "e2 \<in> set ?ds" "w_descs w1 e = Some d1" "w_descs w1 e2 = Some d2" "ds_recv_ctx d1 = Some x" "ds_recv_ctx d2 = Some x"
      for e2 d1 d2 x
    proof (rule contexts_okD(3) [OF ctx0 e'])
      show "e2 \<in> set (?d # ?ds)" using that(1) by simp
      show "w_descs w e = Some d1" "w_descs w e2 = Some d2" using that(2,3) w1(1) [OF e] w1(1) [OF that(1)] by simp_all
    qed (rule that(4), rule that(5))
  qed
  from Suc.IH [OF _ fresh(2) ctx] Suc.prems(1) obtain w' where
    r: "each_descriptor (\<lambda>_. free_recv_ctx) list (Suc i) n w1 = Some ([], w')" "w' = w1\<lparr>w_descs := w_descs w', w_ctxs := w_ctxs w'\<rparr>"
      "\<forall>d. w_descs w' d = (if d \<in> set ?ds then map_option (\<lambda>desc. desc\<lparr>ds_recv_ctx := None\<rparr>) (w_descs w1 d) else w_descs w1 d)"
      "w_ctxs w' = (\<lambda>x. if \<exists>d \<in> set ?ds. ds_recv_ctx (the (w_descs w1 d)) = Some x then None else w_ctxs w1 x)" by auto
  have at: "array_at list i = Some (Some ?d)" by (rule kra.at_nth [OF list i])
  have "each_descriptor (\<lambda>_. free_recv_ctx) list i (Suc n) w = Some ([], w')" using at free r(1) by simp
  moreover have "w' = w\<lparr>w_descs := w_descs w', w_ctxs := w_ctxs w'\<rparr>"
    using r(2) by (cases w) (simp add: w1_def set_desc_def)
  moreover have "\<forall>d. w_descs w' d = (if d \<in> set (?d # ?ds) then map_option (\<lambda>desc. desc\<lparr>ds_recv_ctx := None\<rparr>) (w_descs w d) else w_descs w d)"
    using r(3) d fresh(1) by (auto simp: w1_def)
  moreover have "(\<exists>e \<in> set ?ds. ds_recv_ctx (the (w_descs w1 e)) = Some x) = (\<exists>e \<in> set ?ds. ds_recv_ctx (the (w_descs w e)) = Some x)" for x
    using fresh(1) by (intro bex_cong) (auto simp: w1_def)
  then have "w_ctxs w' = (\<lambda>x. if \<exists>d \<in> set (?d # ?ds). ds_recv_ctx (the (w_descs w d)) = Some x then None else w_ctxs w x)"
    unfolding r(4) using d by (auto simp: w1_def fun_eq_iff)
  ultimately show ?case unfolding ds by blast
qed

text \<open>
  The invariant of a running server: that of the protocol, its descriptors with at most 64 connections each,
  and a queue and a pool that share their messages with the threads.
\<close>

definition messages_ok :: "pool_id \<Rightarrow> world \<Rightarrow> bool" where
  "messages_ok a w \<longleftrightarrow> (\<exists>spm q p hands. w_spm w = Some spm \<and> spm_message_queue spm = Some q \<and> spm_message_pool spm = Some a \<and>
     w_pools w a = Some p \<and> mq_ok q a p hands)"

definition descriptors_ok :: "world \<Rightarrow> bool" where
  "descriptors_ok w \<longleftrightarrow> (\<exists>spm list. w_spm w = Some spm \<and> spm_descriptor_list spm = Some list \<and> arr_ok list \<and>
     distinct (arr_vals list) \<and> dom (w_descs w) = set (arr_vals list) \<and> contexts_ok w (arr_vals list) \<and>
     (\<forall>d \<in> set (arr_vals list). length (refs0 (the (w_descs w d))) \<le> 64))"

definition server_live :: "pool_id \<Rightarrow> world \<Rightarrow> bool" where
  "server_live a w \<longleftrightarrow> sv_inv w \<and> descriptors_ok w \<and> messages_ok a w"

text \<open>A server that does not run: it holds no handle, no queue, no pool and no map, and its ports have no connections.\<close>

definition silent_port :: "udp_socket_descriptor \<Rightarrow> bool" where
  "silent_port desc \<longleftrightarrow> desc_ok desc \<and> (\<forall>ch. ch_refs desc ch = [])"

definition manager_idle :: "server_port_manager \<Rightarrow> bool" where
  "manager_idle spm \<longleftrightarrow> \<not> spm_running spm \<and> spm_iocp_handle spm = None \<and> spm_iocp_threads spm = None \<and>
     spm_handler_threads spm = None \<and> spm_retransmit_thread spm = None \<and> spm_message_queue spm = None \<and>
     spm_message_pool spm = None \<and> spm_connection_map spm = None"

definition server_idle :: "world \<Rightarrow> bool" where
  "server_idle w \<longleftrightarrow> (\<exists>spm list. w_spm w = Some spm \<and> manager_idle spm \<and> spm_descriptor_list spm = Some list \<and>
     arr_ok list \<and> distinct (arr_vals list) \<and> dom (w_descs w) = set (arr_vals list)) \<and>
     (\<forall>d desc. w_descs w d = Some desc \<longrightarrow> silent_port desc \<and> ds_recv_ctx desc = None) \<and>
     (\<forall>r c. w_conns w r = Some c \<longrightarrow> conn_ok w c)"

lemma mq_ok_stopped [simp]: "mq_ok (q\<lparr>mq_stopped := b\<rparr>) a p hands = mq_ok q a p hands"
  by (simp add: mq_ok_def mq_wf_def mq_view_def)

lemma server_live_spm:
  assumes "server_live a w" and "w_spm w = Some spm" and "spm_connection_map spm' = spm_connection_map spm"
    and "spm_descriptor_list spm' = spm_descriptor_list spm" and "spm_message_pool spm' = spm_message_pool spm"
    and "spm_message_queue spm' = spm_message_queue spm \<or> spm_message_queue spm' = krs_message_queue_stop (spm_message_queue spm)"
  shows "server_live a (set_spm spm' w)"
proof -
  have "contexts_ok (set_spm spm' w) ds = contexts_ok w ds" for ds by (simp add: contexts_ok_def)
  then have "descriptors_ok (set_spm spm' w)" using assms(1,2,4) by (simp add: server_live_def descriptors_ok_def)
  moreover have "messages_ok a (set_spm spm' w)"
  proof -
    obtain q p hands where m: "spm_message_queue spm = Some q" "spm_message_pool spm = Some a" "w_pools w a = Some p" "mq_ok q a p hands"
      using assms(1,2) by (auto simp: server_live_def messages_ok_def)
    obtain q' where "spm_message_queue spm' = Some q'" "mq_ok q' a p hands"
      using assms(6) m(1,4) by (auto simp: krs_message_queue_stop_def)
    with m assms(5) show ?thesis by (auto simp: messages_ok_def)
  qed
  ultimately show ?thesis using assms(1-3) sv_inv_spm by (auto simp: server_live_def)
qed

text \<open>The handles of the manager, which only the caller of start and stop changes.\<close>

definition control :: "world \<Rightarrow> (handle option \<times> handle option list option \<times> u32 \<times> handle option list option \<times> u32 \<times>
    handle option \<times> bool \<times> desc_ref krs_array option) option" where
  "control w = map_option (\<lambda>spm. (spm_iocp_handle spm, spm_iocp_threads spm, spm_iocp_thread_count spm, spm_handler_threads spm,
     spm_handler_thread_count spm, spm_retransmit_thread spm, spm_running spm, spm_descriptor_list spm)) (w_spm w)"

definition threads_behave :: "pool_id \<Rightarrow> (nat \<Rightarrow> world \<Rightarrow> world) \<Rightarrow> bool" where
  "threads_behave a others \<longleftrightarrow>
     (\<forall>k w. server_live a w \<longrightarrow> server_live a (others k w) \<and> control (others k w) = control w \<and> w_wsa (others k w) = w_wsa w)"

lemma read_handles_all: "read_handles (xs @ map Some hs @ ys) (length xs) (length hs) = Some hs"
proof (induction hs arbitrary: xs)
  case (Cons h hs)
  from Cons.IH [of "xs @ [Some h]"] show ?case by (simp add: mem_get_def nth_append)
qed simp

lemma join_all: "join_threads ms (length hs) (Some (map Some hs)) =
    Some (Ev_io (Wait_threads hs ms) # map (\<lambda>h. Ev_io (Close_handle h)) hs)"
  using read_handles_all [of "[]" hs "[]"] by (simp add: join_threads_def)

lemma stop_release_spec:
  assumes live: "sv_inv w" "messages_ok a w" and spm: "w_spm w = Some spm" "spm_descriptor_list spm = Some list"
    and list: "arr_ok list" "distinct (arr_vals list)" "contexts_ok w (arr_vals list)"
  obtains w' where "stop_release w = Some (close_iocp spm, w')"
    and "w_spm w' = Some (spm\<lparr>spm_iocp_handle := None, spm_message_queue := None, spm_message_pool := None, spm_connection_map := None\<rparr>)"
    and "w_pools w' = (w_pools w)(a := None)" and "w_conns w' = w_conns w" and "w_wsa w' = krs_wsa_cleanup (w_wsa w)"
    and "w_next_connection_id w' = w_next_connection_id w" and "dom (w_descs w') = dom (w_descs w)"
    and "\<And>d. d \<in> set (arr_vals list) \<Longrightarrow> w_descs w' d = map_option (\<lambda>desc. desc\<lparr>ds_recv_ctx := None\<rparr>) (w_descs w d)"
    and "\<And>d x. d \<in> set (arr_vals list) \<Longrightarrow> ds_recv_ctx (the (w_descs w d)) = Some x \<Longrightarrow> w_ctxs w' x = None"
proof -
  obtain w1 where f: "each_descriptor (\<lambda>_. free_recv_ctx) list 0 (length (arr_vals list)) w = Some ([], w1)"
      "w1 = w\<lparr>w_descs := w_descs w1, w_ctxs := w_ctxs w1\<rparr>"
      "\<forall>d. w_descs w1 d = (if d \<in> set (arr_vals list) then map_option (\<lambda>desc. desc\<lparr>ds_recv_ctx := None\<rparr>) (w_descs w d) else w_descs w d)"
      "w_ctxs w1 = (\<lambda>x. if \<exists>d \<in> set (arr_vals list). ds_recv_ctx (the (w_descs w d)) = Some x then None else w_ctxs w x)"
    using free_each [OF list(1), of 0 "length (arr_vals list)" w] list(2,3) by auto
  have len: "unat (krs_array_length (Some list)) = length (arr_vals list)"
    by (simp add: krs_array_length_def length_arr_vals [OF list(1)])
  have free: "for_descriptors (\<lambda>_. free_recv_ctx) spm w = Some ([], w1)" using f(1) by (simp add: for_descriptors_def spm(2) len)
  have w1: "w_spm w1 = Some spm" "w_pools w1 = w_pools w" "w_conns w1 = w_conns w" "w_wsa w1 = w_wsa w"
      "w_next_connection_id w1 = w_next_connection_id w"
    using f(2) spm(1) by (metis (no_types) world.select_convs world.simps world.surjective world.update_convs)+
  obtain q p hands where m: "spm_message_queue spm = Some q" "spm_message_pool spm = Some a" "w_pools w a = Some p" "mq_ok q a p hands"
    using live(2) spm(1) by (auto simp: messages_ok_def)
  obtain q1 p1 where q1: "krs_message_queue_drain (Some q) (Some a) (w_pools w) = Some (Some q1, (w_pools w)(a \<mapsto> p1), heap_msgs p (mq_view q))"
      "mq_ok q1 a p1 hands" "mq_view q1 = []" using drain_spec [of q a p hands "w_pools w", OF m(4,3)] by blast
  obtain p2 where p2: "krs_message_queue_destroy (Some q1) ((w_pools w)(a \<mapsto> p1)) = Some (None, (w_pools w)(a \<mapsto> p2), [])"
    using destroy_spec [of q1 a p1 hands "(w_pools w)(a \<mapsto> p1)"] q1(2,3) by (auto simp: heap_msgs_def)
  define spm' where "spm' = spm\<lparr>spm_iocp_handle := None, spm_message_queue := None, spm_message_pool := None, spm_connection_map := None\<rparr>"
  have "\<exists>msgs. stop_release w = Some (close_iocp spm, w1\<lparr>w_pools := (w_pools w)(a := None), w_msgs := msgs,
      w_spm := Some spm', w_wsa := krs_wsa_cleanup (w_wsa w)\<rparr>)"
    using spm w1 m(1,2) free q1(1) p2
    by (auto simp: stop_release_def destroy_queue_def destroy_pool_def forget_messages_def krs_connection_map_destroy_def
        krs_message_pool_destroy_def Let_def set_spm_def spm'_def intro!: exI)
  then obtain msgs where "stop_release w = Some (close_iocp spm, w1\<lparr>w_pools := (w_pools w)(a := None), w_msgs := msgs,
      w_spm := Some spm', w_wsa := krs_wsa_cleanup (w_wsa w)\<rparr>)" ..
  then show thesis by (rule that) (use w1 f(3,4) in \<open>auto simp: spm'_def dom_def\<close>)
qed

text \<open>The three waits: the events are known, the handles are gone and the server is as live as before.\<close>

lemma controlE:
  assumes "control w = Some (h, it, ic, ht, hc, rt, run, list)"
  obtains spm where "w_spm w = Some spm" "spm_iocp_handle spm = h" "spm_iocp_threads spm = it" "spm_iocp_thread_count spm = ic"
    "spm_handler_threads spm = ht" "spm_handler_thread_count spm = hc" "spm_retransmit_thread spm = rt" "spm_running spm = run"
    "spm_descriptor_list spm = list"
  using assms by (auto simp: control_def)

lemma threads_behaveD:
  assumes "threads_behave a others" and "server_live a w"
  shows "server_live a (others k w)" and "control (others k w) = control w" and "w_wsa (others k w) = w_wsa w"
  using assms by (auto simp: threads_behave_def)

lemma stop_iocp_spec:
  assumes live: "server_live a w" and others: "threads_behave a others" and few: "length its < 2 ^ 32"
    and ctl: "control w = Some (h, Some (map Some its), of_nat (length its), ht, hc, rt, run, list)"
  obtains w' where "stop_iocp_threads others w = Some (replicate (length its) (Ev_io (Post_shutdown h)) @
      Ev_io (Wait_threads its 5000) # map (\<lambda>h. Ev_io (Close_handle h)) its, w')"
    and "server_live a w'" and "control w' = Some (h, None, 0, ht, hc, rt, run, list)" and "w_wsa w' = w_wsa w"
proof -
  note b = threads_behaveD [OF others live, of 0]
  obtain spm where spm: "w_spm w = Some spm" "spm_iocp_handle spm = h" "spm_iocp_thread_count spm = of_nat (length its)"
    by (rule controlE [OF ctl])
  obtain spm1 where spm1: "w_spm (others 0 w) = Some spm1" "spm_iocp_threads spm1 = Some (map Some its)"
      "spm_iocp_thread_count spm1 = of_nat (length its)"
    by (rule controlE [OF b(2) [unfolded ctl]])
  have n: "unat (of_nat (length its) :: u32) = length its" by (rule unat_of_nat_small) (use few in simp)
  let ?w = "set_spm (spm1\<lparr>spm_iocp_threads := None, spm_iocp_thread_count := 0\<rparr>) (others 0 w)"
  show thesis
  proof (rule that [of ?w])
    show "server_live a ?w" by (rule server_live_spm [OF b(1) spm1(1)]) simp_all
    show "control ?w = Some (h, None, 0, ht, hc, rt, run, list)" using b(2) ctl spm1(1) by (auto simp: control_def)
  qed (use spm spm1 n b(3) in \<open>simp_all add: stop_iocp_threads_def join_all Let_def\<close>)
qed

lemma stop_handler_spec:
  assumes live: "server_live a w" and others: "threads_behave a others" and few: "length hts < 2 ^ 32"
    and ctl: "control w = Some (h, it, ic, Some (map Some hts), of_nat (length hts), rt, run, list)"
  obtains w' where "stop_handler_threads others w =
      Some (Ev_io (Wait_threads hts 5000) # map (\<lambda>h. Ev_io (Close_handle h)) hts, w')"
    and "server_live a w'" and "control w' = Some (h, it, ic, None, 0, rt, run, list)" and "w_wsa w' = w_wsa w"
proof -
  obtain spm where spm: "w_spm w = Some spm" by (rule controlE [OF ctl])
  let ?v = "set_spm (spm\<lparr>spm_message_queue := krs_message_queue_stop (spm_message_queue spm)\<rparr>) w"
  have v: "server_live a ?v" by (rule server_live_spm [OF live spm]) simp_all
  have vc: "control ?v = control w" using spm by (simp add: control_def)
  note b = threads_behaveD [OF others v, of 1]
  obtain spm1 where spm1: "w_spm (others 1 ?v) = Some spm1" "spm_handler_threads spm1 = Some (map Some hts)"
      "spm_handler_thread_count spm1 = of_nat (length hts)"
    by (rule controlE [OF b(2) [unfolded vc ctl]])
  have n: "unat (of_nat (length hts) :: u32) = length hts" by (rule unat_of_nat_small) (use few in simp)
  let ?w = "set_spm (spm1\<lparr>spm_handler_threads := None, spm_handler_thread_count := 0\<rparr>) (others 1 ?v)"
  show thesis
  proof (rule that [of ?w])
    show "server_live a ?w" by (rule server_live_spm [OF b(1) spm1(1)]) simp_all
    show "control ?w = Some (h, it, ic, None, 0, rt, run, list)" using b(2) [unfolded vc ctl] spm1(1) by (auto simp: control_def)
  qed (use spm spm1 n b(3) in \<open>simp_all add: stop_handler_threads_def join_all Let_def\<close>)
qed

lemma stop_retransmit_spec:
  assumes live: "server_live a w" and others: "threads_behave a others"
    and ctl: "control w = Some (h, it, ic, ht, hc, Some rh, run, list)"
  obtains w' where "stop_retransmit_thread others w = Some ([Ev_io (Wait_threads [rh] 2000), Ev_io (Close_handle rh)], w')"
    and "server_live a w'" and "control w' = Some (h, it, ic, ht, hc, None, run, list)" and "w_wsa w' = w_wsa w"
proof -
  note b = threads_behaveD [OF others live, of 2]
  obtain spm1 where spm1: "w_spm (others 2 w) = Some spm1" "spm_retransmit_thread spm1 = Some rh"
    by (rule controlE [OF b(2) [unfolded ctl]])
  let ?w = "set_spm (spm1\<lparr>spm_retransmit_thread := None\<rparr>) (others 2 w)"
  show thesis
  proof (rule that [of ?w])
    show "server_live a ?w" by (rule server_live_spm [OF b(1) spm1(1)]) simp_all
    show "control ?w = Some (h, it, ic, ht, hc, None, run, list)" using b(2) ctl spm1(1) by (auto simp: control_def)
  qed (use spm1 b(3) in \<open>simp_all add: stop_retransmit_thread_def Let_def\<close>)
qed

text \<open>The sweep and the release together.\<close>

lemma stop_tail_spec:
  assumes live: "server_live a w" and spm: "w_spm w = Some spm" "spm_descriptor_list spm = Some list"
  defines "D \<equiv> \<lambda>d. the (w_descs w d)"
  obtains f n w1 w' where
      "s_sweep_active_connections_on_stop w = Some (concat (map (\<lambda>d. disconnects w (D d) (f d)) (arr_vals list)), w1)"
    and "stop_release w1 = Some (close_iocp spm, w')"
    and "\<forall>d \<in> set (arr_vals list). distinct (f d) \<and> set (f d) = set (refs0 (D d))"
    and "w_spm w' = Some (spm\<lparr>spm_iocp_handle := None, spm_message_queue := None, spm_message_pool := None,
           spm_connection_map := None, stat_disconnections := n\<rparr>)"
    and "w_pools w' a = None" and "w_wsa w' = krs_wsa_cleanup (w_wsa w)"
    and "dom (w_descs w') = set (arr_vals list)"
    and "\<forall>d desc. w_descs w' d = Some desc \<longrightarrow> silent_port desc \<and> ds_recv_ctx desc = None"
    and "\<forall>r c. w_conns w' r = Some c \<longrightarrow> conn_ok w' c"
    and "\<forall>d \<in> set (arr_vals list). \<forall>x. ds_recv_ctx (D d) = Some x \<longrightarrow> w_ctxs w' x = None"
    and "w_conns w' = (\<lambda>r. if \<exists>d \<in> set (arr_vals list). r \<in> set (refs0 (D d)) then None else w_conns w r)"
proof -
  have inv: "sv_inv w" and msgs: "messages_ok a w" using live by (simp_all add: server_live_def)
  have list: "arr_ok list" "distinct (arr_vals list)" "contexts_ok w (arr_vals list)"
    and dom: "dom (w_descs w) = set (arr_vals list)" and few: "\<forall>d \<in> set (arr_vals list). length (refs0 (the (w_descs w d))) \<le> 64"
    using live spm by (auto simp: server_live_def descriptors_ok_def)
  have map: "spm_connection_map spm \<noteq> None" using inv spm(1) by (auto elim!: sv_invE)
  have len: "unat (krs_array_length (Some list)) = length (arr_vals list)"
    by (simp add: krs_array_length_def length_arr_vals [OF list(1)])
  have "\<forall>d \<in> set (arr_vals list). \<exists>desc. w_descs w d = Some desc \<and> length (refs0 desc) \<le> 64"
    using few contexts_okD(1) [OF list(3)] by fastforce
  with stop_each [OF list(1), of 0 "length (arr_vals list)" w] list(2) inv obtain f w1 where
    r: "each_descriptor (\<lambda>_. stop_rounds) list 0 (length (arr_vals list)) w =
        Some (concat (map (\<lambda>d. disconnects w (D d) (f d)) (arr_vals list)), w1)"
      "sv_inv w1" "sweep_frame w w1" "\<forall>d \<in> set (arr_vals list). distinct (f d) \<and> set (f d) = set (refs0 (D d))"
      "\<forall>d \<in> set (arr_vals list). \<exists>desc'. w_descs w1 d = Some desc' \<and> silent (D d) desc'"
      "w_conns w1 = (\<lambda>r. if \<exists>d \<in> set (arr_vals list). r \<in> set (refs0 (D d)) then None else w_conns w r)"
      "\<forall>d. d \<notin> set (arr_vals list) \<longrightarrow> w_descs w1 d = w_descs w d"
    unfolding D_def by auto
  have sweep: "s_sweep_active_connections_on_stop w = Some (concat (map (\<lambda>d. disconnects w (D d) (f d)) (arr_vals list)), w1)"
    using r(1) map by (auto simp: s_sweep_active_connections_on_stop_def for_descriptors_def spm len)
  obtain m n where spm1: "w_spm w1 = Some (spm\<lparr>spm_connection_map := m, stat_disconnections := n\<rparr>)"
    using r(3) spm(1) by (auto simp: sweep_frame_def)
  let ?spm1 = "spm\<lparr>spm_connection_map := m, stat_disconnections := n\<rparr>"
  have fr: "w_pools w1 = w_pools w" "w_ctxs w1 = w_ctxs w" "w_wsa w1 = w_wsa w" using r(3) by (simp_all add: sweep_frame_def)
  have msgs1: "messages_ok a w1" using msgs spm(1) spm1 fr(1) by (auto simp: messages_ok_def)
  have old: "w_descs w1 d = Some desc' \<Longrightarrow> d \<in> set (arr_vals list) \<Longrightarrow> ds_recv_ctx desc' = ds_recv_ctx (D d)" for d desc'
    using r(5) by (auto simp: silent_def)
  have ctx1: "contexts_ok w1 (arr_vals list)"
    unfolding contexts_ok_def
  proof (intro conjI ballI allI impI)
    fix d assume d: "d \<in> set (arr_vals list)"
    then obtain desc where desc: "w_descs w d = Some desc" "D d = desc" using contexts_okD(1) [OF list(3)] by (auto simp: D_def)
    show "w_descs w1 d \<noteq> None" using r(5) d by auto
    show "w_ctxs w1 x \<noteq> None" if "w_descs w1 d = Some desc'" "ds_recv_ctx desc' = Some x" for desc' x
      using contexts_okD(2) [OF list(3) d desc(1)] old [OF that(1) d] that(2) desc(2) fr(2) by simp
    show "e = d" if e: "e \<in> set (arr_vals list)" "w_descs w1 d = Some d1" "w_descs w1 e = Some d2" "ds_recv_ctx d1 = Some x" "ds_recv_ctx d2 = Some x"
      for e d1 d2 x
    proof -
      obtain desc2 where "w_descs w e = Some desc2" "D e = desc2" using contexts_okD(1) [OF list(3) e(1)] by (auto simp: D_def)
      with old [OF e(2) d] old [OF e(3,1)] e(4,5) desc(2) show ?thesis
        by (intro contexts_okD(3) [OF list(3) d e(1) desc(1), where x = x]) auto
    qed
  qed
  obtain w' where z: "stop_release w1 = Some (close_iocp ?spm1, w')"
      "w_spm w' = Some (?spm1\<lparr>spm_iocp_handle := None, spm_message_queue := None, spm_message_pool := None, spm_connection_map := None\<rparr>)"
      "w_pools w' = (w_pools w1)(a := None)" "w_conns w' = w_conns w1" "w_wsa w' = krs_wsa_cleanup (w_wsa w1)"
      "w_next_connection_id w' = w_next_connection_id w1" "dom (w_descs w') = dom (w_descs w1)"
      "\<And>d. d \<in> set (arr_vals list) \<Longrightarrow> w_descs w' d = map_option (\<lambda>desc. desc\<lparr>ds_recv_ctx := None\<rparr>) (w_descs w1 d)"
      "\<And>d x. d \<in> set (arr_vals list) \<Longrightarrow> ds_recv_ctx (the (w_descs w1 d)) = Some x \<Longrightarrow> w_ctxs w' x = None"
    by (rule stop_release_spec [OF r(2) msgs1 spm1 _ list(1,2) ctx1]) (simp_all add: spm(2))
  show thesis
  proof (rule that [OF sweep])
    show "stop_release w1 = Some (close_iocp spm, w')" using z(1) by (simp add: close_iocp_def)
    show "w_spm w' = Some (spm\<lparr>spm_iocp_handle := None, spm_message_queue := None, spm_message_pool := None,
           spm_connection_map := None, stat_disconnections := n\<rparr>)"
      by (simp add: z(2))
    show dom': "dom (w_descs w') = set (arr_vals list)" using dom r(5,7) z(7) by (auto simp: dom_def)
    show "\<forall>d desc. w_descs w' d = Some desc \<longrightarrow> silent_port desc \<and> ds_recv_ctx desc = None"
    proof (intro allI impI)
      fix d desc assume d: "w_descs w' d = Some desc"
      then have dl: "d \<in> set (arr_vals list)" using dom' by auto
      then obtain desc1 where d1: "w_descs w1 d = Some desc1" "silent (D d) desc1" using r(5) by blast
      have eq: "desc = desc1\<lparr>ds_recv_ctx := None\<rparr>" using z(8) [OF dl] d d1(1) by simp
      obtain spm m where "desc_conns_ok w1 m" using r(2) by (rule sv_invE)
      from desc_conns_okD(1) [OF this d1(1)] d1(2) show "silent_port desc \<and> ds_recv_ctx desc = None"
        by (simp add: eq silent_port_def silent_def desc_ok_def desc_wf_def ch_refs_def refs0_def)
    qed
    show "\<forall>r c. w_conns w' r = Some c \<longrightarrow> conn_ok w' c" using r(2) z(4,6) by (simp add: sv_inv_def conn_ok_def)
    show "\<forall>d \<in> set (arr_vals list). \<forall>x. ds_recv_ctx (D d) = Some x \<longrightarrow> w_ctxs w' x = None"
      using r(5) z(9) by (fastforce simp: silent_def)
    show "w_conns w' = (\<lambda>r. if \<exists>d \<in> set (arr_vals list). r \<in> set (refs0 (D d)) then None else w_conns w r)"
      by (simp add: z(4) r(6))
  qed (use r(4) z(3,5) fr in simp_all)
qed

lemma stop_run:
  assumes "server_live a w" and "w_spm w = Some spm" and "spm_running spm" and "spm_iocp_handle spm = Some h"
    and "spm_iocp_threads spm = Some (map Some its)" and "spm_iocp_thread_count spm = of_nat (length its)" and "length its < 2 ^ 32"
    and "spm_handler_threads spm = Some (map Some hts)" and "spm_handler_thread_count spm = of_nat (length hts)" and "length hts < 2 ^ 32"
    and "spm_retransmit_thread spm = Some rh" and "spm_descriptor_list spm = Some list" and "threads_behave a others"
  defines "posts \<equiv> replicate (length its) (Ev_io (Post_shutdown (Some h)))"
    and "close \<equiv> map (\<lambda>h. Ev_io (Close_handle h))"
  obtains w1 w2 v f w' where "stop_iocp_threads others (set_spm (spm\<lparr>spm_running := False\<rparr>) w) = Some (posts @ Ev_io (Wait_threads its 5000) # close its, w1)"
    and "stop_handler_threads others w1 = Some (Ev_io (Wait_threads hts 5000) # close hts, w2)"
    and "stop_retransmit_thread others w2 = Some (Ev_io (Wait_threads [rh] 2000) # close [rh], v)"
    and "krs_server_stop others w = Some (posts @ Ev_io (Wait_threads its 5000) # close its @ Ev_io (Wait_threads hts 5000) # close hts @
      Ev_io (Wait_threads [rh] 2000) # close [rh] @
      concat (map (\<lambda>d. disconnects v (the (w_descs v d)) (f d)) (arr_vals list)) @ close [h], w')"
    and "(\<forall>d \<in> set (arr_vals list). distinct (f d) \<and> set (f d) = set (refs0 (the (w_descs v d))))"
    and "server_idle w'"
    and "w_pools w' a = None"
    and "w_wsa w' = krs_wsa_cleanup (w_wsa w)"
    and "(\<forall>d \<in> set (arr_vals list). \<forall>x. ds_recv_ctx (the (w_descs v d)) = Some x \<longrightarrow> w_ctxs w' x = None)"
    and "w_conns w' = (\<lambda>r. if \<exists>d \<in> set (arr_vals list). r \<in> set (refs0 (the (w_descs v d))) then None else w_conns v r)"
proof -
  let ?w0 = "set_spm (spm\<lparr>spm_running := False\<rparr>) w"
  have l0: "server_live a ?w0" by (rule server_live_spm [OF assms(1,2)]) simp_all
  have c0: "control ?w0 = Some (Some h, Some (map Some its), of_nat (length its), Some (map Some hts), of_nat (length hts), Some rh, False, Some list)"
    using assms(4-6,8,9,11,12) by (simp add: control_def)
  obtain w1 where w1: "stop_iocp_threads others ?w0 = Some (posts @ Ev_io (Wait_threads its 5000) # close its, w1)" "server_live a w1"
      "control w1 = Some (Some h, None, 0, Some (map Some hts), of_nat (length hts), Some rh, False, Some list)" "w_wsa w1 = w_wsa ?w0"
    unfolding posts_def close_def by (rule stop_iocp_spec [OF l0 assms(13,7) c0])
  obtain w2 where w2: "stop_handler_threads others w1 = Some (Ev_io (Wait_threads hts 5000) # close hts, w2)" "server_live a w2"
      "control w2 = Some (Some h, None, 0, None, 0, Some rh, False, Some list)" "w_wsa w2 = w_wsa w1"
    unfolding close_def by (rule stop_handler_spec [OF w1(2) assms(13,10) w1(3)])
  obtain v where v: "stop_retransmit_thread others w2 = Some ([Ev_io (Wait_threads [rh] 2000), Ev_io (Close_handle rh)], v)" "server_live a v"
      "control v = Some (Some h, None, 0, None, 0, None, False, Some list)" "w_wsa v = w_wsa w2"
    by (rule stop_retransmit_spec [OF w2(2) assms(13) w2(3)])
  obtain spmv where s: "w_spm v = Some spmv" "spm_iocp_handle spmv = Some h" "spm_iocp_threads spmv = None" "spm_handler_threads spmv = None"
      "spm_retransmit_thread spmv = None" "spm_running spmv = False" "spm_descriptor_list spmv = Some list" by (rule controlE [OF v(3)])
  obtain f n v1 w' where
    t: "s_sweep_active_connections_on_stop v = Some (concat (map (\<lambda>d. disconnects v (the (w_descs v d)) (f d)) (arr_vals list)), v1)"
      "stop_release v1 = Some (close_iocp spmv, w')"
      "\<forall>d \<in> set (arr_vals list). distinct (f d) \<and> set (f d) = set (refs0 (the (w_descs v d)))"
      "w_spm w' = Some (spmv\<lparr>spm_iocp_handle := None, spm_message_queue := None, spm_message_pool := None, spm_connection_map := None, stat_disconnections := n\<rparr>)"
      "w_pools w' a = None" "w_wsa w' = krs_wsa_cleanup (w_wsa v)"
      "dom (w_descs w') = set (arr_vals list)" "\<forall>d desc. w_descs w' d = Some desc \<longrightarrow> silent_port desc \<and> ds_recv_ctx desc = None"
      "\<forall>r c. w_conns w' r = Some c \<longrightarrow> conn_ok w' c"
      "\<forall>d \<in> set (arr_vals list). \<forall>x. ds_recv_ctx (the (w_descs v d)) = Some x \<longrightarrow> w_ctxs w' x = None"
      "w_conns w' = (\<lambda>r. if \<exists>d \<in> set (arr_vals list). r \<in> set (refs0 (the (w_descs v d))) then None else w_conns v r)"
    by (rule stop_tail_spec [OF v(2) s(1,7)])
  have "arr_ok list \<and> distinct (arr_vals list)" using v(2) s(1,7) by (auto simp: server_live_def descriptors_ok_def)
  then have idle: "server_idle w'" using s t(4,7-9) by (simp add: server_idle_def manager_idle_def)
  have run: "krs_server_stop others w = Some (posts @ Ev_io (Wait_threads its 5000) # close its @ Ev_io (Wait_threads hts 5000) # close hts @
      Ev_io (Wait_threads [rh] 2000) # close [rh] @
      concat (map (\<lambda>d. disconnects v (the (w_descs v d)) (f d)) (arr_vals list)) @ close [h], w')"
    using w1(1) w2(1) v(1) t(1,2) assms(2,3) s(2) by (simp add: krs_server_stop_def close_iocp_def close_def)
  have "stop_retransmit_thread others w2 = Some (Ev_io (Wait_threads [rh] 2000) # close [rh], v)" using v(1) by (simp add: close_def)
  moreover have "w_wsa w' = krs_wsa_cleanup (w_wsa w)" using t(6) w1(4) w2(4) v(4) by simp
  ultimately show thesis using that [OF w1(1) w2(1) _ run t(3) idle t(5) _ t(10,11)] by blast
qed


section \<open>A small running server\<close>

lemma sv_inv_stores [simp]:
  "sv_inv (w\<lparr>w_pools := ps\<rparr>) = sv_inv w" "sv_inv (w\<lparr>w_ctxs := cs\<rparr>) = sv_inv w"
  by (simp_all add: sv_inv_def sv_map_def desc_conns_ok_def map_conns_ok_def conn_ok_def)

text \<open>A new queue and a new pool, as the server creates them.\<close>

lemma new_messages:
  assumes "storage_fits st 1024"
  obtains q p where "krs_message_queue_create 256 True True = Some q" and "krs_message_pool_create 1024 True (Some st) True = Some p"
    and "mq_ok (q\<lparr>mq_pool := Some a\<rparr>) a p {}" and "mq_count q = 0"
proof -
  obtain q where q: "krs_message_queue_create 256 True True = Some q" by (simp add: krs_message_queue_create_def Let_def)
  obtain p where p: "krs_message_pool_create 1024 True (Some st) True = Some p" by (simp add: krs_message_pool_create_def)
  have "pool_inv p {}" by (rule pool_create_inv [OF p]) (use assms in simp)
  moreover have wf: "mq_wf q" "mq_view q = []" using create_queue_wf [OF q] by simp_all
  ultimately have "mq_ok (q\<lparr>mq_pool := Some a\<rparr>) a p {}" by (simp add: mq_ok_def mq_wf_def mq_view_def)
  moreover have "mq_count q = 0" using wf(2) length_mq_view [of q] by simp
  ultimately show thesis using that q p by blast
qed

lemma sample_live:
  obtains w spm where "server_live 1 w" and "w_spm w = Some spm" and "spm_running spm" and "spm_iocp_handle spm = Some 10"
    and "spm_iocp_threads spm = Some (map Some [11, 12])" and "spm_iocp_thread_count spm = of_nat (length [11 :: handle, 12])"
    and "spm_handler_threads spm = Some (map Some [13])" and "spm_handler_thread_count spm = of_nat (length [13 :: handle])"
    and "spm_retransmit_thread spm = Some 14" and "spm_descriptor_list spm = Some (one_descriptor 3)"
    and "w_conns w = [9 \<mapsto> new_connection 1 (krs_network_port_address_create 5000 zero_address) 1000]"
    and "\<exists>sts. w_descs w 3 = Some (sample_descriptor\<lparr>ds_channel_states := sts\<rparr>) \<and> refs0 (sample_descriptor\<lparr>ds_channel_states := sts\<rparr>) = [9]"
proof -
  let ?d = "\<lambda>sts. sample_descriptor\<lparr>ds_channel_states := sts\<rparr>"
  obtain w sts m where w: "sv_inv w" "w_conns w = [9 \<mapsto> new_connection 1 (krs_network_port_address_create 5000 zero_address) 1000]"
      "w_descs w = [3 \<mapsto> ?d sts]" "refs0 (?d sts) = [9]" by (rule sample_connected)
  obtain spm where spm: "w_spm w = Some spm" using w(1) by (rule sv_invE)
  obtain q p where q: "mq_ok (q\<lparr>mq_pool := Some 1\<rparr>) 1 p {}"
    by (rule new_messages [of 4096 1]) (simp_all add: storage_fits_def)
  let ?spm = "spm\<lparr>spm_running := True, spm_iocp_handle := Some 10, spm_iocp_threads := Some (map Some [11, 12]),
    spm_iocp_thread_count := of_nat (length [11 :: handle, 12]), spm_handler_threads := Some (map Some [13]),
    spm_handler_thread_count := of_nat (length [13 :: handle]), spm_retransmit_thread := Some 14,
    spm_descriptor_list := Some (one_descriptor 3), spm_message_queue := Some (q\<lparr>mq_pool := Some 1\<rparr>), spm_message_pool := Some 1\<rparr>"
  let ?w = "set_spm ?spm (w\<lparr>w_pools := [1 \<mapsto> p]\<rparr>)"
  have "sv_inv ?w" by (rule sv_inv_spm [of _ spm]) (simp_all add: w(1) spm)
  moreover have "ds_recv_ctx (?d sts) = None" by (simp add: sample_descriptor_def zero_descriptor_def)
  then have "descriptors_ok ?w" by (simp add: descriptors_ok_def one_descriptor_ok contexts_ok_def w(3,4))
  moreover have "messages_ok 1 ?w" using q by (auto simp: messages_ok_def)
  ultimately have "server_live 1 ?w" by (simp add: server_live_def)
  then show thesis by (rule that) (use w(2-4) in auto)
qed

text \<open>Threads that do nothing more leave the ports and the connections as they are.\<close>

lemma quiet_stores:
  "stop_iocp_threads (\<lambda>_ w. w) w = Some (evs, w') \<Longrightarrow> w_descs w' = w_descs w \<and> w_conns w' = w_conns w"
  "stop_handler_threads (\<lambda>_ w. w) w = Some (evs, w') \<Longrightarrow> w_descs w' = w_descs w \<and> w_conns w' = w_conns w"
  "stop_retransmit_thread (\<lambda>_ w. w) w = Some (evs, w') \<Longrightarrow> w_descs w' = w_descs w \<and> w_conns w' = w_conns w"
  by (auto simp: stop_iocp_threads_def stop_handler_threads_def stop_retransmit_thread_def Let_def
      split: option.splits Option.bind_splits)


end
