(* ===== verification/Kronos_Server_Start.thy ===== *)
theory Kronos_Server_Start
  imports Kronos_Server_Lifecycle
begin

text \<open>
  Starting the server. A start that succeeds takes an idle server to a running one; a start that fails
  gives back everything it had acquired.
\<close>

section \<open>Creating threads\<close>

lemma read_prefix: "take (length hs) ts = map Some hs \<Longrightarrow> read_handles ts 0 (length hs) = Some hs"
  using read_handles_all [of "[]" hs "drop (length hs) ts"] append_take_drop_id [of "length hs" ts] by simp

lemma join_prefix:
  "take (length hs) ts = map Some hs \<Longrightarrow>
   join_threads ms (length hs) (Some ts) = Some (Ev_io (Wait_threads hs ms) # map (\<lambda>h. Ev_io (Close_handle h)) hs)"
  by (simp add: join_threads_def read_prefix)

text \<open>The threads the loop creates are the ones before the first failure.\<close>

fun first_threads :: "(nat \<Rightarrow> handle option) \<Rightarrow> nat \<Rightarrow> nat \<Rightarrow> handle list" where
  "first_threads outcome i 0 = []"
| "first_threads outcome i (Suc n) = (case outcome i of None \<Rightarrow> [] | Some h \<Rightarrow> h # first_threads outcome (Suc i) n)"

lemma length_first_threads: "length (first_threads outcome i n) \<le> n"
  by (induction n arbitrary: i) (auto split: option.split)

lemma create_threads_spec:
  "\<exists>ts'. create_threads outcome (length hs0) n (map Some hs0 @ replicate n None) =
      Some (length (first_threads outcome (length hs0) n) = n, length hs0 + length (first_threads outcome (length hs0) n), ts') \<and>
     take (length hs0 + length (first_threads outcome (length hs0) n)) ts' = map Some (hs0 @ first_threads outcome (length hs0) n) \<and>
     length ts' = length hs0 + n"
proof (induction n arbitrary: hs0)
  case (Suc n)
  show ?case
  proof (cases "outcome (length hs0)")
    case None
    then show ?thesis by (simp add: mem_set_def)
  next
    case (Some h)
    have "mem_set (map Some hs0 @ replicate (Suc n) None) (length hs0) (Some h) = Some (map Some (hs0 @ [h]) @ replicate n None)"
      by (simp add: mem_set_def list_update_append)
    with Suc.IH [of "hs0 @ [h]"] Some show ?thesis by (auto split: if_splits)
  qed
qed simp

lemma create_threads_new:
  defines "hs \<equiv> \<lambda>outcome n. first_threads outcome 0 n"
  obtains ts where "create_threads outcome 0 n (replicate n None) = Some (length (hs outcome n) = n, length (hs outcome n), ts)"
    and "take (length (hs outcome n)) ts = map Some (hs outcome n)" and "length ts = n"
  using create_threads_spec [of outcome "[]" n] that by (auto simp: hs_def)

section \<open>Posting the first receives\<close>

definition posted :: "post_outcome \<Rightarrow> handle \<Rightarrow> desc_ref \<Rightarrow> world \<Rightarrow> event list" where
  "posted po iocp d w = (let desc = the (w_descs w d) in case po_ctx po of
     None \<Rightarrow> []
   | Some x \<Rightarrow> Ev_io (Associate iocp (ds_udp_socket_ref desc) (ds_port desc)) #
       (if po_associated po then [Ev_io (Recv_from (ds_udp_socket_ref desc) x)] else []))"

definition with_ctx :: "post_outcome \<Rightarrow> udp_socket_descriptor \<Rightarrow> udp_socket_descriptor" where
  "with_ctx po desc = (case po_ctx po of None \<Rightarrow> desc | Some x \<Rightarrow> desc\<lparr>ds_recv_ctx := Some x\<rparr>)"

lemma post_one:
  assumes "w_descs w d = Some desc"
  obtains w' where "s_post_initial_recv po iocp d w = Some (posted po iocp d w, w')"
    and "w' = w\<lparr>w_descs := w_descs w', w_ctxs := w_ctxs w'\<rparr>" and "w_descs w' = (w_descs w)(d \<mapsto> with_ctx po desc)"
    and "\<forall>x. w_ctxs w x \<noteq> None \<longrightarrow> w_ctxs w' x \<noteq> None" and "\<forall>x. po_ctx po = Some x \<longrightarrow> w_ctxs w' x \<noteq> None"
proof (cases "po_ctx po")
  case None
  with assms show ?thesis
    by (intro that [of w]) (auto simp: s_post_initial_recv_def posted_def with_ctx_def fun_upd_idem)
next
  case (Some x)
  let ?ctx = "\<lparr>uo_buffer = replicate KRONOS_BUFFER_SIZE 0, uo_remote_addr = zero_port_address, uo_port = ds_port desc,
    uo_socket = ds_udp_socket_ref desc\<rparr>"
  let ?w = "set_desc d (desc\<lparr>ds_recv_ctx := Some x\<rparr>) (w\<lparr>w_ctxs := (w_ctxs w)(x \<mapsto> ?ctx)\<rparr>)"
  show ?thesis
  proof (rule that [of ?w])
    show "?w = w\<lparr>w_descs := w_descs ?w, w_ctxs := w_ctxs ?w\<rparr>" by (cases w) (simp add: set_desc_def)
  qed (use assms Some in \<open>auto simp: s_post_initial_recv_def posted_def with_ctx_def Let_def\<close>)
qed

lemma post_each:
  assumes list: "arr_ok list" and "i + n = length (arr_vals list)" and "distinct (drop i (arr_vals list))"
    and "set (drop i (arr_vals list)) \<subseteq> dom (w_descs w)"
  shows "\<exists>w'. each_descriptor (\<lambda>i d. s_post_initial_recv (post i) iocp d) list i n w =
      Some (concat (map (\<lambda>j. posted (post j) iocp (arr_vals list ! j) w) [i..<i + n]), w') \<and>
    w' = w\<lparr>w_descs := w_descs w', w_ctxs := w_ctxs w'\<rparr> \<and>
    (\<forall>j. i \<le> j \<longrightarrow> j < i + n \<longrightarrow> w_descs w' (arr_vals list ! j) = map_option (with_ctx (post j)) (w_descs w (arr_vals list ! j))) \<and>
    (\<forall>d. d \<notin> set (drop i (arr_vals list)) \<longrightarrow> w_descs w' d = w_descs w d) \<and>
    (\<forall>x. w_ctxs w x \<noteq> None \<longrightarrow> w_ctxs w' x \<noteq> None) \<and>
    (\<forall>j x. i \<le> j \<longrightarrow> j < i + n \<longrightarrow> po_ctx (post j) = Some x \<longrightarrow> w_ctxs w' x \<noteq> None)"
  using assms(2-4)
proof (induction n arbitrary: i w)
  case 0
  then show ?case by (intro exI [of _ w]) simp
next
  case (Suc n)
  let ?d = "arr_vals list ! i" and ?ds = "drop (Suc i) (arr_vals list)"
  have i: "i < length (arr_vals list)" using Suc.prems(1) by simp
  have ds: "drop i (arr_vals list) = ?d # ?ds" using i by (simp add: Cons_nth_drop_Suc)
  have fresh: "?d \<notin> set ?ds" "distinct ?ds" using Suc.prems(2) by (simp_all add: ds)
  obtain desc where d: "w_descs w ?d = Some desc" using Suc.prems(3) by (auto simp: ds)
  obtain w1 where p: "s_post_initial_recv (post i) iocp ?d w = Some (posted (post i) iocp ?d w, w1)"
      "w1 = w\<lparr>w_descs := w_descs w1, w_ctxs := w_ctxs w1\<rparr>" "w_descs w1 = (w_descs w)(?d \<mapsto> with_ctx (post i) desc)"
      "\<forall>x. w_ctxs w x \<noteq> None \<longrightarrow> w_ctxs w1 x \<noteq> None" "\<forall>x. po_ctx (post i) = Some x \<longrightarrow> w_ctxs w1 x \<noteq> None"
    by (rule post_one [OF d, of "post i" iocp])
  have "set ?ds \<subseteq> dom (w_descs w1)" using Suc.prems(3) by (auto simp: ds p(3))
  from Suc.IH [OF _ fresh(2) this] Suc.prems(1) obtain w' where
    r: "each_descriptor (\<lambda>i d. s_post_initial_recv (post i) iocp d) list (Suc i) n w1 =
        Some (concat (map (\<lambda>j. posted (post j) iocp (arr_vals list ! j) w1) [Suc i..<Suc i + n]), w')"
      "w' = w1\<lparr>w_descs := w_descs w', w_ctxs := w_ctxs w'\<rparr>"
      "\<forall>j. Suc i \<le> j \<longrightarrow> j < Suc i + n \<longrightarrow> w_descs w' (arr_vals list ! j) = map_option (with_ctx (post j)) (w_descs w1 (arr_vals list ! j))"
      "\<forall>d. d \<notin> set ?ds \<longrightarrow> w_descs w' d = w_descs w1 d" "\<forall>x. w_ctxs w1 x \<noteq> None \<longrightarrow> w_ctxs w' x \<noteq> None"
      "\<forall>j x. Suc i \<le> j \<longrightarrow> j < Suc i + n \<longrightarrow> po_ctx (post j) = Some x \<longrightarrow> w_ctxs w' x \<noteq> None" by auto
  have other: "arr_vals list ! j \<noteq> ?d" if "Suc i \<le> j" "j < Suc i + n" for j
  proof -
    have "arr_vals list ! j \<in> set ?ds" using that Suc.prems(1) by (auto simp: in_set_conv_nth intro!: exI [of _ "j - Suc i"])
    with fresh(1) show ?thesis by auto
  qed
  have at: "array_at list i = Some (Some ?d)" by (rule kra.at_nth [OF list i])
  have evs: "map (\<lambda>j. posted (post j) iocp (arr_vals list ! j) w1) [Suc i..<Suc i + n] =
      map (\<lambda>j. posted (post j) iocp (arr_vals list ! j) w) [Suc i..<Suc i + n]"
    using other by (auto simp: posted_def p(3))
  have "each_descriptor (\<lambda>i d. s_post_initial_recv (post i) iocp d) list i (Suc n) w =
      Some (concat (map (\<lambda>j. posted (post j) iocp (arr_vals list ! j) w) [i..<i + Suc n]), w')"
    using at p(1) r(1) unfolding evs by (simp add: upt_conv_Cons del: upt_Suc)
  moreover have "w' = w\<lparr>w_descs := w_descs w', w_ctxs := w_ctxs w'\<rparr>"
    by (subst r(2), subst p(2)) simp
  moreover have "w_descs w' (arr_vals list ! j) = map_option (with_ctx (post j)) (w_descs w (arr_vals list ! j))"
    if j: "i \<le> j" "j < i + Suc n" for j
  proof (cases "j = i")
    case True
    with r(4) fresh(1) show ?thesis by (simp add: p(3) d)
  next
    case False
    with j r(3) other [of j] show ?thesis by (simp add: p(3))
  qed
  moreover have "w_descs w' d = w_descs w d" if "d \<notin> set (?d # ?ds)" for d using that r(4) by (simp add: p(3))
  moreover have "w_ctxs w' x \<noteq> None" if "w_ctxs w x \<noteq> None" for x using that r(5) p(4) by blast
  moreover have "w_ctxs w' x \<noteq> None" if "i \<le> j" "j < i + Suc n" "po_ctx (post j) = Some x" for j x
  proof (cases "j = i")
    case True
    with that(3) r(5) p(5) show ?thesis by blast
  next
    case False
    with that r(6) show ?thesis by (metis Suc_leI add_Suc add_Suc_right le_neq_implies_less)
  qed
  ultimately show ?case unfolding ds by blast
qed

section \<open>The failure path\<close>

text \<open>The handles a sequence of calls creates and closes.\<close>

fun opens :: "event \<Rightarrow> handle list" where
  "opens (Ev_io (Create_port h)) = [h]"
| "opens (Ev_io (Create_thread h)) = [h]"
| "opens _ = []"

fun closes :: "event \<Rightarrow> handle list" where
  "closes (Ev_io (Close_handle h)) = [h]"
| "closes _ = []"

abbreviation (input) opened :: "event list \<Rightarrow> handle list" where "opened evs \<equiv> concat (map opens evs)"

abbreviation (input) closed :: "event list \<Rightarrow> handle list" where "closed evs \<equiv> concat (map closes evs)"

lemma closes_map [simp]:
  "concat (map (closes \<circ> (\<lambda>h. Ev_io (Close_handle h))) hs) = hs" "concat (map (opens \<circ> (\<lambda>h. Ev_io (Close_handle h))) hs) = []"
  "concat (map (closes \<circ> (\<lambda>h. Ev_io (Create_thread h))) hs) = []" "concat (map (opens \<circ> (\<lambda>h. Ev_io (Create_thread h))) hs) = hs"
  by (induction hs) auto

lemma posted_handles: "e \<in> set (posted po iocp d w) \<Longrightarrow> opens e = [] \<and> closes e = []"
  by (auto simp: posted_def Let_def split: option.splits if_splits)

text \<open>Threads that receive nothing before they end: they write at most into the receive contexts.\<close>

definition threads_quiet :: "(nat \<Rightarrow> world \<Rightarrow> world) \<Rightarrow> bool" where
  "threads_quiet others \<longleftrightarrow> (\<forall>k w. \<exists>cs. others k w = w\<lparr>w_ctxs := cs\<rparr>)"

lemma threads_quietE:
  assumes "threads_quiet others"
  obtains cs where "others k w = w\<lparr>w_ctxs := cs\<rparr>"
  using assms by (auto simp: threads_quiet_def)

text \<open>The handles of threads in an array, of which the first ones were created.\<close>

definition holds_threads :: "handle option list option \<Rightarrow> handle list \<Rightarrow> bool" where
  "holds_threads threads hs \<longleftrightarrow> (case threads of None \<Rightarrow> hs = [] | Some ts \<Rightarrow> take (length hs) ts = map Some hs)"

lemma fail_handlers_spec:
  assumes spm: "w_spm w = Some spm" and "threads_quiet (st_others so)" and "holds_threads (spm_handler_threads spm) hs"
    and "sp_handler_started sp = length hs"
  shows "\<exists>evs q n cs. fail_handlers so sp w = Some (evs, w\<lparr>w_spm := Some (spm\<lparr>spm_handler_threads := None,
      spm_handler_thread_count := n, spm_message_queue := q\<rparr>), w_ctxs := cs\<rparr>) \<and>
    (q = spm_message_queue spm \<or> q = krs_message_queue_stop (spm_message_queue spm)) \<and> opened evs = [] \<and> closed evs = hs"
proof (cases "hs = []")
  case True
  show ?thesis
    by (intro exI [of _ "[]"] exI [of _ "spm_message_queue spm"]
        exI [of _ "if spm_handler_threads spm = None then spm_handler_thread_count spm else 0"] exI [of _ "w_ctxs w"])
      (use True assms(4) spm in \<open>auto simp: fail_handlers_def set_spm_def\<close>)
next
  case False
  let ?w = "set_spm (spm\<lparr>spm_message_queue := krs_message_queue_stop (spm_message_queue spm)\<rparr>) w"
  obtain ts where ts: "spm_handler_threads spm = Some ts" "take (length hs) ts = map Some hs"
    using assms(3) False by (auto simp: holds_threads_def split: option.splits)
  obtain cs where cs: "st_others so 1 ?w = ?w\<lparr>w_ctxs := cs\<rparr>" by (rule threads_quietE [OF assms(2)])
  show ?thesis
    by (intro exI [of _ "Ev_io (Wait_threads hs 2000) # map (\<lambda>h. Ev_io (Close_handle h)) hs"]
        exI [of _ "krs_message_queue_stop (spm_message_queue spm)"] exI [of _ 0] exI [of _ cs])
      (use False spm ts cs assms(4) join_prefix [OF ts(2), of 2000] in \<open>simp add: fail_handlers_def set_spm_def Let_def\<close>)
qed

lemma fail_iocp_spec:
  assumes spm: "w_spm w = Some spm" and "threads_quiet (st_others so)" and "holds_threads (spm_iocp_threads spm) hs"
    and "sp_iocp_started sp = length hs"
  shows "\<exists>evs n cs. fail_iocp so sp w = Some (evs, w\<lparr>w_spm := Some (spm\<lparr>spm_iocp_threads := None,
      spm_iocp_thread_count := n\<rparr>), w_ctxs := cs\<rparr>) \<and> opened evs = [] \<and> closed evs = hs"
proof (cases "hs = []")
  case True
  show ?thesis
    by (intro exI [of _ "[]"] exI [of _ "if spm_iocp_threads spm = None then spm_iocp_thread_count spm else 0"] exI [of _ "w_ctxs w"])
      (use True assms(4) spm in \<open>auto simp: fail_iocp_def set_spm_def\<close>)
next
  case False
  obtain ts where ts: "spm_iocp_threads spm = Some ts" "take (length hs) ts = map Some hs"
    using assms(3) False by (auto simp: holds_threads_def split: option.splits)
  obtain cs where cs: "st_others so 2 w = w\<lparr>w_ctxs := cs\<rparr>" by (rule threads_quietE [OF assms(2)])
  show ?thesis
    by (intro exI [of _ "replicate (length hs) (Ev_io (Post_shutdown (spm_iocp_handle spm))) @
          Ev_io (Wait_threads hs 2000) # map (\<lambda>h. Ev_io (Close_handle h)) hs"] exI [of _ 0] exI [of _ cs])
      (use False spm ts cs assms(4) join_prefix [OF ts(2), of 2000] in \<open>simp add: fail_iocp_def set_spm_def Let_def\<close>)
qed

text \<open>Destroying a queue that holds nothing does not touch its pool, which the failure path destroys before it.\<close>

lemma destroy_empty:
  "mq_count q = 0 \<Longrightarrow> krs_message_queue_destroy (Some q) ps = Some (None, ps, [])"
  by (simp add: krs_message_queue_destroy_def release_loop.simps [of q])

text \<open>What a start has acquired when it fails.\<close>

record acquired =
  aq_port :: "handle option"
  aq_iocp :: "handle list"
  aq_handlers :: "handle list"

definition holds :: "start_progress \<Rightarrow> acquired \<Rightarrow> pool_id \<Rightarrow> server_port_manager \<Rightarrow> world \<Rightarrow> bool" where
  "holds sp aq a spm w \<longleftrightarrow> w_spm w = Some spm \<and>
     sp_iocp_started sp = length (aq_iocp aq) \<and> holds_threads (spm_iocp_threads spm) (aq_iocp aq) \<and>
     sp_handler_started sp = length (aq_handlers aq) \<and> holds_threads (spm_handler_threads spm) (aq_handlers aq) \<and>
     spm_iocp_handle spm = aq_port aq \<and> (sp_iocp_created sp \<longleftrightarrow> aq_port aq \<noteq> None) \<and>
     (if sp_queue_created sp then \<exists>q. spm_message_queue spm = Some q \<and> mq_count q = 0 else spm_message_queue spm = None) \<and>
     (if sp_pool_created sp then spm_message_pool spm = Some a \<and> w_pools w a \<noteq> None
      else spm_message_pool spm = None) \<and> (sp_map_created sp \<or> spm_connection_map spm = None) \<and>
     (sp_running_set sp \<or> \<not> spm_running spm) \<and> spm_retransmit_thread spm = None"

text \<open>The stages of the failure path, one after the other.\<close>

lemma start_fail_run:
  assumes "(if sp_iocp_started sp > 0 then st_others so 0 w else w) = w1" and "w_spm w1 = Some spm1"
    and "(if sp_running_set sp then set_spm (spm1\<lparr>spm_running := False\<rparr>) w1 else w1) = w2"
    and "fail_handlers so sp w2 = Some (evs1, w3)" and "fail_iocp so sp w3 = Some (evs2, w4)" and "w_spm w4 = Some spm4"
    and "(if sp_map_created sp
          then set_spm (spm4\<lparr>spm_connection_map := krs_connection_map_destroy (spm_connection_map spm4)\<rparr>) w4 else w4) = w5"
    and "(if sp_pool_created sp then destroy_pool w5 else Some w5) = Some w6"
    and "(if sp_queue_created sp then destroy_queue w6 else Some w6) = Some w7" and "w_spm w7 = Some spm7"
    and "(if sp_iocp_created sp then set_spm (spm7\<lparr>spm_iocp_handle := None\<rparr>) w7 else w7) = w8"
  shows "start_fail so sp result evs w = Some (result, evs @ evs1 @ evs2 @ (if sp_iocp_created sp then close_iocp spm7 else []),
    w8\<lparr>w_wsa := krs_wsa_cleanup (w_wsa w8)\<rparr>)"
  using assms by (simp add: start_fail_def Let_def split del: if_split cong: if_cong)

lemma start_fail_spec:
  assumes h: "holds sp aq a spm w" and quiet: "threads_quiet (st_others so)"
  shows "\<exists>evs' w' spm'. start_fail so sp result evs w = Some (result, evs @ evs', w') \<and> opened evs' = [] \<and>
    closed evs' = aq_handlers aq @ aq_iocp aq @ (case aq_port aq of None \<Rightarrow> [] | Some h \<Rightarrow> [h]) \<and>
    w_spm w' = Some spm' \<and> manager_idle spm' \<and> spm_descriptor_list spm' = spm_descriptor_list spm \<and>
    w_pools w' = (if sp_pool_created sp then (w_pools w)(a := None) else w_pools w) \<and>
    w_wsa w' = krs_wsa_cleanup (w_wsa w) \<and> w_descs w' = w_descs w \<and> w_conns w' = w_conns w"
proof -
  have spm: "w_spm w = Some spm" using h by (simp add: holds_def)
  define w1 where "w1 = (if sp_iocp_started sp > 0 then st_others so 0 w else w)"
  obtain cs where cs: "st_others so 0 w = w\<lparr>w_ctxs := cs\<rparr>" by (rule threads_quietE [OF quiet])
  define cs1 where "cs1 = (if sp_iocp_started sp > 0 then cs else w_ctxs w)"
  have w1: "w1 = w\<lparr>w_ctxs := cs1\<rparr>" by (simp add: w1_def cs1_def cs)
  define spm2 where "spm2 = spm\<lparr>spm_running := False\<rparr>"
  have spm2: "(if sp_running_set sp then set_spm spm2 w1 else w1) = w\<lparr>w_spm := Some spm2, w_ctxs := cs1\<rparr>"
    using h w1 by (cases w; cases spm) (auto simp: holds_def spm2_def set_spm_def)
  let ?w2 = "w\<lparr>w_spm := Some spm2, w_ctxs := cs1\<rparr>"
  have "holds_threads (spm_handler_threads spm2) (aq_handlers aq)" "sp_handler_started sp = length (aq_handlers aq)"
    using h by (simp_all add: holds_def spm2_def)
  from fail_handlers_spec [OF _ quiet this, of ?w2] obtain evs1 q n cs2 where
    f1: "fail_handlers so sp ?w2 = Some (evs1, ?w2\<lparr>w_spm := Some (spm2\<lparr>spm_handler_threads := None, spm_handler_thread_count := n,
        spm_message_queue := q\<rparr>), w_ctxs := cs2\<rparr>)"
      "q = spm_message_queue spm2 \<or> q = krs_message_queue_stop (spm_message_queue spm2)" "opened evs1 = []" "closed evs1 = aq_handlers aq"
    by auto
  define spm3 where "spm3 = spm2\<lparr>spm_handler_threads := None, spm_handler_thread_count := n, spm_message_queue := q\<rparr>"
  let ?w3 = "w\<lparr>w_spm := Some spm3, w_ctxs := cs2\<rparr>"
  have "holds_threads (spm_iocp_threads spm3) (aq_iocp aq)" "sp_iocp_started sp = length (aq_iocp aq)"
    using h by (simp_all add: holds_def spm3_def spm2_def)
  from fail_iocp_spec [OF _ quiet this, of ?w3] obtain evs2 k cs3 where
    f2: "fail_iocp so sp ?w3 = Some (evs2, ?w3\<lparr>w_spm := Some (spm3\<lparr>spm_iocp_threads := None, spm_iocp_thread_count := k\<rparr>), w_ctxs := cs3\<rparr>)"
      "opened evs2 = []" "closed evs2 = aq_iocp aq"
    by auto
  define spm4 where "spm4 = spm3\<lparr>spm_iocp_threads := None, spm_iocp_thread_count := k, spm_connection_map := None\<rparr>"
  let ?w4 = "w\<lparr>w_spm := Some spm4, w_ctxs := cs3\<rparr>"
  let ?spm4 = "spm3\<lparr>spm_iocp_threads := None, spm_iocp_thread_count := k\<rparr>"
  have map: "(if sp_map_created sp then set_spm (?spm4\<lparr>spm_connection_map := krs_connection_map_destroy (spm_connection_map ?spm4)\<rparr>)
        (?w3\<lparr>w_spm := Some ?spm4, w_ctxs := cs3\<rparr>) else ?w3\<lparr>w_spm := Some ?spm4, w_ctxs := cs3\<rparr>) = ?w4"
    using h by (cases w; cases spm) (auto simp: holds_def spm4_def spm3_def spm2_def set_spm_def krs_connection_map_destroy_def)
  obtain msgs where pool: "(if sp_pool_created sp then destroy_pool ?w4 else Some ?w4) =
      Some (w\<lparr>w_spm := Some (spm4\<lparr>spm_message_pool := None\<rparr>), w_ctxs := cs3,
         w_pools := (if sp_pool_created sp then (w_pools w)(a := None) else w_pools w), w_msgs := msgs\<rparr>)"
  proof (cases "sp_pool_created sp")
    case True
    then obtain p where "spm_message_pool spm4 = Some a" "w_pools w a = Some p"
      using h by (auto simp: holds_def spm4_def spm3_def spm2_def)
    then have "destroy_pool ?w4 = Some (w\<lparr>w_spm := Some (spm4\<lparr>spm_message_pool := None\<rparr>), w_ctxs := cs3,
        w_pools := (w_pools w)(a := None), w_msgs := (\<lambda>m. if in_storage p m then None else w_msgs w m)\<rparr>)"
      by (cases w) (simp add: destroy_pool_def set_spm_def krs_message_pool_destroy_def cong: if_cong)
    with True show thesis by (intro that) simp
  next
    case False
    then have "spm4\<lparr>spm_message_pool := None\<rparr> = spm4" using h by (cases spm) (simp add: holds_def spm4_def spm3_def spm2_def)
    with False that [of "w_msgs w"] show thesis by (cases w) simp
  qed
  let ?ps = "if sp_pool_created sp then (w_pools w)(a := None) else w_pools w"
  let ?w5 = "w\<lparr>w_spm := Some (spm4\<lparr>spm_message_pool := None\<rparr>), w_ctxs := cs3, w_pools := ?ps, w_msgs := msgs\<rparr>"
  let ?spm6 = "spm4\<lparr>spm_message_pool := None, spm_message_queue := None\<rparr>"
  have queue: "(if sp_queue_created sp then destroy_queue ?w5 else Some ?w5) =
      Some (w\<lparr>w_spm := Some ?spm6, w_ctxs := cs3, w_pools := ?ps, w_msgs := msgs\<rparr>)"
  proof (cases "sp_queue_created sp")
    case True
    then obtain q0 where "spm_message_queue spm4 = Some q0" "mq_count q0 = 0"
      using h f1(2) by (auto simp: holds_def spm4_def spm3_def spm2_def krs_message_queue_stop_def)
    with True show ?thesis by (simp add: destroy_queue_def destroy_empty set_spm_def forget_messages_def)
  next
    case False
    then have "spm_message_queue spm4 = None"
      using h f1(2) by (auto simp: holds_def spm4_def spm3_def spm2_def krs_message_queue_stop_def)
    then have "?spm6 = spm4\<lparr>spm_message_pool := None\<rparr>" by (cases spm4) simp
    with False show ?thesis by simp
  qed
  define evs3 where "evs3 = (if sp_iocp_created sp then close_iocp ?spm6 else [])"
  let ?spm7 = "?spm6\<lparr>spm_iocp_handle := None\<rparr>"
  have port: "spm_iocp_handle ?spm6 = aq_port aq" "sp_iocp_created sp = (aq_port aq \<noteq> None)"
    using h by (simp_all add: holds_def spm4_def spm3_def spm2_def)
  let ?w7 = "w\<lparr>w_spm := Some ?spm6, w_ctxs := cs3, w_pools := ?ps, w_msgs := msgs\<rparr>"
  have w8: "(if sp_iocp_created sp then set_spm (?spm6\<lparr>spm_iocp_handle := None\<rparr>) ?w7 else ?w7) = ?w7\<lparr>w_spm := Some ?spm7\<rparr>"
    using port by (cases spm4) (auto simp: set_spm_def)
  have s1: "w_spm w1 = Some spm" by (simp add: w1 spm)
  have f1': "fail_handlers so sp ?w2 = Some (evs1, ?w3)" using f1(1) by (simp add: spm3_def)
  have run: "start_fail so sp result evs w = Some (result, evs @ evs1 @ evs2 @ evs3,
      w\<lparr>w_spm := Some ?spm7, w_ctxs := cs3, w_pools := ?ps, w_msgs := msgs, w_wsa := krs_wsa_cleanup (w_wsa w)\<rparr>)"
    using start_fail_run [OF w1_def [symmetric] s1 spm2 [unfolded spm2_def] f1' [unfolded spm2_def] f2(1) _ map pool queue _ w8, of result evs]
    by (simp add: evs3_def)
  have idle: "manager_idle ?spm7" using h by (simp add: manager_idle_def holds_def spm4_def spm3_def spm2_def)
  have evs3: "opened evs3 = []" "closed evs3 = (case aq_port aq of None \<Rightarrow> [] | Some h \<Rightarrow> [h])"
    using port by (auto simp: evs3_def close_iocp_def split: option.split)
  show ?thesis
    by (intro exI [of _ "evs1 @ evs2 @ evs3"] exI [of _ "w\<lparr>w_spm := Some ?spm7, w_ctxs := cs3, w_pools := ?ps, w_msgs := msgs,
          w_wsa := krs_wsa_cleanup (w_wsa w)\<rparr>"] exI [of _ ?spm7])
      (use run idle evs3 f1(3,4) f2(2,3) in \<open>simp add: spm4_def spm3_def spm2_def\<close>)
qed

section \<open>When a start succeeds\<close>

text \<open>What a failed start leaves: every handle it opened is closed and only the receive contexts differ.\<close>

definition same_port :: "udp_socket_descriptor option \<Rightarrow> udp_socket_descriptor option \<Rightarrow> bool" where
  "same_port d d' \<longleftrightarrow> map_option (\<lambda>desc. desc\<lparr>ds_recv_ctx := None\<rparr>) d' = map_option (\<lambda>desc. desc\<lparr>ds_recv_ctx := None\<rparr>) d"

definition undone :: "world \<Rightarrow> world \<Rightarrow> event list \<Rightarrow> bool" where
  "undone w w' evs \<longleftrightarrow> mset (opened evs) = mset (closed evs) \<and>
     (\<exists>spm spm'. w_spm w = Some spm \<and> w_spm w' = Some spm' \<and> manager_idle spm' \<and> spm_descriptor_list spm' = spm_descriptor_list spm) \<and>
     w_pools w' = w_pools w \<and> w_conns w' = w_conns w \<and> w_wsa w' = krs_wsa_cleanup (krs_wsa_init (w_wsa w)) \<and>
     (\<forall>d. same_port (w_descs w d) (w_descs w' d))"

lemma fail_undone:
  assumes "holds sp aq a spm v" and "threads_quiet (st_others so)" and "w_spm w = Some spm0"
    and "spm_descriptor_list spm = spm_descriptor_list spm0" and "w_wsa v = krs_wsa_init (w_wsa w)" and "w_conns v = w_conns w"
    and "\<forall>d. same_port (w_descs w d) (w_descs v d)" and "w_pools w a = None"
    and "w_pools v = (if sp_pool_created sp then (w_pools w)(a := p) else w_pools w)"
    and "opened evs = (case aq_port aq of None \<Rightarrow> [] | Some h \<Rightarrow> [h]) @ aq_iocp aq @ aq_handlers aq" and "closed evs = []"
  shows "\<exists>evs' w'. start_fail so sp r evs v = Some (r, evs', w') \<and> undone w w' evs'"
proof -
  from start_fail_spec [OF assms(1,2), of r evs] obtain evs' w' spm' where
    f: "start_fail so sp r evs v = Some (r, evs @ evs', w')" "opened evs' = []"
      "closed evs' = aq_handlers aq @ aq_iocp aq @ (case aq_port aq of None \<Rightarrow> [] | Some h \<Rightarrow> [h])"
      "w_spm w' = Some spm'" "manager_idle spm'" "spm_descriptor_list spm' = spm_descriptor_list spm"
      "w_pools w' = (if sp_pool_created sp then (w_pools v)(a := None) else w_pools v)"
      "w_wsa w' = krs_wsa_cleanup (w_wsa v)" "w_descs w' = w_descs v" "w_conns w' = w_conns v" by blast
  have "mset (opened (evs @ evs')) = mset (closed (evs @ evs'))"
    unfolding map_append concat_append f(2,3) assms(10,11) by simp
  moreover have "w_pools w' = w_pools w" using f(7) assms(8,9) by auto
  ultimately have "undone w w' (evs @ evs')"
    using f(4-6,8-10) assms(3-7) by (simp add: undone_def)
  with f(1) show ?thesis by blast
qed

definition threads_ok :: "start_outcome \<Rightarrow> server_port_manager \<Rightarrow> bool" where
  "threads_ok so spm \<longleftrightarrow> st_iocp_array so \<and> (\<forall>i < unat (spm_config_iocp_threads spm). st_iocp_thread so i \<noteq> None) \<and>
     st_handler_array so \<and> (\<forall>i < unat (spm_config_handler_threads spm). st_handler_thread so i \<noteq> None) \<and> st_retransmit so \<noteq> None"

definition start_ok :: "start_outcome \<Rightarrow> server_port_manager \<Rightarrow> bool" where
  "start_ok so spm \<longleftrightarrow> st_iocp so \<noteq> None \<and> st_queue so \<and> st_items so \<and> st_pool so \<and> st_storage so \<noteq> None \<and> st_stack so \<and>
     st_map so \<and> st_ids so \<and> st_addrs so \<and> threads_ok so spm"

lemma first_threads_all:
  "length (first_threads outcome i n) = n \<longleftrightarrow> (\<forall>j < n. outcome (i + j) \<noteq> None)"
proof (induction n arbitrary: i)
  case (Suc n)
  have "(\<forall>j < Suc n. outcome (i + j) \<noteq> None) \<longleftrightarrow> outcome i \<noteq> None \<and> (\<forall>j < n. outcome (Suc i + j) \<noteq> None)"
    by (simp add: All_less_Suc2)
  with Suc.IH [of "Suc i"] show ?case by (auto split: option.split)
qed simp

text \<open>The server once its completion port, queue, pool and map exist.\<close>

definition front :: "handle \<Rightarrow> message_queue \<Rightarrow> pool_id \<Rightarrow> message_pool \<Rightarrow> connection_map \<Rightarrow> server_port_manager \<Rightarrow> world \<Rightarrow> world" where
  "front h q a p m spm w = w\<lparr>w_wsa := krs_wsa_init (w_wsa w), w_pools := (w_pools w)(a \<mapsto> p),
     w_spm := Some (spm\<lparr>spm_iocp_handle := Some h, spm_message_pool := Some a, spm_message_queue := Some q, spm_connection_map := Some m\<rparr>)\<rparr>"

abbreviation (input) iocp_handles :: "start_outcome \<Rightarrow> server_port_manager \<Rightarrow> handle list" where
  "iocp_handles so spm \<equiv> first_threads (st_iocp_thread so) 0 (unat (spm_config_iocp_threads spm))"

abbreviation (input) handler_handles :: "start_outcome \<Rightarrow> server_port_manager \<Rightarrow> handle list" where
  "handler_handles so spm \<equiv> first_threads (st_handler_thread so) 0 (unat (spm_config_handler_threads spm))"

text \<open>What is true of the server when all its threads run.\<close>

definition launched :: "start_outcome \<Rightarrow> handle \<Rightarrow> desc_ref list \<Rightarrow> server_port_manager \<Rightarrow> world \<Rightarrow> event list \<Rightarrow> world \<Rightarrow> bool" where
  "launched so h ds spm v evs w' \<longleftrightarrow> (\<exists>spm0 rh. w_spm v = Some spm0 \<and> st_retransmit so = Some rh \<and>
     evs = Ev_io (Create_port h) # concat (map (\<lambda>j. posted (st_post so j) h (ds ! j) v) [0..<length ds]) @
       map (\<lambda>h. Ev_io (Create_thread h)) (iocp_handles so spm @ handler_handles so spm @ [rh]) \<and>
     w' = v\<lparr>w_descs := w_descs w', w_ctxs := w_ctxs w', w_spm := Some (spm0\<lparr>spm_running := True,
       spm_iocp_threads := Some (map Some (iocp_handles so spm)), spm_iocp_thread_count := spm_config_iocp_threads spm,
       spm_handler_threads := Some (map Some (handler_handles so spm)), spm_handler_thread_count := spm_config_handler_threads spm,
       spm_retransmit_thread := Some rh\<rparr>)\<rparr> \<and>
     (\<forall>j < length ds. w_descs w' (ds ! j) = map_option (with_ctx (st_post so j)) (w_descs v (ds ! j))) \<and>
     (\<forall>d. d \<notin> set ds \<longrightarrow> w_descs w' d = w_descs v d) \<and>
     (\<forall>j < length ds. \<forall>x. po_ctx (st_post so j) = Some x \<longrightarrow> w_ctxs w' x \<noteq> None))"

lemma with_ctx_same: "same_port (Some desc) (Some (with_ctx po desc))"
  by (simp add: same_port_def with_ctx_def split: option.split)

lemma post_all:
  fixes spm1 so v h
  assumes l: "arr_ok list" "distinct (arr_vals list)" "dom (w_descs v) = set (arr_vals list)" and "spm_descriptor_list spm1 = Some list"
  defines "evs \<equiv> concat (map (\<lambda>j. posted (st_post so j) h (arr_vals list ! j) v) [0..<length (arr_vals list)])"
  obtains v1 where "for_descriptors (\<lambda>i d. s_post_initial_recv (st_post so i) h d) spm1 v = Some (evs, v1)"
    and "v1 = v\<lparr>w_descs := w_descs v1, w_ctxs := w_ctxs v1\<rparr>"
    and "\<forall>j < length (arr_vals list). w_descs v1 (arr_vals list ! j) = map_option (with_ctx (st_post so j)) (w_descs v (arr_vals list ! j))"
    and "\<forall>d. d \<notin> set (arr_vals list) \<longrightarrow> w_descs v1 d = w_descs v d"
    and "\<forall>j < length (arr_vals list). \<forall>x. po_ctx (st_post so j) = Some x \<longrightarrow> w_ctxs v1 x \<noteq> None"
    and "\<forall>d. same_port (w_descs v d) (w_descs v1 d)" and "opened evs = []" and "closed evs = []"
proof -
  have len: "unat (krs_array_length (Some list)) = length (arr_vals list)"
    by (simp add: krs_array_length_def length_arr_vals [OF l(1)])
  from post_each [OF l(1), of 0 "length (arr_vals list)" v "st_post so" h] l(2,3) obtain v1 where
    ps: "each_descriptor (\<lambda>i d. s_post_initial_recv (st_post so i) h d) list 0 (length (arr_vals list)) v = Some (evs, v1)"
      "v1 = v\<lparr>w_descs := w_descs v1, w_ctxs := w_ctxs v1\<rparr>"
      "\<forall>j < length (arr_vals list). w_descs v1 (arr_vals list ! j) = map_option (with_ctx (st_post so j)) (w_descs v (arr_vals list ! j))"
      "\<forall>d. d \<notin> set (arr_vals list) \<longrightarrow> w_descs v1 d = w_descs v d"
      "\<forall>j < length (arr_vals list). \<forall>x. po_ctx (st_post so j) = Some x \<longrightarrow> w_ctxs v1 x \<noteq> None"
    by (auto simp: evs_def)
  have same: "same_port (w_descs v d) (w_descs v1 d)" for d
  proof (cases "d \<in> set (arr_vals list)")
    case True
    then obtain desc where "w_descs v d = Some desc" using l(3) by (metis domD)
    moreover obtain j where "j < length (arr_vals list)" "d = arr_vals list ! j" using True by (auto simp: in_set_conv_nth)
    ultimately show ?thesis using ps(3) with_ctx_same by simp
  qed (use ps(4) in \<open>simp add: same_port_def\<close>)
  have "opened evs = []" "closed evs = []" using posted_handles by (auto simp: evs_def concat_eq_Nil_conv)
  moreover have "for_descriptors (\<lambda>i d. s_post_initial_recv (st_post so i) h d) spm1 v = Some (evs, v1)"
    using ps(1) by (simp add: for_descriptors_def assms(4) len)
  ultimately show thesis using that ps(2-5) same by blast
qed

lemma start_threads_spec:
  assumes idle: "server_idle w" and spm: "w_spm w = Some spm" and list: "spm_descriptor_list spm = Some list"
    and quiet: "threads_ok so spm \<or> threads_quiet (st_others so)" and new: "w_pools w a = None" and q: "mq_count q = 0"
  shows "\<exists>r evs w'. start_threads so h [Ev_io (Create_port h)] (front h q a p m spm w) = Some (r, evs, w') \<and>
    rb_valid r = threads_ok so spm \<and>
    (if threads_ok so spm then launched so h (arr_vals list) spm (front h q a p m spm w) evs w' else undone w w' evs)"
proof -
  define its hts where "its = iocp_handles so spm" and "hts = handler_handles so spm"
  let ?ni = "unat (spm_config_iocp_threads spm)" and ?nh = "unat (spm_config_handler_threads spm)"
  let ?v = "front h q a p m spm w"
  define spm1 where "spm1 = spm\<lparr>spm_iocp_handle := Some h, spm_message_pool := Some a, spm_message_queue := Some q, spm_connection_map := Some m\<rparr>"
  have v: "w_spm ?v = Some spm1" "w_descs ?v = w_descs w" by (simp_all add: front_def spm1_def)
  have l: "arr_ok list" "distinct (arr_vals list)" "dom (w_descs w) = set (arr_vals list)" and mi: "manager_idle spm"
    using idle spm list by (auto simp: server_idle_def)
  let ?posted = "concat (map (\<lambda>j. posted (st_post so j) h (arr_vals list ! j) ?v) [0..<length (arr_vals list)])"
  have "dom (w_descs ?v) = set (arr_vals list)" "spm_descriptor_list spm1 = Some list" using l(3) v(2) list by (simp_all add: spm1_def)
  from post_all [OF l(1,2) this, of so h] obtain v1 where
    post: "for_descriptors (\<lambda>i d. s_post_initial_recv (st_post so i) h d) spm1 ?v = Some (?posted, v1)"
    and ps: "v1 = ?v\<lparr>w_descs := w_descs v1, w_ctxs := w_ctxs v1\<rparr>"
      "\<forall>j < length (arr_vals list). w_descs v1 (arr_vals list ! j) = map_option (with_ctx (st_post so j)) (w_descs ?v (arr_vals list ! j))"
      "\<forall>d. d \<notin> set (arr_vals list) \<longrightarrow> w_descs v1 d = w_descs ?v d"
      "\<forall>j < length (arr_vals list). \<forall>x. po_ctx (st_post so j) = Some x \<longrightarrow> w_ctxs v1 x \<noteq> None"
      "\<forall>d. same_port (w_descs ?v d) (w_descs v1 d)" and evs: "opened ?posted = []" "closed ?posted = []" .
  have v1: "w_spm v1 = Some spm1" "w_pools v1 = (w_pools w)(a \<mapsto> p)" "w_wsa v1 = krs_wsa_init (w_wsa w)" "w_conns v1 = w_conns w"
    by (subst ps(1), simp add: front_def spm1_def)+
  have same: "\<forall>d. same_port (w_descs w d) (w_descs v1 d)" using ps(5) by (simp add: v(2))
  obtain ts where ts: "create_threads (st_iocp_thread so) 0 ?ni (replicate ?ni None) = Some (length its = ?ni, length its, ts)"
      "take (length its) ts = map Some its" "length ts = ?ni" unfolding its_def by (rule create_threads_new)
  obtain us where us: "create_threads (st_handler_thread so) 0 ?nh (replicate ?nh None) = Some (length hts = ?nh, length hts, us)"
      "take (length hts) us = map Some hts" "length us = ?nh" unfolding hts_def by (rule create_threads_new)
  note rd = read_prefix [OF ts(2)] read_prefix [OF us(2)]
  have cfg: "spm_config_iocp_threads spm1 = spm_config_iocp_threads spm" "spm_config_handler_threads spm1 = spm_config_handler_threads spm"
    by (simp_all add: spm1_def)
  have ok: "threads_ok so spm \<longleftrightarrow> st_iocp_array so \<and> length its = ?ni \<and> st_handler_array so \<and> length hts = ?nh \<and> st_retransmit so \<noteq> None"
    by (simp add: threads_ok_def its_def hts_def first_threads_all)
  have fail: "\<exists>evs' w'. start_fail so \<lparr>sp_iocp_created = True, sp_queue_created = True, sp_pool_created = True, sp_map_created = True,
        sp_running_set = True, sp_iocp_started = length its', sp_handler_started = length hts'\<rparr> r evs (set_spm spm' v1) = Some (r, evs', w') \<and>
      undone w w' evs'"
    if "holds_threads (spm_iocp_threads spm') its'" "holds_threads (spm_handler_threads spm') hts'" "spm_iocp_handle spm' = Some h"
      "spm_message_queue spm' = Some q" "spm_message_pool spm' = Some a" "spm_retransmit_thread spm' = None"
      "spm_descriptor_list spm' = Some list" "opened evs = h # its' @ hts'" "closed evs = []" "threads_quiet (st_others so)" for its' hts' spm' r evs
    by (rule fail_undone [where aq = "\<lparr>aq_port = Some h, aq_iocp = its', aq_handlers = hts'\<rparr>" and a = a and p = "Some p"
          and ?spm0.0 = spm and spm = spm'])
      (use that q v1 same new spm list in \<open>simp_all add: holds_def\<close>)
  define start where "start = start_threads so h [Ev_io (Create_port h)] ?v"
  note unf = start_def start_threads_def Let_def v(1) v1(1) post ts(1) us(1) rd cfg
  let ?sp = "\<lambda>ni nh. \<lparr>sp_iocp_created = True, sp_queue_created = True, sp_pool_created = True, sp_map_created = True,
    sp_running_set = True, sp_iocp_started = ni, sp_handler_started = nh\<rparr>"
  let ?e0 = "Ev_io (Create_port h) # ?posted" and ?cr = "map (\<lambda>h. Ev_io (Create_thread h))"
  let ?s1 = "spm1\<lparr>spm_running := True, spm_iocp_threads := Some ts, spm_iocp_thread_count := spm_config_iocp_threads spm\<rparr>"
  let ?s2 = "?s1\<lparr>spm_handler_threads := Some us, spm_handler_thread_count := spm_config_handler_threads spm\<rparr>"
  have fields: "spm_iocp_handle spm1 = Some h" "spm_message_queue spm1 = Some q" "spm_message_pool spm1 = Some a"
      "spm_retransmit_thread spm1 = None" "spm_descriptor_list spm1 = Some list" "spm_iocp_threads spm1 = None" "spm_handler_threads spm1 = None"
    using mi by (simp_all add: spm1_def list manager_idle_def)
  have "\<exists>r evs w'. start = Some (r, evs, w') \<and> rb_valid r = threads_ok so spm \<and>
      (if threads_ok so spm then launched so h (arr_vals list) spm ?v evs w' else undone w w' evs)"
  proof (cases "threads_ok so spm")
    case True
    then obtain rh where all: "st_iocp_array so" "length its = ?ni" "st_handler_array so" "length hts = ?nh" "st_retransmit so = Some rh"
      by (auto simp: ok)
    have full: "ts = map Some its" "us = map Some hts" using ts(2,3) us(2,3) all(2,4) by simp_all
    let ?w = "set_spm (?s2\<lparr>spm_retransmit_thread := Some rh\<rparr>) v1"
    have run: "start = Some (krs_lib_error_result_base_suc, ?e0 @ ?cr its @ ?cr hts @ [Ev_io (Create_thread rh)], ?w)"
      by (simp add: unf all rd(1) [unfolded all(2)] rd(2) [unfolded all(4)])
    have "launched so h (arr_vals list) spm ?v (?e0 @ ?cr its @ ?cr hts @ [Ev_io (Create_thread rh)]) ?w"
      unfolding launched_def
    proof (intro exI [of _ spm1] exI [of _ rh] conjI)
      show "?w = ?v\<lparr>w_descs := w_descs ?w, w_ctxs := w_ctxs ?w, w_spm := Some (spm1\<lparr>spm_running := True,
         spm_iocp_threads := Some (map Some (iocp_handles so spm)), spm_iocp_thread_count := spm_config_iocp_threads spm,
         spm_handler_threads := Some (map Some (handler_handles so spm)), spm_handler_thread_count := spm_config_handler_threads spm,
         spm_retransmit_thread := Some rh\<rparr>)\<rparr>"
        unfolding set_spm_def by (subst ps(1)) (simp add: full its_def hts_def)
    qed (use ps(2-4) v all(5) in \<open>simp_all add: its_def hts_def\<close>)
    with run True show ?thesis by simp
  next
    case False
    then consider (ai) "\<not> st_iocp_array so" | (ti) "st_iocp_array so" "length its \<noteq> ?ni"
      | (ah) "st_iocp_array so" "length its = ?ni" "\<not> st_handler_array so"
      | (th) "st_iocp_array so" "length its = ?ni" "st_handler_array so" "length hts \<noteq> ?nh"
      | (tr) "st_iocp_array so" "length its = ?ni" "st_handler_array so" "length hts = ?nh" "st_retransmit so = None"
      using ok by blast
    then have "\<exists>r evs spm' its' hts'. start = start_fail so (?sp (length its') (length hts')) r evs (set_spm spm' v1) \<and> \<not> rb_valid r \<and>
        holds_threads (spm_iocp_threads spm') its' \<and> holds_threads (spm_handler_threads spm') hts' \<and> spm_iocp_handle spm' = Some h \<and>
        spm_message_queue spm' = Some q \<and> spm_message_pool spm' = Some a \<and> spm_retransmit_thread spm' = None \<and>
        spm_descriptor_list spm' = Some list \<and> opened evs = h # its' @ hts' \<and> closed evs = []"
    proof cases
      case ai
      then show ?thesis
        by (intro exI [of _ "krs_lib_error_result_base_w_msg KRS_ERR_MEMORY_ALLOCATION ''thread array alloc failed''"] exI [of _ ?e0]
            exI [of _ "spm1\<lparr>spm_running := True, spm_iocp_threads := None\<rparr>"] exI [of _ "[]"])
          (simp add: unf holds_threads_def fields evs)
    next
      case ti
      then show ?thesis
        by (intro exI [of _ "krs_lib_error_result_base_w_msg KRS_ERR_PLATFORM_WINDOWS_SOCKET ''CreateThread failed for IOCP thread''"]
            exI [of _ "?e0 @ ?cr its"] exI [of _ ?s1] exI [of _ its] exI [of _ "[]"])
          (simp add: unf holds_threads_def fields evs ts(2))
    next
      case ah
      then show ?thesis
        by (intro exI [of _ "krs_lib_error_result_base_w_msg KRS_ERR_MEMORY_ALLOCATION ''handler thread array alloc failed''"]
            exI [of _ "?e0 @ ?cr its"] exI [of _ "?s1\<lparr>spm_handler_threads := None\<rparr>"] exI [of _ its] exI [of _ "[]"])
          (simp add: unf rd(1) [unfolded ah(2)] ts(2) [unfolded ah(2)] holds_threads_def fields evs)
    next
      case th
      then show ?thesis
        by (intro exI [of _ "krs_lib_error_result_base_w_msg KRS_ERR_PLATFORM_WINDOWS_SOCKET ''CreateThread failed for handler thread''"]
            exI [of _ "?e0 @ ?cr its @ ?cr hts"] exI [of _ ?s2] exI [of _ its] exI [of _ hts])
          (simp add: unf rd(1) [unfolded th(2)] ts(2) [unfolded th(2)] holds_threads_def fields evs us(2))
    next
      case tr
      then show ?thesis
        by (intro exI [of _ "krs_lib_error_result_base_w_msg KRS_ERR_PLATFORM_WINDOWS_SOCKET ''CreateThread failed for retransmit thread''"]
            exI [of _ "?e0 @ ?cr its @ ?cr hts"] exI [of _ "?s2\<lparr>spm_retransmit_thread := None\<rparr>"] exI [of _ its] exI [of _ hts])
          (simp add: unf rd(1) [unfolded tr(2)] ts(2) [unfolded tr(2)] rd(2) [unfolded tr(4)] us(2) [unfolded tr(4)] holds_threads_def fields evs)
    qed
    then obtain r evs spm' its' hts' where f: "start = start_fail so (?sp (length its') (length hts')) r evs (set_spm spm' v1)" "\<not> rb_valid r"
      and g: "holds_threads (spm_iocp_threads spm') its'" "holds_threads (spm_handler_threads spm') hts'" "spm_iocp_handle spm' = Some h"
        "spm_message_queue spm' = Some q" "spm_message_pool spm' = Some a" "spm_retransmit_thread spm' = None"
        "spm_descriptor_list spm' = Some list" "opened evs = h # its' @ hts'" "closed evs = []"
      by (elim exE conjE) (rule that)
    have "threads_quiet (st_others so)" using quiet False by blast
    from fail [OF g this, of r] f False show ?thesis by auto
  qed
  then show ?thesis by (simp add: start_def)
qed

text \<open>Failures before any thread exists.\<close>

lemma front_fail:
  assumes start: "krs_server_start so w = start_fail so sp r evs v" "\<not> rb_valid r" and quiet: "threads_quiet (st_others so)"
    and spm: "w_spm w = Some spm" and new: "w_pools w (st_pool_id so) = None"
    and sp: "sp_iocp_started sp = 0" "sp_handler_started sp = 0" "sp_iocp_created sp = (st_iocp so \<noteq> None)"
    and v: "w_spm v = Some spm'" "w_wsa v = krs_wsa_init (w_wsa w)" "w_conns v = w_conns w" "w_descs v = w_descs w"
      "w_pools v = (if sp_pool_created sp then (w_pools w)(st_pool_id so \<mapsto> p) else w_pools w)"
    and spm': "manager_idle (spm'\<lparr>spm_iocp_handle := None, spm_message_queue := None, spm_message_pool := None\<rparr>)"
      "spm_descriptor_list spm' = spm_descriptor_list spm" "spm_iocp_handle spm' = st_iocp so"
    and q: "if sp_queue_created sp then \<exists>q. spm_message_queue spm' = Some q \<and> mq_count q = 0 else spm_message_queue spm' = None"
    and po: "spm_message_pool spm' = (if sp_pool_created sp then Some (st_pool_id so) else None)"
    and evs: "evs = (case st_iocp so of None \<Rightarrow> [] | Some h \<Rightarrow> [Ev_io (Create_port h)])"
  shows "\<exists>r evs w'. krs_server_start so w = Some (r, evs, w') \<and> \<not> rb_valid r \<and> undone w w' evs"
proof -
  have h: "holds sp \<lparr>aq_port = st_iocp so, aq_iocp = [], aq_handlers = []\<rparr> (st_pool_id so) spm' v"
    using sp q po spm' v by (auto simp: holds_def manager_idle_def holds_threads_def)
  have "\<exists>evs' w'. start_fail so sp r evs v = Some (r, evs', w') \<and> undone w w' evs'"
    by (rule fail_undone [OF h quiet spm spm'(2) v(2,3), where p = "Some p"])
      (use new v in \<open>auto simp: evs same_port_def split: option.split\<close>)
  with start show ?thesis by auto
qed

text \<open>When the objects of the server can be created.\<close>

lemma create_none_iff:
  "krs_message_queue_create 256 x y = None \<longleftrightarrow> \<not> (x \<and> y)"
  "krs_message_pool_create 1024 x z y = None \<longleftrightarrow> \<not> (x \<and> z \<noteq> None \<and> y)"
  "krs_connection_map_create 64 x y u = None \<longleftrightarrow> \<not> (x \<and> y \<and> u)"
  by (auto simp: krs_message_queue_create_def krs_message_pool_create_def krs_connection_map_create_def Let_def split: option.split)

lemma new_queue_empty: "krs_message_queue_create 256 x y = Some q \<Longrightarrow> mq_count q = 0"
  by (auto simp: krs_message_queue_create_def Let_def split: if_splits)

text \<open>The whole function on an idle server.\<close>

lemma start_cases:
  assumes idle: "server_idle w" and spm: "w_spm w = Some spm" and list: "spm_descriptor_list spm = Some list"
    and quiet: "start_ok so spm \<or> threads_quiet (st_others so)" and new: "w_pools w (st_pool_id so) = None"
  shows "\<exists>r evs w'. krs_server_start so w = Some (r, evs, w') \<and> rb_valid r = start_ok so spm \<and>
    (if start_ok so spm then \<exists>h q p m st. st_iocp so = Some h \<and> st_storage so = Some st \<and> krs_message_queue_create 256 True True = Some q \<and>
         krs_message_pool_create 1024 True (Some st) True = Some p \<and> krs_connection_map_create 64 True True True = Some m \<and>
         launched so h (arr_vals list) spm (front h (q\<lparr>mq_pool := Some (st_pool_id so)\<rparr>) (st_pool_id so) p m spm w) evs w'
     else undone w w' evs)"
proof -
  let ?a = "st_pool_id so" and ?w0 = "w\<lparr>w_wsa := krs_wsa_init (w_wsa w)\<rparr>"
  have mi: "manager_idle spm" using idle spm by (auto simp: server_idle_def)
  note mf = mi [unfolded manager_idle_def]
  have quiet: "threads_quiet (st_others so)" if "\<not> start_ok so spm" using that quiet by blast
  note unf = krs_server_start_def spm mf Let_def manager_idle_def no_progress_def
  consider (port) "st_iocp so = None" | (queue) h where "st_iocp so = Some h" "krs_message_queue_create 256 (st_queue so) (st_items so) = None"
    | (pool) h q where "st_iocp so = Some h" "krs_message_queue_create 256 (st_queue so) (st_items so) = Some q"
        "krs_message_pool_create 1024 (st_pool so) (st_storage so) (st_stack so) = None"
    | (map) h q p where "st_iocp so = Some h" "krs_message_queue_create 256 (st_queue so) (st_items so) = Some q"
        "krs_message_pool_create 1024 (st_pool so) (st_storage so) (st_stack so) = Some p"
        "krs_connection_map_create 64 (st_map so) (st_ids so) (st_addrs so) = None"
    | (all) h q p m where "st_iocp so = Some h" "krs_message_queue_create 256 (st_queue so) (st_items so) = Some q"
        "krs_message_pool_create 1024 (st_pool so) (st_storage so) (st_stack so) = Some p"
        "krs_connection_map_create 64 (st_map so) (st_ids so) (st_addrs so) = Some m"
    by (metis not_None_eq)
  then show ?thesis
  proof cases
    case port
    then have no: "\<not> start_ok so spm" by (simp add: start_ok_def)
    have "\<exists>r evs w'. krs_server_start so w = Some (r, evs, w') \<and> \<not> rb_valid r \<and> undone w w' evs"
      by (rule front_fail [OF _ _ quiet [OF no] spm new, where sp = no_progress and r = "krs_lib_error_result_base_w_msg KRS_ERR_PLATFORM_WINDOWS_SOCKET ''CreateIoCompletionPort failed''"
            and spm' = "spm\<lparr>spm_iocp_handle := None\<rparr>"
            and v = "set_spm (spm\<lparr>spm_iocp_handle := None\<rparr>) ?w0"]) (use port in \<open>simp_all add: unf\<close>)
    with no show ?thesis by simp
  next
    case (queue h)
    then have no: "\<not> start_ok so spm" by (auto simp: start_ok_def create_none_iff)
    have "\<exists>r evs w'. krs_server_start so w = Some (r, evs, w') \<and> \<not> rb_valid r \<and> undone w w' evs"
      by (rule front_fail [OF _ _ quiet [OF no] spm new, where sp = "no_progress\<lparr>sp_iocp_created := True\<rparr>"
            and r = "krs_lib_error_result_base_w_msg KRS_ERR_MEMORY_ALLOCATION ''message queue alloc failed''"
            and spm' = "spm\<lparr>spm_iocp_handle := Some h, spm_message_queue := None\<rparr>"
            and v = "set_spm (spm\<lparr>spm_iocp_handle := Some h, spm_message_queue := None\<rparr>) ?w0"]) (use queue in \<open>simp_all add: unf\<close>)
    with no show ?thesis by simp
  next
    case (pool h q)
    then have no: "\<not> start_ok so spm" by (auto simp: start_ok_def create_none_iff)
    have "\<exists>r evs w'. krs_server_start so w = Some (r, evs, w') \<and> \<not> rb_valid r \<and> undone w w' evs"
      by (rule front_fail [OF _ _ quiet [OF no] spm new, where sp = "no_progress\<lparr>sp_iocp_created := True, sp_queue_created := True\<rparr>"
            and r = "krs_lib_error_result_base_w_msg KRS_ERR_MEMORY_ALLOCATION ''message pool alloc failed''"
            and spm' = "spm\<lparr>spm_iocp_handle := Some h, spm_message_queue := Some q, spm_message_pool := None\<rparr>"
            and v = "set_spm (spm\<lparr>spm_iocp_handle := Some h, spm_message_queue := Some q, spm_message_pool := None\<rparr>) ?w0"])
        (use pool new_queue_empty in \<open>simp_all add: unf\<close>)
    with no show ?thesis by simp
  next
    case (map h q p)
    then have no: "\<not> start_ok so spm" by (auto simp: start_ok_def create_none_iff)
    have "\<exists>r evs w'. krs_server_start so w = Some (r, evs, w') \<and> \<not> rb_valid r \<and> undone w w' evs"
      by (rule front_fail [OF _ _ quiet [OF no] spm new, where sp = "no_progress\<lparr>sp_iocp_created := True, sp_queue_created := True, sp_pool_created := True\<rparr>"
            and r = "krs_lib_error_result_base_w_msg KRS_ERR_MEMORY_ALLOCATION ''connection map alloc failed''" and p = p
            and spm' = "spm\<lparr>spm_iocp_handle := Some h, spm_message_pool := Some ?a, spm_message_queue := Some (q\<lparr>mq_pool := Some ?a\<rparr>),
              spm_connection_map := None\<rparr>"
            and v = "set_spm (spm\<lparr>spm_iocp_handle := Some h, spm_message_pool := Some ?a, spm_message_queue := Some (q\<lparr>mq_pool := Some ?a\<rparr>),
              spm_connection_map := None\<rparr>) (?w0\<lparr>w_pools := (w_pools w)(?a \<mapsto> p)\<rparr>)"])
        (use map new_queue_empty in \<open>simp_all add: unf krs_message_queue_set_pool_def\<close>)
    with no show ?thesis by simp
  next
    case (all h q p m)
    have good: "st_queue so" "st_items so" "st_pool so" "st_stack so" "st_map so" "st_ids so" "st_addrs so"
      using all create_none_iff(1) [of "st_queue so" "st_items so"] create_none_iff(2) [of "st_pool so" "st_storage so" "st_stack so"]
        create_none_iff(3) [of "st_map so" "st_ids so" "st_addrs so"] by simp_all
    obtain st where st: "st_storage so = Some st" using all(3) create_none_iff(2) [of "st_pool so" "st_storage so" "st_stack so"] by auto
    have "krs_server_start so w = start_threads so h [Ev_io (Create_port h)] (front h (q\<lparr>mq_pool := Some ?a\<rparr>) ?a p m spm w)"
      using all by (simp add: unf set_spm_def front_def krs_message_queue_set_pool_def)
    moreover have ok: "start_ok so spm = threads_ok so spm" using good st all(1) by (simp add: start_ok_def)
    moreover have "mq_count (q\<lparr>mq_pool := Some ?a\<rparr>) = 0" using new_queue_empty [OF all(2)] by simp
    moreover have "threads_ok so spm \<or> threads_quiet (st_others so)" using quiet ok by blast
    note start_threads_spec [OF idle spm list this new, where q = "q\<lparr>mq_pool := Some ?a\<rparr>" and h = h and p = p and m = m]
    ultimately show ?thesis using all good st by auto
  qed
qed

text \<open>The server that runs after a start keeps the invariant of the protocol.\<close>

definition contexts_new :: "start_outcome \<Rightarrow> nat \<Rightarrow> bool" where
  "contexts_new so n \<longleftrightarrow> (\<forall>i < n. \<forall>j < n. \<forall>x. po_ctx (st_post so i) = Some x \<longrightarrow> po_ctx (st_post so j) = Some x \<longrightarrow> i = j)"

lemma with_ctx_silent: "silent_port (with_ctx po desc) = silent_port desc"
  by (simp add: with_ctx_def silent_port_def desc_ok_def desc_wf_def ch_refs_def refs0_def split: option.split)

lemma silent_refs0: "silent_port desc \<Longrightarrow> refs0 desc = []"
  by (simp add: silent_port_def refs0_def ch_refs_def) (metis unat_0)

lemma launched_fields:
  assumes "launched so h ds spm (front h q a p m spm w) evs w'"
  obtains spm1 rh where "st_retransmit so = Some rh"
    and "opened evs = h # iocp_handles so spm @ handler_handles so spm @ [rh]" and "closed evs = []"
    and "w_spm w' = Some spm1" and "spm_running spm1" and "spm_iocp_handle spm1 = Some h"
    and "spm_iocp_threads spm1 = Some (map Some (iocp_handles so spm))" and "spm_iocp_thread_count spm1 = spm_config_iocp_threads spm"
    and "spm_handler_threads spm1 = Some (map Some (handler_handles so spm))" and "spm_handler_thread_count spm1 = spm_config_handler_threads spm"
    and "spm_retransmit_thread spm1 = Some rh" and "spm_descriptor_list spm1 = spm_descriptor_list spm"
    and "spm_connection_map spm1 = Some m" and "spm_message_queue spm1 = Some q" and "spm_message_pool spm1 = Some a"
    and "w_wsa w' = krs_wsa_init (w_wsa w)" and "w_conns w' = w_conns w" and "w_next_connection_id w' = w_next_connection_id w"
    and "w_pools w' a = Some p"
proof -
  let ?v = "front h q a p m spm w"
  obtain spm0 rh where r: "w_spm ?v = Some spm0" "st_retransmit so = Some rh"
      "evs = Ev_io (Create_port h) # concat (map (\<lambda>j. posted (st_post so j) h (ds ! j) ?v) [0..<length ds]) @
       map (\<lambda>h. Ev_io (Create_thread h)) (iocp_handles so spm @ handler_handles so spm @ [rh])"
    and w': "w' = ?v\<lparr>w_descs := w_descs w', w_ctxs := w_ctxs w', w_spm := Some (spm0\<lparr>spm_running := True,
       spm_iocp_threads := Some (map Some (iocp_handles so spm)), spm_iocp_thread_count := spm_config_iocp_threads spm,
       spm_handler_threads := Some (map Some (handler_handles so spm)), spm_handler_thread_count := spm_config_handler_threads spm,
       spm_retransmit_thread := Some rh\<rparr>)\<rparr>"
    using assms unfolding launched_def by blast
  let ?spm1 = "spm0\<lparr>spm_running := True,
       spm_iocp_threads := Some (map Some (iocp_handles so spm)), spm_iocp_thread_count := spm_config_iocp_threads spm,
       spm_handler_threads := Some (map Some (handler_handles so spm)), spm_handler_thread_count := spm_config_handler_threads spm,
       spm_retransmit_thread := Some rh\<rparr>"
  have spm0: "spm0 = spm\<lparr>spm_iocp_handle := Some h, spm_message_pool := Some a, spm_message_queue := Some q, spm_connection_map := Some m\<rparr>"
    using r(1) by (simp add: front_def)
  let ?post = "concat (map (\<lambda>j. posted (st_post so j) h (ds ! j) ?v) [0..<length ds])"
  have post: "opened ?post = []" "closed ?post = []" using posted_handles by (auto simp: concat_eq_Nil_conv)
  have "w_spm w' = Some ?spm1" "w_wsa w' = krs_wsa_init (w_wsa w)" "w_conns w' = w_conns w"
      "w_next_connection_id w' = w_next_connection_id w" "w_pools w' a = Some p"
    by (subst w', simp add: front_def)+
  then show thesis by (intro that [OF r(2), of ?spm1]) (use post in \<open>simp_all add: r(3) spm0\<close>)
qed

lemma launched_live:
  assumes idle: "server_idle w" and spm: "w_spm w = Some spm" and list: "spm_descriptor_list spm = Some list"
    and q: "mq_ok q a p {}" and m: "cm_ok m" "cm_abs m = (Map.empty, Map.empty)" and fresh: "contexts_new so (length (arr_vals list))"
    and l: "launched so h (arr_vals list) spm (front h q a p m spm w) evs w'"
  shows "server_live a w'"
proof -
  let ?v = "front h q a p m spm w" and ?n = "length (arr_vals list)"
  have d: "\<forall>j < ?n. w_descs w' (arr_vals list ! j) = map_option (with_ctx (st_post so j)) (w_descs ?v (arr_vals list ! j))"
      "\<forall>d. d \<notin> set (arr_vals list) \<longrightarrow> w_descs w' d = w_descs ?v d"
      "\<forall>j < ?n. \<forall>x. po_ctx (st_post so j) = Some x \<longrightarrow> w_ctxs w' x \<noteq> None"
    using l unfolding launched_def by blast+
  have i: "arr_ok list" "distinct (arr_vals list)" "dom (w_descs w) = set (arr_vals list)"
      "\<And>d desc. w_descs w d = Some desc \<Longrightarrow> silent_port desc \<and> ds_recv_ctx desc = None"
      "\<And>r c. w_conns w r = Some c \<Longrightarrow> conn_ok w c"
    using idle spm list by (auto simp: server_idle_def)
  have desc: "\<exists>desc. w_descs w' (arr_vals list ! j) = Some desc \<and> silent_port desc \<and> ds_recv_ctx desc = po_ctx (st_post so j)" if "j < ?n" for j
  proof -
    have "arr_vals list ! j \<in> dom (w_descs w)" using that i(3) by auto
    then obtain desc where "w_descs w (arr_vals list ! j) = Some desc" by auto
    with d(1) that i(4) [OF this] show ?thesis
      by (auto simp: front_def with_ctx_silent) (simp add: with_ctx_def split: option.split)
  qed
  have dom: "dom (w_descs w') = set (arr_vals list)"
    using d(2) desc i(3) by (auto simp: front_def in_set_conv_nth dom_def) (metis (no_types) domIff i(3) in_set_conv_nth option.discI)+
  have ex: "\<exists>j < ?n. e = arr_vals list ! j" if "w_descs w' e = Some desc" for e desc
    using that dom by (auto simp: in_set_conv_nth dom_def set_eq_iff) metis
  obtain spm' where s: "w_spm w' = Some spm'" "spm_connection_map spm' = Some m" "spm_descriptor_list spm' = Some list"
      "spm_message_queue spm' = Some q" "spm_message_pool spm' = Some a"
    and fields: "w_conns w' = w_conns w" "w_next_connection_id w' = w_next_connection_id w" "w_pools w' a = Some p"
    by (rule launched_fields [OF l]) (use list in simp)
  have silent: "silent_port desc" if "w_descs w' e = Some desc" for e desc using ex [OF that] desc that by (metis option.inject)
  have "sv_inv w'" using s m silent silent_refs0 fields i(5)
    by (auto simp: sv_inv_def sv_map_def desc_conns_ok_def map_conns_ok_def conn_ok_def silent_port_def)
  moreover have "contexts_ok w' (arr_vals list)"
    unfolding contexts_ok_def
  proof (intro conjI ballI allI impI)
    fix e assume "e \<in> set (arr_vals list)"
    then obtain j where j: "j < ?n" "e = arr_vals list ! j" by (auto simp: in_set_conv_nth)
    show "w_descs w' e \<noteq> None" using desc [OF j(1)] j(2) by auto
    show "w_ctxs w' x \<noteq> None" if "w_descs w' e = Some desc'" "ds_recv_ctx desc' = Some x" for desc' x
      using that desc [OF j(1)] j d(3) by auto
    show "e2 = e" if e2: "e2 \<in> set (arr_vals list)" "w_descs w' e = Some d1" "w_descs w' e2 = Some d2" "ds_recv_ctx d1 = Some x" "ds_recv_ctx d2 = Some x"
      for e2 d1 d2 x
    proof -
      obtain k where k: "k < ?n" "e2 = arr_vals list ! k" using e2(1) by (auto simp: in_set_conv_nth)
      have "po_ctx (st_post so j) = Some x" "po_ctx (st_post so k) = Some x"
        using e2(2-5) desc [OF j(1)] desc [OF k(1)] j(2) k(2) by auto
      then show ?thesis using fresh j k unfolding contexts_new_def by blast
    qed
  qed
  then have "descriptors_ok w'"
    using s(1,3) i(1,2) dom desc silent_refs0 by (fastforce simp: descriptors_ok_def in_set_conv_nth)
  moreover have "messages_ok a w'" using s q fields(3) by (auto simp: messages_ok_def)
  ultimately show ?thesis by (simp add: server_live_def)
qed

section \<open>Starting and stopping\<close>


text \<open>
  C11. From an idle server a start whose calls all succeed leads to a running server that satisfies the
  invariant of the protocol, and stopping it leads back to an idle server: the stop closes exactly the
  handles the start has opened, destroys the pool, and balances the use of Winsock. Between the two the
  threads may do anything that keeps the invariant.
\<close>

theorem start_stop_cycle:
  assumes "server_idle w" and "w_spm w = Some spm" and "spm_descriptor_list spm = Some list" and "start_ok so spm"
    and "w_pools w (st_pool_id so) = None" and "storage_fits (the (st_storage so)) 1024" and "contexts_new so (length (arr_vals list))"
    and "threads_behave (st_pool_id so) others"
  shows "\<exists>r evs w1 evs' w2. krs_server_start so w = Some (r, evs, w1) \<and> rb_valid r \<and> server_live (st_pool_id so) w1 \<and>
    krs_server_stop others w1 = Some (evs', w2) \<and> server_idle w2 \<and> closed evs = [] \<and> opened evs' = [] \<and>
    mset (closed evs') = mset (opened evs) \<and> w_pools w2 (st_pool_id so) = None \<and>
    w_wsa w2 = krs_wsa_cleanup (krs_wsa_init (w_wsa w))"
proof -
  let ?a = "st_pool_id so" and ?its = "iocp_handles so spm" and ?hts = "handler_handles so spm"
  from start_cases [OF assms(1-3) disjI1 [OF assms(4)] assms(5)] assms(4) obtain r evs w1 h q p m st where
    s: "krs_server_start so w = Some (r, evs, w1)" "rb_valid r" "st_storage so = Some st" "krs_message_queue_create 256 True True = Some q"
      "krs_message_pool_create 1024 True (Some st) True = Some p" "krs_connection_map_create 64 True True True = Some m"
      "launched so h (arr_vals list) spm (front h (q\<lparr>mq_pool := Some ?a\<rparr>) ?a p m spm w) evs w1" by auto
  have "mq_ok (q\<lparr>mq_pool := Some ?a\<rparr>) ?a p {}"
    by (rule new_messages [of st ?a]) (use s(3-5) assms(6) in simp_all)
  moreover have "unat (s_next_power_of_two 64) \<le> 2 ^ 29" by (simp add: s_next_power_of_two_def Let_def)
  ultimately have live: "server_live ?a w1"
    using launched_live [OF assms(1-3) _ _ _ assms(7) s(7)] cm_create_ok(1,2) [OF s(6)] by blast
  obtain spm1 rh where l: "opened evs = h # ?its @ ?hts @ [rh]" "closed evs = []"
      "w_spm w1 = Some spm1" "spm_running spm1" "spm_iocp_handle spm1 = Some h" "spm_iocp_threads spm1 = Some (map Some ?its)"
      "spm_iocp_thread_count spm1 = spm_config_iocp_threads spm" "spm_handler_threads spm1 = Some (map Some ?hts)"
      "spm_handler_thread_count spm1 = spm_config_handler_threads spm" "spm_retransmit_thread spm1 = Some rh"
      "spm_descriptor_list spm1 = spm_descriptor_list spm" "w_wsa w1 = krs_wsa_init (w_wsa w)" by (rule launched_fields [OF s(7)])
  have len: "length ?its = unat (spm_config_iocp_threads spm)" "length ?hts = unat (spm_config_handler_threads spm)"
    using assms(4) by (simp_all add: start_ok_def threads_ok_def first_threads_all)
  have its: "spm_iocp_thread_count spm1 = of_nat (length ?its)" "length ?its < 2 ^ 32"
    and hts: "spm_handler_thread_count spm1 = of_nat (length ?hts)" "length ?hts < 2 ^ 32"
    unfolding len l(7,9) using unat_less_power_u32 [of "spm_config_iocp_threads spm"] unat_less_power_u32 [of "spm_config_handler_threads spm"] by simp_all
  have l11: "spm_descriptor_list spm1 = Some list" using l(11) assms(3) by simp
  obtain v f w2 where t: "krs_server_stop others w1 = Some (replicate (length ?its) (Ev_io (Post_shutdown (Some h))) @
        Ev_io (Wait_threads ?its 5000) # map (\<lambda>h. Ev_io (Close_handle h)) ?its @ Ev_io (Wait_threads ?hts 5000) # map (\<lambda>h. Ev_io (Close_handle h)) ?hts @
        Ev_io (Wait_threads [rh] 2000) # map (\<lambda>h. Ev_io (Close_handle h)) [rh] @
        concat (map (\<lambda>d. disconnects v (the (w_descs v d)) (f d)) (arr_vals list)) @ map (\<lambda>h. Ev_io (Close_handle h)) [h], w2)"
      "server_idle w2" "w_pools w2 ?a = None" "w_wsa w2 = krs_wsa_cleanup (w_wsa w1)"
    by (rule stop_run [OF live l(3-6) its l(8) hts l(10) l11 assms(8)])
  let ?disc = "concat (map (\<lambda>d. disconnects v (the (w_descs v d)) (f d)) (arr_vals list))"
  have "e \<in> set (disconnects x y z) \<Longrightarrow> opens e = [] \<and> closes e = []" for e x y z
    by (auto simp: disconnects_def split: option.splits)
  then have disc: "opened ?disc = []" "closed ?disc = []" by (auto simp: concat_eq_Nil_conv)
  show ?thesis
    by (intro exI conjI, rule s(1), rule s(2), rule live, rule t(1), rule t(2)) (use l(1,2,12) t(3,4) disc in simp_all)
qed

section \<open>A small server to start\<close>

definition sample_idle :: world where
  "sample_idle = sample_world\<lparr>w_spm := Some (sample_manager\<lparr>spm_descriptor_list := Some (one_descriptor 3)\<rparr>),
     w_descs := [3 \<mapsto> sample_descriptor]\<rparr>"

definition sample_start :: start_outcome where
  "sample_start = \<lparr>st_iocp = Some 10, st_queue = True, st_items = True, st_pool = True, st_pool_id = 1, st_storage = Some 4096,
     st_stack = True, st_map = True, st_ids = True, st_addrs = True, st_post = (\<lambda>_. \<lparr>po_ctx = Some 7, po_associated = True\<rparr>),
     st_iocp_array = True, st_iocp_thread = (\<lambda>i. Some (11 + of_nat i)), st_handler_array = True, st_handler_thread = (\<lambda>i. Some (20 + of_nat i)),
     st_retransmit = Some 30, st_others = (\<lambda>_ w. w)\<rparr>"

lemma sample_idle_ok:
  "server_idle sample_idle" "w_spm sample_idle = Some (sample_manager\<lparr>spm_descriptor_list := Some (one_descriptor 3)\<rparr>)"
  "w_pools sample_idle 1 = None"
proof -
  have "manager_idle sample_manager"
    by (simp add: manager_idle_def sample_manager_def krs_server_port_manager_create_def krs_lib_port_table_create_def port_table_create_def
      port_table_alloc_def port_links_alloc_def krs_array_create_def Let_def map_replicate_const)
  then have "manager_idle (sample_manager\<lparr>spm_descriptor_list := Some (one_descriptor 3)\<rparr>)" by (simp add: manager_idle_def)
  moreover have "silent_port sample_descriptor" "ds_recv_ctx sample_descriptor = None"
    using zero_states by (simp_all add: silent_port_def) (simp add: sample_descriptor_def zero_descriptor_def)
  ultimately show "server_idle sample_idle"
    by (simp add: server_idle_def sample_idle_def sample_world_def one_descriptor_ok)
qed (simp_all add: sample_idle_def sample_world_def)

lemma sample_start_ok: "start_ok sample_start spm" "threads_quiet (st_others sample_start)"
proof -
  have "\<exists>cs. w = w\<lparr>w_ctxs := cs\<rparr>" for w :: world by (rule exI [of _ "w_ctxs w"]) simp
  then show "threads_quiet (st_others sample_start)" by (simp add: threads_quiet_def sample_start_def)
qed (simp add: start_ok_def threads_ok_def sample_start_def)


theorem start_stop_cycle_witness:
  "\<exists>r evs w1 evs' w2. krs_server_start sample_start sample_idle = Some (r, evs, w1) \<and> rb_valid r \<and> server_live 1 w1 \<and>
     krs_server_stop (\<lambda>_ w. w) w1 = Some (evs', w2) \<and> server_idle w2 \<and> mset (closed evs') = mset (opened evs)"
proof -
  let ?spm = "sample_manager\<lparr>spm_descriptor_list := Some (one_descriptor 3)\<rparr>"
  have so: "st_pool_id sample_start = 1" "storage_fits (the (st_storage sample_start)) 1024"
    by (simp_all add: sample_start_def storage_fits_def)
  have "contexts_new sample_start (length (arr_vals (one_descriptor 3)))" by (simp add: contexts_new_def one_descriptor_ok)
  moreover have "threads_behave (st_pool_id sample_start) (\<lambda>_ w. w)" by (simp add: threads_behave_def)
  moreover have "w_pools sample_idle (st_pool_id sample_start) = None" "spm_descriptor_list ?spm = Some (one_descriptor 3)"
    using sample_idle_ok(3) by (simp_all add: so)
  ultimately show ?thesis
    using start_stop_cycle [OF sample_idle_ok(1,2) _ sample_start_ok(1) _ so(2)] unfolding so(1) by blast
qed

end
