(* ===== verification/Kronos_Server_Io.thy ===== *)
theory Kronos_Server_Io
  imports Kronos_Server_Start
begin

text \<open>
  The threads that receive datagrams: \<open>iocp_io_thread.c\<close>. A round takes a completion from the port, copies
  the datagram into a message of the pool, pushes the message to the queue of the handler threads and posts
  the next receive. At the end the path of a datagram from the socket to the protocol is put together.
\<close>

section \<open>Receiving\<close>

text \<open>
  What \<open>GetQueuedCompletionStatus\<close> reports (the context with what the system has written into its buffer
  and its address), the outcomes of the allocations, and whether posting the next receive fails at first.
\<close>

record io_completion =
  ic_ok :: bool
  ic_bytes :: u32
  ic_shutdown :: bool
  ic_ctx :: "ctx_ref option"
  ic_buffer :: bytes
  ic_from :: port_address
  ic_malloc :: "msg_ptr option"
  ic_junk :: incoming_message
  ic_push :: bool
  ic_rearm_fails :: bool

text \<open>Filling a message and pushing it; a message that was never written holds arbitrary data.\<close>

definition io_enqueue :: "io_completion \<Rightarrow> udp_overlapped \<Rightarrow> world \<Rightarrow> world option" where
  "io_enqueue ic ctx w = do {
     spm \<leftarrow> w_spm w;
     (msg, ps) \<leftarrow> (case spm_message_pool spm of
         None \<Rightarrow> do { (msg, _) \<leftarrow> krs_message_pool_acquire None (ic_malloc ic); Some (msg, w_pools w) }
       | Some a \<Rightarrow> do {
           p \<leftarrow> w_pools w a;
           (msg, p') \<leftarrow> krs_message_pool_acquire (Some p) (ic_malloc ic);
           Some (msg, (w_pools w)(a := p')) });
     case msg of
       None \<Rightarrow> Some (w\<lparr>w_pools := ps\<rparr>)
     | Some m \<Rightarrow> do {
         let old = (case w_msgs w m of None \<Rightarrow> ic_junk ic | Some x \<Rightarrow> x);
         bytes \<leftarrow> mem_read (uo_buffer ctx) 0 (unat (ic_bytes ic));
         data \<leftarrow> mem_write (im_data old) 0 bytes;
         let im = \<lparr>im_data = data, im_data_length = ic_bytes ic, im_remote_address = uo_remote_addr ctx, im_port = uo_port ctx\<rparr>;
         (q, ps, freed) \<leftarrow> krs_message_queue_push (spm_message_queue spm) (Some m) (ic_push ic) ps;
         Some (forget_messages (case freed of None \<Rightarrow> [] | Some x \<Rightarrow> [x])
                 (set_spm (spm\<lparr>spm_message_queue := q\<rparr>) (w\<lparr>w_pools := ps, w_msgs := (w_msgs w)(m \<mapsto> im)\<rparr>))) } }"

text \<open>One round of the loop of the thread; the flag says whether the loop ends.\<close>

definition io_round :: "io_completion \<Rightarrow> world \<Rightarrow> (bool \<times> event list \<times> world) option" where
  "io_round ic w = do {
     spm \<leftarrow> w_spm w;
     if ic_shutdown ic then Some (True, [], w)
     else if \<not> spm_running spm then Some (True, [], w)
     else case ic_ctx ic of
       None \<Rightarrow> Some (False, [], w)
     | Some x \<Rightarrow> do {
         ctx0 \<leftarrow> w_ctxs w x;
         let ctx = ctx0\<lparr>uo_buffer := ic_buffer ic, uo_remote_addr := ic_from ic\<rparr>;
         let w = w\<lparr>w_ctxs := (w_ctxs w)(x \<mapsto> ctx)\<rparr>;
         w \<leftarrow> (if ic_ok ic \<and> ic_bytes ic > 0 then io_enqueue ic ctx w else Some w);
         let arm = Ev_io (Recv_from (uo_socket ctx) x);
         Some (False, if ic_rearm_fails ic then [arm, arm] else [arm], w) } }"

fun krs_server_iocp_io_thread ::
    "((world \<Rightarrow> world) \<times> io_completion) list \<Rightarrow> world \<Rightarrow> (bool \<times> event list \<times> world) option" where
  "krs_server_iocp_io_thread [] w = do { spm \<leftarrow> w_spm w; Some (\<not> spm_running spm, [], w) }"
| "krs_server_iocp_io_thread ((others, ic) # rounds) w = do {
     spm \<leftarrow> w_spm w;
     if \<not> spm_running spm then Some (True, [], w)
     else do {
       (ended, evs, w) \<leftarrow> io_round ic (others w);
       if ended then Some (True, evs, w)
       else do {
         (ended, evs', w) \<leftarrow> krs_server_iocp_io_thread rounds w;
         Some (ended, evs @ evs', w) } } }"

section \<open>The queue as a list of datagrams\<close>

definition datagram_in :: "incoming_message \<Rightarrow> bytes \<times> port_address \<times> port" where
  "datagram_in im = (take (unat (im_data_length im)) (im_data im), im_remote_address im, im_port im)"

definition inbox :: "world \<Rightarrow> message_queue \<Rightarrow> (bytes \<times> port_address \<times> port) option list" where
  "inbox w q = map (\<lambda>m. map_option datagram_in (w_msgs w m)) (mq_view q)"

text \<open>A push on the list of datagrams.\<close>

definition push_datagram :: "message_queue \<Rightarrow> bool \<Rightarrow> 'a \<Rightarrow> 'a list \<Rightarrow> 'a list" where
  "push_datagram q alloc x xs =
     (if mq_count q < mq_capacity q then xs @ [x]
      else if mq_max_capacity q \<le> mq_capacity q then tl xs @ [x]
      else if alloc then xs @ [x] else xs)"

text \<open>
  The messages of the server: each has a buffer of 1500 bytes, and the ones in the queue hold no more than
  that.
\<close>

definition messages_typed :: "world \<Rightarrow> message_queue \<Rightarrow> bool" where
  "messages_typed w q \<longleftrightarrow> (\<forall>m im. w_msgs w m = Some im \<longrightarrow> length (im_data im) = KRONOS_BUFFER_SIZE) \<and>
     (\<forall>m \<in> set (mq_view q). \<exists>im. w_msgs w m = Some im \<and> unat (im_data_length im) \<le> KRONOS_BUFFER_SIZE)"

definition receiving :: "pool_id \<Rightarrow> msg_ptr set \<Rightarrow> message_queue \<Rightarrow> message_pool \<Rightarrow> world \<Rightarrow> bool" where
  "receiving a hands q p w \<longleftrightarrow> (\<exists>spm. w_spm w = Some spm \<and> spm_message_queue spm = Some q \<and> spm_message_pool spm = Some a) \<and>
     w_pools w a = Some p \<and> mq_ok q a p hands \<and> messages_typed w q"

text \<open>What the operating system and \<open>malloc\<close> promise about a completion.\<close>

definition completion_ok :: "io_completion \<Rightarrow> msg_ptr set \<Rightarrow> message_queue \<Rightarrow> message_pool \<Rightarrow> world \<Rightarrow> bool" where
  "completion_ok ic hands q p w \<longleftrightarrow> (\<forall>x. ic_ctx ic = Some x \<longrightarrow> w_ctxs w x \<noteq> None) \<and> length (ic_buffer ic) = KRONOS_BUFFER_SIZE \<and>
     unat (ic_bytes ic) \<le> KRONOS_BUFFER_SIZE \<and> length (im_data (ic_junk ic)) = KRONOS_BUFFER_SIZE \<and>
     fresh_msg p (set (mq_view q) \<union> hands) (ic_malloc ic)"

section \<open>One round\<close>

text \<open>A push frees no message that is still in the queue.\<close>

lemma release_freed: "release_to ps pool m = Some (ps', Some x) \<Longrightarrow> x = m"
  by (auto simp: release_to_def krs_message_pool_release_def Let_def split: option.splits if_splits Option.bind_splits)

lemma push_frees:
  assumes ok: "mq_ok q a p hands" and m: "m \<in> hands" and ps: "ps a = Some p"
    and push: "krs_message_queue_push (Some q) (Some m) alloc ps = Some (Some q', ps', Some x)"
  shows "x \<notin> set (mq_view q')"
proof -
  have view: "mq_view q' = push_view q m alloc" using push_spec [where ps = ps and alloc = alloc, OF ok m ps] push by auto
  have m': "m \<notin> set (mq_view q)" "distinct (mq_view q)" "mq_wf q" using ok m by (auto simp: mq_ok_def)
  show ?thesis
  proof (cases "mq_max_capacity q \<le> mq_capacity q")
    case True
    then have full: "mq_count q = mq_capacity q" using push by (auto simp: krs_message_queue_push_def split: if_splits Option.bind_splits)
    then have "mq_view q \<noteq> []" using m'(3) by (metis length_mq_view less_irrefl list.size(3) mq_wf_def)
    then obtain y ys where y: "mq_view q = y # ys" by (cases "mq_view q") auto
    obtain q1 where "queue_take q = Some (y, q1)" by (rule ring.take_ok [OF m'(3) y])
    with push full True obtain ps1 pool where "release_to ps pool y = Some (ps1, Some x)"
      by (auto simp: krs_message_queue_push_def split: if_splits Option.bind_splits)
    from release_freed [OF this] show ?thesis using view full True y m'(1,2) by (auto simp: push_view_def)
  next
    case False
    then have "mq_count q = mq_capacity q" "\<not> alloc" "x = m"
      using push release_freed by (auto simp: krs_message_queue_push_def split: if_splits Option.bind_splits)
    with view False m'(1) show ?thesis by (auto simp: push_view_def)
  qed
qed

lemma push_inbox:
  assumes "mq_view q' = push_view q m alloc"
  shows "map f (mq_view q') = push_datagram q alloc (f m) (map f (mq_view q))"
  using assms by (simp add: push_view_def push_datagram_def map_tl)

lemma io_enqueue_spec:
  assumes r: "receiving a hands q p w" and spm: "w_spm w = Some spm" and ctx: "length (uo_buffer ctx) = KRONOS_BUFFER_SIZE"
    and n: "unat (ic_bytes ic) \<le> KRONOS_BUFFER_SIZE" and junk: "length (im_data (ic_junk ic)) = KRONOS_BUFFER_SIZE"
    and fresh: "fresh_msg p (set (mq_view q) \<union> hands) (ic_malloc ic)"
  shows "\<exists>w' q' p' ps ms. io_enqueue ic ctx w = Some w' \<and> receiving a hands q' p' w' \<and>
    w' = w\<lparr>w_pools := ps, w_spm := Some (spm\<lparr>spm_message_queue := Some q'\<rparr>), w_msgs := ms\<rparr> \<and>
    (inbox w' q' = push_datagram q (ic_push ic) (Some (take (unat (ic_bytes ic)) (uo_buffer ctx), uo_remote_addr ctx, uo_port ctx)) (inbox w q) \<or>
     q' = q \<and> inbox w' q = inbox w q \<and> free_msgs p = {} \<and>
       (ic_malloc ic = None \<or> card {m \<in> set (mq_view q) \<union> hands. \<not> in_storage p m} = 1024))"
proof -
  have q: "spm_message_queue spm = Some q" "spm_message_pool spm = Some a" "w_pools w a = Some p" "mq_ok q a p hands" "messages_typed w q"
    using r spm by (auto simp: receiving_def)
  have inv: "pool_inv p (set (mq_view q) \<union> hands)" using q(4) by (simp add: mq_ok_def)
  from acquire_any [OF inv fresh] obtain mo p1 where acq: "krs_message_pool_acquire (Some p) (ic_malloc ic) = Some (mo, Some p1)"
    and mo: "case mo of None \<Rightarrow> p1 = p \<and> free_msgs p = {} \<and>
          (ic_malloc ic = None \<or> card {m \<in> set (mq_view q) \<union> hands. \<not> in_storage p m} = 1024)
        | Some m \<Rightarrow> m \<notin> set (mq_view q) \<union> hands \<and> pool_inv p1 (insert m (set (mq_view q) \<union> hands)) \<and>
          (free_msgs p \<noteq> {} \<longrightarrow> m \<in> pool_slots p)" by blast
  show ?thesis
  proof (cases mo)
    case None
    have "io_enqueue ic ctx w = Some (w\<lparr>w_pools := (w_pools w)(a \<mapsto> p)\<rparr>)"
      using None spm q(1-3) acq mo by (simp add: io_enqueue_def)
    moreover have "w\<lparr>w_pools := (w_pools w)(a \<mapsto> p)\<rparr> = w" using q(3) by (cases w) (simp add: fun_upd_idem)
    moreover have "w = w\<lparr>w_pools := w_pools w, w_spm := Some (spm\<lparr>spm_message_queue := Some q\<rparr>), w_msgs := w_msgs w\<rparr>"
      using spm q(1) by (cases w; cases spm) simp
    ultimately show ?thesis using r None mo by (intro exI [of _ w] exI [of _ q] exI [of _ p] exI [of _ "w_pools w"] exI [of _ "w_msgs w"]) auto
  next
    case (Some m)
    have m: "m \<notin> set (mq_view q)" "m \<notin> hands" "mq_ok q a p1 (insert m hands)" using mo Some q(4) by (auto simp: mq_ok_def)
    let ?ps = "(w_pools w)(a \<mapsto> p1)"
    define old where "old = (case w_msgs w m of None \<Rightarrow> ic_junk ic | Some x \<Rightarrow> x)"
    have old: "length (im_data old) = 1500" using q(5) junk by (auto simp: old_def messages_typed_def split: option.split)
    let ?bytes = "take (unat (ic_bytes ic)) (uo_buffer ctx)"
    define im where "im = \<lparr>im_data = ?bytes @ drop (unat (ic_bytes ic)) (im_data old), im_data_length = ic_bytes ic,
      im_remote_address = uo_remote_addr ctx, im_port = uo_port ctx\<rparr>"
    have cp: "mem_read (uo_buffer ctx) 0 (unat (ic_bytes ic)) = Some ?bytes"
        "mem_write (im_data old) 0 ?bytes = Some (im_data im)"
      using ctx n old by (simp_all add: mem_read_def mem_write_def im_def min_def)
    from push_spec [where ps = ?ps and alloc = "ic_push ic", OF m(3) insertI1] obtain q' p' freed where
      push: "krs_message_queue_push (Some q) (Some m) (ic_push ic) ?ps = Some (Some q', ?ps(a \<mapsto> p'), freed)"
        "mq_ok q' a p' (insert m hands - {m})" "mq_view q' = push_view q m (ic_push ic)" by auto
    have keep: "x \<notin> set (mq_view q')" if "freed = Some x" for x
      using push_frees [where ps = ?ps, OF m(3) insertI1] push(1) that by auto
    define ms where "ms = (\<lambda>y. if y \<in> set (case freed of None \<Rightarrow> [] | Some x \<Rightarrow> [x]) then None else ((w_msgs w)(m \<mapsto> im)) y)"
    let ?w = "w\<lparr>w_pools := (w_pools w)(a \<mapsto> p'), w_spm := Some (spm\<lparr>spm_message_queue := Some q'\<rparr>), w_msgs := ms\<rparr>"
    have run: "io_enqueue ic ctx w = Some ?w"
      using spm q(1-3) acq Some cp push(1)
      by (simp add: io_enqueue_def Let_def old_def [symmetric] im_def forget_messages_def set_spm_def ms_def cong: if_cong)
    have ms: "ms y = ((w_msgs w)(m \<mapsto> im)) y" if "y \<in> set (mq_view q')" for y using that keep by (auto simp: ms_def split: option.split)
    have sub: "set (mq_view q') \<subseteq> insert m (set (mq_view q))"
      unfolding push(3) by (cases "mq_view q") (auto simp: push_view_def)
    have typed: "messages_typed ?w q'"
      using q(5) sub ms old ctx n by (auto simp: messages_typed_def ms_def im_def split: if_splits)
    have hands: "insert m hands - {m} = hands" using m(2) by auto
    have rec: "receiving a hands q' p' ?w" using push(2) typed q(2) by (simp add: receiving_def hands)
    have "inbox ?w q' = map (\<lambda>y. map_option datagram_in (((w_msgs w)(m \<mapsto> im)) y)) (mq_view q')"
      using ms by (auto simp: inbox_def)
    also have "\<dots> = push_datagram q (ic_push ic) (Some (datagram_in im)) (inbox w q)"
      using m(1) by (subst push_inbox [OF push(3)]) (auto simp: inbox_def intro!: arg_cong [where f = "push_datagram q (ic_push ic) _"])
    also have "datagram_in im = (?bytes, uo_remote_addr ctx, uo_port ctx)" using ctx n by (simp add: datagram_in_def im_def)
    finally show ?thesis using run rec by blast
  qed
qed

lemma receiving_ctxs [simp]: "receiving a hands q p (w\<lparr>w_ctxs := cs\<rparr>) = receiving a hands q p w"
  by (simp add: receiving_def messages_typed_def)

lemma inbox_ctxs [simp]: "inbox (w\<lparr>w_ctxs := cs\<rparr>) q = inbox w q"
  by (simp add: inbox_def)

text \<open>The outcome of a round: what became of the datagram.\<close>

definition enqueued :: "io_completion \<Rightarrow> port \<Rightarrow> msg_ptr set \<Rightarrow> message_queue \<Rightarrow> message_pool \<Rightarrow> world \<Rightarrow> message_queue \<Rightarrow> world \<Rightarrow> bool" where
  "enqueued ic port hands q p w q' w' \<longleftrightarrow>
     inbox w' q' = push_datagram q (ic_push ic) (Some (take (unat (ic_bytes ic)) (ic_buffer ic), ic_from ic, port)) (inbox w q) \<or>
     q' = q \<and> inbox w' q = inbox w q \<and> free_msgs p = {} \<and>
       (ic_malloc ic = None \<or> card {m \<in> set (mq_view q) \<union> hands. \<not> in_storage p m} = 1024)"

lemma io_round_run:
  assumes r: "receiving a hands q p w" and spm: "w_spm w = Some spm" "spm_running spm" and go: "\<not> ic_shutdown ic"
    and x: "ic_ctx ic = Some x" "w_ctxs w x = Some ctx" and c: "completion_ok ic hands q p w"
  obtains w' q' p' ps ms where
      "io_round ic w = Some (False, replicate (if ic_rearm_fails ic then 2 else 1) (Ev_io (Recv_from (uo_socket ctx) x)), w')"
    and "receiving a hands q' p' w'"
    and "w' = w\<lparr>w_ctxs := (w_ctxs w)(x \<mapsto> ctx\<lparr>uo_buffer := ic_buffer ic, uo_remote_addr := ic_from ic\<rparr>),
           w_pools := ps, w_spm := Some (spm\<lparr>spm_message_queue := Some q'\<rparr>), w_msgs := ms\<rparr>"
    and "if ic_ok ic \<and> ic_bytes ic > 0 then enqueued ic (uo_port ctx) hands q p w q' w' else q' = q \<and> inbox w' q' = inbox w q"
proof -
  let ?ctx = "ctx\<lparr>uo_buffer := ic_buffer ic, uo_remote_addr := ic_from ic\<rparr>"
  let ?w = "w\<lparr>w_ctxs := (w_ctxs w)(x \<mapsto> ?ctx)\<rparr>"
  have arms: "(if ic_rearm_fails ic then [e, e] else [e]) = replicate (if ic_rearm_fails ic then 2 else 1) e" for e :: event
    by (simp add: numeral_2_eq_2)
  show thesis
  proof (cases "ic_ok ic \<and> ic_bytes ic > 0")
    case True
    have "receiving a hands q p ?w" "w_spm ?w = Some spm" using r spm by simp_all
    from io_enqueue_spec [OF this, of ?ctx ic] c obtain w' q' p' ps ms where
      e: "io_enqueue ic ?ctx ?w = Some w'" "receiving a hands q' p' w'"
        "w' = ?w\<lparr>w_pools := ps, w_spm := Some (spm\<lparr>spm_message_queue := Some q'\<rparr>), w_msgs := ms\<rparr>"
        "enqueued ic (uo_port ctx) hands q p w q' w'"
      by (auto simp: completion_ok_def enqueued_def)
    show thesis
      by (rule that [where w' = w' and q' = q' and p' = p' and ps = ps and ms = ms]) (use True e x spm go arms in \<open>simp_all add: io_round_def Let_def\<close>)
  next
    case False
    have q: "spm_message_queue spm = Some q" using r spm by (auto simp: receiving_def)
    show thesis
    proof (rule that [where w' = ?w and q' = q and p' = p and ps = "w_pools w" and ms = "w_msgs w"])
      show "?w = w\<lparr>w_ctxs := (w_ctxs w)(x \<mapsto> ?ctx), w_pools := w_pools w,
          w_spm := Some (spm\<lparr>spm_message_queue := Some q\<rparr>), w_msgs := w_msgs w\<rparr>" using spm q by (cases w; cases spm) simp
    qed (use False x spm go arms r in \<open>auto simp: io_round_def Let_def\<close>)
  qed
qed

text \<open>Every completion is handled, and the messages stay well-formed.\<close>

lemma io_round_keeps:
  assumes r: "receiving a hands q p w" and c: "completion_ok ic hands q p w"
  shows "\<exists>ended evs w' q' p'. io_round ic w = Some (ended, evs, w') \<and> receiving a hands q' p' w' \<and> w_conns w' = w_conns w \<and>
    w_descs w' = w_descs w \<and> w_next_connection_id w' = w_next_connection_id w \<and> sv_map w' = sv_map w"
proof -
  obtain spm where spm: "w_spm w = Some spm" using r by (auto simp: receiving_def)
  consider (stop) "ic_shutdown ic \<or> \<not> spm_running spm \<or> ic_ctx ic = None" | (go) x where "\<not> ic_shutdown ic" "spm_running spm" "ic_ctx ic = Some x"
    by blast
  then show ?thesis
  proof cases
    case stop
    then have "\<exists>ended. io_round ic w = Some (ended, [], w)" using spm by (auto simp: io_round_def)
    with r show ?thesis by blast
  next
    case (go x)
    obtain ctx where ctx: "w_ctxs w x = Some ctx" using c go(3) by (auto simp: completion_ok_def)
    obtain w' q' p' ps ms evs where run: "io_round ic w = Some (False, evs, w')" "receiving a hands q' p' w'"
      and w': "w' = w\<lparr>w_ctxs := (w_ctxs w)(x \<mapsto> ctx\<lparr>uo_buffer := ic_buffer ic, uo_remote_addr := ic_from ic\<rparr>),
           w_pools := ps, w_spm := Some (spm\<lparr>spm_message_queue := Some q'\<rparr>), w_msgs := ms\<rparr>"
      by (rule io_round_run [OF r spm go(2,1,3) ctx c])
    have "w_conns w' = w_conns w" "w_descs w' = w_descs w" "w_next_connection_id w' = w_next_connection_id w" "sv_map w' = sv_map w"
      using spm by (simp_all add: w' sv_map_def)
    with run show ?thesis by blast
  qed
qed

text \<open>
  The run of a thread: between two rounds the other threads keep the messages well-formed, and each
  completion is as the operating system promises.
\<close>

fun rounds_ok :: "pool_id \<Rightarrow> ((world \<Rightarrow> world) \<times> io_completion) list \<Rightarrow> world \<Rightarrow> bool" where
  "rounds_ok a [] w = True"
| "rounds_ok a ((others, ic) # rounds) w =
     ((\<exists>hands q p. receiving a hands q p (others w) \<and> completion_ok ic hands q p (others w)) \<and>
      (case io_round ic (others w) of Some (False, _, w') \<Rightarrow> rounds_ok a rounds w' | _ \<Rightarrow> True))"

text \<open>
  C16. Whatever the other threads and the network do, the thread that receives datagrams never makes an
  invalid memory access: each of its rounds is defined, and after each the queue and the pool satisfy
  their invariant, every message has a buffer of 1500 bytes and every queued message a length within it.
\<close>

theorem io_thread_typed:
  assumes "receiving a hands q p w" and "rounds_ok a rounds w"
  shows "\<exists>ended evs w' hands' q' p'. krs_server_iocp_io_thread rounds w = Some (ended, evs, w') \<and> receiving a hands' q' p' w'"
  using assms
proof (induction rounds arbitrary: hands q p w)
  case Nil
  then show ?case by (fastforce simp: receiving_def)
next
  case (Cons round rounds)
  obtain others ic where round: "round = (others, ic)" by (cases round)
  obtain spm where spm: "w_spm w = Some spm" using Cons.prems(1) by (auto simp: receiving_def)
  show ?case
  proof (cases "spm_running spm")
    case False
    then have "krs_server_iocp_io_thread (round # rounds) w = Some (True, [], w)" using spm by (simp add: round)
    with Cons.prems(1) show ?thesis by blast
  next
    case True
    obtain hands1 q1 p1 where "receiving a hands1 q1 p1 (others w)" "completion_ok ic hands1 q1 p1 (others w)"
      using Cons.prems(2) by (auto simp: round)
    from io_round_keeps [OF this] obtain ended evs w' q' p' where
      r: "io_round ic (others w) = Some (ended, evs, w')" "receiving a hands1 q' p' w'" by blast
    show ?thesis
    proof (cases ended)
      case True
      with r spm \<open>spm_running spm\<close> show ?thesis by (auto simp: round)
    next
      case False
      then have "rounds_ok a rounds w'" using Cons.prems(2) r(1) by (auto simp: round)
      from Cons.IH [OF r(2) this] obtain ended' evs' w'' hands' q'' p'' where
        "krs_server_iocp_io_thread rounds w' = Some (ended', evs', w'')" "receiving a hands' q'' p'' w''" by blast
      with r spm True False show ?thesis by (auto simp: round)
    qed
  qed
qed


section \<open>From the socket to the protocol\<close>

text \<open>A message that holds exactly a datagram.\<close>

lemma message_bytes:
  assumes "datagram_in im = (take (unat n) buf, addr, port)" and "unat n \<le> length buf"
    and "unat (im_data_length im) \<le> length (im_data im)"
  shows "im_data_length im = n" and "im_data im = take (unat n) buf @ drop (unat n) (im_data im)"
proof -
  have t: "take (unat (im_data_length im)) (im_data im) = take (unat n) buf" using assms(1) by (simp add: datagram_in_def)
  from arg_cong [OF this, of length] assms(2,3) have len: "unat (im_data_length im) = unat n" by simp
  then show "im_data_length im = n" by (simp add: word_unat_eq_iff)
  with t show "im_data im = take (unat n) buf @ drop (unat n) (im_data im)" by (metis append_take_drop_id)
qed


section \<open>A small server that receives\<close>

definition sample_completion :: io_completion where
  "sample_completion = \<lparr>ic_ok = True, ic_bytes = 14, ic_shutdown = False, ic_ctx = Some 7, ic_buffer = im_data sample_message,
     ic_from = krs_network_port_address_create 5000 zero_address, ic_malloc = None, ic_junk = sample_message, ic_push = True,
     ic_rearm_fails = False\<rparr>"

definition sample_context :: udp_overlapped where
  "sample_context = \<lparr>uo_buffer = replicate 1500 0, uo_remote_addr = zero_port_address, uo_port = 80, uo_socket = 77\<rparr>"

lemma sample_receiving:
  obtains w spm q p pt where "receiving 1 {} q p w" and "sv_inv w" and "w_spm w = Some spm" and "spm_running spm"
    and "w_ctxs w 7 = Some sample_context" and "completion_ok sample_completion {} q p w" and "mq_view q = []" and "free_msgs p \<noteq> {}"
    and "spm_port_table spm = Some pt" and "pt_ok pt" and "\<forall>q d. pt_map pt q = Some d \<longrightarrow> w_descs w d \<noteq> None"
    and "\<forall>d desc f. w_descs w d = Some desc \<longrightarrow> route_ready sample_handler w desc f"
proof -
  obtain pt m p0 where s: "sv_inv (sample_server pt m p0)" "pt_ok pt" "pt_map pt = [80 \<mapsto> 3]" "small_map m" by (rule sample_server_ok)
  obtain q p where q: "mq_ok (q\<lparr>mq_pool := Some 1\<rparr>) 1 p {}" "mq_count q = 0" "krs_message_pool_create 1024 True (Some 4096) True = Some p"
    by (rule new_messages [of 4096 1]) (simp_all add: storage_fits_def)
  let ?q = "q\<lparr>mq_pool := Some 1\<rparr>"
  have v: "mq_view ?q = []" using q(2) by (simp add: mq_view_def)
  have free: "free_msgs p = pool_slots p" using q(1) v by (simp add: mq_ok_def pool_inv_def)
  have "pl_capacity p = 1024" using q(3) by (auto simp: krs_message_pool_create_def)
  then have ne: "pool_slots p \<noteq> {}" by (simp add: pool_slots_def lessThan_empty_iff)
  let ?w0 = "sample_server pt m p0"
  let ?spm = "sample_manager\<lparr>spm_port_table := Some pt, spm_connection_map := Some m, spm_message_pool := Some 1,
    spm_message_queue := Some ?q, spm_running := True\<rparr>"
  define w where "w = ?w0\<lparr>w_spm := Some ?spm, w_pools := [1 \<mapsto> p], w_msgs := Map.empty, w_ctxs := [7 \<mapsto> sample_context]\<rparr>"
  have w: "w_spm w = Some ?spm" "w_pools w = [1 \<mapsto> p]" "w_msgs w = Map.empty" "w_ctxs w = [7 \<mapsto> sample_context]"
      "w_descs w = [3 \<mapsto> sample_descriptor]" "w_conns w = w_conns ?w0" "w_next_connection_id w = w_next_connection_id ?w0" "sv_map w = sv_map ?w0"
    by (simp_all add: w_def sample_server_def sv_map_def)
  have "sv_inv w" using s(1) w(5-8) by (simp add: sv_inv_def desc_conns_ok_def map_conns_ok_def conn_ok_def sample_server_def)
  moreover have "receiving 1 {} ?q p w" using q(1) v by (simp add: receiving_def w messages_typed_def)
  moreover have "completion_ok sample_completion {} ?q p w"
    by (simp add: completion_ok_def sample_completion_def w fresh_msg_def sample_message_def wire_header_def)
  moreover have "route_ready sample_handler w desc f" if "w_descs w d = Some desc" for d desc f
    using sample_ready(1) [OF s(4), of pt p0 f] that w(5-8) by (auto simp: route_ready_def split: if_splits)
  ultimately show thesis by (intro that [of ?q p w ?spm pt]) (use w v free ne s(2,3) in \<open>auto split: if_splits\<close>)
qed

theorem io_thread_typed_witness:
  "\<exists>w evs w' hands' q' p'. krs_server_iocp_io_thread [(\<lambda>w. w, sample_completion)] w = Some (False, evs, w') \<and> receiving 1 hands' q' p' w'"
proof -
  obtain w spm q p where s: "receiving 1 {} q p w" "w_spm w = Some spm" "spm_running spm" "w_ctxs w 7 = Some sample_context"
      "completion_ok sample_completion {} q p w"
    by (rule sample_receiving)
  have "rounds_ok 1 [(\<lambda>w. w, sample_completion)] w" using s(1,5) by (auto split: option.split bool.split)
  from io_thread_typed [OF s(1) this] obtain ended evs w' hands' q' p' where
    t: "krs_server_iocp_io_thread [(\<lambda>w. w, sample_completion)] w = Some (ended, evs, w')" "receiving 1 hands' q' p' w'" by blast
  have c: "\<not> ic_shutdown sample_completion" "ic_ctx sample_completion = Some 7" by (simp_all add: sample_completion_def)
  obtain w1 arm q1 where r: "io_round sample_completion w = Some (False, arm, w1)" "w_spm w1 = Some (spm\<lparr>spm_message_queue := Some q1\<rparr>)"
    by (rule io_round_run [OF s(1-3) c s(4,5)]) simp
  with t(1) s(2,3) have "\<not> ended" by auto
  with t show ?thesis by (intro exI [of _ w]) auto
qed



end
