(* ===== verification/Spec2Isabelle.thy ===== *)
theory Spec2Isabelle
  imports
    Kronos_Prelude
    Kronos_Error
    Kronos_Math
    Kronos_Log
    Kronos_Frame
    Kronos_Array
    Kronos_Fragment
    Kronos_Reassembler
    Kronos_Double
    Kronos_Ack
    Kronos_Congestion
    Kronos_Packet_Counter
    Kronos_Message_Pool
    Kronos_Message_Queue
    Kronos_Network
    Kronos_Hash_Table
    Kronos_Connection_Map
    Kronos_Port_Table
    Kronos_Server
    Kronos_Server_Handler
    Kronos_Server_Safety
    Kronos_Server_Protocol
    Kronos_Server_Send
    Kronos_Server_Retransmit
    Kronos_Client
    Kronos_Client_Protocol
    Kronos_Blocking_Send
    Kronos_Server_Lifecycle
    Kronos_Server_Start
    Kronos_Server_Io
begin

text \<open>
  Verification of Kronos, a message protocol over UDP written in C for Windows.

  The program. A message is cut into frames (\<open>src/frame\<close>), which carry a header, optional metadata and a
  payload; a receiver parses frames and reassembles the pieces of a message. Reliable frames are kept
  by an acknowledgement tracker (\<open>src/ack\<close>) until they are acknowledged or given up, and a congestion
  controller (\<open>src/congestion\<close>) limits the packets in flight. A server (\<open>src/connection/server\<close>) receives
  datagrams on completion port threads, which copy them into messages of a pool and push them to a queue;
  handler threads take them out, find the port and the connection they belong to and act on the frame:
  they open and close connections, keep subscriptions, acknowledge, and call the callbacks of the
  application. A retransmission thread resends what was not acknowledged and evicts connections that have
  fallen silent. The application sends to one connection or broadcasts to the subscribers of a channel.
  The client (\<open>src/connection/client\<close>) has one connection and one receive thread. Addresses and sockets are
  in \<open>src/connection/network\<close>.

  The basis:
  \<^item> \<open>Kronos_Prelude\<close>: conventions (words, buffers, undefined behaviour as \<open>None\<close>), shared lemmas, the
    locale \<open>wire_codec\<close> of fixed-width encodings;
  \<^item> \<open>Kronos_Error\<close>, \<open>Kronos_Math\<close>, \<open>Kronos_Log\<close>: error codes and results, bit masks and big-endian reads,
    logging with its threshold;
  \<^item> \<open>Kronos_Double\<close>: binary64 rounding on rational numbers, with the locale \<open>rounding\<close>;
  \<^item> \<open>Kronos_Array\<close>: \<open>src/lib/array\<close>; the array refines a list, and the locale \<open>array_loops\<close> gives the loops
    its clients write over it;
  \<^item> \<open>Kronos_Network\<close>: \<open>src/connection/network\<close>, with the reference count of Winsock.

  Frames and transport:
  \<^item> \<open>Kronos_Frame\<close>: \<open>frame_builder.c\<close>, \<open>frame_lifecycle.c\<close>, \<open>frame_content.c\<close>, \<open>frame_utility.c\<close>,
    \<open>frame_version.c\<close>; parsing stays in bounds on every input, and serialization is inverted by parsing;
  \<^item> \<open>Kronos_Fragment\<close>, \<open>Kronos_Reassembler\<close>: \<open>fragment.c\<close>; splitting, and reassembly as a refinement of
    an abstract map of pending packets, up to the round trip through the wire in any order;
  \<^item> \<open>Kronos_Ack\<close>: \<open>ack_tracker.c\<close>; \<open>Kronos_Congestion\<close>: \<open>congestion_controller.c\<close>;
    \<open>Kronos_Packet_Counter\<close>: \<open>packet_counter.c\<close>.

  The data of the server:
  \<^item> \<open>Kronos_Message_Pool\<close>, \<open>Kronos_Message_Queue\<close>: the messages the server threads share, with the
    ownership discipline over all interleavings and the locale \<open>fifo_ring\<close>;
  \<^item> \<open>Kronos_Hash_Table\<close>, \<open>Kronos_Connection_Map\<close>: \<open>connection_map.c\<close>, whose open-addressing table is
    studied once and used twice; both tables refine maps, and the reference count of a connection is exact
    under every interleaving;
  \<^item> \<open>Kronos_Port_Table\<close>: \<open>src/lib/port_table\<close>, which refines a map from ports to descriptors.

  The server. Its state is the record \<open>world\<close> of \<open>Kronos_Server\<close>: the port manager and a store for each kind
  of object that is shared by reference (descriptors, connections, pools, messages, receive contexts).
  What it does to the outside is a list of events: datagrams, calls of callbacks, calls of the system.
  \<^item> \<open>Kronos_Server\<close>: the structures of \<open>server_internal.h\<close>, set-up, callbacks and statistics;
  \<^item> \<open>Kronos_Server_Handler\<close>: \<open>message_handler.c\<close>, \<open>server_connection_handler.c\<close>; \<open>Kronos_Server_Safety\<close> has the
    invariant \<open>sv_inv\<close> and its preservation, \<open>Kronos_Server_Protocol\<close> what the handlers achieve: no
    datagram breaks the server, the life of a connection, subscriptions;
  \<^item> \<open>Kronos_Server_Send\<close>: \<open>server_broadcast.c\<close>; \<open>Kronos_Server_Retransmit\<close>: \<open>retransmit_thread.c\<close>;
  \<^item> \<open>Kronos_Server_Lifecycle\<close>, \<open>Kronos_Server_Start\<close>: \<open>iocp_lifecycle.c\<close>; a failed start gives everything
    back, start and stop lead from an idle server to a running one and back;
  \<^item> \<open>Kronos_Server_Io\<close>: \<open>iocp_io_thread.c\<close>, and the path of a datagram from the socket to its handler.

  The client and both together:
  \<^item> \<open>Kronos_Client\<close>: \<open>client_connection.c\<close> and the safety of its receive thread;
    \<open>Kronos_Client_Protocol\<close>: what its operations achieve, the handshake with the server of
    \<open>Kronos_Server_Protocol\<close> and the way of a message to the server and of its acknowledgement back;
  \<^item> \<open>Kronos_Blocking_Send\<close>: the blocking sends of both sides return, by the locale \<open>retryable_send\<close>.

  Choices. Allocation results, the clock, and results of system calls are arguments, so every failure
  branch is modelled. Loops are structural recursion or have a termination measure; a loop that may run
  forever is a \<open>partial_function\<close>, and the theorems show that it returns. A thread runs for as many rounds as
  it is given inputs for, and what the other threads do between its steps is an argument with the
  condition that it keeps the invariant; no other bound or fuel is used. A section under a lock is one
  step. Floating point operations round to nearest even at each operation; infinities and NaN cannot arise
  from the values the code computes.

  Not modelled: the demo and the tests; the calls of the logging functions inside the other components,
  which have no effect on their state; the locks themselves, and with them freedom from deadlock.
\<close>

end
